(* ===== verification/Semver.thy ===== *)
theory Semver
  imports Go_Prelude
begin

text \<open>
  \<open>internal/mods/semver\<close>: parsing of \<open>major.minor.patch\<close> versions with an optional pre-release
  suffix, and their comparison. A Go \<open>[3]int\<close> is a list of three integers. The theory ends with
  the order laws of the comparison: \<open>higher\<close> is a strict partial order on every version that
  parses, and a strict total order on versions whose numeric identifiers are canonical.
\<close>

subsection \<open>semver.go\<close>

text \<open>\<open>Parse\<close>: the loop over the three parts, stopping at the first that is no natural number.\<close>

fun parse_parts :: "string list \<Rightarrow> int list option" where
  "parse_parts [] = Some []"
| "parse_parts (p # ps) =
     (case atoi p of
        None \<Rightarrow> None
      | Some n \<Rightarrow> if n < 0 then None else map_option (\<lambda>ns. n # ns) (parse_parts ps))"

definition Parse :: "string \<Rightarrow> int list option" where
  "Parse v =
     (let parts = split_on (CHR ''.'') v
      in if length parts \<noteq> 3 then None else parse_parts parts)"

fun Greater :: "int list \<Rightarrow> int list \<Rightarrow> bool" where
  "Greater (x # xs) (y # ys) = (if x \<noteq> y then y < x else Greater xs ys)"
| "Greater _ _ = False"

subsection \<open>prerelease.go\<close>

record version =
  Core :: "int list"
  Pre :: string

definition valid_char :: "char \<Rightarrow> bool" where
  "valid_char c \<longleftrightarrow> is_digit c \<or> is_lower c \<or> is_upper c \<or> c = CHR ''-''"

definition validPreRelease :: "string \<Rightarrow> bool" where
  "validPreRelease pre \<longleftrightarrow>
     list_all (\<lambda>i. i \<noteq> [] \<and> list_all valid_char i) (split_on (CHR ''.'') pre)"

definition ParseVersion :: "string \<Rightarrow> version option" where
  "ParseVersion v =
     (let (core, pre) = (case cut_at (CHR ''-'') v of
                           None \<Rightarrow> (v, None) | Some (b, a) \<Rightarrow> (b, Some a))
      in case Parse core of
           None \<Rightarrow> None
         | Some parsed \<Rightarrow>
             (case pre of
                None \<Rightarrow> Some \<lparr>Core = parsed, Pre = []\<rparr>
              | Some p \<Rightarrow> if validPreRelease p then Some \<lparr>Core = parsed, Pre = p\<rparr> else None))"

definition IsPreRelease :: "version \<Rightarrow> bool" where
  "IsPreRelease v \<longleftrightarrow> Pre v \<noteq> []"

definition numericIdentifier :: "string \<Rightarrow> int option" where
  "numericIdentifier s =
     (case atoi s of
        None \<Rightarrow> None
      | Some n \<Rightarrow> if n < 0 \<or> s = [] then None else Some n)"

text \<open>The body of \<open>comparePreRelease\<close>'s loop for two identifiers that differ.\<close>

definition compareIdentifier :: "string \<Rightarrow> string \<Rightarrow> int" where
  "compareIdentifier a b =
     (case (numericIdentifier a, numericIdentifier b) of
        (Some an, Some bn) \<Rightarrow> if bn < an then 1 else -1
      | (Some _, None) \<Rightarrow> -1
      | (None, Some _) \<Rightarrow> 1
      | (None, None) \<Rightarrow> if b < a then 1 else -1)"

text \<open>The loop over the common length, then the switch on the two lengths.\<close>

fun compareIdentifiers :: "string list \<Rightarrow> string list \<Rightarrow> int" where
  "compareIdentifiers (a # as) (b # bs) =
     (if a = b then compareIdentifiers as bs else compareIdentifier a b)"
| "compareIdentifiers [] [] = 0"
| "compareIdentifiers (_ # _) [] = 1"
| "compareIdentifiers [] (_ # _) = -1"

definition comparePreRelease :: "string \<Rightarrow> string \<Rightarrow> int" where
  "comparePreRelease a b = compareIdentifiers (split_on (CHR ''.'') a) (split_on (CHR ''.'') b)"

fun compareCore :: "int list \<Rightarrow> int list \<Rightarrow> int" where
  "compareCore (x # xs) (y # ys) = (if x \<noteq> y then (if y < x then 1 else -1) else compareCore xs ys)"
| "compareCore _ _ = 0"

definition Compare :: "version \<Rightarrow> version \<Rightarrow> int" where
  "Compare a b =
     (let c = compareCore (Core a) (Core b)
      in if c \<noteq> 0 then c
         else if Pre a = Pre b then 0
         else if Pre a = [] then 1
         else if Pre b = [] then -1
         else comparePreRelease (Pre a) (Pre b))"

subsection \<open>Shape of parsed versions\<close>

definition wf_version :: "version \<Rightarrow> bool" where
  "wf_version v \<longleftrightarrow> length (Core v) = 3 \<and> (\<forall>n \<in> set (Core v). 0 \<le> n \<and> n \<le> int64_max) \<and>
     (Pre v = [] \<or> validPreRelease (Pre v))"

text \<open>
  A numeric identifier is canonical when it is the one spelling of its value: no leading zero and
  no sign. Only \<open>-0\<close>, which \<open>Atoi\<close> accepts, and leading zeros are excluded by it.
\<close>

definition canonical_identifier :: "string \<Rightarrow> bool" where
  "canonical_identifier s \<longleftrightarrow>
     numericIdentifier s = None \<or> (list_all is_digit s \<and> (s = ''0'' \<or> hd s \<noteq> CHR ''0''))"

definition canonical :: "version \<Rightarrow> bool" where
  "canonical v \<longleftrightarrow> list_all canonical_identifier (split_on (CHR ''.'') (Pre v))"

lemma parse_parts_bounds:
  "parse_parts ps = Some ns \<Longrightarrow> length ns = length ps \<and> (\<forall>n \<in> set ns. 0 \<le> n \<and> n \<le> int64_max)"
proof (induction ps arbitrary: ns)
  case Nil
  then show ?case by simp
next
  case (Cons p ps)
  then show ?case
    by (fastforce simp: atoi_def Let_def in_int64_def split: option.splits if_splits)
qed

lemma Parse_bounds:
  "Parse s = Some ns \<Longrightarrow> length ns = 3 \<and> (\<forall>n \<in> set ns. 0 \<le> n \<and> n \<le> int64_max)"
  using parse_parts_bounds by (fastforce simp: Parse_def Let_def split: if_splits)

lemma ParseVersion_wf: "ParseVersion s = Some v \<Longrightarrow> wf_version v"
  using Parse_bounds
  by (fastforce simp: ParseVersion_def wf_version_def split: option.splits prod.splits if_splits)

subsection \<open>Order laws of the identifiers\<close>

lemma compareIdentifier_values: "compareIdentifier a b = 1 \<or> compareIdentifier a b = -1"
  by (auto simp: compareIdentifier_def split: option.splits)

lemma compareIdentifier_trans:
  assumes "compareIdentifier a b = 1" and "compareIdentifier b c = 1"
  shows "compareIdentifier a c = 1"
  using assms by (auto simp: compareIdentifier_def split: option.splits if_splits)

lemma compareIdentifier_pos_irrefl: "compareIdentifier a a \<noteq> 1"
  by (auto simp: compareIdentifier_def split: option.splits)

lemma compareIdentifiers_values: "compareIdentifiers as bs \<in> {-1, 0, 1}"
  using compareIdentifier_values
  by (induction as bs rule: compareIdentifiers.induct) auto

lemma compareIdentifiers_refl [simp]: "compareIdentifiers as as = 0"
  by (induction as) auto

lemma compareIdentifier_nonzero [simp]: "compareIdentifier a b \<noteq> 0"
  using compareIdentifier_values [of a b] by auto

lemma compareIdentifiers_eq_0: "compareIdentifiers as bs = 0 \<longleftrightarrow> as = bs"
  by (induction as bs rule: compareIdentifiers.induct) auto

lemma compareIdentifiers_trans:
  "compareIdentifiers as bs = 1 \<Longrightarrow> compareIdentifiers bs cs = 1 \<Longrightarrow> compareIdentifiers as cs = 1"
proof (induction as bs arbitrary: cs rule: compareIdentifiers.induct)
  case (1 a as b bs)
  show ?case
  proof (cases cs)
    case Nil
    then show ?thesis by simp
  next
    case (Cons c cs')
    with 1 show ?thesis
      by (auto split: if_splits dest: compareIdentifier_trans simp: compareIdentifier_pos_irrefl)
  qed
next
  case (3 a as)
  then show ?case by (cases cs) auto
qed auto

lemma compareCore_values: "compareCore xs ys \<in> {-1, 0, 1}"
  by (induction xs ys rule: compareCore.induct) auto

lemma compareCore_eq_0: "length xs = length ys \<Longrightarrow> compareCore xs ys = 0 \<longleftrightarrow> xs = ys"
  by (induction xs ys rule: compareCore.induct) auto

lemma compareCore_swap: "compareCore ys xs = - compareCore xs ys"
  by (induction xs ys rule: compareCore.induct) auto

lemma compareCore_trans:
  "length xs = length ys \<Longrightarrow> length ys = length zs \<Longrightarrow>
   compareCore xs ys = 1 \<Longrightarrow> compareCore ys zs = 1 \<Longrightarrow> compareCore xs zs = 1"
proof (induction xs ys arbitrary: zs rule: compareCore.induct)
  case (1 x xs y ys)
  then show ?case by (cases zs) (auto split: if_splits)
qed auto

lemma Greater_compareCore: "length xs = length ys \<Longrightarrow> Greater xs ys \<longleftrightarrow> compareCore xs ys = 1"
  by (induction xs ys rule: compareCore.induct) auto

subsection \<open>Order laws of \<open>Compare\<close>\<close>

lemma Compare_values: "Compare a b \<in> {-1, 0, 1}"
  using compareCore_values [of "Core a" "Core b"] compareIdentifiers_values
  by (auto simp: Compare_def Let_def comparePreRelease_def)

lemma Compare_pos_iff: "0 < Compare a b \<longleftrightarrow> Compare a b = 1"
  using Compare_values [of a b] by auto

lemma Compare_refl: "Compare a a = 0"
proof -
  have "compareCore (Core a) (Core a) = 0" by (simp add: compareCore_eq_0)
  then show ?thesis by (simp add: Compare_def)
qed

lemma Compare_eq_0:
  assumes "wf_version a" and "wf_version b"
  shows "Compare a b = 0 \<longleftrightarrow> a = b"
proof -
  have "compareCore (Core a) (Core b) = 0 \<longleftrightarrow> Core a = Core b"
    using assms by (intro compareCore_eq_0) (simp add: wf_version_def)
  then show ?thesis
    by (auto simp: Compare_def Let_def comparePreRelease_def compareIdentifiers_eq_0 split_on_inj)
qed

lemma Compare_same_core:
  assumes "Core a = Core b"
  shows "Compare a b =
    (if Pre a = Pre b then 0 else if Pre a = [] then 1 else if Pre b = [] then -1
     else comparePreRelease (Pre a) (Pre b))"
proof -
  have "compareCore (Core a) (Core b) = 0" using assms by (simp add: compareCore_eq_0)
  then show ?thesis by (simp add: Compare_def)
qed

lemma comparePreRelease_refl [simp]: "comparePreRelease a a = 0"
  by (simp add: comparePreRelease_def)

lemma Compare_same_core_pos:
  assumes "Core a = Core b"
  shows "Compare a b = 1 \<longleftrightarrow>
    (Pre a = [] \<and> Pre b \<noteq> []) \<or>
    (Pre a \<noteq> [] \<and> Pre b \<noteq> [] \<and> comparePreRelease (Pre a) (Pre b) = 1)"
  unfolding Compare_same_core [OF assms] by auto

lemma comparePreRelease_trans:
  "comparePreRelease a b = 1 \<Longrightarrow> comparePreRelease b c = 1 \<Longrightarrow> comparePreRelease a c = 1"
  unfolding comparePreRelease_def by (rule compareIdentifiers_trans)

lemma Compare_trans:
  assumes wf: "length (Core a) = 3" "length (Core b) = 3" "length (Core c) = 3"
    and ab: "Compare a b = 1" and bc: "Compare b c = 1"
  shows "Compare a c = 1"
proof -
  let ?ab = "compareCore (Core a) (Core b)" and ?bc = "compareCore (Core b) (Core c)"
  consider "?ab = 1" "?bc = 1" | "?ab = 1" "?bc = 0" | "?ab = 0" "?bc = 1" | "?ab = 0" "?bc = 0"
    using ab bc compareCore_values [of "Core a" "Core b"] compareCore_values [of "Core b" "Core c"]
    by (auto simp: Compare_def Let_def split: if_splits)
  then show ?thesis
  proof cases
    case 1
    with wf have "compareCore (Core a) (Core c) = 1"
      using compareCore_trans [of "Core a" "Core b" "Core c"] by simp
    then show ?thesis by (simp add: Compare_def)
  next
    case 2
    with wf have "Core b = Core c" using compareCore_eq_0 by metis
    with 2 show ?thesis by (simp add: Compare_def)
  next
    case 3
    with wf have "Core a = Core b" using compareCore_eq_0 by metis
    with 3 show ?thesis by (simp add: Compare_def)
  next
    case 4
    with wf have eq: "Core a = Core b" "Core b = Core c" "Core a = Core c"
      using compareCore_eq_0 by metis+
    have "comparePreRelease (Pre a) (Pre c) = 1"
      if "comparePreRelease (Pre a) (Pre b) = 1" "comparePreRelease (Pre b) (Pre c) = 1"
      using that by (rule comparePreRelease_trans)
    moreover note ab [unfolded Compare_same_core_pos [OF eq(1)]]
      bc [unfolded Compare_same_core_pos [OF eq(2)]]
    ultimately show ?thesis by (simp only: Compare_same_core_pos [OF eq(3)]) satx
  qed
qed

subsection \<open>Canonical identifiers\<close>

lemma digit_value_range: "is_digit c \<Longrightarrow> (48::int) \<le> of_char c \<and> of_char c \<le> (57::int)"
  unfolding is_digit_def
  by (metis of_nat_of_char of_nat_le_iff of_nat_numeral)

lemma digits_val_lower:
  "list_all is_digit ds \<Longrightarrow> 10 ^ length ds * acc \<le> digits_val acc ds"
proof (induction ds arbitrary: acc)
  case (Cons c cs)
  then have "(48::int) \<le> of_char c" by (auto dest: digit_value_range)
  then have "10 ^ length cs * (10 * acc) \<le> 10 ^ length cs * (10 * acc + (of_char c - 48))"
    by (intro mult_left_mono) auto
  also have "\<dots> \<le> digits_val acc (c # cs)" using Cons by simp
  finally show ?case by (simp add: mult_ac)
qed simp

lemma digits_val_upper:
  "list_all is_digit ds \<Longrightarrow> digits_val acc ds < 10 ^ length ds * (acc + 1)"
proof (induction ds arbitrary: acc)
  case (Cons c cs)
  then have "of_char c \<le> (57::int)" by (auto dest: digit_value_range)
  then have le: "10 ^ length cs * (10 * acc + (of_char c - 48) + 1) \<le> 10 ^ length cs * (10 * acc + 10)"
    by (intro mult_left_mono) auto
  have "digits_val acc (c # cs) < 10 ^ length cs * (10 * acc + (of_char c - 48) + 1)"
    using Cons.IH [of "10 * acc + (of_char c - 48)"] Cons.prems by simp
  also note le
  also have "10 ^ length cs * (10 * acc + 10) = 10 ^ length (c # cs) * (acc + 1)"
    by (simp add: algebra_simps)
  finally show ?case .
qed simp

lemma digits_val_inj:
  "length as = length bs \<Longrightarrow> list_all is_digit as \<Longrightarrow> list_all is_digit bs \<Longrightarrow>
   digits_val m as = digits_val n bs \<Longrightarrow> m = n \<and> as = bs"
proof (induction as bs arbitrary: m n rule: list_induct2)
  case (Cons a as b bs)
  then have eq: "10 * m + (of_char a - 48) = 10 * n + (of_char b - 48)" and "as = bs"
    by auto
  from Cons.prems have "is_digit a" "is_digit b" by simp_all
  from this [THEN digit_value_range] eq have "m = n" "(of_char a :: int) = of_char b"
    by presburger+
  then show ?case using \<open>as = bs\<close> by simp
qed simp

lemma digits_val_leading:
  assumes "list_all is_digit (c # cs)" and "c \<noteq> CHR ''0''"
  shows "10 ^ length cs \<le> digits_val 0 (c # cs)"
proof -
  from assms(1) have "(48::int) \<le> of_char c" by (auto dest: digit_value_range)
  moreover have "of_char c \<noteq> (48::int)"
  proof
    assume "of_char c = (48::int)"
    then have "(of_char c :: int) = of_char (CHR ''0'')" by simp
    with assms(2) show False by (simp only: of_char_eq_iff)
  qed
  ultimately have "1 \<le> (of_char c :: int) - 48" by simp
  then have "10 ^ length cs * 1 \<le> 10 ^ length cs * ((of_char c :: int) - 48)"
    by (intro mult_left_mono) auto
  also have "\<dots> \<le> digits_val 0 (c # cs)"
    using digits_val_lower [of cs "of_char c - 48"] assms(1) by simp
  finally show ?thesis by simp
qed

lemma digits_val_same_length:
  assumes "list_all is_digit (a # as)" and "list_all is_digit (b # bs)"
    and "b \<noteq> CHR ''0''" and "digits_val 0 (a # as) = digits_val 0 (b # bs)"
  shows "length bs \<le> length as"
proof (rule ccontr)
  assume "\<not> length bs \<le> length as"
  then have "Suc (length as) \<le> length bs" by simp
  then have "(10::int) ^ Suc (length as) \<le> 10 ^ length bs" by (intro power_increasing) auto
  also have "\<dots> \<le> digits_val 0 (b # bs)" using assms by (intro digits_val_leading)
  also have "\<dots> < 10 ^ Suc (length as)"
    using digits_val_upper [OF assms(1), of 0] assms(4) by simp
  finally show False by simp
qed

lemma canonical_digits_inj:
  assumes a: "list_all is_digit a" "a = ''0'' \<or> hd a \<noteq> CHR ''0''" "a \<noteq> []"
    and b: "list_all is_digit b" "b = ''0'' \<or> hd b \<noteq> CHR ''0''" "b \<noteq> []"
    and eq: "digits_val 0 a = digits_val 0 b"
  shows "a = b"
proof -
  obtain x xs y ys where ab: "a = x # xs" "b = y # ys" using a(3) b(3) by (cases a; cases b) auto
  have "length xs = length ys"
  proof (cases "x = CHR ''0'' \<or> y = CHR ''0''")
    case False
    then show ?thesis
      using digits_val_same_length [of x xs y ys] digits_val_same_length [of y ys x xs] a b eq ab
      by simp
  next
    case True
    have pos: "\<And>n. \<not> (10::int) ^ n \<le> 0" by (simp add: not_le)
    from True show ?thesis
      using digits_val_leading [of x xs] digits_val_leading [of y ys] a b eq ab
      by (auto simp: pos)
  qed
  with ab digits_val_inj [of a b 0 0] a(1) b(1) eq show ?thesis by simp
qed

lemma numericIdentifier_digits:
  "list_all is_digit s \<Longrightarrow> numericIdentifier s = Some n \<Longrightarrow> n = digits_val 0 s \<and> s \<noteq> []"
  by (auto simp: numericIdentifier_def atoi_def Let_def is_digit_def
      split: option.splits list.splits if_splits)

lemma compareIdentifier_swap:
  assumes "canonical_identifier a" and "canonical_identifier b" and "a \<noteq> b"
  shows "compareIdentifier b a = - compareIdentifier a b"
proof (cases "numericIdentifier a = None \<or> numericIdentifier b = None")
  case True
  with assms(3) show ?thesis
    by (auto simp: compareIdentifier_def split: option.splits)
next
  case False
  then obtain m n where mn: "numericIdentifier a = Some m" "numericIdentifier b = Some n" by auto
  with assms have "m \<noteq> n"
    using canonical_digits_inj [of a b]
    by (auto simp: canonical_identifier_def dest!: numericIdentifier_digits)
  with mn show ?thesis by (simp add: compareIdentifier_def)
qed

lemma compareIdentifiers_swap:
  "list_all canonical_identifier as \<Longrightarrow> list_all canonical_identifier bs \<Longrightarrow>
   compareIdentifiers bs as = - compareIdentifiers as bs"
proof (induction as bs rule: compareIdentifiers.induct)
  case (1 a as b bs)
  then show ?case using compareIdentifier_swap [of a b] by simp
qed simp_all

lemma Compare_swap:
  assumes "canonical a" and "canonical b"
  shows "Compare b a = - Compare a b"
proof -
  have pre: "comparePreRelease (Pre b) (Pre a) = - comparePreRelease (Pre a) (Pre b)"
    unfolding comparePreRelease_def
    using assms by (intro compareIdentifiers_swap) (simp_all add: canonical_def)
  have core: "compareCore (Core b) (Core a) = - compareCore (Core a) (Core b)"
    by (rule compareCore_swap)
  show ?thesis
  proof (cases "Pre a = Pre b")
    case True
    with core show ?thesis by (simp add: Compare_def)
  next
    case False
    with core pre show ?thesis by (auto simp: Compare_def Let_def)
  qed
qed

subsection \<open>Properties\<close>

text \<open>Version order. On versions that parse, \<open>Compare\<close> answers -1, 0 or 1, answers 0 exactly on equal
  versions, is transitive, puts a pre-release below the release of the same core, and on two stable
  versions says what \<open>Greater\<close> says of their cores; between versions whose numeric identifiers are
  spelled without leading zeros it is antisymmetric, so any two of them are ordered one way.\<close>

lemma Compare_order:
  assumes "ParseVersion sa = Some a" and "ParseVersion sb = Some b" and "ParseVersion sc = Some c"
  shows "Compare a b \<in> {-1, 0, 1} \<and> (Compare a b = 0 \<longleftrightarrow> a = b) \<and>
    (Compare a b = 1 \<and> Compare b c = 1 \<longrightarrow> Compare a c = 1) \<and>
    (Core a = Core b \<and> IsPreRelease a \<and> \<not> IsPreRelease b \<longrightarrow> Compare a b = -1) \<and>
    (\<not> IsPreRelease a \<and> \<not> IsPreRelease b \<longrightarrow> (Compare a b = 1 \<longleftrightarrow> Greater (Core a) (Core b))) \<and>
    (canonical a \<and> canonical b \<longrightarrow> Compare b a = - Compare a b)"
proof -
  note wf = assms [THEN ParseVersion_wf]
  have len: "length (Core a) = 3" "length (Core b) = 3" "length (Core c) = 3" using wf by (simp_all add: wf_version_def)
  have "Compare a b = 1 \<longleftrightarrow> Greater (Core a) (Core b)" if "\<not> IsPreRelease a" "\<not> IsPreRelease b"
    using that Greater_compareCore [of "Core a" "Core b"] len compareCore_values [of "Core a" "Core b"]
    by (auto simp: Compare_def IsPreRelease_def Let_def)
  moreover have "Compare a b = -1" if "Core a = Core b" "IsPreRelease a" "\<not> IsPreRelease b"
    using that Compare_same_core [of a b] by (auto simp: IsPreRelease_def)
  ultimately show ?thesis
    using Compare_values [of a b] Compare_eq_0 [OF wf(1,2)] Compare_trans [OF len] Compare_swap [of a b] by blast
qed

lemma Compare_order_example:
  "\<exists>a b. ParseVersion ''2.0.14-beta.5'' = Some a \<and> ParseVersion ''2.0.14'' = Some b \<and> Compare a b = -1"
proof -
  have p: "ParseVersion ''2.0.14-beta.5'' = Some \<lparr>Core = [2, 0, 14], Pre = ''beta.5''\<rparr>"
    "ParseVersion ''2.0.14'' = Some \<lparr>Core = [2, 0, 14], Pre = []\<rparr>" by code_simp+
  from Compare_order [OF p(1) p(2) p(2)] p show ?thesis by (simp add: IsPreRelease_def)
qed

text \<open>Two spellings of one number: each version is then below the other.\<close>

lemma Compare_not_antisymmetric:
  "\<exists>a b. ParseVersion ''1.0.0-01'' = Some a \<and> ParseVersion ''1.0.0-1'' = Some b \<and>
     Compare a b = -1 \<and> Compare b a = -1"
proof -
  have "ParseVersion ''1.0.0-01'' = Some \<lparr>Core = [1, 0, 0], Pre = ''01''\<rparr>"
    "ParseVersion ''1.0.0-1'' = Some \<lparr>Core = [1, 0, 0], Pre = ''1''\<rparr>"
    "Compare \<lparr>Core = [1, 0, 0], Pre = ''01''\<rparr> \<lparr>Core = [1, 0, 0], Pre = ''1''\<rparr> = -1"
    "Compare \<lparr>Core = [1, 0, 0], Pre = ''1''\<rparr> \<lparr>Core = [1, 0, 0], Pre = ''01''\<rparr> = -1" by code_simp+
  then show ?thesis by blast
qed

lemma Parse_accepts_plus: "Parse ''+1.2.3'' = Some [1, 2, 3]"
  by code_simp

end
