(* ===== verification/Version_Order.thy ===== *)
theory Version_Order
  imports Main
begin

text \<open>
  What the dependency resolver relies on about version comparison: being higher is a strict
  partial order. The client side of that contract is the diamond rule of
  \<open>internal/mods/resolver\<close>: a package keeps the highest version any edge asked for, so the kept
  version is never below a version seen before. \<open>Resolver\<close> interprets the locale on the modelled
  comparison.
\<close>

locale version_order =
  fixes higher :: "'v \<Rightarrow> 'v \<Rightarrow> bool"
  assumes higher_irrefl: "\<not> higher v v"
    and higher_trans: "higher u v \<Longrightarrow> higher v w \<Longrightarrow> higher u w"
begin

lemma higher_asym: "higher u v \<Longrightarrow> \<not> higher v u"
  using higher_irrefl higher_trans by blast

lemma raise_covers_new: "\<not> higher v (if higher v cur then v else cur)"
  by (simp add: higher_irrefl)

lemma raise_keeps_covered: "\<not> higher u cur \<Longrightarrow> \<not> higher u (if higher v cur then v else cur)"
  using higher_trans by auto

lemma raise_monotone: "\<not> higher cur (if higher v cur then v else cur)"
  by (simp add: higher_irrefl higher_asym)

lemma not_higher_trans_raise:
  assumes "\<not> higher u cur" and "cur' = cur \<or> higher cur' cur"
  shows "\<not> higher u cur'"
  using assms higher_trans by blast

end

end
