(* ===== verification/Resolver.thy ===== *)
theory Resolver
  imports Semver Version_Order
begin

text \<open>
  \<open>internal/mods/resolver\<close>: the dependency closure of a mod install. The theory holds the data,
  the dependency-ident parser, the two graph walks (\<open>walk\<close>/\<open>expand\<close> and the final \<open>reachable\<close>),
  \<open>Resolve\<close> and \<open>Check\<close>. The recursion of both walks is bounded by fuel, and running out of
  it is \<^term>\<open>None\<close>; \<open>Resolver_Properties\<close> shows that one unit more than the number of packages
  the index knows always suffices.
\<close>

subsection \<open>Data\<close>

record request =
  ReqName :: string
  ReqVersion :: string

record node =
  NodeName :: string
  NodeVersion :: string
  Transitive :: bool
  NoOp :: bool

text \<open>The \<open>Index\<close> interface: what the caller supplies.\<close>

record index =
  Dependencies :: "string \<Rightarrow> string \<Rightarrow> string list option"
  Installed :: "string \<Rightarrow> string option"
  Held :: "string \<Rightarrow> bool"

datatype resolve_error =
    HeldError string string string
  | UnresolvedError string string
  | MalformedDependencyError string string string
  | BadVersionError string string
  | CycleError "string list"

text \<open>One \<open>Resolve\<close> call's working set. Go's \<open>map[string]bool\<close> \<open>explicit\<close> is the list of its keys,
  since \<open>reachable\<close> ranges over them.\<close>

record resolve_state =
  highest :: "string \<rightharpoonup> string"
  fixed :: "string \<rightharpoonup> string"
  explicit :: "string list"
  expanded :: "string set"
  discovered :: "string list"

definition init_state :: resolve_state where
  "init_state = \<lparr>highest = Map.empty, fixed = Map.empty, explicit = [], expanded = {},
     discovered = []\<rparr>"

subsection \<open>Dependency idents\<close>

text \<open>
  \<open>depPattern\<close> is \<^verbatim>\<open>^(.+)-(\d+\.\d+\.\d+(?:-[0-9A-Za-z.-]+)?)$\<close>: the version half has three runs of
  digits and optionally a hyphen and a non-empty suffix. The first group is greedy, so of all
  hyphens at which both halves match it takes the last. Its dot does not match a newline.
\<close>

definition core_pattern :: "string \<Rightarrow> bool" where
  "core_pattern b \<longleftrightarrow>
     (let ps = split_on (CHR ''.'') b
      in length ps = 3 \<and> list_all (\<lambda>p. p \<noteq> [] \<and> list_all is_digit p) ps)"

definition suffix_char :: "char \<Rightarrow> bool" where
  "suffix_char c \<longleftrightarrow> is_digit c \<or> is_upper c \<or> is_lower c \<or> c = CHR ''.'' \<or> c = CHR ''-''"

definition version_pattern :: "string \<Rightarrow> bool" where
  "version_pattern v =
     (case cut_at (CHR ''-'') v of
        None \<Rightarrow> core_pattern v
      | Some (b, a) \<Rightarrow> core_pattern b \<and> a \<noteq> [] \<and> list_all suffix_char a)"

fun hyphen_splits :: "string \<Rightarrow> (string \<times> string) list" where
  "hyphen_splits [] = []"
| "hyphen_splits (c # cs) =
     (if c = CHR ''-'' then [([], cs)] else []) @ map (\<lambda>(n, v). (c # n, v)) (hyphen_splits cs)"

definition dep_match :: "string \<times> string \<Rightarrow> bool" where
  "dep_match p \<longleftrightarrow> fst p \<noteq> [] \<and> CHR 0x0A \<notin> set (fst p) \<and> version_pattern (snd p)"

definition ParseDependency :: "string \<Rightarrow> (string \<times> string) option" where
  "ParseDependency ident =
     (case filter dep_match (hyphen_splits ident) of
        [] \<Rightarrow> None
      | m # ms \<Rightarrow> Some (last (m # ms)))"

subsection \<open>Versions\<close>

definition higher :: "string \<Rightarrow> string \<Rightarrow> bool" where
  "higher a b =
     (case (ParseVersion a, ParseVersion b) of
        (Some pa, Some pb) \<Rightarrow> 0 < Compare pa pb
      | _ \<Rightarrow> False)"

definition version_key :: "string \<Rightarrow> string \<Rightarrow> string" where
  "version_key fullName version = fullName @ ''@'' @ version"

subsection \<open>The working set\<close>

definition recordHighest :: "string \<Rightarrow> string \<Rightarrow> resolve_state \<Rightarrow> resolve_state" where
  "recordHighest fullName version s =
     (case highest s fullName of
        None \<Rightarrow> s\<lparr>discovered := discovered s @ [fullName],
                  highest := (highest s)(fullName \<mapsto> version)\<rparr>
      | Some cur \<Rightarrow>
          if higher version cur then s\<lparr>highest := (highest s)(fullName \<mapsto> version)\<rparr> else s)"

definition chosen :: "resolve_state \<Rightarrow> string \<Rightarrow> string" where
  "chosen s fullName =
     (case fixed s fullName of Some v \<Rightarrow> v | None \<Rightarrow> map_get (highest s) [] fullName)"

definition installedSatisfies ::
  "index \<Rightarrow> string \<Rightarrow> string \<Rightarrow> resolve_error + (string \<times> bool)" where
  "installedSatisfies idx fullName version =
     (case Installed idx fullName of
        None \<Rightarrow> Inr ([], False)
      | Some installed \<Rightarrow>
          if ParseVersion installed = None then Inl (BadVersionError fullName installed)
          else Inr (installed, \<not> higher version installed))"

definition checkCycle :: "string list \<Rightarrow> string \<Rightarrow> resolve_error option" where
  "checkCycle path fullName =
     (if fullName \<in> set path then Some (CycleError (path @ [fullName])) else None)"

subsection \<open>walk and expand\<close>

type_synonym walk_result = "(resolve_error + resolve_state) option"

text \<open>\<open>walk\<close> visits one dependency edge; \<open>rec\<close> is the call of \<open>expand\<close> it ends with.\<close>

definition walk ::
  "index \<Rightarrow> (string \<Rightarrow> string \<Rightarrow> string list \<Rightarrow> resolve_state \<Rightarrow> walk_result) \<Rightarrow>
   string \<Rightarrow> string \<Rightarrow> string list \<Rightarrow> resolve_state \<Rightarrow> walk_result" where
  "walk idx rec fullName version path s =
     (case checkCycle path fullName of
        Some e \<Rightarrow> Some (Inl e)
      | None \<Rightarrow>
          if fixed s fullName \<noteq> None then Some (Inr s)
          else case (if Held idx fullName then Installed idx fullName else None) of
            Some installed \<Rightarrow>
              Some (Inr (recordHighest fullName installed
                           (s\<lparr>fixed := (fixed s)(fullName \<mapsto> installed)\<rparr>)))
          | None \<Rightarrow>
              (case installedSatisfies idx fullName version of
                 Inl e \<Rightarrow> Some (Inl e)
               | Inr (installed, satisfied) \<Rightarrow>
                   if satisfied then Some (Inr (recordHighest fullName installed s))
                   else rec fullName version path s))"

text \<open>The loop of \<open>expand\<close> over the dependency idents of one package version.\<close>

fun walk_deps ::
  "index \<Rightarrow> (string \<Rightarrow> string \<Rightarrow> string list \<Rightarrow> resolve_state \<Rightarrow> walk_result) \<Rightarrow>
   string \<Rightarrow> string \<Rightarrow> string list \<Rightarrow> string list \<Rightarrow> resolve_state \<Rightarrow> walk_result" where
  "walk_deps idx rec fullName version path [] s = Some (Inr s)"
| "walk_deps idx rec fullName version path (dep # deps) s =
     (case ParseDependency dep of
        None \<Rightarrow> Some (Inl (MalformedDependencyError fullName version dep))
      | Some (depName, depVersion) \<Rightarrow>
          (case walk idx rec depName depVersion path s of
             None \<Rightarrow> None
           | Some (Inl e) \<Rightarrow> Some (Inl e)
           | Some (Inr s') \<Rightarrow> walk_deps idx rec fullName version path deps s'))"

primrec expand ::
  "nat \<Rightarrow> index \<Rightarrow> string \<Rightarrow> string \<Rightarrow> string list \<Rightarrow> resolve_state \<Rightarrow> walk_result" where
  "expand 0 idx fullName version path s = None"
| "expand (Suc fuel) idx fullName version path s =
     (case Dependencies idx fullName version of
        None \<Rightarrow> Some (Inl (UnresolvedError fullName version))
      | Some deps \<Rightarrow>
          (let s1 = recordHighest fullName version s; key = version_key fullName version
           in if key \<in> expanded s1 then Some (Inr s1)
              else walk_deps idx (expand fuel idx) fullName version (path @ [fullName]) deps
                     (s1\<lparr>expanded := insert key (expanded s1)\<rparr>)))"

subsection \<open>reachable and closure\<close>

text \<open>The successors \<open>visit\<close> follows: the dependencies of the chosen version, if it was expanded.\<close>

definition successors :: "index \<Rightarrow> resolve_state \<Rightarrow> string \<Rightarrow> string list" where
  "successors idx s fullName =
     (let version = chosen s fullName
      in if version_key fullName version \<notin> expanded s then []
         else case Dependencies idx fullName version of
                None \<Rightarrow> []
              | Some deps \<Rightarrow> map fst (List.map_filter ParseDependency deps))"

fun visit_list ::
  "(string \<Rightarrow> string set \<Rightarrow> string set option) \<Rightarrow> string list \<Rightarrow> string set \<Rightarrow> string set option" where
  "visit_list rec [] seen = Some seen"
| "visit_list rec (x # xs) seen =
     (case rec x seen of None \<Rightarrow> None | Some seen' \<Rightarrow> visit_list rec xs seen')"

primrec visit ::
  "nat \<Rightarrow> index \<Rightarrow> resolve_state \<Rightarrow> string \<Rightarrow> string set \<Rightarrow> string set option" where
  "visit 0 idx s fullName seen = None"
| "visit (Suc fuel) idx s fullName seen =
     (if fullName \<in> seen then Some seen
      else visit_list (visit fuel idx s) (successors idx s fullName) (insert fullName seen))"

definition reachable :: "nat \<Rightarrow> index \<Rightarrow> resolve_state \<Rightarrow> string set option" where
  "reachable fuel idx s = visit_list (visit fuel idx s) (explicit s) {}"

definition mk_node :: "index \<Rightarrow> resolve_state \<Rightarrow> string \<Rightarrow> node" where
  "mk_node idx s fn =
     \<lparr>NodeName = fn, NodeVersion = chosen s fn, Transitive = (fn \<notin> set (explicit s)),
      NoOp = (Installed idx fn = Some (chosen s fn))\<rparr>"

definition closure :: "nat \<Rightarrow> index \<Rightarrow> resolve_state \<Rightarrow> node list option" where
  "closure fuel idx s =
     (case reachable fuel idx s of
        None \<Rightarrow> None
      | Some keep \<Rightarrow> Some (map (mk_node idx s) (filter (\<lambda>fn. fn \<in> keep) (discovered s))))"

subsection \<open>Resolve\<close>

definition check_request :: "index \<Rightarrow> request \<Rightarrow> resolve_error option" where
  "check_request idx req =
     (if ParseVersion (ReqVersion req) = None
      then Some (BadVersionError (ReqName req) (ReqVersion req))
      else case Installed idx (ReqName req) of
        None \<Rightarrow> None
      | Some installed \<Rightarrow>
          if ParseVersion installed = None then Some (BadVersionError (ReqName req) installed)
          else if Held idx (ReqName req) \<and> installed \<noteq> ReqVersion req
          then Some (HeldError (ReqName req) installed (ReqVersion req))
          else None)"

fun admit_requests ::
  "index \<Rightarrow> request list \<Rightarrow> resolve_state \<Rightarrow> resolve_error + resolve_state" where
  "admit_requests idx [] s = Inr s"
| "admit_requests idx (req # reqs) s =
     (case check_request idx req of
        Some e \<Rightarrow> Inl e
      | None \<Rightarrow> admit_requests idx reqs
          (s\<lparr>explicit := List.insert (ReqName req) (explicit s),
             fixed := (fixed s)(ReqName req \<mapsto> ReqVersion req)\<rparr>))"

fun expand_requests :: "nat \<Rightarrow> index \<Rightarrow> request list \<Rightarrow> resolve_state \<Rightarrow> walk_result" where
  "expand_requests fuel idx [] s = Some (Inr s)"
| "expand_requests fuel idx (req # reqs) s =
     (if Installed idx (ReqName req) = Some (ReqVersion req)
      then expand_requests fuel idx reqs (recordHighest (ReqName req) (ReqVersion req) s)
      else case expand fuel idx (ReqName req) (ReqVersion req) [] s of
             None \<Rightarrow> None
           | Some (Inl e) \<Rightarrow> Some (Inl e)
           | Some (Inr s') \<Rightarrow> expand_requests fuel idx reqs s')"

definition Resolve ::
  "nat \<Rightarrow> request list \<Rightarrow> index \<Rightarrow> (resolve_error + node list) option" where
  "Resolve fuel requests idx =
     (case admit_requests idx requests init_state of
        Inl e \<Rightarrow> Some (Inl e)
      | Inr s0 \<Rightarrow>
          (case expand_requests fuel idx requests s0 of
             None \<Rightarrow> None
           | Some (Inl e) \<Rightarrow> Some (Inl e)
           | Some (Inr s) \<Rightarrow> map_option Inr (closure fuel idx s)))"

subsection \<open>Check\<close>

record conflict =
  ConfName :: string
  ConfVersion :: string
  ConfDependency :: string
  ConfRequires :: string
  ConfHave :: string

text \<open>\<open>planned\<close> is a Go map; its keys, which \<open>Check\<close> sorts, are given as \<open>names\<close>.\<close>

definition edge_conflict ::
  "(string \<rightharpoonup> string) \<Rightarrow> string set \<Rightarrow> string \<Rightarrow> string \<Rightarrow> string \<Rightarrow> conflict option" where
  "edge_conflict planned changed name version dep =
     (case ParseDependency dep of
        None \<Rightarrow> None
      | Some (depName, depVersion) \<Rightarrow>
          if name \<notin> changed \<and> depName \<notin> changed then None
          else case planned depName of
            None \<Rightarrow> Some \<lparr>ConfName = name, ConfVersion = version, ConfDependency = depName,
                         ConfRequires = depVersion, ConfHave = []\<rparr>
          | Some have' \<Rightarrow>
              if \<not> higher depVersion have' then None
              else Some \<lparr>ConfName = name, ConfVersion = version, ConfDependency = depName,
                         ConfRequires = depVersion, ConfHave = have'\<rparr>)"

definition Check :: "string list \<Rightarrow> (string \<rightharpoonup> string) \<Rightarrow> string set \<Rightarrow> index \<Rightarrow> conflict list" where
  "Check names planned changed idx =
     concat (map (\<lambda>name.
       case planned name of
         None \<Rightarrow> []
       | Some version \<Rightarrow>
           (case Dependencies idx name version of
              None \<Rightarrow> []
            | Some deps \<Rightarrow> List.map_filter (edge_conflict planned changed name version) deps))
       (sort names))"

subsection \<open>Lemmas: dependency idents\<close>

lemma hyphen_splits_iff [go_strings]:
  "(n, v) \<in> set (hyphen_splits s) \<longleftrightarrow> s = n @ CHR ''-'' # v"
proof (induction s arbitrary: n)
  case Nil
  then show ?case by simp
next
  case (Cons c cs)
  then show ?case by (cases n) auto
qed

lemma hyphen_splits_append:
  "\<exists>before. hyphen_splits (n @ CHR ''-'' # v) =
     before @ (n, v) # map (\<lambda>(p, q). (n @ CHR ''-'' # p, q)) (hyphen_splits v)"
proof (induction n)
  case Nil
  then show ?case by auto
next
  case (Cons c cs)
  then obtain before where "hyphen_splits (cs @ CHR ''-'' # v) =
     before @ (cs, v) # map (\<lambda>(p, q). (cs @ CHR ''-'' # p, q)) (hyphen_splits v)" by blast
  then show ?case by (auto simp: case_prod_unfold comp_def)
qed

lemma ParseDependency_Some:
  assumes "ParseDependency ident = Some (n, v)"
  shows "ident = n @ CHR ''-'' # v" and "n \<noteq> []" and "version_pattern v"
proof -
  obtain m ms where f: "filter dep_match (hyphen_splits ident) = m # ms" and l: "(n, v) = last (m # ms)"
    using assms by (auto simp: ParseDependency_def split: list.splits)
  have "last (m # ms) \<in> set (m # ms)" by (rule last_in_set) simp
  with f l have "(n, v) \<in> set (filter dep_match (hyphen_splits ident))" by metis
  then show "ident = n @ CHR ''-'' # v" "n \<noteq> []" "version_pattern v"
    by (auto simp: hyphen_splits_iff dep_match_def)
qed

lemma ParseDependency_append:
  assumes n: "n \<noteq> []" "CHR 0x0A \<notin> set n" and v: "version_pattern v"
    and inner: "\<And>p q. v = p @ CHR ''-'' # q \<Longrightarrow> \<not> version_pattern q"
  shows "ParseDependency (n @ CHR ''-'' # v) = Some (n, v)"
proof -
  obtain before where sp: "hyphen_splits (n @ CHR ''-'' # v) =
      before @ (n, v) # map (\<lambda>(p, q). (n @ CHR ''-'' # p, q)) (hyphen_splits v)"
    using hyphen_splits_append by blast
  have "\<not> dep_match (n @ CHR ''-'' # p, q)" if "(p, q) \<in> set (hyphen_splits v)" for p q
    using that inner [of p q] by (simp add: hyphen_splits_iff dep_match_def)
  then have rest: "filter dep_match (map (\<lambda>(p, q). (n @ CHR ''-'' # p, q)) (hyphen_splits v)) = []"
    by (auto simp: filter_empty_conv)
  have "dep_match (n, v)" using n v by (simp add: dep_match_def)
  with rest have "filter dep_match (hyphen_splits (n @ CHR ''-'' # v)) = filter dep_match before @ [(n, v)]"
    unfolding sp by simp
  then show ?thesis
    by (simp add: ParseDependency_def split: list.splits) (metis last_ConsR last_snoc list.distinct(1) last.simps)
qed

lemma core_pattern_chars: "core_pattern b \<Longrightarrow> c \<in> set b \<Longrightarrow> is_digit c \<or> c = CHR ''.''"
proof -
  assume core: "core_pattern b" and c: "c \<in> set b"
  define ps where "ps = split_on (CHR ''.'') b"
  have "set (join_with (CHR ''.'') ps) \<subseteq> insert (CHR ''.'') (\<Union> (set ` set ps))"
    by (induction "CHR ''.''" ps rule: join_with.induct) auto
  then have "c \<in> insert (CHR ''.'') (\<Union> (set ` set ps))" using c by (auto simp: ps_def)
  with core show ?thesis by (auto simp: core_pattern_def ps_def [symmetric] list_all_iff Let_def)
qed

lemma version_pattern_chars: "version_pattern v \<Longrightarrow> c \<in> set v \<Longrightarrow> suffix_char c"
  by (auto simp: version_pattern_def cut_at_Some suffix_char_def list_all_iff
      split: option.splits dest: core_pattern_chars)

lemma version_pattern_no_at: "version_pattern v \<Longrightarrow> CHR ''@'' \<notin> set v"
  by (auto dest!: version_pattern_chars simp: suffix_char_def is_digit_def is_upper_def is_lower_def)

lemma atoi_chars: "atoi p = Some n \<Longrightarrow> c \<in> set p \<Longrightarrow> is_digit c \<or> c = CHR ''-'' \<or> c = CHR ''+''"
  by (auto simp: atoi_def Let_def list_all_iff split: list.splits if_splits)

lemma parse_parts_chars:
  "parse_parts ps = Some ns \<Longrightarrow> p \<in> set ps \<Longrightarrow> c \<in> set p \<Longrightarrow>
   is_digit c \<or> c = CHR ''-'' \<or> c = CHR ''+''"
proof (induction ps arbitrary: ns)
  case (Cons q qs)
  then show ?case
    by (auto split: option.splits if_splits dest: atoi_chars)
qed simp

lemma set_split_on: "c \<in> set s \<Longrightarrow> c = d \<or> (\<exists>p \<in> set (split_on d s). c \<in> set p)"
proof (induction s)
  case (Cons x xs)
  then show ?case by (cases "split_on d xs") auto
qed simp

lemma Parse_no_at: "Parse s = Some ns \<Longrightarrow> CHR ''@'' \<notin> set s"
  using set_split_on [of "CHR ''@''" s "CHR ''.''"] parse_parts_chars
  by (fastforce simp: Parse_def Let_def is_digit_def split: if_splits)

lemma ParseVersion_no_at: "ParseVersion s = Some v \<Longrightarrow> CHR ''@'' \<notin> set s"
proof -
  assume a: "ParseVersion s = Some v"
  show ?thesis
  proof (cases "cut_at (CHR ''-'') s")
    case None
    with a show ?thesis by (auto simp: ParseVersion_def split: option.splits dest: Parse_no_at)
  next
    case (Some ba)
    then obtain b p where ba: "cut_at (CHR ''-'') s = Some (b, p)" by (cases ba) auto
    with a have b: "Parse b \<noteq> None" and p: "validPreRelease p"
      by (auto simp: ParseVersion_def split: option.splits if_splits)
    from b have "CHR ''@'' \<notin> set b" by (auto dest: Parse_no_at)
    moreover have "\<not> valid_char (CHR ''@'')"
      by (simp add: valid_char_def is_digit_def is_upper_def is_lower_def)
    with p have "CHR ''@'' \<notin> set p"
      using set_split_on [of "CHR ''@''" p "CHR ''.''"]
      by (auto simp: validPreRelease_def list_all_iff)
    ultimately show ?thesis using ba by (auto simp: cut_at_Some)
  qed
qed

lemma version_key_inject:
  assumes "version_key a v = version_key b w" and "CHR ''@'' \<notin> set v" and "CHR ''@'' \<notin> set w"
  shows "a = b \<and> v = w"
proof -
  have "cut_at (CHR ''@'') (rev (version_key a v)) = Some (rev v, rev a)"
    and "cut_at (CHR ''@'') (rev (version_key b w)) = Some (rev w, rev b)"
    using assms(2,3) by (simp_all add: version_key_def cut_at_Some)
  with assms(1) have "(rev v, rev a) = (rev w, rev b)" by (metis option.inject)
  then show ?thesis by simp
qed

subsection \<open>The order the resolver compares versions by\<close>

interpretation vo: version_order higher
proof unfold_locales
  fix v show "\<not> higher v v"
    by (auto simp: higher_def Compare_refl split: option.splits)
next
  fix u v w assume "higher u v" and "higher v w"
  then obtain pu pv pw where p: "ParseVersion u = Some pu" "ParseVersion v = Some pv"
      "ParseVersion w = Some pw" and c: "Compare pu pv = 1" "Compare pv pw = 1"
    by (auto simp: higher_def Compare_pos_iff split: option.splits)
  from p [THEN ParseVersion_wf] have "length (Core pu) = 3" "length (Core pv) = 3" "length (Core pw) = 3"
    by (simp_all add: wf_version_def)
  from Compare_trans [OF this c] p show "higher u w" by (simp add: higher_def)
qed

end
