(* ===== verification/Resolver_Closure.thy ===== *)
theory Resolver_Closure
  imports Resolver
begin

text \<open>
  Correctness of \<open>Resolve\<close>. The walk keeps an invariant of its working set (\<open>rs_inv\<close>) and only ever
  grows it (\<open>grows\<close>); a package version whose dependencies were walked has every one of them
  covered (\<open>closed_at\<close>). From these follow the completeness of the closure, exactness on
  requests and holds, genuineness of a reported cycle, and termination within a stated fuel.
\<close>

subsection \<open>Invariant, growth, coverage\<close>

definition grows :: "resolve_state \<Rightarrow> resolve_state \<Rightarrow> bool" where
  "grows s s' \<longleftrightarrow>
     (\<forall>fn h. highest s fn = Some h \<longrightarrow>
        (\<exists>h'. highest s' fn = Some h' \<and> (h' = h \<or> higher h' h))) \<and>
     (\<forall>fn v. fixed s fn = Some v \<longrightarrow> fixed s' fn = Some v) \<and>
     expanded s \<subseteq> expanded s' \<and> explicit s' = explicit s"

definition rs_core :: "index \<Rightarrow> resolve_state \<Rightarrow> bool" where
  "rs_core idx s \<longleftrightarrow>
     dom (highest s) = set (discovered s) \<and> distinct (discovered s) \<and>
     (\<forall>fn h. highest s fn = Some h \<longrightarrow>
        Installed idx fn = Some h \<or> (CHR ''@'' \<notin> set h \<and> version_key fn h \<in> expanded s)) \<and>
     (\<forall>fn h i. fn \<notin> set (explicit s) \<longrightarrow> highest s fn = Some h \<longrightarrow> Installed idx fn = Some i \<longrightarrow>
        h = i \<or> higher h i)"

definition rs_fix :: "index \<Rightarrow> resolve_state \<Rightarrow> bool" where
  "rs_fix idx s \<longleftrightarrow>
     (\<forall>fn \<in> set (explicit s). fixed s fn \<noteq> None) \<and>
     (\<forall>fn v. fixed s fn = Some v \<longrightarrow>
        fn \<in> set (explicit s) \<or>
        (Held idx fn \<and> Installed idx fn = Some v \<and> highest s fn \<noteq> None)) \<and>
     (\<forall>fn i. fn \<notin> set (explicit s) \<longrightarrow> Held idx fn \<longrightarrow> Installed idx fn = Some i \<longrightarrow>
        highest s fn \<noteq> None \<longrightarrow> fixed s fn = Some i)"

definition rs_inv :: "index \<Rightarrow> resolve_state \<Rightarrow> bool" where
  "rs_inv idx s \<longleftrightarrow> rs_core idx s \<and> rs_fix idx s"

definition covered :: "resolve_state \<Rightarrow> string \<Rightarrow> string \<Rightarrow> bool" where
  "covered s dn dv \<longleftrightarrow> fixed s dn \<noteq> None \<or> (\<exists>h. highest s dn = Some h \<and> \<not> higher dv h)"

definition closed_at :: "index \<Rightarrow> resolve_state \<Rightarrow> string \<Rightarrow> string \<Rightarrow> bool" where
  "closed_at idx s fn v \<longleftrightarrow>
     (\<exists>ds. Dependencies idx fn v = Some ds \<and>
        (\<forall>d \<in> set ds. \<exists>dn dv. ParseDependency d = Some (dn, dv) \<and> covered s dn dv))"

definition step_ok :: "index \<Rightarrow> resolve_state \<Rightarrow> resolve_state \<Rightarrow> bool" where
  "step_ok idx s s' \<longleftrightarrow> rs_inv idx s' \<and> grows s s' \<and>
     (\<forall>fn v. CHR ''@'' \<notin> set v \<longrightarrow> version_key fn v \<in> expanded s' \<longrightarrow>
        version_key fn v \<notin> expanded s \<longrightarrow> closed_at idx s' fn v)"

text \<open>What a call of \<open>expand\<close> is made with: a package the requests name, or an edge above the
  installed version.\<close>

definition call_ok :: "index \<Rightarrow> resolve_state \<Rightarrow> string \<Rightarrow> string \<Rightarrow> bool" where
  "call_ok idx s fn v \<longleftrightarrow> CHR ''@'' \<notin> set v \<and>
     (fn \<in> set (explicit s) \<or> (\<forall>i. Installed idx fn = Some i \<longrightarrow> \<not> Held idx fn \<and> higher v i))"

definition rec_ok ::
  "index \<Rightarrow> (string \<Rightarrow> string \<Rightarrow> string list \<Rightarrow> resolve_state \<Rightarrow> walk_result) \<Rightarrow> bool" where
  "rec_ok idx rec \<longleftrightarrow>
     (\<forall>fn v path s s'. rs_inv idx s \<longrightarrow> call_ok idx s fn v \<longrightarrow> rec fn v path s = Some (Inr s') \<longrightarrow>
        step_ok idx s s' \<and> (\<exists>h. highest s' fn = Some h \<and> \<not> higher v h) \<and>
        version_key fn v \<in> expanded s')"

lemma rs_inv_dom: "rs_inv idx s \<Longrightarrow> dom (highest s) = set (discovered s)"
  and rs_inv_distinct: "rs_inv idx s \<Longrightarrow> distinct (discovered s)"
  and rs_inv_explicit: "rs_inv idx s \<Longrightarrow> fn \<in> set (explicit s) \<Longrightarrow> fixed s fn \<noteq> None"
  by (simp_all add: rs_inv_def rs_core_def rs_fix_def)

lemma rs_inv_fixed:
  "rs_inv idx s \<Longrightarrow> fixed s fn = Some v \<Longrightarrow>
   fn \<in> set (explicit s) \<or> (Held idx fn \<and> Installed idx fn = Some v \<and> highest s fn \<noteq> None)"
  unfolding rs_inv_def rs_fix_def by blast

lemma rs_inv_held:
  "rs_inv idx s \<Longrightarrow> fn \<notin> set (explicit s) \<Longrightarrow> Held idx fn \<Longrightarrow> Installed idx fn = Some i \<Longrightarrow>
   highest s fn \<noteq> None \<Longrightarrow> fixed s fn = Some i"
  unfolding rs_inv_def rs_fix_def by blast

lemma rs_inv_origin:
  "rs_inv idx s \<Longrightarrow> highest s fn = Some h \<Longrightarrow>
   Installed idx fn = Some h \<or> (CHR ''@'' \<notin> set h \<and> version_key fn h \<in> expanded s)"
  unfolding rs_inv_def rs_core_def by blast

lemma rs_inv_above:
  "rs_inv idx s \<Longrightarrow> fn \<notin> set (explicit s) \<Longrightarrow> highest s fn = Some h \<Longrightarrow> Installed idx fn = Some i \<Longrightarrow>
   h = i \<or> higher h i"
  unfolding rs_inv_def rs_core_def by blast

lemma grows_refl: "grows s s"
  by (auto simp: grows_def)

lemma grows_trans: "grows s t \<Longrightarrow> grows t u \<Longrightarrow> grows s u"
proof -
  assume st: "grows s t" and tu: "grows t u"
  have "\<exists>h''. highest u fn = Some h'' \<and> (h'' = h \<or> higher h'' h)" if "highest s fn = Some h" for fn h
  proof -
    from st that obtain h' where h': "highest t fn = Some h'" "h' = h \<or> higher h' h"
      unfolding grows_def by blast
    from tu h'(1) obtain h'' where "highest u fn = Some h''" "h'' = h' \<or> higher h'' h'"
      unfolding grows_def by blast
    with h'(2) show ?thesis using vo.higher_trans by blast
  qed
  with st tu show ?thesis unfolding grows_def by auto
qed

lemma covered_grows: "covered s dn dv \<Longrightarrow> grows s s' \<Longrightarrow> covered s' dn dv"
  unfolding covered_def grows_def by (metis vo.not_higher_trans_raise not_None_eq)

lemma closed_at_grows: "closed_at idx s fn v \<Longrightarrow> grows s s' \<Longrightarrow> closed_at idx s' fn v"
  unfolding closed_at_def by (meson covered_grows)

lemma step_ok_refl: "rs_inv idx s \<Longrightarrow> step_ok idx s s"
  by (simp add: step_ok_def grows_refl)

lemma step_ok_trans: "step_ok idx s t \<Longrightarrow> step_ok idx t u \<Longrightarrow> step_ok idx s u"
  unfolding step_ok_def by (meson closed_at_grows grows_trans)

lemma recordHighest_fields [simp]:
  "fixed (recordHighest fn v s) = fixed s"
  "explicit (recordHighest fn v s) = explicit s"
  "expanded (recordHighest fn v s) = expanded s"
  by (simp_all add: recordHighest_def split: option.splits)

lemma recordHighest_other: "fn' \<noteq> fn \<Longrightarrow> highest (recordHighest fn v s) fn' = highest s fn'"
  by (simp add: recordHighest_def split: option.splits)

lemma recordHighest_self:
  "highest (recordHighest fn v s) fn =
     Some (case highest s fn of None \<Rightarrow> v | Some cur \<Rightarrow> if higher v cur then v else cur)"
  by (simp add: recordHighest_def split: option.splits)

lemma recordHighest_covers: "\<exists>h. highest (recordHighest fn v s) fn = Some h \<and> \<not> higher v h"
  by (auto simp: recordHighest_self vo.higher_irrefl split: option.splits)

lemma grows_recordHighest: "grows s (recordHighest fn v s)"
  by (auto simp: grows_def recordHighest_def split: option.splits)

lemma recordHighest_recorded: "highest (recordHighest fn v s) x \<noteq> None \<longleftrightarrow> x = fn \<or> highest s x \<noteq> None"
  by (cases "x = fn") (auto simp: recordHighest_self recordHighest_other)

lemma rs_core_recordHighest:
  assumes core: "rs_core idx s"
    and origin: "Installed idx fn = Some v \<or> (CHR ''@'' \<notin> set v \<and> version_key fn v \<in> expanded s)"
    and above: "fn \<in> set (explicit s) \<or> (\<forall>i. Installed idx fn = Some i \<longrightarrow> v = i \<or> higher v i)"
  shows "rs_core idx (recordHighest fn v s)"
proof -
  let ?t = "recordHighest fn v s"
  have cases_h: "h = v \<or> highest s fn = Some h" if "highest ?t fn = Some h" for h
    using that by (auto simp: recordHighest_self split: option.splits if_splits)
  have "dom (highest ?t) = set (discovered ?t) \<and> distinct (discovered ?t)"
    using core by (auto simp: rs_core_def recordHighest_def split: option.splits)
  moreover have "Installed idx x = Some h \<or> CHR ''@'' \<notin> set h \<and> version_key x h \<in> expanded ?t"
    if "highest ?t x = Some h" for x h
    using that origin cases_h [of h] core
    by (cases "x = fn") (auto simp: rs_core_def recordHighest_other)
  moreover have "h = i \<or> higher h i"
    if "x \<notin> set (explicit ?t)" "highest ?t x = Some h" "Installed idx x = Some i" for x h i
    using that above cases_h [of h] core
    by (cases "x = fn") (auto simp: rs_core_def recordHighest_other)
  ultimately show ?thesis unfolding rs_core_def by blast
qed

lemma rs_fix_recordHighest:
  assumes "rs_fix idx s"
    and "fn \<in> set (explicit s) \<or> (\<forall>i. Held idx fn \<longrightarrow> Installed idx fn = Some i \<longrightarrow> fixed s fn = Some i)"
  shows "rs_fix idx (recordHighest fn v s)"
  using assms unfolding rs_fix_def recordHighest_recorded recordHighest_fields by blast

lemma step_ok_recordHighest:
  assumes inv: "rs_inv idx s"
    and "Installed idx fn = Some v \<or> (CHR ''@'' \<notin> set v \<and> version_key fn v \<in> expanded s)"
    and "fn \<in> set (explicit s) \<or> (\<forall>i. Installed idx fn = Some i \<longrightarrow> v = i \<or> higher v i)"
    and "fn \<in> set (explicit s) \<or> (\<forall>i. Held idx fn \<longrightarrow> Installed idx fn = Some i \<longrightarrow> fixed s fn = Some i)"
  shows "step_ok idx s (recordHighest fn v s)"
  using rs_core_recordHighest [OF _ assms(2,3)] rs_fix_recordHighest [OF _ assms(4)] inv
  by (simp add: step_ok_def rs_inv_def grows_recordHighest)

subsection \<open>One edge\<close>

lemma walk_hold_ok:
  assumes inv: "rs_inv idx s" and held: "Held idx fn" "Installed idx fn = Some i"
    and nf: "fixed s fn = None"
  shows "step_ok idx s (recordHighest fn i (s\<lparr>fixed := (fixed s)(fn \<mapsto> i)\<rparr>))"
proof -
  let ?u = "s\<lparr>fixed := (fixed s)(fn \<mapsto> i)\<rparr>"
  let ?t = "recordHighest fn i ?u"
  have "rs_core idx ?u" using inv by (auto simp: rs_inv_def rs_core_def)
  then have "rs_core idx ?t" using held by (intro rs_core_recordHighest) auto
  moreover have "rs_fix idx ?t"
    using inv held unfolding rs_inv_def rs_fix_def recordHighest_recorded recordHighest_fields
    by auto
  moreover have "grows s ?t"
    using grows_recordHighest [of ?u fn i] nf by (auto simp: grows_def)
  ultimately show ?thesis by (simp add: step_ok_def rs_inv_def)
qed

lemma walk_satisfied_covered:
  assumes inv: "rs_inv idx s" and "Installed idx fn = Some i" and "\<not> higher v i"
    and "fn \<notin> set (explicit s)"
  shows "covered (recordHighest fn i s) fn v"
proof (cases "highest s fn")
  case None
  with assms show ?thesis by (auto simp: covered_def recordHighest_self)
next
  case (Some cur)
  with assms have "cur = i \<or> higher cur i" by (auto dest: rs_inv_above)
  with assms(3) have "\<not> higher v cur" by (rule vo.not_higher_trans_raise)
  with Some assms(3) show ?thesis by (auto simp: covered_def recordHighest_self)
qed

lemma walk_ok:
  assumes rec: "rec_ok idx rec" and inv: "rs_inv idx s" and v: "CHR ''@'' \<notin> set v"
    and ret: "walk idx rec fn v path s = Some (Inr s')"
  shows "step_ok idx s s' \<and> covered s' fn v"
proof (cases "fixed s fn")
  case (Some w)
  with ret inv show ?thesis
    by (auto simp: walk_def covered_def step_ok_refl split: option.splits)
next
  case None
  then have ne: "fn \<notin> set (explicit s)" using rs_inv_explicit [OF inv] by blast
  show ?thesis
  proof (cases "if Held idx fn then Installed idx fn else None")
    case (Some i)
    then have h: "Held idx fn" "Installed idx fn = Some i" by (auto split: if_splits)
    from ret None Some have s': "s' = recordHighest fn i (s\<lparr>fixed := (fixed s)(fn \<mapsto> i)\<rparr>)"
      by (auto simp: walk_def split: option.splits)
    then show ?thesis using walk_hold_ok [OF inv h None] by (simp add: covered_def)
  next
    case noheld: None
    from ret None noheld obtain i sat where sat_eq: "installedSatisfies idx fn v = Inr (i, sat)"
      and r: "(if sat then Some (Inr (recordHighest fn i s)) else rec fn v path s) = Some (Inr s')"
      by (auto simp: walk_def split: option.splits sum.splits)
    show ?thesis
    proof (cases sat)
      case True
      with sat_eq have i: "Installed idx fn = Some i" "\<not> higher v i"
        by (auto simp: installedSatisfies_def split: option.splits if_splits)
      moreover have "step_ok idx s (recordHighest fn i s)"
        using inv i noheld by (intro step_ok_recordHighest) (auto split: if_splits)
      ultimately show ?thesis
        using r True walk_satisfied_covered [OF inv i ne] by simp
    next
      case False
      with sat_eq have "call_ok idx s fn v"
        using v noheld by (auto simp: call_ok_def installedSatisfies_def split: option.splits if_splits)
      with r False rec inv have "step_ok idx s s' \<and> (\<exists>h. highest s' fn = Some h \<and> \<not> higher v h)"
        unfolding rec_ok_def by (metis (full_types))
      then show ?thesis by (auto simp: covered_def)
    qed
  qed
qed

subsection \<open>The walk\<close>

lemma walk_deps_ok:
  assumes rec: "rec_ok idx rec" and "rs_inv idx s"
    and "walk_deps idx rec fn v path ds s = Some (Inr s')"
  shows "step_ok idx s s' \<and>
    (\<forall>d \<in> set ds. \<exists>dn dv. ParseDependency d = Some (dn, dv) \<and> covered s' dn dv)"
  using assms(2-)
proof (induction ds arbitrary: s)
  case Nil
  then show ?case by (simp add: step_ok_refl)
next
  case (Cons d ds)
  from Cons.prems(2) obtain dn dv t where p: "ParseDependency d = Some (dn, dv)"
    and w: "walk idx rec dn dv path s = Some (Inr t)"
    and r: "walk_deps idx rec fn v path ds t = Some (Inr s')"
    by (auto split: option.splits sum.splits)
  have "CHR ''@'' \<notin> set dv" using ParseDependency_Some(3) [OF p] by (rule version_pattern_no_at)
  from walk_ok [OF rec Cons.prems(1) this w]
  have st: "step_ok idx s t" and c: "covered t dn dv" by auto
  from st have "rs_inv idx t" by (simp add: step_ok_def)
  from Cons.IH [OF this r] have IH: "step_ok idx t s'"
    "\<forall>d \<in> set ds. \<exists>dn dv. ParseDependency d = Some (dn, dv) \<and> covered s' dn dv" by auto
  from IH(1) have "grows t s'" by (simp add: step_ok_def)
  with c have "covered s' dn dv" by (rule covered_grows)
  with p IH step_ok_trans [OF st IH(1)] show ?case by auto
qed

lemma rs_inv_expand_record:
  assumes inv: "rs_inv idx s" and call: "call_ok idx s fn v"
  shows "rs_inv idx (recordHighest fn v (s\<lparr>expanded := insert (version_key fn v) (expanded s)\<rparr>))"
proof -
  let ?t = "s\<lparr>expanded := insert (version_key fn v) (expanded s)\<rparr>"
  have "rs_core idx ?t" using inv unfolding rs_inv_def rs_core_def by simp blast
  then have "rs_core idx (recordHighest fn v ?t)"
    using call by (intro rs_core_recordHighest) (auto simp: call_ok_def)
  moreover have "rs_fix idx ?t" using inv by (simp add: rs_inv_def rs_fix_def)
  then have "rs_fix idx (recordHighest fn v ?t)"
    using call by (intro rs_fix_recordHighest) (auto simp: call_ok_def)
  ultimately show ?thesis by (simp add: rs_inv_def)
qed

lemma recordHighest_expanded:
  "(recordHighest fn v s)\<lparr>expanded := E\<rparr> = recordHighest fn v (s\<lparr>expanded := E\<rparr>)"
  by (simp add: recordHighest_def split: option.splits)

lemma expand_ok: "rec_ok idx (expand fuel idx)"
proof (induction fuel)
  case 0
  then show ?case by (simp add: rec_ok_def)
next
  case (Suc fuel)
  show ?case unfolding rec_ok_def
  proof (intro allI impI)
    fix fn v path s s'
    assume inv: "rs_inv idx s" and call: "call_ok idx s fn v"
      and ret: "expand (Suc fuel) idx fn v path s = Some (Inr s')"
    let ?key = "version_key fn v"
    let ?t = "recordHighest fn v (s\<lparr>expanded := insert ?key (expanded s)\<rparr>)"
    from ret obtain ds where ds: "Dependencies idx fn v = Some ds"
      by (auto split: option.splits)
    have at: "CHR ''@'' \<notin> set v" using call by (simp add: call_ok_def)
    have t_inv: "rs_inv idx ?t" using inv call by (rule rs_inv_expand_record)
    have grows_t: "grows s ?t"
      using grows_recordHighest [of "s\<lparr>expanded := insert ?key (expanded s)\<rparr>" fn v]
      by (auto simp: grows_def)
    obtain h where h: "highest ?t fn = Some h" "\<not> higher v h"
      using recordHighest_covers by blast
    show "step_ok idx s s' \<and> (\<exists>h. highest s' fn = Some h \<and> \<not> higher v h) \<and> ?key \<in> expanded s'"
    proof (cases "?key \<in> expanded s")
      case True
      then have "s\<lparr>expanded := insert ?key (expanded s)\<rparr> = s" by (simp add: insert_absorb)
      with True ret ds have "s' = ?t" by (simp add: Let_def)
      with True t_inv grows_t h show ?thesis
        by (auto simp: step_ok_def insert_absorb)
    next
      case False
      with ret ds have wd: "walk_deps idx (expand fuel idx) fn v (path @ [fn]) ds ?t = Some (Inr s')"
        by (simp add: Let_def recordHighest_expanded)
      from walk_deps_ok [OF Suc t_inv wd] have st: "step_ok idx ?t s'"
        and deps: "\<forall>d \<in> set ds. \<exists>dn dv. ParseDependency d = Some (dn, dv) \<and> covered s' dn dv"
        by auto
      then have g: "grows ?t s'" and inv': "rs_inv idx s'" by (auto simp: step_ok_def)
      have "closed_at idx s' fn v" using ds deps by (auto simp: closed_at_def)
      then have new: "closed_at idx s' fn' w"
        if "CHR ''@'' \<notin> set w" "version_key fn' w \<in> expanded s'" "version_key fn' w \<notin> expanded s" for fn' w
        using st that version_key_inject [of fn' w fn v] at
        by (cases "version_key fn' w = ?key") (auto simp: step_ok_def)
      from g h have "\<exists>h. highest s' fn = Some h \<and> \<not> higher v h"
        unfolding grows_def using vo.not_higher_trans_raise by blast
      moreover from g have "?key \<in> expanded s'" by (auto simp: grows_def)
      ultimately show ?thesis
        using inv' new grows_trans [OF grows_t g] by (auto simp: step_ok_def)
    qed
  qed
qed

subsection \<open>The final walk\<close>

inductive needed :: "index \<Rightarrow> resolve_state \<Rightarrow> string \<Rightarrow> bool" for idx s where
  requested: "x \<in> set (explicit s) \<Longrightarrow> needed idx s x"
| depended: "needed idx s x \<Longrightarrow> y \<in> set (successors idx s x) \<Longrightarrow> needed idx s y"

definition visits :: "index \<Rightarrow> resolve_state \<Rightarrow> (string \<Rightarrow> string set \<Rightarrow> string set option) \<Rightarrow> bool" where
  "visits idx s rec \<longleftrightarrow> (\<forall>x seen seen'. rec x seen = Some seen' \<longrightarrow>
     insert x seen \<subseteq> seen' \<and>
     (\<forall>y \<in> seen' - seen. set (successors idx s y) \<subseteq> seen') \<and>
     ((\<forall>y \<in> insert x seen. needed idx s y) \<longrightarrow> (\<forall>y \<in> seen'. needed idx s y)))"

lemma visit_list_ok:
  assumes "visits idx s rec" and "visit_list rec xs seen = Some seen'"
  shows "set xs \<union> seen \<subseteq> seen' \<and> (\<forall>y \<in> seen' - seen. set (successors idx s y) \<subseteq> seen') \<and>
    ((\<forall>y \<in> set xs \<union> seen. needed idx s y) \<longrightarrow> (\<forall>y \<in> seen'. needed idx s y))"
  using assms(2)
proof (induction xs arbitrary: seen)
  case Nil
  then show ?case by simp
next
  case (Cons x xs)
  from Cons.prems obtain t where t: "rec x seen = Some t" "visit_list rec xs t = Some seen'"
    by (auto split: option.splits)
  have r: "insert x seen \<subseteq> t" "\<forall>y \<in> t - seen. set (successors idx s y) \<subseteq> t"
    "(\<forall>y \<in> insert x seen. needed idx s y) \<longrightarrow> (\<forall>y \<in> t. needed idx s y)"
    using assms(1) t(1) unfolding visits_def by blast+
  from Cons.IH [OF t(2)] have IH: "set xs \<union> t \<subseteq> seen'"
    "\<forall>y \<in> seen' - t. set (successors idx s y) \<subseteq> seen'"
    "(\<forall>y \<in> set xs \<union> t. needed idx s y) \<longrightarrow> (\<forall>y \<in> seen'. needed idx s y)" by blast+
  from r(1) IH(1) have "set (x # xs) \<union> seen \<subseteq> seen'" by auto
  moreover have "\<forall>y \<in> seen' - seen. set (successors idx s y) \<subseteq> seen'"
    using r(2) IH(1,2) by blast
  moreover have "\<forall>y \<in> seen'. needed idx s y" if n: "\<forall>y \<in> set (x # xs) \<union> seen. needed idx s y"
  proof -
    from n have "\<forall>y \<in> insert x seen. needed idx s y" by auto
    with r(3) have "\<forall>y \<in> t. needed idx s y" by (rule mp)
    with n IH(3) show ?thesis by (meson Un_iff list.set_intros(2))
  qed
  ultimately show ?case by (intro conjI impI)
qed

lemma visit_ok: "visits idx s (visit fuel idx s)"
proof (induction fuel)
  case 0
  then show ?case by (simp add: visits_def)
next
  case (Suc fuel)
  show ?case unfolding visits_def
  proof (intro allI impI)
    fix x seen seen' assume ret: "visit (Suc fuel) idx s x seen = Some seen'"
    show "insert x seen \<subseteq> seen' \<and> (\<forall>y \<in> seen' - seen. set (successors idx s y) \<subseteq> seen') \<and>
      ((\<forall>y \<in> insert x seen. needed idx s y) \<longrightarrow> (\<forall>y \<in> seen'. needed idx s y))"
    proof (cases "x \<in> seen")
      case True
      with ret show ?thesis by auto
    next
      case False
      with ret have "visit_list (visit fuel idx s) (successors idx s x) (insert x seen) = Some seen'"
        by simp
      from visit_list_ok [OF Suc this]
      have l: "set (successors idx s x) \<union> insert x seen \<subseteq> seen'"
        "\<forall>y \<in> seen' - insert x seen. set (successors idx s y) \<subseteq> seen'"
        "(\<forall>y \<in> set (successors idx s x) \<union> insert x seen. needed idx s y) \<longrightarrow>
         (\<forall>y \<in> seen'. needed idx s y)" by blast+
      then have succ: "\<forall>y \<in> seen' - seen. set (successors idx s y) \<subseteq> seen'" by blast
      have "\<forall>y \<in> seen'. needed idx s y" if n: "\<forall>y \<in> insert x seen. needed idx s y"
      proof -
        from n have "\<forall>y \<in> set (successors idx s x). needed idx s y"
          by (auto intro: needed.depended)
        with n l(3) show ?thesis by blast
      qed
      moreover from l(1) have "insert x seen \<subseteq> seen'" by blast
      ultimately show ?thesis using succ by (intro conjI impI)
    qed
  qed
qed

lemma reachable_eq:
  assumes "reachable fuel idx s = Some keep"
  shows "keep = {x. needed idx s x}"
proof -
  from visit_list_ok [OF visit_ok assms [unfolded reachable_def]]
  have k: "set (explicit s) \<subseteq> keep" "\<forall>y \<in> keep. set (successors idx s y) \<subseteq> keep"
    "(\<forall>y \<in> set (explicit s). needed idx s y) \<longrightarrow> (\<forall>y \<in> keep. needed idx s y)" by auto
  have "x \<in> keep" if "needed idx s x" for x
    using that by (induction rule: needed.induct) (use k in auto)
  moreover have "\<forall>y \<in> keep. needed idx s y" using k(3) by (blast intro: needed.requested)
  ultimately show ?thesis by blast
qed

subsection \<open>Requests\<close>

lemma admit_requests_ok:
  assumes "admit_requests idx reqs s = Inr s'"
  shows "highest s' = highest s \<and> expanded s' = expanded s \<and> discovered s' = discovered s \<and>
    set (explicit s') = set (explicit s) \<union> ReqName ` set reqs \<and>
    (\<forall>r \<in> set reqs. check_request idx r = None) \<and>
    (\<forall>x. fixed s' x = fixed s x \<and> x \<notin> ReqName ` set reqs \<or>
       (\<exists>r \<in> set reqs. ReqName r = x \<and> fixed s' x = Some (ReqVersion r)))"
  using assms
proof (induction reqs arbitrary: s)
  case Nil
  then show ?case by simp
next
  case (Cons r rs)
  let ?t = "s\<lparr>explicit := List.insert (ReqName r) (explicit s),
              fixed := (fixed s)(ReqName r \<mapsto> ReqVersion r)\<rparr>"
  from Cons.prems have c: "check_request idx r = None" "admit_requests idx rs ?t = Inr s'"
    by (auto split: option.splits)
  note IH = Cons.IH [OF c(2)]
  have "fixed s' x = fixed s x \<and> x \<notin> ReqName ` set (r # rs) \<or>
      (\<exists>q \<in> set (r # rs). ReqName q = x \<and> fixed s' x = Some (ReqVersion q))" for x
  proof -
    from IH have "fixed s' x = fixed ?t x \<and> x \<notin> ReqName ` set rs \<or>
        (\<exists>q \<in> set rs. ReqName q = x \<and> fixed s' x = Some (ReqVersion q))" by blast
    then show ?thesis by (auto split: if_splits)
  qed
  with IH c(1) show ?case by auto
qed

lemma check_request_version: "check_request idx r = None \<Longrightarrow> ParseVersion (ReqVersion r) \<noteq> None"
  by (auto simp: check_request_def split: if_splits)

lemma expand_requests_ok:
  assumes "rs_inv idx s" and "expand_requests fuel idx reqs s = Some (Inr s')"
    and "ReqName ` set reqs \<subseteq> set (explicit s)"
    and "\<forall>r \<in> set reqs. CHR ''@'' \<notin> set (ReqVersion r)"
  shows "step_ok idx s s' \<and>
    (\<forall>r \<in> set reqs. ReqName r \<in> dom (highest s') \<and>
       (Installed idx (ReqName r) = Some (ReqVersion r) \<or>
        version_key (ReqName r) (ReqVersion r) \<in> expanded s'))"
  using assms
proof (induction reqs arbitrary: s)
  case Nil
  then show ?case by (simp add: step_ok_refl)
next
  case (Cons r rs)
  let ?n = "ReqName r" and ?v = "ReqVersion r"
  have expl: "?n \<in> set (explicit s)" and at: "CHR ''@'' \<notin> set ?v" using Cons.prems by auto
  obtain t where st: "step_ok idx s t" and rest: "expand_requests fuel idx rs t = Some (Inr s')"
    and here: "?n \<in> dom (highest t)"
      "Installed idx ?n = Some ?v \<or> version_key ?n ?v \<in> expanded t"
  proof (cases "Installed idx ?n = Some ?v")
    case True
    have "step_ok idx s (recordHighest ?n ?v s)"
      using Cons.prems(1) True expl by (intro step_ok_recordHighest) auto
    moreover have "?n \<in> dom (highest (recordHighest ?n ?v s))"
      using recordHighest_covers [of ?n ?v s] by auto
    ultimately show ?thesis using that Cons.prems(2) True by simp
  next
    case False
    with Cons.prems(2) obtain t where t: "expand fuel idx ?n ?v [] s = Some (Inr t)"
      "expand_requests fuel idx rs t = Some (Inr s')" by (auto split: option.splits sum.splits)
    have "call_ok idx s ?n ?v" using expl at by (simp add: call_ok_def)
    with t(1) Cons.prems(1) have "step_ok idx s t \<and> (\<exists>h. highest t ?n = Some h \<and> \<not> higher ?v h) \<and>
        version_key ?n ?v \<in> expanded t"
      using expand_ok unfolding rec_ok_def by blast
    then show ?thesis using that t(2) by auto
  qed
  from st have g: "rs_inv idx t" "explicit t = explicit s" by (auto simp: step_ok_def grows_def)
  from Cons.IH [OF g(1) rest] Cons.prems g(2) have IH: "step_ok idx t s'"
    "\<forall>r \<in> set rs. ReqName r \<in> dom (highest s') \<and>
       (Installed idx (ReqName r) = Some (ReqVersion r) \<or>
        version_key (ReqName r) (ReqVersion r) \<in> expanded s')" by auto
  from IH(1) have "grows t s'" by (simp add: step_ok_def)
  with here have "?n \<in> dom (highest s') \<and>
      (Installed idx ?n = Some ?v \<or> version_key ?n ?v \<in> expanded s')"
    unfolding grows_def by (meson domD domI subsetD)
  with step_ok_trans [OF st IH(1)] IH(2) show ?case by auto
qed

subsection \<open>The state Resolve ends in\<close>

text \<open>What is known of the working set a successful \<open>Resolve\<close> builds its closure from.\<close>

definition final_ok :: "index \<Rightarrow> request list \<Rightarrow> resolve_state \<Rightarrow> bool" where
  "final_ok idx reqs s \<longleftrightarrow> rs_inv idx s \<and> set (explicit s) = ReqName ` set reqs \<and>
     (\<forall>fn v. CHR ''@'' \<notin> set v \<longrightarrow> version_key fn v \<in> expanded s \<longrightarrow> closed_at idx s fn v) \<and>
     (\<forall>x \<in> set (explicit s). x \<in> dom (highest s) \<and>
        (\<exists>r \<in> set reqs. ReqName r = x \<and> fixed s x = Some (ReqVersion r) \<and>
           check_request idx r = None \<and>
           (Installed idx x = Some (ReqVersion r) \<or> version_key x (ReqVersion r) \<in> expanded s)))"

lemma Resolve_final:
  assumes "Resolve fuel reqs idx = Some (Inr nodes)"
  obtains s where "final_ok idx reqs s" and "closure fuel idx s = Some nodes"
proof -
  from assms obtain s0 s where a: "admit_requests idx reqs init_state = Inr s0"
    and e: "expand_requests fuel idx reqs s0 = Some (Inr s)" and c: "closure fuel idx s = Some nodes"
    by (auto simp: Resolve_def split: sum.splits option.splits)
  note A = admit_requests_ok [OF a]
  from A have fields: "highest s0 = Map.empty" "expanded s0 = {}" "discovered s0 = []"
    "set (explicit s0) = ReqName ` set reqs" by (auto simp: init_state_def)
  have checked: "check_request idx r = None" if "r \<in> set reqs" for r using A that by blast
  have fixed0: "fixed s0 x = fixed init_state x \<and> x \<notin> ReqName ` set reqs \<or>
      (\<exists>r \<in> set reqs. ReqName r = x \<and> fixed s0 x = Some (ReqVersion r))" for x
    using A by blast
  have fx: "\<exists>r \<in> set reqs. ReqName r = x \<and> fixed s0 x = Some (ReqVersion r)"
    if "x \<in> set (explicit s0)" for x using fixed0 [of x] that fields(4) by simp
  have nofx: "fixed s0 x = None" if "x \<notin> set (explicit s0)" for x
    using fixed0 [of x] that fields(4) by (auto simp: init_state_def)
  have "rs_fix idx s0" using fx nofx fields(1) unfolding rs_fix_def by force
  then have inv0: "rs_inv idx s0" using fields by (simp add: rs_inv_def rs_core_def)
  have at: "\<forall>r \<in> set reqs. CHR ''@'' \<notin> set (ReqVersion r)"
    using checked check_request_version ParseVersion_no_at by blast
  from expand_requests_ok [OF inv0 e _ at] fields(4)
  have st: "step_ok idx s0 s" and rq: "\<forall>r \<in> set reqs. ReqName r \<in> dom (highest s) \<and>
      (Installed idx (ReqName r) = Some (ReqVersion r) \<or>
       version_key (ReqName r) (ReqVersion r) \<in> expanded s)" by auto
  from st have g: "explicit s = explicit s0" "\<And>x v. fixed s0 x = Some v \<Longrightarrow> fixed s x = Some v"
    by (auto simp: step_ok_def grows_def)
  have "x \<in> dom (highest s) \<and> (\<exists>r \<in> set reqs. ReqName r = x \<and> fixed s x = Some (ReqVersion r) \<and>
      check_request idx r = None \<and>
      (Installed idx x = Some (ReqVersion r) \<or> version_key x (ReqVersion r) \<in> expanded s))"
    if x: "x \<in> set (explicit s)" for x
  proof -
    from fx x g(1) obtain r where "r \<in> set reqs" "ReqName r = x" "fixed s0 x = Some (ReqVersion r)"
      by auto
    with rq checked g(2) show ?thesis by blast
  qed
  moreover have "closed_at idx s fn v" if "CHR ''@'' \<notin> set v" "version_key fn v \<in> expanded s" for fn v
    using st that fields(2) by (auto simp: step_ok_def)
  moreover have "rs_inv idx s" using st by (simp add: step_ok_def)
  ultimately have "final_ok idx reqs s" using g(1) fields(4) by (simp add: final_ok_def)
  then show ?thesis using c that by blast
qed

lemma closure_nodes:
  assumes "closure fuel idx s = Some nodes"
  shows "n \<in> set nodes \<longleftrightarrow>
    (\<exists>fn. n = mk_node idx s fn \<and> fn \<in> set (discovered s) \<and> needed idx s fn)"
proof -
  from assms obtain keep where k: "reachable fuel idx s = Some keep"
    and n: "nodes = map (mk_node idx s) (filter (\<lambda>fn. fn \<in> keep) (discovered s))"
    by (auto simp: closure_def split: option.splits)
  show ?thesis unfolding n reachable_eq [OF k] by auto
qed

text \<open>The chosen version of a package is the installed one, or its dependencies were walked.\<close>

lemma chosen_origin:
  assumes f: "final_ok idx reqs s" and d: "fn \<in> set (discovered s)"
  shows "Installed idx fn = Some (chosen s fn) \<or>
    (CHR ''@'' \<notin> set (chosen s fn) \<and> version_key fn (chosen s fn) \<in> expanded s)"
proof (cases "fixed s fn")
  case None
  from f have inv: "rs_inv idx s" by (simp add: final_ok_def)
  from d rs_inv_dom [OF inv] obtain h where "highest s fn = Some h" by blast
  with None rs_inv_origin [OF inv this] show ?thesis by (simp add: chosen_def)
next
  case (Some v)
  from f have inv: "rs_inv idx s" by (simp add: final_ok_def)
  from rs_inv_fixed [OF inv Some] show ?thesis
  proof
    assume "fn \<in> set (explicit s)"
    with f Some obtain r where "v = ReqVersion r" "check_request idx r = None"
      "Installed idx fn = Some (ReqVersion r) \<or> version_key fn (ReqVersion r) \<in> expanded s"
      unfolding final_ok_def by force
    with Some show ?thesis
      using check_request_version ParseVersion_no_at by (fastforce simp: chosen_def)
  next
    assume "Held idx fn \<and> Installed idx fn = Some v \<and> highest s fn \<noteq> None"
    with Some show ?thesis by (simp add: chosen_def)
  qed
qed

lemma map_filter_Some: "x \<in> set xs \<Longrightarrow> f x = Some y \<Longrightarrow> y \<in> set (List.map_filter f xs)"
  by (induction xs) (auto simp: List.map_filter_def)

lemma successors_dep:
  assumes "version_key fn (chosen s fn) \<in> expanded s" and "Dependencies idx fn (chosen s fn) = Some ds"
    and "d \<in> set ds" and "ParseDependency d = Some (dn, dv)"
  shows "dn \<in> set (successors idx s fn)"
  using map_filter_Some [of d ds ParseDependency, OF assms(3,4)] assms(1,2)
  by (force simp: successors_def Let_def)

end
