(* ===== verification/Resolver_Properties.thy ===== *)
theory Resolver_Properties
  imports Resolver_Closure
begin

text \<open>
  What \<open>internal/mods/resolver\<close> promises its callers: \<open>Resolve\<close> returns within a fuel fixed by the
  size of the index and its answer does not depend on the fuel; a returned closure is complete,
  keeps requests and holds exact and holds nothing unneeded; a reported cycle is one; \<open>Check\<close>
  reports exactly the unmet edges of a plan.
\<close>

subsection \<open>Termination\<close>

text \<open>What the resolver needs of an index for its walks to end: it knows finitely many packages.\<close>

locale finite_index =
  fixes idx :: index and known :: "string set"
  assumes finite_known: "finite known"
    and known_deps: "Dependencies idx fn v = Some ds \<Longrightarrow> fn \<in> known"
begin

lemma walk_deps_returns:
  assumes "\<And>fn v s. fn \<notin> set path \<Longrightarrow> rec fn v path s \<noteq> None"
  shows "walk_deps idx rec f w path ds s \<noteq> None"
proof (induction ds arbitrary: s)
  case Nil
  then show ?case by simp
next
  case (Cons d ds)
  have "walk idx rec dn dv path t \<noteq> None" for dn dv t
    using assms by (auto simp: walk_def checkCycle_def split: option.splits sum.splits)
  with Cons show ?case by (auto simp del: not_None_eq split: option.splits sum.splits)
qed

lemma expand_returns:
  assumes "distinct path" and "set path \<subseteq> known" and "fn \<notin> set path"
    and "card known < fuel + length path"
  shows "expand fuel idx fn v path s \<noteq> None"
  using assms
proof (induction fuel arbitrary: fn v path s)
  case 0
  then have "length path \<le> card known"
    using card_mono [OF finite_known] distinct_card by metis
  with 0 show ?case by simp
next
  case (Suc fuel)
  show ?case
  proof (cases "Dependencies idx fn v")
    case None
    then show ?thesis by simp
  next
    case (Some ds)
    then have "fn \<in> known" by (rule known_deps)
    then have "expand fuel idx x w (path @ [fn]) t \<noteq> None" if "x \<notin> set (path @ [fn])" for x w t
      using that Suc.prems by (intro Suc.IH) auto
    then have "walk_deps idx (expand fuel idx) fn v (path @ [fn]) ds t \<noteq> None" for t
      by (rule walk_deps_returns)
    with Some show ?thesis by (auto simp: Let_def)
  qed
qed

lemma visit_list_returns:
  assumes "visits idx s rec" and "\<And>x seen. card (known - seen) < n \<Longrightarrow> rec x seen \<noteq> None"
    and "card (known - seen) < n"
  shows "visit_list rec xs seen \<noteq> None"
  using assms(3)
proof (induction xs arbitrary: seen)
  case Nil
  then show ?case by simp
next
  case (Cons x xs)
  then obtain t where t: "rec x seen = Some t" using assms(2) by blast
  with assms(1) have "seen \<subseteq> t" unfolding visits_def by blast
  then have "card (known - t) \<le> card (known - seen)"
    using finite_known by (intro card_mono) auto
  with Cons t show ?case by simp
qed

lemma visit_returns: "card (known - seen) < fuel \<Longrightarrow> visit fuel idx s x seen \<noteq> None"
proof (induction fuel arbitrary: x seen)
  case 0
  then show ?case by simp
next
  case (Suc fuel)
  show ?case
  proof (cases "x \<in> seen \<or> successors idx s x = []")
    case True
    then show ?thesis by auto
  next
    case False
    then have "x \<in> known"
      by (auto simp: successors_def Let_def split: if_splits option.splits dest: known_deps)
    with False have "known - insert x seen \<subset> known - seen" by blast
    then have "card (known - insert x seen) < card (known - seen)"
      using finite_known by (intro psubset_card_mono) auto
    with Suc have "visit_list (visit fuel idx s) (successors idx s x) (insert x seen) \<noteq> None"
      using visit_list_returns [OF visit_ok, where n = fuel] by fastforce
    with False show ?thesis by simp
  qed
qed

lemma resolve_terminates:
  assumes "card known < fuel"
  shows "Resolve fuel reqs idx \<noteq> None"
proof -
  have e: "expand fuel idx fn v [] s \<noteq> None" for fn v s
    using assms by (intro expand_returns) auto
  have "expand_requests fuel idx rs s \<noteq> None" for rs s
  proof (induction rs arbitrary: s)
    case Nil
    then show ?case by simp
  next
    case (Cons r rs)
    then show ?case using e by (auto simp del: not_None_eq split: option.splits sum.splits)
  qed
  moreover have "card (known - seen) < fuel" for seen
    using assms card_mono [OF finite_known, of "known - seen"] by fastforce
  then have "closure fuel idx s \<noteq> None" for s
    using visit_list_returns [OF visit_ok, where n = fuel] visit_returns
    by (fastforce simp: closure_def reachable_def split: option.splits)
  ultimately show ?thesis
    by (auto simp: Resolve_def simp del: not_None_eq split: sum.splits option.splits)
qed

end

subsection \<open>Fuel does not matter\<close>

definition refines where
  "refines rec rec' \<longleftrightarrow>
     (\<forall>fn v path (s :: resolve_state) (r :: resolve_error + resolve_state).
        rec (fn :: string) (v :: string) (path :: string list) s = Some r \<longrightarrow> rec' fn v path s = Some r)"

lemma walk_deps_mono:
  "refines rec rec' \<Longrightarrow> walk_deps idx rec f w path ds s = Some r \<Longrightarrow>
   walk_deps idx rec' f w path ds s = Some r"
proof (induction ds arbitrary: s)
  case Nil
  then show ?case by simp
next
  case (Cons d ds)
  have "walk idx rec' dn dv path t = Some q" if "walk idx rec dn dv path t = Some q" for dn dv t q
    using that Cons.prems(1)
    by (auto simp: walk_def refines_def split: option.splits sum.splits if_splits)
  with Cons show ?case by (fastforce split: option.splits sum.splits)
qed

lemma expand_mono: "refines (expand fuel idx) (expand (Suc fuel) idx)"
proof (induction fuel)
  case 0
  then show ?case by (simp add: refines_def)
next
  case (Suc fuel)
  have "expand (Suc (Suc fuel)) idx fn v path s = Some r"
    if ret: "expand (Suc fuel) idx fn v path s = Some r" for fn v path s r
  proof (cases "Dependencies idx fn v = None \<or> version_key fn v \<in> expanded s")
    case True
    with ret show ?thesis by (auto simp: Let_def split: option.splits)
  next
    case False
    then obtain ds where ds: "Dependencies idx fn v = Some ds" by auto
    with False ret have "walk_deps idx (expand fuel idx) fn v (path @ [fn]) ds
        ((recordHighest fn v s)\<lparr>expanded := insert (version_key fn v) (expanded s)\<rparr>) = Some r"
      by (simp add: Let_def)
    from walk_deps_mono [OF Suc this] False ds show ?thesis
      by (subst expand.simps(2)) (simp add: Let_def del: expand.simps(2))
  qed
  then show ?case unfolding refines_def by blast
qed

lemma expand_fuel_add: "expand fuel idx fn v path s = Some r \<Longrightarrow> expand (fuel + k) idx fn v path s = Some r"
proof (induction k)
  case (Suc k)
  then have "expand (fuel + k) idx fn v path s = Some r" by simp
  with expand_mono have "expand (Suc (fuel + k)) idx fn v path s = Some r"
    unfolding refines_def by blast
  then show ?case by (simp only: add_Suc_right)
qed simp

lemma visit_list_mono:
  assumes "\<And>x seen t. rec x seen = Some t \<Longrightarrow> rec' x seen = Some t"
  shows "visit_list rec xs seen = Some t \<Longrightarrow> visit_list rec' xs seen = Some t"
  using assms by (induction xs arbitrary: seen) (fastforce split: option.splits)+

lemma visit_mono: "visit fuel idx s x seen = Some t \<Longrightarrow> visit (Suc fuel) idx s x seen = Some t"
proof (induction fuel arbitrary: x seen t)
  case (Suc fuel)
  show ?case
  proof (cases "x \<in> seen")
    case True
    with Suc.prems show ?thesis by simp
  next
    case False
    with Suc.prems have "visit_list (visit fuel idx s) (successors idx s x) (insert x seen) = Some t"
      by simp
    then have "visit_list (visit (Suc fuel) idx s) (successors idx s x) (insert x seen) = Some t"
      using Suc.IH by (rule visit_list_mono [rotated])
    with False show ?thesis by (simp only: visit.simps if_False)
  qed
qed simp

lemma visit_fuel_add: "visit fuel idx s x seen = Some t \<Longrightarrow> visit (fuel + k) idx s x seen = Some t"
  by (induction k) (simp, metis add_Suc_right visit_mono)

lemma expand_requests_fuel_add:
  "expand_requests fuel idx rs s = Some q \<Longrightarrow> expand_requests (fuel + k) idx rs s = Some q"
proof (induction rs arbitrary: s)
  case (Cons r rs)
  show ?case
  proof (cases "Installed idx (ReqName r) = Some (ReqVersion r)")
    case True
    with Cons show ?thesis by simp
  next
    case False
    then obtain t where t: "expand fuel idx (ReqName r) (ReqVersion r) [] s = Some t"
      using Cons.prems by (auto split: option.splits)
    with Cons False expand_fuel_add [OF t, of k] show ?thesis by (cases t) auto
  qed
qed simp

lemma closure_fuel_add: "closure fuel idx s = Some n \<Longrightarrow> closure (fuel + k) idx s = Some n"
proof -
  assume "closure fuel idx s = Some n"
  then obtain keep where k: "reachable fuel idx s = Some keep"
    and n: "n = map (mk_node idx s) (filter (\<lambda>fn. fn \<in> keep) (discovered s))"
    by (auto simp: closure_def split: option.splits)
  from k [unfolded reachable_def] have "reachable (fuel + k) idx s = Some keep"
    unfolding reachable_def using visit_fuel_add by (rule visit_list_mono [rotated])
  then show ?thesis by (simp add: closure_def n)
qed

lemma Resolve_fuel_add:
  assumes "Resolve fuel reqs idx = Some r"
  shows "Resolve (fuel + k) reqs idx = Some r"
proof (cases "admit_requests idx reqs init_state")
  case (Inl e)
  with assms show ?thesis by (simp add: Resolve_def)
next
  case (Inr s0)
  with assms obtain q where q: "expand_requests fuel idx reqs s0 = Some q"
    by (auto simp: Resolve_def split: option.splits)
  from expand_requests_fuel_add [OF this, of k] Inr assms q show ?thesis
    by (cases q) (auto simp: Resolve_def dest: closure_fuel_add [where k = k])
qed

subsection \<open>Nodes of a returned closure\<close>

lemma final_inv: "final_ok idx reqs s \<Longrightarrow> rs_inv idx s"
  by (simp add: final_ok_def)

lemma closure_nodeE:
  assumes "closure fuel idx s = Some nodes" and "n \<in> set nodes"
  obtains fn where "n = mk_node idx s fn" and "fn \<in> set (discovered s)" and "needed idx s fn"
  using iffD1 [OF closure_nodes [OF assms(1)] assms(2)] that by blast

lemma final_request:
  assumes "final_ok idx reqs s" and "x \<in> set (explicit s)"
  obtains r where "r \<in> set reqs" and "ReqName r = x" and "fixed s x = Some (ReqVersion r)"
    and "check_request idx r = None" and "x \<in> set (discovered s)"
proof -
  from assms have "x \<in> dom (highest s)" and "\<exists>r \<in> set reqs. ReqName r = x \<and>
      fixed s x = Some (ReqVersion r) \<and> check_request idx r = None"
    by (simp_all add: final_ok_def) blast
  with that rs_inv_dom [OF final_inv [OF assms(1)]] show ?thesis by blast
qed

lemma covered_discovered: "rs_inv idx s \<Longrightarrow> set (explicit s) \<subseteq> dom (highest s) \<Longrightarrow> covered s dn dv \<Longrightarrow>
   dn \<in> set (discovered s)"
  using rs_inv_dom [of idx s] rs_inv_fixed [of idx s dn] unfolding covered_def by blast

lemma successors_dest:
  assumes "y \<in> set (successors idx s x)"
  obtains ds d dv where "version_key x (chosen s x) \<in> expanded s"
    and "Dependencies idx x (chosen s x) = Some ds" and "d \<in> set ds"
    and "ParseDependency d = Some (y, dv)"
proof -
  have "\<exists>ds. version_key x (chosen s x) \<in> expanded s \<and> Dependencies idx x (chosen s x) = Some ds \<and>
      y \<in> fst ` set (List.map_filter ParseDependency ds)"
    using assms
    by (cases "Dependencies idx x (chosen s x)") (simp_all add: successors_def Let_def split: if_splits)
  then obtain ds where ds: "version_key x (chosen s x) \<in> expanded s"
    "Dependencies idx x (chosen s x) = Some ds" "y \<in> fst ` set (List.map_filter ParseDependency ds)"
    by blast
  then obtain dv where "(y, dv) \<in> set (List.map_filter ParseDependency ds)" by auto
  then obtain d where "d \<in> set ds" "ParseDependency d = Some (y, dv)"
    by (auto simp: List.map_filter_def)
  with ds that show ?thesis by blast
qed

lemma final_edge:
  assumes f: "final_ok idx reqs s" and n: "needed idx s fn" "fn \<in> set (discovered s)"
    and i: "Installed idx fn \<noteq> Some (chosen s fn)"
  shows "\<exists>ds. Dependencies idx fn (chosen s fn) = Some ds \<and>
    (\<forall>d \<in> set ds. \<exists>dn dv. ParseDependency d = Some (dn, dv) \<and> covered s dn dv \<and>
       dn \<in> set (discovered s) \<and> needed idx s dn)"
proof -
  from chosen_origin [OF f n(2)] i have k: "CHR ''@'' \<notin> set (chosen s fn)"
    "version_key fn (chosen s fn) \<in> expanded s" by auto
  with f have c: "closed_at idx s fn (chosen s fn)" by (simp add: final_ok_def)
  then obtain ds where ds: "Dependencies idx fn (chosen s fn) = Some ds"
    and all: "\<forall>d \<in> set ds. \<exists>dn dv. ParseDependency d = Some (dn, dv) \<and> covered s dn dv"
    by (auto simp: closed_at_def)
  have "set (explicit s) \<subseteq> dom (highest s)" using f by (auto simp: final_ok_def)
  note disc = covered_discovered [OF final_inv [OF f] this]
  have "\<exists>dn dv. ParseDependency d = Some (dn, dv) \<and> covered s dn dv \<and>
       dn \<in> set (discovered s) \<and> needed idx s dn" if d: "d \<in> set ds" for d
  proof -
    from all d obtain dn dv where p: "ParseDependency d = Some (dn, dv)" "covered s dn dv" by blast
    from successors_dep [OF k(2) ds d p(1)] n(1) have "needed idx s dn" by (blast intro: needed.depended)
    with p disc show ?thesis by blast
  qed
  with ds show ?thesis by blast
qed

lemma covered_node:
  assumes "final_ok idx reqs s" and "covered s dn dv"
  shows "\<not> higher dv (chosen s dn) \<or> dn \<in> set (explicit s) \<or> Held idx dn"
proof (cases "fixed s dn")
  case None
  with assms(2) show ?thesis by (auto simp: covered_def chosen_def)
next
  case (Some v)
  from rs_inv_fixed [OF final_inv [OF assms(1)] Some] show ?thesis by blast
qed

subsection \<open>A small index the witnesses run on\<close>

text \<open>Three packages: \<open>a\<close> and \<open>b\<close> both need \<open>c\<close>, \<open>b\<close> needs the newer one; \<open>h\<close> is installed and held.\<close>

definition demo_index :: index where
  "demo_index = \<lparr>Dependencies = (\<lambda>n v.
       if n = ''a'' \<and> v = ''1.0.0'' then Some [''c-1.0.0'', ''h-2.0.0'']
       else if n = ''b'' \<and> v = ''1.0.0'' then Some [''c-1.1.0'']
       else if n = ''c'' \<and> v \<in> {''1.0.0'', ''1.1.0''} then Some []
       else if n = ''x'' then Some [''y-1.0.0''] else if n = ''y'' then Some [''x-1.0.0'']
       else None),
     Installed = (\<lambda>n. if n = ''h'' then Some ''1.0.0'' else None),
     Held = (\<lambda>n. n = ''h'')\<rparr>"

definition demo_requests :: "request list" where
  "demo_requests = [\<lparr>ReqName = ''a'', ReqVersion = ''1.0.0''\<rparr>, \<lparr>ReqName = ''b'', ReqVersion = ''1.0.0''\<rparr>]"

definition demo_nodes :: "node list" where
  "demo_nodes = [
     \<lparr>NodeName = ''a'', NodeVersion = ''1.0.0'', Transitive = False, NoOp = False\<rparr>,
     \<lparr>NodeName = ''c'', NodeVersion = ''1.1.0'', Transitive = True, NoOp = False\<rparr>,
     \<lparr>NodeName = ''h'', NodeVersion = ''1.0.0'', Transitive = True, NoOp = True\<rparr>,
     \<lparr>NodeName = ''b'', NodeVersion = ''1.0.0'', Transitive = False, NoOp = False\<rparr>]"

lemma demo_resolve: "Resolve 7 demo_requests demo_index = Some (Inr demo_nodes)"
  by code_simp

subsection \<open>The closure is complete, exact and minimal\<close>

text \<open>C1. A returned closure is complete. Every node is either already installed at its version, or
  the index describes it and every dependency it declares parses and is a node too, at the required
  version or higher, unless that node is itself requested or held, whose version no edge moves.\<close>

theorem Resolve_complete:
  assumes "Resolve fuel reqs idx = Some (Inr nodes)" and "n \<in> set nodes"
  shows "NoOp n \<or> (\<exists>ds. Dependencies idx (NodeName n) (NodeVersion n) = Some ds \<and>
    (\<forall>d \<in> set ds. \<exists>dn dv. ParseDependency d = Some (dn, dv) \<and>
       (\<exists>m \<in> set nodes. NodeName m = dn \<and>
          (\<not> higher dv (NodeVersion m) \<or> \<not> Transitive m \<or> Held idx dn))))"
proof -
  from assms(1) obtain s where f: "final_ok idx reqs s" and c: "closure fuel idx s = Some nodes"
    by (rule Resolve_final)
  note nodes = closure_nodes [OF c]
  from c assms(2) obtain fn where n: "n = mk_node idx s fn" "fn \<in> set (discovered s)" "needed idx s fn"
    by (rule closure_nodeE)
  show ?thesis
  proof (cases "Installed idx fn = Some (chosen s fn)")
    case True
    then show ?thesis by (simp add: n mk_node_def)
  next
    case False
    from final_edge [OF f n(3,2) False] obtain ds where
      ds: "Dependencies idx fn (chosen s fn) = Some ds" and
      all: "\<forall>d \<in> set ds. \<exists>dn dv. ParseDependency d = Some (dn, dv) \<and> covered s dn dv \<and>
       dn \<in> set (discovered s) \<and> needed idx s dn" by blast
    have "\<exists>dn dv. ParseDependency d = Some (dn, dv) \<and> (\<exists>m \<in> set nodes. NodeName m = dn \<and>
          (\<not> higher dv (NodeVersion m) \<or> \<not> Transitive m \<or> Held idx dn))" if "d \<in> set ds" for d
    proof -
      from all that obtain dn dv where p: "ParseDependency d = Some (dn, dv)" "covered s dn dv"
        "dn \<in> set (discovered s)" "needed idx s dn" by blast
      then have "mk_node idx s dn \<in> set nodes" using nodes by blast
      moreover from covered_node [OF f p(2)] have "\<not> higher dv (NodeVersion (mk_node idx s dn)) \<or>
          \<not> Transitive (mk_node idx s dn) \<or> Held idx dn" by (simp add: mk_node_def)
      moreover have "NodeName (mk_node idx s dn) = dn" by (simp add: mk_node_def)
      ultimately show ?thesis using p(1) by blast
    qed
    with ds show ?thesis by (simp add: n mk_node_def)
  qed
qed

theorem Resolve_complete_witness:
  "Resolve 7 demo_requests demo_index = Some (Inr demo_nodes) \<and>
   Dependencies demo_index ''b'' ''1.0.0'' = Some [''c-1.1.0''] \<and>
   (\<exists>m. m \<in> set demo_nodes \<and> NodeName m = ''c'' \<and> \<not> higher ''1.1.0'' (NodeVersion m))"
proof -
  let ?b = "demo_nodes ! 3"
  have p: "ParseDependency ''c-1.1.0'' = Some (''c'', ''1.1.0'')" by code_simp
  have "?b \<in> set demo_nodes" by (rule nth_mem) (simp add: demo_nodes_def)
  from Resolve_complete [OF demo_resolve this] have "\<exists>m \<in> set demo_nodes. NodeName m = ''c'' \<and>
      (\<not> higher ''1.1.0'' (NodeVersion m) \<or> \<not> Transitive m \<or> Held demo_index ''c'')"
    by (simp add: demo_nodes_def demo_index_def p)
  moreover have "Transitive m \<and> \<not> Held demo_index ''c''" if "m \<in> set demo_nodes" "NodeName m = ''c''" for m
    using that by (auto simp: demo_nodes_def demo_index_def)
  ultimately have "\<exists>m. m \<in> set demo_nodes \<and> NodeName m = ''c'' \<and> \<not> higher ''1.1.0'' (NodeVersion m)" by blast
  moreover have "Dependencies demo_index ''b'' ''1.0.0'' = Some [''c-1.1.0'']" by (simp add: demo_index_def)
  ultimately show ?thesis using demo_resolve by blast
qed

lemma closure_distinct:
  assumes "Resolve fuel reqs idx = Some (Inr nodes)"
  shows "distinct (map NodeName nodes)"
proof -
  from assms obtain s where f: "final_ok idx reqs s" and c: "closure fuel idx s = Some nodes"
    by (rule Resolve_final)
  have "map NodeName (map (mk_node idx s) xs) = xs" for xs
    by (induction xs) (simp_all add: mk_node_def)
  with c rs_inv_distinct [OF final_inv [OF f]] show ?thesis
    by (auto simp: closure_def simp del: map_map split: option.splits)
qed

text \<open>A request is exact: when the requests name distinct packages, each of them is in the
  closure once, at the requested version, marked as requested; every other node is marked as
  transitive and no package appears twice.\<close>

lemma Resolve_requests_exact:
  assumes "Resolve fuel reqs idx = Some (Inr nodes)" and "distinct (map ReqName reqs)"
  shows "distinct (map NodeName nodes) \<and>
    (\<forall>r \<in> set reqs. \<exists>n \<in> set nodes. NodeName n = ReqName r \<and> NodeVersion n = ReqVersion r) \<and>
    (\<forall>n \<in> set nodes. Transitive n \<longleftrightarrow> NodeName n \<notin> ReqName ` set reqs)"
proof -
  from assms(1) obtain s where f: "final_ok idx reqs s" and c: "closure fuel idx s = Some nodes"
    by (rule Resolve_final)
  note nodes = closure_nodes [OF c]
  from f have expl: "set (explicit s) = ReqName ` set reqs" by (simp add: final_ok_def)
  have "distinct (map NodeName nodes)" by (rule closure_distinct [OF assms(1)])
  moreover have "\<exists>n \<in> set nodes. NodeName n = ReqName r \<and> NodeVersion n = ReqVersion r"
    if r: "r \<in> set reqs" for r
  proof -
    from r expl have x: "ReqName r \<in> set (explicit s)" by simp
    from f x obtain q where q: "q \<in> set reqs" "ReqName q = ReqName r"
      "fixed s (ReqName r) = Some (ReqVersion q)" "ReqName r \<in> set (discovered s)"
      by (rule final_request)
    from assms(2) have "inj_on ReqName (set reqs)" by (simp add: distinct_map)
    then have "q = r" using q(2,1) r by (rule inj_onD)
    with q have "chosen s (ReqName r) = ReqVersion r" by (simp add: chosen_def)
    moreover have "mk_node idx s (ReqName r) \<in> set nodes"
      using nodes needed.requested [OF x] q(4) by blast
    ultimately show ?thesis by (force simp: mk_node_def)
  qed
  moreover have "Transitive n \<longleftrightarrow> NodeName n \<notin> ReqName ` set reqs" if "n \<in> set nodes" for n
  proof -
    from c that obtain fn where "n = mk_node idx s fn" by (rule closure_nodeE)
    then show ?thesis by (simp add: mk_node_def expl)
  qed
  ultimately show ?thesis by blast
qed

lemma Resolve_requests_exact_example:
  "Resolve 7 demo_requests demo_index = Some (Inr demo_nodes) \<and> distinct (map ReqName demo_requests) \<and>
   (\<exists>n. n \<in> set demo_nodes \<and> NodeName n = ''a'' \<and> NodeVersion n = ''1.0.0'') \<and>
   (\<exists>n. n \<in> set demo_nodes \<and> NodeName n = ''b'' \<and> NodeVersion n = ''1.0.0'')"
proof -
  have d: "distinct (map ReqName demo_requests)" by (simp add: demo_requests_def)
  from Resolve_requests_exact [OF demo_resolve d] have
    all: "\<forall>r \<in> set demo_requests. \<exists>n \<in> set demo_nodes. NodeName n = ReqName r \<and> NodeVersion n = ReqVersion r"
    by (elim conjE)
  have "demo_requests ! 0 \<in> set demo_requests" "demo_requests ! 1 \<in> set demo_requests"
    by (simp_all add: demo_requests_def)
  with all have "\<exists>n \<in> set demo_nodes. NodeName n = ReqName (demo_requests ! 0) \<and> NodeVersion n = ReqVersion (demo_requests ! 0)"
    "\<exists>n \<in> set demo_nodes. NodeName n = ReqName (demo_requests ! 1) \<and> NodeVersion n = ReqVersion (demo_requests ! 1)"
    by blast+
  then have "\<exists>n. n \<in> set demo_nodes \<and> NodeName n = ''a'' \<and> NodeVersion n = ''1.0.0''"
    "\<exists>n. n \<in> set demo_nodes \<and> NodeName n = ''b'' \<and> NodeVersion n = ''1.0.0''"
    unfolding Bex_def by (simp_all add: demo_requests_def)
  with d demo_resolve show ?thesis by blast
qed

lemma closure_keeps_installed:
  assumes "Resolve fuel reqs idx = Some (Inr nodes)" and "n \<in> set nodes"
    and "Installed idx (NodeName n) = Some i"
  shows "(Held idx (NodeName n) \<longrightarrow> NodeVersion n = i \<and> NoOp n) \<and>
    (Transitive n \<longrightarrow> NodeVersion n = i \<or> higher (NodeVersion n) i)"
proof -
  from assms(1) obtain s where f: "final_ok idx reqs s" and c: "closure fuel idx s = Some nodes"
    by (rule Resolve_final)
  from c assms(2) obtain fn where n: "n = mk_node idx s fn" "fn \<in> set (discovered s)"
    by (rule closure_nodeE)
  note inv = final_inv [OF f]
  from n(2) rs_inv_dom [OF inv] obtain h where h: "highest s fn = Some h" by blast
  have i: "Installed idx fn = Some i" using assms(3) by (simp add: n mk_node_def)
  have held: "chosen s fn = i" if "Held idx fn"
  proof (cases "fn \<in> set (explicit s)")
    case True
    with f obtain r where "ReqName r = fn" "fixed s fn = Some (ReqVersion r)" "check_request idx r = None"
      by (rule final_request)
    with that i show ?thesis by (auto simp: check_request_def chosen_def split: if_splits)
  next
    case False
    from rs_inv_held [OF inv False that i] h show ?thesis by (simp add: chosen_def)
  qed
  have "chosen s fn = i \<or> higher (chosen s fn) i" if "fn \<notin> set (explicit s)"
  proof (cases "fixed s fn")
    case None
    with rs_inv_above [OF inv that h i] h show ?thesis by (simp add: chosen_def map_get_def)
  next
    case (Some v)
    with rs_inv_fixed [OF inv Some] that held show ?thesis by blast
  qed
  with held i show ?thesis by (simp add: n mk_node_def)
qed

text \<open>A held package never moves: whatever is requested, a node whose package is installed and
  held stays at its installed version and is a no-op. A dependency never lowers a package: a
  transitive node of an installed package is at the installed version or a higher one.\<close>

lemma Resolve_keeps_installed:
  assumes "Resolve fuel reqs idx = Some (Inr nodes)" and "n \<in> set nodes"
    and "Installed idx (NodeName n) = Some i"
  shows "(Held idx (NodeName n) \<longrightarrow> NodeVersion n = i \<and> NoOp n) \<and>
    (Transitive n \<longrightarrow> NodeVersion n = i \<or> higher (NodeVersion n) i)"
  by (rule closure_keeps_installed [OF assms])

lemma Resolve_keeps_installed_example:
  "Resolve 7 demo_requests demo_index = Some (Inr demo_nodes) \<and>
   (let n = demo_nodes ! 2 in NodeName n = ''h'' \<and> NodeVersion n = ''1.0.0'' \<and> NoOp n)"
proof -
  have "demo_nodes ! 2 \<in> set demo_nodes" "Installed demo_index (NodeName (demo_nodes ! 2)) = Some ''1.0.0''"
    "Held demo_index (NodeName (demo_nodes ! 2))" "NodeName (demo_nodes ! 2) = ''h''"
    by (simp_all add: demo_nodes_def demo_index_def)
  with Resolve_keeps_installed [OF demo_resolve this(1,2)] demo_resolve show ?thesis by (simp add: Let_def)
qed

text \<open>The packages a set of nodes pulls in: what is requested, and what a pulled-in node that is not a
  no-op declares as a dependency.\<close>

inductive pulled_in :: "index \<Rightarrow> request list \<Rightarrow> node list \<Rightarrow> string \<Rightarrow> bool" for idx reqs nodes where
  "r \<in> set reqs \<Longrightarrow> pulled_in idx reqs nodes (ReqName r)"
| "pulled_in idx reqs nodes (NodeName m) \<Longrightarrow> m \<in> set nodes \<Longrightarrow>
   Dependencies idx (NodeName m) (NodeVersion m) = Some ds \<Longrightarrow> d \<in> set ds \<Longrightarrow>
   ParseDependency d = Some (dn, dv) \<Longrightarrow> pulled_in idx reqs nodes dn"

lemma needed_pulled_in:
  assumes f: "final_ok idx reqs s" and c: "closure fuel idx s = Some nodes"
    and i: "\<forall>fn i. Installed idx fn = Some i \<longrightarrow> CHR ''@'' \<notin> set i"
    and "needed idx s x"
  shows "x \<in> set (discovered s) \<and> pulled_in idx reqs nodes x"
  using assms(4)
proof (induction rule: needed.induct)
  case (requested x)
  with f obtain r where "r \<in> set reqs" "ReqName r = x" "x \<in> set (discovered s)"
    by (rule final_request)
  then show ?case using pulled_in.intros(1) by blast
next
  case (depended x y)
  from depended(2) obtain ds d dv where k: "version_key x (chosen s x) \<in> expanded s"
    "Dependencies idx x (chosen s x) = Some ds" "d \<in> set ds" "ParseDependency d = Some (y, dv)"
    by (rule successors_dest)
  have "CHR ''@'' \<notin> set (chosen s x)" using chosen_origin [OF f] depended.IH i by blast
  with f k(1) have "closed_at idx s x (chosen s x)" by (simp add: final_ok_def)
  with k have "covered s y dv" by (auto simp: closed_at_def)
  moreover have "set (explicit s) \<subseteq> dom (highest s)" using f by (auto simp: final_ok_def)
  ultimately have "y \<in> set (discovered s)" using covered_discovered [OF final_inv [OF f]] by blast
  moreover have "mk_node idx s x \<in> set nodes" using closure_nodes [OF c] depended by blast
  then have "pulled_in idx reqs nodes y"
    using pulled_in.intros(2) [of idx reqs nodes "mk_node idx s x"] depended.IH k(2-4)
    by (simp add: mk_node_def)
  ultimately show ?case ..
qed

text \<open>C31. The closure is minimal: every node is requested, or reached from a request through the
  dependencies the nodes of the closure themselves declare at their chosen versions. A package only
  a discarded lower version needed is left out. (Installed versions hold no \<open>@\<close>, which would make the
  walk's keys ambiguous.)\<close>

theorem Resolve_minimal:
  assumes "Resolve fuel reqs idx = Some (Inr nodes)"
    and "\<forall>fn i. Installed idx fn = Some i \<longrightarrow> CHR ''@'' \<notin> set i"
    and "n \<in> set nodes"
  shows "pulled_in idx reqs nodes (NodeName n)"
proof -
  from assms(1) obtain s where f: "final_ok idx reqs s" and c: "closure fuel idx s = Some nodes"
    by (rule Resolve_final)
  from c assms(3) obtain fn where "n = mk_node idx s fn" "needed idx s fn" by (rule closure_nodeE)
  with needed_pulled_in [OF f c assms(2)] show ?thesis by (simp add: mk_node_def)
qed

theorem Resolve_minimal_witness: "pulled_in demo_index demo_requests demo_nodes ''c''"
proof -
  have "\<forall>fn i. Installed demo_index fn = Some i \<longrightarrow> CHR ''@'' \<notin> set i"
    by (auto simp: demo_index_def split: if_splits)
  moreover have "demo_nodes ! 1 \<in> set demo_nodes" by (simp add: demo_nodes_def)
  ultimately have "pulled_in demo_index demo_requests demo_nodes (NodeName (demo_nodes ! 1))"
    by (rule Resolve_minimal [OF demo_resolve])
  then show ?thesis by (simp add: demo_nodes_def)
qed

end
