(* ===== verification/Resolver_Errors.thy ===== *)
theory Resolver_Errors
  imports Resolver
begin

text \<open>
  The error side of \<open>internal/mods/resolver\<close> and its second entry point. Every error \<open>Resolve\<close>
  returns is shown to be grounded in the index and the requests (a reported cycle is a cycle of
  declared dependencies, a missing version is missing); \<open>Check\<close> reports exactly the unmet edges of
  a planned set that touch a changed package; a dependency ident splits back into its halves.
\<close>

subsection \<open>Grounded errors\<close>

definition dep_edge :: "index \<Rightarrow> string \<Rightarrow> string \<Rightarrow> bool" where
  "dep_edge idx a b \<longleftrightarrow>
     (\<exists>v ds d w. Dependencies idx a v = Some ds \<and> d \<in> set ds \<and> ParseDependency d = Some (b, w))"

definition genuine :: "index \<Rightarrow> request list \<Rightarrow> resolve_error \<Rightarrow> bool" where
  "genuine idx reqs e =
     (case e of
        HeldError fn have' want \<Rightarrow> Held idx fn \<and> Installed idx fn = Some have' \<and> have' \<noteq> want \<and>
          (\<exists>r \<in> set reqs. ReqName r = fn \<and> ReqVersion r = want)
      | UnresolvedError fn v \<Rightarrow> Dependencies idx fn v = None
      | MalformedDependencyError fn v d \<Rightarrow>
          (\<exists>ds. Dependencies idx fn v = Some ds \<and> d \<in> set ds) \<and> ParseDependency d = None
      | BadVersionError fn v \<Rightarrow> ParseVersion v = None \<and>
          (Installed idx fn = Some v \<or> (\<exists>r \<in> set reqs. ReqName r = fn \<and> ReqVersion r = v))
      | CycleError c \<Rightarrow> successively (dep_edge idx) c \<and> c \<noteq> [] \<and> hd c \<in> ReqName ` set reqs \<and>
          last c \<in> set (butlast c))"

text \<open>The path a walk carries is a chain of declared dependencies from a request; a call extends it.\<close>

definition path_ok :: "index \<Rightarrow> request list \<Rightarrow> string list \<Rightarrow> string \<Rightarrow> bool" where
  "path_ok idx reqs path fn \<longleftrightarrow>
     successively (dep_edge idx) (path @ [fn]) \<and> hd (path @ [fn]) \<in> ReqName ` set reqs"

lemma check_request_genuine:
  "r \<in> set reqs \<Longrightarrow> check_request idx r = Some e \<Longrightarrow> genuine idx reqs e"
  by (auto simp: check_request_def genuine_def split: if_splits option.splits)

lemma walk_genuine:
  assumes p: "path_ok idx reqs path fn"
    and rec: "\<And>s. rec fn v path s = Some (Inl e) \<Longrightarrow> genuine idx reqs e"
    and w: "walk idx rec fn v path s = Some (Inl e)"
  shows "genuine idx reqs e"
proof (cases "fn \<in> set path")
  case True
  with w have "e = CycleError (path @ [fn])" by (simp add: walk_def checkCycle_def)
  with p True show ?thesis by (auto simp: genuine_def path_ok_def hd_append)
next
  case False
  then have "checkCycle path fn = None" by (simp add: checkCycle_def)
  with w rec show ?thesis
    by (auto simp: walk_def installedSatisfies_def genuine_def split: if_splits option.splits sum.splits)
qed

lemma walk_deps_genuine:
  assumes "Dependencies idx f w = Some all" and "set ds \<subseteq> set all"
    and "path \<noteq> []" and "last path = f"
    and "successively (dep_edge idx) path" and "hd path \<in> ReqName ` set reqs"
    and rec: "\<And>fn v s e. path_ok idx reqs path fn \<Longrightarrow> rec fn v path s = Some (Inl e) \<Longrightarrow> genuine idx reqs e"
    and "walk_deps idx rec f w path ds s = Some (Inl e)"
  shows "genuine idx reqs e"
  using assms(2,8)
proof (induction ds arbitrary: s)
  case Nil
  then show ?case by simp
next
  case (Cons d ds)
  show ?case
  proof (cases "ParseDependency d")
    case None
    with Cons.prems assms(1) show ?thesis by (auto simp: genuine_def)
  next
    case (Some nv)
    then obtain dn dv where p: "ParseDependency d = Some (dn, dv)" by (cases nv) auto
    with assms(1) Cons.prems(1) have "dep_edge idx f dn" unfolding dep_edge_def by fastforce
    with assms(3-6) have pk: "path_ok idx reqs path dn"
      by (simp add: path_ok_def successively_append_iff hd_append)
    show ?thesis
    proof (cases "walk idx rec dn dv path s = Some (Inl e)")
      case True
      from walk_genuine [OF pk rec [OF pk] True] show ?thesis .
    next
      case False
      with Cons.prems(2) p obtain t where "walk_deps idx rec f w path ds t = Some (Inl e)"
        by (auto split: option.splits sum.splits)
      with Cons.IH Cons.prems(1) show ?thesis by simp
    qed
  qed
qed

lemma expand_genuine:
  assumes "path_ok idx reqs path fn" and "expand fuel idx fn v path s = Some (Inl e)"
  shows "genuine idx reqs e"
  using assms
proof (induction fuel arbitrary: fn v path s e)
  case 0
  then show ?case by simp
next
  case (Suc fuel)
  show ?case
  proof (cases "Dependencies idx fn v")
    case None
    with Suc.prems show ?thesis by (auto simp: genuine_def)
  next
    case (Some ds)
    with Suc.prems(2) obtain t where w:
      "walk_deps idx (expand fuel idx) fn v (path @ [fn]) ds t = Some (Inl e)"
      by (auto simp: Let_def split: if_splits)
    have rec: "genuine idx reqs e'" if "path_ok idx reqs (path @ [fn]) x"
      and "expand fuel idx x u (path @ [fn]) s' = Some (Inl e')" for x u s' e'
      using that by (rule Suc.IH)
    have "successively (dep_edge idx) (path @ [fn])" "hd (path @ [fn]) \<in> ReqName ` set reqs"
      using Suc.prems(1) by (simp_all add: path_ok_def)
    from walk_deps_genuine [OF Some subset_refl _ _ this rec w] show ?thesis by simp
  qed
qed

lemma admit_requests_genuine:
  "set rs \<subseteq> set reqs \<Longrightarrow> admit_requests idx rs s = Inl e \<Longrightarrow> genuine idx reqs e"
proof (induction rs arbitrary: s)
  case (Cons r rs)
  then show ?case by (auto split: option.splits intro: check_request_genuine)
qed simp

lemma expand_requests_genuine:
  "set rs \<subseteq> set reqs \<Longrightarrow> expand_requests fuel idx rs s = Some (Inl e) \<Longrightarrow> genuine idx reqs e"
proof (induction rs arbitrary: s)
  case (Cons r rs)
  have "path_ok idx reqs [] (ReqName r)" using Cons.prems(1) by (simp add: path_ok_def)
  note here = expand_genuine [OF this]
  from Cons show ?case by (auto split: option.splits sum.splits if_splits dest: here)
qed simp

text \<open>C38. Every error of \<open>Resolve\<close> is grounded. A cycle error lists packages starting at a request,
  each declaring the next as a dependency, and closes on an earlier one; an unresolved dependency
  is absent from the index, a malformed one is declared by an indexed version and does not parse; an
  unusable version belongs to a request or an installed package; a held error names a requested
  package that is held at another version.\<close>

theorem Resolve_errors_genuine:
  assumes "Resolve fuel reqs idx = Some (Inl e)"
  shows "genuine idx reqs e"
  using assms admit_requests_genuine [of reqs reqs] expand_requests_genuine [of reqs reqs]
  by (auto simp: Resolve_def split: sum.splits option.splits)

definition cyclic_index :: index where
  "cyclic_index = \<lparr>Dependencies = (\<lambda>n v. if n = ''x'' then Some [''y-1.0.0'']
     else if n = ''y'' then Some [''x-1.0.0''] else None), Installed = (\<lambda>_. None), Held = (\<lambda>_. False)\<rparr>"

theorem Resolve_errors_genuine_witness:
  "genuine cyclic_index [\<lparr>ReqName = ''x'', ReqVersion = ''1.0.0''\<rparr>] (CycleError [''x'', ''y'', ''x''])"
proof -
  have "Resolve 3 [\<lparr>ReqName = ''x'', ReqVersion = ''1.0.0''\<rparr>] cyclic_index =
      Some (Inl (CycleError [''x'', ''y'', ''x'']))" by code_simp
  then show ?thesis by (rule Resolve_errors_genuine)
qed

subsection \<open>Check\<close>

lemma edge_conflict_Some:
  "edge_conflict planned changed name version d = Some c \<longleftrightarrow>
     (\<exists>dn dv. ParseDependency d = Some (dn, dv) \<and> (name \<in> changed \<or> dn \<in> changed) \<and>
        (\<forall>h. planned dn = Some h \<longrightarrow> higher dv h) \<and>
        c = \<lparr>ConfName = name, ConfVersion = version, ConfDependency = dn, ConfRequires = dv,
             ConfHave = map_get planned [] dn\<rparr>)"
  by (auto simp: edge_conflict_def map_get_def split: option.splits)

lemma Check_mem:
  assumes "set names = dom planned"
  shows "c \<in> set (Check names planned changed idx) \<longleftrightarrow>
    (\<exists>version ds d dn dv. planned (ConfName c) = Some version \<and> Dependencies idx (ConfName c) version = Some ds \<and>
       d \<in> set ds \<and> ParseDependency d = Some (dn, dv) \<and> (ConfName c \<in> changed \<or> dn \<in> changed) \<and>
       (\<forall>h. planned dn = Some h \<longrightarrow> higher dv h) \<and>
       c = \<lparr>ConfName = ConfName c, ConfVersion = version, ConfDependency = dn, ConfRequires = dv,
            ConfHave = map_get planned [] dn\<rparr>)"
    (is "?L \<longleftrightarrow> ?R")
proof
  assume ?L
  then obtain name where "c \<in> set (case planned name of None \<Rightarrow> [] | Some version \<Rightarrow>
      (case Dependencies idx name version of None \<Rightarrow> []
       | Some deps \<Rightarrow> List.map_filter (edge_conflict planned changed name version) deps))"
    by (auto simp: Check_def)
  then obtain version ds where v: "planned name = Some version"
    "Dependencies idx name version = Some ds"
    "c \<in> set (List.map_filter (edge_conflict planned changed name version) ds)"
    by (cases "planned name"; cases "Dependencies idx name (the (planned name))") auto
  then obtain d where n: "planned name = Some version"
    "Dependencies idx name version = Some ds" "d \<in> set ds"
    "edge_conflict planned changed name version d = Some c"
    by (auto simp: List.map_filter_def)
  then have name: "name = ConfName c" by (auto simp: edge_conflict_Some)
  show ?R using n unfolding name edge_conflict_Some by blast
next
  assume ?R
  then obtain version ds d where n: "planned (ConfName c) = Some version"
    "Dependencies idx (ConfName c) version = Some ds" "d \<in> set ds"
    "edge_conflict planned changed (ConfName c) version d = Some c"
    unfolding edge_conflict_Some by blast
  then have "c \<in> set (List.map_filter (edge_conflict planned changed (ConfName c) version) ds)"
    by (force simp: List.map_filter_def)
  moreover have "ConfName c \<in> set names" using n(1) assms by blast
  ultimately show ?L using n(1,2) by (force simp: Check_def)
qed

subsection \<open>Dependency idents\<close>

lemma core_pattern_no_hyphen: "core_pattern q \<Longrightarrow> CHR ''-'' \<notin> set q"
  by (auto dest!: core_pattern_chars simp: is_digit_def)

text \<open>A dependency ident splits back into its halves: joining any package name without a line
  break to a stable version with a hyphen and parsing the result gives the name and the version
  back, whatever hyphens the name holds; and whatever parses is its two halves joined.\<close>

lemma ParseDependency_roundtrip:
  "(n \<noteq> [] \<and> CHR 0x0A \<notin> set n \<and> core_pattern v \<longrightarrow> ParseDependency (n @ ''-'' @ v) = Some (n, v)) \<and>
   (ParseDependency ident = Some (n, v) \<longrightarrow> ident = n @ ''-'' @ v \<and> n \<noteq> [] \<and> version_pattern v)"
proof (intro conjI impI)
  assume a: "n \<noteq> [] \<and> CHR 0x0A \<notin> set n \<and> core_pattern v"
  then have "CHR ''-'' \<notin> set v" by (simp add: core_pattern_no_hyphen)
  then have "cut_at (CHR ''-'') v = None" by (simp add: cut_at_None)
  with a have "version_pattern v" by (simp add: version_pattern_def)
  with a \<open>CHR ''-'' \<notin> set v\<close> have "ParseDependency (n @ CHR ''-'' # v) = Some (n, v)"
    by (intro ParseDependency_append) auto
  then show "ParseDependency (n @ ''-'' @ v) = Some (n, v)" by simp
next
  assume "ParseDependency ident = Some (n, v)"
  from ParseDependency_Some [OF this]
  show "ident = n @ ''-'' @ v" "n \<noteq> []" "version_pattern v" by simp_all
qed

lemma ParseDependency_roundtrip_example:
  "ParseDependency ''denikson-BepInEx-pack-5.4.2202'' = Some (''denikson-BepInEx-pack'', ''5.4.2202'')"
proof -
  have "core_pattern ''5.4.2202''" by code_simp
  then show ?thesis using ParseDependency_roundtrip [of "''denikson-BepInEx-pack''" "''5.4.2202''"] by simp
qed

text \<open>The greedy name group takes a version's own pre-release for the version.\<close>

lemma ParseDependency_greedy:
  "ParseDependency ''A-B-1.2.3-4.5.6'' = Some (''A-B-1.2.3'', ''4.5.6'')"
  by code_simp

text \<open>The ident pattern admits a version the comparison cannot read, which no installed version is below.\<close>

lemma pattern_version_unreadable:
  "ParseDependency ''A-B-1.2.3-a..b'' = Some (''A-B'', ''1.2.3-a..b'') \<and> ParseVersion ''1.2.3-a..b'' = None \<and>
   \<not> higher ''1.2.3-a..b'' ''0.0.1''"
proof -
  have "ParseDependency ''A-B-1.2.3-a..b'' = Some (''A-B'', ''1.2.3-a..b'')" by code_simp
  moreover have n: "ParseVersion ''1.2.3-a..b'' = None" by code_simp
  ultimately show ?thesis by (simp add: higher_def)
qed

end
