(* ===== verification/Authz.thy ===== *)
theory Authz
  imports Go_Prelude
begin

text \<open>
  \<open>internal/authz\<close>: the closed registry of actions, the role sets and the one authorization
  function. The grants a decision reads are the two operations of the \<open>Grants\<close> interface, arguments
  of the definitions here; the locale \<open>grants_provider\<close> states what the package relies on of them,
  and \<open>User_Store\<close> interprets it on the model of the database tables.
\<close>

subsection \<open>Actions\<close>

datatype action =
    InstanceView | ConsoleRead | StatsRead | BackupsList | ModsList | ConfigRead
  | InstanceStart | InstanceStop | InstanceRestart | BackupsCreate | BackupsDownload
  | PlayersManage | CommandsSend
  | ModsManage | ConfigEdit | ConfigRaw | BackupsRestore | WorldImport | InstanceSettings
  | NotificationsManage
  | InstanceCreate | InstanceDelete | InstanceClone | InstanceAdopt | InstanceLimits
  | InstanceExtraArgs | InstanceImage | InstanceUpdate | SetupsManage | WorldTools
  | CommandsUnrestricted | UsersManage | InvitesManage | GrantsManage | SchedulesGlobal
  | PanelSettings | AuditRead

fun action_name :: "action \<Rightarrow> string" where
  "action_name InstanceView = ''instance.view''"
| "action_name ConsoleRead = ''console.read''"
| "action_name StatsRead = ''stats.read''"
| "action_name BackupsList = ''backups.list''"
| "action_name ModsList = ''mods.list''"
| "action_name ConfigRead = ''config.read''"
| "action_name InstanceStart = ''instance.start''"
| "action_name InstanceStop = ''instance.stop''"
| "action_name InstanceRestart = ''instance.restart''"
| "action_name BackupsCreate = ''backups.create''"
| "action_name BackupsDownload = ''backups.download''"
| "action_name PlayersManage = ''players.manage''"
| "action_name CommandsSend = ''commands.send''"
| "action_name ModsManage = ''mods.manage''"
| "action_name ConfigEdit = ''config.edit''"
| "action_name ConfigRaw = ''config.raw''"
| "action_name BackupsRestore = ''backups.restore''"
| "action_name WorldImport = ''world.import''"
| "action_name InstanceSettings = ''instance.settings''"
| "action_name NotificationsManage = ''notifications.manage''"
| "action_name InstanceCreate = ''instance.create''"
| "action_name InstanceDelete = ''instance.delete''"
| "action_name InstanceClone = ''instance.clone''"
| "action_name InstanceAdopt = ''instance.adopt''"
| "action_name InstanceLimits = ''instance.limits''"
| "action_name InstanceExtraArgs = ''instance.extra_args''"
| "action_name InstanceImage = ''instance.image''"
| "action_name InstanceUpdate = ''instance.update''"
| "action_name SetupsManage = ''setups.manage''"
| "action_name WorldTools = ''world.tools''"
| "action_name CommandsUnrestricted = ''commands.unrestricted''"
| "action_name UsersManage = ''users.manage''"
| "action_name InvitesManage = ''invites.manage''"
| "action_name GrantsManage = ''grants.manage''"
| "action_name SchedulesGlobal = ''schedules.global''"
| "action_name PanelSettings = ''panel.settings''"
| "action_name AuditRead = ''audit.read''"

definition viewerActions :: "action list" where
  "viewerActions = [InstanceView, ConsoleRead, StatsRead, BackupsList, ModsList, ConfigRead]"

definition operatorExtra :: "action list" where
  "operatorExtra = [InstanceStart, InstanceStop, InstanceRestart, BackupsCreate, BackupsDownload,
     PlayersManage, CommandsSend]"

definition grantableExtras :: "action list" where
  "grantableExtras = [ModsManage, ConfigEdit, ConfigRaw, BackupsRestore, WorldImport,
     InstanceSettings, NotificationsManage]"

definition neverGrantable :: "action list" where
  "neverGrantable = [InstanceCreate, InstanceDelete, InstanceClone, InstanceAdopt, InstanceLimits,
     InstanceExtraArgs, InstanceImage, InstanceUpdate, SetupsManage, WorldTools,
     CommandsUnrestricted, UsersManage, InvitesManage, GrantsManage, SchedulesGlobal,
     PanelSettings, AuditRead]"

definition all_actions :: "action list" where
  "all_actions = viewerActions @ operatorExtra @ grantableExtras @ neverGrantable"

text \<open>Indexing \<open>roleActions\<close> by a role it does not hold gives Go's nil map, which has no keys.\<close>

definition roleActions :: "string \<Rightarrow> action set" where
  "roleActions role =
     (if role = ''viewer'' then set viewerActions
      else if role = ''operator'' then set (viewerActions @ operatorExtra)
      else {})"

definition byName :: "string \<Rightarrow> action option" where
  "byName = map_of (rev (map (\<lambda>a. (action_name a, a)) all_actions))"

definition ParseAction :: "string \<Rightarrow> action option" where
  "ParseAction name = byName name"

definition Grantable :: "action \<Rightarrow> bool" where
  "Grantable act \<longleftrightarrow> act \<notin> set neverGrantable"

subsection \<open>Users and grants\<close>

datatype role = RoleAdmin | RoleMember

record user =
  UserID :: string
  Username :: string
  UserRole :: role
  Disabled :: bool
  Owner :: bool

record grant =
  GrantRole :: string
  Perms :: "string list"

subsection \<open>Decisions\<close>

fun add_perms :: "string list \<Rightarrow> action set \<Rightarrow> action set" where
  "add_perms [] out = out"
| "add_perms (name # names) out =
     (case byName name of
        None \<Rightarrow> add_perms names out
      | Some act \<Rightarrow>
          if act \<in> set neverGrantable then add_perms names out
          else add_perms names (insert act out))"

definition granted :: "grant \<Rightarrow> action set" where
  "granted g =
     (let out = add_perms (Perms g) (roleActions (GrantRole g))
      in if ConfigRaw \<in> out then insert ConfigEdit out else out)"

definition everything :: "action set" where
  "everything = set all_actions"

text \<open>\<open>sorted\<close> ranges over a Go map, in no fixed order, and sorts by name; names are distinct, so the
  result does not depend on that order.\<close>

definition sorted_actions :: "action set \<Rightarrow> action list" where
  "sorted_actions m = sort_key action_name (filter (\<lambda>a. a \<in> m) all_actions)"

type_synonym 'e grant_lookup = "string \<Rightarrow> string \<Rightarrow> 'e + grant option"

definition decide ::
  "'e grant_lookup \<Rightarrow> user option \<Rightarrow> action \<Rightarrow> string \<Rightarrow> bool \<times> string" where
  "decide grantFor u act instanceID =
     (case u of
        None \<Rightarrow> (False, ''no authenticated user'')
      | Some usr \<Rightarrow>
          if Disabled usr then (False, ''user is disabled'')
          else if UserRole usr = RoleAdmin then (True, [])
          else if act \<in> set neverGrantable then (False, ''action is never grantable to a member'')
          else if instanceID = [] then (False, ''member holds no global capability'')
          else case grantFor (UserID usr) instanceID of
            Inl e \<Rightarrow> (False, ''grant lookup failed'')
          | Inr None \<Rightarrow> (False, ''no live grant on this instance'')
          | Inr (Some g) \<Rightarrow>
              if act \<notin> granted g then (False, ''grant does not carry this action'')
              else (True, []))"

definition Can :: "'e grant_lookup \<Rightarrow> user option \<Rightarrow> action \<Rightarrow> string \<Rightarrow> bool" where
  "Can grantFor u act instanceID = fst (decide grantFor u act instanceID)"

definition Allowed :: "'e grant_lookup \<Rightarrow> user option \<Rightarrow> string \<Rightarrow> 'e + action list" where
  "Allowed grantFor u instanceID =
     (case u of
        None \<Rightarrow> Inr []
      | Some usr \<Rightarrow>
          if Disabled usr then Inr []
          else if UserRole usr = RoleAdmin then Inr (sorted_actions everything)
          else case grantFor (UserID usr) instanceID of
            Inl e \<Rightarrow> Inl e
          | Inr None \<Rightarrow> Inr []
          | Inr (Some g) \<Rightarrow> Inr (sorted_actions (granted g)))"

text \<open>The boolean is \<open>all\<close>: an admin has no filter.\<close>

definition VisibleInstances ::
  "(string \<Rightarrow> 'e + string list) \<Rightarrow> user option \<Rightarrow> 'e + (string list \<times> bool)" where
  "VisibleInstances grantedInstances u =
     (case u of
        None \<Rightarrow> Inr ([], False)
      | Some usr \<Rightarrow>
          if Disabled usr then Inr ([], False)
          else if UserRole usr = RoleAdmin then Inr ([], True)
          else case grantedInstances (UserID usr) of
            Inl e \<Rightarrow> Inl e
          | Inr ids \<Rightarrow> Inr (ids, False))"

definition GrantRoleOptions :: "(string \<times> action list) list" where
  "GrantRoleOptions = [(''viewer'', sorted_actions (roleActions ''viewer'')),
                       (''operator'', sorted_actions (roleActions ''operator''))]"

subsection \<open>The registry\<close>

lemma all_actions_complete [simp]: "a \<in> set all_actions"
  by (cases a) (simp_all add: all_actions_def viewerActions_def operatorExtra_def
      grantableExtras_def neverGrantable_def)

lemma all_actions_distinct: "distinct (map action_name all_actions)"
  by (simp add: all_actions_def viewerActions_def operatorExtra_def grantableExtras_def
      neverGrantable_def)

lemma action_name_inj: "action_name a = action_name b \<Longrightarrow> a = b"
  using all_actions_distinct all_actions_complete [of a] all_actions_complete [of b]
  by (auto simp: distinct_map dest: inj_onD)

lemma byName_Some: "byName n = Some a \<longleftrightarrow> n = action_name a"
proof -
  have "distinct (map fst (rev (map (\<lambda>a. (action_name a, a)) all_actions)))"
    using all_actions_distinct by (simp add: rev_map [symmetric] comp_def)
  then have "byName n = Some a \<longleftrightarrow> (n, a) \<in> set (map (\<lambda>a. (action_name a, a)) all_actions)"
    by (simp add: byName_def)
  then show ?thesis by auto
qed

lemma roleActions_grantable: "roleActions r \<inter> set neverGrantable = {}"
  by (auto simp: roleActions_def viewerActions_def operatorExtra_def neverGrantable_def)

lemma add_perms_eq:
  "add_perms ps out = out \<union> {a. action_name a \<in> set ps \<and> a \<notin> set neverGrantable}"
proof (induction ps arbitrary: out)
  case (Cons p ps)
  show ?case
  proof (cases "byName p")
    case None
    then have "p \<noteq> action_name a" for a using byName_Some [of p a] by auto
    with None Cons show ?thesis by auto
  next
    case (Some a)
    then have "p = action_name a" by (simp add: byName_Some)
    with Some Cons show ?thesis by (auto dest: action_name_inj)
  qed
qed simp

lemma granted_iff:
  "a \<in> granted g \<longleftrightarrow> a \<in> roleActions (GrantRole g) \<or>
     (action_name a \<in> set (Perms g) \<and> a \<notin> set neverGrantable) \<or>
     (a = ConfigEdit \<and> ''config.raw'' \<in> set (Perms g))"
proof -
  have raw: "ConfigRaw \<notin> roleActions r" "ConfigRaw \<notin> set neverGrantable" for r
    by (auto simp: roleActions_def viewerActions_def operatorExtra_def neverGrantable_def)
  then show ?thesis by (auto simp: granted_def add_perms_eq Let_def)
qed

lemma granted_grantable: "a \<in> granted g \<Longrightarrow> a \<notin> set neverGrantable"
proof -
  have "ConfigEdit \<notin> set neverGrantable" by (simp add: neverGrantable_def)
  then show "a \<in> granted g \<Longrightarrow> a \<notin> set neverGrantable"
    using roleActions_grantable [of "GrantRole g"] by (auto simp: granted_iff)
qed

lemma set_sorted_actions [simp]: "set (sorted_actions m) = m"
  by (auto simp: sorted_actions_def)

lemma sorted_sorted_actions: "sorted (map action_name (sorted_actions m))"
  by (simp add: sorted_actions_def)

subsection \<open>The contract of the grants the package reads\<close>

text \<open>\<open>inv\<close> is the provider's own invariant on its state; under it, the list of granted instances is
  the set of instances whose lookup finds a grant or fails, and a found grant has a known base role.\<close>

locale grants_provider =
  fixes inv :: "'db \<Rightarrow> bool"
    and grantFor :: "'db \<Rightarrow> string \<Rightarrow> string \<Rightarrow> 'e + grant option"
    and grantedInstances :: "'db \<Rightarrow> string \<Rightarrow> 'e + string list"
  assumes listed: "inv db \<Longrightarrow> grantedInstances db uid = Inr ids \<Longrightarrow>
      i \<in> set ids \<longleftrightarrow> grantFor db uid i \<noteq> Inr None"
    and base_role: "inv db \<Longrightarrow> grantFor db uid i = Inr (Some g) \<Longrightarrow>
      GrantRole g = ''viewer'' \<or> GrantRole g = ''operator''"
    and named: "inv db \<Longrightarrow> grantFor db uid i = Inr (Some g) \<Longrightarrow> i \<noteq> []"
begin

lemma granted_view: "inv db \<Longrightarrow> grantFor db uid i = Inr (Some g) \<Longrightarrow> InstanceView \<in> granted g"
  using base_role [of db uid i g] by (auto simp: granted_iff roleActions_def viewerActions_def)

text \<open>What the instance list shows a caller is what they may view, lookups that fail apart.\<close>

lemma visible_can_view:
  assumes "inv db" and "VisibleInstances (grantedInstances db) u = Inr (ids, all)"
    and "\<And>uid e. grantFor db uid i \<noteq> Inl e"
  shows "Can (grantFor db) u InstanceView i \<longleftrightarrow> all \<or> i \<in> set ids"
proof (cases u)
  case None
  with assms(2) show ?thesis by (simp add: Can_def decide_def VisibleInstances_def)
next
  case (Some usr)
  show ?thesis
  proof (cases "Disabled usr \<or> UserRole usr = RoleAdmin")
    case True
    with Some assms(2) show ?thesis
      by (auto simp: Can_def decide_def VisibleInstances_def split: if_splits)
  next
    case False
    with Some assms(2) have ids: "grantedInstances db (UserID usr) = Inr ids" and all: "\<not> all"
      by (auto simp: VisibleInstances_def split: sum.splits)
    have nv: "InstanceView \<notin> set neverGrantable" by (simp add: neverGrantable_def)
    show ?thesis
    proof (cases "grantFor db (UserID usr) i")
      case (Inl e)
      with assms(3) show ?thesis by blast
    next
      case (Inr og)
      with False Some nv listed [OF assms(1) ids, of i] granted_view [OF assms(1), of "UserID usr" i]
        named [OF assms(1), of "UserID usr" i] all
      show ?thesis by (cases og) (auto simp: Can_def decide_def)
    qed
  qed
qed

lemma allowed_can:
  assumes "inv db" and "Allowed (grantFor db) u i = Inr acts"
  shows "act \<in> set acts \<longleftrightarrow> Can (grantFor db) u act i"
proof (cases u)
  case (Some usr)
  then show ?thesis
  proof (cases "Disabled usr \<or> UserRole usr = RoleAdmin")
    case True
    with Some assms(2) show ?thesis
      by (auto simp: Allowed_def Can_def decide_def everything_def split: if_splits)
  next
    case False
    with Some assms named [OF assms(1), of "UserID usr" i] show ?thesis
      by (auto simp: Allowed_def Can_def decide_def granted_grantable split: sum.splits option.splits)
  qed
qed (use assms in \<open>simp add: Allowed_def Can_def decide_def\<close>)

end

subsection \<open>What the decision grants\<close>

text \<open>C3. The authorization decision, on every branch. A caller is allowed an action exactly when they
  are an enabled user and either an admin, or hold a live grant on the named instance whose base role
  carries the action, or that names it as an extra, or that names \<open>config.raw\<close> when the action is
  \<open>config.edit\<close>; for a member the action is never one of the admin-only actions, whatever the grant
  names. A missing or disabled user, a failing lookup and a global question by a member are refused.\<close>

theorem Can_iff:
  "Can grantFor u act i \<longleftrightarrow>
     (\<exists>usr. u = Some usr \<and> \<not> Disabled usr \<and>
        (UserRole usr = RoleAdmin \<or>
         (i \<noteq> [] \<and> act \<notin> set neverGrantable \<and>
          (\<exists>g. grantFor (UserID usr) i = Inr (Some g) \<and>
             (act \<in> roleActions (GrantRole g) \<or> action_name act \<in> set (Perms g) \<or>
              (act = ConfigEdit \<and> ''config.raw'' \<in> set (Perms g)))))))"
  by (cases u) (auto simp: Can_def decide_def granted_iff split: sum.splits option.splits)

end
