(* ===== verification/User_Store.thy ===== *)
theory User_Store
  imports Authz
begin

text \<open>
  The users, sessions and grants half of \<open>internal/store/users.go\<close>. A table is the list of its rows;
  the constraints of the schema (primary keys, unique user names and owner, foreign keys with their
  cascades, the CHECK on a grant's role) are written out where a statement can break them. Statements
  are taken to succeed otherwise. A timestamp is an \<^typ>\<open>int\<close>: the stored text is fixed-width UTC, whose text order
  is the order of time. The \<open>perms\<close> column is represented by what decoding its JSON gives. The
  content hash \<open>Revision\<close> is an argument, since it goes through SHA-256.
\<close>

subsection \<open>Tables\<close>

record grant_row =
  gr_user_id :: string
  gr_instance_id :: string
  gr_role :: string
  gr_perms :: "string list option"
  gr_granted_by :: "string option"
  gr_granted_at :: int
  gr_expires_at :: "int option"

record audit_entry =
  AuditUserID :: string
  AuditAction :: string

record db =
  users :: "user list"
  instances :: "string list"
  instance_grants :: "grant_row list"
  sessions :: "(string \<times> string) list"
  audit_log :: "audit_entry list"

datatype store_error =
    ErrUsernameTaken
  | ErrBootstrapConsumed
  | ErrOwnerProtected
  | ErrUserNotFound
  | ErrInstanceNotFound
  | ErrGrantNotFound
  | ErrGrantPrecondition
  | ErrDecode
  | ErrConstraint

type_synonym tx = "store_error + db"

definition writeAuditLog :: "audit_entry \<Rightarrow> db \<Rightarrow> db" where
  "writeAuditLog e d = d\<lparr>audit_log := audit_log d @ [e]\<rparr>"

subsection \<open>Users\<close>

definition CountUsers :: "db \<Rightarrow> nat" where
  "CountUsers d = length (users d)"

definition createUser :: "string \<Rightarrow> string \<Rightarrow> role \<Rightarrow> db \<Rightarrow> tx" where
  "createUser uid username role d =
     (if list_ex (\<lambda>u. UserID u = uid \<or> Username u = username) (users d) then Inl ErrUsernameTaken
      else Inr (d\<lparr>users := users d @ [\<lparr>UserID = uid, Username = username, UserRole = role,
                                       Disabled = False, Owner = False\<rparr>]\<rparr>))"

definition CreateUserAudited :: "string \<Rightarrow> string \<Rightarrow> role \<Rightarrow> audit_entry \<Rightarrow> db \<Rightarrow> tx" where
  "CreateUserAudited uid username role audit d =
     rbind (createUser uid username role d) (\<lambda>d'. Inr (writeAuditLog audit d'))"

definition CreateFirstAdmin :: "string \<Rightarrow> string \<Rightarrow> db \<Rightarrow> tx" where
  "CreateFirstAdmin uid username d =
     (if CountUsers d \<noteq> 0 then Inl ErrBootstrapConsumed
      else Inr (d\<lparr>users := [\<lparr>UserID = uid, Username = username, UserRole = RoleAdmin,
                            Disabled = False, Owner = True\<rparr>]\<rparr>))"

definition updateUserRoleAndDisabled :: "string \<Rightarrow> role \<Rightarrow> bool \<Rightarrow> db \<Rightarrow> tx" where
  "updateUserRoleAndDisabled uid role disabled d =
     (if list_ex (\<lambda>u. UserID u = uid) (users d)
      then Inr (d\<lparr>users := map (\<lambda>u. if UserID u = uid
                                     then u\<lparr>UserRole := role, Disabled := disabled\<rparr> else u) (users d)\<rparr>)
      else Inl ErrUserNotFound)"

definition isOwner :: "string \<Rightarrow> db \<Rightarrow> bool" where
  "isOwner uid d =
     (case find (\<lambda>u. UserID u = uid) (users d) of None \<Rightarrow> False | Some u \<Rightarrow> Owner u)"

definition UpdateUserAudited ::
  "string \<Rightarrow> role \<Rightarrow> bool \<Rightarrow> bool \<Rightarrow> audit_entry \<Rightarrow> db \<Rightarrow> tx" where
  "UpdateUserAudited uid role disabled revokeSessions audit d =
     (if (role \<noteq> RoleAdmin \<or> disabled) \<and> isOwner uid d then Inl ErrOwnerProtected
      else rbind (updateUserRoleAndDisabled uid role disabled d) (\<lambda>d'.
        let d'' = if revokeSessions
                  then d'\<lparr>sessions := filter (\<lambda>(_, u). u \<noteq> uid) (sessions d')\<rparr> else d'
        in Inr (writeAuditLog audit d'')))"

text \<open>Deleting a user row cascades to the user's grants and sessions and clears \<open>granted_by\<close>.\<close>

definition deleteUser :: "string \<Rightarrow> db \<Rightarrow> tx" where
  "deleteUser uid d =
     (if list_ex (\<lambda>u. UserID u = uid) (users d)
      then Inr (d\<lparr>users := filter (\<lambda>u. UserID u \<noteq> uid) (users d),
                 instance_grants :=
                   map (\<lambda>g. if gr_granted_by g = Some uid then g\<lparr>gr_granted_by := None\<rparr> else g)
                     (filter (\<lambda>g. gr_user_id g \<noteq> uid) (instance_grants d)),
                 sessions := filter (\<lambda>(_, u). u \<noteq> uid) (sessions d)\<rparr>)
      else Inl ErrUserNotFound)"

definition DeleteUserAudited :: "string \<Rightarrow> audit_entry \<Rightarrow> db \<Rightarrow> tx" where
  "DeleteUserAudited uid audit d =
     (if isOwner uid d then Inl ErrOwnerProtected
      else rbind (deleteUser uid d) (\<lambda>d'. Inr (writeAuditLog audit d')))"

subsection \<open>Grants\<close>

definition user_exists :: "string \<Rightarrow> db \<Rightarrow> bool" where
  "user_exists uid d \<longleftrightarrow> list_ex (\<lambda>u. UserID u = uid) (users d)"

definition at_key :: "string \<Rightarrow> string \<Rightarrow> grant_row \<Rightarrow> bool" where
  "at_key uid i g \<longleftrightarrow> gr_user_id g = uid \<and> gr_instance_id g = i"

text \<open>The constraints an inserted grant row must meet: its primary key, its foreign keys, its CHECK.\<close>

definition insert_grant_row :: "grant_row \<Rightarrow> db \<Rightarrow> tx" where
  "insert_grant_row g d =
     (if list_ex (at_key (gr_user_id g) (gr_instance_id g)) (instance_grants d) \<or>
         \<not> user_exists (gr_user_id g) d \<or> gr_instance_id g \<notin> set (instances d) \<or>
         (\<exists>b \<in> set_option (gr_granted_by g). \<not> user_exists b d) \<or>
         gr_role g \<notin> {''viewer'', ''operator''}
      then Inl ErrConstraint
      else Inr (d\<lparr>instance_grants := instance_grants d @ [g]\<rparr>))"

definition CreateGrant ::
  "string \<Rightarrow> string \<Rightarrow> string \<Rightarrow> string list option \<Rightarrow> string \<Rightarrow> int \<Rightarrow> db \<Rightarrow> tx" where
  "CreateGrant uid i role perms grantedBy now d =
     insert_grant_row \<lparr>gr_user_id = uid, gr_instance_id = i, gr_role = role, gr_perms = perms,
        gr_granted_by = (if grantedBy = [] then None else Some grantedBy), gr_granted_at = now,
        gr_expires_at = None\<rparr> d"

definition grantRecordFor :: "string \<Rightarrow> string \<Rightarrow> db \<Rightarrow> store_error + grant_row option" where
  "grantRecordFor uid i d =
     (case find (at_key uid i) (instance_grants d) of
        None \<Rightarrow> Inr None
      | Some g \<Rightarrow> if gr_perms g = None then Inl ErrDecode else Inr (Some g))"

definition checkGrantTargets :: "string \<Rightarrow> string \<Rightarrow> db \<Rightarrow> store_error option" where
  "checkGrantTargets uid i d =
     (if i \<notin> set (instances d) then Some ErrInstanceNotFound
      else if \<not> user_exists uid d then Some ErrUserNotFound
      else None)"

record grant_condition =
  CreateOnly :: bool
  CondRevision :: string

definition checkGrantCondition ::
  "(grant_row \<Rightarrow> string) \<Rightarrow> grant_row option \<Rightarrow> grant_condition \<Rightarrow> store_error option" where
  "checkGrantCondition revision current condition =
     (if CreateOnly condition then
        (case current of Some _ \<Rightarrow> Some ErrGrantPrecondition | None \<Rightarrow> None)
      else case current of
             None \<Rightarrow> Some ErrGrantPrecondition
           | Some g \<Rightarrow> if revision g \<noteq> CondRevision condition then Some ErrGrantPrecondition else None)"

text \<open>A replaced row keeps its expiry: the UPDATE does not name the column.\<close>

definition writeGrant ::
  "grant_row option \<Rightarrow> string \<Rightarrow> string \<Rightarrow> string \<Rightarrow> string list \<Rightarrow> string \<Rightarrow> int \<Rightarrow> db \<Rightarrow> tx" where
  "writeGrant current uid i role perms grantedBy now d =
     (case current of
        None \<Rightarrow> insert_grant_row \<lparr>gr_user_id = uid, gr_instance_id = i, gr_role = role,
            gr_perms = Some perms, gr_granted_by = Some grantedBy, gr_granted_at = now,
            gr_expires_at = None\<rparr> d
      | Some _ \<Rightarrow>
          if \<not> user_exists grantedBy d \<or> role \<notin> {''viewer'', ''operator''} then Inl ErrConstraint
          else Inr (d\<lparr>instance_grants := map (\<lambda>g. if at_key uid i g
                 then g\<lparr>gr_role := role, gr_perms := Some perms, gr_granted_by := Some grantedBy,
                        gr_granted_at := now\<rparr> else g) (instance_grants d)\<rparr>))"

definition ReplaceGrant ::
  "(grant_row \<Rightarrow> string) \<Rightarrow> string \<Rightarrow> string \<Rightarrow> string \<Rightarrow> string list \<Rightarrow> grant_condition \<Rightarrow>
   audit_entry \<Rightarrow> int \<Rightarrow> db \<Rightarrow> store_error + (db \<times> grant_row option \<times> bool)" where
  "ReplaceGrant revision uid i role perms condition audit now d =
     (case checkGrantTargets uid i d of
        Some e \<Rightarrow> Inl e
      | None \<Rightarrow>
          rbind (grantRecordFor uid i d) (\<lambda>current.
            case checkGrantCondition revision current condition of
              Some e \<Rightarrow> Inl e
            | None \<Rightarrow>
                rbind (writeGrant current uid i role perms (AuditUserID audit) now d) (\<lambda>d1.
                  let d2 = writeAuditLog audit d1
                  in rbind (grantRecordFor uid i d2) (\<lambda>stored.
                       Inr (d2, stored, current = None)))))"

definition DeleteGrant ::
  "(grant_row \<Rightarrow> string) \<Rightarrow> string \<Rightarrow> string \<Rightarrow> string \<Rightarrow> audit_entry \<Rightarrow> db \<Rightarrow> tx" where
  "DeleteGrant revision uid i want audit d =
     rbind (grantRecordFor uid i d) (\<lambda>current.
       case current of
         None \<Rightarrow> Inl ErrGrantNotFound
       | Some g \<Rightarrow>
           if revision g \<noteq> want then Inl ErrGrantPrecondition
           else Inr (writeAuditLog audit
                  (d\<lparr>instance_grants := filter (\<lambda>g. \<not> at_key uid i g) (instance_grants d)\<rparr>)))"

definition live :: "int \<Rightarrow> grant_row \<Rightarrow> bool" where
  "live now g = (case gr_expires_at g of None \<Rightarrow> True | Some t \<Rightarrow> now < t)"

definition GrantFor :: "int \<Rightarrow> db \<Rightarrow> string \<Rightarrow> string \<Rightarrow> store_error + grant option" where
  "GrantFor now d uid i =
     (case find (\<lambda>g. at_key uid i g \<and> live now g) (instance_grants d) of
        None \<Rightarrow> Inr None
      | Some g \<Rightarrow>
          (case gr_perms g of
             None \<Rightarrow> Inl ErrDecode
           | Some ps \<Rightarrow> Inr (Some \<lparr>GrantRole = gr_role g, Perms = ps\<rparr>)))"

definition GrantedInstances :: "int \<Rightarrow> db \<Rightarrow> string \<Rightarrow> store_error + string list" where
  "GrantedInstances now d uid =
     Inr (sort (map gr_instance_id
       (filter (\<lambda>g. gr_user_id g = uid \<and> live now g) (instance_grants d))))"

subsection \<open>Invariants of the tables\<close>

definition gr_key :: "grant_row \<Rightarrow> string \<times> string" where
  "gr_key g = (gr_user_id g, gr_instance_id g)"

definition wf_grants :: "db \<Rightarrow> bool" where
  "wf_grants d \<longleftrightarrow> [] \<notin> set (instances d) \<and>
     distinct (map gr_key (instance_grants d)) \<and>
     (\<forall>g \<in> set (instance_grants d). user_exists (gr_user_id g) d \<and>
        gr_instance_id g \<in> set (instances d) \<and> gr_role g \<in> {''viewer'', ''operator''})"

definition wf_users :: "db \<Rightarrow> bool" where
  "wf_users d \<longleftrightarrow> distinct (map UserID (users d)) \<and> distinct (map Username (users d))"

definition wf_db :: "db \<Rightarrow> bool" where
  "wf_db d \<longleftrightarrow> wf_users d \<and> wf_grants d"

text \<open>The owner: the one row carrying the flag, an enabled admin.\<close>

definition owner_ok :: "string \<Rightarrow> db \<Rightarrow> bool" where
  "owner_ok uid d \<longleftrightarrow> distinct (map UserID (users d)) \<and>
     (\<exists>u. filter Owner (users d) = [u] \<and> UserID u = uid \<and> UserRole u = RoleAdmin \<and> \<not> Disabled u)"

text \<open>One administrative transaction of the panel after its bootstrap.\<close>

inductive admin_step :: "db \<Rightarrow> db \<Rightarrow> bool" where
  "CreateUserAudited uid name role audit d = Inr d' \<Longrightarrow> admin_step d d'"
| "CreateFirstAdmin uid name d = Inr d' \<Longrightarrow> admin_step d d'"
| "UpdateUserAudited uid role disabled revoke audit d = Inr d' \<Longrightarrow> admin_step d d'"
| "DeleteUserAudited uid audit d = Inr d' \<Longrightarrow> admin_step d d'"
| "CreateGrant uid i grole perms grantor now d = Inr d' \<Longrightarrow> admin_step d d'"
| "ReplaceGrant revision uid i grole ps cond audit now d = Inr (d', stored, created) \<Longrightarrow> admin_step d d'"
| "DeleteGrant revision uid i want audit d = Inr d' \<Longrightarrow> admin_step d d'"

lemma writeAuditLog_simps [simp]:
  "users (writeAuditLog e d) = users d" "instances (writeAuditLog e d) = instances d"
  "instance_grants (writeAuditLog e d) = instance_grants d" "sessions (writeAuditLog e d) = sessions d"
  by (simp_all add: writeAuditLog_def)

lemma insert_grant_row_users: "insert_grant_row g d = Inr d' \<Longrightarrow> users d' = users d \<and> instances d' = instances d"
  by (auto simp: insert_grant_row_def split: if_splits)

lemma writeGrant_users: "writeGrant c uid i r ps b now d = Inr d' \<Longrightarrow> users d' = users d \<and> instances d' = instances d"
  by (auto simp: writeGrant_def dest: insert_grant_row_users split: option.splits if_splits)

lemma ReplaceGrant_users:
  "ReplaceGrant revision uid i r ps c a now d = Inr (d', st, cr) \<Longrightarrow>
   \<exists>cur d1. grantRecordFor uid i d = Inr cur \<and> checkGrantTargets uid i d = None \<and>
     checkGrantCondition revision cur c = None \<and> writeGrant cur uid i r ps (AuditUserID a) now d = Inr d1 \<and>
     d' = writeAuditLog a d1 \<and> grantRecordFor uid i d' = Inr st \<and> (cr \<longleftrightarrow> cur = None)"
  by (auto simp: ReplaceGrant_def rbind_eq_Inr Let_def split: option.splits)

lemma DeleteGrant_users: "DeleteGrant revision uid i want a d = Inr d' \<Longrightarrow> users d' = users d"
  by (auto simp: DeleteGrant_def rbind_eq_Inr split: option.splits if_splits)

lemma isOwner_row:
  assumes "distinct (map UserID (users d))" and "u \<in> set (users d)" and "Owner u"
  shows "isOwner (UserID u) d"
proof -
  have "find (\<lambda>v. UserID v = UserID u) us = Some u" if "distinct (map UserID us)" "u \<in> set us" for us
    using that by (induction us) (force simp: image_iff)+
  with assms show ?thesis by (simp add: isOwner_def)
qed

lemma owner_ok_users: "owner_ok uid d \<Longrightarrow> users d' = users d \<Longrightarrow> owner_ok uid d'"
  by (simp add: owner_ok_def)

lemma owner_ok_create:
  assumes "owner_ok uid d" and "createUser uid' name role d = Inr d'"
  shows "owner_ok uid d'"
  using assms by (auto simp: owner_ok_def createUser_def list_ex_iff split: if_splits)

lemma owner_ok_update:
  assumes o: "owner_ok uid d" and "updateUserRoleAndDisabled uid' role disabled d = Inr d'"
    and guard: "\<not> ((role \<noteq> RoleAdmin \<or> disabled) \<and> isOwner uid' d)"
  shows "owner_ok uid d'"
proof -
  let ?f = "\<lambda>u. if UserID u = uid' then u\<lparr>UserRole := role, Disabled := disabled\<rparr> else u"
  from assms(2) have us: "users d' = map ?f (users d)"
    by (auto simp: updateUserRoleAndDisabled_def split: if_splits)
  have ids: "map UserID (users d') = map UserID (users d)" by (simp add: us)
  from o obtain u where u: "filter Owner (users d) = [u]" "UserID u = uid" "UserRole u = RoleAdmin"
    "\<not> Disabled u" and dis: "distinct (map UserID (users d))" by (auto simp: owner_ok_def)
  have "filter Owner (map ?f xs) = map ?f (filter Owner xs)" for xs by (induction xs) simp_all
  from this [of "users d"] u(1) have "filter Owner (users d') = [?f u]" unfolding us by simp
  moreover have "u \<in> set (users d)" "Owner u" using u(1) by (auto simp: filter_eq_Cons_iff)
  from isOwner_row [OF dis this] guard have "UserID u = uid' \<Longrightarrow> role = RoleAdmin \<and> \<not> disabled" by auto
  ultimately show ?thesis using u(2-4) dis ids by (simp add: owner_ok_def)
qed

lemma owner_ok_delete:
  assumes o: "owner_ok uid d" and "deleteUser uid' d = Inr d'" and guard: "\<not> isOwner uid' d"
  shows "owner_ok uid d'"
proof -
  from assms(2) have us: "users d' = filter (\<lambda>u. UserID u \<noteq> uid') (users d)"
    by (auto simp: deleteUser_def split: if_splits)
  from o obtain u where u: "filter Owner (users d) = [u]" "UserID u = uid" "UserRole u = RoleAdmin"
    "\<not> Disabled u" and dis: "distinct (map UserID (users d))" by (auto simp: owner_ok_def)
  have "u \<in> set (users d)" "Owner u" using u(1) by (auto simp: filter_eq_Cons_iff)
  from isOwner_row [OF dis this] guard have "UserID u \<noteq> uid'" by auto
  have "filter Owner (users d') = filter (\<lambda>v. UserID v \<noteq> uid') (filter Owner (users d))"
    unfolding us filter_filter by (rule filter_cong) auto
  with u(1) \<open>UserID u \<noteq> uid'\<close> have "filter Owner (users d') = [u]" by simp
  moreover have "distinct (map UserID (users d'))" unfolding us using dis by (rule distinct_map_filter)
  ultimately show ?thesis using u(2-4) by (simp add: owner_ok_def)
qed

lemma owner_ok_step: "admin_step d d' \<Longrightarrow> owner_ok uid d \<Longrightarrow> owner_ok uid d'"
proof (induction rule: admin_step.induct)
  case (1 uid' name role audit d d')
  then show ?case by (auto simp: CreateUserAudited_def rbind_eq_Inr intro: owner_ok_users owner_ok_create)
next
  case (2 uid' name d d')
  then show ?case by (auto simp: CreateFirstAdmin_def CountUsers_def owner_ok_def split: if_splits)
next
  case (3 uid' role disabled revoke audit d d')
  from 3(1) obtain d1 where d1: "updateUserRoleAndDisabled uid' role disabled d = Inr d1"
    "\<not> ((role \<noteq> RoleAdmin \<or> disabled) \<and> isOwner uid' d)" and us: "users d' = users d1"
    by (auto simp: UpdateUserAudited_def rbind_eq_Inr Let_def split: if_splits)
  from owner_ok_users [OF owner_ok_update [OF 3(2) d1] us] show ?case .
next
  case (4 uid' audit d d')
  from 4(1) obtain d1 where d1: "deleteUser uid' d = Inr d1" "\<not> isOwner uid' d" and us: "users d' = users d1"
    by (auto simp: DeleteUserAudited_def rbind_eq_Inr split: if_splits)
  from owner_ok_users [OF owner_ok_delete [OF 4(2) d1] us] show ?case .
next
  case (5 uid' i role perms grantor now d d')
  then show ?case by (auto simp: CreateGrant_def dest: insert_grant_row_users intro: owner_ok_users)
next
  case (6 revision uid' i role perms cond audit now d d' stored created)
  from ReplaceGrant_users [OF 6(1)] writeGrant_users have "users d' = users d" by fastforce
  with 6(2) show ?case by (rule owner_ok_users)
next
  case (7 revision uid' i want audit d d')
  from 7(2) DeleteGrant_users [OF 7(1)] show ?case by (rule owner_ok_users)
qed

subsection \<open>Lookups after writes\<close>

lemma find_unique:
  assumes "distinct (map k xs)" and "x \<in> set xs" and "P x" and "\<And>y. P y \<Longrightarrow> k y = k x"
  shows "find P xs = Some x"
  using assms(1,2)
proof (induction xs)
  case (Cons y ys)
  show ?case
  proof (cases "P y")
    case True
    with assms(4) have "k y = k x" .
    with Cons.prems have "y = x" by (auto simp: image_iff)
    with True show ?thesis by simp
  next
    case False
    with Cons assms(3) show ?thesis by auto
  qed
qed simp

lemma GrantFor_None: "GrantFor now d uid i = Inr None \<longleftrightarrow>
   (\<forall>g \<in> set (instance_grants d). \<not> (at_key uid i g \<and> live now g))"
  by (auto simp: GrantFor_def find_None_iff find_Some_iff split: option.splits)

lemma GrantFor_Some: "GrantFor now d uid i = Inr (Some g) \<Longrightarrow>
   \<exists>r \<in> set (instance_grants d). at_key uid i r \<and> live now r \<and> gr_role r = GrantRole g \<and> gr_perms r = Some (Perms g)"
  by (auto simp: GrantFor_def find_Some_iff split: option.splits)

interpretation gs: grants_provider wf_grants "GrantFor now" "GrantedInstances now" for now
proof unfold_locales
  fix d uid ids i
  assume "GrantedInstances now d uid = Inr ids"
  then show "i \<in> set ids \<longleftrightarrow> GrantFor now d uid i \<noteq> Inr None"
    by (auto simp: GrantedInstances_def GrantFor_None at_key_def)
next
  fix d uid i g
  assume "wf_grants d" and "GrantFor now d uid i = Inr (Some g)"
  with GrantFor_Some [OF this(2)] show "GrantRole g = ''viewer'' \<or> GrantRole g = ''operator''"
    and "i \<noteq> []" by (auto simp: wf_grants_def at_key_def)
qed

subsection \<open>Every transaction keeps the constraints\<close>

lemma user_exists_iff: "user_exists uid d \<longleftrightarrow> uid \<in> UserID ` set (users d)"
  by (auto simp: user_exists_def list_ex_iff)

lemma wf_grants_same:
  "wf_grants d \<Longrightarrow> instances d' = instances d \<Longrightarrow> instance_grants d' = instance_grants d \<Longrightarrow>
   UserID ` set (users d) \<subseteq> UserID ` set (users d') \<Longrightarrow> wf_grants d'"
  by (auto simp: wf_grants_def user_exists_iff)

lemma wf_db_audit [simp]: "wf_db (writeAuditLog e d) = wf_db d"
  by (simp add: wf_db_def wf_users_def wf_grants_def user_exists_def)

lemma wf_insert_grant_row:
  assumes "wf_db d" and "insert_grant_row g d = Inr d'"
  shows "wf_db d'"
  using assms
  by (auto simp: wf_db_def wf_users_def wf_grants_def insert_grant_row_def list_ex_iff at_key_def
      gr_key_def user_exists_def split: if_splits) blast+

lemma wf_writeGrant:
  assumes "wf_db d" and "writeGrant cur uid i r ps b now d = Inr d'"
  shows "wf_db d'"
proof (cases cur)
  case None
  with assms show ?thesis by (auto simp: writeGrant_def intro: wf_insert_grant_row)
next
  case (Some c)
  let ?f = "\<lambda>g. if at_key uid i g then g\<lparr>gr_role := r, gr_perms := Some ps, gr_granted_by := Some b,
    gr_granted_at := now\<rparr> else g"
  from Some assms(2) have d': "d' = d\<lparr>instance_grants := map ?f (instance_grants d)\<rparr>"
    and r: "r = ''viewer'' \<or> r = ''operator''" by (auto simp: writeGrant_def split: if_splits)
  have "map gr_key (instance_grants d') = map gr_key (instance_grants d)"
    unfolding d' by (auto simp: gr_key_def)
  moreover have "users d' = users d" "instances d' = instances d" unfolding d' by simp_all
  moreover have "\<exists>h \<in> set (instance_grants d). gr_user_id g = gr_user_id h \<and>
      gr_instance_id g = gr_instance_id h \<and> (gr_role g = r \<or> gr_role g = gr_role h)"
    if "g \<in> set (instance_grants d')" for g using that unfolding d' by auto
  ultimately show ?thesis using assms(1) r
    unfolding wf_db_def wf_users_def wf_grants_def user_exists_def by (metis insert_iff)
qed

lemma wf_deleteUser:
  assumes "wf_db d" and "deleteUser uid d = Inr d'"
  shows "wf_db d'"
proof -
  let ?f = "\<lambda>g. if gr_granted_by g = Some uid then g\<lparr>gr_granted_by := None\<rparr> else g"
  from assms(2) have d': "users d' = filter (\<lambda>u. UserID u \<noteq> uid) (users d)" "instances d' = instances d"
    "instance_grants d' = map ?f (filter (\<lambda>g. gr_user_id g \<noteq> uid) (instance_grants d))"
    by (auto simp: deleteUser_def split: if_splits)
  have "map gr_key (instance_grants d') = map gr_key (filter (\<lambda>g. gr_user_id g \<noteq> uid) (instance_grants d))"
    unfolding d' by (auto simp: gr_key_def)
  with assms(1) have "distinct (map gr_key (instance_grants d'))"
    by (simp add: wf_db_def wf_grants_def distinct_map_filter)
  with assms(1) show ?thesis
    by (auto simp: wf_db_def wf_users_def wf_grants_def user_exists_iff d' distinct_map_filter)
qed

lemma wf_createUser:
  assumes "wf_db d" and "createUser uid name role d = Inr d'"
  shows "wf_db d'"
  using assms
  by (auto simp: wf_db_def wf_users_def createUser_def list_ex_iff split: if_splits elim!: wf_grants_same)

lemma wf_updateUser:
  assumes "wf_db d" and "updateUserRoleAndDisabled uid role dis d = Inr d'"
  shows "wf_db d'"
proof -
  let ?f = "\<lambda>u. if UserID u = uid then u\<lparr>UserRole := role, Disabled := dis\<rparr> else u"
  from assms(2) have d': "d' = d\<lparr>users := map ?f (users d)\<rparr>"
    by (auto simp: updateUserRoleAndDisabled_def split: if_splits)
  have ids: "map UserID (users d') = map UserID (users d)" "map Username (users d') = map Username (users d)"
    unfolding d' by auto
  from ids(1) have "UserID ` set (users d) = UserID ` set (users d')" by (metis list.set_map)
  with assms(1) have "wf_grants d'" by (intro wf_grants_same [of d d']) (simp_all add: wf_db_def d')
  with assms(1) ids show ?thesis by (simp add: wf_db_def wf_users_def)
qed

lemma wf_db_step: "admin_step d d' \<Longrightarrow> wf_db d \<Longrightarrow> wf_db d'"
proof (induction rule: admin_step.induct)
  case (1 uid' name role audit d d')
  then show ?case by (auto simp: CreateUserAudited_def rbind_eq_Inr intro: wf_createUser)
next
  case (2 uid' name d d')
  then have "users d = []" "d' = d\<lparr>users := [\<lparr>UserID = uid', Username = name, UserRole = RoleAdmin,
      Disabled = False, Owner = True\<rparr>]\<rparr>"
    by (auto simp: CreateFirstAdmin_def CountUsers_def split: if_splits)
  with 2(2) show ?case by (auto simp: wf_db_def wf_users_def elim!: wf_grants_same)
next
  case (3 uid' role disabled revoke audit d d')
  then obtain d1 where "updateUserRoleAndDisabled uid' role disabled d = Inr d1" and
    d': "users d' = users d1" "instances d' = instances d1" "instance_grants d' = instance_grants d1"
    by (auto simp: UpdateUserAudited_def rbind_eq_Inr Let_def split: if_splits)
  with wf_updateUser [OF 3(2)] have "wf_db d1" by blast
  with d' show ?case by (simp add: wf_db_def wf_users_def wf_grants_def user_exists_def)
next
  case (4 uid' audit d d')
  then show ?case by (auto simp: DeleteUserAudited_def rbind_eq_Inr split: if_splits intro: wf_deleteUser)
next
  case (5 uid' i role perms grantor now d d')
  then show ?case by (auto simp: CreateGrant_def intro: wf_insert_grant_row)
next
  case (6 revision uid' i role perms cond audit now d d' stored created)
  from ReplaceGrant_users [OF 6(1)] wf_writeGrant [OF 6(2)] show ?case by auto
next
  case (7 revision uid' i want audit d d')
  then have "d' = writeAuditLog audit (d\<lparr>instance_grants := filter (\<lambda>g. \<not> at_key uid' i g) (instance_grants d)\<rparr>)"
    by (auto simp: DeleteGrant_def rbind_eq_Inr split: option.splits if_splits)
  with 7(2) show ?case
    by (auto simp: wf_db_def wf_users_def wf_grants_def user_exists_def distinct_map_filter)
qed

lemma wf_db_steps: "admin_step\<^sup>*\<^sup>* d d' \<Longrightarrow> wf_db d \<Longrightarrow> wf_db d'"
  by (induction rule: rtranclp_induct) (auto intro: wf_db_step)

lemma owner_ok_steps: "admin_step\<^sup>*\<^sup>* d d' \<Longrightarrow> owner_ok uid d \<Longrightarrow> owner_ok uid d'"
  by (induction rule: rtranclp_induct) (auto intro: owner_ok_step)

subsection \<open>Properties\<close>

text \<open>The tables of a new panel that has instances but no users yet, and a panel built on them.\<close>

definition empty_db :: "string list \<Rightarrow> db" where
  "empty_db ids = \<lparr>users = [], instances = ids, instance_grants = [], sessions = [], audit_log = []\<rparr>"

definition demo_db :: db where
  "demo_db = (empty_db [''srv''])\<lparr>
     users := [\<lparr>UserID = ''o'', Username = ''root'', UserRole = RoleAdmin, Disabled = False, Owner = True\<rparr>,
               \<lparr>UserID = ''m'', Username = ''ann'', UserRole = RoleMember, Disabled = False, Owner = False\<rparr>],
     instance_grants := [\<lparr>gr_user_id = ''m'', gr_instance_id = ''srv'', gr_role = ''viewer'',
        gr_perms = Some [''config.raw'', ''users.manage''], gr_granted_by = Some ''o'', gr_granted_at = 0,
        gr_expires_at = Some 100\<rparr>]\<rparr>"

lemma demo_db_wf: "wf_db demo_db"
  by (simp add: demo_db_def empty_db_def wf_db_def wf_users_def wf_grants_def user_exists_def gr_key_def)

text \<open>C4. The panel never loses its admin. Once the bootstrap has created the first admin, no sequence
  of user and grant administration removes it: there is always exactly one owner, it is the bootstrap
  account, an admin and enabled, and authorization allows it every action.\<close>

theorem owner_never_lost:
  assumes "CreateFirstAdmin uid name d0 = Inr d1" and "admin_step\<^sup>*\<^sup>* d1 d"
  shows "\<exists>u. filter Owner (users d) = [u] \<and> UserID u = uid \<and> UserRole u = RoleAdmin \<and> \<not> Disabled u \<and>
    (\<forall>now act i. Can (GrantFor now d) (Some u) act i)"
proof -
  from assms(1) have "owner_ok uid d1"
    by (auto simp: CreateFirstAdmin_def owner_ok_def split: if_splits)
  from owner_ok_steps [OF assms(2) this] show ?thesis
    by (auto simp: owner_ok_def Can_def decide_def)
qed

theorem owner_never_lost_witness:
  "\<exists>d1 u. CreateFirstAdmin ''o'' ''root'' (empty_db [''srv'']) = Inr d1 \<and> filter Owner (users d1) = [u] \<and>
     UserID u = ''o''"
proof -
  obtain d1 where d1: "CreateFirstAdmin ''o'' ''root'' (empty_db [''srv'']) = Inr d1"
    by (simp add: CreateFirstAdmin_def CountUsers_def empty_db_def)
  from owner_never_lost [OF d1 rtranclp.rtrancl_refl] obtain u where
    "filter Owner (users d1) = [u]" "UserID u = ''o''" by blast
  with d1 show ?thesis by blast
qed

text \<open>C39. The action list the panel sends a client is the truth: in every state reached from
  well-formed tables, \<open>Allowed\<close> lists, sorted by name, exactly the actions \<open>Can\<close> allows on the instance.\<close>

theorem Allowed_agrees_with_Can:
  assumes "wf_db d0" and "admin_step\<^sup>*\<^sup>* d0 d" and "Allowed (GrantFor now d) u i = Inr acts"
  shows "set acts = {act. Can (GrantFor now d) u act i} \<and> sorted (map action_name acts)"
proof
  from wf_db_steps [OF assms(2,1)] have "wf_grants d" by (simp add: wf_db_def)
  from gs.allowed_can [OF this assms(3)] show "set acts = {act. Can (GrantFor now d) u act i}" by blast
  show "sorted (map action_name acts)"
    using assms(3) sorted_sorted_actions
    by (auto simp: Allowed_def split: option.splits if_splits sum.splits)
qed

theorem Allowed_agrees_with_Can_witness:
  "\<exists>acts. Allowed (GrantFor 5 demo_db) (Some (users demo_db ! 1)) ''srv'' = Inr acts \<and>
     ConfigEdit \<in> set acts \<and> UsersManage \<notin> set acts"
proof -
  have g: "GrantFor 5 demo_db ''m'' ''srv'' = Inr (Some \<lparr>GrantRole = ''viewer'', Perms = [''config.raw'', ''users.manage'']\<rparr>)"
    by (simp add: demo_db_def GrantFor_def at_key_def live_def)
  then obtain acts where a: "Allowed (GrantFor 5 demo_db) (Some (users demo_db ! 1)) ''srv'' = Inr acts"
    by (simp add: Allowed_def demo_db_def)
  from Allowed_agrees_with_Can [OF demo_db_wf rtranclp.rtrancl_refl a]
  have "set acts = {act. Can (GrantFor 5 demo_db) (Some (users demo_db ! 1)) act ''srv''}" ..
  moreover have "Can (GrantFor 5 demo_db) (Some (users demo_db ! 1)) ConfigEdit ''srv''"
    "\<not> Can (GrantFor 5 demo_db) (Some (users demo_db ! 1)) UsersManage ''srv''"
    using g by (simp_all add: Can_def decide_def demo_db_def granted_iff neverGrantable_def)
  ultimately show ?thesis using a by blast
qed

text \<open>The instance list shows exactly what the caller may open: in every state reached from
  well-formed tables, an instance whose grants decode is listed to a caller, or the caller is shown
  everything, if and only if \<open>Can\<close> allows them to view it. Both sides apply the same expiry.\<close>

lemma VisibleInstances_agrees_with_Can:
  assumes "wf_db d0" and "admin_step\<^sup>*\<^sup>* d0 d"
    and "VisibleInstances (GrantedInstances now d) u = Inr (ids, all)"
    and "\<forall>g \<in> set (instance_grants d). gr_perms g \<noteq> None"
  shows "Can (GrantFor now d) u InstanceView i \<longleftrightarrow> all \<or> i \<in> set ids"
proof -
  from wf_db_steps [OF assms(2,1)] have wf: "wf_grants d" by (simp add: wf_db_def)
  have "GrantFor now d uid i \<noteq> Inl e" for uid e
    using assms(4) by (auto simp: GrantFor_def dest!: find_SomeD split: option.splits)
  with gs.visible_can_view [OF wf assms(3)] show ?thesis by blast
qed

lemma VisibleInstances_agrees_with_Can_example:
  "Can (GrantFor 5 demo_db) (Some (users demo_db ! 1)) InstanceView ''srv'' \<and>
   \<not> Can (GrantFor 100 demo_db) (Some (users demo_db ! 1)) InstanceView ''srv''"
proof -
  have v: "VisibleInstances (GrantedInstances 5 demo_db) (Some (users demo_db ! 1)) = Inr ([''srv''], False)"
    "VisibleInstances (GrantedInstances 100 demo_db) (Some (users demo_db ! 1)) = Inr ([], False)"
    by (simp_all add: VisibleInstances_def GrantedInstances_def demo_db_def live_def)
  have p: "\<forall>g \<in> set (instance_grants demo_db). gr_perms g \<noteq> None" by (simp add: demo_db_def)
  note t = VisibleInstances_agrees_with_Can [OF demo_db_wf rtranclp.rtrancl_refl _ p]
  from t [OF v(1), of "''srv''"] t [OF v(2), of "''srv''"] show ?thesis by simp
qed

lemma find_at_key_update:
  assumes "\<And>g. at_key uid i (f g) = at_key uid i g" and "\<And>g. live now (f g) = live now g"
  shows "find (\<lambda>g. at_key uid i g \<and> live now g) (map f gs) =
    map_option f (find (\<lambda>g. at_key uid i g \<and> live now g) gs)"
  using assms by (induction gs) simp_all

text \<open>What each of the two statements of \<open>writeGrant\<close> does to the lookups.\<close>

definition grant_after :: "int \<Rightarrow> string \<Rightarrow> string list \<Rightarrow> string \<Rightarrow> string \<Rightarrow> db \<Rightarrow> db \<Rightarrow> bool \<Rightarrow> bool" where
  "grant_after t r ps uid i d d' revive \<longleftrightarrow>
     (\<forall>uid' i'. (uid', i') \<noteq> (uid, i) \<longrightarrow> GrantFor t d' uid' i' = GrantFor t d uid' i') \<and>
     GrantFor t d' uid i =
       (if revive \<or> GrantFor t d uid i \<noteq> Inr None then Inr (Some \<lparr>GrantRole = r, Perms = ps\<rparr>) else Inr None)"

lemma find_snoc:
  "find P (xs @ [x]) = (case find P xs of None \<Rightarrow> if P x then Some x else None | Some y \<Rightarrow> Some y)"
  by (induction xs) simp_all

lemma insert_grant_after:
  assumes "grantRecordFor uid i d = Inr None" and "writeGrant None uid i r ps b now d = Inr d'"
  shows "grant_after t r ps uid i d d' True"
proof -
  from assms(1) have absent: "\<forall>g \<in> set (instance_grants d). \<not> at_key uid i g"
    by (auto simp: grantRecordFor_def find_None_iff split: option.splits if_splits)
  from assms(2) have g: "instance_grants d' = instance_grants d @
      [\<lparr>gr_user_id = uid, gr_instance_id = i, gr_role = r, gr_perms = Some ps,
        gr_granted_by = Some b, gr_granted_at = now, gr_expires_at = None\<rparr>]"
    by (auto simp: writeGrant_def insert_grant_row_def split: if_splits)
  have "find (\<lambda>g. at_key uid i g \<and> live t g) (instance_grants d) = None"
    using absent by (auto simp: find_None_iff)
  with g show ?thesis
    by (auto simp: grant_after_def GrantFor_def find_snoc at_key_def live_def split: option.splits)
qed

lemma update_grant_after:
  assumes "writeGrant (Some row) uid i r ps b now d = Inr d'"
  shows "grant_after t r ps uid i d d' False"
proof -
  let ?P = "\<lambda>x y g. at_key x y g \<and> live t g"
  let ?f = "\<lambda>g. if at_key uid i g then g\<lparr>gr_role := r, gr_perms := Some ps,
      gr_granted_by := Some b, gr_granted_at := now\<rparr> else g"
  from assms have g: "instance_grants d' = map ?f (instance_grants d)"
    by (auto simp: writeGrant_def split: if_splits)
  have upd: "find (?P x y) (instance_grants d') = map_option ?f (find (?P x y) (instance_grants d))" for x y
    unfolding g by (rule find_at_key_update) (simp_all add: at_key_def live_def)
  have "GrantFor t d' uid' i' = GrantFor t d uid' i'" if "(uid', i') \<noteq> (uid, i)" for uid' i'
  proof (cases "find (?P uid' i') (instance_grants d)")
    case None
    with upd [of uid' i'] show ?thesis by (simp add: GrantFor_def)
  next
    case (Some h)
    with find_SomeD [OF this] that have "?f h = h" by (auto simp: at_key_def)
    with Some upd [of uid' i'] show ?thesis by (simp add: GrantFor_def)
  qed
  moreover have "GrantFor t d' uid i = (if GrantFor t d uid i \<noteq> Inr None
      then Inr (Some \<lparr>GrantRole = r, Perms = ps\<rparr>) else Inr None)"
  proof (cases "find (?P uid i) (instance_grants d)")
    case None
    with upd [of uid i] show ?thesis by (simp add: GrantFor_def)
  next
    case (Some h)
    with find_SomeD [OF this] upd [of uid i] show ?thesis
      by (simp add: GrantFor_def split: option.splits)
  qed
  ultimately show ?thesis by (simp add: grant_after_def)
qed

text \<open>A conditional grant write does what it says and nothing else. When \<open>ReplaceGrant\<close> succeeds,
  its condition held (the row was absent for a create, or the stored row had the caller's revision),
  every other user and instance keeps its grant, and the written pair now has the new role and
  extras, unless the row had already expired, which a replacement does not revive.\<close>

lemma ReplaceGrant_effect:
  assumes "wf_db d" and "ReplaceGrant revision uid i r ps cond audit now d = Inr (d', stored, created)"
  shows "(if CreateOnly cond then grantRecordFor uid i d = Inr None
     else \<exists>g. grantRecordFor uid i d = Inr (Some g) \<and> revision g = CondRevision cond) \<and>
    ((uid', i') \<noteq> (uid, i) \<longrightarrow> GrantFor t d' uid' i' = GrantFor t d uid' i') \<and>
    GrantFor t d' uid i =
      (if created \<or> GrantFor t d uid i \<noteq> Inr None then Inr (Some \<lparr>GrantRole = r, Perms = ps\<rparr>) else Inr None)"
proof -
  from ReplaceGrant_users [OF assms(2)] obtain cur d1 where cur: "grantRecordFor uid i d = Inr cur"
    and c: "checkGrantCondition revision cur cond = None"
    and w: "writeGrant cur uid i r ps (AuditUserID audit) now d = Inr d1" and d': "d' = writeAuditLog audit d1"
    and cr: "created \<longleftrightarrow> cur = None" by blast
  have "if CreateOnly cond then grantRecordFor uid i d = Inr None
      else \<exists>g. grantRecordFor uid i d = Inr (Some g) \<and> revision g = CondRevision cond"
    using c cur by (auto simp: checkGrantCondition_def split: if_splits option.splits)
  moreover have "grant_after t r ps uid i d d1 created"
    using cur w cr insert_grant_after update_grant_after by (cases cur) auto
  moreover have "GrantFor t d' = GrantFor t d1" by (simp add: d' GrantFor_def fun_eq_iff)
  ultimately show ?thesis unfolding grant_after_def by (simp del: Pair_inject)
qed

lemma ReplaceGrant_effect_example:
  "\<exists>d'. GrantFor 5 d' ''m'' ''srv'' = Inr (Some \<lparr>GrantRole = ''operator'', Perms = []\<rparr>)"
proof -
  have "\<exists>d' st. ReplaceGrant gr_role ''m'' ''srv'' ''operator'' [] \<lparr>CreateOnly = False, CondRevision = ''viewer''\<rparr>
     \<lparr>AuditUserID = ''o'', AuditAction = ''grant''\<rparr> 1 demo_db = Inr (d', st, False)"
    by (simp add: ReplaceGrant_def checkGrantTargets_def demo_db_def empty_db_def user_exists_def
        grantRecordFor_def at_key_def checkGrantCondition_def writeGrant_def writeAuditLog_def Let_def)
  then obtain d' st where "ReplaceGrant gr_role ''m'' ''srv'' ''operator'' []
     \<lparr>CreateOnly = False, CondRevision = ''viewer''\<rparr>
     \<lparr>AuditUserID = ''o'', AuditAction = ''grant''\<rparr> 1 demo_db = Inr (d', st, False)" by blast
  note eff = ReplaceGrant_effect [OF demo_db_wf this, where t = 5 and uid' = "[]" and i' = "[]"]
  have "GrantFor 5 demo_db ''m'' ''srv'' \<noteq> Inr None"
    by (simp add: demo_db_def GrantFor_def at_key_def live_def)
  with eff have "GrantFor 5 d' ''m'' ''srv'' = Inr (Some \<lparr>GrantRole = ''operator'', Perms = []\<rparr>)" by simp
  then show ?thesis by blast
qed

end
