(* ===== verification/Job_Kind.thy ===== *)
theory Job_Kind
  imports Go_Prelude
begin

text \<open>
  \<open>internal/jobs/kind.go\<close>: the closed register of job kinds, the tables keyed by it and the lock keys a
  job claims. The keys of different scopes and of different instances never coincide.
\<close>

datatype kind =
    KindProvision | KindStart | KindStop | KindRestart | KindDelete | KindWorldImport |
    KindThunderstoreSync | KindModInstall | KindModUninstall | KindModToggle | KindBackup |
    KindRemoteCopy | KindRemoteTest | KindRemotePrune | KindRemoteCreate | KindRestore |
    KindPrune | KindDiagnose | KindUpdateCheck | KindGameUpdate | KindClone |
    KindConfigApply | KindKeyRotate | KindWebhookDeliver | KindWorldDelete | KindAdopt |
    KindSetupSave | KindSetupRestore | KindSetupDelete | KindWorldTool | KindAlertScan |
    KindChain | KindUpdateTest | KindUpdateApply | KindExport

fun kind_name :: "kind \<Rightarrow> string" where
  "kind_name KindProvision = ''provision''"
| "kind_name KindStart = ''start''"
| "kind_name KindStop = ''stop''"
| "kind_name KindRestart = ''restart''"
| "kind_name KindDelete = ''delete''"
| "kind_name KindWorldImport = ''world_import''"
| "kind_name KindThunderstoreSync = ''thunderstore_sync''"
| "kind_name KindModInstall = ''mod_install''"
| "kind_name KindModUninstall = ''mod_uninstall''"
| "kind_name KindModToggle = ''mod_toggle''"
| "kind_name KindBackup = ''backup''"
| "kind_name KindRemoteCopy = ''remote_copy''"
| "kind_name KindRemoteTest = ''remote_test''"
| "kind_name KindRemotePrune = ''remote_prune''"
| "kind_name KindRemoteCreate = ''remote_create''"
| "kind_name KindRestore = ''restore''"
| "kind_name KindPrune = ''prune''"
| "kind_name KindDiagnose = ''diagnose''"
| "kind_name KindUpdateCheck = ''update_check''"
| "kind_name KindGameUpdate = ''game_update''"
| "kind_name KindClone = ''clone''"
| "kind_name KindConfigApply = ''config_apply''"
| "kind_name KindKeyRotate = ''key_rotate''"
| "kind_name KindWebhookDeliver = ''webhook_deliver''"
| "kind_name KindWorldDelete = ''world_delete''"
| "kind_name KindAdopt = ''adopt''"
| "kind_name KindSetupSave = ''setup_save''"
| "kind_name KindSetupRestore = ''setup_restore''"
| "kind_name KindSetupDelete = ''setup_delete''"
| "kind_name KindWorldTool = ''world_tool''"
| "kind_name KindAlertScan = ''alert_scan''"
| "kind_name KindChain = ''chain''"
| "kind_name KindUpdateTest = ''update_test''"
| "kind_name KindUpdateApply = ''update_apply''"
| "kind_name KindExport = ''export''"

definition allKinds :: "kind list" where
  "allKinds = [
     KindProvision, KindStart, KindStop, KindRestart, KindDelete, KindWorldImport,
     KindThunderstoreSync, KindModInstall, KindModUninstall, KindModToggle, KindBackup,
     KindRestore, KindPrune, KindUpdateCheck, KindGameUpdate, KindClone, KindConfigApply,
     KindAdopt, KindWorldDelete, KindSetupSave, KindSetupRestore, KindSetupDelete,
     KindKeyRotate, KindWebhookDeliver, KindAlertScan, KindDiagnose, KindRemoteCopy,
     KindRemoteTest, KindRemotePrune, KindRemoteCreate, KindWorldTool, KindChain,
     KindUpdateTest, KindUpdateApply, KindExport]"

definition Kinds :: "kind list" where
  "Kinds = allKinds"

definition resumeIntentHonoured :: "kind \<Rightarrow> bool" where
  "resumeIntentHonoured k \<longleftrightarrow> k = KindBackup"

definition NeedsDiskRoom :: "kind \<Rightarrow> bool" where
  "NeedsDiskRoom k \<longleftrightarrow> k \<in> set [
     KindProvision, KindWorldImport, KindModInstall, KindBackup, KindRestore, KindGameUpdate,
     KindClone, KindSetupSave, KindSetupRestore, KindWorldTool, KindUpdateTest,
     KindUpdateApply, KindExport]"

text \<open>\<open>ByName\<close> scans \<open>allKinds\<close> for the first kind of that name.\<close>

definition ByName :: "string \<Rightarrow> kind option" where
  "ByName name = find (\<lambda>k. kind_name k = name) allKinds"

definition InstanceLockKey :: "string \<Rightarrow> string" where
  "InstanceLockKey instanceID = ''instance:'' @ instanceID"

definition ChainLockKey :: "string \<Rightarrow> string" where
  "ChainLockKey instanceID = ''chain:'' @ instanceID"

definition GlobalLockKey :: "kind \<Rightarrow> string" where
  "GlobalLockKey k = ''global:'' @ kind_name k"

lemma allKinds_complete [simp]: "k \<in> set allKinds"
  by (cases k) (simp_all add: allKinds_def)

lemma allKinds_distinct: "distinct (map kind_name allKinds)"
  by (simp add: allKinds_def)

lemma kind_name_inj: "kind_name a = kind_name b \<Longrightarrow> a = b"
  using allKinds_distinct by (auto simp: distinct_map dest: inj_onD)

text \<open>The kind register is closed and unambiguous: every kind is read back from the name it is
  stored under, and a name no kind has is reported as unknown.\<close>

lemma ByName_roundtrip: "ByName n = Some k \<longleftrightarrow> n = kind_name k"
proof
  assume "ByName n = Some k"
  then show "n = kind_name k" by (auto simp: ByName_def dest: find_SomeD)
next
  assume n: "n = kind_name k"
  then have "ByName n \<noteq> None" by (auto simp: ByName_def find_None_iff)
  then obtain k' where "ByName n = Some k'" by blast
  moreover from this n have "kind_name k' = kind_name k" by (auto simp: ByName_def dest: find_SomeD)
  ultimately show "ByName n = Some k" by (auto dest: kind_name_inj)
qed

text \<open>Lock keys do not collide: the keys of two instances, of two global kinds, and of an
  instance lock, a chain lock and a global lock are all different, so holding one never blocks or
  satisfies another.\<close>

lemma lock_keys_disjoint:
  "(InstanceLockKey i = InstanceLockKey j \<longleftrightarrow> i = j) \<and> (ChainLockKey i = ChainLockKey j \<longleftrightarrow> i = j) \<and>
   (GlobalLockKey k = GlobalLockKey l \<longleftrightarrow> k = l) \<and> InstanceLockKey i \<noteq> ChainLockKey j \<and>
   InstanceLockKey i \<noteq> GlobalLockKey k \<and> ChainLockKey i \<noteq> GlobalLockKey k"
  by (auto simp: InstanceLockKey_def ChainLockKey_def GlobalLockKey_def dest: kind_name_inj)

end
