(* ===== verification/Instance_State.thy ===== *)
theory Instance_State
  imports Job_Kind
begin

text \<open>
  \<open>internal/instance/state.go\<close> and \<open>reconcile.go\<close>: the lifecycle states of an instance, the transition
  table, the guarded state write, and the compare-and-swap statements of \<open>internal/store/instances.go\<close>
  it goes through. The locale \<open>state_writer\<close> is the contract of the \<open>StateWriter\<close> interface, interpreted
  on the statements of the store.
\<close>

subsection \<open>States and the transition table\<close>

datatype state =
    StateCreated | StateProvisioning | StateStopped | StateStarting | StateRunning | StateStopping
  | StateBackingUp | StateRestoring | StateUpdating | StateDeleting | StateError

fun state_name :: "state \<Rightarrow> string" where
  "state_name StateCreated = ''created''"
| "state_name StateProvisioning = ''provisioning''"
| "state_name StateStopped = ''stopped''"
| "state_name StateStarting = ''starting''"
| "state_name StateRunning = ''running''"
| "state_name StateStopping = ''stopping''"
| "state_name StateBackingUp = ''backing_up''"
| "state_name StateRestoring = ''restoring''"
| "state_name StateUpdating = ''updating''"
| "state_name StateDeleting = ''deleting''"
| "state_name StateError = ''error''"

definition edgeList :: "(state \<times> state) list" where
  "edgeList = [
     (StateCreated, StateProvisioning),
     (StateError, StateProvisioning),
     (StateProvisioning, StateStopped),
     (StateProvisioning, StateError),
     (StateStopped, StateStarting),
     (StateStopped, StateError),
     (StateStarting, StateRunning),
     (StateStarting, StateError),
     (StateStarting, StateStopped),
     (StateRunning, StateStopping),
     (StateStopping, StateStarting),
     (StateStopping, StateStopped),
     (StateStopping, StateError),
     (StateRunning, StateStopped),
     (StateRunning, StateError),
     (StateStopped, StateRunning),
     (StateStopped, StateBackingUp),
     (StateStopped, StateRestoring),
     (StateStopped, StateUpdating),
     (StateBackingUp, StateStopped),
     (StateBackingUp, StateRunning),
     (StateRestoring, StateStopped),
     (StateRestoring, StateError),
     (StateUpdating, StateStopped),
     (StateUpdating, StateError),
     (StateStopped, StateDeleting),
     (StateError, StateDeleting),
     (StateError, StateStopped),
     (StateError, StateRunning)]"

definition Valid :: "state \<Rightarrow> state \<Rightarrow> bool" where
  "Valid from to \<longleftrightarrow> (from, to) \<in> set edgeList"

datatype state_error = IllegalTransition state state | NotInState state | ErrInspect

definition ValidateTransition :: "state \<Rightarrow> state \<Rightarrow> state_error option" where
  "ValidateTransition from to = (if Valid from to then None else Some (IllegalTransition from to))"

fun requires :: "kind \<Rightarrow> state list" where
  "requires KindProvision = [StateCreated, StateError]"
| "requires KindStart = [StateStopped]"
| "requires KindStop = [StateRunning]"
| "requires KindRestart = [StateRunning]"
| "requires KindDelete = [StateStopped, StateError]"
| "requires KindWorldImport = [StateStopped]"
| "requires KindBackup = [StateStopped, StateRunning]"
| "requires KindRestore = [StateStopped]"
| "requires KindGameUpdate = [StateStopped]"
| "requires KindClone = [StateStopped]"
| "requires KindSetupSave = [StateStopped]"
| "requires KindSetupRestore = [StateStopped]"
| "requires KindWorldTool = [StateStopped]"
| "requires KindChain = [StateStopped, StateRunning]"
| "requires KindUpdateTest = [StateStopped, StateRunning]"
| "requires KindUpdateApply = [StateStopped, StateRunning]"
| "requires _ = []"

definition AllowedFrom :: "kind \<Rightarrow> state list" where
  "AllowedFrom k = sort_key state_name (requires k)"

subsection \<open>The instances table\<close>

record inst_row =
  row_state :: state
  container_id :: "string option"
  game_build_id :: "string option"
  restart_required :: bool
  pending_restart :: bool
  container_started_at :: "int option"

type_synonym inst_table = "string \<rightharpoonup> inst_row"

definition state_of :: "inst_table \<Rightarrow> string \<Rightarrow> state option" where
  "state_of t iid = map_option row_state (t iid)"

text \<open>\<open>UPDATE instances SET \<dots> WHERE id = ? AND state = ?\<close>; the boolean is that one row matched.\<close>

definition update_where_state ::
  "string \<Rightarrow> state \<Rightarrow> (inst_row \<Rightarrow> inst_row) \<Rightarrow> inst_table \<Rightarrow> bool \<times> inst_table" where
  "update_where_state iid from f t =
     (case t iid of
        None \<Rightarrow> (False, t)
      | Some r \<Rightarrow> if row_state r = from then (True, t(iid \<mapsto> f r)) else (False, t))"

definition UpdateInstanceState :: "string \<Rightarrow> state \<Rightarrow> state \<Rightarrow> inst_table \<Rightarrow> bool \<times> inst_table" where
  "UpdateInstanceState iid from to = update_where_state iid from (\<lambda>r. r\<lparr>row_state := to\<rparr>)"

definition TxUpdateInstanceState :: "string \<Rightarrow> state \<Rightarrow> state \<Rightarrow> inst_table \<Rightarrow> bool \<times> inst_table" where
  "TxUpdateInstanceState iid from to = update_where_state iid from (\<lambda>r. r\<lparr>row_state := to\<rparr>)"

text \<open>The audit row is written exactly when the row moves.\<close>

definition UpdateInstanceStateAudited ::
  "string \<Rightarrow> state \<Rightarrow> state \<Rightarrow> 'a \<Rightarrow> inst_table \<times> 'a list \<Rightarrow> bool \<times> inst_table \<times> 'a list" where
  "UpdateInstanceStateAudited iid from to audit d =
     (case TxUpdateInstanceState iid from to (fst d) of
        (moved, t) \<Rightarrow> if moved then (True, t, snd d @ [audit]) else (False, t, snd d))"

definition TxFinishStart :: "string \<Rightarrow> state \<Rightarrow> state \<Rightarrow> inst_table \<Rightarrow> state_error + inst_table" where
  "TxFinishStart iid from to t =
     (case update_where_state iid from
             (\<lambda>r. r\<lparr>row_state := to, restart_required := False, pending_restart := False\<rparr>) t of
        (ok, t') \<Rightarrow> if ok then Inr t' else Inl (NotInState from))"

definition TxFinishProvisioning ::
  "string \<Rightarrow> state \<Rightarrow> state \<Rightarrow> string \<Rightarrow> string \<Rightarrow> inst_table \<Rightarrow> state_error + inst_table" where
  "TxFinishProvisioning iid from to containerID gameBuildID t =
     (case update_where_state iid from
             (\<lambda>r. r\<lparr>row_state := to, container_id := Some containerID,
                   game_build_id := Some gameBuildID\<rparr>) t of
        (ok, t') \<Rightarrow> if ok then Inr t' else Inl (NotInState from))"

definition TxDeleteInstance :: "string \<Rightarrow> state \<Rightarrow> inst_table \<Rightarrow> state_error + inst_table" where
  "TxDeleteInstance iid from t =
     (if state_of t iid = Some from then Inr (t(iid := None)) else Inl (NotInState from))"

subsection \<open>Guarded writes\<close>

type_synonym 'db writer = "string \<Rightarrow> state \<Rightarrow> state \<Rightarrow> 'db \<Rightarrow> bool \<times> 'db"

definition SetState ::
  "'db writer \<Rightarrow> string \<Rightarrow> state \<Rightarrow> state \<Rightarrow> 'db \<Rightarrow> state_error + (bool \<times> 'db)" where
  "SetState w iid from to d =
     (case ValidateTransition from to of
        Some e \<Rightarrow> Inl e
      | None \<Rightarrow> Inr (w iid from to d))"

definition SetStateTx ::
  "string \<Rightarrow> state \<Rightarrow> state \<Rightarrow> inst_table \<Rightarrow> state_error + (bool \<times> inst_table)" where
  "SetStateTx = SetState TxUpdateInstanceState"

definition HoldStateTx :: "string \<Rightarrow> state \<Rightarrow> inst_table \<Rightarrow> bool \<times> inst_table" where
  "HoldStateTx iid s = TxUpdateInstanceState iid s s"

definition FinishStartTx :: "string \<Rightarrow> state \<Rightarrow> state \<Rightarrow> inst_table \<Rightarrow> state_error + inst_table" where
  "FinishStartTx iid from to t =
     (case ValidateTransition from to of Some e \<Rightarrow> Inl e | None \<Rightarrow> TxFinishStart iid from to t)"

definition FinishProvisioningTx ::
  "string \<Rightarrow> state \<Rightarrow> state \<Rightarrow> string \<Rightarrow> string \<Rightarrow> inst_table \<Rightarrow> state_error + inst_table" where
  "FinishProvisioningTx iid from to containerID gameBuildID t =
     (case ValidateTransition from to of
        Some e \<Rightarrow> Inl e
      | None \<Rightarrow> TxFinishProvisioning iid from to containerID gameBuildID t)"

definition SetStateAudited ::
  "string \<Rightarrow> state \<Rightarrow> state \<Rightarrow> 'a \<Rightarrow> inst_table \<times> 'a list \<Rightarrow>
   state_error + (bool \<times> inst_table \<times> 'a list)" where
  "SetStateAudited iid from to audit d =
     (case ValidateTransition from to of
        Some e \<Rightarrow> Inl e
      | None \<Rightarrow> Inr (UpdateInstanceStateAudited iid from to audit d))"

subsection \<open>Reconcile\<close>

datatype inspect_result = InspectErr | InspectNotFound | Inspected bool

definition Reconcile :: "(string \<Rightarrow> inspect_result) \<Rightarrow> string \<Rightarrow> state_error + state" where
  "Reconcile inspect containerID =
     (if containerID = [] then Inr StateStopped
      else case inspect containerID of
             InspectNotFound \<Rightarrow> Inr StateStopped
           | InspectErr \<Rightarrow> Inl ErrInspect
           | Inspected running \<Rightarrow> if running then Inr StateRunning else Inr StateStopped)"

subsection \<open>The contract of a state writer\<close>

locale state_writer =
  fixes w :: "'db writer" and look :: "'db \<Rightarrow> string \<Rightarrow> state option"
  assumes swapped: "w iid from to d = (b, d') \<Longrightarrow> b \<longleftrightarrow> look d iid = Some from"
    and moved: "w iid from to d = (b, d') \<Longrightarrow> look d' = (if b then (look d)(iid \<mapsto> to) else look d)"
begin

text \<open>A guarded write only ever moves one instance along an edge of the table.\<close>

lemma set_state_edge:
  assumes "SetState w iid from to d = Inr (b, d')" and "look d' i \<noteq> look d i"
  shows "i = iid \<and> b \<and> look d i = Some from \<and> look d' i = Some to \<and> Valid from to"
proof -
  from assms(1) have v: "Valid from to" and w: "w iid from to d = (b, d')"
    by (auto simp: SetState_def ValidateTransition_def split: if_splits)
  from moved [OF w] assms(2) have "b" and i: "i = iid" "look d' i = Some to" by (auto split: if_splits)
  with swapped [OF w] v show ?thesis by simp
qed

text \<open>Of two writers that read the same state, the second one to write loses.\<close>

lemma second_writer_loses:
  assumes "SetState w iid from to d = Inr (True, d')" and "SetState w iid from to' d' = Inr (b, d'')"
  shows "\<not> b \<and> look d'' = look d'"
proof -
  from assms(1) have v: "Valid from to" and w: "w iid from to d = (True, d')"
    by (auto simp: SetState_def ValidateTransition_def split: if_splits)
  from assms(2) have w': "w iid from to' d' = (b, d'')"
    by (auto simp: SetState_def ValidateTransition_def split: if_splits)
  have "from \<noteq> to" using v by (auto simp: Valid_def edgeList_def)
  with moved [OF w] have "look d' iid \<noteq> Some from" by simp
  with swapped [OF w'] moved [OF w'] show ?thesis by simp
qed

end

lemma update_where_state_cas:
  assumes "update_where_state iid from f t = (b, t')" and "\<And>r. row_state (f r) = to"
  shows "b \<longleftrightarrow> state_of t iid = Some from"
    and "state_of t' = (if b then (state_of t)(iid \<mapsto> to) else state_of t)"
proof -
  show "b \<longleftrightarrow> state_of t iid = Some from"
    using assms(1) by (auto simp: update_where_state_def state_of_def split: option.splits if_splits)
  have "state_of t' x = (if b then (state_of t)(iid \<mapsto> to) else state_of t) x" for x
    using assms by (auto simp: update_where_state_def state_of_def split: option.splits if_splits)
  then show "state_of t' = (if b then (state_of t)(iid \<mapsto> to) else state_of t)" by (rule ext)
qed

interpretation ws: state_writer UpdateInstanceState state_of
  by unfold_locales
    (auto simp: UpdateInstanceState_def dest: update_where_state_cas(1) update_where_state_cas(2))

interpretation tw: state_writer TxUpdateInstanceState state_of
  by unfold_locales
    (auto simp: TxUpdateInstanceState_def dest: update_where_state_cas(1) update_where_state_cas(2))

subsection \<open>Reachability\<close>

inductive reaches :: "state \<Rightarrow> state \<Rightarrow> bool" where
  refl: "reaches s s"
| step: "Valid a b \<Longrightarrow> reaches b c \<Longrightarrow> reaches a c"

lemma Valid_simps:
  "Valid StateCreated StateProvisioning" "Valid StateProvisioning StateStopped"
  "Valid StateStopped StateStarting" "Valid StateStarting StateRunning" "Valid StateRunning StateStopping"
  "Valid StateStopping StateStopped" "Valid StateStopped StateBackingUp" "Valid StateBackingUp StateStopped"
  "Valid StateStopped StateRestoring" "Valid StateRestoring StateStopped" "Valid StateStopped StateUpdating"
  "Valid StateUpdating StateStopped" "Valid StateStopped StateDeleting" "Valid StateStopped StateError"
  "Valid StateError StateStopped" "Valid StateRunning StateStopped" "Valid StateStarting StateStopped"
  "Valid StateStopped StateRunning" "Valid StateError StateProvisioning"
  by (simp_all add: Valid_def edgeList_def)

lemma no_edge_from_deleting: "\<not> Valid StateDeleting s"
  by (simp add: Valid_def edgeList_def)

lemma reaches_edge: "Valid a b \<Longrightarrow> reaches a b"
  and reaches_edges: "Valid a b \<Longrightarrow> Valid b c \<Longrightarrow> reaches a c"
  by (blast intro: reaches.intros)+

lemma to_stopped: "s \<noteq> StateDeleting \<Longrightarrow> reaches s StateStopped"
  by (cases s) (auto intro: reaches.refl reaches_edge Valid_simps
      reaches_edges [OF Valid_simps(1) Valid_simps(2)])

lemma from_stopped: "s \<noteq> StateCreated \<Longrightarrow> reaches StateStopped s"
  by (cases s) (auto intro: reaches.refl reaches_edge Valid_simps
      reaches_edges [of StateStopped StateError StateProvisioning]
      reaches_edges [of StateStopped StateRunning StateStopping])

lemma reaches_trans: "reaches a b \<Longrightarrow> reaches b c \<Longrightarrow> reaches a c"
  by (induction rule: reaches.induct) (auto intro: reaches.intros)

text \<open>The lifecycle has no dead end but deletion: from every state other than \<open>deleting\<close> the table
  leads to every state other than \<open>created\<close>, nothing leaves \<open>deleting\<close>, and nothing re-enters \<open>created\<close>.\<close>

lemma lifecycle_connected:
  "(a \<noteq> StateDeleting \<and> b \<noteq> StateCreated \<longrightarrow> reaches a b) \<and>
   (reaches StateDeleting b \<longrightarrow> b = StateDeleting) \<and> (reaches a StateCreated \<longrightarrow> a = StateCreated)"
proof (intro conjI impI)
  assume "a \<noteq> StateDeleting \<and> b \<noteq> StateCreated"
  then show "reaches a b" using to_stopped from_stopped reaches_trans by blast
next
  assume "reaches StateDeleting b"
  then show "b = StateDeleting" by (cases rule: reaches.cases) (auto simp: no_edge_from_deleting)
next
  have "b = StateCreated \<Longrightarrow> a = StateCreated" if "reaches a b" for a b
    using that by (induction rule: reaches.induct) (auto simp: Valid_def edgeList_def)
  then show "reaches a StateCreated \<Longrightarrow> a = StateCreated" by blast
qed

text \<open>A guarded state write is a compare-and-swap along the table. If it changes any instance, it
  is the one named, which was in the state the caller read and moves to the requested state along an
  edge of the table; and when two writers read the same state, the second to write changes nothing
  and is told so.\<close>

lemma SetState_cas:
  assumes "SetState UpdateInstanceState iid from to t = Inr (b, t')"
  shows "(\<forall>i. state_of t' i \<noteq> state_of t i \<longrightarrow>
      i = iid \<and> b \<and> state_of t i = Some from \<and> state_of t' i = Some to \<and> Valid from to) \<and>
    (b \<and> SetState UpdateInstanceState iid from to' t' = Inr (b', t'') \<longrightarrow> \<not> b' \<and> state_of t'' = state_of t')"
proof (intro conjI allI impI)
  fix i assume "state_of t' i \<noteq> state_of t i"
  from ws.set_state_edge [OF assms this]
  show "i = iid" "b" "state_of t i = Some from" "state_of t' i = Some to" "Valid from to" by auto
next
  assume a: "b \<and> SetState UpdateInstanceState iid from to' t' = Inr (b', t'')"
  with assms have "SetState UpdateInstanceState iid from to t = Inr (True, t')" by simp
  from ws.second_writer_loses [OF this] a show "\<not> b'" "state_of t'' = state_of t'" by auto
qed

lemma SetState_cas_example:
  "\<exists>t t'. SetState UpdateInstanceState ''i'' StateStopped StateStarting t = Inr (True, t') \<and>
     state_of t' ''i'' = Some StateStarting"
proof -
  let ?t = "[''i'' \<mapsto> \<lparr>row_state = StateStopped, container_id = None, game_build_id = None,
    restart_required = False, pending_restart = False, container_started_at = None\<rparr>]"
  obtain t' where s: "SetState UpdateInstanceState ''i'' StateStopped StateStarting ?t = Inr (True, t')"
    and d: "state_of t' ''i'' \<noteq> state_of ?t ''i''"
    by (auto simp: SetState_def ValidateTransition_def Valid_simps UpdateInstanceState_def
        update_where_state_def state_of_def)
  from SetState_cas [OF s, of StateError False t'] d have "state_of t' ''i'' = Some StateStarting" by blast
  with s show ?thesis by blast
qed

end
