(* ===== verification/Observer.thy ===== *)
theory Observer
  imports Instance_State
begin

text \<open>
  \<open>internal/instance/observe.go\<close> and the reconciliation pass of \<open>internal/instance/control/supervisor.go\<close>:
  what the panel does when an instance's row and its container disagree. \<open>Observe\<close> is the recovery
  matrix, \<open>Looping\<close> the crash-loop guard, and \<open>reconcileOne\<close> and \<open>Reconcile\<close> the pass that applies a
  verdict. What the pass asks of the rest of the system (whether an interrupted job could be
  resubmitted, whether readiness shows in the log, whether a job ran at a time, how a time prints)
  is a record of functions it takes.
\<close>

subsection \<open>The recovery matrix\<close>

record reality =
  Found :: bool
  Running :: bool
  OOMKilled :: bool
  RestartCount :: int
  CrashLooping :: bool

text \<open>Go's zero \<open>Verdict\<close> has an empty \<open>To\<close> and an empty \<open>Rerun\<close>: here they are \<^term>\<open>None\<close>.\<close>

record verdict =
  To :: "state option"
  Reason :: string
  Stop :: bool
  Recheck :: bool
  Rerun :: "kind option"

definition no_verdict :: verdict where
  "no_verdict = \<lparr>To = None, Reason = [], Stop = False, Recheck = False, Rerun = None\<rparr>"

definition move_to :: "state \<Rightarrow> string \<Rightarrow> verdict" where
  "move_to s reason = no_verdict\<lparr>To := Some s, Reason := reason\<rparr>"

definition up :: "reality \<Rightarrow> bool" where
  "up r \<longleftrightarrow> Found r \<and> Running r"

definition observeRunning :: "reality \<Rightarrow> verdict" where
  "observeRunning r =
     (if \<not> Found r then move_to StateError ''container disappeared''
      else if OOMKilled r then
        (move_to StateError ''container was killed by the out-of-memory killer; the world may be damaged'')
          \<lparr>Stop := True\<rparr>
      else if CrashLooping r then
        (move_to StateError ''container is restarting repeatedly'')\<lparr>Stop := True\<rparr>
      else if \<not> Running r then move_to StateStopped ''container exited''
      else no_verdict)"

fun Observe :: "state \<Rightarrow> reality \<Rightarrow> verdict" where
  "Observe StateCreated r = no_verdict"
| "Observe StateError r = no_verdict"
| "Observe StateRunning r = observeRunning r"
| "Observe StateStopped r =
     (if up r then move_to StateRunning ''container is running; Docker wins'' else no_verdict)"
| "Observe StateProvisioning r =
     (move_to StateError ''provisioning was interrupted and cannot be resumed'')
       \<lparr>Rerun := Some KindProvision\<rparr>"
| "Observe StateStarting r =
     (if up r then (move_to StateRunning ''start was interrupted; rechecking readiness'')\<lparr>Recheck := True\<rparr>
      else move_to StateStopped ''the start did not happen'')"
| "Observe StateStopping r =
     (if up r then move_to StateError ''a stop was requested and demonstrably did not complete''
      else move_to StateStopped ''container exited'')"
| "Observe StateBackingUp r =
     (if up r then move_to StateRunning ''hot copy was interrupted; the server never stopped''
      else move_to StateStopped ''backup was interrupted; the world was never touched'')"
| "Observe StateRestoring r =
     move_to StateError ''a restore was interrupted; the world on disk is unproven''"
| "Observe StateUpdating r =
     move_to StateError ''a game update was interrupted; the server tree is unproven''"
| "Observe StateDeleting r =
     no_verdict\<lparr>Rerun := Some KindDelete, Reason := ''delete was interrupted''\<rparr>"

subsection \<open>The crash-loop guard\<close>

record crash_mark =
  mark_count :: int
  mark_at :: int

definition CrashLoopThreshold :: int where
  "CrashLoopThreshold = 3"

text \<open>Ten minutes, in nanoseconds.\<close>

definition CrashLoopWindow :: int where
  "CrashLoopWindow = 600000000000"

definition Looping ::
  "string \<Rightarrow> int \<Rightarrow> int \<Rightarrow> (string \<rightharpoonup> crash_mark) \<Rightarrow> bool \<times> (string \<rightharpoonup> crash_mark)" where
  "Looping cid restartCount now marks =
     (let rebased = (False, marks(cid \<mapsto> \<lparr>mark_count = restartCount, mark_at = now\<rparr>))
      in case marks cid of
           None \<Rightarrow> rebased
         | Some m \<Rightarrow>
             if restartCount < mark_count m \<or> CrashLoopWindow < now - mark_at m then rebased
             else (CrashLoopThreshold \<le> restartCount - mark_count m, marks))"

definition Forget :: "string \<Rightarrow> (string \<rightharpoonup> crash_mark) \<Rightarrow> (string \<rightharpoonup> crash_mark)" where
  "Forget cid marks = marks(cid := None)"

subsection \<open>The supervisor\<close>

record container =
  ContainerID :: string
  CRunning :: bool
  COOMKilled :: bool
  CRestartCount :: int
  CStartedAt :: "int option"

record world =
  rerun_ok :: "string \<Rightarrow> kind \<Rightarrow> bool"
  check_ready :: "string \<Rightarrow> bool option"
  job_ran_at :: "string \<Rightarrow> int \<Rightarrow> bool"
  format_start :: "int \<Rightarrow> string"

text \<open>The observer's memory, the instances table, and what it announced.\<close>

record supervisor =
  crash :: "string \<rightharpoonup> crash_mark"
  owedStops :: "string \<rightharpoonup> string"
  stopping :: "string set"
  rows :: inst_table
  published :: "(string \<times> state) list"
  incidents :: "(string \<times> string) list"

definition stillOwed ::
  "string \<Rightarrow> reality \<Rightarrow> verdict \<Rightarrow> (string \<rightharpoonup> string) \<Rightarrow> verdict \<times> (string \<rightharpoonup> string)" where
  "stillOwed cid r v owed =
     (if cid = [] then (v, owed)
      else case owed cid of
             None \<Rightarrow> (v, owed)
           | Some reason \<Rightarrow>
               if \<not> Found r \<or> \<not> Running r
               then (v\<lparr>Stop := False, To := Some StateError, Reason := reason\<rparr>, owed(cid := None))
               else let v' = v\<lparr>Stop := True\<rparr>
                    in (if To v' = None then v'\<lparr>To := Some StateError, Reason := reason\<rparr> else v', owed))"

text \<open>The in-flight mark is dropped by the goroutine that ran the stop, when the runtime returns.\<close>

definition stopInBackground :: "string \<Rightarrow> supervisor \<Rightarrow> supervisor" where
  "stopInBackground cid s = s\<lparr>stopping := insert cid (stopping s)\<rparr>"

definition stop_returned :: "string \<Rightarrow> supervisor \<Rightarrow> supervisor" where
  "stop_returned cid s = s\<lparr>stopping := stopping s - {cid}\<rparr>"

definition park :: "string \<Rightarrow> verdict \<Rightarrow> supervisor \<Rightarrow> bool \<times> supervisor" where
  "park cid v s =
     (if \<not> Stop v \<or> cid = [] then (True, s)
      else (False, stopInBackground cid (s\<lparr>owedStops := (owedStops s)(cid \<mapsto> Reason v)\<rparr>)))"

definition wasUp :: "state \<Rightarrow> bool" where
  "wasUp s \<longleftrightarrow> s = StateRunning \<or> s = StateStarting"

definition reportDown :: "string \<Rightarrow> string \<Rightarrow> supervisor \<Rightarrow> supervisor" where
  "reportDown iid reason s = s\<lparr>incidents := incidents s @ [(iid, reason)]\<rparr>"

definition notifyIfDown :: "string \<Rightarrow> state \<Rightarrow> state \<Rightarrow> string \<Rightarrow> supervisor \<Rightarrow> supervisor" where
  "notifyIfDown iid from to reason s =
     (if \<not> wasUp from \<or> wasUp to then s else reportDown iid reason s)"

definition SetContainerStartedAt :: "string \<Rightarrow> int \<Rightarrow> inst_table \<Rightarrow> inst_table" where
  "SetContainerStartedAt iid at t =
     (case t iid of None \<Rightarrow> t | Some r \<Rightarrow> t(iid \<mapsto> r\<lparr>container_started_at := Some at\<rparr>))"

definition SetInstanceContainerID :: "string \<Rightarrow> string \<Rightarrow> inst_table \<Rightarrow> inst_table" where
  "SetInstanceContainerID iid cid t =
     (case t iid of None \<Rightarrow> t | Some r \<Rightarrow> t(iid \<mapsto> r\<lparr>container_id := Some cid\<rparr>))"

definition noticeRestart ::
  "world \<Rightarrow> string \<Rightarrow> inst_row \<Rightarrow> container option \<Rightarrow> bool \<Rightarrow> supervisor \<Rightarrow> supervisor" where
  "noticeRestart w iid inst c report s =
     (case c of
        None \<Rightarrow> s
      | Some k \<Rightarrow>
          (case CStartedAt k of
             None \<Rightarrow> s
           | Some at \<Rightarrow>
               if \<not> CRunning k \<or> container_started_at inst = Some at then s
               else let s1 = s\<lparr>rows := SetContainerStartedAt iid at (rows s)\<rparr>
                    in if container_started_at inst = None \<or> \<not> report \<or> row_state inst \<noteq> StateRunning \<or>
                          job_ran_at w iid at
                       then s1
                       else reportDown iid (''it restarted outside the panel at '' @ format_start w at @
                              '', after a host reboot, a Docker restart or a crash Docker recovered it from'') s1))"

definition recheckReadiness :: "world \<Rightarrow> string \<Rightarrow> state" where
  "recheckReadiness w cid = (case check_ready w cid of None \<Rightarrow> StateError | Some _ \<Rightarrow> StateRunning)"

definition container_reality :: "container option \<Rightarrow> bool \<Rightarrow> reality" where
  "container_reality c looping =
     (case c of
        None \<Rightarrow> \<lparr>Found = False, Running = False, OOMKilled = False, RestartCount = 0, CrashLooping = False\<rparr>
      | Some k \<Rightarrow> \<lparr>Found = True, Running = CRunning k, OOMKilled = COOMKilled k,
                   RestartCount = CRestartCount k, CrashLooping = looping\<rparr>)"

text \<open>The tail of \<open>reconcileOne\<close>: resubmission, the readiness recheck, the protective stop, the write.\<close>

definition apply_verdict ::
  "world \<Rightarrow> string \<Rightarrow> inst_row \<Rightarrow> string \<Rightarrow> verdict \<Rightarrow> supervisor \<Rightarrow> supervisor" where
  "apply_verdict w iid inst cid v s =
     (case (Rerun v, To v) of
        (Some k, None) \<Rightarrow> s
      | (rr, to) \<Rightarrow>
          if (\<exists>k \<in> set_option rr. rerun_ok w iid k) then s
          else let target = (if Recheck v then Some (recheckReadiness w cid) else to)
               in case park cid v s of
                    (False, s1) \<Rightarrow> s1
                  | (True, s1) \<Rightarrow>
                      (case target of
                         None \<Rightarrow> s1
                       | Some st \<Rightarrow>
                           (case SetState UpdateInstanceState iid (row_state inst) st (rows s1) of
                              Inl e \<Rightarrow> s1
                            | Inr (written, t) \<Rightarrow>
                                if \<not> written then s1
                                else notifyIfDown iid (row_state inst) st (Reason v)
                                       (s1\<lparr>rows := t, published := published s1 @ [(iid, st)]\<rparr>))))"

definition reconcileOne ::
  "world \<Rightarrow> int \<Rightarrow> string \<Rightarrow> inst_row \<Rightarrow> container option \<Rightarrow> supervisor \<Rightarrow> supervisor" where
  "reconcileOne w now iid inst c s =
     (let cid = (case c of None \<Rightarrow> [] | Some k \<Rightarrow> ContainerID k);
          (looping, marks) = (case c of
             None \<Rightarrow> (False, crash s)
           | Some k \<Rightarrow> Looping (ContainerID k) (CRestartCount k) now (crash s));
          r = container_reality c looping;
          s1 = s\<lparr>crash := marks\<rparr>;
          s2 = (if c \<noteq> None \<and> container_id inst \<noteq> Some cid
                then s1\<lparr>rows := SetInstanceContainerID iid cid (rows s1)\<rparr> else s1);
          (v, owed) = stillOwed cid r (Observe (row_state inst) r) (owedStops s2);
          s3 = noticeRestart w iid inst c (v = no_verdict) (s2\<lparr>owedStops := owed\<rparr>)
      in if v = no_verdict then s3 else apply_verdict w iid inst cid v s3)"

text \<open>One pass: \<open>held\<close> and the rows were read at its start; an instance whose lock is held is skipped.\<close>

fun Reconcile_pass ::
  "world \<Rightarrow> int \<Rightarrow> (string \<Rightarrow> bool) \<Rightarrow> (string \<rightharpoonup> container) \<Rightarrow> (string \<times> inst_row) list \<Rightarrow>
   supervisor \<Rightarrow> supervisor" where
  "Reconcile_pass w now held containers [] s = s"
| "Reconcile_pass w now held containers ((iid, inst) # insts) s =
     Reconcile_pass w now held containers insts
       (if held (InstanceLockKey iid) then s else reconcileOne w now iid inst (containers iid) s)"

subsection \<open>What a pass does to the table\<close>

lemma state_of_SetContainerStartedAt [simp]: "state_of (SetContainerStartedAt iid at t) = state_of t"
  by (auto simp: SetContainerStartedAt_def state_of_def fun_eq_iff split: option.splits)

lemma state_of_SetInstanceContainerID [simp]: "state_of (SetInstanceContainerID iid cid t) = state_of t"
  by (auto simp: SetInstanceContainerID_def state_of_def fun_eq_iff split: option.splits)

lemma noticeRestart_state [simp]:
  "state_of (rows (noticeRestart w iid inst c rep s)) = state_of (rows s)"
  "owedStops (noticeRestart w iid inst c rep s) = owedStops s"
  "stopping (noticeRestart w iid inst c rep s) = stopping s"
  by (simp_all add: noticeRestart_def reportDown_def Let_def split: option.splits)

lemma notifyIfDown_rows [simp]: "rows (notifyIfDown iid a b reason s) = rows s"
  by (simp add: notifyIfDown_def reportDown_def)

lemma park_rows [simp]: "rows (snd (park cid v s)) = rows s"
  by (simp add: park_def stopInBackground_def)

text \<open>The state a verdict asks for, once readiness has been looked at.\<close>

definition target :: "world \<Rightarrow> string \<Rightarrow> verdict \<Rightarrow> state option" where
  "target w cid v = (if Recheck v then Some (recheckReadiness w cid) else To v)"

lemma apply_verdict_rows:
  assumes "state_of (rows (apply_verdict w iid inst cid v s)) i \<noteq> state_of (rows s) i"
  shows "i = iid \<and> state_of (rows s) i = Some (row_state inst) \<and> \<not> (Stop v \<and> cid \<noteq> []) \<and>
    (\<exists>st. target w cid v = Some st \<and> state_of (rows (apply_verdict w iid inst cid v s)) i = Some st \<and>
       Valid (row_state inst) st)"
proof -
  let ?s' = "apply_verdict w iid inst cid v s"
  obtain go s1 where p: "park cid v s = (go, s1)" by (cases "park cid v s")
  then have r: "rows s1 = rows s" using park_rows [of cid v s] by simp
  from assms p r obtain st where st: "target w cid v = Some st" and go: "go"
    and ch: "case SetState UpdateInstanceState iid (row_state inst) st (rows s1) of Inl e \<Rightarrow> False
      | Inr (b, t) \<Rightarrow> b \<and> rows ?s' = t"
    by (auto simp: apply_verdict_def target_def Let_def split: option.splits if_splits bool.splits sum.splits)
  then obtain b t where set: "SetState UpdateInstanceState iid (row_state inst) st (rows s) = Inr (b, t)"
    and t: "rows ?s' = t" by (auto simp: r split: sum.splits)
  from ws.set_state_edge [OF set] assms t have "i = iid \<and> state_of (rows s) i = Some (row_state inst) \<and>
      state_of (rows ?s') i = Some st \<and> Valid (row_state inst) st" by blast
  moreover from go p have "\<not> (Stop v \<and> cid \<noteq> [])" by (auto simp: park_def split: if_splits)
  ultimately show ?thesis using st by blast
qed

text \<open>What \<open>reconcileOne\<close> feeds to \<open>apply_verdict\<close>.\<close>

definition facing :: "container option \<Rightarrow> int \<Rightarrow> supervisor \<Rightarrow> reality" where
  "facing c now s = container_reality c (case c of None \<Rightarrow> False
     | Some k \<Rightarrow> fst (Looping (ContainerID k) (CRestartCount k) now (crash s)))"

definition cid_of :: "container option \<Rightarrow> string" where
  "cid_of c = (case c of None \<Rightarrow> [] | Some k \<Rightarrow> ContainerID k)"

lemma reconcileOne_split:
  obtains v owed s3 where
    "stillOwed (cid_of c) (facing c now s) (Observe (row_state inst) (facing c now s)) (owedStops s) = (v, owed)"
    and "state_of (rows s3) = state_of (rows s)" and "owedStops s3 = owed" and "stopping s3 = stopping s"
    and "reconcileOne w now iid inst c s = (if v = no_verdict then s3 else apply_verdict w iid inst (cid_of c) v s3)"
proof -
  let ?marks = "case c of None \<Rightarrow> crash s | Some k \<Rightarrow> snd (Looping (ContainerID k) (CRestartCount k) now (crash s))"
  let ?s1 = "s\<lparr>crash := ?marks\<rparr>"
  let ?s2 = "if c \<noteq> None \<and> container_id inst \<noteq> Some (cid_of c)
    then ?s1\<lparr>rows := SetInstanceContainerID iid (cid_of c) (rows ?s1)\<rparr> else ?s1"
  obtain v owed where v: "stillOwed (cid_of c) (facing c now s) (Observe (row_state inst) (facing c now s))
      (owedStops s) = (v, owed)" by force
  let ?s3 = "noticeRestart w iid inst c (v = no_verdict) (?s2\<lparr>owedStops := owed\<rparr>)"
  have "reconcileOne w now iid inst c s = (if v = no_verdict then ?s3 else apply_verdict w iid inst (cid_of c) v ?s3)"
    using v by (cases c) (simp_all add: reconcileOne_def facing_def cid_of_def Let_def case_prod_unfold)
  then show ?thesis using v by (intro that [of v owed ?s3]) simp_all
qed

lemma stillOwed_cases:
  assumes "stillOwed cid r v owed = (v', owed')"
  shows "Recheck v' = Recheck v \<and> (To v' = To v \<or> To v' = Some StateError)"
  using assms by (auto simp: stillOwed_def Let_def split: if_splits option.splits)

lemma Observe_target:
  assumes "target w cid (Observe st r) = Some t"
  shows "Valid st t"
  using assms
  by (cases st) (auto simp: target_def observeRunning_def move_to_def no_verdict_def Valid_def edgeList_def
      recheckReadiness_def split: if_splits option.splits)

lemma reconcileOne_rows:
  assumes "state_of (rows (reconcileOne w now iid inst c s)) i \<noteq> state_of (rows s) i"
  shows "i = iid \<and> state_of (rows s) i = Some (row_state inst) \<and>
    (\<exists>st. state_of (rows (reconcileOne w now iid inst c s)) i = Some st \<and> Valid (row_state inst) st \<and>
       (st = StateError \<or> target w (cid_of c) (Observe (row_state inst) (facing c now s)) = Some st))"
proof -
  obtain v owed s3 where so: "stillOwed (cid_of c) (facing c now s)
      (Observe (row_state inst) (facing c now s)) (owedStops s) = (v, owed)"
    and s3: "state_of (rows s3) = state_of (rows s)"
    and rec: "reconcileOne w now iid inst c s = (if v = no_verdict then s3 else apply_verdict w iid inst (cid_of c) v s3)"
    by (rule reconcileOne_split)
  from assms rec s3 have "state_of (rows (apply_verdict w iid inst (cid_of c) v s3)) i \<noteq> state_of (rows s3) i"
    and nv: "v \<noteq> no_verdict" by (auto split: if_splits)
  from apply_verdict_rows [OF this(1)] obtain st where st: "i = iid" "state_of (rows s3) i = Some (row_state inst)"
    "target w (cid_of c) v = Some st" "state_of (rows (apply_verdict w iid inst (cid_of c) v s3)) i = Some st"
    "Valid (row_state inst) st" by blast
  have "st = StateError \<or> target w (cid_of c) (Observe (row_state inst) (facing c now s)) = Some st"
    using stillOwed_cases [OF so] st(3)
    by (auto simp: target_def recheckReadiness_def split: if_splits option.splits)
  with st s3 rec nv show ?thesis by auto
qed

subsection \<open>Properties\<close>

text \<open>The recovery matrix only asks for legal moves: a state \<open>Observe\<close> asks for is a successor of
  the current state in the transition table, a readiness recheck is asked for only where both of its
  answers are successors, and a protective stop comes only with parking the instance in \<open>error\<close>.\<close>

lemma Observe_legal:
  "(To (Observe st r) = Some t \<longrightarrow> Valid st t) \<and>
   (Recheck (Observe st r) \<longrightarrow> Valid st StateRunning \<and> Valid st StateError) \<and>
   (Stop (Observe st r) \<longrightarrow> To (Observe st r) = Some StateError)"
  by (cases st) (auto simp: observeRunning_def move_to_def no_verdict_def Valid_def edgeList_def)

text \<open>C7. The observer keeps out of a job's way and never breaks the lifecycle. A whole pass over
  distinct instances changes only instances whose lock was free, each at most once, from the state
  the pass read, along an edge of the table.\<close>

theorem Reconcile_pass_safe:
  assumes "distinct (map fst insts)"
    and "state_of (rows (Reconcile_pass w now held containers insts s)) i \<noteq> state_of (rows s) i"
  shows "\<not> held (InstanceLockKey i) \<and>
    (\<exists>inst st. (i, inst) \<in> set insts \<and> state_of (rows s) i = Some (row_state inst) \<and>
       state_of (rows (Reconcile_pass w now held containers insts s)) i = Some st \<and> Valid (row_state inst) st)"
  using assms
proof (induction insts arbitrary: s)
  case Nil
  then show ?case by simp
next
  case (Cons p insts)
  obtain iid inst where p: "p = (iid, inst)" by (cases p)
  let ?s1 = "if held (InstanceLockKey iid) then s else reconcileOne w now iid inst (containers iid) s"
  let ?s' = "Reconcile_pass w now held containers insts ?s1"
  have d: "distinct (map fst insts)" "iid \<notin> fst ` set insts" using Cons.prems(1) p by auto
  have s': "Reconcile_pass w now held containers (p # insts) s = ?s'" by (simp add: p)
  show ?case
  proof (cases "state_of (rows ?s') i = state_of (rows ?s1) i")
    case True
    with Cons.prems(2) s' have c: "state_of (rows ?s1) i \<noteq> state_of (rows s) i" by simp
    then have free: "\<not> held (InstanceLockKey iid)" by auto
    with c have "state_of (rows (reconcileOne w now iid inst (containers iid) s)) i \<noteq> state_of (rows s) i" by simp
    from reconcileOne_rows [OF this] free True s' p show ?thesis by auto
  next
    case False
    from Cons.IH [OF d(1) False] obtain inst' st where
      IH: "\<not> held (InstanceLockKey i)" "(i, inst') \<in> set insts" "state_of (rows ?s1) i = Some (row_state inst')"
        "state_of (rows ?s') i = Some st" "Valid (row_state inst') st" by blast
    then have "i \<noteq> iid" using d(2) by force
    then have "state_of (rows ?s1) i = state_of (rows s) i"
      using reconcileOne_rows [of w now iid inst "containers iid" s i] by (auto split: if_splits)
    with IH s' p show ?thesis by auto
  qed
qed

definition demo_row :: "state \<Rightarrow> inst_row" where
  "demo_row st = \<lparr>row_state = st, container_id = None, game_build_id = None, restart_required = False,
     pending_restart = False, container_started_at = None\<rparr>"

definition demo_sup :: "state \<Rightarrow> supervisor" where
  "demo_sup st = \<lparr>crash = Map.empty, owedStops = Map.empty, stopping = {}, rows = [''i'' \<mapsto> demo_row st],
     published = [], incidents = []\<rparr>"

definition demo_world :: world where
  "demo_world = \<lparr>rerun_ok = (\<lambda>_ _. False), check_ready = (\<lambda>_. Some True), job_ran_at = (\<lambda>_ _. False),
     format_start = (\<lambda>_. [])\<rparr>"

lemma demo_before: "state_of (rows (demo_sup st)) ''i'' = Some st"
  by (simp add: demo_sup_def state_of_def demo_row_def)

lemma demo_gone:
  "state_of (rows (reconcileOne demo_world 0 ''i'' (demo_row StateRunning) None (demo_sup StateRunning))) ''i''
   = Some StateError"
  by (simp add: reconcileOne_def container_reality_def observeRunning_def stillOwed_def noticeRestart_def
      apply_verdict_def park_def move_to_def no_verdict_def demo_row_def demo_sup_def demo_world_def SetState_def
      ValidateTransition_def Valid_def edgeList_def UpdateInstanceState_def update_where_state_def state_of_def)

theorem Reconcile_pass_safe_witness:
  "\<exists>st. state_of (rows (Reconcile_pass demo_world 0 (\<lambda>_. False) Map.empty
       [(''i'', demo_row StateRunning)] (demo_sup StateRunning))) ''i'' = Some st \<and> Valid StateRunning st"
proof -
  have c: "state_of (rows (Reconcile_pass demo_world 0 (\<lambda>_. False) Map.empty
      [(''i'', demo_row StateRunning)] (demo_sup StateRunning))) ''i''
     \<noteq> state_of (rows (demo_sup StateRunning)) ''i''" by (simp add: demo_gone demo_before)
  have "distinct (map fst [(''i'', demo_row StateRunning)])" by simp
  from Reconcile_pass_safe [OF this c] obtain inst st where
    "(''i'', inst) \<in> set [(''i'', demo_row StateRunning)]" "Valid (row_state inst) st"
    "state_of (rows (Reconcile_pass demo_world 0 (\<lambda>_. False) Map.empty
      [(''i'', demo_row StateRunning)] (demo_sup StateRunning))) ''i'' = Some st" by blast
  moreover from this(1) have "row_state inst = StateRunning" by (simp add: demo_row_def)
  ultimately show ?thesis by auto
qed

text \<open>What the observer may never decide: whatever Docker reports and whatever it remembers, it does
  not move an instance out of \<open>created\<close> or \<open>error\<close>, where only a person acts, and an instance whose restore
  or game update was interrupted only ever goes to \<open>error\<close>, never to a state it could be started from.\<close>

lemma observer_leaves_to_humans:
  assumes "state_of (rows (reconcileOne w now iid inst c s)) iid \<noteq> state_of (rows s) iid"
  shows "row_state inst \<notin> {StateCreated, StateError, StateDeleting} \<and>
    (row_state inst \<in> {StateRestoring, StateUpdating} \<longrightarrow>
       state_of (rows (reconcileOne w now iid inst c s)) iid = Some StateError)"
proof -
  from reconcileOne_rows [OF assms] obtain st where st: "Valid (row_state inst) st"
    "state_of (rows (reconcileOne w now iid inst c s)) iid = Some st"
    "st = StateError \<or> target w (cid_of c) (Observe (row_state inst) (facing c now s)) = Some st" by blast
  then show ?thesis
    by (cases "row_state inst") (auto simp: Valid_def edgeList_def target_def move_to_def no_verdict_def)
qed

lemma observer_leaves_to_humans_example:
  "\<exists>s. state_of (rows (reconcileOne demo_world 0 ''i'' (demo_row StateRunning) None s)) ''i''
     \<noteq> state_of (rows s) ''i'' \<and> row_state (demo_row StateRunning) \<notin> {StateCreated, StateError, StateDeleting}"
proof -
  have c: "state_of (rows (reconcileOne demo_world 0 ''i'' (demo_row StateRunning) None (demo_sup StateRunning))) ''i''
     \<noteq> state_of (rows (demo_sup StateRunning)) ''i''"
    by (simp add: demo_gone demo_before)
  from observer_leaves_to_humans [OF c] c show ?thesis by blast
qed

lemma apply_verdict_parks:
  assumes "To v \<noteq> None" and "\<forall>j. \<not> rerun_ok w iid j" and "Stop v" and "cid \<noteq> []"
  shows "apply_verdict w iid inst cid v s =
    stopInBackground cid (s\<lparr>owedStops := (owedStops s)(cid \<mapsto> Reason v)\<rparr>)"
  using assms by (cases "Rerun v") (auto simp: apply_verdict_def park_def Let_def)

lemma apply_verdict_errors:
  assumes "To v = Some StateError" and "\<forall>j. \<not> rerun_ok w iid j" and "\<not> Stop v" and "\<not> Recheck v"
  shows "owedStops (apply_verdict w iid inst cid v s) = owedStops s"
    and "state_of (rows s) iid = Some (row_state inst) \<Longrightarrow> Valid (row_state inst) StateError \<Longrightarrow>
      state_of (rows (apply_verdict w iid inst cid v s)) iid = Some StateError"
proof -
  have a: "apply_verdict w iid inst cid v s =
    (case SetState UpdateInstanceState iid (row_state inst) StateError (rows s) of
       Inl e \<Rightarrow> s
     | Inr (written, t) \<Rightarrow>
         if \<not> written then s
         else notifyIfDown iid (row_state inst) StateError (Reason v)
                (s\<lparr>rows := t, published := published s @ [(iid, StateError)]\<rparr>))"
    using assms by (cases "Rerun v") (simp_all add: apply_verdict_def park_def)
  show "owedStops (apply_verdict w iid inst cid v s) = owedStops s"
    by (simp add: a notifyIfDown_def reportDown_def split: sum.splits)
  assume "state_of (rows s) iid = Some (row_state inst)" and "Valid (row_state inst) StateError"
  then show "state_of (rows (apply_verdict w iid inst cid v s)) iid = Some StateError"
    by (auto simp: a SetState_def ValidateTransition_def UpdateInstanceState_def update_where_state_def
        state_of_def)
qed

lemma Recheck_up: "Recheck (Observe st r) \<Longrightarrow> up r"
  by (cases st) (auto simp: observeRunning_def move_to_def no_verdict_def split: if_splits)

text \<open>A protective stop is never forgotten. While a container it was decided for still runs, every
  pass over its instance keeps the stop owed, asks for it again and leaves the row alone; the pass that
  finds the container down clears the debt and parks the instance in \<open>error\<close>, when the row is where the
  pass read it and \<open>error\<close> is a successor of that state, and no interrupted job of it can be resubmitted.\<close>

lemma owed_stop_kept:
  assumes owed: "owedStops s (ContainerID k) = Some reason" and cid: "ContainerID k \<noteq> []"
    and rr: "\<forall>j. \<not> rerun_ok w iid j"
  shows "(CRunning k \<longrightarrow>
      owedStops (reconcileOne w now iid inst (Some k) s) (ContainerID k) \<noteq> None \<and>
      ContainerID k \<in> stopping (reconcileOne w now iid inst (Some k) s) \<and>
      state_of (rows (reconcileOne w now iid inst (Some k) s)) = state_of (rows s)) \<and>
    (\<not> CRunning k \<longrightarrow>
      owedStops (reconcileOne w now iid inst (Some k) s) (ContainerID k) = None \<and>
      (state_of (rows s) iid = Some (row_state inst) \<and> Valid (row_state inst) StateError \<longrightarrow>
       state_of (rows (reconcileOne w now iid inst (Some k) s)) iid = Some StateError))"
proof -
  let ?r = "facing (Some k) now s"
  obtain v ow s3 where so: "stillOwed (cid_of (Some k)) ?r (Observe (row_state inst) ?r) (owedStops s) = (v, ow)"
    and s3: "state_of (rows s3) = state_of (rows s)" "owedStops s3 = ow"
    and rec: "reconcileOne w now iid inst (Some k) s =
      (if v = no_verdict then s3 else apply_verdict w iid inst (cid_of (Some k)) v s3)"
    by (rule reconcileOne_split)
  have c: "cid_of (Some k) = ContainerID k" by (simp add: cid_of_def)
  have r: "Found ?r" "Running ?r = CRunning k" by (simp_all add: facing_def container_reality_def)
  show ?thesis
  proof (cases "CRunning k")
    case True
    with so owed cid r have v: "Stop v" "To v \<noteq> None"
      by (auto simp: stillOwed_def c Let_def split: if_splits)
    then have "v \<noteq> no_verdict" by (auto simp: no_verdict_def)
    with rec apply_verdict_parks [OF v(2) rr v(1) cid] c have "reconcileOne w now iid inst (Some k) s =
        stopInBackground (ContainerID k) (s3\<lparr>owedStops := (owedStops s3)(ContainerID k \<mapsto> Reason v)\<rparr>)" by simp
    with True s3 show ?thesis by (simp add: stopInBackground_def)
  next
    case False
    with so owed cid r have v: "\<not> Stop v" "To v = Some StateError" "ow (ContainerID k) = None"
      by (auto simp: stillOwed_def c)
    have "\<not> Recheck v" using stillOwed_cases [OF so] Recheck_up r False by (auto simp: up_def)
    note e = apply_verdict_errors [OF v(2) rr v(1) this]
    have "v \<noteq> no_verdict" using v(2) by (auto simp: no_verdict_def)
    with rec e s3 v(3) False show ?thesis by auto
  qed
qed

lemma owed_stop_kept_example:
  "\<exists>s. state_of (rows (reconcileOne demo_world 0 ''i'' (demo_row StateRunning)
     (Some \<lparr>ContainerID = ''c'', CRunning = False, COOMKilled = False, CRestartCount = 0, CStartedAt = None\<rparr>) s)) ''i''
     = Some StateError"
proof -
  let ?k = "\<lparr>ContainerID = ''c'', CRunning = False, COOMKilled = False, CRestartCount = 0, CStartedAt = None\<rparr>"
  let ?s = "(demo_sup StateRunning)\<lparr>owedStops := [''c'' \<mapsto> ''oom'']\<rparr>"
  have "owedStops ?s (ContainerID ?k) = Some ''oom''" "ContainerID ?k \<noteq> []" "\<forall>j. \<not> rerun_ok demo_world ''i'' j"
    by (simp_all add: demo_world_def)
  from owed_stop_kept [OF this, of 0 "demo_row StateRunning"] show ?thesis
    by (auto simp: demo_sup_def state_of_def demo_row_def Valid_def edgeList_def)
qed

subsection \<open>The crash-loop guard over time\<close>

text \<open>Successive observations of one container, as (restart count, time) pairs, and the last answer.\<close>

fun watch :: "string \<Rightarrow> (int \<times> int) list \<Rightarrow> (string \<rightharpoonup> crash_mark) \<Rightarrow> bool \<times> (string \<rightharpoonup> crash_mark)" where
  "watch cid [] marks = (False, marks)"
| "watch cid [(n, t)] marks = Looping cid n t marks"
| "watch cid ((n, t) # obs) marks = watch cid obs (snd (Looping cid n t marks))"

lemma Looping_mark:
  "Looping cid n t marks = (b, marks') \<Longrightarrow>
   marks' cid = marks cid \<and> (b \<longrightarrow> (\<exists>m. marks cid = Some m \<and> 3 \<le> n - mark_count m \<and>
      t - mark_at m \<le> CrashLoopWindow)) \<or>
   marks' cid = Some \<lparr>mark_count = n, mark_at = t\<rparr> \<and> \<not> b"
  by (auto simp: Looping_def Let_def CrashLoopThreshold_def split: option.splits if_splits)

lemma watch_mark:
  assumes "watch cid obs marks = (b, marks')"
    and "\<And>m. marks cid = Some m \<Longrightarrow> (mark_count m, mark_at m) \<in> S" and "set obs \<subseteq> S" and "b"
  shows "\<exists>n t. last obs = (n, t) \<and> (\<exists>(n0, t0) \<in> S. 3 \<le> n - n0 \<and> t - t0 \<le> CrashLoopWindow)"
  using assms
proof (induction cid obs marks arbitrary: rule: watch.induct)
  case (1 cid marks)
  then show ?case by simp
next
  case (2 cid n t marks)
  from Looping_mark [of cid n t marks b marks'] 2 show ?case by force
next
  case (3 cid n t o2 obs marks)
  obtain b1 m1 where l: "Looping cid n t marks = (b1, m1)" by force
  have "(mark_count m, mark_at m) \<in> S" if "m1 cid = Some m" for m
    using Looping_mark [OF l] that 3(3,4) by auto
  with 3 l show ?case by simp
qed

text \<open>The crash-loop guard is sound: when a sequence of observations ends in the answer that the
  container is looping, some earlier observation was at least three restarts lower and at most ten
  minutes before. (The converse fails, see \<open>crash_loop_missed\<close>.)\<close>

lemma crash_loop_sound:
  assumes "fst (watch cid (obs @ [(n, t)]) Map.empty)"
  shows "\<exists>(n0, t0) \<in> set obs. CrashLoopThreshold \<le> n - n0 \<and> t - t0 \<le> CrashLoopWindow"
proof -
  obtain b m where w: "watch cid (obs @ [(n, t)]) Map.empty = (b, m)" by force
  with assms watch_mark [OF w, of "set (obs @ [(n, t)])"]
  have "\<exists>(n0, t0) \<in> set (obs @ [(n, t)]). 3 \<le> n - n0 \<and> t - t0 \<le> CrashLoopWindow" by auto
  then show ?thesis by (auto simp: CrashLoopThreshold_def)
qed

text \<open>The window restarts at a fixed baseline rather than sliding, so three restarts within two seconds
  go unreported when they straddle the end of a window.\<close>

lemma crash_loop_missed:
  "\<not> fst (watch ''c'' [(0, 0), (2, 599000000000)] Map.empty) \<and>
   \<not> fst (watch ''c'' [(0, 0), (2, 599000000000), (5, 601000000000)] Map.empty)"
  by (simp add: Looping_def CrashLoopWindow_def CrashLoopThreshold_def)

end
