(* ===== verification/Job_Store.thy ===== *)
theory Job_Store
  imports Job_Kind "HOL-Library.Option_ord"
begin

text \<open>
  \<open>internal/store/jobs.go\<close>: the job table and the lock table. A claim takes all of its locks, runs the
  kind's own database change and inserts the row in one transaction, or does none of it; a finish
  writes the terminal status and releases every lock. The rows a hook may change are the record field
  \<open>other\<close>, of any type; a hook is a function on it that may fail. Timestamps are \<^typ>\<open>int\<close>s (the stored text is
  fixed-width UTC, ordered as time is). Statements are taken to succeed unless a key constraint is hit.
\<close>

subsection \<open>Tables\<close>

datatype job_status = Queued | JobRunning | Succeeded | JobFailed | Cancelled

definition terminal :: "job_status \<Rightarrow> bool" where
  "terminal st \<longleftrightarrow> st = Succeeded \<or> st = JobFailed \<or> st = Cancelled"

record job =
  JobID :: string
  JobKind :: string
  Status :: job_status
  LockKey :: string
  JobInstance :: "string option"
  InstanceName :: string
  ScheduleID :: "string option"
  Scheduled :: bool
  Payload :: string
  Checkpoint :: "string option"
  ResumeAfter :: bool
  Progress :: int
  Message :: "string option"
  LeaseOwner :: "string option"
  LeaseUntil :: "int option"
  CancelRequestedAt :: "int option"
  Clean :: "bool option"
  RequestedBy :: "string option"
  Attempt :: int
  ErrorCode :: "string option"
  JobError :: "string option"
  Log :: "string option"
  CreatedAt :: int
  StartedAt :: "int option"
  FinishedAt :: "int option"

record 'x jobs_db =
  job_runs :: "job list"
  job_locks :: "string \<rightharpoonup> string"
  other :: 'x

datatype claim_error =
    EmptyLockKey
  | JobConflict string string
  | LookupHolder string
  | HookFailed string
  | DuplicateJob

type_synonym 'x hook = "'x \<Rightarrow> string + 'x"

definition update_job :: "(job \<Rightarrow> bool) \<Rightarrow> (job \<Rightarrow> job) \<Rightarrow> 'x jobs_db \<Rightarrow> 'x jobs_db" where
  "update_job P f d = d\<lparr>job_runs := map (\<lambda>j. if P j then f j else j) (job_runs d)\<rparr>"

definition release_locks :: "string \<Rightarrow> 'x jobs_db \<Rightarrow> 'x jobs_db" where
  "release_locks jid d = d\<lparr>job_locks := (\<lambda>k. if job_locks d k = Some jid then None else job_locks d k)\<rparr>"

subsection \<open>Claim\<close>

fun acquire :: "string \<Rightarrow> string list \<Rightarrow> 'x jobs_db \<Rightarrow> claim_error + 'x jobs_db" where
  "acquire jid [] d = Inr d"
| "acquire jid (key # keys) d =
     (if key = [] then Inl EmptyLockKey
      else case job_locks d key of
             Some holder \<Rightarrow>
               (case find (\<lambda>j. JobID j = holder) (job_runs d) of
                  None \<Rightarrow> Inl (LookupHolder key)
                | Some h \<Rightarrow> Inl (JobConflict (JobID h) (JobKind h)))
           | None \<Rightarrow> acquire jid keys (d\<lparr>job_locks := (job_locks d)(key \<mapsto> jid)\<rparr>))"

definition claim_keys :: "job \<Rightarrow> string list \<Rightarrow> string list" where
  "claim_keys j supplemental = remdups_adj (sort (LockKey j # supplemental))"

text \<open>The columns the INSERT writes; the rest take their defaults.\<close>

definition claimed_row :: "job \<Rightarrow> string \<Rightarrow> int \<Rightarrow> int \<Rightarrow> job" where
  "claimed_row j owner leaseUntil now =
     j\<lparr>Status := JobRunning, Scheduled := (ScheduleID j \<noteq> None), Checkpoint := None, Progress := 0,
       Message := None, LeaseOwner := Some owner, LeaseUntil := Some leaseUntil,
       CancelRequestedAt := None, Clean := None, Attempt := 1, ErrorCode := None, JobError := None,
       Log := None, CreatedAt := now, StartedAt := Some now, FinishedAt := None\<rparr>"

definition ClaimJobWithLocks ::
  "job \<Rightarrow> string list \<Rightarrow> string \<Rightarrow> int \<Rightarrow> int \<Rightarrow> 'x hook \<Rightarrow> 'x jobs_db \<Rightarrow> claim_error + 'x jobs_db" where
  "ClaimJobWithLocks j supplemental owner leaseUntil now onClaim d =
     rbind (acquire (JobID j) (claim_keys j supplemental) d) (\<lambda>d1.
       case onClaim (other d1) of
         Inl e \<Rightarrow> Inl (HookFailed e)
       | Inr x \<Rightarrow>
           if list_ex (\<lambda>r. JobID r = JobID j) (job_runs d1) then Inl DuplicateJob
           else Inr (d1\<lparr>other := x, job_runs := job_runs d1 @ [claimed_row j owner leaseUntil now]\<rparr>))"

definition ClaimJob ::
  "job \<Rightarrow> string \<Rightarrow> int \<Rightarrow> int \<Rightarrow> 'x hook \<Rightarrow> 'x jobs_db \<Rightarrow> claim_error + 'x jobs_db" where
  "ClaimJob j = ClaimJobWithLocks j []"

subsection \<open>Work\<close>

definition RenewJobLease :: "string \<Rightarrow> string \<Rightarrow> int \<Rightarrow> 'x jobs_db \<Rightarrow> bool \<times> 'x jobs_db" where
  "RenewJobLease jid owner until d =
     (let P = (\<lambda>j. JobID j = jid \<and> LeaseOwner j = Some owner \<and> Status j = JobRunning)
      in (list_ex P (job_runs d), update_job P (\<lambda>j. j\<lparr>LeaseUntil := Some until\<rparr>) d))"

definition UpdateJobProgress :: "string \<Rightarrow> int \<Rightarrow> string \<Rightarrow> 'x jobs_db \<Rightarrow> 'x jobs_db" where
  "UpdateJobProgress jid pct message =
     update_job (\<lambda>j. JobID j = jid) (\<lambda>j. j\<lparr>Progress := pct, Message := Some message\<rparr>)"

definition UpdateJobCheckpoint :: "string \<Rightarrow> string \<Rightarrow> 'x jobs_db \<Rightarrow> 'x jobs_db" where
  "UpdateJobCheckpoint jid checkpoint =
     update_job (\<lambda>j. JobID j = jid) (\<lambda>j. j\<lparr>Checkpoint := Some checkpoint\<rparr>)"

subsection \<open>Finish and cancel\<close>

definition FinishJob ::
  "string \<Rightarrow> job_status \<Rightarrow> int \<Rightarrow> string option \<Rightarrow> string option \<Rightarrow> string option \<Rightarrow> bool option \<Rightarrow>
   int \<Rightarrow> 'x hook \<Rightarrow> 'x jobs_db \<Rightarrow> string + 'x jobs_db" where
  "FinishJob jid status pct errorCode errMsg log clean finishedAt onFinish d =
     (let d1 = update_job (\<lambda>j. JobID j = jid) (\<lambda>j. j\<lparr>Status := status, Progress := pct,
                 ErrorCode := errorCode, JobError := errMsg, Log := log, Clean := clean,
                 LeaseOwner := None, LeaseUntil := None, FinishedAt := Some finishedAt\<rparr>) d;
          d2 = release_locks jid d1
      in case onFinish (other d2) of Inl e \<Rightarrow> Inl e | Inr x \<Rightarrow> Inr (d2\<lparr>other := x\<rparr>))"

definition CancelQueuedJob :: "string \<Rightarrow> int \<Rightarrow> 'x jobs_db \<Rightarrow> bool \<times> 'x jobs_db" where
  "CancelQueuedJob jid now d =
     (let P = (\<lambda>j. JobID j = jid \<and> Status j = Queued)
      in if \<not> list_ex P (job_runs d) then (False, d)
         else (True, release_locks jid
                 (update_job P (\<lambda>j. j\<lparr>Status := Cancelled, FinishedAt := Some now\<rparr>) d)))"

definition RequestJobCancel :: "string \<Rightarrow> int \<Rightarrow> 'x jobs_db \<Rightarrow> 'x jobs_db" where
  "RequestJobCancel jid now =
     update_job (\<lambda>j. JobID j = jid \<and> CancelRequestedAt j = None) (\<lambda>j. j\<lparr>CancelRequestedAt := Some now\<rparr>)"

text \<open>\<open>RecordSkippedRun\<close> of \<open>store/schedules.go\<close>: a cancelled row for a tick that enqueued nothing. It takes no lock.\<close>

definition skipped_row :: "job \<Rightarrow> string \<Rightarrow> string \<Rightarrow> int \<Rightarrow> job" where
  "skipped_row j code message now =
     j\<lparr>Status := Cancelled, Scheduled := (ScheduleID j \<noteq> None), Payload := ''{}'', Checkpoint := None, ResumeAfter := False,
       Progress := 0, Message := None, LeaseOwner := None, LeaseUntil := None, CancelRequestedAt := None, Clean := None,
       RequestedBy := None, Attempt := 1, ErrorCode := Some code, JobError := Some message, Log := None,
       CreatedAt := now, StartedAt := Some now, FinishedAt := Some now\<rparr>"

definition RecordSkippedRun :: "job \<Rightarrow> string \<Rightarrow> string \<Rightarrow> int \<Rightarrow> 'x jobs_db \<Rightarrow> claim_error + 'x jobs_db" where
  "RecordSkippedRun j code message now d =
     (if list_ex (\<lambda>r. JobID r = JobID j) (job_runs d) then Inl DuplicateJob
      else Inr (d\<lparr>job_runs := job_runs d @ [skipped_row j code message now]\<rparr>))"

subsection \<open>Reads\<close>

definition JobByID :: "string \<Rightarrow> 'x jobs_db \<Rightarrow> job option" where
  "JobByID jid d = find (\<lambda>j. JobID j = jid) (job_runs d)"

definition StaleJobs :: "string \<Rightarrow> 'x jobs_db \<Rightarrow> job list" where
  "StaleJobs owner d =
     sort_key CreatedAt (filter (\<lambda>j. Status j = JobRunning \<and> LeaseOwner j \<noteq> Some owner) (job_runs d))"

definition LockHolder :: "string \<Rightarrow> 'x jobs_db \<Rightarrow> string option" where
  "LockHolder key d = job_locks d key"

definition HeldLockKeys :: "'x jobs_db \<Rightarrow> string \<Rightarrow> bool" where
  "HeldLockKeys d key \<longleftrightarrow> job_locks d key \<noteq> None"

text \<open>Newest first; rows of one instant keep their order.\<close>

definition newest_first :: "job list \<Rightarrow> job list" where
  "newest_first js = sort_key (\<lambda>j. - CreatedAt j) js"

definition LastJobForInstance :: "string \<Rightarrow> 'x jobs_db \<Rightarrow> job option" where
  "LastJobForInstance i d =
     (case newest_first (filter (\<lambda>j. JobInstance j = Some i) (job_runs d)) of [] \<Rightarrow> None | j # _ \<Rightarrow> Some j)"

definition JobRanAt :: "string \<Rightarrow> int \<Rightarrow> 'x jobs_db \<Rightarrow> bool" where
  "JobRanAt i at d =
     list_ex (\<lambda>j. JobInstance j = Some i \<and>
        (case StartedAt j of None \<Rightarrow> False | Some s \<Rightarrow> s \<le> at) \<and>
        (case FinishedAt j of None \<Rightarrow> True | Some f \<Rightarrow> at \<le> f)) (job_runs d)"

definition RunningJobs :: "'x jobs_db \<Rightarrow> job list" where
  "RunningJobs d = sort_key (\<lambda>j. StartedAt j) (filter (\<lambda>j. Status j = JobRunning) (job_runs d))"

subsection \<open>The retention sweep\<close>

text \<open>The terminal rows of one instance's partition, newest first; \<open>ROW_NUMBER\<close> is the position plus one.\<close>

definition partition_rows :: "'x jobs_db \<Rightarrow> string option \<Rightarrow> job list" where
  "partition_rows d i = newest_first (filter (\<lambda>j. terminal (Status j) \<and> JobInstance j = i) (job_runs d))"

definition kept_ids :: "int \<Rightarrow> 'x jobs_db \<Rightarrow> string option \<Rightarrow> string set" where
  "kept_ids cutoff d i = JobID ` set (filter (\<lambda>j. cutoff \<le> CreatedAt j) (take 500 (partition_rows d i)))"

definition SweepTerminalJobs :: "int \<Rightarrow> 'x jobs_db \<Rightarrow> 'x jobs_db" where
  "SweepTerminalJobs cutoff d =
     d\<lparr>job_runs := filter (\<lambda>j. terminal (Status j) \<longrightarrow> JobID j \<in> kept_ids cutoff d (JobInstance j)) (job_runs d)\<rparr>"

subsection \<open>The contract of the lock table\<close>

text \<open>What the engine and the observer rely on: an active job holds its key, and every transaction keeps
  that so. It follows that no two active jobs share a key.\<close>

locale lock_service =
  fixes inv :: "'d \<Rightarrow> bool" and trans :: "'d \<Rightarrow> 'd \<Rightarrow> bool"
    and active :: "'d \<Rightarrow> string \<Rightarrow> string \<Rightarrow> bool" and holder :: "'d \<Rightarrow> string \<Rightarrow> string option"
  assumes keeps: "inv d \<Longrightarrow> trans d d' \<Longrightarrow> inv d'"
    and active_holds: "inv d \<Longrightarrow> active d jid key \<Longrightarrow> holder d key = Some jid"
begin

lemma keeps_all: "trans\<^sup>*\<^sup>* d d' \<Longrightarrow> inv d \<Longrightarrow> inv d'"
  by (induction rule: rtranclp_induct) (auto intro: keeps)

lemma exclusive:
  assumes "trans\<^sup>*\<^sup>* d d'" and "inv d" and "active d' a key" and "active d' b key"
  shows "a = b"
  using active_holds [OF keeps_all [OF assms(1,2)]] assms(3,4) by (metis option.inject)

end

subsection \<open>The invariant\<close>

definition jobs_ok :: "'x jobs_db \<Rightarrow> bool" where
  "jobs_ok d \<longleftrightarrow> distinct (map JobID (job_runs d)) \<and>
     (\<forall>k jid. job_locks d k = Some jid \<longrightarrow> (\<exists>j \<in> set (job_runs d). JobID j = jid \<and> \<not> terminal (Status j))) \<and>
     (\<forall>j \<in> set (job_runs d). Status j = JobRunning \<longrightarrow> job_locks d (LockKey j) = Some (JobID j))"

text \<open>The transactions of the table; a finish writes one of the three terminal statuses.\<close>

inductive job_step :: "'x jobs_db \<Rightarrow> 'x jobs_db \<Rightarrow> bool" where
  claim: "ClaimJobWithLocks j keys owner until now hook d = Inr d' \<Longrightarrow> job_step d d'"
| renew: "RenewJobLease jid owner until d = (b, d') \<Longrightarrow> job_step d d'"
| progress: "job_step d (UpdateJobProgress jid pct msg d)"
| checkpoint: "job_step d (UpdateJobCheckpoint jid cp d)"
| finish: "terminal st \<Longrightarrow> FinishJob jid st pct ec em lg cl at hook d = Inr d' \<Longrightarrow> job_step d d'"
| cancel_queued: "CancelQueuedJob jid now d = (b, d') \<Longrightarrow> job_step d d'"
| request_cancel: "job_step d (RequestJobCancel jid now d)"
| sweep: "job_step d (SweepTerminalJobs cutoff d)"
| skipped: "RecordSkippedRun j code message now d = Inr d' \<Longrightarrow> job_step d d'"

definition job_active :: "'x jobs_db \<Rightarrow> string \<Rightarrow> string \<Rightarrow> bool" where
  "job_active d jid key \<longleftrightarrow> (\<exists>j \<in> set (job_runs d). JobID j = jid \<and> LockKey j = key \<and> Status j = JobRunning)"

lemma update_job_simps [simp]:
  "job_locks (update_job P f d) = job_locks d" "other (update_job P f d) = other d"
  by (simp_all add: update_job_def)

lemma job_runs_update_job: "job_runs (update_job P f d) = map (\<lambda>j. if P j then f j else j) (job_runs d)"
  by (simp add: update_job_def)

text \<open>The invariant reads three columns of a row.\<close>

definition row_sig :: "job \<Rightarrow> string \<times> string \<times> job_status" where
  "row_sig j = (JobID j, LockKey j, Status j)"

lemma jobs_ok_sig:
  "jobs_ok d \<longleftrightarrow> distinct (map fst (map row_sig (job_runs d))) \<and>
     (\<forall>k jid. job_locks d k = Some jid \<longrightarrow> (\<exists>(i, l, st) \<in> set (map row_sig (job_runs d)). i = jid \<and> \<not> terminal st)) \<and>
     (\<forall>(i, l, st) \<in> set (map row_sig (job_runs d)). st = JobRunning \<longrightarrow> job_locks d l = Some i)"
  by (simp add: jobs_ok_def row_sig_def comp_def)

lemma jobs_ok_cong:
  "map row_sig (job_runs d') = map row_sig (job_runs d) \<Longrightarrow> job_locks d' = job_locks d \<Longrightarrow> jobs_ok d' = jobs_ok d"
  by (simp only: jobs_ok_sig)

lemma jobs_ok_update:
  assumes "jobs_ok d" and "\<And>j. row_sig (f j) = row_sig j"
  shows "jobs_ok (update_job P f d)"
proof -
  have "map row_sig (job_runs (update_job P f d)) = map row_sig (job_runs d)"
    using assms(2) by (simp add: update_job_def)
  from jobs_ok_cong [OF this] assms(1) show ?thesis by simp
qed

text \<open>Ending a job: its row turns terminal and its locks go.\<close>

lemma jobs_ok_end:
  assumes ok: "jobs_ok d"
    and f: "\<And>j. JobID (f j) = JobID j \<and> LockKey (f j) = LockKey j \<and> (P j \<longrightarrow> terminal (Status (f j)))"
    and P: "\<And>j. P j \<Longrightarrow> JobID j = jid" and cov: "\<And>j. j \<in> set (job_runs d) \<Longrightarrow> JobID j = jid \<Longrightarrow> P j"
  shows "jobs_ok (release_locks jid (update_job P f d))"
proof -
  let ?d = "release_locks jid (update_job P f d)"
  let ?g = "\<lambda>j. if P j then f j else j"
  have runs: "job_runs ?d = map ?g (job_runs d)" by (simp add: release_locks_def update_job_def)
  have ids: "map JobID (job_runs ?d) = map JobID (job_runs d)" using f by (simp add: runs)
  have lk: "job_locks ?d k = (if job_locks d k = Some jid then None else job_locks d k)" for k
    by (simp add: release_locks_def)
  have "\<exists>j \<in> set (job_runs ?d). JobID j = h \<and> \<not> terminal (Status j)" if "job_locks ?d k = Some h" for k h
  proof -
    from that lk have "job_locks d k = Some h" "h \<noteq> jid" by (auto split: if_splits)
    with ok obtain j where j: "j \<in> set (job_runs d)" "JobID j = h" "\<not> terminal (Status j)"
      unfolding jobs_ok_def by blast
    with P \<open>h \<noteq> jid\<close> have "?g j = j" by auto
    moreover have "?g j \<in> set (job_runs ?d)" unfolding runs set_map using j(1) by (rule imageI)
    ultimately show ?thesis using j(2,3) by metis
  qed
  moreover have "job_locks ?d (LockKey j') = Some (JobID j')"
    if j': "j' \<in> set (job_runs ?d)" "Status j' = JobRunning" for j'
  proof -
    from j'(1) runs obtain j where j: "j \<in> set (job_runs d)" "j' = ?g j" by auto
    with j'(2) f [of j] have "\<not> P j" by (auto simp: terminal_def)
    with j cov have "j' = j" "JobID j \<noteq> jid" by auto
    have "\<forall>x \<in> set (job_runs d). Status x = JobRunning \<longrightarrow> job_locks d (LockKey x) = Some (JobID x)"
      using ok by (simp add: jobs_ok_def)
    then have "job_locks d (LockKey j') = Some (JobID j')" using j(1) j'(2) \<open>j' = j\<close> by blast
    with \<open>j' = j\<close> \<open>JobID j \<noteq> jid\<close> show ?thesis by (simp add: lk)
  qed
  moreover have "distinct (map JobID (job_runs ?d))" using ok unfolding ids jobs_ok_def by blast
  ultimately show ?thesis unfolding jobs_ok_def by blast
qed

subsection \<open>Claims\<close>

lemma acquire_ok:
  assumes "acquire jid keys d = Inr d'" and "distinct keys"
  shows "job_runs d' = job_runs d \<and> other d' = other d \<and> (\<forall>k \<in> set keys. k \<noteq> [] \<and> job_locks d k = None) \<and>
    job_locks d' = (\<lambda>k. if k \<in> set keys then Some jid else job_locks d k)"
  using assms
proof (induction keys arbitrary: d)
  case Nil
  then show ?case by auto
next
  case (Cons k ks)
  then have k: "k \<noteq> []" "job_locks d k = None" "acquire jid ks (d\<lparr>job_locks := (job_locks d)(k \<mapsto> jid)\<rparr>) = Inr d'"
    by (auto split: if_splits option.splits)
  from Cons.IH [OF k(3)] Cons.prems(2) k(1,2) show ?case by (auto simp: fun_eq_iff split: if_splits)
qed

lemma acquire_fails:
  assumes "acquire jid keys d = Inl e" and "distinct keys" and "jobs_ok d"
    and "\<forall>j \<in> set (job_runs d). JobID j \<noteq> jid"
  shows "e = EmptyLockKey \<and> [] \<in> set keys \<or>
    (\<exists>j \<in> set (job_runs d). \<exists>k \<in> set keys. e = JobConflict (JobID j) (JobKind j) \<and>
       job_locks d k = Some (JobID j) \<and> \<not> terminal (Status j))"
proof -
  have "e = EmptyLockKey \<and> [] \<in> set keys \<or>
    (\<exists>j \<in> set (job_runs d). \<exists>k \<in> set keys. e = JobConflict (JobID j) (JobKind j) \<and>
       job_locks d k = Some (JobID j) \<and> \<not> terminal (Status j))"
    if "acquire jid ks d1 = Inl e" "distinct ks" "set ks \<subseteq> set keys" "job_runs d1 = job_runs d"
      "\<forall>k \<in> set ks. job_locks d1 k = job_locks d k" for ks d1
    using that
  proof (induction ks arbitrary: d1)
    case (Cons k ks)
    show ?case
    proof (cases "k = []"; cases "job_locks d k = None")
      assume k: "k \<noteq> []" "job_locks d k = None"
      let ?d2 = "d1\<lparr>job_locks := (job_locks d1)(k \<mapsto> jid)\<rparr>"
      from k Cons.prems have "acquire jid ks ?d2 = Inl e" by simp
      moreover have "\<forall>k' \<in> set ks. job_locks ?d2 k' = job_locks d k'" using Cons.prems by auto
      ultimately show ?thesis using Cons.prems by (intro Cons.IH [of ?d2]) simp_all
    next
      assume "k \<noteq> []" "job_locks d k \<noteq> None"
      then obtain h where h: "k \<noteq> []" "job_locks d k = Some h" by auto
      with assms(3) obtain j where j: "j \<in> set (job_runs d)" "JobID j = h" "\<not> terminal (Status j)"
        unfolding jobs_ok_def by blast
      then have "find (\<lambda>j. JobID j = h) (job_runs d) \<noteq> None" by (auto simp: find_None_iff)
      then obtain j' where f: "find (\<lambda>j. JobID j = h) (job_runs d) = Some j'" by blast
      with j assms(3) have "j' = j" using find_SomeD [OF f]
        by (auto simp: jobs_ok_def distinct_map dest: inj_onD)
      with f h Cons.prems have "e = JobConflict (JobID j) (JobKind j)" by simp
      with j h(2) Cons.prems(3) show ?thesis by auto
    qed (use Cons.prems in auto)
  qed simp
  from this [OF assms(1,2)] show ?thesis by simp
qed

lemma distinct_claim_keys: "distinct (claim_keys j ks)"
  unfolding claim_keys_def by (rule distinct_compact) (rule sorted_sort)

lemma set_claim_keys: "set (claim_keys j ks) = insert (LockKey j) (set ks)"
  by (simp add: claim_keys_def set_insort_key)

lemma claim_effect:
  assumes "ClaimJobWithLocks j ks owner until now hook d = Inr d'"
  shows "job_runs d' = job_runs d @ [claimed_row j owner until now] \<and>
    (\<forall>k \<in> insert (LockKey j) (set ks). k \<noteq> [] \<and> job_locks d k = None) \<and>
    job_locks d' = (\<lambda>k. if k \<in> insert (LockKey j) (set ks) then Some (JobID j) else job_locks d k) \<and>
    (\<forall>r \<in> set (job_runs d). JobID r \<noteq> JobID j) \<and> hook (other d) = Inr (other d')"
proof -
  from assms obtain d1 where a: "acquire (JobID j) (claim_keys j ks) d = Inr d1"
    and r: "(case hook (other d1) of Inl e \<Rightarrow> Inl (HookFailed e) | Inr x \<Rightarrow>
      if list_ex (\<lambda>r. JobID r = JobID j) (job_runs d1) then Inl DuplicateJob
      else Inr (d1\<lparr>other := x, job_runs := job_runs d1 @ [claimed_row j owner until now]\<rparr>)) = Inr d'"
    unfolding ClaimJobWithLocks_def rbind_eq_Inr by blast
  from r have "\<forall>r \<in> set (job_runs d1). JobID r \<noteq> JobID j" and "\<exists>x. hook (other d1) = Inr x \<and>
      d' = d1\<lparr>other := x, job_runs := job_runs d1 @ [claimed_row j owner until now]\<rparr>"
    by (cases "hook (other d1)"; auto simp: list_ex_iff split: if_splits)+
  with acquire_ok [OF a distinct_claim_keys] show ?thesis unfolding set_claim_keys by auto
qed

lemma claimed_row_simps [simp]:
  "JobID (claimed_row j owner until now) = JobID j" "LockKey (claimed_row j owner until now) = LockKey j"
  "Status (claimed_row j owner until now) = JobRunning"
  by (simp_all add: claimed_row_def)

lemma jobs_ok_claim:
  assumes ok: "jobs_ok d" and "ClaimJobWithLocks j ks owner until now hook d = Inr d'"
  shows "jobs_ok d'"
proof -
  note e = claim_effect [OF assms(2)]
  then have runs: "job_runs d' = job_runs d @ [claimed_row j owner until now]"
    and free: "\<forall>k \<in> insert (LockKey j) (set ks). job_locks d k = None"
    and lk: "\<And>k. job_locks d' k = (if k \<in> insert (LockKey j) (set ks) then Some (JobID j) else job_locks d k)"
    and new: "\<forall>r \<in> set (job_runs d). JobID r \<noteq> JobID j" by auto
  from ok have o: "distinct (map JobID (job_runs d))"
    "\<And>k jid. job_locks d k = Some jid \<Longrightarrow> \<exists>r \<in> set (job_runs d). JobID r = jid \<and> \<not> terminal (Status r)"
    "\<And>r. r \<in> set (job_runs d) \<Longrightarrow> Status r = JobRunning \<Longrightarrow> job_locks d (LockKey r) = Some (JobID r)"
    by (auto simp: jobs_ok_def)
  have "\<exists>r \<in> set (job_runs d'). JobID r = jid \<and> \<not> terminal (Status r)" if "job_locks d' k = Some jid" for k jid
    using that o(2) [of k jid] by (auto simp: lk runs terminal_def split: if_splits)
  moreover have "job_locks d' (LockKey r) = Some (JobID r)"
    if "r \<in> set (job_runs d')" "Status r = JobRunning" for r
  proof (cases "r \<in> set (job_runs d)")
    case True
    from o(3) [OF this that(2)] free show ?thesis by (auto simp: lk)
  next
    case False
    with that(1) show ?thesis by (auto simp: runs lk)
  qed
  moreover have "distinct (map JobID (job_runs d'))" using o(1) new by (auto simp: runs)
  ultimately show ?thesis unfolding jobs_ok_def by blast
qed

lemma jobs_ok_sweep:
  assumes "jobs_ok d"
  shows "jobs_ok (SweepTerminalJobs cutoff d)"
proof -
  from assms have o: "distinct (map JobID (job_runs d))"
    "\<And>k jid. job_locks d k = Some jid \<Longrightarrow> \<exists>r \<in> set (job_runs d). JobID r = jid \<and> \<not> terminal (Status r)"
    "\<And>r. r \<in> set (job_runs d) \<Longrightarrow> Status r = JobRunning \<Longrightarrow> job_locks d (LockKey r) = Some (JobID r)"
    by (auto simp: jobs_ok_def)
  have "\<exists>r \<in> set (job_runs (SweepTerminalJobs cutoff d)). JobID r = jid \<and> \<not> terminal (Status r)"
    if "job_locks d k = Some jid" for k jid
    using o(2) [OF that] by (auto simp: SweepTerminalJobs_def)
  with o show ?thesis by (simp add: jobs_ok_def SweepTerminalJobs_def distinct_map_filter)
qed

lemma jobs_ok_other [simp]: "jobs_ok (d\<lparr>other := x\<rparr>) = jobs_ok d"
  by (simp add: jobs_ok_def)

lemma jobs_ok_finish:
  assumes "jobs_ok d" and "terminal st" and "FinishJob jid st pct ec em lg cl at hook d = Inr d'"
  shows "jobs_ok d'"
proof -
  let ?f = "\<lambda>j. j\<lparr>Status := st, Progress := pct, ErrorCode := ec, JobError := em, Log := lg, Clean := cl,
    LeaseOwner := None, LeaseUntil := None, FinishedAt := Some at\<rparr>"
  from assms(3) obtain x where d': "d' = (release_locks jid (update_job (\<lambda>j. JobID j = jid) ?f d))\<lparr>other := x\<rparr>"
    by (auto simp: FinishJob_def Let_def split: sum.splits)
  have "jobs_ok (release_locks jid (update_job (\<lambda>j. JobID j = jid) ?f d))"
    using assms(1,2) by (intro jobs_ok_end) simp_all
  then show ?thesis by (simp add: d')
qed

lemma jobs_ok_cancel:
  assumes ok: "jobs_ok d" and "CancelQueuedJob jid now d = (b, d')"
  shows "jobs_ok d'"
proof (cases b)
  case False
  with assms show ?thesis by (auto simp: CancelQueuedJob_def Let_def split: if_splits)
next
  case True
  let ?P = "\<lambda>j. JobID j = jid \<and> Status j = Queued"
  let ?f = "\<lambda>j. j\<lparr>Status := Cancelled, FinishedAt := Some now\<rparr>"
  from True assms(2) have d': "d' = release_locks jid (update_job ?P ?f d)" and q: "\<exists>q \<in> set (job_runs d). ?P q"
    by (auto simp: CancelQueuedJob_def Let_def list_ex_iff split: if_splits)
  from ok have "inj_on JobID (set (job_runs d))" by (simp add: jobs_ok_def distinct_map)
  with q have "\<And>j. j \<in> set (job_runs d) \<Longrightarrow> JobID j = jid \<Longrightarrow> ?P j" by (metis inj_onD)
  then show ?thesis unfolding d' using ok by (intro jobs_ok_end) (auto simp: terminal_def)
qed

lemma jobs_ok_skipped:
  assumes "jobs_ok d" and "RecordSkippedRun j code message now d = Inr d'"
  shows "jobs_ok d'"
proof -
  have d': "d' = d\<lparr>job_runs := job_runs d @ [skipped_row j code message now]\<rparr>" and "\<forall>r \<in> set (job_runs d). JobID r \<noteq> JobID j"
    using assms(2) by (auto simp: RecordSkippedRun_def list_ex_iff split: if_splits)
  then have "distinct (map JobID (job_runs d'))" using assms(1) by (auto simp: jobs_ok_def skipped_row_def)
  moreover have "Status (skipped_row j code message now) = Cancelled" by (simp add: skipped_row_def)
  ultimately show ?thesis using assms(1) unfolding jobs_ok_def d' by auto
qed

lemma jobs_ok_step: "job_step d d' \<Longrightarrow> jobs_ok d \<Longrightarrow> jobs_ok d'"
proof (induction rule: job_step.induct)
  case (renew jid owner until d b d')
  then show ?case by (auto simp: RenewJobLease_def Let_def row_sig_def intro!: jobs_ok_update)
next
  case (progress d jid pct msg)
  then show ?case unfolding UpdateJobProgress_def by (intro jobs_ok_update) (simp_all add: row_sig_def)
next
  case (checkpoint d jid cp)
  then show ?case unfolding UpdateJobCheckpoint_def by (intro jobs_ok_update) (simp_all add: row_sig_def)
next
  case (request_cancel d jid now)
  then show ?case unfolding RequestJobCancel_def by (intro jobs_ok_update) (simp_all add: row_sig_def)
qed (auto intro: jobs_ok_claim jobs_ok_finish jobs_ok_cancel jobs_ok_sweep jobs_ok_skipped)

lemma job_active_holds: "jobs_ok d \<Longrightarrow> job_active d jid key \<Longrightarrow> job_locks d key = Some jid"
  by (auto simp: job_active_def jobs_ok_def)

interpretation ls: lock_service jobs_ok job_step job_active job_locks
  by unfold_locales (fact jobs_ok_step [rotated], fact job_active_holds)

subsection \<open>Properties\<close>

definition empty_jobs :: "'x \<Rightarrow> 'x jobs_db" where
  "empty_jobs x = \<lparr>job_runs = [], job_locks = Map.empty, other = x\<rparr>"

lemma empty_jobs_ok: "jobs_ok (empty_jobs x)"
  by (simp add: jobs_ok_def empty_jobs_def)

definition demo_job :: "string \<Rightarrow> string \<Rightarrow> job" where
  "demo_job jid key = \<lparr>JobID = jid, JobKind = ''start'', Status = Queued, LockKey = key, JobInstance = None,
     InstanceName = [], ScheduleID = None, Scheduled = False, Payload = [], Checkpoint = None,
     ResumeAfter = False, Progress = 0, Message = None, LeaseOwner = None, LeaseUntil = None,
     CancelRequestedAt = None, Clean = None, RequestedBy = None, Attempt = 0, ErrorCode = None,
     JobError = None, Log = None, CreatedAt = 0, StartedAt = None, FinishedAt = None\<rparr>"

lemma demo_claim:
  "ClaimJobWithLocks (demo_job ''j1'' ''instance:i'') [''instance:k''] ''me'' 9 1 Inr (empty_jobs ()) =
   Inr \<lparr>job_runs = [claimed_row (demo_job ''j1'' ''instance:i'') ''me'' 9 1],
        job_locks = [''instance:i'' \<mapsto> ''j1'', ''instance:k'' \<mapsto> ''j1''], other = ()\<rparr>"
  by (simp add: ClaimJobWithLocks_def claim_keys_def empty_jobs_def demo_job_def insort_key_def)

text \<open>C2. One active job per lock key. From an empty table, after any interleaving of claims, lease
  renewals, progress, finishes, cancellations, skipped runs and sweeps, two running jobs with the same lock key are
  the same job, that job holds the key in the lock table, and every held key belongs to a job that has
  not finished.\<close>

theorem one_job_per_lock:
  assumes "job_step\<^sup>*\<^sup>* (empty_jobs x) d"
  shows "(job_active d a key \<and> job_active d b key \<longrightarrow> a = b) \<and>
    (job_active d a key \<longrightarrow> job_locks d key = Some a) \<and>
    (job_locks d key = Some a \<longrightarrow> (\<exists>j \<in> set (job_runs d). JobID j = a \<and> \<not> terminal (Status j)))"
proof -
  note ok = ls.keeps_all [OF assms empty_jobs_ok]
  show ?thesis using ls.exclusive [OF assms empty_jobs_ok] ls.active_holds [OF ok] ok
    unfolding jobs_ok_def by blast
qed

theorem one_job_per_lock_witness:
  "\<exists>d. job_step\<^sup>*\<^sup>* (empty_jobs ()) d \<and> job_active d ''j1'' ''instance:i'' \<and> job_locks d ''instance:i'' = Some ''j1''"
proof -
  from demo_claim obtain d where d: "job_step (empty_jobs ()) d" "job_active d ''j1'' ''instance:i''"
    using job_step.claim [OF demo_claim] by (force simp: job_active_def demo_job_def claimed_row_def)
  then have "job_step\<^sup>*\<^sup>* (empty_jobs ()) d" by blast
  with one_job_per_lock [OF this, of "''j1''" "''instance:i''" "''j1''"] d show ?thesis by blast
qed

text \<open>Why a claim on a consistent table is refused.\<close>

definition refused_because :: "job \<Rightarrow> string list \<Rightarrow> 'x hook \<Rightarrow> 'x jobs_db \<Rightarrow> claim_error \<Rightarrow> bool" where
  "refused_because j ks hook d e \<longleftrightarrow>
     (e = EmptyLockKey \<and> [] \<in> insert (LockKey j) (set ks)) \<or>
     (\<exists>m. e = HookFailed m \<and> hook (other d) = Inl m) \<or>
     (\<exists>r \<in> set (job_runs d). JobID r = JobID j) \<or>
     (\<exists>r \<in> set (job_runs d). \<exists>k \<in> insert (LockKey j) (set ks). e = JobConflict (JobID r) (JobKind r) \<and>
        job_locks d k = Some (JobID r) \<and> \<not> terminal (Status r))"

lemma claim_refused:
  assumes "jobs_ok d" and "ClaimJobWithLocks j ks owner until now hook d = Inl e"
  shows "refused_because j ks hook d e"
proof (cases "acquire (JobID j) (claim_keys j ks) d")
  case a: (Inl e')
  with assms(2) have e: "e' = e" by (simp add: ClaimJobWithLocks_def)
  from acquire_fails [OF a distinct_claim_keys assms(1)] show ?thesis
    unfolding set_claim_keys e refused_because_def by blast
next
  case (Inr d1)
  from acquire_ok [OF this distinct_claim_keys] have "job_runs d1 = job_runs d" "other d1 = other d" by auto
  with assms(2) Inr show ?thesis
    by (cases "hook (other d)") (auto simp: refused_because_def ClaimJobWithLocks_def list_ex_iff split: if_splits)
qed

text \<open>A claim is all or nothing. A successful claim found every one of its keys free, now holds them
  all for the new running job, ran the kind's own change exactly once, and touches no other key or row;
  a refused claim on a consistent table reports an empty key, the hook's failure, a reused job id, or a
  job that has not finished and holds one of the requested keys.\<close>

lemma claim_all_or_nothing:
  assumes "jobs_ok d"
  shows "case ClaimJobWithLocks j ks owner until now hook d of
      Inr d' \<Rightarrow> job_runs d' = job_runs d @ [claimed_row j owner until now] \<and>
        (\<forall>k \<in> insert (LockKey j) (set ks). job_locks d k = None \<and> job_locks d' k = Some (JobID j)) \<and>
        (\<forall>k. k \<notin> insert (LockKey j) (set ks) \<longrightarrow> job_locks d' k = job_locks d k) \<and>
        hook (other d) = Inr (other d')
    | Inl e \<Rightarrow> refused_because j ks hook d e"
  using claim_effect [of j ks owner until now hook d] claim_refused [OF assms]
  by (cases "ClaimJobWithLocks j ks owner until now hook d") auto

lemma claim_all_or_nothing_example:
  "\<exists>d. jobs_ok d \<and> ClaimJobWithLocks (demo_job ''j1'' ''instance:i'') [''instance:k''] ''me'' 9 1 Inr (empty_jobs ())
     = Inr d \<and> job_locks d ''instance:k'' = Some ''j1''"
proof -
  from claim_all_or_nothing [OF empty_jobs_ok [of "()"], where j = "demo_job ''j1'' ''instance:i''" and
    ks = "[''instance:k'']" and owner = "''me''" and until = 9 and now = 1 and hook = Inr]
  have "job_locks (projr (ClaimJobWithLocks (demo_job ''j1'' ''instance:i'') [''instance:k''] ''me'' 9 1 Inr (empty_jobs ())))
     ''instance:k'' = Some (JobID (demo_job ''j1'' ''instance:i''))" unfolding demo_claim by simp
  with jobs_ok_claim [OF empty_jobs_ok demo_claim] show ?thesis unfolding demo_claim
    by (simp add: demo_job_def)
qed

lemma FinishJob_Inr:
  assumes "FinishJob jid st pct ec em lg cl at hook d = Inr d'"
  shows "job_runs d' = map (\<lambda>j. if JobID j = jid then j\<lparr>Status := st, Progress := pct, ErrorCode := ec,
      JobError := em, Log := lg, Clean := cl, LeaseOwner := None, LeaseUntil := None, FinishedAt := Some at\<rparr> else j)
      (job_runs d) \<and>
    job_locks d' = (\<lambda>k. if job_locks d k = Some jid then None else job_locks d k)"
  using assms by (auto simp: FinishJob_def Let_def release_locks_def update_job_def split: sum.splits)

text \<open>Finishing a job ends it for good: its row has the terminal status and no lease, none of its
  locks is held any more while every other lock stays as it was, no lease of it can be renewed by any
  owner, and its keys can be claimed again at once.\<close>

lemma finish_releases:
  assumes "FinishJob jid st pct ec em lg cl at hook d = Inr d'" and "terminal st"
  shows "(\<forall>j \<in> set (job_runs d'). JobID j = jid \<longrightarrow> Status j = st \<and> LeaseOwner j = None) \<and>
    (\<forall>k. job_locks d' k = (if job_locks d k = Some jid then None else job_locks d k)) \<and>
    \<not> fst (RenewJobLease jid owner until d') \<and>
    (jobs_ok d \<and> (\<forall>k \<in> insert (LockKey j) (set ks). k \<noteq> [] \<and> (job_locks d k = Some jid \<or> job_locks d k = None)) \<and>
     (\<forall>r \<in> set (job_runs d). JobID r \<noteq> JobID j) \<longrightarrow>
       (\<exists>d''. ClaimJobWithLocks j ks owner until now Inr d' = Inr d''))"
proof -
  note f = FinishJob_Inr [OF assms(1), THEN conjunct1] and l = FinishJob_Inr [OF assms(1), THEN conjunct2]
  have rows: "\<forall>r \<in> set (job_runs d'). JobID r = jid \<longrightarrow> Status r = st \<and> LeaseOwner r = None"
    unfolding f set_map by (intro ballI impI, elim imageE) (simp split: if_splits)
  moreover have "\<not> fst (RenewJobLease jid owner until d')"
    using rows assms(2) by (auto simp: RenewJobLease_def Let_def list_ex_iff terminal_def)
  moreover have "\<exists>d''. ClaimJobWithLocks j ks owner until now Inr d' = Inr d''"
    if ok: "jobs_ok d" and free: "\<forall>k \<in> insert (LockKey j) (set ks). k \<noteq> [] \<and>
        (job_locks d k = Some jid \<or> job_locks d k = None)" and fresh: "\<forall>r \<in> set (job_runs d). JobID r \<noteq> JobID j"
  proof (cases "ClaimJobWithLocks j ks owner until now Inr d'")
    case (Inl e)
    have "jobs_ok d'" by (rule jobs_ok_finish [OF ok assms(2,1)])
    from claim_refused [OF this Inl] have "refused_because j ks Inr d' e" .
    moreover have "\<forall>r \<in> set (job_runs d'). JobID r \<noteq> JobID j"
    proof -
      have "map JobID (job_runs d') = map JobID (job_runs d)" unfolding f by simp
      then have "JobID ` set (job_runs d') = JobID ` set (job_runs d)" by (metis set_map)
      with fresh show ?thesis by (metis image_iff)
    qed
    moreover have "\<forall>k \<in> insert (LockKey j) (set ks). k \<noteq> [] \<and> job_locks d' k = None" using free unfolding l by auto
    ultimately show ?thesis unfolding refused_because_def by force
  qed blast
  ultimately show ?thesis by (simp add: l)
qed

lemma finish_releases_example:
  "\<exists>(d :: unit jobs_db) d'. FinishJob ''j1'' Succeeded 100 None None None None 5 Inr d = Inr d' \<and>
     job_locks d ''instance:i'' = Some ''j1'' \<and> job_locks d' ''instance:i'' = None"
proof -
  let ?d = "projr (ClaimJobWithLocks (demo_job ''j1'' ''instance:i'') [''instance:k''] ''me'' 9 1 Inr (empty_jobs ()))"
  obtain d' where f: "FinishJob ''j1'' Succeeded 100 None None None None 5 Inr ?d = Inr d'"
    by (simp add: FinishJob_def Let_def)
  have "terminal Succeeded" by (simp add: terminal_def)
  note finish_releases [OF f this]
  then have "\<forall>k. job_locks d' k = (if job_locks ?d k = Some ''j1'' then None else job_locks ?d k)" by blast
  moreover have "job_locks ?d ''instance:i'' = Some ''j1''" unfolding demo_claim by simp
  ultimately have "job_locks d' ''instance:i'' = None" by simp
  with f \<open>job_locks ?d ''instance:i'' = Some ''j1''\<close> show ?thesis by (intro exI conjI)
qed

subsection \<open>Retention\<close>

lemma newest_first_simps [simp]:
  "set (newest_first js) = set js" "length (newest_first js) = length js" "distinct (newest_first js) = distinct js"
  by (simp_all add: newest_first_def)

lemma take_newest:
  assumes "distinct js" and "j \<in> set js" and "card {r \<in> set js. r \<noteq> j \<and> CreatedAt j \<le> CreatedAt r} < n"
  shows "j \<in> set (take n (newest_first js))"
proof -
  let ?xs = "newest_first js"
  from assms(2) obtain p where p: "p < length ?xs" "?xs ! p = j" by (metis in_set_conv_nth newest_first_simps(1))
  have s: "sorted (map (\<lambda>j. - CreatedAt j) ?xs)" by (simp add: newest_first_def)
  have "CreatedAt j \<le> CreatedAt (?xs ! q)" if "q < p" for q
    using sorted_nth_mono [OF s, of q p] that p by simp
  moreover have "?xs ! q \<noteq> j" if "q < p" for q
    using that p assms(1) nth_eq_iff_index_eq [of ?xs q p] by simp
  moreover have "?xs ! q \<in> set js" if "q < p" for q
    using that p(1) nth_mem [of q ?xs] by simp
  moreover have "\<exists>q < p. r = ?xs ! q" if "r \<in> set (take p ?xs)" for r
    using that p(1) by (auto simp: in_set_conv_nth)
  ultimately have "set (take p ?xs) \<subseteq> {r \<in> set js. r \<noteq> j \<and> CreatedAt j \<le> CreatedAt r}" by blast
  then have "card (set (take p ?xs)) \<le> card {r \<in> set js. r \<noteq> j \<and> CreatedAt j \<le> CreatedAt r}"
    by (rule card_mono [rotated]) simp
  with assms(3) have "card (set (take p ?xs)) < n" by simp
  moreover have "card (set (take p ?xs)) = p" using assms(1) p(1) by (subst distinct_card) auto
  ultimately have "p < length (take n ?xs)" "take n ?xs ! p = j" using p by simp_all
  then show ?thesis by (metis nth_mem)
qed

lemma sweep_kept:
  assumes "distinct (map JobID (job_runs d))" and "j \<in> set (job_runs d)" and "terminal (Status j)"
  shows "j \<in> set (job_runs (SweepTerminalJobs cutoff d)) \<longleftrightarrow>
    cutoff \<le> CreatedAt j \<and> j \<in> set (take 500 (partition_rows d (JobInstance j)))"
proof -
  have inj: "inj_on JobID (set (job_runs d))" using assms(1) by (simp add: distinct_map)
  have sub: "set (take 500 (partition_rows d i)) \<subseteq> set (job_runs d)" for i
    using set_take_subset [of 500 "partition_rows d i"] by (auto simp: partition_rows_def)
  have "JobID j \<in> kept_ids cutoff d (JobInstance j) \<longleftrightarrow>
      cutoff \<le> CreatedAt j \<and> j \<in> set (take 500 (partition_rows d (JobInstance j)))"
    unfolding kept_ids_def
    using inj_on_image_mem_iff [OF inj assms(2), of "set (filter (\<lambda>j. cutoff \<le> CreatedAt j)
      (take 500 (partition_rows d (JobInstance j))))"] sub [of "JobInstance j"] by auto
  with assms(2,3) show ?thesis by (simp add: SweepTerminalJobs_def)
qed

text \<open>The retention sweep prunes only what it says. It never removes a job that is queued or running,
  and keeps the rows it keeps unchanged; what it keeps of an instance's finished jobs is within the
  cutoff and at most 500 rows; and a finished job within the cutoff with fewer than 500 others of its
  instance as new as it survives.\<close>

lemma sweep_retention:
  assumes "jobs_ok d"
  shows "(\<forall>j. j \<in> set (job_runs (SweepTerminalJobs cutoff d)) \<longrightarrow> j \<in> set (job_runs d)) \<and>
    (\<forall>j \<in> set (job_runs d). \<not> terminal (Status j) \<longrightarrow> j \<in> set (job_runs (SweepTerminalJobs cutoff d))) \<and>
    (\<forall>j \<in> set (job_runs (SweepTerminalJobs cutoff d)). terminal (Status j) \<longrightarrow> cutoff \<le> CreatedAt j) \<and>
    card {j \<in> set (job_runs (SweepTerminalJobs cutoff d)). terminal (Status j) \<and> JobInstance j = i} \<le> 500 \<and>
    (\<forall>j \<in> set (job_runs d). terminal (Status j) \<and> cutoff \<le> CreatedAt j \<and>
       card {r \<in> set (job_runs d). terminal (Status r) \<and> JobInstance r = JobInstance j \<and> r \<noteq> j \<and>
               CreatedAt j \<le> CreatedAt r} < 500 \<longrightarrow>
       j \<in> set (job_runs (SweepTerminalJobs cutoff d)))"
proof -
  let ?d = "SweepTerminalJobs cutoff d"
  have dist: "distinct (map JobID (job_runs d))" using assms by (simp add: jobs_ok_def)
  then have dj: "distinct (job_runs d)" by (rule distinct_map [THEN iffD1, THEN conjunct1])
  have sub: "j \<in> set (job_runs d)" if "j \<in> set (job_runs ?d)" for j using that by (simp add: SweepTerminalJobs_def)
  note kept = sweep_kept [OF dist]
  have "{j \<in> set (job_runs ?d). terminal (Status j) \<and> JobInstance j = i} \<subseteq> set (take 500 (partition_rows d i))"
    using kept sub by blast
  then have "card {j \<in> set (job_runs ?d). terminal (Status j) \<and> JobInstance j = i} \<le> card (set (take 500 (partition_rows d i)))"
    by (rule card_mono [rotated]) simp
  also have "\<dots> \<le> 500" using card_length [of "take 500 (partition_rows d i)"] by simp
  finally have "card {j \<in> set (job_runs ?d). terminal (Status j) \<and> JobInstance j = i} \<le> 500" .
  moreover have "j \<in> set (job_runs ?d)" if j: "j \<in> set (job_runs d)" "terminal (Status j)" "cutoff \<le> CreatedAt j"
    and c: "card {r \<in> set (job_runs d). terminal (Status r) \<and> JobInstance r = JobInstance j \<and> r \<noteq> j \<and>
               CreatedAt j \<le> CreatedAt r} < 500" for j
  proof -
    let ?js = "filter (\<lambda>r. terminal (Status r) \<and> JobInstance r = JobInstance j) (job_runs d)"
    have "{r \<in> set ?js. r \<noteq> j \<and> CreatedAt j \<le> CreatedAt r} = {r \<in> set (job_runs d). terminal (Status r) \<and>
        JobInstance r = JobInstance j \<and> r \<noteq> j \<and> CreatedAt j \<le> CreatedAt r}" by auto
    with c take_newest [of ?js j 500] dj j have "j \<in> set (take 500 (partition_rows d (JobInstance j)))"
      by (simp add: partition_rows_def)
    with kept j show ?thesis by blast
  qed
  moreover have "j \<in> set (job_runs ?d)" if "j \<in> set (job_runs d)" "\<not> terminal (Status j)" for j
    using that by (simp add: SweepTerminalJobs_def)
  ultimately show ?thesis using kept sub by blast
qed

end
