(* ===== verification/Job_Log.thy ===== *)
theory Job_Log
  imports Job_Store "HOL-Library.Sublist"
begin

text \<open>
  \<open>internal/jobs/log.go\<close>, \<open>handle.go\<close> and \<open>broker.go\<close>: what a running job reports through its handle. The
  log is a tail of bounded size, the progress row is written on every new step and at most once per
  interval within one, and events fan out to the subscribers of the job's topic.
\<close>

subsection \<open>The capped log\<close>

record cappedLog =
  log_cap :: nat
  log_lines :: "string list"
  log_size :: nat
  log_truncated :: bool

definition newCappedLog :: "nat \<Rightarrow> cappedLog" where
  "newCappedLog cap = \<lparr>log_cap = cap, log_lines = [], log_size = 0, log_truncated = False\<rparr>"

text \<open>The loop of \<open>Append\<close>: drop the oldest line while over the cap, but never the last one.\<close>

fun evict :: "nat \<Rightarrow> string list \<Rightarrow> nat \<Rightarrow> bool \<Rightarrow> string list \<times> nat \<times> bool" where
  "evict cap (l # k # ls) sz tr =
     (if cap < sz then evict cap (k # ls) (sz - (length l + 1)) True else (l # k # ls, sz, tr))"
| "evict cap ls sz tr = (ls, sz, tr)"

definition Append :: "string \<Rightarrow> cappedLog \<Rightarrow> cappedLog" where
  "Append line b =
     (case evict (log_cap b) (log_lines b @ [line]) (log_size b + length line + 1) (log_truncated b) of
        (ls, sz, tr) \<Rightarrow> b\<lparr>log_lines := ls, log_size := sz, log_truncated := tr\<rparr>)"

text \<open>The marker starts with an ellipsis, three bytes of UTF-8.\<close>

definition truncation_marker :: string where
  "truncation_marker = [CHR 0xE2, CHR 0x80, CHR 0xA6] @ '' (truncated)'' @ [CHR 0x0A]"

definition render :: "string list \<Rightarrow> string" where
  "render ls = concat (map (\<lambda>l. l @ [CHR 0x0A]) ls)"

definition log_String :: "cappedLog \<Rightarrow> string" where
  "log_String b =
     (if log_lines b = [] then []
      else let out = (if log_truncated b then truncation_marker else []) @ render (log_lines b)
           in if log_cap b < length out then drop (length out - log_cap b) out else out)"

definition logged :: "nat \<Rightarrow> string list \<Rightarrow> cappedLog" where
  "logged cap ls = fold Append ls (newCappedLog cap)"

lemma length_render [simp]: "length (render ls) = sum_list (map (\<lambda>l. length l + 1) ls)"
  by (induction ls) (simp_all add: render_def)

lemma render_append: "render (xs @ ys) = render xs @ render ys"
  by (simp add: render_def)

text \<open>What \<open>evict\<close> leaves: a tail of the lines, the longest that fits unless a single line is left.\<close>

lemma evict_tail:
  assumes "evict cap ls sz tr = (ls', sz', tr')" and "sz = length (render ls)"
  shows "suffix ls' ls \<and> sz' = length (render ls') \<and> (ls \<noteq> [] \<longrightarrow> ls' \<noteq> []) \<and>
    (cap < sz' \<longrightarrow> length ls' \<le> 1) \<and> (tr' \<longleftrightarrow> tr \<or> ls' \<noteq> ls) \<and>
    (ls' \<noteq> ls \<longrightarrow> (\<exists>pre l. ls = pre @ l # ls' \<and> cap < length (render (l # ls'))))"
  using assms
proof (induction cap ls sz tr arbitrary: ls' sz' tr' rule: evict.induct)
  case (1 cap l k ls sz tr)
  show ?case
  proof (cases "cap < sz")
    case False
    with 1 show ?thesis by auto
  next
    case True
    let ?r = "k # ls"
    have e: "evict cap ?r (sz - (length l + 1)) True = (ls', sz', tr')" using 1(2) True by simp
    moreover have "sz - (length l + 1) = length (render ?r)" using 1(3) by simp
    ultimately have IH: "suffix ls' ?r" "sz' = length (render ls')" "ls' \<noteq> []"
      "cap < sz' \<longrightarrow> length ls' \<le> 1" "tr'"
      "ls' \<noteq> ?r \<longrightarrow> (\<exists>pre x. ?r = pre @ x # ls' \<and> cap < length (render (x # ls')))"
      using 1(1) [OF True, of ls' sz' tr'] by auto
    have "\<exists>pre x. l # ?r = pre @ x # ls' \<and> cap < length (render (x # ls'))"
    proof (cases "ls' = ?r")
      case eq: True
      show ?thesis
      proof (intro exI conjI)
        show "l # ?r = [] @ l # ls'" using eq by simp
        show "cap < length (render (l # ls'))" using True 1(3) eq by simp
      qed
    next
      case False
      with IH(6) obtain pre x where p: "?r = pre @ x # ls'" "cap < length (render (x # ls'))" by blast
      show ?thesis
      proof (intro exI conjI)
        show "l # ?r = (l # pre) @ x # ls'" using p(1) by simp
        show "cap < length (render (x # ls'))" by (rule p(2))
      qed
    qed
    moreover have "ls' \<noteq> l # ?r" using IH(1) by (auto dest: suffix_length_le)
    ultimately show ?thesis using IH by (auto intro: suffix_ConsI)
  qed
qed auto

text \<open>The state after any sequence of appends.\<close>

definition tail_of :: "nat \<Rightarrow> string list \<Rightarrow> cappedLog \<Rightarrow> bool" where
  "tail_of cap ls b \<longleftrightarrow> log_cap b = cap \<and> suffix (log_lines b) ls \<and> log_size b = length (render (log_lines b)) \<and>
     (ls \<noteq> [] \<longrightarrow> log_lines b \<noteq> []) \<and> (cap < log_size b \<longrightarrow> length (log_lines b) \<le> 1) \<and>
     (log_truncated b \<longleftrightarrow> log_lines b \<noteq> ls) \<and>
     (log_lines b \<noteq> ls \<longrightarrow> (\<exists>pre l. ls = pre @ l # log_lines b \<and> cap < length (render (l # log_lines b))))"

lemma tail_of_Append:
  assumes t: "tail_of cap ls b"
  shows "tail_of cap (ls @ [line]) (Append line b)"
proof -
  obtain ls' sz' tr' where e: "evict cap (log_lines b @ [line]) (log_size b + length line + 1) (log_truncated b)
      = (ls', sz', tr')" by (metis prod_cases3)
  have b': "Append line b = b\<lparr>log_lines := ls', log_size := sz', log_truncated := tr'\<rparr>"
    using e t by (simp add: Append_def tail_of_def)
  have "log_size b + length line + 1 = length (render (log_lines b @ [line]))"
    using t by (simp add: tail_of_def render_append)
  note E = evict_tail [OF e this]
  from t obtain z where z: "ls = z @ log_lines b" by (auto simp: tail_of_def suffix_def)
  have suf: "suffix ls' (ls @ [line])" using E z by (auto simp: suffix_def)
  have more: "\<exists>pre l. ls @ [line] = pre @ l # ls' \<and> cap < length (render (l # ls'))" if "ls' \<noteq> ls @ [line]"
  proof (cases "ls' = log_lines b @ [line]")
    case True
    with that have "log_lines b \<noteq> ls" by auto
    with t obtain pre l where p: "ls = pre @ l # log_lines b" "cap < length (render (l # log_lines b))"
      by (auto simp: tail_of_def)
    then have "ls @ [line] = pre @ l # ls'" "cap < length (render (l # ls'))" by (simp_all add: True)
    then show ?thesis by blast
  next
    case False
    with E obtain pre l where "log_lines b @ [line] = pre @ l # ls'" "cap < length (render (l # ls'))" by blast
    then have "ls @ [line] = (z @ pre) @ l # ls'" "cap < length (render (l # ls'))" using z by simp_all
    then show ?thesis by blast
  qed
  have "tr' \<longleftrightarrow> ls' \<noteq> ls @ [line]"
  proof (cases "log_lines b = ls")
    case True
    with E t show ?thesis by (simp add: tail_of_def)
  next
    case False
    with t have "log_truncated b" by (simp add: tail_of_def)
    moreover have "length ls' < length (ls @ [line])"
      using E False z suffix_length_le [of ls' "log_lines b @ [line]"] by (cases z) auto
    then have "ls' \<noteq> ls @ [line]" by auto
    ultimately show ?thesis using E by simp
  qed
  moreover have "log_cap b = cap" using t by (simp add: tail_of_def)
  ultimately show ?thesis using E suf more unfolding tail_of_def b' by simp
qed

lemma tail_of_logged: "tail_of cap ls (logged cap ls)"
proof (induction ls rule: rev_induct)
  case Nil
  then show ?case by (simp add: tail_of_def logged_def newCappedLog_def)
next
  case (snoc l ls)
  then show ?case using tail_of_Append by (simp add: logged_def)
qed

lemma length_log_String: "length (log_String b) \<le> log_cap b"
proof -
  have "length (if c < length out then drop (length out - c) out else out) \<le> c" for c and out :: string by simp
  then show ?thesis by (simp add: log_String_def Let_def del: length_append)
qed

lemma suffix_log_String:
  "suffix (log_String b) ((if log_truncated b then truncation_marker else []) @ render (log_lines b))"
  unfolding log_String_def Let_def using suffix_drop by (auto simp del: drop_append length_append)

text \<open>A job's log is its tail, bounded. Whatever is logged, the kept lines are the last ones, at
  least one of them once anything was logged; as many are kept as fit, since the next older line would
  exceed the cap; the truncation marker is shown exactly when a line was dropped; and the stored text
  is a suffix of the marked rendering and never longer than the cap.\<close>

lemma capped_log_tail:
  "suffix (log_lines (logged cap ls)) ls \<and> (ls \<noteq> [] \<longrightarrow> log_lines (logged cap ls) \<noteq> []) \<and>
   (log_truncated (logged cap ls) \<longleftrightarrow> log_lines (logged cap ls) \<noteq> ls) \<and>
   (log_lines (logged cap ls) \<noteq> ls \<longrightarrow>
      (\<exists>pre l. ls = pre @ l # log_lines (logged cap ls) \<and> cap < length (render (l # log_lines (logged cap ls))))) \<and>
   length (log_String (logged cap ls)) \<le> cap \<and>
   suffix (log_String (logged cap ls))
     ((if log_truncated (logged cap ls) then truncation_marker else []) @ render (log_lines (logged cap ls)))"
proof -
  note t = tail_of_logged [of cap ls, unfolded tail_of_def]
  have "length (log_String (logged cap ls)) \<le> cap" using length_log_String [of "logged cap ls"] t by simp
  moreover have "suffix (log_String (logged cap ls))
     ((if log_truncated (logged cap ls) then truncation_marker else []) @ render (log_lines (logged cap ls)))"
    by (rule suffix_log_String)
  ultimately show ?thesis using t by blast
qed

lemma capped_log_tail_example:
  "log_lines (logged 8 [''one'', ''two'', ''three'']) \<noteq> [] \<and>
   length (log_String (logged 8 [''one'', ''two'', ''three''])) \<le> 8"
  using capped_log_tail [of 8 "[''one'', ''two'', ''three'']"] by simp

subsection \<open>The broker\<close>

record event =
  EvJob :: string
  EvStatus :: "job_status option"
  EvProgress :: int
  EvMessage :: string
  EvLine :: string

text \<open>Subscribers are numbered; the numbers of one topic are the keys of an inner map, and an empty inner
  map is removed.\<close>

record broker =
  next_sub :: nat
  subs :: "string \<Rightarrow> nat list"

definition newBroker :: broker where
  "newBroker = \<lparr>next_sub = 0, subs = (\<lambda>_. [])\<rparr>"

definition Subscribe :: "string \<Rightarrow> broker \<Rightarrow> nat \<times> broker" where
  "Subscribe jid b =
     (let n = Suc (next_sub b)
      in (n, b\<lparr>next_sub := n, subs := (subs b)(jid := subs b jid @ [n])\<rparr>))"

definition Unsubscribe :: "string \<Rightarrow> nat \<Rightarrow> broker \<Rightarrow> broker" where
  "Unsubscribe jid n b = b\<lparr>subs := (subs b)(jid := removeAll n (subs b jid))\<rparr>"

text \<open>The calls \<open>publish\<close> makes, one per subscriber of the topic.\<close>

definition publish :: "string \<Rightarrow> event \<Rightarrow> broker \<Rightarrow> (nat \<times> event) list" where
  "publish jid ev b = map (\<lambda>n. (n, ev)) (subs b jid)"

subsection \<open>The handle\<close>

record handle =
  h_job :: string
  h_progress :: int
  h_message :: string
  lastWriteAt :: int
  lastWriteP :: int
  lastWriteM :: string
  h_log :: cappedLog

text \<open>A fresh handle has Go's zero time, before any clock reading.\<close>

definition newHandle :: "string \<Rightarrow> nat \<Rightarrow> int \<Rightarrow> handle" where
  "newHandle jid cap zero = \<lparr>h_job = jid, h_progress = 0, h_message = [], lastWriteAt = zero, lastWriteP = 0,
     lastWriteM = [], h_log = newCappedLog cap\<rparr>"

definition report_progress ::
  "int \<Rightarrow> int \<Rightarrow> int \<Rightarrow> string \<Rightarrow> handle \<times> 'x jobs_db \<Rightarrow> handle \<times> 'x jobs_db" where
  "report_progress interval now pct message hd' =
     (case hd' of (h, d) \<Rightarrow>
        let stepped = (message \<noteq> lastWriteM h);
            moved = (pct \<noteq> lastWriteP h \<and> interval \<le> now - lastWriteAt h);
            h1 = h\<lparr>h_progress := pct, h_message := message\<rparr>
        in if stepped \<or> moved
           then (h1\<lparr>lastWriteP := pct, lastWriteM := message, lastWriteAt := now\<rparr>,
                 UpdateJobProgress (h_job h) pct message d)
           else (h1, d))"

definition report_log :: "string \<Rightarrow> handle \<Rightarrow> handle" where
  "report_log line h = h\<lparr>h_log := Append line (h_log h)\<rparr>"

definition CancelRequested :: "handle \<Rightarrow> 'x jobs_db \<Rightarrow> bool" where
  "CancelRequested h d = (case JobByID (h_job h) d of None \<Rightarrow> False | Some j \<Rightarrow> CancelRequestedAt j \<noteq> None)"

definition snapshot :: "handle \<Rightarrow> int \<times> string \<times> string" where
  "snapshot h = (h_progress h, h_message h, log_String (h_log h))"

text \<open>What the row shows of a job after its reports: the message of its latest step.\<close>

definition in_step :: "handle \<Rightarrow> 'x jobs_db \<Rightarrow> bool" where
  "in_step h d \<longleftrightarrow> h_message h = lastWriteM h \<and>
     (\<forall>j \<in> set (job_runs d). JobID j = h_job h \<longrightarrow> Message j = Some (lastWriteM h) \<and> Progress j = lastWriteP h)"

lemma UpdateJobProgress_rows:
  assumes "r \<in> set (job_runs (UpdateJobProgress jid pct msg d))" and "JobID r = jid"
  shows "Message r = Some msg \<and> Progress r = pct"
proof -
  from assms(1) have "r \<in> (\<lambda>j. if JobID j = jid then j\<lparr>Progress := pct, Message := Some msg\<rparr> else j) ` set (job_runs d)"
    by (simp only: UpdateJobProgress_def job_runs_update_job set_map)
  then obtain j where "r = (if JobID j = jid then j\<lparr>Progress := pct, Message := Some msg\<rparr> else j)"
    by (rule imageE)
  with assms(2) show ?thesis by (simp split: if_splits)
qed

fun reports :: "int \<Rightarrow> (int \<times> int \<times> string) list \<Rightarrow> handle \<times> 'x jobs_db \<Rightarrow> handle \<times> 'x jobs_db" where
  "reports interval [] s = s"
| "reports interval ((now, pct, msg) # rs) s = reports interval rs (report_progress interval now pct msg s)"

lemma report_keeps_step:
  assumes "in_step h d" and "report_progress interval now pct msg (h, d) = (h', d')"
  shows "in_step h' d' \<and> h_message h' = msg \<and> h_job h' = h_job h"
  using assms UpdateJobProgress_rows [of _ "h_job h" pct msg d]
  by (auto simp: report_progress_def in_step_def Let_def split: if_splits)

lemma report_new_step:
  assumes "msg \<noteq> lastWriteM h" and "report_progress interval now pct msg (h, d) = (h', d')"
  shows "in_step h' d' \<and> h_message h' = msg \<and> h_job h' = h_job h"
  using assms UpdateJobProgress_rows [of _ "h_job h" pct msg d]
  by (auto simp: report_progress_def in_step_def Let_def)

lemma reports_keep_step:
  "in_step h d \<Longrightarrow> reports interval rs (h, d) = (h', d') \<Longrightarrow> in_step h' d' \<and> h_job h' = h_job h \<and>
   h_message h' = (if rs = [] then h_message h else snd (snd (last rs)))"
proof (induction interval rs "(h, d)" arbitrary: h d rule: reports.induct)
  case (2 interval now pct msg rs)
  obtain h1 d1 where r: "report_progress interval now pct msg (h, d) = (h1, d1)" by force
  from report_keeps_step [OF 2(2) r] have s: "in_step h1 d1" "h_message h1 = msg" "h_job h1 = h_job h" by auto
  from 2(1) [OF r s(1)] 2(3) r s(2,3) show ?case by simp
qed simp

text \<open>Throttling never hides a step. After a job has reported a first non-empty step and any further
  reports, however close together, its row carries the message of the latest report; only a percentage
  within one step may lag behind.\<close>

lemma progress_shows_latest_step:
  assumes "reports interval ((t, p, m) # rs) (newHandle jid cap zero, d) = (h, d')" and "m \<noteq> []"
    and "j \<in> set (job_runs d')" and "JobID j = jid"
  shows "Message j = Some (snd (snd (last ((t, p, m) # rs)))) \<and> Message j = Some (h_message h)"
proof -
  obtain h1 d1 where r: "report_progress interval t p m (newHandle jid cap zero, d) = (h1, d1)" by force
  have "m \<noteq> lastWriteM (newHandle jid cap zero)" using assms(2) by (simp add: newHandle_def)
  from report_new_step [OF this r] have s: "in_step h1 d1" "h_message h1 = m" "h_job h1 = jid"
    by (auto simp: newHandle_def)
  from reports_keep_step [OF s(1), of interval rs h d'] assms(1) r s(2,3) have
    "in_step h d'" "h_job h = jid" "h_message h = snd (snd (last ((t, p, m) # rs)))" by auto
  with assms(3,4) show ?thesis by (auto simp: in_step_def)
qed

end
