(* ===== verification/Job_Engine.thy ===== *)
theory Job_Engine
  imports Job_Log "HOL-Library.Word"
begin

text \<open>
  \<open>internal/jobs/engine.go\<close> and \<open>cancel.go\<close>, the boot-time sweep of \<open>internal/instance/control/supervisor.go\<close> with the
  submission of \<open>update_check.go\<close> it repeats, and the daemon lease of \<open>internal/store/lease.go\<close>. A worker's goroutine is two steps here: the claim
  (\<open>Submit\<close>) and the finish (\<open>finish_run\<close>) with the outcome its runner returned. A hook is a function on the
  rows outside the job tables. Free disk space is a 64-bit word, as the source reads it.
\<close>

subsection \<open>The engine\<close>

type_synonym cancel_policy = "string \<Rightarrow> bool \<times> string"

record config =
  FreeSpace :: "(string + 64 word) option"
  FreeSpaceFloor :: "64 word"
  LeaseTTL :: int

record 'x engine =
  edb :: "'x jobs_db"
  eowner :: string
  cfg :: config
  policies :: "string \<rightharpoonup> cancel_policy"
  draining :: bool
  stopped_engine :: bool
  running_handles :: "string set"
  woken :: "string set"
  announcements :: "string list"
  engine_events :: "(string \<times> job_status) list"

datatype engine_error =
    ErrJobNotFound
  | ErrJobTerminal
  | ErrShuttingDown
  | LowDiskError "64 word" "64 word"
  | ErrFreeSpace string
  | ErrNotCancellable string
  | ErrConflict string string
  | ErrClaim claim_error

definition checkDiskRoom :: "config \<Rightarrow> kind \<Rightarrow> engine_error option" where
  "checkDiskRoom c k =
     (if FreeSpace c = None \<or> \<not> NeedsDiskRoom k then None
      else case the (FreeSpace c) of
             Inl e \<Rightarrow> Some (ErrFreeSpace e)
           | Inr free \<Rightarrow> if free < FreeSpaceFloor c then Some (LowDiskError free (FreeSpaceFloor c)) else None)"

record 'x spec =
  SKind :: kind
  SLockKey :: string
  SLockKeys :: "string list"
  SInstance :: "string option"
  SInstanceName :: string
  SPayload :: string
  SRequestedBy :: string
  SScheduleID :: string
  SResumeAfter :: bool
  OnClaim :: "'x hook option"
  SAudit :: "(string \<Rightarrow> 'x hook) option"

text \<open>A hook that may be nil, and two of them in order.\<close>

definition run_hook :: "'x hook option \<Rightarrow> 'x hook" where
  "run_hook h = (case h of None \<Rightarrow> Inr | Some f \<Rightarrow> f)"

definition seq_hooks :: "'x hook \<Rightarrow> 'x hook \<Rightarrow> 'x hook" where
  "seq_hooks f g = (\<lambda>x. rbind (f x) g)"

definition claimHook :: "'x spec \<Rightarrow> string \<Rightarrow> 'x hook" where
  "claimHook sp jobID =
     (case SAudit sp of
        None \<Rightarrow> run_hook (OnClaim sp)
      | Some audit \<Rightarrow> seq_hooks (run_hook (OnClaim sp)) (audit jobID))"

definition announced :: "string option \<Rightarrow> 'x engine \<Rightarrow> 'x engine" where
  "announced i e =
     (case i of
        None \<Rightarrow> e
      | Some iid \<Rightarrow> if iid = [] then e else e\<lparr>announcements := announcements e @ [iid]\<rparr>)"

definition some_unless_empty :: "string \<Rightarrow> string option" where
  "some_unless_empty s = (if s = [] then None else Some s)"

definition new_job :: "string \<Rightarrow> 'x spec \<Rightarrow> job" where
  "new_job jobID sp = \<lparr>JobID = jobID, JobKind = kind_name (SKind sp), Status = Queued, LockKey = SLockKey sp,
     JobInstance = SInstance sp, InstanceName = SInstanceName sp, ScheduleID = some_unless_empty (SScheduleID sp),
     Scheduled = False, Payload = SPayload sp, Checkpoint = None, ResumeAfter = SResumeAfter sp, Progress = 0,
     Message = None, LeaseOwner = None, LeaseUntil = None, CancelRequestedAt = None, Clean = None,
     RequestedBy = some_unless_empty (SRequestedBy sp), Attempt = 0, ErrorCode = None, JobError = None,
     Log = None, CreatedAt = 0, StartedAt = None, FinishedAt = None\<rparr>"

text \<open>\<open>jobID\<close> is the fresh id the store mints; \<open>now\<close> the clock.\<close>

definition Submit ::
  "'x spec \<Rightarrow> string \<Rightarrow> int \<Rightarrow> 'x engine \<Rightarrow> engine_error + 'x engine" where
  "Submit sp jobID now e =
     (case checkDiskRoom (cfg e) (SKind sp) of
        Some err \<Rightarrow> Inl err
      | None \<Rightarrow>
          if draining e then Inl ErrShuttingDown
          else case ClaimJobWithLocks (new_job jobID sp) (SLockKeys sp) (eowner e) (now + LeaseTTL (cfg e)) now
                      (claimHook sp jobID) (edb e) of
                 Inl (JobConflict h k) \<Rightarrow> Inl (ErrConflict h k)
               | Inl err \<Rightarrow> Inl (ErrClaim err)
               | Inr d \<Rightarrow> Inr (announced (SInstance sp)
                            (e\<lparr>edb := d, running_handles := insert jobID (running_handles e)\<rparr>)))"

record 'x outcome =
  OStatus :: job_status
  OErrorCode :: string
  OError :: string
  OClean :: "bool option"
  OnFinish :: "'x hook option"

definition PrependFinish :: "'x hook option \<Rightarrow> 'x outcome \<Rightarrow> 'x outcome" where
  "PrependFinish first o' =
     (case first of
        None \<Rightarrow> o'
      | Some f \<Rightarrow> o'\<lparr>OnFinish := Some (seq_hooks f (run_hook (OnFinish o')))\<rparr>)"

text \<open>\<open>hooked\<close>: the engine's finish hook runs after the job's own.\<close>

definition hooked :: "'x hook option \<Rightarrow> 'x outcome \<Rightarrow> 'x outcome" where
  "hooked hook o' =
     (case hook of
        None \<Rightarrow> o'
      | Some h \<Rightarrow> o'\<lparr>OnFinish := Some (seq_hooks (run_hook (OnFinish o')) h)\<rparr>)"

text \<open>The end of \<open>run\<close>: an engine that is shutting down and a lost lease both leave the row alone.\<close>

definition finish_run ::
  "handle \<Rightarrow> string option \<Rightarrow> bool \<Rightarrow> 'x outcome \<Rightarrow> int \<Rightarrow> 'x engine \<Rightarrow> 'x engine" where
  "finish_run h i leaseLost o' now e =
     (let jobID = h_job h;
          e1 = e\<lparr>running_handles := running_handles e - {jobID}\<rparr>
      in if stopped_engine e \<or> leaseLost then e1
         else case snapshot h of (pct, _, log) \<Rightarrow>
           (case FinishJob jobID (OStatus o') pct (some_unless_empty (OErrorCode o'))
                   (some_unless_empty (OError o')) (some_unless_empty log) (OClean o') now
                   (run_hook (OnFinish o')) (edb e) of
              Inl err \<Rightarrow> e1
            | Inr d \<Rightarrow> announced i
                (e1\<lparr>edb := d, engine_events := engine_events e @ [(jobID, OStatus o')]\<rparr>)))"

text \<open>One tick of \<open>renewLease\<close>; the boolean is that the lease is still ours.\<close>

definition renew_tick :: "string \<Rightarrow> int \<Rightarrow> 'x engine \<Rightarrow> bool \<times> 'x engine" where
  "renew_tick jobID now e =
     (case RenewJobLease jobID (eowner e) (now + LeaseTTL (cfg e)) (edb e) of (ok, d) \<Rightarrow> (ok, e\<lparr>edb := d\<rparr>))"

definition wakeCancel :: "string \<Rightarrow> 'x engine \<Rightarrow> 'x engine" where
  "wakeCancel jobID e = (if jobID \<in> running_handles e then e\<lparr>woken := insert jobID (woken e)\<rparr> else e)"

definition RegisterCancelPolicy :: "kind \<Rightarrow> cancel_policy \<Rightarrow> 'x engine \<Rightarrow> 'x engine" where
  "RegisterCancelPolicy k p e = e\<lparr>policies := (policies e)(kind_name k \<mapsto> p)\<rparr>"

definition Cancel :: "string \<Rightarrow> int \<Rightarrow> 'x engine \<Rightarrow> engine_error + 'x engine" where
  "Cancel jobID now e =
     (case JobByID jobID (edb e) of
        None \<Rightarrow> Inl ErrJobNotFound
      | Some j \<Rightarrow>
          (case Status j of
             Queued \<Rightarrow>
               (case CancelQueuedJob jobID now (edb e) of
                  (ok, d) \<Rightarrow> if \<not> ok then Inl ErrJobTerminal
                    else Inr (e\<lparr>edb := d, engine_events := engine_events e @ [(jobID, Cancelled)]\<rparr>))
           | JobRunning \<Rightarrow>
               (case policies e (JobKind j) of
                  None \<Rightarrow> Inl (ErrNotCancellable ''running'')
                | Some policy \<Rightarrow>
                    (case policy (case Checkpoint j of None \<Rightarrow> [] | Some c \<Rightarrow> c) of
                       (cancellable, phase) \<Rightarrow>
                         if \<not> cancellable then Inl (ErrNotCancellable phase)
                         else Inr (wakeCancel jobID (e\<lparr>edb := RequestJobCancel jobID now (edb e)\<rparr>))))
           | _ \<Rightarrow> Inl ErrJobTerminal))"

text \<open>\<open>Shutdown\<close> stops accepting work first, and cancels the workers' context once they are done or its
  deadline has passed; workers may finish in between.\<close>

definition Shutdown_drain :: "'x engine \<Rightarrow> 'x engine" where
  "Shutdown_drain e = e\<lparr>draining := True\<rparr>"

definition Shutdown_cancel :: "'x engine \<Rightarrow> 'x engine" where
  "Shutdown_cancel e = e\<lparr>stopped_engine := True\<rparr>"

subsection \<open>The boot-time sweep\<close>

definition interrupted_message :: string where
  "interrupted_message = ''The panel stopped while this job was running.''"

text \<open>Closing out one dead job; no hook runs, so the finish cannot fail.\<close>

definition close_dead :: "int \<Rightarrow> job \<Rightarrow> 'x jobs_db \<Rightarrow> 'x jobs_db" where
  "close_dead now j d =
     projr (FinishJob (JobID j) JobFailed (Progress j) (Some ''interrupted'') (Some interrupted_message)
              (Log j) (Clean j) now Inr d)"

definition owes_resume :: "job \<Rightarrow> string list" where
  "owes_resume j =
     (case JobInstance j of
        None \<Rightarrow> []
      | Some i \<Rightarrow> if ResumeAfter j \<and> (\<exists>k \<in> set_option (ByName (JobKind j)). resumeIntentHonoured k) then [i] else [])"

text \<open>\<open>sweepStaging\<close> hands a dead job to the cleaner of its kind. A cleaner changes the rows and files outside
  the job tables only; those of the mod jobs are \<open>SweepModInstall\<close>, \<open>SweepModUninstall\<close> and \<open>SweepModToggle\<close> of
  the mod theories, and all of them are an argument here.\<close>

definition staged_kinds :: "kind list" where
  "staged_kinds = [KindWorldImport, KindModInstall, KindModUninstall, KindModToggle, KindBackup, KindRestore,
     KindGameUpdate, KindClone, KindSetupSave, KindSetupRestore, KindExport]"

definition sweepStaging :: "(kind \<Rightarrow> job \<Rightarrow> 'x \<Rightarrow> 'x) \<Rightarrow> job \<Rightarrow> 'x \<Rightarrow> 'x" where
  "sweepStaging cleaner j x =
     (case find (\<lambda>k. kind_name k = JobKind j) staged_kinds of None \<Rightarrow> x | Some k \<Rightarrow> cleaner k j x)"

text \<open>\<open>UpdateChecker.Submit\<close>; the payload is the empty struct.\<close>

definition update_check_spec :: "string \<Rightarrow> 'x spec" where
  "update_check_spec scheduleID =
     \<lparr>SKind = KindUpdateCheck, SLockKey = GlobalLockKey KindUpdateCheck, SLockKeys = [], SInstance = None,
      SInstanceName = [], SPayload = ''{}'', SRequestedBy = [], SScheduleID = scheduleID, SResumeAfter = False,
      OnClaim = None, SAudit = None\<rparr>"

definition UpdateCheck_Submit :: "string \<Rightarrow> string \<Rightarrow> int \<Rightarrow> 'x engine \<Rightarrow> engine_error + 'x engine" where
  "UpdateCheck_Submit scheduleID = Submit (update_check_spec scheduleID)"

definition deref :: "string option \<Rightarrow> string" where
  "deref s = (case s of None \<Rightarrow> [] | Some t \<Rightarrow> t)"

definition resubmitted :: "job \<Rightarrow> bool" where
  "resubmitted j \<longleftrightarrow> ByName (JobKind j) = Some KindUpdateCheck \<and> JobInstance j = None"

text \<open>The loop of \<open>Sweep\<close>. \<open>fresh\<close> gives the id the store mints for the job that replaces a dead one; a refused
  resubmission ends the sweep there, with what it did so far in the tables. The worker of a resubmitted
  job is a later step, as for every \<open>Submit\<close>.\<close>

fun sweep_jobs ::
  "(kind \<Rightarrow> job \<Rightarrow> 'x \<Rightarrow> 'x) \<Rightarrow> (string \<Rightarrow> string) \<Rightarrow> int \<Rightarrow> job list \<Rightarrow> string list \<Rightarrow> 'x engine \<Rightarrow>
   (engine_error + string list) \<times> 'x engine" where
  "sweep_jobs cleaner fresh now [] resume e = (Inr resume, e)"
| "sweep_jobs cleaner fresh now (j # js) resume e =
     (let d = close_dead now j (edb e);
          e1 = e\<lparr>edb := d\<lparr>other := sweepStaging cleaner j (other d)\<rparr>\<rparr>
      in if resubmitted j
         then case UpdateCheck_Submit (deref (ScheduleID j)) (fresh (JobID j)) now e1 of
                Inl err \<Rightarrow> (Inl err, e1)
              | Inr e2 \<Rightarrow> sweep_jobs cleaner fresh now js (resume @ owes_resume j) e2
         else sweep_jobs cleaner fresh now js (resume @ owes_resume j) e1)"

definition Sweep ::
  "(kind \<Rightarrow> job \<Rightarrow> 'x \<Rightarrow> 'x) \<Rightarrow> (string \<Rightarrow> string) \<Rightarrow> int \<Rightarrow> 'x engine \<Rightarrow>
   (engine_error + string list) \<times> 'x engine" where
  "Sweep cleaner fresh now e = sweep_jobs cleaner fresh now (StaleJobs (eowner e) (edb e)) [] e"

subsection \<open>The daemon lease\<close>

record lease =
  LOwner :: string
  LExpires :: int

definition claim_lease :: "string \<Rightarrow> int \<Rightarrow> int \<Rightarrow> lease option \<Rightarrow> bool \<times> lease option" where
  "claim_lease owner ttl now cur =
     (case cur of
        Some l \<Rightarrow> if LOwner l \<noteq> owner \<and> now < LExpires l then (False, cur)
                  else (True, Some \<lparr>LOwner = owner, LExpires = now + ttl\<rparr>)
      | None \<Rightarrow> (True, Some \<lparr>LOwner = owner, LExpires = now + ttl\<rparr>))"

definition Release :: "string \<Rightarrow> lease option \<Rightarrow> lease option" where
  "Release owner cur = (case cur of Some l \<Rightarrow> if LOwner l \<noteq> owner then cur else None | None \<Rightarrow> None)"

subsection \<open>Crash recovery\<close>

lemma close_dead_eq: "FinishJob (JobID j) JobFailed (Progress j) (Some ''interrupted'') (Some interrupted_message)
   (Log j) (Clean j) now Inr d = Inr (close_dead now j d)"
  by (simp add: close_dead_def FinishJob_def Let_def)

lemma close_dead_runs:
  "job_runs (close_dead now j d) = map (\<lambda>r. if JobID r = JobID j then r\<lparr>Status := JobFailed, Progress := Progress j,
      ErrorCode := Some ''interrupted'', JobError := Some interrupted_message, Log := Log j, Clean := Clean j,
      LeaseOwner := None, LeaseUntil := None, FinishedAt := Some now\<rparr> else r) (job_runs d)"
  using FinishJob_Inr [OF close_dead_eq] by blast

lemma close_dead_locks:
  "job_locks (close_dead now j d) k = (if job_locks d k = Some (JobID j) then None else job_locks d k)"
  using FinishJob_Inr [OF close_dead_eq, of now j d] by simp

lemma jobs_ok_close_dead: "jobs_ok d \<Longrightarrow> jobs_ok (close_dead now j d)"
  by (rule jobs_ok_finish [OF _ _ close_dead_eq]) (simp_all add: terminal_def)

text \<open>A row once closed out, and the row of a resubmitted check.\<close>

definition closed_row :: "int \<Rightarrow> job \<Rightarrow> job" where
  "closed_row now r = r\<lparr>Status := JobFailed, ErrorCode := Some ''interrupted'', JobError := Some interrupted_message,
     LeaseOwner := None, LeaseUntil := None, FinishedAt := Some now\<rparr>"

definition recheck_row :: "(string \<Rightarrow> string) \<Rightarrow> int \<Rightarrow> 'x engine \<Rightarrow> job \<Rightarrow> job" where
  "recheck_row fresh now e j =
     claimed_row (new_job (fresh (JobID j)) (update_check_spec (deref (ScheduleID j)) :: 'x spec))
       (eowner e) (now + LeaseTTL (cfg e)) now"

lemma closed_row_simps [simp]:
  "JobID (closed_row now r) = JobID r" "LockKey (closed_row now r) = LockKey r"
  "Status (closed_row now r) = JobFailed" "ErrorCode (closed_row now r) = Some ''interrupted''"
  by (simp_all add: closed_row_def)

lemma recheck_row_simps [simp]:
  "JobID (recheck_row fresh now e j) = fresh (JobID j)" "Status (recheck_row fresh now e j) = JobRunning"
  "LockKey (recheck_row fresh now e j) = GlobalLockKey KindUpdateCheck"
  by (simp_all add: recheck_row_def new_job_def update_check_spec_def)

lemma recheck_row_cong:
  fixes e f :: "'x engine"
  shows "eowner e = eowner f \<Longrightarrow> cfg e = cfg f \<Longrightarrow> recheck_row fresh now e = recheck_row fresh now f"
  by (simp add: recheck_row_def fun_eq_iff)

lemma close_dead_own:
  assumes "jobs_ok d" and "j \<in> set (job_runs d)"
  shows "job_runs (close_dead now j d) = map (\<lambda>r. if JobID r = JobID j then closed_row now r else r) (job_runs d)"
  unfolding close_dead_runs
proof (rule map_cong [OF HOL.refl])
  fix r
  assume r: "r \<in> set (job_runs d)"
  show "(if JobID r = JobID j then r\<lparr>Status := JobFailed, Progress := Progress j,
      ErrorCode := Some ''interrupted'', JobError := Some interrupted_message, Log := Log j, Clean := Clean j,
      LeaseOwner := None, LeaseUntil := None, FinishedAt := Some now\<rparr> else r) =
      (if JobID r = JobID j then closed_row now r else r)"
  proof (cases "JobID r = JobID j")
    case True
    with assms r have "r = j" by (auto simp: jobs_ok_def distinct_map dest: inj_onD)
    then show ?thesis by (simp add: closed_row_def)
  qed simp
qed

lemma no_disk_room_needed: "checkDiskRoom c KindUpdateCheck = None"
  by (simp add: checkDiskRoom_def NeedsDiskRoom_def)

lemma UpdateCheck_Submit_Inr:
  assumes "UpdateCheck_Submit (deref (ScheduleID j)) (fresh (JobID j)) now e = Inr e'"
  shows "job_runs (edb e') = job_runs (edb e) @ [recheck_row fresh now e j] \<and>
    job_locks (edb e') = (job_locks (edb e))(GlobalLockKey KindUpdateCheck \<mapsto> fresh (JobID j)) \<and>
    (\<forall>r \<in> set (job_runs (edb e)). JobID r \<noteq> fresh (JobID j)) \<and> eowner e' = eowner e \<and> cfg e' = cfg e \<and>
    draining e' = draining e \<and> (jobs_ok (edb e) \<longrightarrow> jobs_ok (edb e'))"
proof -
  let ?sp = "update_check_spec (deref (ScheduleID j)) :: 'a spec"
  from assms obtain d where c: "ClaimJobWithLocks (new_job (fresh (JobID j)) ?sp) [] (eowner e)
      (now + LeaseTTL (cfg e)) now (claimHook ?sp (fresh (JobID j))) (edb e) = Inr d"
    and e': "e' = e\<lparr>edb := d, running_handles := insert (fresh (JobID j)) (running_handles e)\<rparr>"
    by (auto simp: UpdateCheck_Submit_def Submit_def update_check_spec_def announced_def
        split: option.splits if_splits sum.splits claim_error.splits)
  from claim_effect [OF c] jobs_ok_claim [OF _ c] show ?thesis
    unfolding e' by (simp add: recheck_row_def new_job_def update_check_spec_def fun_eq_iff)
qed

text \<open>What a sweep leaves of the job tables when it closed out \<open>js\<close> and resubmitted \<open>cs\<close> of them.\<close>

definition swept :: "(string \<Rightarrow> string) \<Rightarrow> int \<Rightarrow> 'x engine \<Rightarrow> job list \<Rightarrow> job list \<Rightarrow> 'x engine \<Rightarrow> bool" where
  "swept fresh now e js cs e' \<longleftrightarrow>
     jobs_ok (edb e') \<and>
     job_runs (edb e') =
       map (\<lambda>r. if JobID r \<in> JobID ` set js then closed_row now r else r) (job_runs (edb e)) @
       map (recheck_row fresh now e) cs \<and>
     (\<forall>k. k \<noteq> GlobalLockKey KindUpdateCheck \<or> cs = [] \<longrightarrow>
        job_locks (edb e') k = (if job_locks (edb e) k \<in> Some ` JobID ` set js then None else job_locks (edb e) k)) \<and>
     eowner e' = eowner e \<and> cfg e' = cfg e \<and> draining e' = draining e"

lemma swept_refl: "jobs_ok (edb e) \<Longrightarrow> swept fresh now e [] [] e"
  by (simp add: swept_def)

lemma swept_close:
  assumes "jobs_ok (edb e)" and "j \<in> set (job_runs (edb e))"
  shows "swept fresh now e [j] [] (e\<lparr>edb := (close_dead now j (edb e))\<lparr>other := x\<rparr>\<rparr>)"
  using assms jobs_ok_close_dead [OF assms(1)] by (simp add: swept_def close_dead_own close_dead_locks image_iff)

lemma swept_resubmit:
  assumes s: "swept fresh now e js cs e1"
    and "UpdateCheck_Submit (deref (ScheduleID j)) (fresh (JobID j)) now e1 = Inr e2"
  shows "swept fresh now e js (cs @ [j]) e2"
proof -
  note u = UpdateCheck_Submit_Inr [where fresh = fresh, OF assms(2)]
  have r: "recheck_row fresh now e1 = recheck_row fresh now e"
    using s by (intro recheck_row_cong) (auto simp: swept_def)
  show ?thesis using s u unfolding swept_def r by simp
qed

lemma swept_fresh:
  assumes "swept fresh now e js cs e1" and "c \<in> set cs" and "r \<in> set (job_runs (edb e))"
  shows "fresh (JobID c) \<noteq> JobID r"
proof -
  let ?f = "\<lambda>r. if JobID r \<in> JobID ` set js then closed_row now r else r"
  from assms(1) have "distinct (map JobID (map ?f (job_runs (edb e)) @ map (recheck_row fresh now e) cs))"
    unfolding swept_def jobs_ok_def by metis
  moreover have "map JobID (map ?f (job_runs (edb e))) = map JobID (job_runs (edb e))" by simp
  ultimately have "distinct (map JobID (job_runs (edb e)) @ map (\<lambda>c. fresh (JobID c)) cs)"
    by (simp only: map_append map_map comp_def recheck_row_simps)
  moreover have "JobID r \<in> set (map JobID (job_runs (edb e)))" "fresh (JobID c) \<in> set (map (\<lambda>c. fresh (JobID c)) cs)"
    using assms(2,3) by auto
  ultimately show ?thesis unfolding distinct_append by (metis IntI empty_iff)
qed

lemma swept_trans:
  assumes s: "swept fresh now e js cs e1" and t: "swept fresh now e1 js' cs' e2"
    and sub: "JobID ` set js' \<subseteq> JobID ` set (job_runs (edb e)) - JobID ` set js"
  shows "swept fresh now e (js @ js') (cs @ cs') e2"
proof -
  have r: "recheck_row fresh now e1 = recheck_row fresh now e"
    using s by (intro recheck_row_cong) (auto simp: swept_def)
  have new: "fresh (JobID c) \<notin> JobID ` set js'" if "c \<in> set cs" for c
    using swept_fresh [OF s that] sub by auto
  from s have e1: "job_runs (edb e1) = map (\<lambda>r. if JobID r \<in> JobID ` set js then closed_row now r else r)
      (job_runs (edb e)) @ map (recheck_row fresh now e) cs" by (simp add: swept_def)
  from t have "job_runs (edb e2) = map (\<lambda>r. if JobID r \<in> JobID ` set js' then closed_row now r else r)
      (job_runs (edb e1)) @ map (recheck_row fresh now e) cs'" by (simp add: swept_def r)
  also have "\<dots> = map (\<lambda>r. if JobID r \<in> JobID ` set (js @ js') then closed_row now r else r)
      (job_runs (edb e)) @ map (recheck_row fresh now e) (cs @ cs')"
    unfolding e1 using new sub by auto
  finally have runs: "job_runs (edb e2) = map (\<lambda>r. if JobID r \<in> JobID ` set (js @ js') then closed_row now r else r)
      (job_runs (edb e)) @ map (recheck_row fresh now e) (cs @ cs')" .
  have "job_locks (edb e2) k =
      (if job_locks (edb e) k \<in> Some ` JobID ` set (js @ js') then None else job_locks (edb e) k)"
    if "k \<noteq> GlobalLockKey KindUpdateCheck \<or> cs @ cs' = []" for k
    using s t that by (auto simp: swept_def)
  with s t runs show ?thesis by (simp add: swept_def)
qed

lemma swept_rows_kept:
  assumes "swept fresh now e [j] cs e1" and "set (j # js) \<subseteq> set (job_runs (edb e))" and "distinct (map JobID (j # js))"
  shows "jobs_ok (edb e1) \<and> set js \<subseteq> set (job_runs (edb e1))"
proof -
  have "r \<in> set (job_runs (edb e1))" if "r \<in> set js" for r
  proof -
    from that assms(2,3) have r: "r \<in> set (job_runs (edb e))" "JobID r \<noteq> JobID j"
      by (auto simp: image_iff)
    then have "r = (if JobID r \<in> JobID ` set [j] then closed_row now r else r)" by simp
    with r(1) have "r \<in> set (map (\<lambda>r. if JobID r \<in> JobID ` set [j] then closed_row now r else r) (job_runs (edb e)))"
      unfolding set_map by (rule rev_image_eqI)
    with assms(1) show ?thesis by (simp add: swept_def)
  qed
  with assms(1) show ?thesis by (auto simp: swept_def)
qed

lemma sweep_jobs_swept:
  assumes "jobs_ok (edb e)" and "set js \<subseteq> set (job_runs (edb e))" and "distinct (map JobID js)"
    and "sweep_jobs cleaner fresh now js acc e = (res, e')"
  shows "case res of
      Inr resume \<Rightarrow> resume = acc @ concat (map owes_resume js) \<and> swept fresh now e js (filter resubmitted js) e'
    | Inl err \<Rightarrow> \<exists>pre j post. js = pre @ j # post \<and> resubmitted j \<and>
                   swept fresh now e (pre @ [j]) (filter resubmitted pre) e'"
  using assms
proof (induction js arbitrary: e acc)
  case Nil
  then show ?case by (auto simp: swept_refl)
next
  case (Cons j js)
  let ?d = "close_dead now j (edb e)"
  let ?e1 = "e\<lparr>edb := ?d\<lparr>other := sweepStaging cleaner j (other ?d)\<rparr>\<rparr>"
  from Cons.prems have j: "j \<in> set (job_runs (edb e))" by simp
  note s1 = swept_close [OF Cons.prems(1) j, of fresh now "sweepStaging cleaner j (other ?d)"]
  have ids: "JobID ` set js \<subseteq> JobID ` set (job_runs (edb e)) - JobID ` set [j]"
    using Cons.prems(2,3) by (auto simp: image_iff)
  have step: ?case if cs: "swept fresh now e [j] cs e2" "cs = filter resubmitted [j]"
    "sweep_jobs cleaner fresh now js (acc @ owes_resume j) e2 = (res, e')" for cs e2
  proof -
    from swept_rows_kept [OF cs(1) Cons.prems(2,3)] have k: "jobs_ok (edb e2)" "set js \<subseteq> set (job_runs (edb e2))"
      by auto
    note IH = Cons.IH [OF k _ cs(3)]
    show ?thesis
    proof (cases res)
      case (Inl err)
      with IH Cons.prems(3) obtain pre c post where p: "js = pre @ c # post" "resubmitted c"
        "swept fresh now e2 (pre @ [c]) (filter resubmitted pre) e'" by auto
      have "JobID ` set (pre @ [c]) \<subseteq> JobID ` set (job_runs (edb e)) - JobID ` set [j]" using ids p(1) by auto
      from swept_trans [OF cs(1) p(3) this] cs(2)
      have "swept fresh now e ((j # pre) @ [c]) (filter resubmitted (j # pre)) e'" by (simp split: if_splits)
      moreover have "j # js = (j # pre) @ c # post" using p(1) by simp
      ultimately show ?thesis unfolding Inl sum.case using p(2) by blast
    next
      case (Inr resume)
      with IH Cons.prems(3) have "resume = (acc @ owes_resume j) @ concat (map owes_resume js)"
        "swept fresh now e2 js (filter resubmitted js) e'" by auto
      with swept_trans [OF cs(1) this(2) ids] cs(2) show ?thesis unfolding Inr by (simp split: if_splits)
    qed
  qed
  show ?case
  proof (cases "resubmitted j")
    case False
    with Cons.prems(4) have "sweep_jobs cleaner fresh now js (acc @ owes_resume j) ?e1 = (res, e')"
      by (simp add: Let_def)
    from step [OF s1 _ this] False show ?thesis by simp
  next
    case True
    show ?thesis
    proof (cases "UpdateCheck_Submit (deref (ScheduleID j)) (fresh (JobID j)) now ?e1")
      case (Inl err)
      with True Cons.prems(4) have "res = Inl err" "e' = ?e1" by (simp_all add: Let_def)
      moreover have "j # js = [] @ j # js \<and> resubmitted j \<and>
          swept fresh now e ([] @ [j]) (filter resubmitted []) ?e1" using s1 True by simp
      then have "\<exists>pre c post. j # js = pre @ c # post \<and> resubmitted c \<and>
          swept fresh now e (pre @ [c]) (filter resubmitted pre) ?e1" by (intro exI)
      ultimately show ?thesis by simp
    next
      case (Inr e2)
      with True Cons.prems(4) have r: "sweep_jobs cleaner fresh now js (acc @ owes_resume j) e2 = (res, e')"
        by (simp add: Let_def)
      from swept_resubmit [OF s1 Inr] have "swept fresh now e [j] [j] e2" by simp
      from step [OF this _ r] True show ?thesis by simp
    qed
  qed
qed

lemma UpdateCheck_Submit_accepted:
  assumes "\<not> draining e" and "job_locks (edb e) (GlobalLockKey KindUpdateCheck) = None"
    and "\<forall>r \<in> set (job_runs (edb e)). JobID r \<noteq> jid"
  shows "\<exists>e'. UpdateCheck_Submit sched jid now e = Inr e'"
proof -
  from assms show ?thesis
    by (simp add: no_disk_room_needed UpdateCheck_Submit_def Submit_def update_check_spec_def ClaimJobWithLocks_def new_job_def
        claim_keys_def GlobalLockKey_def claimHook_def run_hook_def rbind_def list_ex_iff announced_def)
qed

text \<open>A sweep on a daemon that takes work, whose dead checks hold the key they were submitted under and
  whose new ids are new, runs to its end: at most one check can be among the dead.\<close>

lemma sweep_jobs_completes:
  assumes "jobs_ok (edb e)" and "set js \<subseteq> set (job_runs (edb e))" and "distinct (map JobID js)" and "\<not> draining e"
    and "\<forall>j \<in> set (filter resubmitted js). job_locks (edb e) (GlobalLockKey KindUpdateCheck) = Some (JobID j) \<and>
      fresh (JobID j) \<notin> JobID ` set (job_runs (edb e))"
  shows "\<exists>resume e'. sweep_jobs cleaner fresh now js acc e = (Inr resume, e')"
  using assms
proof (induction js arbitrary: e acc)
  case (Cons j js)
  let ?G = "GlobalLockKey KindUpdateCheck"
  let ?d = "close_dead now j (edb e)"
  let ?e1 = "e\<lparr>edb := ?d\<lparr>other := sweepStaging cleaner j (other ?d)\<rparr>\<rparr>"
  from Cons.prems have j: "j \<in> set (job_runs (edb e))" by simp
  note s1 = swept_close [OF Cons.prems(1) j, of fresh now "sweepStaging cleaner j (other ?d)"]
  have "map JobID (job_runs (edb ?e1)) = map JobID (job_runs (edb e))"
    by (simp add: close_dead_own [OF Cons.prems(1) j])
  then have ids: "JobID ` set (job_runs (edb ?e1)) = JobID ` set (job_runs (edb e))" by (metis set_map)
  show ?case
  proof (cases "resubmitted j")
    case False
    have "\<forall>c \<in> set (filter resubmitted js). job_locks (edb ?e1) ?G = Some (JobID c) \<and>
        fresh (JobID c) \<notin> JobID ` set (job_runs (edb ?e1))"
      using Cons.prems(3,5) False unfolding ids by (auto simp: close_dead_locks image_iff)
    with Cons.IH [of ?e1] swept_rows_kept [OF s1 Cons.prems(2,3)] Cons.prems(3,4) False show ?thesis
      by (simp add: Let_def)
  next
    case True
    with Cons.prems(5) have G: "job_locks (edb e) ?G = Some (JobID j)"
      and new: "fresh (JobID j) \<notin> JobID ` set (job_runs (edb ?e1))" unfolding ids by auto
    have none: "filter resubmitted js = []" using Cons.prems(3,5) G True by (auto simp: filter_empty_conv image_iff)
    have "\<forall>r \<in> set (job_runs (edb ?e1)). JobID r \<noteq> fresh (JobID j)" using new by force
    moreover have "\<not> draining ?e1" "job_locks (edb ?e1) ?G = None" using Cons.prems(4) G by (simp_all add: close_dead_locks)
    ultimately obtain e2 where u: "UpdateCheck_Submit (deref (ScheduleID j)) (fresh (JobID j)) now ?e1 = Inr e2"
      using UpdateCheck_Submit_accepted by blast
    from swept_resubmit [OF s1 u] have s2: "swept fresh now e [j] [j] e2" by simp
    then have "\<not> draining e2" using Cons.prems(4) by (simp add: swept_def)
    with Cons.IH [of e2] swept_rows_kept [OF s2 Cons.prems(2,3)] Cons.prems(3) none True u show ?thesis
      by (simp add: Let_def)
  qed
qed simp

text \<open>A job of a dead daemon: marked running under another boot's lease.\<close>

definition dead_job :: "'x engine \<Rightarrow> job \<Rightarrow> bool" where
  "dead_job e j \<longleftrightarrow> j \<in> set (job_runs (edb e)) \<and> Status j = JobRunning \<and> LeaseOwner j \<noteq> Some (eowner e)"

lemma set_StaleJobs: "set (StaleJobs (eowner e) (edb e)) = {j. dead_job e j}"
  by (auto simp: StaleJobs_def dead_job_def)

lemma StaleJobs_rows:
  assumes "jobs_ok (edb e)"
  shows "set (StaleJobs (eowner e) (edb e)) \<subseteq> set (job_runs (edb e)) \<and>
    distinct (map JobID (StaleJobs (eowner e) (edb e)))"
proof -
  have "distinct (job_runs (edb e))" "inj_on JobID (set (job_runs (edb e)))"
    using assms by (auto simp: jobs_ok_def distinct_map)
  then show ?thesis by (auto simp: StaleJobs_def distinct_map intro: inj_on_subset)
qed

lemma owes_resume_iff:
  "i \<in> set (owes_resume j) \<longleftrightarrow> JobInstance j = Some i \<and> ResumeAfter j \<and> JobKind j = kind_name KindBackup"
  by (auto simp: owes_resume_def ByName_roundtrip resumeIntentHonoured_def split: option.splits)

lemma closes_by_id:
  assumes "jobs_ok (edb e)" and "set js \<subseteq> set (job_runs (edb e))"
  shows "map (\<lambda>r. if JobID r \<in> JobID ` set js then closed_row now r else r) (job_runs (edb e)) =
    map (\<lambda>r. if r \<in> set js then closed_row now r else r) (job_runs (edb e))"
proof (rule map_cong [OF HOL.refl])
  fix r
  assume "r \<in> set (job_runs (edb e))"
  then have "JobID r \<in> JobID ` set js \<longleftrightarrow> r \<in> set js"
    using assms by (auto simp: jobs_ok_def distinct_map dest: inj_onD)
  then show "(if JobID r \<in> JobID ` set js then closed_row now r else r) = (if r \<in> set js then closed_row now r else r)"
    by simp
qed

text \<open>C8. The boot-time sweep recovers from a dead daemon. Run by the new owner on consistent tables it keeps
  them consistent. When it succeeds, the rows are the old ones with every dead job, and no other, closed
  out as interrupted, followed by one new row for each dead update check; nothing is left running under
  another owner; a lock is free if a dead job held it and unchanged otherwise, except that a resubmitted
  check holds the key of update checks; and a restart is asked for exactly those instances whose dead job
  was a backup that had found the server running. When a resubmission is refused, the sweep stops at that
  check: the dead jobs up to it are closed out, the later ones are still as they were. That cannot happen
  while the daemon takes work, its dead checks were submitted under the key of update checks and the ids
  minted are new.\<close>

theorem Sweep_recovers:
  fixes e :: "'x engine"
  assumes "jobs_ok (edb e)" and "Sweep cleaner fresh now e = (res, e')"
  shows "jobs_ok (edb e') \<and>
    (case res of
       Inr resume \<Rightarrow>
         job_runs (edb e') = map (\<lambda>r. if dead_job e r then closed_row now r else r) (job_runs (edb e)) @
           map (recheck_row fresh now e) (filter resubmitted (StaleJobs (eowner e) (edb e))) \<and>
         (\<forall>r \<in> set (job_runs (edb e')). Status r = JobRunning \<longrightarrow> LeaseOwner r = Some (eowner e)) \<and>
         (\<forall>j. dead_job e j \<and> resubmitted j \<longrightarrow>
            job_locks (edb e') (GlobalLockKey KindUpdateCheck) = Some (fresh (JobID j))) \<and>
         (\<forall>k. k \<noteq> GlobalLockKey KindUpdateCheck \<or> (\<forall>j. dead_job e j \<longrightarrow> \<not> resubmitted j) \<longrightarrow>
            job_locks (edb e') k = (if \<exists>j. dead_job e j \<and> job_locks (edb e) k = Some (JobID j) then None
                                    else job_locks (edb e) k)) \<and>
         (\<forall>i. i \<in> set resume \<longleftrightarrow> (\<exists>j. dead_job e j \<and> JobInstance j = Some i \<and> ResumeAfter j \<and>
                                          JobKind j = kind_name KindBackup))
     | Inl err \<Rightarrow> \<exists>pre j post. StaleJobs (eowner e) (edb e) = pre @ j # post \<and> resubmitted j \<and>
         job_runs (edb e') = map (\<lambda>r. if r \<in> set (pre @ [j]) then closed_row now r else r) (job_runs (edb e)) @
           map (recheck_row fresh now e) (filter resubmitted pre)) \<and>
    (\<not> draining e \<and> (\<forall>j. dead_job e j \<and> resubmitted j \<longrightarrow> LockKey j = GlobalLockKey KindUpdateCheck \<and>
        fresh (JobID j) \<notin> JobID ` set (job_runs (edb e))) \<longrightarrow> (\<exists>resume. res = Inr resume))"
proof -
  let ?st = "StaleJobs (eowner e) (edb e)"
  let ?G = "GlobalLockKey KindUpdateCheck"
  from StaleJobs_rows [OF assms(1)] have rows: "set ?st \<subseteq> set (job_runs (edb e))" "distinct (map JobID ?st)" by auto
  note sw = sweep_jobs_swept [OF assms(1) rows assms(2) [unfolded Sweep_def]]
  have ok: "\<exists>resume. res = Inr resume" if "\<not> draining e"
    and "\<forall>j. dead_job e j \<and> resubmitted j \<longrightarrow> LockKey j = ?G \<and> fresh (JobID j) \<notin> JobID ` set (job_runs (edb e))"
  proof -
    have "\<forall>j \<in> set (filter resubmitted ?st). job_locks (edb e) ?G = Some (JobID j) \<and>
        fresh (JobID j) \<notin> JobID ` set (job_runs (edb e))"
      using that(2) assms(1) unfolding set_filter set_StaleJobs by (auto simp: dead_job_def jobs_ok_def)
    from sweep_jobs_completes [OF assms(1) rows that(1) this] assms(2) show ?thesis
      by (metis Pair_inject Sweep_def)
  qed
  show ?thesis
  proof (cases res)
    case (Inl err)
    with sw obtain pre j post where p: "?st = pre @ j # post" "resubmitted j"
      and s: "swept fresh now e (pre @ [j]) (filter resubmitted pre) e'" by auto
    from p(1) rows(1) have "set (pre @ [j]) \<subseteq> set (job_runs (edb e))" by auto
    from s closes_by_id [OF assms(1) this] have "jobs_ok (edb e')" "job_runs (edb e') =
        map (\<lambda>r. if r \<in> set (pre @ [j]) then closed_row now r else r) (job_runs (edb e)) @
        map (recheck_row fresh now e) (filter resubmitted pre)" unfolding swept_def by metis+
    with p ok show ?thesis unfolding Inl sum.case by blast
  next
    case (Inr resume)
    with sw have res: "resume = concat (map owes_resume ?st)" and s: "swept fresh now e ?st (filter resubmitted ?st) e'"
      by auto
    from s closes_by_id [OF assms(1) rows(1)] have "jobs_ok (edb e')" and runs: "job_runs (edb e') =
        map (\<lambda>r. if dead_job e r then closed_row now r else r) (job_runs (edb e)) @
        map (recheck_row fresh now e) (filter resubmitted ?st)"
      unfolding swept_def set_StaleJobs mem_Collect_eq by metis+
    moreover have "LeaseOwner r = Some (eowner e)" if "r \<in> set (job_runs (edb e'))" "Status r = JobRunning" for r
      using that unfolding runs
      by (auto simp: dead_job_def recheck_row_def claimed_row_def split: if_splits)
    moreover have "job_locks (edb e') ?G = Some (fresh (JobID j))" if "dead_job e j" "resubmitted j" for j
    proof -
      have "recheck_row fresh now e j \<in> set (job_runs (edb e'))"
        unfolding runs using that by (simp add: set_StaleJobs)
      with \<open>jobs_ok (edb e')\<close> show ?thesis unfolding jobs_ok_def by (metis recheck_row_simps)
    qed
    moreover have "job_locks (edb e') k = (if \<exists>j. dead_job e j \<and> job_locks (edb e) k = Some (JobID j) then None
        else job_locks (edb e) k)" if "k \<noteq> ?G \<or> (\<forall>j. dead_job e j \<longrightarrow> \<not> resubmitted j)" for k
    proof -
      have "k \<noteq> ?G \<or> filter resubmitted ?st = []" using that set_StaleJobs [of e] by (auto simp: filter_empty_conv)
      moreover have "job_locks (edb e) k \<in> Some ` JobID ` set ?st \<longleftrightarrow>
          (\<exists>j. dead_job e j \<and> job_locks (edb e) k = Some (JobID j))" by (auto simp: set_StaleJobs)
      moreover have "k \<noteq> ?G \<or> filter resubmitted ?st = [] \<longrightarrow> job_locks (edb e') k =
          (if job_locks (edb e) k \<in> Some ` JobID ` set ?st then None else job_locks (edb e) k)"
        using s by (simp add: swept_def)
      ultimately show ?thesis by simp
    qed
    moreover have "i \<in> set resume \<longleftrightarrow> (\<exists>j. dead_job e j \<and> JobInstance j = Some i \<and> ResumeAfter j \<and>
        JobKind j = kind_name KindBackup)" for i
      unfolding res by (auto simp: set_StaleJobs owes_resume_iff)
    ultimately show ?thesis unfolding Inr sum.case by blast
  qed
qed

text \<open>A daemon died during a backup of a running server and a scheduled update check.\<close>

definition dead_backup :: job where
  "dead_backup = (demo_job ''b'' ''instance:i'')\<lparr>JobKind := kind_name KindBackup, Status := JobRunning,
     JobInstance := Some ''i'', ResumeAfter := True, LeaseOwner := Some ''boot1''\<rparr>"

definition dead_check :: job where
  "dead_check = (demo_job ''c'' (GlobalLockKey KindUpdateCheck))\<lparr>JobKind := kind_name KindUpdateCheck,
     Status := JobRunning, JobInstance := None, ScheduleID := Some ''sch'', LeaseOwner := Some ''boot1''\<rparr>"

definition rebooted :: "unit engine" where
  "rebooted = \<lparr>edb = \<lparr>job_runs = [dead_backup, dead_check],
       job_locks = [''instance:i'' \<mapsto> ''b'', GlobalLockKey KindUpdateCheck \<mapsto> ''c''], other = ()\<rparr>,
     eowner = ''boot2'', cfg = \<lparr>FreeSpace = None, FreeSpaceFloor = 0, LeaseTTL = 30\<rparr>, policies = Map.empty,
     draining = False, stopped_engine = False, running_handles = {}, woken = {}, announcements = [],
     engine_events = []\<rparr>"

lemma rebooted_simps:
  "jobs_ok (edb rebooted)" "dead_job rebooted j \<longleftrightarrow> j = dead_backup \<or> j = dead_check" "\<not> resubmitted dead_backup"
  "resubmitted dead_check" "\<not> draining rebooted" "eowner rebooted = ''boot2''"
  "job_locks (edb rebooted) ''instance:i'' = Some (JobID dead_backup)"
  "JobID ` set (job_runs (edb rebooted)) = {''b'', ''c''}" "LockKey dead_check = GlobalLockKey KindUpdateCheck"
  "JobInstance dead_backup = Some ''i''" "JobInstance dead_check = None"
  by (auto simp: rebooted_def dead_backup_def dead_check_def demo_job_def jobs_ok_def terminal_def dead_job_def
      resubmitted_def ByName_roundtrip GlobalLockKey_def split: if_splits)

theorem Sweep_recovers_witness:
  "\<exists>resume e'. Sweep (\<lambda>_ _ x. x) (\<lambda>_. ''n'') 50 rebooted = (Inr resume, e') \<and> set resume = {''i''} \<and>
     job_locks (edb e') ''instance:i'' = None \<and> job_locks (edb e') (GlobalLockKey KindUpdateCheck) = Some ''n''"
proof -
  obtain res e' where s: "Sweep (\<lambda>_ _ x. x) (\<lambda>_. ''n'') 50 rebooted = (res, e')" by force
  note S = Sweep_recovers [OF rebooted_simps(1) s]
  then obtain resume where r: "res = Inr resume" by (auto simp: rebooted_simps)
  have "dead_job rebooted dead_check" "resubmitted dead_check" by (simp_all add: rebooted_simps)
  then have "job_locks (edb e') (GlobalLockKey KindUpdateCheck) = Some ''n''"
    using S unfolding r sum.case by blast
  moreover have "job_locks (edb e') ''instance:i'' = None"
  proof -
    have "''instance:i'' \<noteq> GlobalLockKey KindUpdateCheck" by (simp add: GlobalLockKey_def)
    moreover have "\<exists>j. dead_job rebooted j \<and> job_locks (edb rebooted) ''instance:i'' = Some (JobID j)"
      by (metis rebooted_simps(2,7))
    moreover have "\<forall>k. k \<noteq> GlobalLockKey KindUpdateCheck \<or> (\<forall>j. dead_job rebooted j \<longrightarrow> \<not> resubmitted j) \<longrightarrow>
        job_locks (edb e') k = (if \<exists>j. dead_job rebooted j \<and> job_locks (edb rebooted) k = Some (JobID j) then None
                                else job_locks (edb rebooted) k)"
      using S unfolding r sum.case by blast
    ultimately show ?thesis by simp
  qed
  moreover have "i \<in> set resume \<longleftrightarrow> i = ''i''" for i
  proof -
    have "i \<in> set resume \<longleftrightarrow> (\<exists>j. dead_job rebooted j \<and> JobInstance j = Some i \<and> ResumeAfter j \<and>
        JobKind j = kind_name KindBackup)" using S unfolding r sum.case by blast
    moreover have "ResumeAfter dead_backup" "JobKind dead_backup = kind_name KindBackup" by (simp_all add: dead_backup_def)
    ultimately show ?thesis by (auto simp: rebooted_simps)
  qed
  ultimately show ?thesis unfolding s r by auto
qed

subsection \<open>Daemon exclusivity\<close>

fun lease_run :: "int \<Rightarrow> (string \<times> int) list \<Rightarrow> lease option \<Rightarrow> lease option" where
  "lease_run ttl [] cur = cur"
| "lease_run ttl ((owner, now) # cs) cur = lease_run ttl cs (snd (claim_lease owner ttl now cur))"

lemma lease_kept:
  assumes "\<forall>(b, t) \<in> set cs. b \<noteq> a" and "sorted (map snd cs)" and "\<forall>(b, t) \<in> set cs. t1 \<le> t \<and> t \<le> t2"
    and "cur = Some \<lparr>LOwner = a, LExpires = until\<rparr> \<or> until \<le> t1" and "t1 \<le> t2"
  shows "lease_run ttl cs cur = Some \<lparr>LOwner = a, LExpires = until\<rparr> \<or> until \<le> t2"
  using assms
proof (induction cs arbitrary: cur t1)
  case Nil
  then show ?case by auto
next
  case (Cons c cs)
  obtain b t where c: "c = (b, t)" by force
  from Cons.prems c have t: "t1 \<le> t" "t \<le> t2" "b \<noteq> a" by auto
  have "snd (claim_lease b ttl t cur) = Some \<lparr>LOwner = a, LExpires = until\<rparr> \<or> until \<le> t"
    using Cons.prems(4) t by (auto simp: claim_lease_def)
  moreover have "\<forall>(x, u) \<in> set cs. t \<le> u \<and> u \<le> t2" using Cons.prems c by force
  ultimately show ?case
    using Cons.IH [of t "snd (claim_lease b ttl t cur)"] Cons.prems c t by auto
qed

text \<open>Two daemons never hold one database at a time. Once one daemon's claim succeeded, whatever other
  daemons try afterwards in order of time, none of their claims succeeds until a whole lease period has
  passed without a renewal; a released lease can be taken at once.\<close>

lemma lease_exclusive:
  assumes "fst (claim_lease a ttl t0 cur)" and "\<forall>(b, t) \<in> set cs. b \<noteq> a" and "b \<noteq> a"
    and "sorted (t0 # map snd cs @ [t])"
    and "fst (claim_lease b ttl t (lease_run ttl cs (snd (claim_lease a ttl t0 cur))))"
  shows "t0 + ttl \<le> t \<and> fst (claim_lease b ttl t0 (Release a (snd (claim_lease a ttl t0 cur))))"
proof -
  have c: "snd (claim_lease a ttl t0 cur) = Some \<lparr>LOwner = a, LExpires = t0 + ttl\<rparr>"
    using assms(1) by (auto simp: claim_lease_def split: option.splits if_splits)
  have "\<forall>(b, u) \<in> set cs. t0 \<le> u \<and> u \<le> t" "t0 \<le> t" "sorted (map snd cs)"
    using assms(4) by (auto simp: sorted_append)
  with lease_kept [OF assms(2), of t0 t "snd (claim_lease a ttl t0 cur)" "t0 + ttl"] c
  have "lease_run ttl cs (snd (claim_lease a ttl t0 cur)) = Some \<lparr>LOwner = a, LExpires = t0 + ttl\<rparr> \<or> t0 + ttl \<le> t"
    by simp
  moreover have "fst (claim_lease b ttl t (Some \<lparr>LOwner = a, LExpires = t0 + ttl\<rparr>)) \<Longrightarrow> t0 + ttl \<le> t"
    using assms(3) by (simp add: claim_lease_def split: if_splits)
  ultimately have "t0 + ttl \<le> t" using assms(5) by auto
  moreover have "Release a (Some \<lparr>LOwner = a, LExpires = t0 + ttl\<rparr>) = None" by (simp add: Release_def)
  ultimately show ?thesis unfolding c by (simp add: claim_lease_def)
qed

lemma lease_exclusive_example:
  "\<exists>t. fst (claim_lease ''b'' 60 t (lease_run 60 [(''b'', 30)] (snd (claim_lease ''a'' 60 0 None)))) \<and> 0 + 60 \<le> t"
proof -
  have a: "fst (claim_lease ''a'' 60 0 None)" by (simp add: claim_lease_def)
  have b: "fst (claim_lease ''b'' 60 75 (lease_run 60 [(''b'', 30)] (snd (claim_lease ''a'' 60 0 None))))"
    by (simp add: claim_lease_def)
  from lease_exclusive [OF a _ _ _ b] have "0 + 60 \<le> (75 :: int)" by simp
  with b show ?thesis by blast
qed

subsection \<open>Cancellation\<close>

lemma JobByID_row: "JobByID jid d = Some j \<Longrightarrow> j \<in> set (job_runs d) \<and> JobID j = jid"
  by (auto simp: JobByID_def dest: find_SomeD)

lemma JobByID_eq: "jobs_ok d \<Longrightarrow> r \<in> set (job_runs d) \<Longrightarrow> JobByID (JobID r) d = Some q \<Longrightarrow> q = r"
  using JobByID_row [of "JobID r" d q] by (auto simp: jobs_ok_def distinct_map dest: inj_onD)

lemma update_job_member:
  "r \<in> set (job_runs (update_job P f d)) \<longleftrightarrow> (\<exists>j \<in> set (job_runs d). r = (if P j then f j else j))"
  unfolding job_runs_update_job set_map by blast

lemma update_job_rest:
  assumes "\<And>j. P j \<Longrightarrow> JobID j = jid" and "\<And>j. JobID (f j) = JobID j" and "JobID r \<noteq> jid"
  shows "r \<in> set (job_runs (update_job P f d)) \<longleftrightarrow> r \<in> set (job_runs d)"
  unfolding update_job_member using assms by metis

lemma cancel_running:
  assumes "jobs_ok d" and "JobByID jid d = Some j" and "Status j = JobRunning"
    and "r \<in> set (job_runs (RequestJobCancel jid now d))" and "JobID r = jid"
  shows "Status r = JobRunning \<and> CancelRequestedAt r \<noteq> None"
proof -
  from assms(4) obtain q where q: "q \<in> set (job_runs d)" "r = (if JobID q = jid \<and> CancelRequestedAt q = None
      then q\<lparr>CancelRequestedAt := Some now\<rparr> else q)" unfolding RequestJobCancel_def update_job_member by blast
  with assms(5) have "JobID q = jid" by (simp split: if_splits)
  with assms(1,2) q(1) JobByID_eq have "q = j" by metis
  with assms(3,5) q(2) \<open>JobID q = jid\<close> show ?thesis by (simp split: if_splits)
qed

lemma cancel_queued:
  assumes "jobs_ok d" and "CancelQueuedJob jid now d = (True, d')"
  shows "(\<forall>k. job_locks d' k \<noteq> Some jid) \<and> (\<forall>r \<in> set (job_runs d'). JobID r = jid \<longrightarrow> Status r = Cancelled) \<and>
    (\<forall>r. JobID r \<noteq> jid \<longrightarrow> r \<in> set (job_runs d') \<longleftrightarrow> r \<in> set (job_runs d))"
proof -
  let ?P = "\<lambda>j. JobID j = jid \<and> Status j = Queued" and ?f = "\<lambda>j. j\<lparr>Status := Cancelled, FinishedAt := Some now\<rparr>"
  from assms(2) have d': "d' = release_locks jid (update_job ?P ?f d)" and "\<exists>q \<in> set (job_runs d). ?P q"
    by (auto simp: CancelQueuedJob_def Let_def list_ex_iff split: if_splits)
  then obtain q where q: "q \<in> set (job_runs d)" "JobID q = jid" "Status q = Queued" by blast
  from assms(1) have inj: "inj_on JobID (set (job_runs d))" by (simp add: jobs_ok_def distinct_map)
  have runs: "job_runs d' = job_runs (update_job ?P ?f d)" by (simp add: d' release_locks_def)
  have "Status r = Cancelled" if "r \<in> set (job_runs d')" "JobID r = jid" for r
  proof -
    from that(1) obtain j where j: "j \<in> set (job_runs d)" "r = (if ?P j then ?f j else j)"
      unfolding runs update_job_member by blast
    with that(2) have "JobID j = jid" by (simp split: if_splits)
    with inj j(1) q have "j = q" by (metis inj_onD)
    with j(2) q show ?thesis by simp
  qed
  moreover have "r \<in> set (job_runs d') \<longleftrightarrow> r \<in> set (job_runs d)" if "JobID r \<noteq> jid" for r
    unfolding runs by (rule update_job_rest [OF _ _ that]) simp_all
  moreover have "job_locks d' k \<noteq> Some jid" for k by (simp add: d' release_locks_def)
  ultimately show ?thesis by blast
qed

text \<open>Cancelling is a request. A running job can be asked to stop only where its kind's policy allows at
  its checkpoint, and being asked changes neither its status nor any lock, only marks it, once; a queued
  job is cancelled outright and its locks are released; a finished job and an unknown id are refused.
  Either way the tables stay consistent and every other row is untouched.\<close>

lemma Cancel_is_a_request:
  assumes ok: "jobs_ok (edb e)" and c: "Cancel jid now e = Inr e'"
  shows "jobs_ok (edb e') \<and> (\<exists>j. JobByID jid (edb e) = Some j \<and>
    (Status j = JobRunning \<longrightarrow>
       (\<exists>policy. policies e (JobKind j) = Some policy \<and>
          fst (policy (case Checkpoint j of None \<Rightarrow> [] | Some cp \<Rightarrow> cp))) \<and>
       job_locks (edb e') = job_locks (edb e) \<and>
       (\<forall>r \<in> set (job_runs (edb e')). JobID r = jid \<longrightarrow> Status r = JobRunning \<and> CancelRequestedAt r \<noteq> None)) \<and>
    (Status j = Queued \<longrightarrow> (\<forall>k. job_locks (edb e') k \<noteq> Some jid) \<and>
       (\<forall>r \<in> set (job_runs (edb e')). JobID r = jid \<longrightarrow> Status r = Cancelled)) \<and>
    \<not> terminal (Status j)) \<and>
    (\<forall>r. JobID r \<noteq> jid \<longrightarrow> r \<in> set (job_runs (edb e')) \<longleftrightarrow> r \<in> set (job_runs (edb e)))"
proof -
  from c obtain j where j: "JobByID jid (edb e) = Some j" by (auto simp: Cancel_def split: option.splits)
  show ?thesis
  proof (cases "Status j")
    case Queued
    with c j obtain d where d: "CancelQueuedJob jid now (edb e) = (True, d)" and e': "edb e' = d"
      by (auto simp: Cancel_def split: prod.splits if_splits)
    from cancel_queued [OF ok d] jobs_ok_cancel [OF ok d] j Queued show ?thesis
      unfolding e' by (simp add: terminal_def)
  next
    case JobRunning
    with c j obtain policy where p: "policies e (JobKind j) = Some policy"
      "fst (policy (case Checkpoint j of None \<Rightarrow> [] | Some cp \<Rightarrow> cp))" and e': "edb e' = RequestJobCancel jid now (edb e)"
      by (auto simp: Cancel_def wakeCancel_def split: option.splits prod.splits if_splits)
    have "jobs_ok (edb e')" unfolding e' by (rule jobs_ok_step [OF job_step.request_cancel ok])
    moreover have "r \<in> set (job_runs (edb e')) \<longleftrightarrow> r \<in> set (job_runs (edb e))" if "JobID r \<noteq> jid" for r
      unfolding e' RequestJobCancel_def by (rule update_job_rest [OF _ _ that]) simp_all
    moreover have "job_locks (edb e') = job_locks (edb e)" by (simp add: e' RequestJobCancel_def)
    ultimately show ?thesis using p j JobRunning cancel_running [OF ok j JobRunning]
      unfolding e' by (simp add: terminal_def)
  qed (use c j in \<open>simp_all add: Cancel_def\<close>)
qed

definition demo_engine :: "unit engine" where
  "demo_engine = \<lparr>edb = projr (ClaimJobWithLocks (demo_job ''j1'' ''instance:i'') [''instance:k''] ''me'' 9 1 Inr (empty_jobs ())),
     eowner = ''me'', cfg = \<lparr>FreeSpace = None, FreeSpaceFloor = 0, LeaseTTL = 60\<rparr>,
     policies = [''start'' \<mapsto> (\<lambda>cp. (cp = [], cp))], draining = False, stopped_engine = False,
     running_handles = {''j1''}, woken = {}, announcements = [], engine_events = []\<rparr>"

lemma Cancel_is_a_request_example:
  "\<exists>e' r. Cancel ''j1'' 5 demo_engine = Inr e' \<and> r \<in> set (job_runs (edb e')) \<and> JobID r = ''j1'' \<and>
     Status r = JobRunning \<and> CancelRequestedAt r \<noteq> None"
proof -
  have ok: "jobs_ok (edb demo_engine)"
    using jobs_ok_claim [OF empty_jobs_ok demo_claim] unfolding demo_engine_def demo_claim by simp
  have j: "JobByID ''j1'' (edb demo_engine) = Some (claimed_row (demo_job ''j1'' ''instance:i'') ''me'' 9 1)"
    unfolding demo_engine_def demo_claim by (simp add: JobByID_def demo_job_def)
  then obtain e' where c: "Cancel ''j1'' 5 demo_engine = Inr e'" and "edb e' = RequestJobCancel ''j1'' 5 (edb demo_engine)"
    by (simp add: Cancel_def claimed_row_def demo_job_def demo_engine_def wakeCancel_def)
  then have "map JobID (job_runs (edb e')) = map JobID (job_runs (edb demo_engine))"
    by (simp add: RequestJobCancel_def update_job_def)
  from arg_cong [OF this, of set] have "JobID ` set (job_runs (edb e')) = JobID ` set (job_runs (edb demo_engine))"
    by (simp only: set_map)
  moreover have "''j1'' \<in> JobID ` set (job_runs (edb demo_engine))"
    unfolding demo_engine_def demo_claim by (simp add: demo_job_def)
  ultimately obtain r where r: "r \<in> set (job_runs (edb e'))" "JobID r = ''j1''" by (metis imageE)
  from Cancel_is_a_request [OF ok c] j have
    "\<forall>r \<in> set (job_runs (edb e')). JobID r = ''j1'' \<longrightarrow> Status r = JobRunning \<and> CancelRequestedAt r \<noteq> None" by simp
  with c r show ?thesis by blast
qed

end
