(* ===== verification/Mod_Store.thy ===== *)
theory Mod_Store
  imports Go_Prelude "HOL-Library.AList"
begin

text \<open>
  \<open>internal/mods/source\<close> and the mod tables of \<open>internal/store\<close> (\<open>mods.go\<close>, \<open>instance_mods.go\<close>): the
  registries, the catalogue a registry sync writes (\<open>mod_packages\<close>, \<open>mod_versions\<close>), the packages
  installed on each instance (\<open>instance_mods\<close>), and the queries the resolver's index is built on.
  A table is the list of its rows; a statement with a unique key and \<open>ON CONFLICT\<close> is \<open>upsert\<close>.
  A JSON column is the value \<open>json.Unmarshal\<close> leaves, and \<^term>\<open>None\<close> for a dependency column that
  does not decode. Columns no modelled operation reads or decides by (display texts, download counts
  and addresses) are left out. A query that fails in the database is outside the model.
\<close>

subsection \<open>Registries\<close>

text \<open>\<open>Source\<close> is closed to its package, so its values are the zero value and the two constants.\<close>

datatype source = NoSource | Thunderstore | Hexium

definition source_String :: "source \<Rightarrow> string" where
  "source_String s = (case s of NoSource \<Rightarrow> [] | Thunderstore \<Rightarrow> ''thunderstore'' | Hexium \<Rightarrow> ''hexium'')"

definition source_All :: "source list" where
  "source_All = [Thunderstore, Hexium]"

definition source_ByName :: "string \<Rightarrow> source option" where
  "source_ByName name = find (\<lambda>s. source_String s = name) source_All"

text \<open>\<open>UnmarshalJSON\<close> on a decoded JSON string; a \<open>null\<close> is \<^term>\<open>None\<close>.\<close>

definition source_UnmarshalJSON :: "string option \<Rightarrow> source option" where
  "source_UnmarshalJSON b =
     (case b of
        None \<Rightarrow> Some NoSource
      | Some name \<Rightarrow> if name = [] then Some NoSource else source_ByName name)"

subsection \<open>Rows\<close>

record mod_package =
  PkgFullName :: string
  PkgSource :: source
  LatestVersion :: string
  Categories :: "string list"

record mod_version =
  MVFullName :: string
  MVSource :: source
  MVVersion :: string
  MVDependencies :: "string list option"

datatype installed_as = InstalledExplicit | InstalledDependency

record instance_mod =
  InstanceID :: string
  FullName :: string
  Source :: source
  Version :: string
  InstalledAs :: installed_as
  Side :: string
  Enabled :: bool
  Locked :: bool
  FileManifest :: string
  InstalledAt :: string

text \<open>\<open>synced_at\<close> stamps a catalogue row and is read only as \<open>ListedAt\<close>; times are numbers.\<close>

record mod_tables =
  mod_packages :: "(mod_package \<times> nat) list"
  mod_versions :: "mod_version list"
  instance_mods :: "instance_mod list"

datatype store_error = NoRegistryNamed string | DecodeFailed string string | NoSuchInstalledMod string string

subsection \<open>Writes\<close>

text \<open>\<open>INSERT ... ON CONFLICT (key) DO UPDATE\<close>: the new row is appended, or \<open>merge\<close> rewrites the row
  holding its key.\<close>

definition upsert :: "('r \<Rightarrow> 'k) \<Rightarrow> ('r \<Rightarrow> 'r \<Rightarrow> 'r) \<Rightarrow> 'r \<Rightarrow> 'r list \<Rightarrow> 'r list" where
  "upsert key merge r rows =
     (if key r \<in> key ` set rows
      then map (\<lambda>q. if key q = key r then merge q r else q) rows
      else rows @ [r])"

definition pkg_key :: "mod_package \<times> nat \<Rightarrow> string \<times> source" where
  "pkg_key p = (PkgFullName (fst p), PkgSource (fst p))"

definition ver_key :: "mod_version \<Rightarrow> string \<times> source \<times> string" where
  "ver_key v = (MVFullName v, MVSource v, MVVersion v)"

definition mod_key :: "instance_mod \<Rightarrow> string \<times> string" where
  "mod_key m = (InstanceID m, FullName m)"

definition UpsertModPackages ::
  "nat \<Rightarrow> mod_package list \<Rightarrow> mod_version list \<Rightarrow> mod_tables \<Rightarrow> store_error + mod_tables" where
  "UpsertModPackages now packages versions t =
     (case (find (\<lambda>p. PkgSource p = NoSource) packages, find (\<lambda>v. MVSource v = NoSource) versions) of
        (Some p, _) \<Rightarrow> Inl (NoRegistryNamed (PkgFullName p))
      | (None, Some v) \<Rightarrow> Inl (NoRegistryNamed (MVFullName v))
      | (None, None) \<Rightarrow> Inr (t\<lparr>
          mod_packages := fold (\<lambda>p. upsert pkg_key (\<lambda>q r. r) (p, now)) packages (mod_packages t),
          mod_versions := fold (upsert ver_key (\<lambda>q r. r)) versions (mod_versions t)\<rparr>))"

text \<open>On conflict \<open>side\<close>, \<open>enabled\<close> and \<open>locked\<close> keep what the row had.\<close>

definition merge_mod :: "instance_mod \<Rightarrow> instance_mod \<Rightarrow> instance_mod" where
  "merge_mod q r = q\<lparr>Source := Source r, Version := Version r, InstalledAs := InstalledAs r,
     FileManifest := FileManifest r, InstalledAt := InstalledAt r\<rparr>"

definition upsert_instance_mod :: "string \<Rightarrow> instance_mod \<Rightarrow> mod_tables \<Rightarrow> store_error + mod_tables" where
  "upsert_instance_mod now m t =
     (if Source m = NoSource then Inl (NoRegistryNamed (FullName m))
      else Inr (t\<lparr>instance_mods :=
        upsert mod_key merge_mod (if InstalledAt m = [] then m\<lparr>InstalledAt := now\<rparr> else m) (instance_mods t)\<rparr>))"

definition TxUpsertInstanceMods :: "string \<Rightarrow> instance_mod list \<Rightarrow> mod_tables \<Rightarrow> store_error + mod_tables" where
  "TxUpsertInstanceMods now = foldR (upsert_instance_mod now)"

definition TxDeleteInstanceMods :: "string \<Rightarrow> string list \<Rightarrow> mod_tables \<Rightarrow> mod_tables" where
  "TxDeleteInstanceMods iid names t =
     t\<lparr>instance_mods := filter (\<lambda>m. \<not> (InstanceID m = iid \<and> FullName m \<in> set names)) (instance_mods t)\<rparr>"

definition RollbackInstanceMods ::
  "string \<Rightarrow> string \<Rightarrow> instance_mod list \<Rightarrow> string list \<Rightarrow> mod_tables \<Rightarrow> store_error + mod_tables" where
  "RollbackInstanceMods now iid restore remove t =
     (if restore = [] \<and> remove = [] then Inr t
      else rbind (TxUpsertInstanceMods now restore t) (\<lambda>u. Inr (TxDeleteInstanceMods iid remove u)))"

definition update_mod :: "string \<Rightarrow> string \<Rightarrow> (instance_mod \<Rightarrow> instance_mod) \<Rightarrow> mod_tables \<Rightarrow> bool \<times> mod_tables" where
  "update_mod iid fn f t =
     (list_ex (\<lambda>m. mod_key m = (iid, fn)) (instance_mods t),
      t\<lparr>instance_mods := map (\<lambda>m. if mod_key m = (iid, fn) then f m else m) (instance_mods t)\<rparr>)"

definition SetInstanceModSide :: "string \<Rightarrow> string \<Rightarrow> string \<Rightarrow> mod_tables \<Rightarrow> bool \<times> mod_tables" where
  "SetInstanceModSide iid fn side = update_mod iid fn (\<lambda>m. m\<lparr>Side := side\<rparr>)"

definition SetInstanceModLocked :: "string \<Rightarrow> string \<Rightarrow> bool \<Rightarrow> mod_tables \<Rightarrow> bool \<times> mod_tables" where
  "SetInstanceModLocked iid fn locked = update_mod iid fn (\<lambda>m. m\<lparr>Locked := locked\<rparr>)"

definition TxSetInstanceModEnabled ::
  "string \<Rightarrow> string \<Rightarrow> bool \<Rightarrow> string \<Rightarrow> mod_tables \<Rightarrow> store_error + mod_tables" where
  "TxSetInstanceModEnabled iid fn enabled manifest t =
     (case update_mod iid fn (\<lambda>m. m\<lparr>Enabled := enabled, FileManifest := manifest\<rparr>) t of
        (hit, u) \<Rightarrow> if hit then Inr u else Inl (NoSuchInstalledMod iid fn))"

subsection \<open>Reads\<close>

definition ModPackagesByFullName :: "mod_tables \<Rightarrow> string \<Rightarrow> mod_package list" where
  "ModPackagesByFullName t fn =
     sort_key (\<lambda>p. source_String (PkgSource p)) (filter (\<lambda>p. PkgFullName p = fn) (map fst (mod_packages t)))"

text \<open>\<open>ORDER BY source <> ?, source LIMIT 1\<close>: sorting is stable, so the outer key sorts last.\<close>

definition candidate_versions ::
  "mod_tables \<Rightarrow> string \<Rightarrow> string \<Rightarrow> source \<Rightarrow> source list \<Rightarrow> mod_version list" where
  "candidate_versions t fn v prefer allowed =
     sort_key (\<lambda>r. source_String (MVSource r) \<noteq> source_String prefer)
       (sort_key (\<lambda>r. source_String (MVSource r))
         (filter (\<lambda>r. MVFullName r = fn \<and> MVVersion r = v \<and> MVSource r \<in> set allowed) (mod_versions t)))"

definition ModVersionDependenciesFrom ::
  "mod_tables \<Rightarrow> string \<Rightarrow> string \<Rightarrow> source \<Rightarrow> source list \<Rightarrow> store_error + (string list \<times> source) option" where
  "ModVersionDependenciesFrom t fn v prefer allowed =
     (if allowed = [] then Inr None
      else case candidate_versions t fn v prefer allowed of
        [] \<Rightarrow> Inr None
      | r # _ \<Rightarrow> (case MVDependencies r of
                    None \<Rightarrow> Inl (DecodeFailed fn v)
                  | Some deps \<Rightarrow> Inr (Some (deps, MVSource r))))"

definition ModVersionDependencies ::
  "mod_tables \<Rightarrow> string \<Rightarrow> string \<Rightarrow> source \<Rightarrow> store_error + (string list \<times> source) option" where
  "ModVersionDependencies t fn v prefer = ModVersionDependenciesFrom t fn v prefer source_All"

definition InstanceMods :: "mod_tables \<Rightarrow> string \<Rightarrow> instance_mod list" where
  "InstanceMods t iid = sort_key FullName (filter (\<lambda>m. InstanceID m = iid) (instance_mods t))"

text \<open>\<open>CataloguedMod\<close>: the installed row beside its catalogue row and its stamp \<open>ListedAt\<close>. The left
  join meets at most one catalogue row, \<open>(full_name, source)\<close> being the primary key.\<close>

record catalogued_mod =
  Mod :: instance_mod
  Package :: "mod_package option"
  ListedAt :: "nat option"

definition catalogued :: "mod_tables \<Rightarrow> instance_mod \<Rightarrow> catalogued_mod" where
  "catalogued t m =
     (case find (\<lambda>p. pkg_key p = (FullName m, Source m)) (mod_packages t) of
        None \<Rightarrow> \<lparr>Mod = m, Package = None, ListedAt = None\<rparr>
      | Some (p, at) \<Rightarrow> \<lparr>Mod = m, Package = Some p, ListedAt = Some at\<rparr>)"

definition InstanceModsCatalogued :: "mod_tables \<Rightarrow> string \<Rightarrow> catalogued_mod list" where
  "InstanceModsCatalogued t iid = map (catalogued t) (InstanceMods t iid)"

definition InstanceModVersion :: "mod_tables \<Rightarrow> string \<Rightarrow> string \<Rightarrow> (string \<times> source) option" where
  "InstanceModVersion t iid fn =
     map_option (\<lambda>m. (Version m, Source m)) (find (\<lambda>m. mod_key m = (iid, fn)) (instance_mods t))"

definition EnabledModVersion :: "mod_tables \<Rightarrow> string \<Rightarrow> string \<Rightarrow> string option" where
  "EnabledModVersion t iid fn =
     map_option Version (find (\<lambda>m. mod_key m = (iid, fn) \<and> Enabled m) (instance_mods t))"

definition ModVersionsByFullName :: "mod_tables \<Rightarrow> string \<Rightarrow> mod_version list" where
  "ModVersionsByFullName t fn =
     sort_key (\<lambda>v. source_String (MVSource v)) (sort_key MVVersion (filter (\<lambda>v. MVFullName v = fn) (mod_versions t)))"

text \<open>Side tags in bulk. \<open>sides\<close> is a Go map; its keys are distinct, so the order of its range does not
  matter, and a name with no installed row writes nothing.\<close>

definition RaiseInstanceModSides :: "string \<Rightarrow> string list \<Rightarrow> string \<Rightarrow> mod_tables \<Rightarrow> mod_tables" where
  "RaiseInstanceModSides iid names side t =
     t\<lparr>instance_mods := map (\<lambda>m. if InstanceID m = iid \<and> FullName m \<in> set names then m\<lparr>Side := side\<rparr> else m) (instance_mods t)\<rparr>"

definition TxSetInstanceModSides :: "string \<Rightarrow> (string \<times> string) list \<Rightarrow> mod_tables \<Rightarrow> mod_tables" where
  "TxSetInstanceModSides iid sides t = fold (\<lambda>(name, side) t. snd (SetInstanceModSide iid name side t)) sides t"

subsection \<open>Undoing an install's rows\<close>

text \<open>What \<open>rollbackInstall\<close> reads of a staged package: its name, the row it replaced, and whether
  undoing its files succeeded. \<open>rollback_rows\<close> is its loop (the rows to restore, the names whose rows
  go, the packages still stuck); then \<open>RollbackInstanceMods\<close> runs on the first two.\<close>

record staged =
  SFullName :: string
  SPrev :: "instance_mod option"
  SUndone :: bool

fun rollback_rows :: "staged list \<Rightarrow> instance_mod list \<times> string list \<times> string list" where
  "rollback_rows [] = ([], [], [])"
| "rollback_rows (p # ps) =
     (case rollback_rows ps of (restore, rolled, stuck) \<Rightarrow>
        if \<not> SUndone p then (restore, rolled, SFullName p # stuck)
        else case SPrev p of
          Some row \<Rightarrow> (row # restore, rolled, stuck)
        | None \<Rightarrow> (restore, SFullName p # rolled, stuck))"

definition rollbackInstall ::
  "string \<Rightarrow> string \<Rightarrow> staged list \<Rightarrow> mod_tables \<Rightarrow> store_error + (string list \<times> mod_tables)" where
  "rollbackInstall now iid pkgs t =
     (case rollback_rows pkgs of (restore, rolled, stuck) \<Rightarrow>
        rbind (RollbackInstanceMods now iid restore rolled t) (\<lambda>u. Inr (stuck, u)))"

subsection \<open>Lemmas: tables\<close>

text \<open>The schema's unique keys, and that every row names its registry.\<close>

definition tables_ok :: "mod_tables \<Rightarrow> bool" where
  "tables_ok t \<longleftrightarrow> distinct (map pkg_key (mod_packages t)) \<and> distinct (map ver_key (mod_versions t)) \<and>
     distinct (map mod_key (instance_mods t)) \<and>
     list_all (\<lambda>p. PkgSource (fst p) \<noteq> NoSource) (mod_packages t) \<and>
     list_all (\<lambda>v. MVSource v \<noteq> NoSource) (mod_versions t) \<and>
     list_all (\<lambda>m. Source m \<noteq> NoSource) (instance_mods t)"

lemma source_String_inj [simp]: "source_String a = source_String b \<longleftrightarrow> a = b"
  by (cases a; cases b) (simp_all add: source_String_def)

lemma source_ByName_String: "s \<noteq> NoSource \<Longrightarrow> source_ByName (source_String s) = Some s"
  by (cases s) (simp_all add: source_ByName_def source_All_def source_String_def)

lemma upsert_keys:
  assumes "\<And>q. key q = key r \<Longrightarrow> key (merge q r) = key r"
  shows "map key (upsert key merge r rows) =
    (if key r \<in> key ` set rows then map key rows else map key rows @ [key r])"
  using assms by (auto simp: upsert_def)

lemma upsert_distinct:
  assumes "\<And>q. key q = key r \<Longrightarrow> key (merge q r) = key r" and "distinct (map key rows)"
  shows "distinct (map key (upsert key merge r rows))"
  using assms(2) upsert_keys [of key r merge rows, OF assms(1)] by (simp del: map_map)

lemma upsert_all:
  assumes "list_all P rows" and "P r" and "\<And>q. q \<in> set rows \<Longrightarrow> P q \<Longrightarrow> P (merge q r)"
  shows "list_all P (upsert key merge r rows)"
  using assms by (auto simp: upsert_def list_all_iff)

lemma upsert_member: "r \<in> set (upsert key (\<lambda>q r. r) r rows)"
  by (auto simp: upsert_def image_iff)

lemma upsert_other: "key q \<noteq> key r \<Longrightarrow> q \<in> set (upsert key merge r rows) \<longleftrightarrow> q \<in> set rows"
  if "\<And>q. key q = key r \<Longrightarrow> key (merge q r) = key r" for key merge r q rows
  using that by (auto simp: upsert_def image_iff split: if_splits)

lemma fold_upsert_keeps: "key q \<notin> key ` set rs \<Longrightarrow> q \<in> set rows \<Longrightarrow> q \<in> set (fold (upsert key (\<lambda>q r. r)) rs rows)"
  by (induction rs arbitrary: rows) (simp_all add: upsert_other)

lemma fold_upsert_member: "distinct (map key rs) \<Longrightarrow> r \<in> set rs \<Longrightarrow> r \<in> set (fold (upsert key (\<lambda>q r. r)) rs rows)"
proof (induction rs arbitrary: rows)
  case (Cons a rs)
  then show ?case by (cases "r = a") (auto intro: fold_upsert_keeps upsert_member)
qed simp

lemma fold_upsert_distinct:
  "distinct (map key rows) \<Longrightarrow> distinct (map key (fold (upsert key (\<lambda>q r. r)) rs rows))"
  by (induction rs arbitrary: rows) (simp_all add: upsert_distinct)

lemma fold_upsert_all:
  "list_all P rows \<Longrightarrow> list_all P rs \<Longrightarrow> list_all P (fold (upsert key (\<lambda>q r. r)) rs rows)"
  by (induction rs arbitrary: rows) (simp_all add: upsert_all)

lemma find_NoneD: "find P xs = None \<Longrightarrow> list_all (\<lambda>x. \<not> P x) xs"
  by (simp add: find_None_iff list_all_iff)

lemma UpsertModPackages_ok:
  assumes "tables_ok t" and "UpsertModPackages now ps vs t = Inr u"
  shows "tables_ok u"
proof -
  from assms(2) have np: "list_all (\<lambda>p. PkgSource p \<noteq> NoSource) ps" and nv: "list_all (\<lambda>v. MVSource v \<noteq> NoSource) vs"
    and u: "u = t\<lparr>mod_packages := fold (upsert pkg_key (\<lambda>q r. r)) (map (\<lambda>p. (p, now)) ps) (mod_packages t),
      mod_versions := fold (upsert ver_key (\<lambda>q r. r)) vs (mod_versions t)\<rparr>"
    by (auto simp: UpsertModPackages_def fold_map comp_def split: option.splits dest!: find_NoneD)
  from np have "list_all (\<lambda>p. PkgSource (fst p) \<noteq> NoSource) (map (\<lambda>p. (p, now)) ps)"
    by (simp add: list_all_iff)
  with assms(1) nv show ?thesis
    by (simp add: tables_ok_def u fold_upsert_distinct fold_upsert_all del: map_map)
qed

lemma mod_key_merge [simp]: "mod_key (merge_mod q r) = mod_key q"
  by (simp add: mod_key_def merge_mod_def)

lemma mod_key_stamp [simp]: "mod_key (m\<lparr>InstalledAt := now\<rparr>) = mod_key m"
  by (simp add: mod_key_def)

lemma upsert_instance_mod_ok:
  assumes "upsert_instance_mod now m t = Inr u" and "tables_ok t"
  shows "tables_ok u"
proof -
  let ?m = "if InstalledAt m = [] then m\<lparr>InstalledAt := now\<rparr> else m"
  from assms(1) have s: "Source ?m \<noteq> NoSource"
    and u: "u = t\<lparr>instance_mods := upsert mod_key merge_mod ?m (instance_mods t)\<rparr>"
    by (auto simp: upsert_instance_mod_def split: if_splits)
  have "distinct (map mod_key (upsert mod_key merge_mod ?m (instance_mods t)))"
    using assms(2) by (intro upsert_distinct) (simp_all add: tables_ok_def)
  moreover have "list_all (\<lambda>m. Source m \<noteq> NoSource) (upsert mod_key merge_mod ?m (instance_mods t))"
    using assms(2) s by (intro upsert_all) (simp_all add: tables_ok_def merge_mod_def)
  ultimately show ?thesis using assms(2) by (simp add: tables_ok_def u)
qed

lemma TxUpsertInstanceMods_ok: "TxUpsertInstanceMods now ms t = Inr u \<Longrightarrow> tables_ok t \<Longrightarrow> tables_ok u"
  unfolding TxUpsertInstanceMods_def by (rule foldR_invariant [where P = tables_ok]) (auto intro: upsert_instance_mod_ok)

lemma TxDeleteInstanceMods_ok: "tables_ok t \<Longrightarrow> tables_ok (TxDeleteInstanceMods iid names t)"
  by (simp add: tables_ok_def TxDeleteInstanceMods_def distinct_map_filter list_all_iff)

lemma update_mod_ok:
  assumes "tables_ok t" and "\<And>m. mod_key (f m) = mod_key m" and "\<And>m. Source (f m) = Source m"
  shows "tables_ok (snd (update_mod iid fn f t))"
proof -
  have "map mod_key (instance_mods (snd (update_mod iid fn f t))) = map mod_key (instance_mods t)"
    using assms(2) by (simp add: update_mod_def)
  with assms show ?thesis by (auto simp: tables_ok_def update_mod_def list_all_iff simp del: map_map)
qed

subsection \<open>The tables stay well-formed\<close>

lemma SetInstanceModSide_ok: "tables_ok t \<Longrightarrow> tables_ok (snd (SetInstanceModSide iid fn side t))"
  unfolding SetInstanceModSide_def by (rule update_mod_ok) (simp_all add: mod_key_def)

lemma TxSetInstanceModSides_ok: "tables_ok t \<Longrightarrow> tables_ok (TxSetInstanceModSides iid sides t)"
  unfolding TxSetInstanceModSides_def by (induction sides arbitrary: t) (auto simp: SetInstanceModSide_ok)

lemma RaiseInstanceModSides_ok:
  assumes "tables_ok t"
  shows "tables_ok (RaiseInstanceModSides iid names side t)"
proof -
  have "map mod_key (instance_mods (RaiseInstanceModSides iid names side t)) = map mod_key (instance_mods t)"
    by (simp add: RaiseInstanceModSides_def mod_key_def)
  with assms show ?thesis by (auto simp: tables_ok_def RaiseInstanceModSides_def list_all_iff simp del: map_map)
qed

text \<open>One committed write of the mod tables.\<close>

inductive mod_write :: "mod_tables \<Rightarrow> mod_tables \<Rightarrow> bool" where
  sync: "UpsertModPackages now ps vs t = Inr u \<Longrightarrow> mod_write t u"
| install: "TxUpsertInstanceMods at ms t = Inr u \<Longrightarrow> mod_write t u"
| delete: "mod_write t (TxDeleteInstanceMods iid names t)"
| rollback: "RollbackInstanceMods at iid restore remove t = Inr u \<Longrightarrow> mod_write t u"
| side: "mod_write t (snd (SetInstanceModSide iid fn s t))"
| lock: "mod_write t (snd (SetInstanceModLocked iid fn b t))"
| enable: "TxSetInstanceModEnabled iid fn b x t = Inr u \<Longrightarrow> mod_write t u"
| raise: "mod_write t (RaiseInstanceModSides iid names s t)"
| sides: "mod_write t (TxSetInstanceModSides iid ss t)"

lemma mod_write_ok: "mod_write t u \<Longrightarrow> tables_ok t \<Longrightarrow> tables_ok u"
proof (induction rule: mod_write.induct)
  case (rollback at iid restore remove t u)
  then show ?case
    by (auto simp: RollbackInstanceMods_def rbind_eq_Inr TxDeleteInstanceMods_ok dest: TxUpsertInstanceMods_ok split: if_splits)
next
  case (lock t iid fn b)
  then show ?case unfolding SetInstanceModLocked_def by (intro update_mod_ok) (simp_all add: mod_key_def)
next
  case (enable iid fn b x t u)
  let ?f = "\<lambda>m. m\<lparr>Enabled := b, FileManifest := x\<rparr>"
  have "tables_ok (snd (update_mod iid fn ?f t))" using enable(2) by (rule update_mod_ok) (simp_all add: mod_key_def)
  with enable(1) show ?case by (auto simp: TxSetInstanceModEnabled_def split: prod.splits if_splits)
qed (auto intro: UpsertModPackages_ok TxUpsertInstanceMods_ok TxDeleteInstanceMods_ok SetInstanceModSide_ok
    RaiseInstanceModSides_ok TxSetInstanceModSides_ok)

subsection \<open>Lemmas: a batch of installed rows\<close>

definition stamp :: "string \<Rightarrow> instance_mod \<Rightarrow> instance_mod" where
  "stamp now m = (if InstalledAt m = [] then m\<lparr>InstalledAt := now\<rparr> else m)"

lemma mod_key_stamped [simp]: "mod_key (stamp now m) = mod_key m"
  by (simp add: stamp_def)

lemma merge_mod_back [simp]: "InstalledAt q \<noteq> [] \<Longrightarrow> merge_mod (merge_mod q m) (stamp now q) = q"
  by (simp add: merge_mod_def stamp_def)

text \<open>The row a batch leaves under a key it names: the new row, or the old one with the new bytes.\<close>

definition written :: "instance_mod list \<Rightarrow> instance_mod \<Rightarrow> instance_mod \<Rightarrow> bool" where
  "written rows m r \<longleftrightarrow>
     (\<exists>q \<in> set rows. mod_key q = mod_key m \<and> r = merge_mod q m) \<or> (mod_key m \<notin> mod_key ` set rows \<and> r = m)"

lemma upsert_instance_mod_Inr:
  "upsert_instance_mod now m t = Inr u \<longleftrightarrow>
     Source m \<noteq> NoSource \<and> u = t\<lparr>instance_mods := upsert mod_key merge_mod (stamp now m) (instance_mods t)\<rparr>"
  by (auto simp: upsert_instance_mod_def stamp_def)

lemma upsert_mem:
  "r \<in> set (upsert mod_key merge_mod m rows) \<longleftrightarrow>
     (if mod_key r = mod_key m then written rows m r else r \<in> set rows)"
  by (auto simp: upsert_def written_def image_iff)

lemma upsert_key_set: "mod_key ` set (upsert mod_key merge_mod m rows) = insert (mod_key m) (mod_key ` set rows)"
proof -
  have "map mod_key (upsert mod_key merge_mod m rows) =
    (if mod_key m \<in> mod_key ` set rows then map mod_key rows else map mod_key rows @ [mod_key m])"
    by (rule upsert_keys) simp
  from arg_cong [OF this, of set] show ?thesis by auto
qed

lemma written_upsert:
  assumes "mod_key m \<noteq> mod_key n"
  shows "written (upsert mod_key merge_mod n rows) m r = written rows m r"
proof -
  have "(q \<in> set (upsert mod_key merge_mod n rows)) = (q \<in> set rows)" if "mod_key q = mod_key m" for q
    using assms that by (simp add: upsert_mem)
  then show ?thesis using assms by (auto simp: written_def upsert_key_set)
qed

lemma TxUpsertInstanceMods_mem:
  assumes "TxUpsertInstanceMods now ms t = Inr u" and "distinct (map mod_key ms)"
  shows "r \<in> set (instance_mods u) \<longleftrightarrow>
    (if mod_key r \<in> mod_key ` set ms
     then \<exists>m \<in> set ms. mod_key m = mod_key r \<and> written (instance_mods t) (stamp now m) r
     else r \<in> set (instance_mods t))"
  using assms
proof (induction ms arbitrary: t)
  case Nil
  then show ?case by (simp add: TxUpsertInstanceMods_def)
next
  case (Cons m ms)
  from Cons.prems(1) obtain t1 where t1: "upsert_instance_mod now m t = Inr t1"
    and u: "TxUpsertInstanceMods now ms t1 = Inr u"
    by (auto simp: TxUpsertInstanceMods_def split: sum.splits)
  from t1 have rows: "instance_mods t1 = upsert mod_key merge_mod (stamp now m) (instance_mods t)"
    by (simp add: upsert_instance_mod_Inr)
  from Cons.prems(2) have d: "distinct (map mod_key ms)" and nk: "mod_key m \<notin> mod_key ` set ms" by simp_all
  then have new: "mod_key n \<noteq> mod_key m" if "n \<in> set ms" for n using that by (metis imageI)
  note IH = Cons.IH [OF u d]
  have w: "written (instance_mods t1) (stamp now n) r = written (instance_mods t) (stamp now n) r"
    if "n \<in> set ms" for n
    using new [OF that] by (subst rows) (rule written_upsert, simp)
  show ?case
  proof (cases "mod_key r = mod_key m")
    case True
    with nk have "r \<in> set (instance_mods u) \<longleftrightarrow> r \<in> set (instance_mods t1)" by (simp add: IH)
    also have "\<dots> \<longleftrightarrow> written (instance_mods t) (stamp now m) r" using True by (simp add: rows upsert_mem)
    finally show ?thesis using True new by auto
  next
    case False
    then have "r \<in> set (instance_mods t1) \<longleftrightarrow> r \<in> set (instance_mods t)" by (simp add: rows upsert_mem)
    with False w show ?thesis unfolding IH by auto
  qed
qed

lemma TxUpsertInstanceMods_total:
  "list_all (\<lambda>m. Source m \<noteq> NoSource) ms \<Longrightarrow> \<exists>u. TxUpsertInstanceMods now ms t = Inr u"
  by (induction ms arbitrary: t) (auto simp: TxUpsertInstanceMods_def upsert_instance_mod_def)

subsection \<open>Rolling an install back\<close>

text \<open>What an install stages for the rows \<open>ms\<close> it writes: the row each of them replaces, if any.\<close>

definition staged_for :: "mod_tables \<Rightarrow> (string \<Rightarrow> bool) \<Rightarrow> instance_mod list \<Rightarrow> staged list" where
  "staged_for t undone = map (\<lambda>m. \<lparr>SFullName = FullName m,
     SPrev = find (\<lambda>r. mod_key r = mod_key m) (instance_mods t), SUndone = undone (FullName m)\<rparr>)"

lemma rollback_rows_restore:
  "set (fst (rollback_rows ps)) = {r. \<exists>p \<in> set ps. SUndone p \<and> SPrev p = Some r}"
  "set (fst (snd (rollback_rows ps))) = {n. \<exists>p \<in> set ps. SUndone p \<and> SPrev p = None \<and> SFullName p = n}"
  "snd (snd (rollback_rows ps)) = map SFullName (filter (\<lambda>p. \<not> SUndone p) ps)"
  by (induction ps) (auto split: prod.splits option.splits)

lemma find_key:
  assumes "distinct (map key rows)"
  shows "find (\<lambda>r. key r = k) rows = Some r \<longleftrightarrow> r \<in> set rows \<and> key r = k"
  using assms by (induction rows) (auto simp: image_iff)

lemma rollback_restore_distinct:
  assumes "distinct (map mod_key ms)"
  shows "distinct (map mod_key (fst (rollback_rows (staged_for t undone ms))))"
  using assms
proof (induction ms)
  case (Cons m ms)
  have "mod_key ` set (fst (rollback_rows (staged_for t undone ms))) \<subseteq> mod_key ` set ms"
    by (auto simp: rollback_rows_restore staged_for_def dest!: find_SomeD)
  with Cons.prems have "mod_key m \<notin> mod_key ` set (fst (rollback_rows (staged_for t undone ms)))" by auto
  with Cons show ?case
    by (cases "rollback_rows (staged_for t undone ms)"; cases "find (\<lambda>r. mod_key r = mod_key m) (instance_mods t)")
      (auto simp: staged_for_def simp del: image_iff dest: find_SomeD)
qed (simp add: staged_for_def)

lemma RollbackInstanceMods_eq:
  "RollbackInstanceMods now iid restore remove t =
     rbind (TxUpsertInstanceMods now restore t) (\<lambda>u. Inr (TxDeleteInstanceMods iid remove u))"
  by (simp add: RollbackInstanceMods_def TxUpsertInstanceMods_def TxDeleteInstanceMods_def)

lemma key_unique: "distinct (map key rows) \<Longrightarrow> a \<in> set rows \<Longrightarrow> b \<in> set rows \<Longrightarrow> key a = key b \<Longrightarrow> a = b"
  by (simp add: distinct_map inj_on_def)

text \<open>Writing the replaced row over the row the install left gives the replaced row back.\<close>

lemma restored_row:
  assumes kt: "distinct (map mod_key (instance_mods t))" and kd: "distinct (map mod_key ms)"
    and ins: "TxUpsertInstanceMods now ms t = Inr u"
    and m: "m \<in> set ms" and q: "q \<in> set (instance_mods t)" "mod_key q = mod_key m" "InstalledAt q \<noteq> []"
  shows "written (instance_mods u) (stamp later q) r \<longleftrightarrow> r = q"
proof -
  note tu = TxUpsertInstanceMods_mem [OF ins kd]
  have k: "mod_key m \<in> mod_key ` set (instance_mods t)" using q by (metis imageI)
  have wr: "written (instance_mods t) (stamp now m) p \<longleftrightarrow> p = merge_mod q (stamp now m)" for p
  proof
    assume "written (instance_mods t) (stamp now m) p"
    with k obtain q' where q': "q' \<in> set (instance_mods t)" "mod_key q' = mod_key m" "p = merge_mod q' (stamp now m)"
      by (auto simp: written_def)
    with key_unique [OF kt q'(1) q(1)] q(2) show "p = merge_mod q (stamp now m)" by simp
  qed (use q in \<open>auto simp: written_def\<close>)
  have "mod_key m \<in> mod_key ` set ms" using m by simp
  moreover have "(\<exists>m' \<in> set ms. mod_key m' = mod_key m \<and> written (instance_mods t) (stamp now m') p) \<longleftrightarrow>
        written (instance_mods t) (stamp now m) p" for p using m key_unique [OF kd] by blast
  ultimately have "p \<in> set (instance_mods u) \<longleftrightarrow> p = merge_mod q (stamp now m)" if "mod_key p = mod_key q" for p
    using that q(2) wr by (simp add: tu)
  then have u: "\<And>p. p \<in> set (instance_mods u) \<Longrightarrow> mod_key p = mod_key q \<Longrightarrow> p = merge_mod q (stamp now m)"
    "merge_mod q (stamp now m) \<in> set (instance_mods u)" by simp_all
  then have "mod_key q \<in> mod_key ` set (instance_mods u)" by (metis imageI mod_key_merge)
  then have "written (instance_mods u) (stamp later q) r \<longleftrightarrow>
      (\<exists>p \<in> set (instance_mods u). mod_key p = mod_key q \<and> r = merge_mod p (stamp later q))" by (simp add: written_def)
  also have "\<dots> \<longleftrightarrow> r = merge_mod (merge_mod q (stamp now m)) (stamp later q)"
    using u(1) u(2) mod_key_merge by metis
  finally show ?thesis by (simp add: q(3))
qed

lemma rolled_back_row:
  assumes kt: "distinct (map mod_key (instance_mods t))" and kd: "distinct (map mod_key ms)"
    and mine: "list_all (\<lambda>m. InstanceID m = iid) ms"
    and stamped: "list_all (\<lambda>r. InstalledAt r \<noteq> []) (instance_mods t)"
    and ins: "TxUpsertInstanceMods now ms t = Inr u"
    and restore: "set restore = {r \<in> set (instance_mods t). \<exists>m \<in> set ms. mod_key m = mod_key r \<and> undone (FullName m)}"
    and rolled: "set rolled = {FullName m | m. m \<in> set ms \<and> undone (FullName m) \<and> mod_key m \<notin> mod_key ` set (instance_mods t)}"
    and w: "TxUpsertInstanceMods later restore u = Inr w" and dr: "distinct (map mod_key restore)"
    and m: "m \<in> set ms" "mod_key m = mod_key r"
  shows "r \<in> set (instance_mods w) \<and> \<not> (InstanceID r = iid \<and> FullName r \<in> set rolled) \<longleftrightarrow>
    (if undone (FullName m) then r \<in> set (instance_mods t) else r \<in> set (instance_mods u))"
proof -
  note uw = TxUpsertInstanceMods_mem [OF w dr]
  from m mine have r: "InstanceID r = iid" "FullName r = FullName m" by (auto simp: mod_key_def list_all_iff)
  have one: "x = m" if "x \<in> set ms" "FullName x = FullName m" for x
    using key_unique [OF kd that(1) m(1)] that mine m(1) by (simp add: mod_key_def list_all_iff)
  have rolled_iff: "FullName r \<in> set rolled \<longleftrightarrow> undone (FullName m) \<and> mod_key m \<notin> mod_key ` set (instance_mods t)"
    using one m(1) r(2) unfolding rolled by auto
  show ?thesis
  proof (cases "undone (FullName m) \<and> mod_key m \<in> mod_key ` set (instance_mods t)")
    case True
    then obtain q where q: "q \<in> set (instance_mods t)" "mod_key q = mod_key m" by auto
    then have qr: "q \<in> set restore" using True m restore by auto
    have q1: "x = q" if "x \<in> set restore" "mod_key x = mod_key q" for x
      using key_unique [OF kt _ q(1) that(2)] that(1) restore by simp
    have "InstalledAt q \<noteq> []" using q stamped by (simp add: list_all_iff)
    moreover have "(\<exists>x \<in> set restore. mod_key x = mod_key r \<and> written (instance_mods u) (stamp later x) r) \<longleftrightarrow>
        written (instance_mods u) (stamp later q) r" using q1 qr q(2) m(2) by metis
    moreover have "mod_key r \<in> mod_key ` set restore" using qr q(2) m(2) by (metis imageI)
    ultimately have "r \<in> set (instance_mods w) \<longleftrightarrow> r = q"
      using restored_row [OF kt kd ins m(1) q, of later r] uw [of r] by (simp only: if_True not_False_eq_True simp_thms)
    also have "\<dots> \<longleftrightarrow> r \<in> set (instance_mods t)" using key_unique [OF kt _ q(1)] q(1,2) m(2) by metis
    finally show ?thesis using True rolled_iff by simp
  next
    case False
    have "mod_key r \<notin> mod_key ` set restore"
    proof
      assume "mod_key r \<in> mod_key ` set restore"
      then obtain q m' where "q \<in> set (instance_mods t)" "mod_key q = mod_key r" "m' \<in> set ms" "mod_key m' = mod_key q"
        "undone (FullName m')" using restore by auto
      moreover from this have "m' = m" using one r by (simp add: mod_key_def)
      ultimately show False using False m(2) by (metis imageI)
    qed
    then have "r \<in> set (instance_mods w) \<longleftrightarrow> r \<in> set (instance_mods u)" using uw [of r] by (simp only: if_False)
    moreover have "r \<notin> set (instance_mods t)" if "undone (FullName m)" using False that m(2) by (metis imageI)
    ultimately show ?thesis using False rolled_iff r by auto
  qed
qed

text \<open>C25. A failed install leaves the rows true to the files. After the rows of an install are
  written and \<open>rollbackInstall\<close> runs, every package whose files came back has exactly the row it had
  before the install (none for a fresh install, the admin's tags included for an update), every
  package reported stuck keeps the row the install wrote, and no other row changes.\<close>

theorem rollback_restores_rows:
  assumes ok: "tables_ok t" and stamped: "list_all (\<lambda>r. InstalledAt r \<noteq> []) (instance_mods t)"
    and mine: "list_all (\<lambda>m. InstanceID m = iid) ms" and dist: "distinct (map FullName ms)"
    and ins: "TxUpsertInstanceMods now ms t = Inr u"
  shows "\<exists>stuck w. rollbackInstall later iid (staged_for t undone ms) u = Inr (stuck, w) \<and>
    stuck = filter (\<lambda>n. \<not> undone n) (map FullName ms) \<and>
    (\<forall>r. r \<in> set (instance_mods w) \<longleftrightarrow>
       (if InstanceID r = iid \<and> FullName r \<in> set stuck then r \<in> set (instance_mods u) else r \<in> set (instance_mods t)))"
proof -
  let ?ps = "staged_for t undone ms"
  let ?restore = "fst (rollback_rows ?ps)" and ?rolled = "fst (snd (rollback_rows ?ps))"
  have kd: "distinct (map mod_key ms)" using mine dist
    by (auto simp: distinct_map inj_on_def mod_key_def list_all_iff)
  have kt: "distinct (map mod_key (instance_mods t))" using ok by (simp add: tables_ok_def)
  have restore: "set ?restore = {r \<in> set (instance_mods t). \<exists>m \<in> set ms. mod_key m = mod_key r \<and> undone (FullName m)}"
    by (auto simp: rollback_rows_restore staged_for_def find_key [OF kt])
  have rolled: "set ?rolled = {FullName m | m. m \<in> set ms \<and> undone (FullName m) \<and> mod_key m \<notin> mod_key ` set (instance_mods t)}"
    by (auto simp: rollback_rows_restore staged_for_def find_None_iff image_iff) metis+
  have "list_all (\<lambda>m. Source m \<noteq> NoSource) ?restore" using ok restore by (auto simp: tables_ok_def list_all_iff)
  then obtain w where w: "TxUpsertInstanceMods later ?restore u = Inr w"
    using TxUpsertInstanceMods_total by blast
  note uw = TxUpsertInstanceMods_mem [OF w rollback_restore_distinct [OF kd]]
  note tu = TxUpsertInstanceMods_mem [OF ins kd]
  let ?w = "TxDeleteInstanceMods iid ?rolled w" and ?stuck = "filter (\<lambda>n. \<not> undone n) (map FullName ms)"
  have "r \<in> set (instance_mods ?w) \<longleftrightarrow>
      (if InstanceID r = iid \<and> FullName r \<in> set ?stuck then r \<in> set (instance_mods u) else r \<in> set (instance_mods t))" for r
  proof (cases "\<exists>m \<in> set ms. mod_key m = mod_key r")
    case False
    then have "mod_key r \<notin> mod_key ` set ms" "mod_key r \<notin> mod_key ` set ?restore" using restore by auto
    then have "r \<in> set (instance_mods w) \<longleftrightarrow> r \<in> set (instance_mods t)"
      using uw [of r] tu [of r] by (simp only: if_False)
    moreover have "\<not> (InstanceID r = iid \<and> FullName r \<in> FullName ` set ms)"
    proof
      assume "InstanceID r = iid \<and> FullName r \<in> FullName ` set ms"
      then obtain m where "m \<in> set ms" "FullName m = FullName r" "InstanceID r = iid" by auto
      with mine have "m \<in> set ms" "mod_key m = mod_key r" by (simp_all add: mod_key_def list_all_iff)
      with False show False by blast
    qed
    moreover have "set ?rolled \<subseteq> FullName ` set ms" "set ?stuck \<subseteq> FullName ` set ms" using rolled by auto
    ultimately have "\<not> (InstanceID r = iid \<and> FullName r \<in> set ?rolled)" "\<not> (InstanceID r = iid \<and> FullName r \<in> set ?stuck)"
      and "r \<in> set (instance_mods w) \<longleftrightarrow> r \<in> set (instance_mods t)" by blast+
    then show ?thesis unfolding TxDeleteInstanceMods_def by auto
  next
    case True
    then obtain m where m: "m \<in> set ms" "mod_key m = mod_key r" by blast
    have r: "InstanceID r = iid" "FullName r = FullName m" using m mine by (auto simp: mod_key_def list_all_iff)
    have "FullName m \<in> set ?stuck \<longleftrightarrow> \<not> undone (FullName m)" using m(1) by simp
    then have "InstanceID r = iid \<and> FullName r \<in> set ?stuck \<longleftrightarrow> \<not> undone (FullName m)" by (simp add: r)
    moreover have "r \<in> set (instance_mods ?w) \<longleftrightarrow> r \<in> set (instance_mods w) \<and> \<not> (InstanceID r = iid \<and> FullName r \<in> set ?rolled)"
      by (simp add: TxDeleteInstanceMods_def)
    ultimately show ?thesis
      using rolled_back_row [OF kt kd mine stamped ins restore rolled w rollback_restore_distinct [OF kd] m] by simp
  qed
  moreover have "snd (snd (rollback_rows ?ps)) = ?stuck"
    by (simp add: rollback_rows_restore staged_for_def filter_map comp_def)
  then have "rollbackInstall later iid ?ps u = Inr (?stuck, ?w)"
    using w by (cases "rollback_rows ?ps") (simp add: rollbackInstall_def RollbackInstanceMods_eq)
  ultimately show ?thesis by blast
qed

definition demo_mod :: "string \<Rightarrow> string \<Rightarrow> instance_mod" where
  "demo_mod fn v = \<lparr>InstanceID = ''i'', FullName = fn, Source = Thunderstore, Version = v,
     InstalledAs = InstalledDependency, Side = ''unknown'', Enabled = True, Locked = False,
     FileManifest = [], InstalledAt = ''t0''\<rparr>"

definition demo_tables :: mod_tables where
  "demo_tables = \<lparr>mod_packages = [], mod_versions = [],
     instance_mods = [demo_mod ''a'' ''1.0.0'', demo_mod ''c'' ''1.0.0'']\<rparr>"

theorem rollback_restores_rows_witness:
  "\<exists>u w. TxUpsertInstanceMods ''t1'' [demo_mod ''a'' ''2.0.0'', demo_mod ''b'' ''1.0.0''] demo_tables = Inr u \<and>
     rollbackInstall ''t2'' ''i'' (staged_for demo_tables (\<lambda>n. True) [demo_mod ''a'' ''2.0.0'', demo_mod ''b'' ''1.0.0'']) u = Inr ([], w) \<and>
     demo_mod ''a'' ''1.0.0'' \<in> set (instance_mods w) \<and> demo_mod ''b'' ''1.0.0'' \<notin> set (instance_mods w)"
proof -
  let ?ms = "[demo_mod ''a'' ''2.0.0'', demo_mod ''b'' ''1.0.0'']"
  have ok: "tables_ok demo_tables" by (simp add: tables_ok_def demo_tables_def demo_mod_def mod_key_def)
  have st: "list_all (\<lambda>r. InstalledAt r \<noteq> []) (instance_mods demo_tables)" by (simp add: demo_tables_def demo_mod_def)
  have mine: "list_all (\<lambda>m. InstanceID m = ''i'') ?ms" and d: "distinct (map FullName ?ms)"
    by (simp_all add: demo_mod_def)
  have "list_all (\<lambda>m. Source m \<noteq> NoSource) ?ms" by (simp add: demo_mod_def)
  then obtain u where u: "TxUpsertInstanceMods ''t1'' ?ms demo_tables = Inr u"
    using TxUpsertInstanceMods_total by blast
  from rollback_restores_rows [OF ok st mine d u, of "''t2''" "\<lambda>n. True"]
  obtain w where w: "rollbackInstall ''t2'' ''i'' (staged_for demo_tables (\<lambda>n. True) ?ms) u = Inr ([], w)"
    and rows: "\<forall>r. r \<in> set (instance_mods w) \<longleftrightarrow> r \<in> set (instance_mods demo_tables)" by auto
  have "demo_mod ''a'' ''1.0.0'' \<in> set (instance_mods demo_tables)"
    "demo_mod ''b'' ''1.0.0'' \<notin> set (instance_mods demo_tables)" by (simp_all add: demo_tables_def demo_mod_def)
  with u w rows show ?thesis by blast
qed

text \<open>C40. The mod tables stay well-formed. From empty tables, after any sequence of registry syncs,
  installs, deletions, rollbacks, toggles, locks and side tags, no two rows share a key of the schema
  and every row names the registry it came from.\<close>

theorem mod_tables_wellformed:
  assumes "mod_write\<^sup>*\<^sup>* \<lparr>mod_packages = [], mod_versions = [], instance_mods = []\<rparr> t"
  shows "tables_ok t"
  using assms
proof (induction rule: rtranclp_induct)
  case base
  show ?case by (simp add: tables_ok_def)
next
  case (step t u)
  then show ?case by (blast intro: mod_write_ok)
qed

theorem mod_tables_wellformed_witness:
  "\<exists>t. TxUpsertInstanceMods ''t0'' [demo_mod ''a'' ''1.0.0''] \<lparr>mod_packages = [], mod_versions = [], instance_mods = []\<rparr> = Inr t \<and> tables_ok t"
proof -
  let ?e = "\<lparr>mod_packages = [], mod_versions = [], instance_mods = []\<rparr> :: mod_tables"
  have "list_all (\<lambda>m. Source m \<noteq> NoSource) [demo_mod ''a'' ''1.0.0'']" by (simp add: demo_mod_def)
  then obtain t where t: "TxUpsertInstanceMods ''t0'' [demo_mod ''a'' ''1.0.0''] ?e = Inr t"
    using TxUpsertInstanceMods_total by blast
  then have "mod_write\<^sup>*\<^sup>* ?e t" by (intro r_into_rtranclp mod_write.install)
  from mod_tables_wellformed [OF this] t show ?thesis by blast
qed

end
