(* ===== verification/Mod_Index.thy ===== *)
theory Mod_Index
  imports Mod_Store Resolver_Properties
begin

text \<open>
  \<open>internal/mods/manager/index.go\<close>: the adapter that gives the resolver one instance's view of the
  catalogue. It decides which registry answers for a package, remembers the answer per
  package-version, and captures the first read that fails. \<open>to_index\<close> is the pure view of it the
  resolver's model takes; the interpretation of \<open>finite_index\<close> on it discharges what the resolver's
  termination rests on. The lemmas show that reading through the adapter never changes the view
  until a read fails.
\<close>

subsection \<open>The index\<close>

text \<open>\<open>have\<close> is a Go map whose keys are ranged over: an association list without duplicate keys.\<close>

record mod_index =
  enabled :: "source list"
  preferred :: source
  chosen_from :: "string \<rightharpoonup> source"
  have_mods :: "(string \<times> catalogued_mod) list"
  held :: "string \<Rightarrow> bool"
  requested :: string
  pinned :: "string \<rightharpoonup> source"
  idx_err :: bool

abbreviation have_mod :: "mod_index \<Rightarrow> string \<Rightarrow> catalogued_mod option" where
  "have_mod m \<equiv> map_of (have_mods m)"

definition NewIndex :: "mod_tables \<Rightarrow> string \<Rightarrow> source \<Rightarrow> source list \<Rightarrow> mod_index" where
  "NewIndex t iid prefer' enabled' =
     fold (\<lambda>row m. m\<lparr>have_mods := AList.update (FullName (Mod row)) row (have_mods m),
                      held := (held m)(FullName (Mod row) := Locked (Mod row))\<rparr>)
       (InstanceModsCatalogued t iid)
       \<lparr>enabled = enabled', preferred = prefer', chosen_from = Map.empty, have_mods = [], held = (\<lambda>n. False),
        requested = [], pinned = Map.empty, idx_err = False\<rparr>"

definition index_Rows :: "mod_index \<Rightarrow> instance_mod list" where
  "index_Rows m = map (\<lambda>n. Mod (the (have_mod m n))) (sort (map fst (have_mods m)))"

definition SourceOf :: "mod_index \<Rightarrow> string \<Rightarrow> string \<Rightarrow> source" where
  "SourceOf m fn v =
     (case have_mod m fn of
        Some row \<Rightarrow> if Version (Mod row) = v then Source (Mod row)
                    else map_get (chosen_from m) NoSource (version_key fn v)
      | None \<Rightarrow> map_get (chosen_from m) NoSource (version_key fn v))"

text \<open>The registries \<open>Dependencies\<close> may answer from; \<^term>\<open>None\<close> where it returns early.\<close>

definition allowed_installed :: "mod_index \<Rightarrow> string \<Rightarrow> string \<Rightarrow> source list \<Rightarrow> source list option" where
  "allowed_installed m fn v allowed =
     (case have_mod m fn of
        None \<Rightarrow> Some allowed
      | Some row \<Rightarrow>
          if Version (Mod row) \<noteq> v \<and> Source (Mod row) \<notin> set allowed then None else Some [Source (Mod row)])"

definition allowed_pinned :: "mod_index \<Rightarrow> string \<Rightarrow> source list \<Rightarrow> source list option" where
  "allowed_pinned m fn allowed =
     (case pinned m fn of None \<Rightarrow> Some allowed | Some pin \<Rightarrow> if pin \<notin> set allowed then None else Some [pin])"

definition allowed_requested :: "mod_index \<Rightarrow> string \<Rightarrow> source list \<Rightarrow> source list option" where
  "allowed_requested m fn allowed =
     (if fn = requested m \<and> preferred m \<noteq> NoSource
      then if preferred m \<notin> set allowed then None else Some [preferred m]
      else Some allowed)"

definition allowed_for :: "mod_index \<Rightarrow> string \<Rightarrow> string \<Rightarrow> source list option" where
  "allowed_for m fn v =
     Option.bind (allowed_installed m fn v (enabled m))
       (\<lambda>a. Option.bind (allowed_pinned m fn a) (allowed_requested m fn))"

definition effective_prefer :: "mod_index \<Rightarrow> source" where
  "effective_prefer m = (if preferred m = NoSource \<and> enabled m \<noteq> [] then hd (enabled m) else preferred m)"

definition index_Dependencies ::
  "mod_tables \<Rightarrow> string \<Rightarrow> string \<Rightarrow> mod_index \<Rightarrow> string list option \<times> mod_index" where
  "index_Dependencies t fn v m =
     (if idx_err m then (None, m)
      else case allowed_for m fn v of
        None \<Rightarrow> (None, m)
      | Some allowed \<Rightarrow>
          (case ModVersionDependenciesFrom t fn v (effective_prefer m) allowed of
             Inl _ \<Rightarrow> (None, m\<lparr>idx_err := True\<rparr>)
           | Inr None \<Rightarrow> (None, m)
           | Inr (Some (deps, foundIn)) \<Rightarrow>
               (Some deps, m\<lparr>chosen_from := (chosen_from m)(version_key fn v \<mapsto> foundIn)\<rparr>)))"

definition index_Installed :: "mod_index \<Rightarrow> string \<Rightarrow> string option" where
  "index_Installed m fn = map_option (\<lambda>row. Version (Mod row)) (have_mod m fn)"

definition to_index :: "mod_tables \<Rightarrow> mod_index \<Rightarrow> index" where
  "to_index t m = \<lparr>Dependencies = (\<lambda>fn v. fst (index_Dependencies t fn v m)),
     Installed = index_Installed m, Held = held m\<rparr>"

text \<open>Whether reading the dependencies of one package-version fails, which \<open>Err\<close> then reports.\<close>

definition read_fails :: "mod_tables \<Rightarrow> mod_index \<Rightarrow> string \<Rightarrow> string \<Rightarrow> bool" where
  "read_fails t m fn v \<longleftrightarrow> idx_err (snd (index_Dependencies t fn v m))"

text \<open>A run of calls of \<open>Dependencies\<close>, as a resolve makes them.\<close>

definition index_run :: "mod_tables \<Rightarrow> (string \<times> string) list \<Rightarrow> mod_index \<Rightarrow> mod_index" where
  "index_run t qs m = fold (\<lambda>(fn, v) m. snd (index_Dependencies t fn v m)) qs m"

subsection \<open>Lemmas: what a read answers\<close>

lemma ModVersionDependenciesFrom_SomeD:
  assumes "ModVersionDependenciesFrom t fn v p allowed = Inr (Some (ds, s))"
  shows "\<exists>r \<in> set (mod_versions t). MVFullName r = fn \<and> MVVersion r = v \<and> MVSource r = s \<and>
     MVDependencies r = Some ds \<and> s \<in> set allowed"
proof -
  from assms obtain r rs where r: "candidate_versions t fn v p allowed = r # rs" "MVDependencies r = Some ds" "MVSource r = s"
    by (auto simp: ModVersionDependenciesFrom_def split: if_splits list.splits option.splits)
  have "r \<in> set (candidate_versions t fn v p allowed)" by (simp add: r(1))
  with r(2,3) show ?thesis by (auto simp: candidate_versions_def)
qed

lemma ModVersionDependenciesFrom_preferred:
  assumes "ModVersionDependenciesFrom t fn v p allowed = Inr (Some (ds, s))" and "s \<noteq> p"
    and "r \<in> set (mod_versions t)" "MVFullName r = fn" "MVVersion r = v" "MVSource r \<in> set allowed"
  shows "MVSource r \<noteq> p"
proof
  assume p: "MVSource r = p"
  from assms(1) obtain q qs where q: "candidate_versions t fn v p allowed = q # qs" "MVSource q = s"
    by (auto simp: ModVersionDependenciesFrom_def split: if_splits list.splits option.splits)
  have "r \<in> set (candidate_versions t fn v p allowed)" using assms(3-6) by (simp add: candidate_versions_def)
  moreover have "sorted (map (\<lambda>r. source_String (MVSource r) \<noteq> source_String p) (candidate_versions t fn v p allowed))"
    unfolding candidate_versions_def by (rule sorted_sort_key)
  ultimately show False using q p assms(2) by auto
qed

lemma allowed_for_installed:
  "allowed_for m fn v = Some a \<Longrightarrow> have_mod m fn = Some row \<Longrightarrow> s \<in> set a \<Longrightarrow> s = Source (Mod row)"
  by (auto simp: allowed_for_def allowed_installed_def allowed_pinned_def allowed_requested_def
      split: Option.bind_splits option.splits if_splits)

lemma allowed_for_pinned:
  "allowed_for m fn v = Some a \<Longrightarrow> pinned m fn = Some pin \<Longrightarrow> s \<in> set a \<Longrightarrow> s = pin"
  by (auto simp: allowed_for_def allowed_pinned_def allowed_requested_def
      split: Option.bind_splits option.splits if_splits)

lemma allowed_for_requested:
  "allowed_for m fn v = Some a \<Longrightarrow> fn = requested m \<Longrightarrow> preferred m \<noteq> NoSource \<Longrightarrow> s \<in> set a \<Longrightarrow> s = preferred m"
  by (auto simp: allowed_for_def allowed_requested_def split: Option.bind_splits option.splits if_splits)

text \<open>A moved package comes from an enabled registry.\<close>

lemma allowed_for_enabled:
  "allowed_for m fn v = Some a \<Longrightarrow> s \<in> set a \<Longrightarrow> index_Installed m fn \<noteq> Some v \<Longrightarrow> s \<in> set (enabled m)"
  by (auto simp: allowed_for_def allowed_installed_def allowed_pinned_def allowed_requested_def index_Installed_def
      split: Option.bind_splits option.splits if_splits)

lemma index_Dependencies_SomeD:
  assumes "index_Dependencies t fn v m = (Some ds, m')"
  obtains a s r where "allowed_for m fn v = Some a" "s \<in> set a"
    "ModVersionDependenciesFrom t fn v (effective_prefer m) a = Inr (Some (ds, s))"
    "m' = m\<lparr>chosen_from := (chosen_from m)(version_key fn v \<mapsto> s)\<rparr>"
    "r \<in> set (mod_versions t)" "MVFullName r = fn" "MVVersion r = v" "MVSource r = s" "MVDependencies r = Some ds"
proof -
  from assms obtain a s where a: "allowed_for m fn v = Some a"
    "ModVersionDependenciesFrom t fn v (effective_prefer m) a = Inr (Some (ds, s))"
    "m' = m\<lparr>chosen_from := (chosen_from m)(version_key fn v \<mapsto> s)\<rparr>"
    by (auto simp: index_Dependencies_def split: if_splits option.splits sum.splits)
  from ModVersionDependenciesFrom_SomeD [OF a(2)] show ?thesis using that a by blast
qed

interpretation mi: finite_index "to_index t m" "MVFullName ` set (mod_versions t)" for t m
proof unfold_locales
  fix fn v ds
  assume "Dependencies (to_index t m) fn v = Some ds"
  then have "index_Dependencies t fn v m = (Some ds, snd (index_Dependencies t fn v m))"
    by (simp add: to_index_def prod_eq_iff)
  then show "fn \<in> MVFullName ` set (mod_versions t)" by (rule index_Dependencies_SomeD) auto
qed simp

subsection \<open>Lemmas: reading does not change the view\<close>

lemma allowed_for_chosen [simp]:
  "allowed_for (m\<lparr>chosen_from := c\<rparr>) fn v = allowed_for m fn v"
  "effective_prefer (m\<lparr>chosen_from := c\<rparr>) = effective_prefer m"
proof -
  have "allowed_requested (m\<lparr>chosen_from := c\<rparr>) fn = allowed_requested m fn"
    by (rule ext) (simp add: allowed_requested_def)
  then show "allowed_for (m\<lparr>chosen_from := c\<rparr>) fn v = allowed_for m fn v"
    by (simp add: allowed_for_def allowed_installed_def allowed_pinned_def)
qed (simp add: effective_prefer_def)

lemma index_Dependencies_chosen [simp]:
  "fst (index_Dependencies t fn v (m\<lparr>chosen_from := c\<rparr>)) = fst (index_Dependencies t fn v m)"
  "idx_err (snd (index_Dependencies t fn v (m\<lparr>chosen_from := c\<rparr>))) = idx_err (snd (index_Dependencies t fn v m))"
  by (simp_all add: index_Dependencies_def split: option.splits sum.splits)

lemma to_index_chosen [simp]: "to_index t (m\<lparr>chosen_from := c\<rparr>) = to_index t m"
  by (simp add: to_index_def index_Installed_def fun_eq_iff)

lemma index_Dependencies_next:
  "\<not> idx_err (snd (index_Dependencies t fn v m)) \<Longrightarrow>
   \<exists>c. snd (index_Dependencies t fn v m) = m\<lparr>chosen_from := c\<rparr>"
  by (auto simp: index_Dependencies_def split: option.splits sum.splits intro: exI [of _ "chosen_from m"])

lemma idx_err_sticky: "idx_err m \<Longrightarrow> index_Dependencies t fn v m = (None, m)"
  by (simp add: index_Dependencies_def)

lemma index_run_snoc: "index_run t (qs @ [(fn, v)]) m = snd (index_Dependencies t fn v (index_run t qs m))"
  by (simp add: index_run_def)

lemma index_run_chosen:
  "\<not> idx_err (index_run t qs m) \<Longrightarrow> \<exists>c. index_run t qs m = m\<lparr>chosen_from := c\<rparr>"
proof (induction qs rule: rev_induct)
  case Nil
  show ?case by (intro exI [of _ "chosen_from m"]) (simp add: index_run_def)
next
  case (snoc q qs)
  obtain fn v where q: "q = (fn, v)" by (cases q)
  let ?m = "index_run t qs m"
  from snoc.prems have n: "\<not> idx_err (snd (index_Dependencies t fn v ?m))" by (simp add: q index_run_snoc)
  then have "\<not> idx_err ?m" by (auto simp: idx_err_sticky)
  with snoc.IH obtain c where "?m = m\<lparr>chosen_from := c\<rparr>" by blast
  with index_Dependencies_next [OF n] show ?case by (auto simp: q index_run_snoc)
qed

lemma index_run_err: "idx_err (index_run t qs m) \<longleftrightarrow> idx_err m \<or> (\<exists>(fn, v) \<in> set qs. read_fails t m fn v)"
proof (induction qs rule: rev_induct)
  case Nil
  show ?case by (simp add: index_run_def)
next
  case (snoc q qs)
  obtain fn v where q: "q = (fn, v)" by (cases q)
  show ?case
  proof (cases "idx_err (index_run t qs m)")
    case True
    then show ?thesis using snoc.IH by (auto simp: q index_run_snoc idx_err_sticky)
  next
    case False
    then obtain c where "index_run t qs m = m\<lparr>chosen_from := c\<rparr>" using index_run_chosen by blast
    then show ?thesis using snoc.IH False by (auto simp: q index_run_snoc read_fails_def)
  qed
qed

lemma index_run_SourceOf:
  assumes "\<not> idx_err (index_run t qs m)" and "(fn, v) \<in> set qs"
    and "\<forall>(f, w) \<in> set qs. CHR ''@'' \<notin> set w"
    and "index_Dependencies t fn v m = (Some ds, m')"
  shows "chosen_from (index_run t qs m) (version_key fn v) = chosen_from m' (version_key fn v)"
  using assms(1-3)
proof (induction qs rule: rev_induct)
  case (snoc q qs)
  obtain f w where q: "q = (f, w)" by (cases q)
  let ?m = "index_run t qs m"
  from snoc.prems(1) have n: "\<not> idx_err (snd (index_Dependencies t f w ?m))" by (simp add: q index_run_snoc)
  then have nm: "\<not> idx_err ?m" by (auto simp: idx_err_sticky)
  then obtain c where m: "?m = m\<lparr>chosen_from := c\<rparr>" using index_run_chosen by blast
  show ?case
  proof (cases "q = (fn, v)")
    case True
    have "fst (index_Dependencies t fn v ?m) = Some ds" using assms(4) by (simp add: m)
    then have "index_Dependencies t fn v ?m = (Some ds, snd (index_Dependencies t fn v ?m))" by (simp add: prod_eq_iff)
    then obtain a s where "allowed_for ?m fn v = Some a"
      "ModVersionDependenciesFrom t fn v (effective_prefer ?m) a = Inr (Some (ds, s))"
      "snd (index_Dependencies t fn v ?m) = ?m\<lparr>chosen_from := (chosen_from ?m)(version_key fn v \<mapsto> s)\<rparr>"
      by (rule index_Dependencies_SomeD)
    moreover from assms(4) obtain a' s' where "allowed_for m fn v = Some a'"
      "ModVersionDependenciesFrom t fn v (effective_prefer m) a' = Inr (Some (ds, s'))"
      "m' = m\<lparr>chosen_from := (chosen_from m)(version_key fn v \<mapsto> s')\<rparr>"
      by (rule index_Dependencies_SomeD)
    moreover have "allowed_for ?m fn v = allowed_for m fn v" "effective_prefer ?m = effective_prefer m"
      by (simp_all add: m)
    ultimately show ?thesis using True by (simp add: q index_run_snoc)
  next
    case False
    then have "(fn, v) \<in> set qs" using snoc.prems(2) by simp
    with snoc.IH nm snoc.prems(3) have IH: "chosen_from ?m (version_key fn v) = chosen_from m' (version_key fn v)" by simp
    have "version_key fn v \<noteq> version_key f w"
      using version_key_inject [of fn v f w] snoc.prems(3) \<open>(fn, v) \<in> set qs\<close> False by (auto simp: q)
    then have "chosen_from (snd (index_Dependencies t f w ?m)) (version_key fn v) = chosen_from ?m (version_key fn v)"
      by (auto simp: index_Dependencies_def split: option.splits sum.splits)
    with IH show ?thesis by (simp add: q index_run_snoc)
  qed
qed simp

subsection \<open>Resolving over the catalogue\<close>

text \<open>\<open>modresolver.Resolve\<close> on an index over the catalogue, with fuel that always suffices.\<close>

definition resolve_fuel :: "mod_tables \<Rightarrow> nat" where
  "resolve_fuel t = Suc (length (mod_versions t))"

lemma resolve_fuel_suffices:
  "\<exists>r. \<forall>k. Resolve (resolve_fuel t + k) reqs (to_index t m) = Some r"
proof -
  have "card (MVFullName ` set (mod_versions t)) \<le> length (mod_versions t)"
    by (metis card_length length_map set_map)
  then have "Resolve (resolve_fuel t) reqs (to_index t m) \<noteq> None"
    by (intro mi.resolve_terminates) (simp add: resolve_fuel_def)
  then obtain r where "Resolve (resolve_fuel t) reqs (to_index t m) = Some r" by blast
  from Resolve_fuel_add [OF this] show ?thesis by blast
qed

text \<open>C24. Resolving always returns: over any catalogue and any index on it, fuel of one more than
  the number of catalogued versions suffices, and more fuel gives the same answer.\<close>

theorem Resolve_terminates_on_catalogue:
  "\<exists>r. \<forall>k. Resolve (Suc (length (mod_versions t)) + k) reqs (to_index t m) = Some r"
  using resolve_fuel_suffices [of t reqs m] by (simp add: resolve_fuel_def)

text \<open>Each resolved version is fetched from a registry that carries it. Whatever sequence of
  reads a resolve makes on an index, as long as none fails they leave its view unchanged, and for a
  version they answered \<open>SourceOf\<close> names a registry whose catalogue row is the one whose dependencies
  were answered: the installed package's own registry, else the pinned one, else the one the request
  names for its package, and an enabled one for any version but the installed. (Versions hold no
  \<open>@\<close>, which would make the keys ambiguous; no version the panel parses does.)\<close>

lemma SourceOf_carries_version:
  assumes "\<not> idx_err (index_run t qs m)" and "(fn, v) \<in> set qs"
    and "Dependencies (to_index t m) fn v = Some ds"
    and "\<forall>(f, w) \<in> set qs. CHR ''@'' \<notin> set w"
  shows "to_index t (index_run t qs m) = to_index t m \<and>
    (\<exists>r \<in> set (mod_versions t). MVFullName r = fn \<and> MVVersion r = v \<and> MVDependencies r = Some ds \<and>
       MVSource r = SourceOf (index_run t qs m) fn v \<and>
       (\<forall>row. have_mod m fn = Some row \<longrightarrow> MVSource r = Source (Mod row)) \<and>
       (\<forall>pin. pinned m fn = Some pin \<longrightarrow> MVSource r = pin) \<and>
       (fn = requested m \<and> preferred m \<noteq> NoSource \<longrightarrow> MVSource r = preferred m) \<and>
       (index_Installed m fn \<noteq> Some v \<longrightarrow> MVSource r \<in> set (enabled m)))"
proof -
  obtain c where run: "index_run t qs m = m\<lparr>chosen_from := c\<rparr>" using index_run_chosen [OF assms(1)] by blast
  let ?m' = "snd (index_Dependencies t fn v m)"
  have d: "index_Dependencies t fn v m = (Some ds, ?m')" using assms(3) by (simp add: to_index_def prod_eq_iff)
  from d obtain a s r where a: "allowed_for m fn v = Some a" "s \<in> set a"
    and m': "?m' = m\<lparr>chosen_from := (chosen_from m)(version_key fn v \<mapsto> s)\<rparr>"
    and r: "r \<in> set (mod_versions t)" "MVFullName r = fn" "MVVersion r = v" "MVSource r = s" "MVDependencies r = Some ds"
    by (rule index_Dependencies_SomeD)
  have "c (version_key fn v) = Some s"
    using index_run_SourceOf [OF assms(1,2,4) d] by (simp add: run m')
  then have "SourceOf (index_run t qs m) fn v = s"
    using allowed_for_installed [OF a(1) _ a(2)] by (auto simp: run SourceOf_def split: option.splits)
  with r a allowed_for_installed [OF a(1) _ a(2)] allowed_for_pinned [OF a(1) _ a(2)]
    allowed_for_requested [OF a(1) _ _ a(2)] allowed_for_enabled [OF a] show ?thesis
    by (intro conjI bexI [of _ r]) (auto simp: run)
qed

definition demo_catalogue :: mod_tables where
  "demo_catalogue = \<lparr>mod_packages = [], mod_versions = [
     \<lparr>MVFullName = ''a'', MVSource = Thunderstore, MVVersion = ''1.0.0'', MVDependencies = Some [''c-1.0.0'']\<rparr>,
     \<lparr>MVFullName = ''c'', MVSource = Hexium, MVVersion = ''1.0.0'', MVDependencies = Some []\<rparr>],
   instance_mods = []\<rparr>"

end
