(* ===== verification/Mod_Plan.thy ===== *)
theory Mod_Plan
  imports Mod_Index Resolver_Errors
begin

text \<open>
  \<open>internal/mods/manager/plan.go\<close> and \<open>catalog.go\<close>: what one install or one batch of updates would
  do. A plan is the resolver's closure, the modpack members it drops, the ones it keeps where they
  are, and the dependencies the result would leave unmet. Go maps that are ranged over are
  association lists without duplicate keys. A read of the catalogue that fails makes every planner
  return that error; the model says so with the reads that were made (\<open>read_fails\<close>). A package's
  categories are what \<open>json.Unmarshal\<close> left in the slice.
\<close>

subsection \<open>Catalogue selection\<close>

definition BepInExPack :: string where
  "BepInExPack = ''denikson-BepInExPack_Valheim''"

definition modpackCategory :: string where
  "modpackCategory = ''Modpacks''"

definition IndexedPackage ::
  "mod_tables \<Rightarrow> string \<Rightarrow> source \<Rightarrow> source list option \<Rightarrow> mod_package option" where
  "IndexedPackage t fn prefer' allowed =
     (let rows = (case allowed of
                    None \<Rightarrow> ModPackagesByFullName t fn
                  | Some a \<Rightarrow> filter (\<lambda>p. PkgSource p \<in> set a) (ModPackagesByFullName t fn))
      in if rows = [] then None
         else case List.map_filter (\<lambda>want. find (\<lambda>p. PkgSource p = want) rows) (prefer' # source_All) of
                p # _ \<Rightarrow> Some p
              | [] \<Rightarrow> Some (hd rows))"

text \<open>One round of the loop of \<open>LatestBepInEx\<close>; the accumulator is \<open>version\<close> and \<open>best\<close> once \<open>ok\<close>. The
  first listed version is taken even when it does not parse; \<open>best\<close> is then the zero \<open>Version\<close>.\<close>

definition zero_version :: version where
  "zero_version = \<lparr>Core = [0, 0, 0], Pre = []\<rparr>"

definition parsed_or_zero :: "string \<Rightarrow> version" where
  "parsed_or_zero s = (case ParseVersion s of Some v \<Rightarrow> v | None \<Rightarrow> zero_version)"

definition bepinex_step ::
  "source list \<Rightarrow> source \<Rightarrow> mod_package \<Rightarrow> (string \<times> version) option \<Rightarrow> (string \<times> version) option" where
  "bepinex_step enabled' prefer' p acc =
     (let candidate = LatestVersion p; parsed = parsed_or_zero candidate
      in if PkgSource p \<notin> set enabled' \<or> candidate = [] then acc
         else case acc of
           None \<Rightarrow> Some (candidate, parsed)
         | Some (_, best) \<Rightarrow>
             if ParseVersion candidate = None then acc
             else if 0 < Compare parsed best \<or> parsed = best \<and> PkgSource p = prefer'
             then Some (candidate, parsed) else acc)"

definition LatestBepInEx :: "mod_tables \<Rightarrow> source list \<Rightarrow> source \<Rightarrow> string option" where
  "LatestBepInEx t enabled' prefer' =
     map_option fst (fold (bepinex_step enabled' prefer') (ModPackagesByFullName t BepInExPack) None)"

subsection \<open>Modpacks\<close>

datatype kept_reason = keptLocked | keptManual | keptNewer | keptChanged | keptDisabled | keptRequired

record kept_member =
  KMFullName :: string
  KMVersion :: string
  PackVersion :: string
  KMReason :: kept_reason

record pack_change =
  PIsPack :: bool
  pack_requests :: "request list"
  pack_kept :: "kept_member list"
  dropped :: "(string \<times> string) list"

definition IsPack :: "mod_package option \<Rightarrow> bool" where
  "IsPack pkg = (case pkg of None \<Rightarrow> False | Some p \<Rightarrow> modpackCategory \<in> set (Categories p))"

definition pins :: "string list \<Rightarrow> (string \<times> string) list" where
  "pins deps = fold (\<lambda>dep m. case ParseDependency dep of Some (n, v) \<Rightarrow> AList.update n v m | None \<Rightarrow> m) deps []"

definition FollowsPack :: "instance_mod \<Rightarrow> string \<Rightarrow> bool" where
  "FollowsPack row pin \<longleftrightarrow> InstalledAs row = InstalledDependency \<and> \<not> Locked row \<and> Version row = pin"

definition newer :: "string \<Rightarrow> string \<Rightarrow> bool" where
  "newer candidate installed =
     (case (ParseVersion candidate, ParseVersion installed) of
        (Some c, Some i) \<Rightarrow> 0 < Compare c i
      | _ \<Rightarrow> False)"

text \<open>\<open>member\<close> decides one pinned member; it may hold the package in the index.\<close>

definition pack_member ::
  "string \<Rightarrow> string \<Rightarrow> string \<Rightarrow> pack_change \<times> mod_index \<Rightarrow> pack_change \<times> mod_index" where
  "pack_member name pin prevPin cm =
     (case cm of (c, m) \<Rightarrow>
        (case have_mod m name of
           None \<Rightarrow> (c, m)
         | Some crow \<Rightarrow>
             if name = BepInExPack then (c, m)
             else let row = Mod crow;
                      kept = (\<lambda>why. \<lparr>KMFullName = name, KMVersion = Version row, PackVersion = pin, KMReason = why\<rparr>)
                  in if Locked row \<or> InstalledAs row = InstalledExplicit
                     then (if Version row \<noteq> pin
                           then c\<lparr>pack_kept := pack_kept c @ [kept (if Locked row then keptLocked else keptManual)]\<rparr> else c,
                           m\<lparr>held := (held m)(name := True)\<rparr>)
                     else if prevPin = Version row
                     then (c\<lparr>pack_requests := pack_requests c @ [\<lparr>ReqName = name, ReqVersion = pin\<rparr>]\<rparr>, m)
                     else if newer (Version row) pin
                     then (c\<lparr>pack_kept := pack_kept c @ [kept keptNewer]\<rparr>, m)
                     else (c, m)))"

definition no_pack :: pack_change where
  "no_pack = \<lparr>PIsPack = False, pack_requests = [], pack_kept = [], dropped = []\<rparr>"

text \<open>The pins of the installed pack version, none when the pack is not installed or not answered.\<close>

definition prev_pins :: "mod_tables \<Rightarrow> string \<Rightarrow> mod_index \<Rightarrow> (string \<times> string) list \<times> mod_index" where
  "prev_pins t fn m =
     (case have_mod m fn of
        None \<Rightarrow> ([], m)
      | Some row \<Rightarrow> (case index_Dependencies t fn (Version (Mod row)) m of
                       (Some deps, m') \<Rightarrow> (pins deps, m')
                     | (None, m') \<Rightarrow> ([], m')))"

definition pack_members ::
  "(string \<times> string) list \<Rightarrow> (string \<times> string) list \<Rightarrow> pack_change \<times> mod_index \<Rightarrow> pack_change \<times> mod_index" where
  "pack_members next prev =
     fold (\<lambda>name. pack_member name (map_get (map_of next) [] name) (map_get (map_of prev) [] name)) (sort (map fst next))"

definition planPack ::
  "mod_tables \<Rightarrow> source list \<Rightarrow> string \<Rightarrow> string \<Rightarrow> mod_index \<Rightarrow> pack_change \<times> mod_index" where
  "planPack t enabled' fn v m =
     (if \<not> IsPack (IndexedPackage t fn (preferred m) (Some enabled')) then (no_pack, m)
      else case index_Dependencies t fn v m of
        (None, m1) \<Rightarrow> (no_pack\<lparr>PIsPack := True\<rparr>, m1)
      | (Some deps, m1) \<Rightarrow>
          (case prev_pins t fn m1 of (prev, m2) \<Rightarrow>
             (case pack_members (pins deps) prev (no_pack\<lparr>PIsPack := True\<rparr>, m2) of (c, m3) \<Rightarrow>
                (c\<lparr>dropped := filter (\<lambda>(name, pin). map_of (pins deps) name = None \<and> name \<noteq> BepInExPack) prev\<rparr>, m3))))"

subsection \<open>What a change leaves behind\<close>

definition plannedVersions :: "node list \<Rightarrow> mod_index \<Rightarrow> string list \<Rightarrow> (string \<times> string) list" where
  "plannedVersions nodes m removals =
     fold AList.delete removals
       (fold (\<lambda>n. AList.update (NodeName n) (NodeVersion n)) nodes
         (map (\<lambda>(name, row). (name, Version (Mod row))) (have_mods m)))"

definition changed_by :: "node list \<Rightarrow> string list \<Rightarrow> string set" where
  "changed_by nodes removals = set (map NodeName (filter (\<lambda>n. \<not> NoOp n) nodes) @ removals)"

definition conflictsOf ::
  "mod_tables \<Rightarrow> node list \<Rightarrow> string list \<Rightarrow> (string \<Rightarrow> bool) \<Rightarrow> mod_index \<Rightarrow> conflict list" where
  "conflictsOf t nodes removals packs m =
     (let planned = plannedVersions nodes m removals
      in filter (\<lambda>c. \<not> packs (ConfName c))
           (Check (map fst planned) (map_of planned) (changed_by nodes removals) (to_index t m)))"

definition installedPacks :: "mod_index \<Rightarrow> string \<Rightarrow> bool" where
  "installedPacks m name = (case have_mod m name of None \<Rightarrow> False | Some row \<Rightarrow> IsPack (Package row))"

subsection \<open>Dropped members\<close>

definition dropRefusal :: "instance_mod \<Rightarrow> string \<Rightarrow> kept_reason option" where
  "dropRefusal row pin =
     (if Locked row then Some keptLocked
      else if InstalledAs row = InstalledExplicit then Some keptManual
      else if \<not> Enabled row then Some keptDisabled
      else if Version row \<noteq> pin then Some keptChanged
      else None)"

definition neededBy :: "string \<Rightarrow> string list \<Rightarrow> (string \<times> (string \<times> string) list) list \<Rightarrow> bool" where
  "neededBy name remove needs =
     list_ex (\<lambda>(other, deps). name \<in> set (map fst deps) \<and> other \<notin> set remove) needs"

text \<open>The inner loop of \<open>keepRequired\<close> over the names \<open>remove\<close> had when it began; its results are
  \<open>remove\<close>, the names it kept in order, and \<open>again\<close>.\<close>

fun keep_pass ::
  "(string \<times> (string \<times> string) list) list \<Rightarrow> string list \<Rightarrow> string list \<times> string list \<times> bool \<Rightarrow> string list \<times> string list \<times> bool" where
  "keep_pass needs [] acc = acc"
| "keep_pass needs (name # names) (remove, kept, again) =
     (if \<not> neededBy name remove needs then keep_pass needs names (remove, kept, again)
      else keep_pass needs names (removeAll name remove, kept @ [name], True))"

lemma keep_pass_length:
  "keep_pass needs names (remove, kept, again) = (remove', kept', again') \<Longrightarrow>
   length remove' \<le> length remove \<and> (again' \<and> \<not> again \<and> set names \<subseteq> set remove \<longrightarrow> length remove' < length remove)"
proof (induction names arbitrary: remove kept again)
  case (Cons n ns)
  show ?case
  proof (cases "neededBy n remove needs")
    case True
    with Cons.IH [of "removeAll n remove"] Cons.prems have "length remove' \<le> length (removeAll n remove)" by auto
    moreover have "length (removeAll n remove) \<le> length remove" by (simp add: removeAll_filter_not_eq)
    moreover have "length (removeAll n remove) < length remove" if "n \<in> set remove" using that by (rule length_removeAll_less)
    ultimately have "length remove' \<le> length remove" "n \<in> set remove \<Longrightarrow> length remove' < length remove" by linarith+
    then show ?thesis by auto
  next
    case False
    with Cons.IH [of remove kept again] Cons.prems show ?thesis by auto
  qed
qed simp

function keep_loop ::
  "(string \<times> (string \<times> string) list) list \<Rightarrow> string list \<Rightarrow> string list \<Rightarrow> string list \<times> string list" where
  "keep_loop needs remove kept =
     (case keep_pass needs (sort remove) (remove, kept, False) of
        (remove', kept', again) \<Rightarrow> if again then keep_loop needs remove' kept' else (remove', kept'))"
  by pat_completeness auto
termination
proof (relation "measure (\<lambda>(needs, remove, kept). length remove)", goal_cases)
  case (2 needs remove kept remove' y kept' again)
  then show ?case
    using keep_pass_length [of needs "sort remove" remove kept False remove' kept' again] by simp
qed simp

declare keep_loop.simps [simp del]

text \<open>\<open>keepRequired\<close>: the names left to remove and the members kept because something needs them.\<close>

definition needs_of :: "mod_tables \<Rightarrow> mod_index \<Rightarrow> (string \<times> string) list \<Rightarrow> (string \<times> (string \<times> string) list) list" where
  "needs_of t m planned =
     map (\<lambda>(name, v). (name, pins (case fst (index_Dependencies t name v m) of Some ds \<Rightarrow> ds | None \<Rightarrow> []))) planned"

definition keepRequired ::
  "mod_tables \<Rightarrow> string list \<Rightarrow> (string \<times> string) list \<Rightarrow> mod_index \<Rightarrow> string list \<times> kept_member list" where
  "keepRequired t remove planned m =
     (case keep_loop (needs_of t m planned) remove [] of (rest, kept) \<Rightarrow>
        (rest, map (\<lambda>name. \<lparr>KMFullName = name,
            KMVersion = (case have_mod m name of Some row \<Rightarrow> Version (Mod row) | None \<Rightarrow> []),
            PackVersion = [], KMReason = keptRequired\<rparr>) kept))"

definition droppable :: "mod_index \<Rightarrow> (string \<times> string) list \<Rightarrow> string list" where
  "droppable m dropped' =
     filter (\<lambda>name. case have_mod m name of
         None \<Rightarrow> False
       | Some row \<Rightarrow> dropRefusal (Mod row) (map_get (map_of dropped') [] name) = None)
       (sort (map fst dropped'))"

definition refused_drops :: "mod_index \<Rightarrow> (string \<times> string) list \<Rightarrow> kept_member list" where
  "refused_drops m dropped' =
     List.map_filter (\<lambda>name. case have_mod m name of
         None \<Rightarrow> None
       | Some row \<Rightarrow> map_option (\<lambda>why. \<lparr>KMFullName = name, KMVersion = Version (Mod row), PackVersion = [], KMReason = why\<rparr>)
           (dropRefusal (Mod row) (map_get (map_of dropped') [] name)))
       (sort (map fst dropped'))"

definition dropPlan ::
  "mod_tables \<Rightarrow> (string \<times> string) list \<Rightarrow> (string \<times> string) list \<Rightarrow> mod_index \<Rightarrow> string list \<times> kept_member list" where
  "dropPlan t dropped' planned m =
     (let remove = droppable m dropped'; kept = refused_drops m dropped'
      in if remove = [] then ([], kept)
         else case keepRequired t remove planned m of (rest, kept2) \<Rightarrow> (sort rest, kept @ kept2))"

subsection \<open>Plans\<close>

record change_plan =
  Closure :: "node list"
  Removals :: "string list"
  Kept :: "kept_member list"
  Conflicts :: "conflict list"

text \<open>An error of a planner: a failed catalogue read, or the resolver's verdict.\<close>

datatype plan_error = ReadError | Refused resolve_error

definition resolve_all :: "mod_tables \<Rightarrow> request list \<Rightarrow> mod_index \<Rightarrow> resolve_error + node list" where
  "resolve_all t reqs m = the (Resolve (resolve_fuel t) reqs (to_index t m))"

text \<open>\<open>idx.err\<close> after a resolve. The resolver stops at the first package-version the index does not
  answer, so a failed read is the one its \<open>UnresolvedError\<close> names.\<close>

definition err_after_resolve :: "mod_tables \<Rightarrow> mod_index \<Rightarrow> resolve_error + node list \<Rightarrow> bool" where
  "err_after_resolve t m r \<longleftrightarrow>
     idx_err m \<or> (case r of Inl (UnresolvedError fn v) \<Rightarrow> read_fails t m fn v | _ \<Rightarrow> False)"

text \<open>\<open>idx.err\<close> after every package of the planned result was read.\<close>

definition err_after_reads :: "mod_tables \<Rightarrow> mod_index \<Rightarrow> (string \<times> string) list \<Rightarrow> bool" where
  "err_after_reads t m planned = list_ex (\<lambda>(name, v). read_fails t m name v) planned"

definition markTransitive :: "node list \<Rightarrow> string \<Rightarrow> node list" where
  "markTransitive nodes req = map (\<lambda>n. n\<lparr>Transitive := (NodeName n \<noteq> req)\<rparr>) nodes"

definition hasNode :: "node list \<Rightarrow> string \<Rightarrow> bool" where
  "hasNode nodes fn = list_ex (\<lambda>n. NodeName n = fn) nodes"

definition frameworkVersion :: "mod_tables \<Rightarrow> source list \<Rightarrow> mod_index \<Rightarrow> string option" where
  "frameworkVersion t enabled' m =
     (let latest = LatestBepInEx t enabled' (preferred m)
      in case index_Installed m BepInExPack of
           Some installed \<Rightarrow>
             if held m BepInExPack \<or> newer installed (case latest of Some v \<Rightarrow> v | None \<Rightarrow> [])
             then Some installed else latest
         | None \<Rightarrow> latest)"

definition install_requests ::
  "mod_tables \<Rightarrow> source list \<Rightarrow> string \<Rightarrow> string \<Rightarrow> pack_change \<Rightarrow> mod_index \<Rightarrow> request list" where
  "install_requests t enabled' fn v pack m =
     \<lparr>ReqName = fn, ReqVersion = v\<rparr> # pack_requests pack @
     (if fn = BepInExPack then []
      else case frameworkVersion t enabled' m of
        Some framework \<Rightarrow> [\<lparr>ReqName = BepInExPack, ReqVersion = framework\<rparr>]
      | None \<Rightarrow> [])"

text \<open>The plan once the closure is known: what the pack drops and keeps, and the conflicts.\<close>

definition finish_install_plan ::
  "mod_tables \<Rightarrow> string \<Rightarrow> pack_change \<Rightarrow> mod_index \<Rightarrow> node list \<Rightarrow> change_plan" where
  "finish_install_plan t fn pack m closure' =
     (let nodes = markTransitive closure' fn;
          drop' = filter (\<lambda>(name, pin). \<not> list_ex (\<lambda>n. NodeName n = name \<and> \<not> NoOp n) nodes) (dropped pack);
          (removals, kept) = dropPlan t drop' (plannedVersions nodes m []) m
      in \<lparr>Closure = nodes, Removals = removals, Kept = pack_kept pack @ kept,
          Conflicts = conflictsOf t nodes removals ((installedPacks m)(fn := PIsPack pack)) m\<rparr>)"

definition PlanInstall ::
  "mod_tables \<Rightarrow> source list \<Rightarrow> bool \<Rightarrow> string \<Rightarrow> string \<Rightarrow> mod_index \<Rightarrow> plan_error + (change_plan \<times> mod_index)" where
  "PlanInstall t enabled' modded fn v m =
     (if preferred m \<noteq> NoSource \<and> preferred m \<notin> set enabled' then Inl (Refused (UnresolvedError fn v))
      else case planPack t enabled' fn v (m\<lparr>requested := fn\<rparr>) of
        (pack, m2) \<Rightarrow>
          (let res = resolve_all t (install_requests t enabled' fn v pack m2) m2
           in if err_after_resolve t m2 res then Inl ReadError
              else case res of
                Inl e \<Rightarrow> Inl (Refused e)
              | Inr nodes \<Rightarrow>
                  if \<not> modded \<and> \<not> hasNode nodes BepInExPack
                  then Inl (Refused (UnresolvedError BepInExPack ''latest''))
                  else if err_after_reads t m2 (plannedVersions (markTransitive nodes fn) m2 []) then Inl ReadError
                  else Inr (finish_install_plan t fn pack m2 nodes, m2)))"

record update_target =
  TFullName :: string
  TSource :: string
  TFromVersion :: string
  TVersion :: string

definition pin_targets :: "update_target list \<Rightarrow> mod_index \<Rightarrow> mod_index" where
  "pin_targets targets m =
     fold (\<lambda>t m. case source_ByName (TSource t) of
               Some src \<Rightarrow> m\<lparr>pinned := (pinned m)(TFullName t \<mapsto> src)\<rparr>
             | None \<Rightarrow> m) targets m"

definition PlanUpdates ::
  "mod_tables \<Rightarrow> update_target list \<Rightarrow> mod_index \<Rightarrow> plan_error + (change_plan \<times> mod_index)" where
  "PlanUpdates t targets m =
     (let m2 = pin_targets targets m;
          res = resolve_all t (map (\<lambda>u. \<lparr>ReqName = TFullName u, ReqVersion = TVersion u\<rparr>) targets) m2
      in if err_after_resolve t m2 res then Inl ReadError
         else case res of
           Inl e \<Rightarrow> Inl (Refused e)
         | Inr nodes \<Rightarrow>
             if err_after_reads t m2 (plannedVersions nodes m2 []) then Inl ReadError
             else Inr (\<lparr>Closure = nodes, Removals = [], Kept = [],
                        Conflicts = conflictsOf t nodes [] (installedPacks m2) m2\<rparr>, m2))"

definition ClosureNames :: "node list \<Rightarrow> string list" where
  "ClosureNames nodes = map NodeName nodes"

definition DisabledInClosure :: "string list \<Rightarrow> instance_mod list \<Rightarrow> string list" where
  "DisabledInClosure names installed =
     sort (remdups (filter (\<lambda>n. list_ex (\<lambda>r. FullName r = n \<and> \<not> Enabled r) installed) names))"

subsection \<open>Lemmas: the fixed point of keepRequired\<close>

text \<open>A set of packages that can go together: nothing outside it needs one of its members.\<close>

definition removable :: "(string \<times> (string \<times> string) list) list \<Rightarrow> string set \<Rightarrow> bool" where
  "removable needs S \<longleftrightarrow> (\<forall>(other, deps) \<in> set needs. \<forall>n \<in> S. n \<in> fst ` set deps \<longrightarrow> other \<in> S)"

lemma neededBy_iff: "neededBy n remove needs \<longleftrightarrow> (\<exists>(other, deps) \<in> set needs. n \<in> fst ` set deps \<and> other \<notin> set remove)"
  by (auto simp: neededBy_def list_ex_iff)

definition pass_ok where
  "pass_ok needs names remove kept again S remove' kept' again' \<longleftrightarrow>
     set remove' \<subseteq> set remove \<and> set kept \<union> set remove \<subseteq> set kept' \<union> set remove' \<and>
     (\<not> again' \<longrightarrow> \<not> again \<and> remove' = remove \<and> kept' = kept \<and> (\<forall>n \<in> set names. \<not> neededBy n remove needs)) \<and>
     (S \<subseteq> set remove \<longrightarrow> removable needs S \<longrightarrow> S \<subseteq> set remove') \<and> (distinct remove \<longrightarrow> distinct remove')"

lemma keep_pass_sound:
  "keep_pass needs names (remove, kept, again) = (remove', kept', again') \<Longrightarrow>
   pass_ok needs names remove kept again S remove' kept' again'"
proof (induction names arbitrary: remove kept again)
  case (Cons n ns)
  show ?case
  proof (cases "neededBy n remove needs")
    case True
    then have "n \<notin> S" if "S \<subseteq> set remove" "removable needs S"
      using that by (fastforce simp: neededBy_iff removable_def)
    moreover have "pass_ok needs ns (removeAll n remove) (kept @ [n]) True S remove' kept' again'"
      using True Cons by simp
    ultimately show ?thesis unfolding pass_ok_def by (auto simp: distinct_removeAll)
  next
    case False
    with Cons have "pass_ok needs ns remove kept again S remove' kept' again'" by simp
    with False show ?thesis unfolding pass_ok_def by auto
  qed
qed (simp add: pass_ok_def)

text \<open>The loop ends with the greatest removable subset of what it started from.\<close>

lemma keep_loop_greatest:
  assumes "keep_loop needs remove kept = (rest, kept')" and "distinct remove"
  shows "set rest \<subseteq> set remove \<and> distinct rest \<and> removable needs (set rest) \<and>
    set kept \<union> set remove \<subseteq> set kept' \<union> set rest \<and> (S \<subseteq> set remove \<longrightarrow> removable needs S \<longrightarrow> S \<subseteq> set rest)"
  using assms
proof (induction needs remove kept arbitrary: rest kept' rule: keep_loop.induct)
  case (1 needs remove kept)
  obtain r k a where p: "keep_pass needs (sort remove) (remove, kept, False) = (r, k, a)" by (metis surj_pair)
  from keep_pass_sound [OF p, of S] have ok: "pass_ok needs (sort remove) remove kept False S r k a" .
  show ?case
  proof (cases a)
    case True
    with 1(2) p have "keep_loop needs r k = (rest, kept')" by (subst (asm) keep_loop.simps) simp
    moreover have "distinct r" using ok 1(3) by (simp add: pass_ok_def)
    ultimately have "set rest \<subseteq> set r \<and> distinct rest \<and> removable needs (set rest) \<and>
      set k \<union> set r \<subseteq> set kept' \<union> set rest \<and> (S \<subseteq> set r \<longrightarrow> removable needs S \<longrightarrow> S \<subseteq> set rest)"
      using 1(1) [OF p [symmetric] refl True] by blast
    with ok show ?thesis unfolding pass_ok_def by blast
  next
    case False
    with 1(2) p have "rest = r" "kept' = k" by (subst (asm) keep_loop.simps, simp)+
    moreover have "removable needs (set remove)" if "\<forall>n \<in> set remove. \<not> neededBy n remove needs"
      using that by (fastforce simp: removable_def neededBy_iff)
    ultimately show ?thesis using ok False 1(3) unfolding pass_ok_def by auto
  qed
qed

lemma removable_anti: "removable needs S \<Longrightarrow> n \<in> S \<Longrightarrow> (other, deps) \<in> set needs \<Longrightarrow> n \<in> fst ` set deps \<Longrightarrow> other \<in> S"
  by (fastforce simp: removable_def)

subsection \<open>Lemmas: the planned result\<close>

lemma map_of_fold_delete: "map_of (fold AList.delete ks al) k = (if k \<in> set ks then None else map_of al k)"
  by (induction ks arbitrary: al) (auto simp: AList.delete_conv')

lemma map_of_fold_nodes:
  assumes "distinct (map NodeName nodes)"
  shows "map_of (fold (\<lambda>n. AList.update (NodeName n) (NodeVersion n)) nodes al) k =
    (case find (\<lambda>n. NodeName n = k) nodes of Some n \<Rightarrow> Some (NodeVersion n) | None \<Rightarrow> map_of al k)"
  using assms
proof (induction nodes arbitrary: al)
  case (Cons n nodes)
  have "find (\<lambda>x. NodeName x = NodeName n) nodes = None" using Cons.prems by (auto simp: find_None_iff image_iff)
  with Cons show ?case by (auto simp: update_conv' split: option.splits)
qed simp

lemma map_of_versions:
  "map_of (map (\<lambda>(name, row). (name, f row)) al) k = map_option f (map_of al k)"
  by (induction al) auto

lemma planned_lookup:
  assumes "distinct (map NodeName nodes)"
  shows "map_of (plannedVersions nodes m removals) k =
    (if k \<in> set removals then None
     else case find (\<lambda>n. NodeName n = k) nodes of Some n \<Rightarrow> Some (NodeVersion n) | None \<Rightarrow> index_Installed m k)"
  by (simp add: plannedVersions_def map_of_fold_delete map_of_fold_nodes [OF assms] map_of_versions index_Installed_def
      split: option.splits)

lemma planned_removals:
  "map_of (plannedVersions nodes m removals) k = (if k \<in> set removals then None else map_of (plannedVersions nodes m []) k)"
  by (simp add: plannedVersions_def map_of_fold_delete)

lemma planned_keys: "fst ` set (plannedVersions nodes m removals) = dom (map_of (plannedVersions nodes m removals))"
  by (simp add: dom_map_of_conv_image_fst)

subsection \<open>Lemmas: the index a plan works on\<close>

text \<open>The index agrees with the rows it was built from, and holds at least the locked ones.\<close>

definition index_ok :: "mod_index \<Rightarrow> bool" where
  "index_ok m \<longleftrightarrow> distinct (map fst (have_mods m)) \<and>
     (\<forall>n row. have_mod m n = Some row \<longrightarrow> FullName (Mod row) = n \<and> (Locked (Mod row) \<longrightarrow> held m n))"

lemma index_okD:
  assumes "index_ok m" and "have_mod m n = Some row"
  shows "FullName (Mod row) = n" and "Locked (Mod row) \<Longrightarrow> held m n"
  using assms unfolding index_ok_def by blast+

definition same_index :: "mod_index \<Rightarrow> mod_index \<Rightarrow> bool" where
  "same_index m m' \<longleftrightarrow> have_mods m' = have_mods m \<and> enabled m' = enabled m \<and> preferred m' = preferred m \<and>
     requested m' = requested m \<and> pinned m' = pinned m \<and> (\<forall>n. held m n \<longrightarrow> held m' n) \<and> (idx_err m \<longrightarrow> idx_err m')"

lemma same_index_refl [simp]: "same_index m m"
  by (simp add: same_index_def)

lemma same_index_trans [trans]: "same_index a b \<Longrightarrow> same_index b c \<Longrightarrow> same_index a c"
  by (simp add: same_index_def)

lemma same_index_ok: "same_index m m' \<Longrightarrow> index_ok m \<Longrightarrow> index_ok m'"
  by (simp add: same_index_def index_ok_def)

lemma same_index_Dependencies: "same_index m (snd (index_Dependencies t fn v m))"
  by (auto simp: index_Dependencies_def same_index_def split: option.splits sum.splits)

lemma same_index_member: "same_index m (snd (pack_member name pin prevPin (c, m)))"
  by (auto simp: pack_member_def same_index_def Let_def split: option.splits)

lemma same_index_members: "same_index (snd cm) (snd (pack_members next prev cm))"
proof -
  have "same_index (snd cm) (snd (fold (\<lambda>name. pack_member name (f name) (g name)) names cm))" for f g names
  proof (induction names arbitrary: cm)
    case (Cons n ns)
    have "same_index (snd cm) (snd (pack_member n (f n) (g n) cm))" by (cases cm) (simp add: same_index_member)
    also have "same_index \<dots> (snd (fold (\<lambda>name. pack_member name (f name) (g name)) ns (pack_member n (f n) (g n) cm)))"
      by (rule Cons.IH)
    finally show ?case by simp
  qed simp
  then show ?thesis unfolding pack_members_def .
qed

lemma same_index_prev: "same_index m (snd (prev_pins t fn m))"
  using same_index_Dependencies [of m t fn]
  by (auto simp: prev_pins_def split: option.splits prod.splits) (metis snd_conv)+

lemma planPack_index: "same_index m (snd (planPack t en fn v m))"
proof -
  have "same_index m m1 \<Longrightarrow> same_index m (snd (pack_members nxt prev (c, snd (prev_pins t fn m1))))" for m1 nxt prev c
    using same_index_trans [OF same_index_trans [OF _ same_index_prev [of m1 t fn]]]
      same_index_members [of "(c, snd (prev_pins t fn m1))" nxt prev] by simp
  with same_index_Dependencies [of m t fn v] show ?thesis
    by (auto simp: planPack_def split: prod.splits option.splits) (metis snd_conv)+
qed

lemma pin_targets_index: "have_mods (pin_targets us m) = have_mods m" "held (pin_targets us m) = held m"
  by (induction us arbitrary: m) (auto simp: pin_targets_def split: option.splits)

definition index_step :: "catalogued_mod \<Rightarrow> mod_index \<Rightarrow> mod_index" where
  "index_step row m = m\<lparr>have_mods := AList.update (FullName (Mod row)) row (have_mods m),
     held := (held m)(FullName (Mod row) := Locked (Mod row))\<rparr>"

lemma index_step_ok:
  assumes "index_ok m"
  shows "index_ok (index_step r m)"
proof -
  have "distinct (map fst (have_mods (index_step r m)))" using assms by (simp add: index_step_def index_ok_def distinct_update)
  moreover have "FullName (Mod row) = n \<and> (Locked (Mod row) \<longrightarrow> held (index_step r m) n)"
    if "have_mod (index_step r m) n = Some row" for n row
  proof (cases "n = FullName (Mod r)")
    case False
    with that have "have_mod m n = Some row" by (simp add: index_step_def update_conv')
    with index_okD [OF assms this] False show ?thesis by (simp add: index_step_def)
  qed (use that in \<open>simp add: index_step_def update_conv'\<close>)
  ultimately show ?thesis unfolding index_ok_def by blast
qed

lemma fold_index_step_ok: "index_ok m \<Longrightarrow> index_ok (fold index_step rows m)"
  by (induction rows arbitrary: m) (simp_all add: index_step_ok)

lemma fold_index_step_have:
  "distinct (map (\<lambda>r. FullName (Mod r)) rows) \<Longrightarrow>
   have_mod (fold index_step rows m) n =
     (case find (\<lambda>r. FullName (Mod r) = n) rows of Some r \<Rightarrow> Some r | None \<Rightarrow> have_mod m n)"
proof (induction rows arbitrary: m)
  case (Cons r rows)
  have "find (\<lambda>x. FullName (Mod x) = FullName (Mod r)) rows = None"
    using Cons.prems by (auto simp: find_None_iff image_iff)
  with Cons show ?case by (auto simp: index_step_def update_conv' split: option.splits)
qed simp

lemma NewIndex_fold:
  "NewIndex t iid p en = fold index_step (InstanceModsCatalogued t iid)
     \<lparr>enabled = en, preferred = p, chosen_from = Map.empty, have_mods = [], held = (\<lambda>n. False),
      requested = [], pinned = Map.empty, idx_err = False\<rparr>"
  unfolding NewIndex_def index_step_def ..

lemma NewIndex_ok: "index_ok (NewIndex t iid p en)"
  unfolding NewIndex_fold by (rule fold_index_step_ok) (simp add: index_ok_def)

lemma Mod_catalogued [simp]: "Mod (catalogued t r) = r"
  by (simp add: catalogued_def split: option.splits)

lemma InstanceMods_distinct:
  assumes "tables_ok t"
  shows "distinct (map FullName (InstanceMods t iid))"
proof -
  let ?rows = "filter (\<lambda>m. InstanceID m = iid) (instance_mods t)"
  have "distinct (map mod_key ?rows)" using assms by (simp add: tables_ok_def distinct_map_filter)
  then have "inj_on FullName (set ?rows)" "distinct ?rows"
    by (auto simp: distinct_map inj_on_def mod_key_def)
  then show ?thesis by (simp add: InstanceMods_def distinct_map)
qed

lemma NewIndex_have:
  assumes "tables_ok t" and "r \<in> set (InstanceMods t iid)"
  shows "have_mod (NewIndex t iid p en) (FullName r) = Some (catalogued t r)"
proof -
  have d: "distinct (map (\<lambda>r. FullName (Mod r)) (InstanceModsCatalogued t iid))"
    using InstanceMods_distinct [OF assms(1)] by (simp add: InstanceModsCatalogued_def comp_def)
  moreover have "find (\<lambda>c. FullName (Mod c) = FullName r) (InstanceModsCatalogued t iid) = Some (catalogued t r)"
    using assms(2) by (subst find_key [OF d]) (auto simp: InstanceModsCatalogued_def)
  ultimately show ?thesis unfolding NewIndex_fold by (simp add: fold_index_step_have)
qed

subsection \<open>Lemmas: the outcome of the planners\<close>

lemma resolve_all_Inr:
  assumes "resolve_all t reqs m = Inr nodes"
  shows "Resolve (resolve_fuel t) reqs (to_index t m) = Some (Inr nodes)"
proof -
  obtain r where "\<forall>k. Resolve (resolve_fuel t + k) reqs (to_index t m) = Some r" using resolve_fuel_suffices by blast
  then have "Resolve (resolve_fuel t) reqs (to_index t m) = Some r" by (metis add_0_right)
  with assms show ?thesis by (simp add: resolve_all_def)
qed

lemma markTransitive_names [simp]: "map NodeName (markTransitive nodes fn) = map NodeName nodes"
  by (simp add: markTransitive_def)

lemma markTransitive_mem:
  "n \<in> set (markTransitive nodes fn) \<Longrightarrow> \<exists>k \<in> set nodes. NodeName k = NodeName n \<and> NodeVersion k = NodeVersion n \<and> NoOp k = NoOp n"
  by (auto simp: markTransitive_def)

lemma PlanInstall_InrE:
  assumes "PlanInstall t en modded fn v m = Inr (plan, m')"
  obtains pack nodes where "planPack t en fn v (m\<lparr>requested := fn\<rparr>) = (pack, m')"
    and "resolve_all t (install_requests t en fn v pack m') m' = Inr nodes"
    and "plan = finish_install_plan t fn pack m' nodes"
    and "modded \<or> hasNode nodes BepInExPack"
    and "\<not> err_after_reads t m' (plannedVersions (markTransitive nodes fn) m' [])"
  using assms by (auto simp: PlanInstall_def Let_def split: if_splits prod.splits sum.splits)

lemma PlanUpdates_InrE:
  assumes "PlanUpdates t targets m = Inr (plan, m')"
  obtains nodes where "m' = pin_targets targets m"
    and "resolve_all t (map (\<lambda>u. \<lparr>ReqName = TFullName u, ReqVersion = TVersion u\<rparr>) targets) m' = Inr nodes"
    and "plan = \<lparr>Closure = nodes, Removals = [], Kept = [], Conflicts = conflictsOf t nodes [] (installedPacks m') m'\<rparr>"
  using assms by (auto simp: PlanUpdates_def Let_def split: if_splits sum.splits)

lemma PlanInstall_index:
  assumes "PlanInstall t en modded fn v m = Inr (plan, m')"
  shows "have_mods m' = have_mods m" and "held m n \<Longrightarrow> held m' n"
proof -
  from assms obtain pack where "planPack t en fn v (m\<lparr>requested := fn\<rparr>) = (pack, m')" by (rule PlanInstall_InrE)
  with planPack_index [of "m\<lparr>requested := fn\<rparr>" t en fn v] have "same_index (m\<lparr>requested := fn\<rparr>) m'" by simp
  then show "have_mods m' = have_mods m" "held m n \<Longrightarrow> held m' n" by (auto simp: same_index_def)
qed

lemma held_node_stays:
  assumes "resolve_all t reqs m = Inr nodes" and "n \<in> set nodes" and "held m (NodeName n)"
    and "index_Installed m (NodeName n) = Some v"
  shows "NodeVersion n = v \<and> NoOp n"
  using closure_keeps_installed [OF resolve_all_Inr [OF assms(1)] assms(2), of v] assms(3,4)
  by (simp add: to_index_def)

lemma planned_unmoved:
  assumes "distinct (map NodeName nodes)" and "k \<notin> set removals" and "index_Installed m k = Some v"
    and "\<And>n. n \<in> set nodes \<Longrightarrow> NodeName n = k \<Longrightarrow> NodeVersion n = v"
  shows "map_of (plannedVersions nodes m removals) k = Some v"
  using assms by (auto simp: planned_lookup split: option.splits dest!: find_SomeD)

lemma same_index_view:
  assumes "same_index m m'" and "\<not> idx_err m'"
  shows "fst (index_Dependencies t fn v m') = fst (index_Dependencies t fn v m)"
proof -
  from assms have f: "have_mods m' = have_mods m" "enabled m' = enabled m" "preferred m' = preferred m"
    "requested m' = requested m" "pinned m' = pinned m" "idx_err m' = idx_err m" by (auto simp: same_index_def)
  then have "allowed_requested m' = allowed_requested m" by (simp add: allowed_requested_def fun_eq_iff)
  then have "allowed_for m' fn v = allowed_for m fn v" "effective_prefer m' = effective_prefer m"
    by (simp_all add: f allowed_for_def allowed_installed_def allowed_pinned_def effective_prefer_def)
  then show ?thesis by (simp add: index_Dependencies_def f split: option.splits sum.splits)
qed

text \<open>A member a pack change drops is pinned by the installed pack version and not by the new one.\<close>

lemma planPack_dropped:
  assumes "planPack t en fn v m = (pack, m')" and "\<not> idx_err m'" and "(n, pin) \<in> set (dropped pack)"
  obtains deps prow pdeps where "Dependencies (to_index t m') fn v = Some deps" and "map_of (pins deps) n = None"
    and "n \<noteq> BepInExPack" and "have_mod m' fn = Some prow"
    and "Dependencies (to_index t m') fn (Version (Mod prow)) = Some pdeps" and "(n, pin) \<in> set (pins pdeps)"
proof -
  have d0: "dropped no_pack = []" by (simp add: no_pack_def)
  with assms(1,3) obtain deps m1 prev m2 c where
    d: "index_Dependencies t fn v m = (Some deps, m1)" and p: "prev_pins t fn m1 = (prev, m2)"
    and c: "pack_members (pins deps) prev (no_pack\<lparr>PIsPack := True\<rparr>, m2) = (c, m')"
    and n: "(n, pin) \<in> set prev" "map_of (pins deps) n = None" "n \<noteq> BepInExPack"
    by (auto simp: planPack_def split: if_splits option.splits prod.splits)
  from n(1) p obtain prow pdeps where h: "have_mod m1 fn = Some prow"
    and pd: "index_Dependencies t fn (Version (Mod prow)) m1 = (Some pdeps, m2)" and prev: "prev = pins pdeps"
    by (auto simp: prev_pins_def split: option.splits prod.splits)
  have s1: "same_index m m1" using same_index_Dependencies [of m t fn v] by (simp add: d)
  have s2: "same_index m1 m2" using same_index_Dependencies [of m1 t fn "Version (Mod prow)"] by (simp add: pd)
  have s3: "same_index m2 m'" using same_index_members [of "(no_pack\<lparr>PIsPack := True\<rparr>, m2)" "pins deps" prev] by (simp add: c)
  note s13 = same_index_trans [OF s2 s3] and s03 = same_index_trans [OF s1 same_index_trans [OF s2 s3]]
  have "Dependencies (to_index t m') fn v = Some deps"
    using same_index_view [OF s03 assms(2), of t fn v] d by (simp add: to_index_def)
  moreover have "Dependencies (to_index t m') fn (Version (Mod prow)) = Some pdeps"
    using same_index_view [OF s13 assms(2), of t fn "Version (Mod prow)"] pd by (simp add: to_index_def)
  moreover have "have_mod m' fn = Some prow" using h s13 by (simp add: same_index_def)
  ultimately show ?thesis using that n prev by simp
qed

end
