(* ===== verification/Mod_Plan_Properties.thy ===== *)
theory Mod_Plan_Properties
  imports Mod_Plan
begin

text \<open>
  What a plan promises: a locked package never moves, a plan without conflicts breaks no declared
  dependency that held before, and a modpack update removes exactly the members that can go.
\<close>

subsection \<open>Lemmas: dropped members\<close>

lemma pins_step_distinct:
  "distinct (map fst m) \<Longrightarrow> distinct (map fst (fold (\<lambda>dep m. case ParseDependency dep of
     Some (n, v) \<Rightarrow> AList.update n v m | None \<Rightarrow> m) deps m))"
  by (induction deps arbitrary: m) (auto simp: distinct_update split: option.splits)

lemma pins_distinct [simp]: "distinct (map fst (pins deps))"
  unfolding pins_def by (rule pins_step_distinct) simp

lemma pins_step_keys:
  "fst ` set (fold (\<lambda>dep m. case ParseDependency dep of Some (n, v) \<Rightarrow> AList.update n v m | None \<Rightarrow> m) deps m) =
   fst ` set m \<union> {n. \<exists>d \<in> set deps. \<exists>v. ParseDependency d = Some (n, v)}"
proof (induction deps arbitrary: m)
  case (Cons d deps)
  show ?case
  proof (cases "ParseDependency d")
    case None
    with Cons.IH show ?thesis by auto
  next
    case (Some nv)
    obtain n v where "ParseDependency d = Some (n, v)" using Some by (cases nv) auto
    with Cons.IH show ?thesis by (auto simp: dom_update)
  qed
qed simp

lemma pins_keys: "fst ` set (pins deps) = {n. \<exists>d \<in> set deps. \<exists>v. ParseDependency d = Some (n, v)}"
  unfolding pins_def by (simp add: pins_step_keys)

lemma dropPlan_greatest:
  assumes "dropPlan t drop' planned m = (removals, kept)" and "distinct (map fst drop')"
  shows "set removals \<subseteq> set (droppable m drop') \<and> removable (needs_of t m planned) (set removals) \<and>
    (\<forall>S. S \<subseteq> set (droppable m drop') \<longrightarrow> removable (needs_of t m planned) S \<longrightarrow> S \<subseteq> set removals)"
proof (cases "droppable m drop' = []")
  case True
  with assms(1) have "removals = []" by (simp add: dropPlan_def)
  with True show ?thesis by (simp add: removable_def)
next
  case False
  obtain rest k where l: "keep_loop (needs_of t m planned) (droppable m drop') [] = (rest, k)" by (metis surj_pair)
  with False assms(1) have r: "set removals = set rest" by (auto simp: dropPlan_def keepRequired_def)
  have "distinct (droppable m drop')" using assms(2) by (simp add: droppable_def)
  from keep_loop_greatest [OF l this] show ?thesis unfolding r by blast
qed

lemma droppableD:
  assumes "n \<in> set (droppable m drop')" and "distinct (map fst drop')"
  obtains row pin where "have_mod m n = Some row" and "(n, pin) \<in> set drop'" and "Version (Mod row) = pin"
    and "\<not> Locked (Mod row)" and "InstalledAs (Mod row) = InstalledDependency" and "Enabled (Mod row)"
proof -
  from assms(1) obtain row pin where r: "have_mod m n = Some row" "(n, pin) \<in> set drop'"
    "dropRefusal (Mod row) (map_get (map_of drop') [] n) = None"
    by (auto simp: droppable_def split: option.splits)
  have "map_of drop' n = Some pin" using assms(2) r(2) by simp
  with r(3) have "dropRefusal (Mod row) pin = None" by simp
  then have "Version (Mod row) = pin" "\<not> Locked (Mod row)" "InstalledAs (Mod row) \<noteq> InstalledExplicit" "Enabled (Mod row)"
    by (auto simp: dropRefusal_def split: if_splits)
  with r that show ?thesis by (cases "InstalledAs (Mod row)") auto
qed

text \<open>The parts of an install plan, with the members it may drop.\<close>

lemma finish_install_planE:
  obtains removals kept where
    "dropPlan t (filter (\<lambda>(name, pin). \<not> list_ex (\<lambda>n. NodeName n = name \<and> \<not> NoOp n) (markTransitive nodes fn)) (dropped pack))
       (plannedVersions (markTransitive nodes fn) m []) m = (removals, kept)"
    and "finish_install_plan t fn pack m nodes = \<lparr>Closure = markTransitive nodes fn, Removals = removals,
       Kept = pack_kept pack @ kept,
       Conflicts = conflictsOf t (markTransitive nodes fn) removals ((installedPacks m)(fn := PIsPack pack)) m\<rparr>"
  by (cases "dropPlan t (filter (\<lambda>(name, pin). \<not> list_ex (\<lambda>n. NodeName n = name \<and> \<not> NoOp n) (markTransitive nodes fn)) (dropped pack))
       (plannedVersions (markTransitive nodes fn) m []) m")
    (auto simp: finish_install_plan_def Let_def)

lemma planPack_dropped_distinct:
  "planPack t en fn v m = (pack, m') \<Longrightarrow> distinct (map fst (dropped pack))"
  by (auto simp: planPack_def no_pack_def prev_pins_def distinct_map_filter
      split: if_splits option.splits prod.splits)

subsection \<open>Locked packages\<close>

lemma plan_locked:
  assumes plan: "PlanInstall t en modded fn v m = Inr (plan, m') \<or> PlanUpdates t targets m = Inr (plan, m')"
    and ok: "index_ok m" and row: "have_mod m k = Some row" and locked: "Locked (Mod row)"
  shows "k \<notin> set (Removals plan) \<and>
    map_of (plannedVersions (Closure plan) m' (Removals plan)) k = Some (Version (Mod row)) \<and>
    (\<forall>n \<in> set (Closure plan). NodeName n = k \<longrightarrow> NoOp n)"
  using plan
proof
  assume p: "PlanInstall t en modded fn v m = Inr (plan, m')"
  have held: "held m' k" using PlanInstall_index(2) [OF p] index_okD(2) [OF ok row locked] .
  have row': "have_mod m' k = Some row" using PlanInstall_index(1) [OF p] row by simp
  then have inst: "index_Installed m' k = Some (Version (Mod row))" by (simp add: index_Installed_def)
  from p obtain pack nodes where pk: "planPack t en fn v (m\<lparr>requested := fn\<rparr>) = (pack, m')"
    and r: "resolve_all t (install_requests t en fn v pack m') m' = Inr nodes"
    and f: "plan = finish_install_plan t fn pack m' nodes" by (rule PlanInstall_InrE)
  obtain removals kept where d: "dropPlan t (filter (\<lambda>(name, pin). \<not> list_ex (\<lambda>n. NodeName n = name \<and> \<not> NoOp n)
      (markTransitive nodes fn)) (dropped pack)) (plannedVersions (markTransitive nodes fn) m' []) m' = (removals, kept)"
    and plan': "Closure plan = markTransitive nodes fn" "Removals plan = removals"
    unfolding f by (rule finish_install_planE [of t nodes fn pack m']) simp
  have dd: "distinct (map fst (filter (\<lambda>(name, pin). \<not> list_ex (\<lambda>n. NodeName n = name \<and> \<not> NoOp n)
      (markTransitive nodes fn)) (dropped pack)))"
    using planPack_dropped_distinct [OF pk] by (rule distinct_map_filter)
  have "k \<notin> set removals"
  proof
    assume "k \<in> set removals"
    with dropPlan_greatest [OF d dd] have "k \<in> set (droppable m' (filter (\<lambda>(name, pin). \<not> list_ex (\<lambda>n. NodeName n = name \<and> \<not> NoOp n)
      (markTransitive nodes fn)) (dropped pack)))" by blast
    from droppableD [OF this dd] row' locked show False by (metis option.inject)
  qed
  moreover have "NodeVersion n = Version (Mod row) \<and> NoOp n"
    if "n \<in> set (markTransitive nodes fn)" "NodeName n = k" for n
    using markTransitive_mem [OF that(1)] held_node_stays [OF r] held inst that(2) by metis
  moreover have "distinct (map NodeName (markTransitive nodes fn))"
    using closure_distinct [OF resolve_all_Inr [OF r]] by simp
  ultimately show ?thesis using inst unfolding plan' by (blast intro: planned_unmoved)
next
  assume p: "PlanUpdates t targets m = Inr (plan, m')"
  then obtain nodes where m': "m' = pin_targets targets m"
    and r: "resolve_all t (map (\<lambda>u. \<lparr>ReqName = TFullName u, ReqVersion = TVersion u\<rparr>) targets) m' = Inr nodes"
    and plan': "plan = \<lparr>Closure = nodes, Removals = [], Kept = [], Conflicts = conflictsOf t nodes [] (installedPacks m') m'\<rparr>"
    by (rule PlanUpdates_InrE)
  have "held m' k" using index_okD(2) [OF ok row locked] by (simp add: m' pin_targets_index)
  moreover have inst: "index_Installed m' k = Some (Version (Mod row))"
    using row by (simp add: m' index_Installed_def pin_targets_index)
  ultimately have "NodeVersion n = Version (Mod row) \<and> NoOp n" if "n \<in> set nodes" "NodeName n = k" for n
    using held_node_stays [OF r that(1)] that(2) by simp
  with planned_unmoved [OF closure_distinct [OF resolve_all_Inr [OF r]], of k "[]" m', OF _ inst] show ?thesis
    by (auto simp: plan')
qed

text \<open>C22. A locked package never moves. Whatever an install or a batch of updates plans for an
  instance, a package its operator locked is not removed, keeps its version in the planned result,
  and is a no-op where the closure names it.\<close>

theorem locked_package_stays:
  assumes "PlanInstall t en modded fn v (NewIndex t iid p en') = Inr (plan, m) \<or>
           PlanUpdates t targets (NewIndex t iid p en') = Inr (plan, m)"
    and "tables_ok t" and "r \<in> set (InstanceMods t iid)" and "Locked r"
  shows "FullName r \<notin> set (Removals plan) \<and>
    map_of (plannedVersions (Closure plan) m (Removals plan)) (FullName r) = Some (Version r) \<and>
    (\<forall>n \<in> set (Closure plan). NodeName n = FullName r \<longrightarrow> NoOp n)"
  using plan_locked [OF assms(1) NewIndex_ok NewIndex_have [OF assms(2,3)]] assms(4) by simp

subsection \<open>Dependencies after a change\<close>

lemma closure_NoOp:
  assumes "Resolve fuel reqs idx = Some (Inr nodes)" and "n \<in> set nodes" and "NoOp n"
  shows "Installed idx (NodeName n) = Some (NodeVersion n)"
proof -
  from assms(1) obtain s where "closure fuel idx s = Some nodes" by (rule Resolve_final)
  then obtain x where "n = mk_node idx s x" using assms(2) by (rule closure_nodeE)
  with assms(3) show ?thesis by (simp add: mk_node_def)
qed

lemma planned_unchanged:
  assumes "distinct (map NodeName nodes)" and "k \<notin> changed_by nodes removals"
    and "\<And>n. n \<in> set nodes \<Longrightarrow> NoOp n \<Longrightarrow> index_Installed m (NodeName n) = Some (NodeVersion n)"
  shows "map_of (plannedVersions nodes m removals) k = index_Installed m k"
  using assms by (auto simp: planned_lookup changed_by_def split: option.splits dest!: find_SomeD)

lemma conflictsOf_complete:
  assumes "c \<in> set (Check (map fst (plannedVersions nodes m removals)) (map_of (plannedVersions nodes m removals))
      (changed_by nodes removals) (to_index t m))"
    and "conflictsOf t nodes removals packs m = []"
  shows "packs (ConfName c)"
  using assms by (auto simp: conflictsOf_def Let_def filter_empty_conv)

lemma plan_edges:
  assumes d: "distinct (map NodeName nodes)"
    and noop: "\<And>n. n \<in> set nodes \<Longrightarrow> NoOp n \<Longrightarrow> index_Installed m (NodeName n) = Some (NodeVersion n)"
    and c: "conflictsOf t nodes removals packs m = []" and "\<not> packs a"
    and a: "map_of (plannedVersions nodes m removals) a = Some w"
    and e: "Dependencies (to_index t m) a w = Some ds" "dep \<in> set ds" "ParseDependency dep = Some (b, need)"
  shows "(\<exists>h. map_of (plannedVersions nodes m removals) b = Some h \<and> \<not> higher need h) \<or>
    (index_Installed m a = Some w \<and> map_of (plannedVersions nodes m removals) b = index_Installed m b)"
proof (cases "a \<in> changed_by nodes removals \<or> b \<in> changed_by nodes removals")
  case False
  with planned_unchanged [OF d _ noop] a show ?thesis by metis
next
  case True
  let ?planned = "map_of (plannedVersions nodes m removals)"
  let ?c = "\<lparr>ConfName = a, ConfVersion = w, ConfDependency = b, ConfRequires = need, ConfHave = map_get ?planned [] b\<rparr>"
  have "set (map fst (plannedVersions nodes m removals)) = dom ?planned" by (simp add: planned_keys)
  note mem = Check_mem [OF this]
  have "?c \<notin> set (Check (map fst (plannedVersions nodes m removals)) ?planned (changed_by nodes removals) (to_index t m))"
    using conflictsOf_complete [OF _ c] assms(4) by fastforce
  then have "\<not> (\<forall>h. ?planned b = Some h \<longrightarrow> higher need h)"
    using True a e unfolding mem by (metis conflict.select_convs(1))
  then show ?thesis by blast
qed

text \<open>C21. A plan without conflicts breaks no dependency. In the set of packages the instance would
  hold after the change, every dependency a catalogued version declares is met, unless it was the
  same before: the package already installed at that version and the dependency where it was. Only
  the requested package, when the plan is one of a modpack, and the other installed modpacks, whose
  dependencies are their membership, are exempt.\<close>

theorem plan_breaks_nothing:
  assumes "PlanInstall t en modded fn v m = Inr (plan, m')" and "Conflicts plan = []"
    and "map_of (plannedVersions (Closure plan) m' (Removals plan)) a = Some w"
    and "Dependencies (to_index t m') a w = Some ds" and "dep \<in> set ds" and "ParseDependency dep = Some (b, need)"
    and "a \<noteq> fn \<longrightarrow> \<not> installedPacks m' a" and "a = fn \<longrightarrow> \<not> PIsPack (fst (planPack t en fn v (m\<lparr>requested := fn\<rparr>)))"
  shows "(\<exists>h. map_of (plannedVersions (Closure plan) m' (Removals plan)) b = Some h \<and> \<not> higher need h) \<or>
    (index_Installed m' a = Some w \<and>
     map_of (plannedVersions (Closure plan) m' (Removals plan)) b = index_Installed m' b)"
proof -
  from assms(1) obtain pack nodes where pk: "planPack t en fn v (m\<lparr>requested := fn\<rparr>) = (pack, m')"
    and r: "resolve_all t (install_requests t en fn v pack m') m' = Inr nodes"
    and f: "plan = finish_install_plan t fn pack m' nodes" by (rule PlanInstall_InrE)
  note R = resolve_all_Inr [OF r]
  let ?nodes = "markTransitive nodes fn"
  have plan: "Closure plan = ?nodes"
    and c: "Conflicts plan = conflictsOf t ?nodes (Removals plan) ((installedPacks m')(fn := PIsPack pack)) m'"
    unfolding f by (rule finish_install_planE [of t nodes fn pack m'], simp)+
  have np: "\<not> ((installedPacks m')(fn := PIsPack pack)) a" using assms(7,8) by (simp add: pk)
  have d: "distinct (map NodeName ?nodes)" using closure_distinct [OF R] by simp
  have noop: "index_Installed m' (NodeName n) = Some (NodeVersion n)" if "n \<in> set ?nodes" "NoOp n" for n
  proof -
    from markTransitive_mem [OF that(1)] obtain k where k: "k \<in> set nodes" "NodeName k = NodeName n"
      "NodeVersion k = NodeVersion n" "NoOp k = NoOp n" by blast
    with closure_NoOp [OF R k(1)] that(2) show ?thesis by (simp add: to_index_def)
  qed
  have "conflictsOf t ?nodes (Removals plan) ((installedPacks m')(fn := PIsPack pack)) m' = []" using assms(2) c by simp
  from plan_edges [where packs = "(installedPacks m')(fn := PIsPack pack)", OF d noop this np] assms(3-6) show ?thesis
    unfolding plan by blast
qed

subsection \<open>What a modpack update removes\<close>

text \<open>A modpack update removes only its own unused members. A package in the removals is
  installed as a dependency, enabled, not locked, at the very version the installed pack version
  pins, and not BepInEx; the new pack version does not pin it; and no package of the planned result
  declares a dependency on it.\<close>

lemma removals_are_unused_members:
  assumes "PlanInstall t en modded fn v m = Inr (plan, m')" and "n \<in> set (Removals plan)"
  shows "\<exists>row prow deps pdeps. have_mod m' n = Some row \<and> InstalledAs (Mod row) = InstalledDependency \<and>
      Enabled (Mod row) \<and> \<not> Locked (Mod row) \<and> n \<noteq> BepInExPack \<and>
      have_mod m' fn = Some prow \<and> Dependencies (to_index t m') fn (Version (Mod prow)) = Some pdeps \<and>
      map_of (pins pdeps) n = Some (Version (Mod row)) \<and>
      Dependencies (to_index t m') fn v = Some deps \<and> map_of (pins deps) n = None \<and>
      (\<forall>a w ds d need. map_of (plannedVersions (Closure plan) m' (Removals plan)) a = Some w \<longrightarrow>
         Dependencies (to_index t m') a w = Some ds \<longrightarrow> d \<in> set ds \<longrightarrow> ParseDependency d \<noteq> Some (n, need))"
proof -
  from assms(1) obtain pack nodes where pk: "planPack t en fn v (m\<lparr>requested := fn\<rparr>) = (pack, m')"
    and r: "resolve_all t (install_requests t en fn v pack m') m' = Inr nodes"
    and f: "plan = finish_install_plan t fn pack m' nodes" by (rule PlanInstall_InrE)
  have err: "\<not> idx_err m'" using assms(1) pk
    by (auto simp: PlanInstall_def Let_def err_after_resolve_def split: if_splits)
  define drop' where "drop' = filter (\<lambda>(name, pin). \<not> list_ex (\<lambda>n. NodeName n = name \<and> \<not> NoOp n)
      (markTransitive nodes fn)) (dropped pack)"
  define planned where "planned = plannedVersions (markTransitive nodes fn) m' []"
  obtain kept where d: "dropPlan t drop' planned m' = (Removals plan, kept)" and plan: "Closure plan = markTransitive nodes fn"
    unfolding f drop'_def planned_def by (rule finish_install_planE [of t nodes fn pack m']) simp
  have dd: "distinct (map fst drop')"
    unfolding drop'_def using planPack_dropped_distinct [OF pk] by (rule distinct_map_filter)
  note g = dropPlan_greatest [OF d dd]
  with assms(2) have "n \<in> set (droppable m' drop')" by blast
  then obtain row pin where row: "have_mod m' n = Some row" "(n, pin) \<in> set drop'" "Version (Mod row) = pin"
    "\<not> Locked (Mod row)" "InstalledAs (Mod row) = InstalledDependency" "Enabled (Mod row)"
    by (rule droppableD [OF _ dd])
  have "(n, pin) \<in> set (dropped pack)" using row(2) by (simp add: drop'_def)
  with pk err obtain deps prow pdeps where pins: "Dependencies (to_index t m') fn v = Some deps" "map_of (pins deps) n = None"
    "n \<noteq> BepInExPack" "have_mod m' fn = Some prow" "Dependencies (to_index t m') fn (Version (Mod prow)) = Some pdeps"
    "(n, pin) \<in> set (pins pdeps)" by (rule planPack_dropped)
  then have "map_of (pins pdeps) n = Some (Version (Mod row))" using row(3) by simp
  moreover have "ParseDependency x \<noteq> Some (n, need)"
    if a: "map_of (plannedVersions (Closure plan) m' (Removals plan)) a = Some w"
      and ds: "Dependencies (to_index t m') a w = Some ds" "x \<in> set ds" for a w ds x need
  proof
    assume x: "ParseDependency x = Some (n, need)"
    have "a \<notin> set (Removals plan)" "map_of planned a = Some w"
      using planned_removals [of "markTransitive nodes fn" m' "Removals plan" a] a unfolding plan planned_def
      by (auto simp only: split: if_splits)
    then have "(a, pins ds) \<in> set (needs_of t m' planned)"
      using ds(1) by (force simp: needs_of_def to_index_def dest: map_of_SomeD)
    moreover have "n \<in> fst ` set (pins ds)" using ds(2) x by (auto simp: pins_keys)
    ultimately have "a \<in> set (Removals plan)"
      using removable_anti [OF conjunct1 [OF conjunct2 [OF g]] assms(2)] by blast
    with \<open>a \<notin> set (Removals plan)\<close> show False ..
  qed
  ultimately show ?thesis using row pins by blast
qed

subsection \<open>A small modpack\<close>

definition demo_pack_row :: "string \<Rightarrow> string \<Rightarrow> installed_as \<Rightarrow> bool \<Rightarrow> instance_mod" where
  "demo_pack_row fn v how locked = \<lparr>InstanceID = ''i'', FullName = fn, Source = Thunderstore, Version = v,
     InstalledAs = how, Side = ''unknown'', Enabled = True, Locked = locked, FileManifest = [], InstalledAt = ''t0''\<rparr>"

definition demo_ver :: "string \<Rightarrow> string \<Rightarrow> string list \<Rightarrow> mod_version" where
  "demo_ver fn v ds = \<lparr>MVFullName = fn, MVSource = Thunderstore, MVVersion = v, MVDependencies = Some ds\<rparr>"

definition demo_modpack :: mod_tables where
  "demo_modpack = \<lparr>
     mod_packages = [(\<lparr>PkgFullName = ''P'', PkgSource = Thunderstore, LatestVersion = ''2.0.0'', Categories = [''Modpacks'']\<rparr>, 1)],
     mod_versions = [demo_ver ''P'' ''1.0.0'' [''a-1.0.0'', ''b-1.0.0''], demo_ver ''P'' ''2.0.0'' [''a-1.1.0''],
       demo_ver ''a'' ''1.0.0'' [], demo_ver ''a'' ''1.1.0'' [''l-1.0.0''], demo_ver ''b'' ''1.0.0'' []],
     instance_mods = [demo_pack_row ''P'' ''1.0.0'' InstalledExplicit False, demo_pack_row ''a'' ''1.0.0'' InstalledDependency False,
       demo_pack_row ''b'' ''1.0.0'' InstalledDependency False, demo_pack_row ''l'' ''1.0.0'' InstalledDependency True]\<rparr>"

definition demo_plan :: "plan_error + (change_plan \<times> mod_index)" where
  "demo_plan = PlanInstall demo_modpack source_All True ''P'' ''2.0.0'' (NewIndex demo_modpack ''i'' NoSource source_All)"

definition demo_change :: change_plan where
  "demo_change = fst (projr demo_plan)"

lemma demo_modpack_ok: "tables_ok demo_modpack"
  by code_simp

lemma demo_plan_facts:
  "\<not> isl demo_plan" "Removals demo_change = [''b'']" "Conflicts demo_change = []"
  by code_simp+

lemma demo_planned: "PlanInstall demo_modpack source_All True ''P'' ''2.0.0'' (NewIndex demo_modpack ''i'' NoSource source_All) =
    Inr (demo_change, snd (projr demo_plan))"
  using demo_plan_facts(1) by (cases demo_plan) (simp_all add: demo_change_def flip: demo_plan_def)

theorem locked_package_stays_witness:
  "''l'' \<notin> set (Removals demo_change) \<and>
   map_of (plannedVersions (Closure demo_change) (snd (projr demo_plan)) (Removals demo_change)) ''l'' = Some ''1.0.0''"
proof -
  have "demo_pack_row ''l'' ''1.0.0'' InstalledDependency True \<in> set (InstanceMods demo_modpack ''i'')"
    by (simp add: InstanceMods_def demo_modpack_def demo_pack_row_def)
  moreover have "Locked (demo_pack_row ''l'' ''1.0.0'' InstalledDependency True)" by (simp add: demo_pack_row_def)
  ultimately show ?thesis
    using locked_package_stays [OF disjI1 [OF demo_planned] demo_modpack_ok] by (fastforce simp: demo_pack_row_def)
qed

theorem plan_breaks_nothing_witness:
  "\<exists>h. map_of (plannedVersions (Closure demo_change) (snd (projr demo_plan)) (Removals demo_change)) ''l'' = Some h \<and>
     \<not> higher ''1.0.0'' h"
proof -
  let ?m = "snd (projr demo_plan)"
  have a: "map_of (plannedVersions (Closure demo_change) ?m (Removals demo_change)) ''a'' = Some ''1.1.0''" by code_simp
  have d: "Dependencies (to_index demo_modpack ?m) ''a'' ''1.1.0'' = Some [''l-1.0.0'']" by code_simp
  have p: "ParseDependency ''l-1.0.0'' = Some (''l'', ''1.0.0'')" by code_simp
  have n: "installedPacks ?m ''a'' = False" by code_simp
  have i: "(index_Installed ?m ''a'' = Some ''1.1.0'') = False" by code_simp
  from plan_breaks_nothing [OF demo_planned demo_plan_facts(3) a d _ p] n i show ?thesis by simp
qed

lemma removals_are_unused_members_example:
  "\<exists>row. have_mod (snd (projr demo_plan)) ''b'' = Some row \<and> \<not> Locked (Mod row) \<and> InstalledAs (Mod row) = InstalledDependency"
proof -
  have "''b'' \<in> set (Removals demo_change)" by (simp add: demo_plan_facts(2))
  from removals_are_unused_members [OF demo_planned this] show ?thesis by blast
qed

end
