(* ===== verification/Mod_Decisions.thy ===== *)
theory Mod_Decisions
  imports Mod_Plan
begin

text \<open>
  \<open>internal/mods/manager/decisions.go\<close> and \<open>update_selection.go\<close>: what an uninstall removes, whether a
  package may be disabled or enabled, which updates are offered and which confirmed targets are
  accepted. A Go map keyed by package is a function with the zero value outside its keys, or the list
  of its keys where it is ranged over; results collected from a range are sorted by the code. The
  listing starts \<open>ListingStarts\<close> reads from the key-value table are an argument.
\<close>

subsection \<open>Edges between installed packages\<close>

definition edges_step ::
  "mod_tables \<Rightarrow> instance_mod \<Rightarrow> (string \<Rightarrow> string list) \<Rightarrow> store_error + (string \<Rightarrow> string list)" where
  "edges_step t row needs =
     (case ModVersionDependencies t (FullName row) (Version row) (Source row) of
        Inl e \<Rightarrow> Inl e
      | Inr None \<Rightarrow> Inr needs
      | Inr (Some (deps, _)) \<Rightarrow>
          Inr (needs(FullName row := needs (FullName row) @ map fst (List.map_filter ParseDependency deps))))"

definition dependencyEdges :: "mod_tables \<Rightarrow> instance_mod list \<Rightarrow> store_error + (string \<Rightarrow> string list)" where
  "dependencyEdges t rows = foldR (edges_step t) rows (\<lambda>n. [])"

definition requiredBy :: "string \<Rightarrow> string list \<Rightarrow> (string \<Rightarrow> string list) \<Rightarrow> string list" where
  "requiredBy fn remaining needs = sort (filter (\<lambda>name. fn \<in> set (needs name)) remaining)"

subsection \<open>Uninstall\<close>

text \<open>\<open>orphansOf\<close>: one round removes every remaining dependency row nothing remaining needs.\<close>

definition found_orphans ::
  "(string \<Rightarrow> installed_as) \<Rightarrow> string list \<Rightarrow> (string \<Rightarrow> string list) \<Rightarrow> string list" where
  "found_orphans how remaining needs =
     filter (\<lambda>name. how name = InstalledDependency \<and> requiredBy name remaining needs = []) remaining"

function orphans_loop ::
  "(string \<Rightarrow> installed_as) \<Rightarrow> string list \<Rightarrow> (string \<Rightarrow> string list) \<Rightarrow> string list \<Rightarrow> string list" where
  "orphans_loop how remaining needs orphans =
     (let found = found_orphans how remaining needs
      in if found = [] then sort orphans
         else orphans_loop how (filter (\<lambda>n. n \<notin> set found) remaining) needs (orphans @ found))"
  by pat_completeness auto
termination
proof (relation "measure (\<lambda>(how, remaining, needs, orphans). length remaining)", goal_cases)
  case (2 how remaining needs orphans found)
  then have "hd found \<in> set found" by simp
  then obtain x where "x \<in> set found" by blast
  moreover have "x \<in> set remaining" using 2 \<open>x \<in> set found\<close> by (simp add: found_orphans_def)
  ultimately have "length (filter (\<lambda>n. n \<notin> set found) remaining) < length remaining"
    by (intro length_filter_less [of x]) simp_all
  then show ?case by simp
qed simp

declare orphans_loop.simps [simp del]

definition orphansOf :: "(string \<Rightarrow> installed_as) \<Rightarrow> string list \<Rightarrow> (string \<Rightarrow> string list) \<Rightarrow> string list" where
  "orphansOf how remaining needs = orphans_loop how remaining needs []"

datatype removal_error = RemovalRead store_error | NotInstalled string | RequiredBy string "string list"

definition installed_how :: "instance_mod list \<Rightarrow> string \<Rightarrow> installed_as" where
  "installed_how rows name = InstalledAs (the (find (\<lambda>r. FullName r = name) rows))"

definition RemovalSet :: "mod_tables \<Rightarrow> string \<Rightarrow> string \<Rightarrow> bool \<Rightarrow> removal_error + string list" where
  "RemovalSet t iid fn removeOrphans =
     (let rows = InstanceMods t iid
      in if fn \<notin> FullName ` set rows then Inl (NotInstalled fn)
         else case dependencyEdges t rows of
           Inl e \<Rightarrow> Inl (RemovalRead e)
         | Inr needs \<Rightarrow>
             (let remaining = filter (\<lambda>n. n \<noteq> fn) (map FullName rows); req = requiredBy fn remaining needs
              in if req \<noteq> [] then Inl (RequiredBy fn req)
                 else Inr (fn # (if removeOrphans then orphansOf (installed_how rows) remaining needs else []))))"

subsection \<open>Disable and enable\<close>

datatype toggle_error = ToggleRead store_error | LoaderRefused | ToggleRequiredBy "string list" | ToggleDisabled "string list"

definition CheckToggle :: "mod_tables \<Rightarrow> instance_mod list \<Rightarrow> string \<Rightarrow> bool \<Rightarrow> toggle_error option" where
  "CheckToggle t rows fn enable =
     (if \<not> enable \<and> fn = BepInExPack then Some LoaderRefused
      else case dependencyEdges t rows of
        Inl e \<Rightarrow> Some (ToggleRead e)
      | Inr needs \<Rightarrow>
          if \<not> enable
          then (let req = requiredBy fn (map FullName (filter (\<lambda>r. Enabled r \<and> FullName r \<noteq> fn) rows)) needs
                in if req \<noteq> [] then Some (ToggleRequiredBy req) else None)
          else (let off = sort (remdups (filter (\<lambda>dep. list_ex (\<lambda>r. FullName r = dep \<and> \<not> Enabled r) rows) (needs fn)))
                in if off \<noteq> [] then Some (ToggleDisabled off) else None))"

subsection \<open>Updates\<close>

definition Unlisted :: "catalogued_mod \<Rightarrow> (source \<rightharpoonup> nat) \<Rightarrow> bool" where
  "Unlisted c starts =
     (case starts (Source (Mod c)) of
        None \<Rightarrow> False
      | Some started \<Rightarrow>
          (case Package c of
             None \<Rightarrow> True
           | Some _ \<Rightarrow> (case ListedAt c of Some listed \<Rightarrow> listed < started | None \<Rightarrow> False)))"

text \<open>\<^term>\<open>None\<close> for the empty string.\<close>

definition ModUpdateVersion :: "instance_mod \<Rightarrow> mod_package option \<Rightarrow> string option" where
  "ModUpdateVersion m pkg =
     (case pkg of
        None \<Rightarrow> None
      | Some p \<Rightarrow>
          if PkgSource p \<noteq> Source m then None
          else (case (ParseVersion (Version m), ParseVersion (LatestVersion p)) of
                  (Some installed, Some latest) \<Rightarrow> if 0 < Compare latest installed then Some (LatestVersion p) else None
                | _ \<Rightarrow> None))"

text \<open>The first pack by full name that pins a package, and the version it pins.\<close>

definition membership_step ::
  "mod_tables \<Rightarrow> catalogued_mod \<Rightarrow> (string \<rightharpoonup> string \<times> string) \<Rightarrow> store_error + (string \<rightharpoonup> string \<times> string)" where
  "membership_step t row out =
     (if \<not> IsPack (Package row) then Inr out
      else case ModVersionDependencies t (FullName (Mod row)) (Version (Mod row)) (Source (Mod row)) of
        Inl e \<Rightarrow> Inl e
      | Inr None \<Rightarrow> Inr out
      | Inr (Some (deps, _)) \<Rightarrow>
          Inr ((map_option (\<lambda>pin. (FullName (Mod row), pin)) \<circ> map_of (pins deps)) ++ out))"

definition PackMembership :: "mod_tables \<Rightarrow> catalogued_mod list \<Rightarrow> store_error + (string \<rightharpoonup> string \<times> string)" where
  "PackMembership t rows = foldR (membership_step t) rows Map.empty"

definition follows_pack :: "(string \<rightharpoonup> string \<times> string) \<Rightarrow> instance_mod \<Rightarrow> bool" where
  "follows_pack members m = (case members (FullName m) of None \<Rightarrow> False | Some (_, pin) \<Rightarrow> FollowsPack m pin)"

definition pending_target ::
  "source list \<Rightarrow> (source \<rightharpoonup> nat) \<Rightarrow> (string \<rightharpoonup> string \<times> string) \<Rightarrow> catalogued_mod \<Rightarrow> update_target option" where
  "pending_target en starts members c =
     (let m = Mod c
      in if \<not> Enabled m \<or> Locked m \<or> IsPack (Package c) \<or> follows_pack members m \<or> Source m \<notin> set en \<or> Unlisted c starts
         then None
         else map_option (\<lambda>v. \<lparr>TFullName = FullName m, TSource = source_String (Source m), TFromVersion = Version m, TVersion = v\<rparr>)
                (ModUpdateVersion m (Package c)))"

definition PendingUpdates ::
  "mod_tables \<Rightarrow> source list \<Rightarrow> (source \<rightharpoonup> nat) \<Rightarrow> string \<Rightarrow> store_error + update_target list" where
  "PendingUpdates t en starts iid =
     (let rows = InstanceModsCatalogued t iid
      in rbind (PackMembership t rows) (\<lambda>members. Inr (List.map_filter (pending_target en starts members) rows)))"

datatype update_issue =
    NoTargets | NamedTwice nat | TargetNotInstalled nat | TargetDisabled nat | TargetLocked nat
  | WrongRegistry nat | RegistryOff nat | NotNewer nat

definition target_issue :: "source list \<Rightarrow> instance_mod list \<Rightarrow> string list \<Rightarrow> nat \<Rightarrow> update_target \<Rightarrow> update_issue option" where
  "target_issue en rows seen i target =
     (if TFullName target \<in> set seen then Some (NamedTwice i)
      else case find (\<lambda>r. FullName r = TFullName target) rows of
        None \<Rightarrow> Some (TargetNotInstalled i)
      | Some row \<Rightarrow>
          if \<not> Enabled row then Some (TargetDisabled i)
          else if Locked row then Some (TargetLocked i)
          else if TSource target \<noteq> source_String (Source row) then Some (WrongRegistry i)
          else if Source row \<notin> set en then Some (RegistryOff i)
          else if \<not> newer (TVersion target) (Version row) then Some (NotNewer i)
          else None)"

fun check_targets ::
  "source list \<Rightarrow> instance_mod list \<Rightarrow> string list \<Rightarrow> nat \<Rightarrow> update_target list \<Rightarrow> update_target list \<times> update_issue list" where
  "check_targets en rows seen i [] = ([], [])"
| "check_targets en rows seen i (u # us) =
     (case check_targets en rows (TFullName u # seen) (Suc i) us of (out, issues) \<Rightarrow>
        (case target_issue en rows seen i u of
           Some issue \<Rightarrow> (out, issue # issues)
         | None \<Rightarrow> (u\<lparr>TFromVersion := Version (the (find (\<lambda>r. FullName r = TFullName u) rows))\<rparr> # out, issues)))"

definition CheckUpdateTargets ::
  "mod_tables \<Rightarrow> source list \<Rightarrow> string \<Rightarrow> update_target list \<Rightarrow> update_target list \<times> update_issue list" where
  "CheckUpdateTargets t en iid targets =
     (if targets = [] then ([], [NoTargets]) else check_targets en (InstanceMods t iid) [] 0 targets)"

subsection \<open>Lemmas: edges and orphans\<close>

text \<open>The packages the catalogue says an installed row depends on.\<close>

definition installed_deps :: "mod_tables \<Rightarrow> instance_mod \<Rightarrow> string list" where
  "installed_deps t r =
     (case ModVersionDependencies t (FullName r) (Version r) (Source r) of
        Inr (Some (deps, _)) \<Rightarrow> map fst (List.map_filter ParseDependency deps)
      | _ \<Rightarrow> [])"

lemma edges_fold:
  "foldR (edges_step t) rows needs0 = Inr needs \<Longrightarrow> distinct (map FullName rows) \<Longrightarrow>
   needs n = needs0 n @ (case find (\<lambda>r. FullName r = n) rows of Some r \<Rightarrow> installed_deps t r | None \<Rightarrow> [])"
proof (induction rows arbitrary: needs0)
  case (Cons r rows)
  then obtain needs1 where n1: "edges_step t r needs0 = Inr needs1" "foldR (edges_step t) rows needs1 = Inr needs"
    by (auto split: sum.splits)
  have r: "find (\<lambda>x. FullName x = FullName r) rows = None" using Cons.prems(2) by (auto simp: find_None_iff image_iff)
  have "needs1 = needs0(FullName r := needs0 (FullName r) @ installed_deps t r)"
    using n1(1) by (auto simp: edges_step_def installed_deps_def fun_eq_iff split: sum.splits option.splits)
  with Cons.IH [OF n1(2)] Cons.prems(2) r show ?case by auto
qed simp

lemma dependencyEdges_deps:
  assumes "dependencyEdges t rows = Inr needs" and "distinct (map FullName rows)" and "r \<in> set rows"
  shows "needs (FullName r) = installed_deps t r"
proof -
  have "find (\<lambda>x. FullName x = FullName r) rows = Some r" using assms(3) by (simp add: find_key [OF assms(2)])
  with edges_fold [OF assms(1) [unfolded dependencyEdges_def] assms(2), of "FullName r"] show ?thesis by simp
qed

lemma requiredBy_set: "set (requiredBy fn remaining needs) = {n \<in> set remaining. fn \<in> set (needs n)}"
  by (auto simp: requiredBy_def)

lemma requiredBy_Nil: "requiredBy fn remaining needs = [] \<longleftrightarrow> (\<forall>n \<in> set remaining. fn \<notin> set (needs n))"
proof -
  have "requiredBy fn remaining needs = [] \<longleftrightarrow> set (requiredBy fn remaining needs) = {}" by simp
  then show ?thesis unfolding requiredBy_set by blast
qed

lemma found_orphans_set:
  "set (found_orphans how remaining needs) =
     {n \<in> set remaining. how n = InstalledDependency \<and> (\<forall>y \<in> set remaining. n \<notin> set (needs y))}"
  by (auto simp: found_orphans_def requiredBy_Nil)

lemma orphans_loop_spec:
  "\<exists>Orph. set (orphans_loop how remaining needs acc) = set acc \<union> Orph \<and> Orph \<subseteq> set remaining \<and>
     (\<forall>x \<in> Orph. how x = InstalledDependency) \<and>
     (\<forall>y \<in> set remaining - Orph. set (needs y) \<inter> Orph = {}) \<and>
     (\<forall>y \<in> set remaining - Orph. how y = InstalledDependency \<longrightarrow> (\<exists>z \<in> set remaining - Orph. y \<in> set (needs z)))"
proof (induction how remaining needs acc rule: orphans_loop.induct)
  case (1 how remaining needs acc)
  define found where "found = found_orphans how remaining needs"
  show ?case
  proof (cases "found = []")
    case True
    then have "set (found_orphans how remaining needs) = {}" by (simp add: found_def)
    then have "\<forall>y \<in> set remaining. how y = InstalledDependency \<longrightarrow> (\<exists>z \<in> set remaining. y \<in> set (needs z))"
      unfolding found_orphans_set by blast
    with True show ?thesis
      by (intro exI [of _ "{}"]) (subst orphans_loop.simps, simp add: found_def Let_def)
  next
    case False
    let ?rest = "filter (\<lambda>n. n \<notin> set found) remaining"
    have step: "orphans_loop how remaining needs acc = orphans_loop how ?rest needs (acc @ found)"
      using False by (subst orphans_loop.simps) (simp add: found_def Let_def)
    from 1 [OF found_def False] obtain Orph where
      O: "set (orphans_loop how ?rest needs (acc @ found)) = set (acc @ found) \<union> Orph" "Orph \<subseteq> set ?rest"
      "\<forall>x \<in> Orph. how x = InstalledDependency" "\<forall>y \<in> set ?rest - Orph. set (needs y) \<inter> Orph = {}"
      "\<forall>y \<in> set ?rest - Orph. how y = InstalledDependency \<longrightarrow> (\<exists>z \<in> set ?rest - Orph. y \<in> set (needs z))" by blast
    have f: "set found \<subseteq> set remaining" "\<forall>x \<in> set found. how x = InstalledDependency"
      "\<forall>y \<in> set remaining. set (needs y) \<inter> set found = {}" unfolding found_def found_orphans_set by auto
    have rest: "set ?rest - Orph = set remaining - (set found \<union> Orph)" by auto
    show ?thesis
      using O f unfolding step rest by (intro exI [of _ "set found \<union> Orph"]) auto
  qed
qed

subsection \<open>Uninstalling leaves nothing unloadable\<close>

text \<open>C26. An uninstall never strands a package. What \<open>RemovalSet\<close> returns holds the named package and
  only installed ones; no package that stays depends on one that goes; apart from the named package
  only packages installed as dependencies go. With orphans removed, every dependency that stays is
  needed by a package that stays; without, the named package goes alone.\<close>

theorem uninstall_strands_nothing:
  assumes "tables_ok t" and "RemovalSet t iid fn orphans = Inr names"
  shows "fn \<in> set names \<and> set names \<subseteq> FullName ` set (InstanceMods t iid) \<and>
    (\<forall>r \<in> set (InstanceMods t iid). FullName r \<notin> set names \<longrightarrow> set (installed_deps t r) \<inter> set names = {}) \<and>
    (\<forall>r \<in> set (InstanceMods t iid). FullName r \<in> set names - {fn} \<longrightarrow> InstalledAs r = InstalledDependency) \<and>
    (if orphans then \<forall>r \<in> set (InstanceMods t iid). FullName r \<notin> set names \<and> InstalledAs r = InstalledDependency \<longrightarrow>
         (\<exists>q \<in> set (InstanceMods t iid). FullName q \<notin> set names \<and> FullName r \<in> set (installed_deps t q))
     else names = [fn])"
proof -
  let ?rows = "InstanceMods t iid"
  let ?remaining = "filter (\<lambda>n. n \<noteq> fn) (map FullName ?rows)"
  note d = InstanceMods_distinct [OF assms(1), of iid]
  from assms(2) obtain needs where e: "dependencyEdges t ?rows = Inr needs" and fn: "fn \<in> FullName ` set ?rows"
    and free: "requiredBy fn ?remaining needs = []"
    and names: "names = fn # (if orphans then orphansOf (installed_how ?rows) ?remaining needs else [])"
    by (auto simp: RemovalSet_def Let_def split: if_splits sum.splits)
  note deps = dependencyEdges_deps [OF e d]
  have how: "installed_how ?rows (FullName r) = InstalledAs r" if "r \<in> set ?rows" for r
    using find_key [OF d, of "FullName r" r] that by (simp add: installed_how_def)
  obtain Orph where O: "set names = insert fn Orph" "Orph \<subseteq> set ?remaining"
    "\<forall>x \<in> Orph. installed_how ?rows x = InstalledDependency" "\<forall>y \<in> set ?remaining - Orph. set (needs y) \<inter> Orph = {}"
    "orphans \<longrightarrow> (\<forall>y \<in> set ?remaining - Orph. installed_how ?rows y = InstalledDependency \<longrightarrow>
       (\<exists>z \<in> set ?remaining - Orph. y \<in> set (needs z)))"
  proof (cases orphans)
    case True
    with orphans_loop_spec [of "installed_how ?rows" ?remaining needs "[]"] that show ?thesis
      by (auto simp: names orphansOf_def)
  qed (use that [of "{}"] names in simp)
  have stays: "FullName r \<in> set ?remaining - Orph \<longleftrightarrow> FullName r \<notin> set names" if "r \<in> set ?rows" for r
    using O(1) that by auto
  have "set (installed_deps t r) \<inter> set names = {}" if r: "r \<in> set ?rows" "FullName r \<notin> set names" for r
    using O(1,4) stays [OF r(1)] r(2) free unfolding requiredBy_Nil deps [OF r(1), symmetric] by auto
  moreover have "\<exists>q \<in> set ?rows. FullName q \<notin> set names \<and> FullName r \<in> set (installed_deps t q)"
    if r: "r \<in> set ?rows" "FullName r \<notin> set names" "InstalledAs r = InstalledDependency" and "orphans" for r
  proof -
    from O(5) stays [OF r(1)] r how [OF r(1)] \<open>orphans\<close> obtain z where z: "z \<in> set ?remaining - Orph" "FullName r \<in> set (needs z)"
      by auto
    then obtain q where q: "q \<in> set ?rows" "FullName q = z" by auto
    have "FullName q \<notin> set names" using stays [OF q(1)] z(1) q(2) by simp
    moreover have "FullName r \<in> set (installed_deps t q)" using z(2) deps [OF q(1)] q(2) by simp
    ultimately show ?thesis using q(1) by blast
  qed
  moreover have "InstalledAs r = InstalledDependency" if "r \<in> set ?rows" "FullName r \<in> set names - {fn}" for r
    using O(1,3) how [OF that(1)] that(2) by auto
  moreover have "\<not> orphans \<Longrightarrow> names = [fn]" by (simp add: names)
  ultimately show ?thesis using O(1,2) fn by auto
qed

definition demo_uninstall :: mod_tables where
  "demo_uninstall = \<lparr>mod_packages = [],
     mod_versions = [
       \<lparr>MVFullName = ''a'', MVSource = Thunderstore, MVVersion = ''1.0.0'', MVDependencies = Some [''c-1.0.0'']\<rparr>,
       \<lparr>MVFullName = ''b'', MVSource = Thunderstore, MVVersion = ''1.0.0'', MVDependencies = Some [''l-1.0.0'']\<rparr>,
       \<lparr>MVFullName = ''c'', MVSource = Thunderstore, MVVersion = ''1.0.0'', MVDependencies = Some [''l-1.0.0'']\<rparr>,
       \<lparr>MVFullName = ''l'', MVSource = Thunderstore, MVVersion = ''1.0.0'', MVDependencies = Some []\<rparr>],
     instance_mods = [(demo_mod ''a'' ''1.0.0'')\<lparr>InstalledAs := InstalledExplicit\<rparr>, (demo_mod ''b'' ''1.0.0'')\<lparr>InstalledAs := InstalledExplicit\<rparr>,
       demo_mod ''c'' ''1.0.0'', demo_mod ''l'' ''1.0.0'']\<rparr>"

lemma demo_uninstall_ok: "tables_ok demo_uninstall"
  by code_simp

theorem uninstall_strands_nothing_witness:
  "RemovalSet demo_uninstall ''i'' ''a'' True = Inr [''a'', ''c''] \<and>
   set (installed_deps demo_uninstall ((demo_mod ''b'' ''1.0.0'')\<lparr>InstalledAs := InstalledExplicit\<rparr>)) \<inter> {''a'', ''c''} = {}"
proof -
  let ?b = "(demo_mod ''b'' ''1.0.0'')\<lparr>InstalledAs := InstalledExplicit\<rparr>"
  have r: "RemovalSet demo_uninstall ''i'' ''a'' True = Inr [''a'', ''c'']" by code_simp
  have "?b \<in> set (InstanceMods demo_uninstall ''i'')" "FullName ?b \<notin> set [''a'', ''c'']"
    by (simp_all add: InstanceMods_def demo_uninstall_def demo_mod_def)
  with uninstall_strands_nothing [OF demo_uninstall_ok r] have "set (installed_deps demo_uninstall ?b) \<inter> set [''a'', ''c''] = {}"
    by blast
  with r show ?thesis by simp
qed

subsection \<open>Disabling and enabling keep the enabled set loadable\<close>

text \<open>No enabled package depends on an installed one that is disabled.\<close>

definition loadable :: "mod_tables \<Rightarrow> string \<Rightarrow> bool" where
  "loadable t iid \<longleftrightarrow> (\<forall>r \<in> set (InstanceMods t iid). \<forall>q \<in> set (InstanceMods t iid).
     Enabled r \<and> FullName q \<in> set (installed_deps t r) \<longrightarrow> Enabled q)"

lemma sort_Nil: "sort (remdups xs) = [] \<longleftrightarrow> xs = []"
  by (metis remdups_eq_nil_iff set_empty set_sort)

lemma installed_deps_versions:
  "mod_versions u = mod_versions t \<Longrightarrow> FullName r = FullName q \<Longrightarrow> Version r = Version q \<Longrightarrow> Source r = Source q \<Longrightarrow>
   installed_deps u r = installed_deps t q"
  by (simp add: installed_deps_def ModVersionDependencies_def ModVersionDependenciesFrom_def candidate_versions_def)

definition toggled :: "string \<Rightarrow> bool \<Rightarrow> string \<Rightarrow> instance_mod \<Rightarrow> instance_mod" where
  "toggled fn enable manifest m = (if FullName m = fn then m\<lparr>Enabled := enable, FileManifest := manifest\<rparr> else m)"

lemma toggled_fields [simp]:
  "FullName (toggled fn b x m) = FullName m" "Version (toggled fn b x m) = Version m" "Source (toggled fn b x m) = Source m"
  "Enabled (toggled fn b x m) = (if FullName m = fn then b else Enabled m)"
  by (simp_all add: toggled_def)

lemma toggle_rows:
  assumes "TxSetInstanceModEnabled iid fn enable manifest t = Inr u"
  shows "mod_versions u = mod_versions t" "set (InstanceMods u iid) = toggled fn enable manifest ` set (InstanceMods t iid)"
proof -
  from assms have u: "u = t\<lparr>instance_mods := map (\<lambda>m. if mod_key m = (iid, fn)
      then m\<lparr>Enabled := enable, FileManifest := manifest\<rparr> else m) (instance_mods t)\<rparr>"
    by (auto simp: TxSetInstanceModEnabled_def update_mod_def split: if_splits)
  then show "mod_versions u = mod_versions t" by simp
  let ?g = "\<lambda>m. if mod_key m = (iid, fn) then m\<lparr>Enabled := enable, FileManifest := manifest\<rparr> else m"
  have g: "?g m = toggled fn enable manifest m" if "InstanceID m = iid" for m
    using that by (simp add: toggled_def mod_key_def)
  have "filter (\<lambda>m. InstanceID m = iid) (map ?g (instance_mods t)) = map ?g (filter (\<lambda>m. InstanceID m = iid) (instance_mods t))"
    by (simp add: filter_map comp_def cong: filter_cong)
  also have "\<dots> = map (toggled fn enable manifest) (filter (\<lambda>m. InstanceID m = iid) (instance_mods t))"
    by (rule map_cong [OF refl]) (use g in auto)
  finally show "set (InstanceMods u iid) = toggled fn enable manifest ` set (InstanceMods t iid)"
    by (simp only: u InstanceMods_def set_sort mod_tables.select_convs mod_tables.update_convs set_map) simp
qed

text \<open>A toggle the planner allows keeps the instance loadable: if no enabled package depends on a
  disabled installed one, then after the flag of an allowed disable or enable is written none does.\<close>

lemma toggle_keeps_loadable:
  assumes "tables_ok t" and "loadable t iid" and "CheckToggle t (InstanceMods t iid) fn enable = None"
    and "TxSetInstanceModEnabled iid fn enable manifest t = Inr u"
  shows "loadable u iid"
proof -
  let ?rows = "InstanceMods t iid"
  note d = InstanceMods_distinct [OF assms(1), of iid] and rows = toggle_rows [OF assms(4)]
  from assms(3) obtain needs where e: "dependencyEdges t ?rows = Inr needs"
    and off: "\<not> enable \<Longrightarrow> requiredBy fn (map FullName (filter (\<lambda>r. Enabled r \<and> FullName r \<noteq> fn) ?rows)) needs = []"
    and on: "enable \<Longrightarrow> filter (\<lambda>dep. list_ex (\<lambda>r. FullName r = dep \<and> \<not> Enabled r) ?rows) (needs fn) = []"
    by (auto simp: CheckToggle_def Let_def sort_Nil split: if_splits sum.splits)
  note deps = dependencyEdges_deps [OF e d]
  have "Enabled (toggled fn enable manifest q)"
    if r: "r \<in> set ?rows" "q \<in> set ?rows" "Enabled (toggled fn enable manifest r)" "FullName q \<in> set (installed_deps t r)" for r q
  proof (cases enable)
    case True
    show ?thesis
    proof (cases "FullName r = fn")
      case f: True
      with on [OF True] r deps [OF r(1)] show ?thesis by (auto simp: filter_empty_conv list_ex_iff)
    next
      case False
      then have "Enabled r" using r(3) by simp
      then have "Enabled q" using assms(2) r(1,2,4) unfolding loadable_def by blast
      with True show ?thesis by simp
    qed
  next
    case False
    with r have "FullName r \<noteq> fn" "Enabled r" by (auto split: if_splits)
    with off [OF False] r deps [OF r(1)] have "FullName q \<noteq> fn" by (auto simp: requiredBy_Nil)
    moreover have "Enabled q" using assms(2) r(1,2,4) \<open>Enabled r\<close> unfolding loadable_def by blast
    ultimately show ?thesis by simp
  qed
  moreover have "installed_deps u (toggled fn enable manifest r) = installed_deps t r" for r
    by (rule installed_deps_versions [OF rows(1)]) simp_all
  ultimately show ?thesis unfolding loadable_def rows(2) ball_simps by (metis toggled_fields(1))
qed

lemma toggle_keeps_loadable_example:
  "\<exists>u. TxSetInstanceModEnabled ''i'' ''a'' False [] demo_uninstall = Inr u \<and> loadable u ''i''"
proof -
  have "isl (TxSetInstanceModEnabled ''i'' ''a'' False [] demo_uninstall) = False" by code_simp
  then obtain u where u: "TxSetInstanceModEnabled ''i'' ''a'' False [] demo_uninstall = Inr u"
    by (cases "TxSetInstanceModEnabled ''i'' ''a'' False [] demo_uninstall") auto
  have "loadable demo_uninstall ''i''" by code_simp
  moreover have "CheckToggle demo_uninstall (InstanceMods demo_uninstall ''i'') ''a'' False = None" by code_simp
  ultimately show ?thesis using toggle_keeps_loadable [OF demo_uninstall_ok _ _ u] u by blast
qed

subsection \<open>Offered updates are acceptable\<close>

definition acceptable :: "source list \<Rightarrow> instance_mod list \<Rightarrow> update_target \<Rightarrow> bool" where
  "acceptable en rows u \<longleftrightarrow> (\<exists>r. find (\<lambda>r. FullName r = TFullName u) rows = Some r \<and> Enabled r \<and> \<not> Locked r \<and>
     TSource u = source_String (Source r) \<and> Source r \<in> set en \<and> newer (TVersion u) (Version r) \<and> TFromVersion u = Version r)"

lemma check_targets_clean:
  "\<forall>u \<in> set us. acceptable en rows u \<Longrightarrow> distinct (map TFullName us) \<Longrightarrow> set (map TFullName us) \<inter> set seen = {} \<Longrightarrow>
   check_targets en rows seen i us = (us, [])"
proof (induction us arbitrary: seen i)
  case (Cons u us)
  then have "check_targets en rows (TFullName u # seen) (Suc i) us = (us, [])" by (intro Cons.IH) auto
  moreover have "target_issue en rows seen i u = None" "u\<lparr>TFromVersion := Version (the (find (\<lambda>r. FullName r = TFullName u) rows))\<rparr> = u"
    using Cons.prems by (auto simp: acceptable_def target_issue_def)
  ultimately show ?case by simp
qed simp

lemma pending_target_acceptable:
  assumes "pending_target en starts members c = Some u" and "distinct (map FullName rows)" and "Mod c \<in> set rows"
  shows "acceptable en rows u \<and> TFullName u = FullName (Mod c)"
proof -
  from assms(1) obtain v where u: "u = \<lparr>TFullName = FullName (Mod c), TSource = source_String (Source (Mod c)),
      TFromVersion = Version (Mod c), TVersion = v\<rparr>" and v: "ModUpdateVersion (Mod c) (Package c) = Some v"
    and g: "Enabled (Mod c)" "\<not> Locked (Mod c)" "Source (Mod c) \<in> set en"
    by (auto simp: pending_target_def Let_def split: if_splits)
  have "newer v (Version (Mod c))" using v
    by (auto simp: ModUpdateVersion_def newer_def split: option.splits if_splits)
  moreover have "find (\<lambda>r. FullName r = FullName (Mod c)) rows = Some (Mod c)"
    using assms(3) by (simp add: find_key [OF assms(2)])
  ultimately show ?thesis using g by (simp add: u acceptable_def)
qed

lemma distinct_map_filter_names:
  assumes "\<And>c u. c \<in> set cs \<Longrightarrow> f c = Some u \<Longrightarrow> g u = h c" and "distinct (map h cs)"
  shows "distinct (map g (List.map_filter f cs)) \<and> set (map g (List.map_filter f cs)) \<subseteq> h ` set cs"
  using assms
proof (induction cs)
  case (Cons c cs)
  from Cons.prems have IH: "distinct (map g (List.map_filter f cs)) \<and> set (map g (List.map_filter f cs)) \<subseteq> h ` set cs"
    by (intro Cons.IH) auto
  show ?case
  proof (cases "f c")
    case None
    with IH show ?thesis by auto
  next
    case (Some u)
    with Cons.prems have "g u = h c" "h c \<notin> h ` set cs" by auto
    with IH Some show ?thesis by auto
  qed
qed simp

text \<open>Every update the panel offers is one it accepts: confirming exactly the pending updates of
  an instance passes \<open>CheckUpdateTargets\<close> unchanged and without an issue.\<close>

lemma pending_updates_accepted:
  assumes "tables_ok t" and "PendingUpdates t en starts iid = Inr us" and "us \<noteq> []"
  shows "CheckUpdateTargets t en iid us = (us, [])"
proof -
  let ?rows = "InstanceMods t iid" and ?cs = "InstanceModsCatalogued t iid"
  note d = InstanceMods_distinct [OF assms(1), of iid]
  from assms(2) obtain members where us: "us = List.map_filter (pending_target en starts members) ?cs"
    by (auto simp: PendingUpdates_def Let_def rbind_eq_Inr)
  have names: "map (\<lambda>c. FullName (Mod c)) ?cs = map FullName ?rows" by (simp add: InstanceModsCatalogued_def)
  have acc: "acceptable en ?rows u \<and> TFullName u = FullName (Mod c)"
    if "c \<in> set ?cs" "pending_target en starts members c = Some u" for c u
    using pending_target_acceptable [OF that(2) d] that(1) by (auto simp: InstanceModsCatalogued_def)
  have "distinct (map TFullName us)"
    using distinct_map_filter_names [of ?cs "pending_target en starts members" TFullName "\<lambda>c. FullName (Mod c)"] acc d
    unfolding us names by blast
  moreover have "\<forall>u \<in> set us. acceptable en ?rows u"
    using acc unfolding us List.map_filter_def by (auto simp del: not_None_eq)
  ultimately show ?thesis using assms(3) by (simp add: CheckUpdateTargets_def check_targets_clean)
qed

definition demo_pending :: mod_tables where
  "demo_pending = \<lparr>mod_packages = [(\<lparr>PkgFullName = ''a'', PkgSource = Thunderstore, LatestVersion = ''1.1.0'', Categories = []\<rparr>, 5)],
     mod_versions = [], instance_mods = [demo_mod ''a'' ''1.0.0'']\<rparr>"

end
