(* ===== verification/Installer.thy ===== *)
theory Installer
  imports Go_Prelude "HOL-Library.Sublist"
begin

text \<open>
  \<open>internal/mods/installer\<close>: what installing a staged package changes under the server root, how it is
  backed up, applied, rolled back, and how a disabled package's files are parked and brought back.
  A file tree maps a cleaned relative path to the bytes of the regular file there; directories,
  modes and links are outside the model, and so is a write the operating system refuses. Where the
  job may die or stop half-way, the intermediate trees are a relation, and the theorems are about
  every one of them. \<open>crypto/sha256\<close> is a parameter.
\<close>

type_synonym tree = "string \<rightharpoonup> string"

subsection \<open>Paths\<close>

text \<open>\<open>path.Clean\<close> on the segments of a path that is not absolute: empty and dot segments go, a dot-dot
  takes back the segment before it and stays where there is none.\<close>

fun clean_segs :: "string list \<Rightarrow> string list \<Rightarrow> string list" where
  "clean_segs [] st = rev st"
| "clean_segs (p # ps) st =
     (if p = [] \<or> p = ''.'' then clean_segs ps st
      else if p = ''..''
      then (case st of
              [] \<Rightarrow> clean_segs ps [''..'']
            | q # qs \<Rightarrow> if q = ''..'' then clean_segs ps (''..'' # st) else clean_segs ps qs)
      else clean_segs ps (p # st))"

definition path_IsAbs :: "string \<Rightarrow> bool" where
  "path_IsAbs p = (case p of c # _ \<Rightarrow> c = CHR ''/'' | [] \<Rightarrow> False)"

definition path_of :: "string list \<Rightarrow> string" where
  "path_of segs = (if segs = [] then ''.'' else join_with (CHR ''/'') segs)"

text \<open>\<open>CheckDest\<close>: a cleaned path is local unless it starts by climbing out.\<close>

definition CheckDest :: "string \<Rightarrow> string option" where
  "CheckDest dest =
     (if dest = [] \<or> path_IsAbs dest then None
      else let segs = clean_segs (split_on (CHR ''/'') dest) []
           in if segs \<noteq> [] \<and> hd segs = ''..'' then None else Some (path_of segs))"

text \<open>\<open>filepath.Dir\<close> and the base name of a cleaned relative path.\<close>

definition dir_of :: "string \<Rightarrow> string list" where
  "dir_of p = butlast (split_on (CHR ''/'') p)"

definition base_of :: "string \<Rightarrow> string" where
  "base_of p = last (split_on (CHR ''/'') p)"

definition tempPrefix :: string where
  "tempPrefix = ''.valmin-''"

definition is_temp :: "string \<Rightarrow> bool" where
  "is_temp p = is_prefix_of tempPrefix (base_of p)"

definition configRoot :: string where
  "configRoot = ''BepInEx/config/''"

definition UserConfig :: "string \<Rightarrow> bool" where
  "UserConfig dest = is_prefix_of configRoot dest"

subsection \<open>Placements\<close>

record placement =
  PSource :: string
  PDest :: string

text \<open>A staged entry at the top of a package: a file, or a directory with the files below it in
  \<open>filepath.WalkDir\<close>'s order, as relative paths.\<close>

datatype staged_entry = StagedFile string | StagedDir string "string list"

fun entry_name :: "staged_entry \<Rightarrow> string" where
  "entry_name (StagedFile n) = n"
| "entry_name (StagedDir n _) = n"

fun is_dir :: "staged_entry \<Rightarrow> bool" where
  "is_dir (StagedFile _) = False"
| "is_dir (StagedDir _ _) = True"

definition to_lower :: "char \<Rightarrow> char" where
  "to_lower c = (if is_upper c then char_of (of_char c + 32 :: nat) else c)"

definition metadata :: "string list" where
  "metadata = [''manifest.json'', ''icon.png'', ''readme.md'', ''changelog.md'']"

definition mergeDirs :: "string \<rightharpoonup> string" where
  "mergeDirs = [''BepInEx'' \<mapsto> ''BepInEx'', ''plugins'' \<mapsto> ''BepInEx/plugins'',
     ''config'' \<mapsto> ''BepInEx/config'', ''patchers'' \<mapsto> ''BepInEx/patchers'']"

text \<open>\<open>path.Join\<close> of non-empty elements.\<close>

definition path_join :: "string list \<Rightarrow> string" where
  "path_join ps = path_of (clean_segs (concat (map (split_on (CHR ''/'')) (filter (\<lambda>p. p \<noteq> []) ps))) [])"

datatype install_error =
    InvalidFullName string | DuplicateDest string string string | UnsafeDest string
  | Conflict string string | OpenFailed string | NoArchivedContent string

definition CheckFullName :: "string \<Rightarrow> install_error option" where
  "CheckFullName fn =
     (if fn = [] \<or> CHR ''/'' \<in> set fn \<or> CHR 0x5C \<in> set fn \<or> fn = ''.'' \<or> fn = ''..''
      then Some (InvalidFullName fn) else None)"

fun checkNoDuplicateDest :: "(string \<rightharpoonup> string) \<Rightarrow> placement list \<Rightarrow> install_error option" where
  "checkNoDuplicateDest seen [] = None"
| "checkNoDuplicateDest seen (p # ps) =
     (case seen (PDest p) of
        Some first \<Rightarrow> Some (DuplicateDest (PDest p) first (PSource p))
      | None \<Rightarrow> checkNoDuplicateDest (seen(PDest p \<mapsto> PSource p)) ps)"

definition destFor :: "staged_entry \<Rightarrow> string \<Rightarrow> string" where
  "destFor e fn =
     (case (if is_dir e then mergeDirs (entry_name e) else None) of
        Some dest \<Rightarrow> dest
      | None \<Rightarrow> path_join [''BepInEx/plugins'', fn, entry_name e])"

text \<open>The wrapper of a framework package: one directory with a \<open>BepInEx\<close> directory in it, here one that
  holds a file.\<close>

definition frameworkWrapper :: "staged_entry list \<Rightarrow> (string \<times> string list) option" where
  "frameworkWrapper payload =
     (case payload of
        [StagedDir name files] \<Rightarrow> if list_ex (is_prefix_of ''BepInEx/'') files then Some (name, files) else None
      | _ \<Rightarrow> None)"

text \<open>A source is the path below the staging directory.\<close>

definition walkFiles :: "string \<Rightarrow> string list \<Rightarrow> string \<Rightarrow> placement list" where
  "walkFiles dir files destPrefix =
     map (\<lambda>rel. \<lparr>PSource = dir @ ''/'' @ rel, PDest = path_join [destPrefix, rel]\<rparr>) files"

definition place_entry :: "string \<Rightarrow> staged_entry \<Rightarrow> placement list" where
  "place_entry fn e =
     (case e of
        StagedFile n \<Rightarrow> [\<lparr>PSource = n, PDest = destFor e fn\<rparr>]
      | StagedDir n files \<Rightarrow> walkFiles n files (destFor e fn))"

definition Plan :: "staged_entry list \<Rightarrow> string \<Rightarrow> install_error + placement list" where
  "Plan entries fn =
     (case CheckFullName fn of
        Some e \<Rightarrow> Inl e
      | None \<Rightarrow>
          (let payload = filter (\<lambda>e. map to_lower (entry_name e) \<notin> set metadata) entries
           in case frameworkWrapper payload of
                Some (name, files) \<Rightarrow> Inr (walkFiles name files [])
              | None \<Rightarrow>
                  (let out = concat (map (place_entry fn) payload)
                   in case checkNoDuplicateDest Map.empty out of Some e \<Rightarrow> Inl e | None \<Rightarrow> Inr out)))"

subsection \<open>Changes\<close>

datatype action = ActionCreate | ActionOverwrite | ActionSkip

datatype skip_reason = SkipConfigExists | SkipUnownedKept

record change =
  Placement :: placement
  Action :: action
  Reason :: "skip_reason option"
  Unowned :: bool

abbreviation Dest :: "change \<Rightarrow> string" where
  "Dest c \<equiv> PDest (Placement c)"

definition mk_change :: "placement \<Rightarrow> action \<Rightarrow> skip_reason option \<Rightarrow> bool \<Rightarrow> change" where
  "mk_change p a r u = \<lparr>Placement = p, Action = a, Reason = r, Unowned = u\<rparr>"

definition diff_one ::
  "string \<Rightarrow> tree \<Rightarrow> (string \<rightharpoonup> string) \<Rightarrow> placement \<Rightarrow> install_error + change" where
  "diff_one fn root claims p =
     (case CheckDest (PDest p) of
        None \<Rightarrow> Inl (UnsafeDest (PDest p))
      | Some dest \<Rightarrow>
          (let exists = (root dest \<noteq> None)
           in if exists \<and> is_prefix_of configRoot (PDest p)
              then Inr (mk_change p ActionSkip (Some SkipConfigExists) False)
              else case claims (PDest p) of
                Some owner \<Rightarrow>
                  if owner \<noteq> [] \<and> owner \<noteq> fn then Inl (Conflict (PDest p) owner)
                  else Inr (mk_change p (if exists then ActionOverwrite else ActionCreate) None False)
              | None \<Rightarrow> Inr (mk_change p (if exists then ActionOverwrite else ActionCreate) None exists)))"

fun Diff :: "string \<Rightarrow> placement list \<Rightarrow> tree \<Rightarrow> (string \<rightharpoonup> string) \<Rightarrow> install_error + change list" where
  "Diff fn [] root claims = Inr []"
| "Diff fn (p # ps) root claims =
     rbind (diff_one fn root claims p) (\<lambda>c. rbind (Diff fn ps root claims) (\<lambda>cs. Inr (c # cs)))"

datatype unowned_answer = UnownedAsk | UnownedKeep | UnownedReplace

text \<open>\<open>ApplyUnowned\<close> rewrites the changes in place and returns the paths still waiting.\<close>

definition ApplyUnowned :: "change list \<Rightarrow> unowned_answer \<Rightarrow> change list \<times> string list" where
  "ApplyUnowned changes answer =
     (map (\<lambda>c. if Unowned c \<and> answer = UnownedKeep
               then c\<lparr>Action := ActionSkip, Reason := Some SkipUnownedKept\<rparr> else c) changes,
      if answer = UnownedAsk then map Dest (filter Unowned changes) else [])"

definition DestPaths :: "change list \<Rightarrow> string list" where
  "DestPaths changes = map Dest (filter (\<lambda>c. Action c \<noteq> ActionSkip) changes)"

subsection \<open>Backup, remove, apply\<close>

definition backup_path :: "tree \<Rightarrow> string \<Rightarrow> tree \<Rightarrow> install_error + tree" where
  "backup_path root p saved =
     (case CheckDest p of
        None \<Rightarrow> Inl (UnsafeDest p)
      | Some rel \<Rightarrow> Inr (case root rel of None \<Rightarrow> saved | Some b \<Rightarrow> saved(rel \<mapsto> b)))"

definition BackupPaths :: "string list \<Rightarrow> tree \<Rightarrow> tree \<Rightarrow> install_error + tree" where
  "BackupPaths paths root saved = foldR (backup_path root) paths saved"

definition Backup :: "change list \<Rightarrow> tree \<Rightarrow> tree \<Rightarrow> install_error + tree" where
  "Backup changes root saved = BackupPaths (DestPaths changes) root saved"

text \<open>\<open>Remove\<close> attempts every path; the list is the joined errors.\<close>

fun Remove :: "string list \<Rightarrow> tree \<Rightarrow> install_error list \<times> tree" where
  "Remove [] root = ([], root)"
| "Remove (p # ps) root =
     (case CheckDest p of
        None \<Rightarrow> (case Remove ps root of (es, r) \<Rightarrow> (UnsafeDest p # es, r))
      | Some rel \<Rightarrow> Remove ps (root(rel := None)))"

text \<open>\<open>Apply\<close> stops at its first error, leaving what it has placed; \<open>stage\<close> holds the staged files.\<close>

fun Apply :: "tree \<Rightarrow> change list \<Rightarrow> tree \<Rightarrow> install_error option \<times> tree" where
  "Apply stage [] root = (None, root)"
| "Apply stage (c # cs) root =
     (if Action c = ActionSkip then Apply stage cs root
      else case CheckDest (Dest c) of
        None \<Rightarrow> (Some (UnsafeDest (Dest c)), root)
      | Some rel \<Rightarrow>
          (case stage (PSource (Placement c)) of
             None \<Rightarrow> (Some (OpenFailed (PSource (Placement c))), root)
           | Some bytes \<Rightarrow> Apply stage cs (root(rel \<mapsto> bytes))))"

subsection \<open>Manifests and rollback\<close>

record manifest_entry =
  EPath :: string
  ESHA256 :: string
  EParked :: bool

definition Paths :: "manifest_entry list \<Rightarrow> string list" where
  "Paths = map EPath"

text \<open>\<open>Manifest\<close> hashes the staged file of every change that is not skipped.\<close>

fun Manifest :: "(string \<Rightarrow> string) \<Rightarrow> tree \<Rightarrow> change list \<Rightarrow> install_error + manifest_entry list" where
  "Manifest sha stage [] = Inr []"
| "Manifest sha stage (c # cs) =
     (if Action c = ActionSkip then Manifest sha stage cs
      else case stage (PSource (Placement c)) of
        None \<Rightarrow> Inl (OpenFailed (PSource (Placement c)))
      | Some bytes \<Rightarrow> rbind (Manifest sha stage cs)
          (\<lambda>es. Inr (\<lparr>EPath = Dest c, ESHA256 = sha bytes, EParked = False\<rparr> # es)))"

text \<open>The loop of \<open>Rollback\<close>: a path with a saved copy is restored, any other removed; the results are
  the errors, the directories touched and the tree.\<close>

fun rollback_loop :: "tree \<Rightarrow> string list \<Rightarrow> tree \<Rightarrow> install_error list \<times> string list set \<times> tree" where
  "rollback_loop saved [] root = ([], {}, root)"
| "rollback_loop saved (p # ps) root =
     (case CheckDest p of
        None \<Rightarrow> (case rollback_loop saved ps root of (es, ds, r) \<Rightarrow> (UnsafeDest p # es, ds, r))
      | Some rel \<Rightarrow>
          (case rollback_loop saved ps (root(rel := saved rel)) of (es, ds, r) \<Rightarrow> (es, insert (dir_of rel) ds, r)))"

definition removeStaleTemps :: "string list set \<Rightarrow> tree \<Rightarrow> tree" where
  "removeStaleTemps dirs root = (\<lambda>p. if is_temp p \<and> dir_of p \<in> dirs then None else root p)"

definition Rollback :: "manifest_entry list \<Rightarrow> tree \<Rightarrow> tree \<Rightarrow> install_error list \<times> tree" where
  "Rollback manifest saved root =
     (case rollback_loop saved (Paths manifest) root of (es, ds, r) \<Rightarrow> (es, removeStaleTemps ds r))"

definition rollbackEntries :: "manifest_entry list \<Rightarrow> string list \<Rightarrow> manifest_entry list" where
  "rollbackEntries manifest stale =
     manifest @ map (\<lambda>p. \<lparr>EPath = p, ESHA256 = [], EParked = False\<rparr>) stale"

end
