(* ===== verification/Install_Job.thy ===== *)
theory Install_Job
  imports Installer
begin

text \<open>
  The file side of a mod install (\<open>internal/mods/manager\<close>: \<open>planClosure\<close>, \<open>setStale\<close> and \<open>staleOf\<close> of
  \<open>resolve.go\<close>, the backup, placement and rollback passes of \<open>commit.go\<close>, \<open>rollback.go\<close> and
  \<open>recovery.go\<close>), over the operations of \<open>Installer\<close>. The main theorem is that an install that stops
  anywhere after its backup pass, by an error or by the process dying, is undone exactly.
\<close>

subsection \<open>Planning the closure\<close>

record install_pkg =
  pk_name :: string
  pk_remove :: bool
  pk_update :: bool
  pk_prev_manifest :: "manifest_entry list"
  pk_entries :: "staged_entry list"
  pk_changes :: "change list"
  pk_manifest :: "manifest_entry list"
  pk_stale :: "string list"

text \<open>\<open>installedClaims\<close>: later rows win a path two manifests name.\<close>

definition installedClaims :: "(string \<times> manifest_entry list) list \<Rightarrow> string \<rightharpoonup> string" where
  "installedClaims rows =
     fold (\<lambda>(name, manifest) claims. fold (\<lambda>e claims. claims(EPath e \<mapsto> name)) manifest claims) rows Map.empty"

definition open_claims :: "install_pkg list \<Rightarrow> (string \<rightharpoonup> string) \<Rightarrow> (string \<rightharpoonup> string)" where
  "open_claims pkgs claims = fold (\<lambda>p claims. fold (\<lambda>e claims. claims(EPath e \<mapsto> [])) (pk_prev_manifest p) claims) pkgs claims"

definition plan_pkg ::
  "(string \<Rightarrow> string) \<Rightarrow> tree \<Rightarrow> tree \<Rightarrow> unowned_answer \<Rightarrow> install_pkg \<Rightarrow> (string \<rightharpoonup> string) \<Rightarrow>
   install_error + (install_pkg \<times> string list \<times> (string \<rightharpoonup> string))" where
  "plan_pkg sha stage root answer p claims =
     (if pk_remove p then Inr (p, [], claims)
      else rbind (Plan (pk_entries p) (pk_name p)) (\<lambda>placements.
           rbind (Diff (pk_name p) placements root claims) (\<lambda>changes0.
             case ApplyUnowned changes0 answer of (changes, waiting) \<Rightarrow>
               rbind (Manifest sha stage changes) (\<lambda>manifest.
                 Inr (p\<lparr>pk_changes := changes, pk_manifest := manifest\<rparr>, waiting,
                      fold (\<lambda>e claims. claims(EPath e \<mapsto> pk_name p)) manifest claims)))))"

fun plan_pkgs ::
  "(string \<Rightarrow> string) \<Rightarrow> (string \<Rightarrow> tree) \<Rightarrow> tree \<Rightarrow> unowned_answer \<Rightarrow> install_pkg list \<Rightarrow> (string \<rightharpoonup> string) \<Rightarrow>
   install_error + (install_pkg list \<times> string list \<times> (string \<rightharpoonup> string))" where
  "plan_pkgs sha stage root answer [] claims = Inr ([], [], claims)"
| "plan_pkgs sha stage root answer (p # ps) claims =
     rbind (plan_pkg sha (stage (pk_name p)) root answer p claims) (\<lambda>(p', w, claims').
       rbind (plan_pkgs sha stage root answer ps claims') (\<lambda>(ps', ws, claims'').
         Inr (p' # ps', w @ ws, claims'')))"

definition staleOf :: "install_pkg \<Rightarrow> string list" where
  "staleOf p =
     (if \<not> pk_update p then []
      else filter (\<lambda>path. path \<notin> Dest ` set (pk_changes p) \<and> \<not> UserConfig path) (Paths (pk_prev_manifest p)))"

definition setStale :: "(string \<rightharpoonup> string) \<Rightarrow> install_pkg \<Rightarrow> install_pkg" where
  "setStale claims p =
     p\<lparr>pk_stale := filter (\<lambda>path. \<not> (map_get claims [] path \<noteq> [] \<and> map_get claims [] path \<noteq> pk_name p))
         (if pk_remove p then pk_stale p else staleOf p)\<rparr>"

datatype closure_error = PlanFailed install_error | UnownedWaiting "string list"

definition planClosure ::
  "(string \<Rightarrow> string) \<Rightarrow> (string \<Rightarrow> tree) \<Rightarrow> tree \<Rightarrow> (string \<times> manifest_entry list) list \<Rightarrow> unowned_answer \<Rightarrow> install_pkg list \<Rightarrow>
   closure_error + install_pkg list" where
  "planClosure sha stage root rows answer pkgs =
     (case plan_pkgs sha stage root answer pkgs (open_claims pkgs (installedClaims rows)) of
        Inl e \<Rightarrow> Inl (PlanFailed e)
      | Inr (ps, waiting, claims) \<Rightarrow>
          if waiting \<noteq> [] then Inl (UnownedWaiting waiting) else Inr (map (setStale claims) ps))"

subsection \<open>Backing up, placing, rolling back\<close>

definition backup_pkg :: "tree \<Rightarrow> install_pkg \<Rightarrow> tree \<Rightarrow> install_error + tree" where
  "backup_pkg root p saved = rbind (Backup (pk_changes p) root saved) (BackupPaths (pk_stale p) root)"

definition backup_pkgs :: "install_pkg list \<Rightarrow> tree \<Rightarrow> install_error + tree" where
  "backup_pkgs pkgs root = foldR (backup_pkg root) pkgs Map.empty"

text \<open>The placing pass of \<open>commitInstall\<close>, and the trees it can be stopped at: before any package, with
  some of a package's stale files removed, after some of its changes, with a temporary file of the
  next write beside its destination, or inside a later package.\<close>

fun place_pkgs :: "(string \<Rightarrow> tree) \<Rightarrow> install_pkg list \<Rightarrow> tree \<Rightarrow> install_error list \<times> tree" where
  "place_pkgs stage [] root = ([], root)"
| "place_pkgs stage (p # ps) root =
     (case Remove (pk_stale p) root of (es, r1) \<Rightarrow>
        if es \<noteq> [] then (es, r1)
        else case Apply (stage (pk_name p)) (pk_changes p) r1 of
          (Some e, r2) \<Rightarrow> ([e], r2)
        | (None, r2) \<Rightarrow> place_pkgs stage ps r2)"

inductive stopped_at :: "(string \<Rightarrow> tree) \<Rightarrow> install_pkg list \<Rightarrow> tree \<Rightarrow> tree \<Rightarrow> bool" for stage where
  here: "stopped_at stage pkgs r r"
| removing: "set gone \<subseteq> set (pk_stale p) \<Longrightarrow> Remove gone r = (es, r') \<Longrightarrow> stopped_at stage (p # ps) r r'"
| placing: "Remove (pk_stale p) r = (es, r1) \<Longrightarrow> prefix some (pk_changes p) \<Longrightarrow>
    Apply (stage (pk_name p)) some r1 = (e, r2) \<Longrightarrow> stopped_at stage (p # ps) r r2"
| writing: "Remove (pk_stale p) r = (es, r1) \<Longrightarrow> prefix (some @ [c]) (pk_changes p) \<Longrightarrow> Action c \<noteq> ActionSkip \<Longrightarrow>
    Apply (stage (pk_name p)) some r1 = (e, r2) \<Longrightarrow> CheckDest (Dest c) = Some rel \<Longrightarrow>
    is_temp tmp \<Longrightarrow> dir_of tmp = dir_of rel \<Longrightarrow> stopped_at stage (p # ps) r (r2(tmp \<mapsto> b))"
| later: "Remove (pk_stale p) r = (es, r1) \<Longrightarrow> Apply (stage (pk_name p)) (pk_changes p) r1 = (None, r2) \<Longrightarrow>
    stopped_at stage ps r2 r3 \<Longrightarrow> stopped_at stage (p # ps) r r3"

definition rollback_pkg :: "tree \<Rightarrow> install_pkg \<Rightarrow> tree \<Rightarrow> install_error list \<times> tree" where
  "rollback_pkg saved p root = Rollback (rollbackEntries (pk_manifest p) (pk_stale p)) saved root"

fun rollback_pkgs :: "tree \<Rightarrow> install_pkg list \<Rightarrow> tree \<Rightarrow> install_error list \<times> tree" where
  "rollback_pkgs saved [] root = ([], root)"
| "rollback_pkgs saved (p # ps) root =
     (case rollback_pkg saved p root of (es, r) \<Rightarrow>
        (case rollback_pkgs saved ps r of (es', r') \<Rightarrow> (es @ es', r')))"

subsection \<open>Lemmas: what each pass touches\<close>

definition rels :: "string list \<Rightarrow> string set" where
  "rels paths = {rel. \<exists>p \<in> set paths. CheckDest p = Some rel}"

definition touched :: "install_pkg \<Rightarrow> string set" where
  "touched p = rels (DestPaths (pk_changes p)) \<union> rels (pk_stale p)"

text \<open>Two trees agree outside \<open>T\<close>, temporary files in the directories of \<open>T\<close> aside.\<close>

definition agree :: "string set \<Rightarrow> tree \<Rightarrow> tree \<Rightarrow> bool" where
  "agree T r r' \<longleftrightarrow> (\<forall>q. q \<notin> T \<longrightarrow> \<not> (is_temp q \<and> dir_of q \<in> dir_of ` T) \<longrightarrow> r' q = r q)"

lemma agree_refl [simp]: "agree T r r"
  by (simp add: agree_def)

lemma agree_trans: "agree T a b \<Longrightarrow> agree T b c \<Longrightarrow> agree T a c"
  by (simp add: agree_def)

lemma agree_mono: "agree S a b \<Longrightarrow> S \<subseteq> T \<Longrightarrow> agree T a b"
  unfolding agree_def by blast

lemma rels_simps [simp]:
  "rels [] = {}" "rels (p # ps) = set_option (CheckDest p) \<union> rels ps" "rels (ps @ qs) = rels ps \<union> rels qs"
  by (auto simp: rels_def)

lemma rels_mono: "set ps \<subseteq> set qs \<Longrightarrow> rels ps \<subseteq> rels qs"
  by (auto simp: rels_def)

lemma Remove_agree: "Remove ps r = (es, r') \<Longrightarrow> agree (rels ps) r r'"
proof (induction ps arbitrary: r es)
  case (Cons p ps)
  show ?case
  proof (cases "CheckDest p")
    case None
    with Cons show ?thesis by (auto split: prod.splits)
  next
    case (Some rel)
    with Cons.prems have "agree (rels ps) (r(rel := None)) r'" by (auto intro: Cons.IH)
    then have "agree (rels (p # ps)) (r(rel := None)) r'" by (rule agree_mono) (auto simp: Some)
    moreover have "agree (rels (p # ps)) r (r(rel := None))" by (simp add: agree_def Some)
    ultimately show ?thesis using agree_trans by blast
  qed
qed simp

lemma Apply_agree: "Apply stage cs r = (e, r') \<Longrightarrow> agree (rels (DestPaths cs)) r r'"
proof (induction cs arbitrary: r)
  case (Cons c cs)
  show ?case
  proof (cases "Action c = ActionSkip")
    case True
    with Cons show ?thesis by (simp add: DestPaths_def)
  next
    case False
    then have d: "DestPaths (c # cs) = Dest c # DestPaths cs" by (simp add: DestPaths_def)
    show ?thesis
    proof (cases "CheckDest (Dest c)")
      case None
      with False Cons.prems show ?thesis by simp
    next
      case (Some rel)
      show ?thesis
      proof (cases "stage (PSource (Placement c))")
        case None
        with False Some Cons.prems show ?thesis by simp
      next
        case b: (Some bytes)
        with False Some Cons.prems have "agree (rels (DestPaths cs)) (r(rel \<mapsto> bytes)) r'" by (auto intro: Cons.IH)
        then have "agree (rels (DestPaths (c # cs))) (r(rel \<mapsto> bytes)) r'" by (rule agree_mono) (simp add: d)
        moreover have "agree (rels (DestPaths (c # cs))) r (r(rel \<mapsto> bytes))" by (simp add: agree_def d Some)
        ultimately show ?thesis using agree_trans by blast
      qed
    qed
  qed
qed (simp add: DestPaths_def)

lemma prefix_dests: "prefix some cs \<Longrightarrow> rels (DestPaths some) \<subseteq> rels (DestPaths cs)"
  by (auto simp: prefix_def DestPaths_def)

lemma stopped_agree: "stopped_at stage pkgs r r' \<Longrightarrow> agree (\<Union> (touched ` set pkgs)) r r'"
proof (induction rule: stopped_at.induct)
  case (removing gone p r es r' ps)
  from Remove_agree [OF removing(2)] have "agree (rels gone) r r'" .
  then show ?case by (rule agree_mono) (use rels_mono [OF removing(1)] in \<open>auto simp: touched_def\<close>)
next
  case (placing p r es r1 some e r2 ps)
  have "agree (touched p) r r1" using Remove_agree [OF placing(1)] by (rule agree_mono) (simp add: touched_def)
  moreover have "agree (touched p) r1 r2"
    using Apply_agree [OF placing(3)] by (rule agree_mono) (use prefix_dests [OF placing(2)] in \<open>auto simp: touched_def\<close>)
  ultimately have "agree (touched p) r r2" by (rule agree_trans)
  then show ?case by (rule agree_mono) simp
next
  case (writing p r es r1 some c e r2 rel tmp ps b)
  have "agree (touched p) r r1" using Remove_agree [OF writing(1)] by (rule agree_mono) (simp add: touched_def)
  moreover have pre: "prefix some (pk_changes p)" using writing(2) by (auto simp: prefix_def)
  moreover have "agree (touched p) r1 r2"
    using Apply_agree [OF writing(4)] by (rule agree_mono) (use prefix_dests [OF pre] in \<open>auto simp: touched_def\<close>)
  moreover have "rel \<in> touched p"
  proof -
    have "c \<in> set (pk_changes p)" using writing(2) by (auto simp: prefix_def)
    with writing(3,5) show ?thesis by (auto simp: touched_def rels_def DestPaths_def)
  qed
  then have "agree (touched p) r2 (r2(tmp \<mapsto> b))" using writing(6,7) by (auto simp: agree_def)
  ultimately have "agree (touched p) r (r2(tmp \<mapsto> b))" using agree_trans by blast
  then show ?case by (rule agree_mono) simp
next
  case (later p r es r1 r2 ps r3)
  have "agree (touched p) r r1" using Remove_agree [OF later(1)] by (rule agree_mono) (simp add: touched_def)
  moreover have "agree (touched p) r1 r2" using Apply_agree [OF later(2)] by (rule agree_mono) (simp add: touched_def)
  ultimately have "agree (touched p) r r2" by (rule agree_trans)
  then have "agree (\<Union> (touched ` set (p # ps))) r r2" by (rule agree_mono) simp
  moreover have "agree (\<Union> (touched ` set (p # ps))) r2 r3" using later.IH by (rule agree_mono) auto
  ultimately show ?case by (rule agree_trans)
qed simp

subsection \<open>The undo theorem\<close>

definition overlay :: "string set \<Rightarrow> tree \<Rightarrow> tree \<Rightarrow> tree" where
  "overlay T root saved = (\<lambda>q. if q \<in> T \<and> root q \<noteq> None then root q else saved q)"

lemma overlay_Un: "overlay T root (overlay S root saved) = overlay (S \<union> T) root saved"
  by (auto simp: overlay_def)

lemma backup_path_ok:
  "backup_path root p saved = Inr s \<longleftrightarrow> CheckDest p \<noteq> None \<and> s = overlay (set_option (CheckDest p)) root saved"
proof (cases "CheckDest p")
  case None
  then show ?thesis by (simp add: backup_path_def)
next
  case (Some rel)
  have "overlay {rel} root saved = (case root rel of None \<Rightarrow> saved | Some b \<Rightarrow> saved(rel \<mapsto> b))"
    by (auto simp: overlay_def fun_eq_iff split: option.splits)
  with Some show ?thesis by (auto simp: backup_path_def)
qed

lemma BackupPaths_ok:
  "BackupPaths ps root saved = Inr s \<Longrightarrow>
     (\<forall>p \<in> set ps. CheckDest p \<noteq> None) \<and> s = overlay (rels ps) root saved"
  unfolding BackupPaths_def
proof (induction ps arbitrary: saved)
  case Nil
  then show ?case by (simp add: overlay_def)
next
  case (Cons p ps)
  then obtain t where "backup_path root p saved = Inr t" "foldR (backup_path root) ps t = Inr s"
    by (auto split: sum.splits)
  with Cons.IH [of t] show ?case by (simp add: backup_path_ok overlay_Un)
qed

lemma backup_pkg_ok:
  assumes "backup_pkg root p saved = Inr s"
  shows "(\<forall>q \<in> set (DestPaths (pk_changes p) @ pk_stale p). CheckDest q \<noteq> None) \<and> s = overlay (touched p) root saved"
proof -
  from assms obtain t where "BackupPaths (DestPaths (pk_changes p)) root saved = Inr t" "BackupPaths (pk_stale p) root t = Inr s"
    by (auto simp: backup_pkg_def Backup_def rbind_eq_Inr)
  from this [THEN BackupPaths_ok] show ?thesis by (auto simp: overlay_Un touched_def)
qed

lemma backup_pkgs_ok:
  "foldR (backup_pkg root) pkgs saved = Inr s \<Longrightarrow>
     (\<forall>p \<in> set pkgs. \<forall>q \<in> set (DestPaths (pk_changes p) @ pk_stale p). CheckDest q \<noteq> None) \<and>
     s = overlay (\<Union> (touched ` set pkgs)) root saved"
proof (induction pkgs arbitrary: saved)
  case Nil
  then show ?case by (simp add: overlay_def)
next
  case (Cons p ps)
  then obtain t where t: "backup_pkg root p saved = Inr t" "foldR (backup_pkg root) ps t = Inr s"
    by (auto split: sum.splits)
  with Cons.IH [OF t(2)] backup_pkg_ok [OF t(1)] show ?case by (simp add: overlay_Un)
qed

text \<open>What rolling back a set of paths does to a tree.\<close>

definition undo :: "string set \<Rightarrow> tree \<Rightarrow> tree \<Rightarrow> tree" where
  "undo T saved r = (\<lambda>q. if is_temp q \<and> dir_of q \<in> dir_of ` T then None else if q \<in> T then saved q else r q)"

lemma undo_Un: "undo T saved (undo S saved r) = undo (S \<union> T) saved r"
  by (auto simp: undo_def fun_eq_iff)

lemma rollback_loop_ok:
  "\<forall>p \<in> set ps. CheckDest p \<noteq> None \<Longrightarrow>
     rollback_loop saved ps r = ([], dir_of ` rels ps, \<lambda>q. if q \<in> rels ps then saved q else r q)"
proof (induction ps arbitrary: r)
  case (Cons p ps)
  then obtain rel where rel: "CheckDest p = Some rel" by auto
  have "rollback_loop saved ps (r(rel := saved rel)) =
      ([], dir_of ` rels ps, \<lambda>q. if q \<in> rels ps then saved q else (r(rel := saved rel)) q)"
    using Cons by simp
  with rel show ?case by (auto simp: fun_eq_iff)
qed simp

lemma Rollback_ok:
  "\<forall>p \<in> set (Paths m). CheckDest p \<noteq> None \<Longrightarrow> Rollback m saved r = ([], undo (rels (Paths m)) saved r)"
  by (auto simp: Rollback_def rollback_loop_ok undo_def removeStaleTemps_def fun_eq_iff)

lemma Paths_rollbackEntries [simp]: "Paths (rollbackEntries m stale) = Paths m @ stale"
  by (simp add: Paths_def rollbackEntries_def comp_def)

lemma rollback_pkgs_ok:
  assumes "\<forall>p \<in> set pkgs. Paths (pk_manifest p) = DestPaths (pk_changes p)"
    and "\<forall>p \<in> set pkgs. \<forall>q \<in> set (DestPaths (pk_changes p) @ pk_stale p). CheckDest q \<noteq> None"
    and "pkgs \<noteq> []"
  shows "rollback_pkgs saved pkgs r = ([], undo (\<Union> (touched ` set pkgs)) saved r)"
  using assms
proof (induction pkgs arbitrary: r)
  case (Cons p ps)
  then have "rollback_pkg saved p r = ([], undo (touched p) saved r)"
    by (simp add: rollback_pkg_def Rollback_ok touched_def)
  with Cons show ?case by (cases "ps = []") (simp_all add: undo_Un)
qed simp

lemma undo_exact:
  assumes "agree T root r" and "\<And>q. is_temp q \<Longrightarrow> root q = None"
  shows "undo T (overlay T root Map.empty) r = root"
  using assms by (auto simp: undo_def overlay_def agree_def fun_eq_iff)

text \<open>The manifest a plan records names exactly the paths the job writes.\<close>

lemma Manifest_paths: "Manifest sha stage cs = Inr m \<Longrightarrow> Paths m = DestPaths cs"
proof (induction cs arbitrary: m)
  case (Cons c cs)
  show ?case
  proof (cases "Action c = ActionSkip")
    case True
    with Cons show ?thesis by (simp add: DestPaths_def)
  next
    case False
    with Cons.prems obtain b es where "Manifest sha stage cs = Inr es"
      "m = \<lparr>EPath = Dest c, ESHA256 = sha b, EParked = False\<rparr> # es"
      by (auto simp: rbind_eq_Inr split: option.splits)
    with Cons.IH False show ?thesis by (simp add: Paths_def DestPaths_def)
  qed
qed (simp add: Paths_def DestPaths_def)

definition removal_empty :: "install_pkg \<Rightarrow> bool" where
  "removal_empty p \<longleftrightarrow> pk_remove p \<longrightarrow> pk_changes p = [] \<and> pk_manifest p = []"

lemma plan_pkg_paths:
  assumes "plan_pkg sha stage root answer p claims = Inr (p', w, claims')" and "removal_empty p"
  shows "Paths (pk_manifest p') = DestPaths (pk_changes p')"
proof (cases "pk_remove p")
  case True
  with assms show ?thesis by (auto simp: plan_pkg_def removal_empty_def Paths_def DestPaths_def)
next
  case False
  with assms(1) obtain cs m where "Manifest sha stage cs = Inr m" "p' = p\<lparr>pk_changes := cs, pk_manifest := m\<rparr>"
    by (auto simp: plan_pkg_def rbind_eq_Inr split_beta)
  then show ?thesis by (simp add: Manifest_paths)
qed

lemma plan_pkgs_paths:
  "plan_pkgs sha stage root answer pkgs claims = Inr (ps, w, claims') \<Longrightarrow> \<forall>p \<in> set pkgs. removal_empty p \<Longrightarrow>
     \<forall>p \<in> set ps. Paths (pk_manifest p) = DestPaths (pk_changes p)"
proof (induction pkgs arbitrary: claims ps w)
  case (Cons p pkgs)
  then obtain p' w1 c1 ps' w2 where "plan_pkg sha (stage (pk_name p)) root answer p claims = Inr (p', w1, c1)"
    "plan_pkgs sha stage root answer pkgs c1 = Inr (ps', w2, claims')" "ps = p' # ps'"
    by (auto simp: rbind_eq_Inr)
  with Cons plan_pkg_paths show ?case by auto
qed simp

lemma planClosure_paths:
  assumes "planClosure sha stage root rows answer pkgs = Inr ps" and "\<forall>p \<in> set pkgs. removal_empty p"
  shows "\<forall>p \<in> set ps. Paths (pk_manifest p) = DestPaths (pk_changes p)"
proof -
  from assms(1) obtain ps0 claims' where "plan_pkgs sha stage root answer pkgs (open_claims pkgs (installedClaims rows)) = Inr (ps0, [], claims')"
    "ps = map (setStale claims') ps0"
    by (auto simp: planClosure_def split: sum.splits prod.splits if_splits)
  with plan_pkgs_paths [OF this(1) assms(2)] show ?thesis by (auto simp: setStale_def)
qed

text \<open>C5. A mod install is undone exactly. Once the closure is planned and its backup pass has succeeded,
  whatever moment the placing pass is stopped at -- between packages, part-way through removing an old
  version's files, after some of a package's files, with a half-written temporary file beside a
  destination -- the rollback, which reads only the manifests, the stale lists and the saved files,
  attempts every package without an error and leaves the server root byte for byte as it was.\<close>

theorem install_undone_exactly:
  assumes "planClosure sha stage root rows answer pkgs = Inr ps" and "\<forall>p \<in> set pkgs. removal_empty p"
    and "backup_pkgs ps root = Inr saved" and "stopped_at stage ps root r"
    and "\<And>q. is_temp q \<Longrightarrow> root q = None"
  shows "rollback_pkgs saved ps r = ([], root)"
proof (cases "ps = []")
  case True
  with assms(4) show ?thesis by (auto elim: stopped_at.cases)
next
  case False
  let ?T = "\<Union> (touched ` set ps)"
  from backup_pkgs_ok [OF assms(3) [unfolded backup_pkgs_def]]
  have ok: "\<forall>p \<in> set ps. \<forall>q \<in> set (DestPaths (pk_changes p) @ pk_stale p). CheckDest q \<noteq> None"
    and saved: "saved = overlay ?T root Map.empty" by blast+
  from rollback_pkgs_ok [OF planClosure_paths [OF assms(1,2)] ok False]
  have "rollback_pkgs saved ps r = ([], undo ?T saved r)" .
  also have "undo ?T saved r = root"
    unfolding saved by (rule undo_exact [OF stopped_agree [OF assms(4)] assms(5)])
  finally show ?thesis .
qed

text \<open>An update caught writing its second file: the first has replaced the old version's, a stale file is
  gone and a temporary file lies beside the second destination.\<close>

definition ex_root :: tree where
  "ex_root = [''BepInEx/plugins/A-B/b.dll'' \<mapsto> ''old'', ''BepInEx/plugins/A-B/gone.dll'' \<mapsto> ''x'', ''start.sh'' \<mapsto> ''s'']"

definition ex_rows :: "(string \<times> manifest_entry list) list" where
  "ex_rows = [(''A-B'', [\<lparr>EPath = ''BepInEx/plugins/A-B/b.dll'', ESHA256 = ''old'', EParked = False\<rparr>,
                        \<lparr>EPath = ''BepInEx/plugins/A-B/gone.dll'', ESHA256 = ''x'', EParked = False\<rparr>])]"

definition ex_stage :: "string \<Rightarrow> tree" where
  "ex_stage n = [''b.dll'' \<mapsto> ''new'', ''c.dll'' \<mapsto> ''c'']"

definition ex_pkg :: install_pkg where
  "ex_pkg = \<lparr>pk_name = ''A-B'', pk_remove = False, pk_update = True, pk_prev_manifest = snd (hd ex_rows),
     pk_entries = [StagedFile ''b.dll'', StagedFile ''c.dll'', StagedFile ''README.md''],
     pk_changes = [], pk_manifest = [], pk_stale = []\<rparr>"

definition ex_plan :: "install_pkg list" where
  "ex_plan = [ex_pkg\<lparr>pk_changes :=
       [mk_change \<lparr>PSource = ''b.dll'', PDest = ''BepInEx/plugins/A-B/b.dll''\<rparr> ActionOverwrite None False,
        mk_change \<lparr>PSource = ''c.dll'', PDest = ''BepInEx/plugins/A-B/c.dll''\<rparr> ActionCreate None False],
     pk_manifest := [\<lparr>EPath = ''BepInEx/plugins/A-B/b.dll'', ESHA256 = ''new'', EParked = False\<rparr>,
        \<lparr>EPath = ''BepInEx/plugins/A-B/c.dll'', ESHA256 = ''c'', EParked = False\<rparr>],
     pk_stale := [''BepInEx/plugins/A-B/gone.dll'']\<rparr>]"

lemma ex_checks:
  "CheckDest ''BepInEx/plugins/A-B/b.dll'' = Some ''BepInEx/plugins/A-B/b.dll''"
  "CheckDest ''BepInEx/plugins/A-B/c.dll'' = Some ''BepInEx/plugins/A-B/c.dll''"
  "CheckDest ''BepInEx/plugins/A-B/gone.dll'' = Some ''BepInEx/plugins/A-B/gone.dll''"
  by code_simp+

lemma ex_temp:
  "is_temp ''BepInEx/plugins/A-B/.valmin-00''"
  "dir_of ''BepInEx/plugins/A-B/.valmin-00'' = dir_of ''BepInEx/plugins/A-B/c.dll''"
  by code_simp+

lemma ex_planned: "planClosure (\<lambda>b. b) ex_stage ex_root ex_rows UnownedAsk [ex_pkg] = Inr ex_plan"
  by code_simp

lemma ex_no_temps: "is_temp q \<Longrightarrow> ex_root q = None"
proof -
  have "\<not> is_temp ''BepInEx/plugins/A-B/b.dll''" "\<not> is_temp ''BepInEx/plugins/A-B/gone.dll''" "\<not> is_temp ''start.sh''"
    by code_simp+
  then show "is_temp q \<Longrightarrow> ex_root q = None" by (auto simp: ex_root_def)
qed

theorem install_undone_exactly_witness:
  "rollback_pkgs [''BepInEx/plugins/A-B/b.dll'' \<mapsto> ''old'', ''BepInEx/plugins/A-B/gone.dll'' \<mapsto> ''x''] ex_plan
     (ex_root(''BepInEx/plugins/A-B/gone.dll'' := None, ''BepInEx/plugins/A-B/b.dll'' \<mapsto> ''new'',
              ''BepInEx/plugins/A-B/.valmin-00'' \<mapsto> ''ha'')) = ([], ex_root)"
proof (rule install_undone_exactly [OF ex_planned])
  show "\<forall>p \<in> set [ex_pkg]. removal_empty p" by (simp add: removal_empty_def ex_pkg_def)
  show "backup_pkgs ex_plan ex_root = Inr [''BepInEx/plugins/A-B/b.dll'' \<mapsto> ''old'', ''BepInEx/plugins/A-B/gone.dll'' \<mapsto> ''x'']"
    by (simp add: backup_pkgs_def backup_pkg_def Backup_def BackupPaths_def backup_path_def DestPaths_def ex_plan_def
        mk_change_def ex_checks ex_root_def)
  show "stopped_at ex_stage ex_plan ex_root (ex_root(''BepInEx/plugins/A-B/gone.dll'' := None,
      ''BepInEx/plugins/A-B/b.dll'' \<mapsto> ''new'', ''BepInEx/plugins/A-B/.valmin-00'' \<mapsto> ''ha''))"
    unfolding ex_plan_def
    by (rule stopped_at.writing [where some = "[mk_change \<lparr>PSource = ''b.dll'', PDest = ''BepInEx/plugins/A-B/b.dll''\<rparr> ActionOverwrite None False]"
          and c = "mk_change \<lparr>PSource = ''c.dll'', PDest = ''BepInEx/plugins/A-B/c.dll''\<rparr> ActionCreate None False"
          and rel = "''BepInEx/plugins/A-B/c.dll''" and e = None and es = "[]"
          and ?r1.0 = "ex_root(''BepInEx/plugins/A-B/gone.dll'' := None)"])
      (simp_all add: ex_checks ex_stage_def mk_change_def ex_temp)
  show "\<And>q. is_temp q \<Longrightarrow> ex_root q = None" by (rule ex_no_temps)
qed

end
