(* ===== verification/Parking.thy ===== *)
theory Parking
  imports Install_Job
begin

text \<open>
  Disabling a package without uninstalling it (\<open>internal/mods/installer/park.go\<close> and the toggle job of
  \<open>internal/mods/manager/toggle.go\<close>): the package's files move between the server root and its parking
  tree, and the manifest's parked flags record where each one is. \<open>crypto/sha256\<close> is the parameter \<open>sha\<close>.
  The theorems: a toggle interrupted anywhere is repaired by \<open>Settle\<close> from the unchanged manifest, and a
  disable followed by an enable is the identity.
\<close>

subsection \<open>Operations\<close>

record trees =
  Server :: tree
  ParkTree :: tree

datatype park_error = ParkUnsafe string | ParkConflict string | ParkedFileMissing string

definition Movable :: "manifest_entry list \<Rightarrow> string list" where
  "Movable m = map EPath (filter (\<lambda>e. \<not> EParked e \<and> \<not> UserConfig (EPath e)) m)"

definition ParkedPaths :: "manifest_entry list \<Rightarrow> string list" where
  "ParkedPaths m = map EPath (filter EParked m)"

definition Split :: "manifest_entry list \<Rightarrow> manifest_entry list \<times> manifest_entry list" where
  "Split m = (filter (\<lambda>e. \<not> EParked e) m, filter EParked m)"

definition MarkParked :: "manifest_entry list \<Rightarrow> string list \<Rightarrow> manifest_entry list" where
  "MarkParked m paths = map (\<lambda>e. e\<lparr>EParked := (EPath e \<in> set paths)\<rparr>) m"

text \<open>\<open>parkOne\<close>: the flag is false when the server root holds nothing at the path.\<close>

definition parkOne :: "string \<Rightarrow> trees \<Rightarrow> bool \<times> trees" where
  "parkOne rel t =
     (case Server t rel of
        None \<Rightarrow> (False, t)
      | Some b \<Rightarrow> (True, t\<lparr>Server := (Server t)(rel := None), ParkTree := (ParkTree t)(rel \<mapsto> b)\<rparr>))"

fun Park :: "string list \<Rightarrow> trees \<Rightarrow> string list \<times> park_error option \<times> trees" where
  "Park [] t = ([], None, t)"
| "Park (p # ps) t =
     (case CheckDest p of
        None \<Rightarrow> ([], Some (ParkUnsafe p), t)
      | Some rel \<Rightarrow>
          (case parkOne rel t of (ok, t1) \<Rightarrow>
             (case Park ps t1 of (moved, e, t2) \<Rightarrow> (if ok then p # moved else moved, e, t2))))"

definition unparkOne :: "(string \<Rightarrow> string) \<Rightarrow> string \<Rightarrow> string \<Rightarrow> trees \<Rightarrow> park_error option \<times> trees" where
  "unparkOne sha p rel t =
     (case ParkTree t rel of
        None \<Rightarrow> (if Server t rel \<noteq> None then (None, t) else (Some (ParkedFileMissing p), t))
      | Some parked \<Rightarrow>
          (case Server t rel of
             Some b \<Rightarrow>
               if sha b = sha parked then (None, t\<lparr>ParkTree := (ParkTree t)(rel := None)\<rparr>)
               else (Some (ParkConflict p), t)
           | None \<Rightarrow> (None, t\<lparr>Server := (Server t)(rel \<mapsto> parked), ParkTree := (ParkTree t)(rel := None)\<rparr>)))"

fun Unpark :: "(string \<Rightarrow> string) \<Rightarrow> string list \<Rightarrow> trees \<Rightarrow> park_error option \<times> trees" where
  "Unpark sha [] t = (None, t)"
| "Unpark sha (p # ps) t =
     (case CheckDest p of
        None \<Rightarrow> (Some (ParkUnsafe p), t)
      | Some rel \<Rightarrow>
          (case unparkOne sha p rel t of
             (Some e, t1) \<Rightarrow> (Some e, t1)
           | (None, t1) \<Rightarrow> Unpark sha ps t1))"

definition settleOne :: "(string \<Rightarrow> string) \<Rightarrow> manifest_entry \<Rightarrow> trees \<Rightarrow> park_error option \<times> trees" where
  "settleOne sha e t =
     (case CheckDest (EPath e) of
        None \<Rightarrow> (Some (ParkUnsafe (EPath e)), t)
      | Some rel \<Rightarrow>
          (if \<not> EParked e
           then (if ParkTree t rel = None then (None, t) else unparkOne sha (EPath e) rel t)
           else
             (case Server t rel of
                None \<Rightarrow> (if ParkTree t rel = None then Some (ParkedFileMissing (EPath e)) else None, t)
              | Some b \<Rightarrow>
                  (case ParkTree t rel of
                     None \<Rightarrow> (None, snd (parkOne rel t))
                   | Some parked \<Rightarrow>
                       if sha b = sha parked then (None, t\<lparr>Server := (Server t)(rel := None)\<rparr>)
                       else (Some (ParkConflict (EPath e)), t)))))"

text \<open>\<open>Settle\<close> attempts every path; the list is the joined errors.\<close>

fun Settle :: "(string \<Rightarrow> string) \<Rightarrow> manifest_entry list \<Rightarrow> trees \<Rightarrow> park_error list \<times> trees" where
  "Settle sha [] t = ([], t)"
| "Settle sha (e # es) t =
     (if UserConfig (EPath e) then Settle sha es t
      else case settleOne sha e t of (err, t1) \<Rightarrow>
        (case Settle sha es t1 of (errs, t2) \<Rightarrow> (case err of Some x \<Rightarrow> x # errs | None \<Rightarrow> errs, t2)))"

text \<open>The move a toggle is, and the job around it: the row's enabled flag and manifest in, the manifest
  its Finish transaction records out.\<close>

definition moveToggledFiles ::
  "(string \<Rightarrow> string) \<Rightarrow> bool \<Rightarrow> manifest_entry list \<Rightarrow> trees \<Rightarrow> (park_error + manifest_entry list) \<times> trees" where
  "moveToggledFiles sha enable m t =
     (if enable
      then (case Unpark sha (ParkedPaths m) t of
              (Some e, t1) \<Rightarrow> (Inl e, t1)
            | (None, t1) \<Rightarrow> (Inr (MarkParked m []), t1))
      else (case Park (Movable m) t of
              (moved, Some e, t1) \<Rightarrow> (Inl e, t1)
            | (moved, None, t1) \<Rightarrow> (Inr (MarkParked m moved), t1)))"

datatype toggle_outcome =
    NothingToDo
  | Toggled "manifest_entry list"
  | ToggleUndone park_error
  | ToggleStuck park_error "park_error list"

definition runToggle ::
  "(string \<Rightarrow> string) \<Rightarrow> bool \<Rightarrow> bool \<Rightarrow> manifest_entry list \<Rightarrow> trees \<Rightarrow> toggle_outcome \<times> trees" where
  "runToggle sha enabled enable m t =
     (if enabled = enable then (NothingToDo, t)
      else case moveToggledFiles sha enable m t of
        (Inr next_m, t1) \<Rightarrow> (Toggled next_m, t1)
      | (Inl cause, t1) \<Rightarrow>
          (case Settle sha m t1 of
             ([], t2) \<Rightarrow> (ToggleUndone cause, t2)
           | (e # es, t2) \<Rightarrow> (ToggleStuck cause (e # es), t2)))"

subsection \<open>Interruptions\<close>

text \<open>The trees a process killed during a toggle leaves: some of the paths moved, and for the next one a
  copy made and the original not yet removed, or only a temporary file of that copy.\<close>

inductive toggle_stopped :: "(string \<Rightarrow> string) \<Rightarrow> manifest_entry list \<Rightarrow> trees \<Rightarrow> bool \<Rightarrow> trees \<Rightarrow> bool" for sha m t where
  parking: "prefix some (Movable m) \<Longrightarrow> Park some t = (moved, e, t1) \<Longrightarrow> toggle_stopped sha m t False t1"
| park_copied: "prefix (some @ [p]) (Movable m) \<Longrightarrow> Park some t = (moved, None, t1) \<Longrightarrow> CheckDest p = Some rel \<Longrightarrow>
    Server t1 rel = Some b \<Longrightarrow> toggle_stopped sha m t False (t1\<lparr>ParkTree := (ParkTree t1)(rel \<mapsto> b)\<rparr>)"
| park_temp: "prefix some (Movable m) \<Longrightarrow> Park some t = (moved, None, t1) \<Longrightarrow> is_temp tmp \<Longrightarrow>
    toggle_stopped sha m t False (t1\<lparr>ParkTree := (ParkTree t1)(tmp \<mapsto> b)\<rparr>)"
| unparking: "prefix some (ParkedPaths m) \<Longrightarrow> Unpark sha some t = (e, t1) \<Longrightarrow> toggle_stopped sha m t True t1"
| unpark_copied: "prefix (some @ [p]) (ParkedPaths m) \<Longrightarrow> Unpark sha some t = (None, t1) \<Longrightarrow> CheckDest p = Some rel \<Longrightarrow>
    Server t1 rel = None \<Longrightarrow> ParkTree t1 rel = Some b \<Longrightarrow>
    toggle_stopped sha m t True (t1\<lparr>Server := (Server t1)(rel \<mapsto> b)\<rparr>)"
| unpark_temp: "prefix some (ParkedPaths m) \<Longrightarrow> Unpark sha some t = (None, t1) \<Longrightarrow> is_temp tmp \<Longrightarrow>
    toggle_stopped sha m t True (t1\<lparr>Server := (Server t1)(tmp \<mapsto> b)\<rparr>)"

text \<open>What the manifest says of the trees between jobs: its paths are distinct safe destinations, none of
  them a temporary name; a parked file is in the parking tree only and outside the configuration
  directory, any other is not in the parking tree.\<close>

definition entry_settled :: "trees \<Rightarrow> manifest_entry \<Rightarrow> bool" where
  "entry_settled t e =
     (case CheckDest (EPath e) of
        None \<Rightarrow> False
      | Some rel \<Rightarrow>
          \<not> is_temp rel \<and>
          (if EParked e then \<not> UserConfig (EPath e) \<and> Server t rel = None \<and> ParkTree t rel \<noteq> None else ParkTree t rel = None))"

definition settled :: "manifest_entry list \<Rightarrow> trees \<Rightarrow> bool" where
  "settled m t \<longleftrightarrow> distinct (map (CheckDest \<circ> EPath) m) \<and> (\<forall>e \<in> set m. entry_settled t e)"

subsection \<open>Lemmas\<close>

definition at :: "trees \<Rightarrow> string \<Rightarrow> string option \<times> string option" where
  "at t q = (Server t q, ParkTree t q)"

definition single :: "string option \<times> string option \<Rightarrow> bool" where
  "single x \<longleftrightarrow> fst x = None \<or> snd x = None"

text \<open>A path part-way through a move in either direction, against where it was.\<close>

definition moved_at :: "trees \<Rightarrow> trees \<Rightarrow> string \<Rightarrow> bool" where
  "moved_at t t' q \<longleftrightarrow>
     single (at t q) \<and>
     (at t' q = at t q \<or> (\<exists>b. at t q \<in> {(Some b, None), (None, Some b)} \<and>
        at t' q \<in> {(Some b, None), (None, Some b), (Some b, Some b)}))"

definition drift :: "string set \<Rightarrow> trees \<Rightarrow> trees \<Rightarrow> bool" where
  "drift S t t' \<longleftrightarrow> (\<forall>q \<in> S. moved_at t t' q) \<and> (\<forall>q. q \<notin> S \<longrightarrow> \<not> is_temp q \<longrightarrow> at t' q = at t q)"

lemma drift_refl: "(\<And>q. q \<in> S \<Longrightarrow> single (at t q)) \<Longrightarrow> drift S t t"
  by (simp add: drift_def moved_at_def)

lemma drift_step:
  assumes "drift S t t1" and "\<And>q. q \<noteq> rel \<Longrightarrow> at t2 q = at t1 q" and "rel \<in> S" and "moved_at t t1 rel \<Longrightarrow> moved_at t t2 rel"
  shows "drift S t t2"
  using assms unfolding drift_def moved_at_def by metis

lemma drift_temp:
  assumes "drift S t t1" and "\<And>q. q \<noteq> tmp \<Longrightarrow> at t2 q = at t1 q" and "is_temp tmp" and "\<And>q. q \<in> S \<Longrightarrow> \<not> is_temp q"
  shows "drift S t t2"
  using assms unfolding drift_def moved_at_def by metis

lemma parkOne_drift:
  assumes "drift S t t1" and "rel \<in> S"
  shows "drift S t (snd (parkOne rel t1))"
  using assms(1)
  by (rule drift_step [where rel = rel])
    (auto simp: parkOne_def at_def moved_at_def single_def assms(2) split: option.splits)

lemma unparkOne_drift:
  assumes "drift S t t1" and "rel \<in> S"
  shows "drift S t (snd (unparkOne sha p rel t1))"
  using assms(1)
  by (rule drift_step [where rel = rel])
    (auto simp: unparkOne_def at_def moved_at_def single_def assms(2) split: option.splits)

lemma Park_drift: "drift S t t1 \<Longrightarrow> rels ps \<subseteq> S \<Longrightarrow> Park ps t1 = (moved, e, t2) \<Longrightarrow> drift S t t2"
proof (induction ps arbitrary: t1 moved)
  case (Cons p ps)
  show ?case
  proof (cases "CheckDest p")
    case None
    with Cons.prems show ?thesis by simp
  next
    case (Some rel)
    obtain ok u where u: "parkOne rel t1 = (ok, u)" by fastforce
    with Some Cons.prems(3) obtain moved' where v: "Park ps u = (moved', e, t2)" by (auto split: prod.splits)
    have "drift S t u" using parkOne_drift [OF Cons.prems(1), of rel] Cons.prems(2) Some u by simp
    from Cons.IH [OF this _ v] Cons.prems(2) show ?thesis by simp
  qed
qed simp

lemma Unpark_drift: "drift S t t1 \<Longrightarrow> rels ps \<subseteq> S \<Longrightarrow> Unpark sha ps t1 = (e, t2) \<Longrightarrow> drift S t t2"
proof (induction ps arbitrary: t1)
  case (Cons p ps)
  show ?case
  proof (cases "CheckDest p")
    case None
    with Cons.prems show ?thesis by simp
  next
    case (Some rel)
    obtain e' u where u: "unparkOne sha p rel t1 = (e', u)" by fastforce
    have "drift S t u" using unparkOne_drift [OF Cons.prems(1), of rel sha p] Cons.prems(2) Some u by simp
    from Cons.IH [OF this] Cons.prems Some u this show ?thesis by (auto split: option.splits)
  qed
qed simp

definition mrels :: "manifest_entry list \<Rightarrow> string set" where
  "mrels m = rels (map EPath (filter (\<lambda>e. \<not> UserConfig (EPath e)) m))"

lemma mrels_iff: "q \<in> mrels m \<longleftrightarrow> (\<exists>e \<in> set m. \<not> UserConfig (EPath e) \<and> CheckDest (EPath e) = Some q)"
  by (auto simp: mrels_def rels_def)

lemma mrels_simps [simp]:
  "mrels [] = {}"
  "mrels (e # es) = (if UserConfig (EPath e) then mrels es else set_option (CheckDest (EPath e)) \<union> mrels es)"
  by (simp_all add: mrels_def)

lemma settled_entry: "settled m t \<Longrightarrow> e \<in> set m \<Longrightarrow> entry_settled t e"
  by (simp add: settled_def)

lemma settled_single: "settled m t \<Longrightarrow> q \<in> mrels m \<Longrightarrow> single (at t q)"
  by (auto simp: mrels_iff entry_settled_def single_def at_def dest!: settled_entry split: if_splits)

lemma settled_not_temp: "settled m t \<Longrightarrow> q \<in> mrels m \<Longrightarrow> \<not> is_temp q"
  by (auto simp: mrels_iff entry_settled_def dest!: settled_entry)

lemma Movable_mrels: "rels (Movable m) \<subseteq> mrels m"
  by (auto simp: mrels_iff Movable_def rels_def)

lemma ParkedPaths_mrels: "settled m t \<Longrightarrow> rels (ParkedPaths m) \<subseteq> mrels m"
  unfolding ParkedPaths_def rels_def by (force simp: mrels_iff entry_settled_def dest: settled_entry)

lemma prefix_rels: "prefix some ps \<Longrightarrow> rels some \<subseteq> rels ps"
  by (auto simp: prefix_def)

lemma toggle_stopped_drift:
  assumes "toggle_stopped sha m t enable t'" and "settled m t"
  shows "drift (mrels m) t t'"
proof -
  have start: "drift (mrels m) t t" by (rule drift_refl) (rule settled_single [OF assms(2)])
  have park: "drift (mrels m) t t1" if "prefix some (Movable m)" "Park some t = (moved, e, t1)" for some moved e t1
    using Park_drift [OF start _ that(2)] prefix_rels [OF that(1)] Movable_mrels by blast
  have unpark: "drift (mrels m) t t1" if "prefix some (ParkedPaths m)" "Unpark sha some t = (e, t1)" for some e t1
    using Unpark_drift [OF start _ that(2)] prefix_rels [OF that(1)] ParkedPaths_mrels [OF assms(2)] by blast
  note not_temp = settled_not_temp [OF assms(2)]
  from assms(1) show ?thesis
  proof cases
    case (park_copied some p moved t1 rel b)
    then have "rel \<in> mrels m" using prefix_rels Movable_mrels by (fastforce simp: prefix_def)
    moreover have "drift (mrels m) t t1" using park park_copied by (meson append_prefixD)
    ultimately show ?thesis unfolding park_copied(2)
      by (rule_tac drift_step [where rel = rel]) (use park_copied in \<open>auto simp: at_def moved_at_def single_def\<close>)
  next
    case (park_temp some moved t1 tmp b)
    with park have "drift (mrels m) t t1" by blast
    then show ?thesis unfolding park_temp(2)
      by (rule drift_temp) (use park_temp not_temp in \<open>auto simp: at_def\<close>)
  next
    case (unpark_copied some p t1 rel b)
    then have "rel \<in> mrels m" using prefix_rels ParkedPaths_mrels [OF assms(2)] by (fastforce simp: prefix_def)
    moreover have "drift (mrels m) t t1" using unpark unpark_copied by (meson append_prefixD)
    ultimately show ?thesis unfolding unpark_copied(2)
      by (rule_tac drift_step [where rel = rel]) (use unpark_copied in \<open>auto simp: at_def moved_at_def single_def\<close>)
  next
    case (unpark_temp some t1 tmp b)
    with unpark have "drift (mrels m) t t1" by blast
    then show ?thesis unfolding unpark_temp(2)
      by (rule drift_temp) (use unpark_temp not_temp in \<open>auto simp: at_def\<close>)
  qed (use park unpark in blast)+
qed

lemma settleOne_repairs:
  assumes "entry_settled t e" "CheckDest (EPath e) = Some rel" "moved_at t t' rel"
  shows "\<exists>t''. settleOne sha e t' = (None, t'') \<and> at t'' rel = at t rel \<and> (\<forall>q. q \<noteq> rel \<longrightarrow> at t'' q = at t' q)"
  using assms
  by (auto simp: entry_settled_def moved_at_def at_def single_def settleOne_def unparkOne_def parkOne_def
      split: if_splits option.splits)

lemma Settle_repairs:
  "distinct (map (CheckDest \<circ> EPath) es) \<Longrightarrow> \<forall>e \<in> set es. entry_settled t e \<Longrightarrow> \<forall>q \<in> mrels es. moved_at t t' q \<Longrightarrow>
     \<exists>t''. Settle sha es t' = ([], t'') \<and> (\<forall>q \<in> mrels es. at t'' q = at t q) \<and> (\<forall>q. q \<notin> mrels es \<longrightarrow> at t'' q = at t' q)"
proof (induction es arbitrary: t')
  case (Cons e es)
  show ?case
  proof (cases "UserConfig (EPath e)")
    case True
    with Cons show ?thesis by simp
  next
    case False
    from Cons.prems(2) obtain rel where rel: "CheckDest (EPath e) = Some rel"
      by (auto simp: entry_settled_def split: option.splits)
    with Cons.prems False have "moved_at t t' rel" "entry_settled t e" by simp_all
    from settleOne_repairs [OF this(2) rel this(1)] obtain u
      where u: "settleOne sha e t' = (None, u)" "at u rel = at t rel" "\<And>q. q \<noteq> rel \<Longrightarrow> at u q = at t' q" by blast
    have fresh: "rel \<notin> mrels es" using Cons.prems(1) rel by (force simp: mrels_iff)
    have "\<forall>q \<in> mrels es. moved_at t u q" using Cons.prems(3) u(3) fresh False
      by (metis UnCI moved_at_def mrels_simps(2))
    with Cons obtain v where v: "Settle sha es u = ([], v)" "\<forall>q \<in> mrels es. at v q = at t q"
      "\<forall>q. q \<notin> mrels es \<longrightarrow> at v q = at u q" by force
    with u False rel fresh show ?thesis by auto
  qed
qed simp

text \<open>C27. An interrupted toggle is repaired. Starting from trees the package's manifest describes, a
  disable or an enable killed at any point -- between two files, between the copy of a file and the
  removal of its original, or inside a copy -- leaves trees from which \<open>Settle\<close>, with the manifest the job
  never changed, reports no error and puts every file of the package, and of every other, back where it
  was with the same bytes; only half-written temporary files may remain.\<close>

theorem toggle_settled_back:
  assumes "settled m t" and "toggle_stopped sha m t enable t'"
  shows "\<exists>t''. Settle sha m t' = ([], t'') \<and>
     (\<forall>q. is_temp q \<or> Server t'' q = Server t q \<and> ParkTree t'' q = ParkTree t q)"
proof -
  have d: "drift (mrels m) t t'" by (rule toggle_stopped_drift [OF assms(2,1)])
  then obtain t'' where "Settle sha m t' = ([], t'')" "\<forall>q \<in> mrels m. at t'' q = at t q"
    "\<forall>q. q \<notin> mrels m \<longrightarrow> at t'' q = at t' q"
    using Settle_repairs [of m t t' sha] assms(1) by (auto simp: settled_def drift_def)
  moreover from d have "\<forall>q. q \<notin> mrels m \<longrightarrow> \<not> is_temp q \<longrightarrow> at t' q = at t q" by (simp add: drift_def)
  ultimately show ?thesis unfolding at_def by (metis prod.inject)
qed

subsection \<open>What a whole toggle does\<close>

definition occupied :: "tree \<Rightarrow> string \<Rightarrow> bool" where
  "occupied r p \<longleftrightarrow> (\<exists>rel. CheckDest p = Some rel \<and> r rel \<noteq> None)"

lemma Park_exact:
  "\<forall>p \<in> set ps. CheckDest p \<noteq> None \<Longrightarrow> distinct (map CheckDest ps) \<Longrightarrow>
     Park ps t = (filter (occupied (Server t)) ps, None,
       t\<lparr>Server := \<lambda>q. if q \<in> rels ps then None else Server t q,
         ParkTree := \<lambda>q. if q \<in> rels ps \<and> Server t q \<noteq> None then Server t q else ParkTree t q\<rparr>)"
proof (induction ps arbitrary: t)
  case (Cons p ps)
  then obtain rel where rel: "CheckDest p = Some rel" by auto
  with Cons.prems(2) have fresh: "rel \<notin> rels ps" by (force simp: rels_def)
  then have occ: "filter (occupied ((Server t)(rel := None))) ps = filter (occupied (Server t)) ps"
    by (intro filter_cong) (auto simp: occupied_def rels_def)
  have occ_p: "occupied (Server t) p \<longleftrightarrow> Server t rel \<noteq> None" using rel by (simp add: occupied_def)
  show ?case
  proof (cases "Server t rel")
    case None
    with Cons rel occ_p show ?thesis by (auto simp: parkOne_def fun_eq_iff intro!: trees.equality)
  next
    case (Some b)
    let ?u = "t\<lparr>Server := (Server t)(rel := None), ParkTree := (ParkTree t)(rel \<mapsto> b)\<rparr>"
    from Cons have "Park ps ?u = (filter (occupied (Server ?u)) ps, None,
       ?u\<lparr>Server := \<lambda>q. if q \<in> rels ps then None else Server ?u q,
         ParkTree := \<lambda>q. if q \<in> rels ps \<and> Server ?u q \<noteq> None then Server ?u q else ParkTree ?u q\<rparr>)" by simp
    with Some rel fresh occ occ_p show ?thesis
      by (auto simp: parkOne_def fun_eq_iff intro!: trees.equality)
  qed
qed simp

lemma Unpark_exact:
  "\<forall>p \<in> set ps. \<exists>rel. CheckDest p = Some rel \<and> Server t rel = None \<and> ParkTree t rel \<noteq> None \<Longrightarrow> distinct (map CheckDest ps) \<Longrightarrow>
     Unpark sha ps t = (None, t\<lparr>Server := \<lambda>q. if q \<in> rels ps then ParkTree t q else Server t q,
       ParkTree := \<lambda>q. if q \<in> rels ps then None else ParkTree t q\<rparr>)"
proof (induction ps arbitrary: t)
  case (Cons p ps)
  then obtain rel b where rel: "CheckDest p = Some rel" "Server t rel = None" "ParkTree t rel = Some b" by auto
  let ?u = "t\<lparr>Server := (Server t)(rel \<mapsto> b), ParkTree := (ParkTree t)(rel := None)\<rparr>"
  from Cons.prems(2) rel have fresh: "rel \<notin> rels ps" by (force simp: rels_def)
  with Cons.prems(1) have "\<forall>p \<in> set ps. \<exists>rel. CheckDest p = Some rel \<and> Server ?u rel = None \<and> ParkTree ?u rel \<noteq> None"
    by (fastforce simp: rels_def)
  with Cons.IH [of ?u] Cons.prems(2)
  have "Unpark sha ps ?u = (None, ?u\<lparr>Server := \<lambda>q. if q \<in> rels ps then ParkTree ?u q else Server ?u q,
       ParkTree := \<lambda>q. if q \<in> rels ps then None else ParkTree ?u q\<rparr>)" by simp
  with rel fresh show ?case by (auto simp: unparkOne_def fun_eq_iff intro!: trees.equality)
qed simp

lemma distinct_sub: "distinct (map (f \<circ> g) m) \<Longrightarrow> distinct (map f (map g (filter P m)))"
  by (simp add: distinct_map inj_on_def)

lemma enabled_paths:
  assumes "settled m t" and "\<forall>e \<in> set m. \<not> EParked e"
  shows "\<forall>p \<in> set (Movable m). CheckDest p \<noteq> None" and "distinct (map CheckDest (Movable m))" and "rels (Movable m) = mrels m"
proof -
  show "\<forall>p \<in> set (Movable m). CheckDest p \<noteq> None"
    using assms(1) by (auto simp: settled_def Movable_def entry_settled_def split: option.splits)
  show "distinct (map CheckDest (Movable m))"
    unfolding Movable_def using assms(1) by (intro distinct_sub) (simp add: settled_def)
  show "rels (Movable m) = mrels m" using assms(2) by (force simp: Movable_def mrels_iff rels_def)
qed

lemma MarkParked_paths:
  assumes "distinct (map (CheckDest \<circ> EPath) m)" and en: "\<forall>e \<in> set m. \<not> EParked e"
  shows "ParkedPaths (MarkParked m (filter P (Movable m))) = filter P (Movable m)"
proof -
  have "inj_on EPath (set m)" using assms by (auto simp: distinct_map inj_on_def)
  then have "EPath e \<in> set (filter P (Movable m)) \<longleftrightarrow> \<not> UserConfig (EPath e) \<and> P (EPath e)" if "e \<in> set m" for e
    using that en by (auto simp: Movable_def inj_on_def)
  then have "filter (\<lambda>e. EPath e \<in> set (filter P (Movable m))) m = filter (\<lambda>e. \<not> UserConfig (EPath e) \<and> P (EPath e)) m"
    by (intro filter_cong) auto
  moreover have "Movable m = map EPath (filter (\<lambda>e. \<not> UserConfig (EPath e)) m)"
    unfolding Movable_def using en by (metis (mono_tags, lifting) filter_cong)
  ultimately show ?thesis
    by (simp add: ParkedPaths_def MarkParked_def filter_map comp_def conj_commute)
qed

lemma MarkParked_none: "\<forall>e \<in> set m. \<not> EParked e \<Longrightarrow> MarkParked (MarkParked m moved) [] = m"
  by (simp add: MarkParked_def comp_def map_idI)

definition parked_trees :: "manifest_entry list \<Rightarrow> trees \<Rightarrow> trees" where
  "parked_trees m t = t\<lparr>Server := \<lambda>q. if q \<in> mrels m then None else Server t q,
     ParkTree := \<lambda>q. if q \<in> mrels m \<and> Server t q \<noteq> None then Server t q else ParkTree t q\<rparr>"

lemma parked_settled:
  assumes "settled m t" and "\<forall>e \<in> set m. \<not> EParked e"
  shows "settled (MarkParked m (filter (occupied (Server t)) (Movable m))) (parked_trees m t)"
  unfolding settled_def
proof (intro conjI ballI)
  let ?moved = "filter (occupied (Server t)) (Movable m)"
  have dis: "distinct (map (CheckDest \<circ> EPath) m)" using assms(1) by (simp add: settled_def)
  then show "distinct (map (CheckDest \<circ> EPath) (MarkParked m ?moved))" by (simp add: MarkParked_def comp_def)
  fix e' assume "e' \<in> set (MarkParked m ?moved)"
  then obtain e where e: "e \<in> set m" "e' = e\<lparr>EParked := (EPath e \<in> set ?moved)\<rparr>" by (auto simp: MarkParked_def)
  with assms have es: "entry_settled t e" "\<not> EParked e" by (auto simp: settled_def)
  then obtain rel where rel: "CheckDest (EPath e) = Some rel" "\<not> is_temp rel" "ParkTree t rel = None"
    by (auto simp: entry_settled_def split: option.splits)
  have "d = e" if "d \<in> set m" "CheckDest (EPath d) = Some rel" for d
  proof -
    have "inj_on (CheckDest \<circ> EPath) (set m)" using dis by (simp add: distinct_map)
    from inj_onD [OF this _ that(1) e(1)] that(2) rel(1) show ?thesis by simp
  qed
  with e(1) rel(1) have "rel \<in> mrels m \<longleftrightarrow> \<not> UserConfig (EPath e)" unfolding mrels_iff by blast
  moreover have "EPath e \<in> set ?moved \<longleftrightarrow> \<not> UserConfig (EPath e) \<and> Server t rel \<noteq> None"
    using e(1) es(2) rel by (auto simp: Movable_def occupied_def)
  ultimately show "entry_settled (parked_trees m t) e'" using e(2) rel by (simp add: entry_settled_def parked_trees_def)
qed

text \<open>Disabling a package and enabling it again is the identity. Disabling an enabled package whose
  manifest describes the trees takes every file outside the configuration directory out of the server
  root, touches no other path there, and records flags under which the manifest again describes the
  trees; enabling it then restores both trees exactly and records the original manifest.\<close>

lemma toggle_roundtrip:
  assumes "settled m t" and "\<forall>e \<in> set m. \<not> EParked e"
  shows "\<exists>m' t'. runToggle sha True False m t = (Toggled m', t') \<and>
     (\<forall>e \<in> set m. UserConfig (EPath e) \<or> \<not> occupied (Server t') (EPath e)) \<and>
     (\<forall>q. q \<in> rels (Movable m) \<or> Server t' q = Server t q) \<and>
     settled m' t' \<and> runToggle sha False True m' t' = (Toggled m, t)"
proof -
  note en = enabled_paths [OF assms]
  let ?moved = "filter (occupied (Server t)) (Movable m)"
  let ?m' = "MarkParked m ?moved"
  let ?t' = "parked_trees m t"
  have park: "Park (Movable m) t = (?moved, None, ?t')"
    using Park_exact [OF en(1,2), of t] en(3) by (simp add: parked_trees_def)
  have dis: "distinct (map (CheckDest \<circ> EPath) m)" using assms(1) by (simp add: settled_def)
  have pp: "ParkedPaths ?m' = ?moved" by (rule MarkParked_paths [OF dis assms(2)])
  have empty: "ParkTree t q = None" if "q \<in> mrels m" for q
    using that assms by (auto simp: mrels_iff settled_def entry_settled_def)
  have moved: "\<forall>p \<in> set ?moved. \<exists>rel. CheckDest p = Some rel \<and> Server ?t' rel = None \<and> ParkTree ?t' rel \<noteq> None"
  proof
    fix p assume "p \<in> set ?moved"
    then obtain rel where "p \<in> set (Movable m)" "CheckDest p = Some rel" "Server t rel \<noteq> None" by (auto simp: occupied_def)
    moreover from this en(3) have "rel \<in> mrels m" by (auto simp: rels_def)
    ultimately show "\<exists>rel. CheckDest p = Some rel \<and> Server ?t' rel = None \<and> ParkTree ?t' rel \<noteq> None" by (simp add: parked_trees_def)
  qed
  have "distinct (map CheckDest ?moved)" using en(2) by (rule distinct_map_filter)
  note exact = Unpark_exact [OF moved this, of sha]
  have "q \<in> rels ?moved \<longleftrightarrow> q \<in> mrels m \<and> Server t q \<noteq> None" for q
    unfolding en(3) [symmetric] by (auto simp: occupied_def rels_def)
  then have unpark: "Unpark sha ?moved ?t' = (None, t)"
    unfolding exact using empty by (auto simp: parked_trees_def fun_eq_iff intro!: trees.equality)
  have "settled ?m' ?t'" by (rule parked_settled [OF assms])
  moreover have "runToggle sha True False m t = (Toggled ?m', ?t')"
    by (simp add: runToggle_def moveToggledFiles_def park)
  moreover have "runToggle sha False True ?m' ?t' = (Toggled m, t)"
    by (simp add: runToggle_def moveToggledFiles_def pp unpark MarkParked_none [OF assms(2)])
  moreover have "\<forall>e \<in> set m. UserConfig (EPath e) \<or> \<not> occupied (Server ?t') (EPath e)"
    by (auto simp: occupied_def mrels_iff parked_trees_def)
  moreover have "\<forall>q. q \<in> rels (Movable m) \<or> Server ?t' q = Server t q" using en(3) by (auto simp: parked_trees_def)
  ultimately show ?thesis by blast
qed

text \<open>A package with a plugin and a configuration file, enabled; and its plugin copied to the parking tree
  but not yet removed from the server root.\<close>

definition ex_manifest :: "manifest_entry list" where
  "ex_manifest = [\<lparr>EPath = ''BepInEx/plugins/A-B/b.dll'', ESHA256 = ''old'', EParked = False\<rparr>,
                  \<lparr>EPath = ''BepInEx/config/b.cfg'', ESHA256 = ''cfg'', EParked = False\<rparr>]"

definition ex_trees :: trees where
  "ex_trees = \<lparr>Server = [''BepInEx/plugins/A-B/b.dll'' \<mapsto> ''old'', ''BepInEx/config/b.cfg'' \<mapsto> ''mine''], ParkTree = Map.empty\<rparr>"

lemma ex_manifest_checks:
  "CheckDest ''BepInEx/config/b.cfg'' = Some ''BepInEx/config/b.cfg''"
  "\<not> is_temp ''BepInEx/plugins/A-B/b.dll''" "\<not> is_temp ''BepInEx/config/b.cfg''"
  "UserConfig ''BepInEx/config/b.cfg''" "\<not> UserConfig ''BepInEx/plugins/A-B/b.dll''"
  by code_simp+

lemma ex_settled: "settled ex_manifest ex_trees"
  by (simp add: settled_def entry_settled_def ex_manifest_def ex_trees_def ex_checks ex_manifest_checks)

lemma ex_Movable: "Movable ex_manifest = [''BepInEx/plugins/A-B/b.dll'']"
  by (simp add: Movable_def ex_manifest_def ex_manifest_checks)

theorem toggle_settled_back_witness:
  "\<exists>t''. Settle (\<lambda>b. b) ex_manifest
       (ex_trees\<lparr>ParkTree := [''BepInEx/plugins/A-B/b.dll'' \<mapsto> ''old'']\<rparr>) = ([], t'') \<and>
     (\<forall>q. is_temp q \<or> Server t'' q = Server ex_trees q \<and> ParkTree t'' q = ParkTree ex_trees q)"
proof (rule toggle_settled_back [OF ex_settled])
  have "toggle_stopped (\<lambda>b. b) ex_manifest ex_trees False
      (ex_trees\<lparr>ParkTree := (ParkTree ex_trees)(''BepInEx/plugins/A-B/b.dll'' \<mapsto> ''old'')\<rparr>)"
    by (rule toggle_stopped.park_copied [where some = "[]" and p = "''BepInEx/plugins/A-B/b.dll''" and moved = "[]"])
      (simp_all add: ex_Movable ex_checks ex_trees_def)
  then show "toggle_stopped (\<lambda>b. b) ex_manifest ex_trees False (ex_trees\<lparr>ParkTree := [''BepInEx/plugins/A-B/b.dll'' \<mapsto> ''old'']\<rparr>)"
    by (simp add: ex_trees_def)
qed

lemma toggle_roundtrip_example:
  "\<exists>m' t'. runToggle (\<lambda>b. b) True False ex_manifest ex_trees = (Toggled m', t') \<and>
     \<not> occupied (Server t') ''BepInEx/plugins/A-B/b.dll'' \<and> runToggle (\<lambda>b. b) False True m' t' = (Toggled ex_manifest, ex_trees)"
proof -
  have enabled: "\<forall>e \<in> set ex_manifest. \<not> EParked e" by (simp add: ex_manifest_def)
  obtain m' t' where r: "runToggle (\<lambda>b. b) True False ex_manifest ex_trees = (Toggled m', t')"
      "\<forall>e \<in> set ex_manifest. UserConfig (EPath e) \<or> \<not> occupied (Server t') (EPath e)"
      "runToggle (\<lambda>b. b) False True m' t' = (Toggled ex_manifest, ex_trees)"
    using toggle_roundtrip [OF ex_settled enabled, of "\<lambda>b. b"] by blast
  from r(2) have "\<not> occupied (Server t') ''BepInEx/plugins/A-B/b.dll''"
    by (simp add: ex_manifest_def ex_manifest_checks)
  with r(1,3) show ?thesis by blast
qed

end
