(* ===== verification/Uninstall_Job.thy ===== *)
theory Uninstall_Job
  imports Parking
begin

text \<open>
  The file side of a mod uninstall (\<open>internal/mods/manager/uninstall.go\<close>) and of the crash sweep that undoes
  one (\<open>packageGroups\<close>, \<open>restoreRemoval\<close>, \<open>restoreConfigs\<close> and \<open>SweepModUninstall\<close> of \<open>recovery.go\<close>). A package's
  files are in two trees, the server root and its own parking tree, and both are saved into one backup
  directory. The theorem: once everything is saved, any set of removals is undone exactly, by the job's
  own rollback and by the sweep.
\<close>

subsection \<open>Operations\<close>

record disk =
  DServer :: tree
  DParked :: "string \<Rightarrow> tree"

record removedPackage =
  rm_name :: string
  rm_manifest :: "manifest_entry list"

text \<open>\<open>packageGroups\<close>: the server root's part and the parking tree's part of what an uninstall owns.\<close>

definition packageGroups :: "manifest_entry list \<Rightarrow> manifest_entry list \<times> manifest_entry list" where
  "packageGroups m = Split (filter (\<lambda>e. \<not> UserConfig (EPath e)) m)"

definition configPaths :: "string list \<Rightarrow> string list" where
  "configPaths files =
     concat (map (\<lambda>f. map (\<lambda>suffix. path_join [''BepInEx/config'', f @ suffix]) [[], ''.bak'', ''.orig'', ''.pending'']) files)"

definition save_pkg :: "disk \<Rightarrow> removedPackage \<Rightarrow> tree \<Rightarrow> install_error + tree" where
  "save_pkg d p saved =
     (case packageGroups (rm_manifest p) of (inServer, parked) \<Rightarrow>
        rbind (BackupPaths (Paths inServer) (DServer d) saved)
          (BackupPaths (Paths parked) (DParked d (rm_name p))))"

definition saveRemovals :: "disk \<Rightarrow> removedPackage list \<Rightarrow> string list \<Rightarrow> install_error + tree" where
  "saveRemovals d pkgs configs = rbind (foldR (save_pkg d) pkgs Map.empty) (BackupPaths configs (DServer d))"

text \<open>A path that leaves the tree has no saved copy.\<close>

definition has_copy :: "tree \<Rightarrow> string \<Rightarrow> bool" where
  "has_copy saved p = (case CheckDest p of None \<Rightarrow> False | Some rel \<Rightarrow> saved rel \<noteq> None)"

definition savedCopies :: "string list \<Rightarrow> tree \<Rightarrow> manifest_entry list" where
  "savedCopies paths saved = map (\<lambda>p. \<lparr>EPath = p, ESHA256 = [], EParked = False\<rparr>) (filter (has_copy saved) paths)"

definition removePackage :: "removedPackage \<Rightarrow> disk \<Rightarrow> install_error list \<times> disk" where
  "removePackage p d =
     (case packageGroups (rm_manifest p) of (inServer, parked) \<Rightarrow>
        (case Remove (Paths inServer) (DServer d) of (es, s) \<Rightarrow>
           (let d1 = d\<lparr>DServer := s\<rparr> in
            if es \<noteq> [] then (es, d1)
            else case Remove (Paths parked) (DParked d1 (rm_name p)) of (es', k) \<Rightarrow>
              (es', d1\<lparr>DParked := (DParked d1)(rm_name p := k)\<rparr>))))"

text \<open>The two groups of one package rolled back; \<open>rollbackUninstall\<close> leaves the parked group alone when the
  server group failed, the sweep attempts both.\<close>

definition roll_server :: "tree \<Rightarrow> manifest_entry list \<Rightarrow> disk \<Rightarrow> install_error list \<times> disk" where
  "roll_server saved m d = (case Rollback m saved (DServer d) of (es, s) \<Rightarrow> (es, d\<lparr>DServer := s\<rparr>))"

definition roll_parked :: "tree \<Rightarrow> string \<Rightarrow> manifest_entry list \<Rightarrow> disk \<Rightarrow> install_error list \<times> disk" where
  "roll_parked saved name m d =
     (case Rollback m saved (DParked d name) of (es, k) \<Rightarrow> (es, d\<lparr>DParked := (DParked d)(name := k)\<rparr>))"

definition rollback_removed :: "tree \<Rightarrow> removedPackage \<Rightarrow> disk \<Rightarrow> string list \<times> disk" where
  "rollback_removed saved p d =
     (case packageGroups (rm_manifest p) of (inServer, parked) \<Rightarrow>
        (case roll_server saved inServer d of (es, d1) \<Rightarrow>
           if es \<noteq> [] then ([rm_name p], d1)
           else case roll_parked saved (rm_name p) parked d1 of (es', d2) \<Rightarrow> (if es' \<noteq> [] then [rm_name p] else [], d2)))"

fun rollback_all :: "tree \<Rightarrow> removedPackage list \<Rightarrow> disk \<Rightarrow> string list \<times> disk" where
  "rollback_all saved [] d = ([], d)"
| "rollback_all saved (p # ps) d =
     (case rollback_removed saved p d of (stuck, d1) \<Rightarrow>
        (case rollback_all saved ps d1 of (stuck', d2) \<Rightarrow> (stuck @ stuck', d2)))"

text \<open>The list is what could not be put back.\<close>

definition rollbackUninstall :: "tree \<Rightarrow> removedPackage list \<Rightarrow> string list \<Rightarrow> disk \<Rightarrow> string list \<times> disk" where
  "rollbackUninstall saved pkgs configs d =
     (case roll_server saved (savedCopies configs saved) d of (es, d1) \<Rightarrow>
        (case rollback_all saved pkgs (if savedCopies configs saved = [] then d else d1) of (stuck, d2) \<Rightarrow>
           ((if savedCopies configs saved \<noteq> [] \<and> es \<noteq> [] then [''config files''] else []) @ stuck, d2)))"

definition restoreRemoval :: "tree \<Rightarrow> string \<Rightarrow> manifest_entry list \<Rightarrow> disk \<Rightarrow> bool \<times> disk" where
  "restoreRemoval saved name m d =
     (case packageGroups m of (inServer, parked) \<Rightarrow>
        (case roll_server saved inServer d of (e1, d1) \<Rightarrow>
        (case roll_parked saved name parked d1 of (e2, d2) \<Rightarrow>
        (case roll_server saved (filter (\<lambda>e. UserConfig (EPath e) \<and> has_copy saved (EPath e)) m) d2 of (e3, d3) \<Rightarrow>
           (e1 = [] \<and> e2 = [] \<and> e3 = [], d3)))))"

definition restoreConfigs :: "tree \<Rightarrow> string list \<Rightarrow> disk \<Rightarrow> disk" where
  "restoreConfigs saved configs d =
     (if savedCopies configs saved = [] then d else snd (roll_server saved (savedCopies configs saved) d))"

text \<open>\<open>SweepModUninstall\<close> once the payload, the instance and its rows are read; \<open>rows\<close> are the manifests that
  decode. The result counts the packages restored.\<close>

fun sweep_removals :: "tree \<Rightarrow> (string \<rightharpoonup> manifest_entry list) \<Rightarrow> string list \<Rightarrow> disk \<Rightarrow> nat \<times> disk" where
  "sweep_removals saved rows [] d = (0, d)"
| "sweep_removals saved rows (name # names) d =
     (case rows name of
        None \<Rightarrow> sweep_removals saved rows names d
      | Some m \<Rightarrow>
          (case restoreRemoval saved name m d of (ok, d1) \<Rightarrow>
             (case sweep_removals saved rows names d1 of (n, d2) \<Rightarrow> ((if ok then Suc n else n), d2))))"

definition SweepModUninstall ::
  "tree \<Rightarrow> (string \<rightharpoonup> manifest_entry list) \<Rightarrow> string list \<Rightarrow> string list \<Rightarrow> disk \<Rightarrow> nat \<times> disk" where
  "SweepModUninstall saved rows names files d =
     (case sweep_removals saved rows names d of (n, d1) \<Rightarrow> (n, restoreConfigs saved (configPaths files) d1))"

subsection \<open>Which paths belong to which tree\<close>

definition in_server :: "removedPackage \<Rightarrow> string set" where
  "in_server p = rels (Paths (fst (packageGroups (rm_manifest p))))"

definition in_parking :: "removedPackage \<Rightarrow> string set" where
  "in_parking p = rels (Paths (snd (packageGroups (rm_manifest p))))"

definition config_rels :: "removedPackage \<Rightarrow> string set" where
  "config_rels p = rels (filter UserConfig (Paths (rm_manifest p)))"

definition server_rels :: "removedPackage list \<Rightarrow> string list \<Rightarrow> string set" where
  "server_rels pkgs configs = \<Union> (in_server ` set pkgs) \<union> \<Union> (config_rels ` set pkgs) \<union> rels configs"

text \<open>No path is claimed from two trees: the manifests of the instance's packages do not overlap.\<close>

definition separate :: "removedPackage list \<Rightarrow> string list \<Rightarrow> bool" where
  "separate pkgs configs \<longleftrightarrow>
     (\<forall>p \<in> set pkgs. in_parking p \<inter> server_rels pkgs configs = {} \<and>
        (\<forall>p' \<in> set pkgs. rm_name p' \<noteq> rm_name p \<longrightarrow> in_parking p \<inter> in_parking p' = {}))"

text \<open>An uninstall caught removing: some of the paths of each tree are gone.\<close>

definition removing_from :: "removedPackage list \<Rightarrow> string list \<Rightarrow> disk \<Rightarrow> disk \<Rightarrow> bool" where
  "removing_from pkgs configs d d' \<longleftrightarrow>
     (\<exists>gone. set gone \<subseteq> (\<Union>p \<in> set pkgs. set (Paths (fst (packageGroups (rm_manifest p))))) \<union> set configs \<and>
        DServer d' = snd (Remove gone (DServer d))) \<and>
     (\<forall>n. \<exists>gone. set gone \<subseteq> (\<Union>p \<in> {p \<in> set pkgs. rm_name p = n}. set (Paths (snd (packageGroups (rm_manifest p))))) \<and>
        DParked d' n = snd (Remove gone (DParked d n)))"

subsection \<open>Lemmas\<close>

lemma Remove_tree: "snd (Remove ps r) = (\<lambda>q. if q \<in> rels ps then None else r q)"
proof (induction ps arbitrary: r)
  case (Cons p ps)
  show ?case
  proof (cases "CheckDest p")
    case None
    with Cons [of r] show ?thesis by (simp add: split_beta)
  next
    case (Some rel)
    then show ?thesis by (simp add: Cons) (auto simp: fun_eq_iff)
  qed
qed simp

text \<open>Several trees saved into one directory.\<close>

definition overlays :: "(string set \<times> tree) list \<Rightarrow> tree \<Rightarrow> tree" where
  "overlays gs saved = fold (\<lambda>g. overlay (fst g) (snd g)) gs saved"

lemma overlays_simps [simp]:
  "overlays [] saved = saved"
  "overlays (g # gs) saved = overlays gs (overlay (fst g) (snd g) saved)"
  "overlays (gs @ hs) saved = overlays hs (overlays gs saved)"
  by (simp_all add: overlays_def)

lemma overlays_either:
  "(\<And>g. g \<in> set gs \<Longrightarrow> q \<in> fst g \<Longrightarrow> snd g q = v) \<Longrightarrow> saved q = w \<Longrightarrow>
     overlays gs saved q = v \<or> overlays gs saved q = w"
proof (induction gs arbitrary: saved w)
  case (Cons g gs)
  have "overlay (fst g) (snd g) saved q = v \<or> overlay (fst g) (snd g) saved q = w"
    using Cons.prems by (auto simp: overlay_def)
  with Cons.IH [of "overlay (fst g) (snd g) saved"] Cons.prems(1) show ?case by (metis list.set_intros(2) overlays_simps(2))
qed simp

lemma overlays_at:
  assumes "\<And>g. g \<in> set gs \<Longrightarrow> q \<in> fst g \<Longrightarrow> snd g q = v" and "g \<in> set gs" and "q \<in> fst g"
  shows "overlays gs Map.empty q = v"
proof (cases v)
  case None
  with overlays_either [OF assms(1), of gs "\<lambda>_. None" None] show ?thesis by auto
next
  case (Some b)
  from assms(2) obtain as bs where gs: "gs = as @ g # bs" by (auto dest: split_list)
  have "overlay (fst g) (snd g) (overlays as Map.empty) q = v"
    using assms gs Some by (auto simp: overlay_def)
  with overlays_either [of bs q v "overlay (fst g) (snd g) (overlays as Map.empty)" v] assms(1) gs
  show ?thesis by auto
qed

lemma overlays_off: "(\<And>g. g \<in> set gs \<Longrightarrow> q \<notin> fst g) \<Longrightarrow> overlays gs saved q = saved q"
proof (induction gs arbitrary: saved)
  case (Cons g gs)
  then have "overlays gs (overlay (fst g) (snd g) saved) q = overlay (fst g) (snd g) saved q" by simp
  with Cons.prems show ?case by (simp add: overlay_def)
qed simp

text \<open>What the saving pass leaves in the backup directory.\<close>

definition save_groups :: "disk \<Rightarrow> removedPackage list \<Rightarrow> string list \<Rightarrow> (string set \<times> tree) list" where
  "save_groups d pkgs configs =
     concat (map (\<lambda>p. [(in_server p, DServer d), (in_parking p, DParked d (rm_name p))]) pkgs) @ [(rels configs, DServer d)]"

definition owned_safe :: "removedPackage \<Rightarrow> bool" where
  "owned_safe p \<longleftrightarrow> (case packageGroups (rm_manifest p) of (inServer, parked) \<Rightarrow>
     \<forall>q \<in> set (Paths inServer) \<union> set (Paths parked). CheckDest q \<noteq> None)"

lemma save_pkg_ok:
  assumes "save_pkg d p saved = Inr s"
  shows "owned_safe p \<and> s = overlays [(in_server p, DServer d), (in_parking p, DParked d (rm_name p))] saved"
proof -
  obtain a b where g: "packageGroups (rm_manifest p) = (a, b)" by fastforce
  with assms obtain t where "BackupPaths (Paths a) (DServer d) saved = Inr t" "BackupPaths (Paths b) (DParked d (rm_name p)) t = Inr s"
    by (auto simp: save_pkg_def rbind_eq_Inr)
  from this [THEN BackupPaths_ok] g show ?thesis by (auto simp: owned_safe_def in_server_def in_parking_def)
qed

lemma save_pkgs_ok:
  "foldR (save_pkg d) pkgs saved = Inr s \<Longrightarrow>
     (\<forall>p \<in> set pkgs. owned_safe p) \<and>
     s = overlays (concat (map (\<lambda>p. [(in_server p, DServer d), (in_parking p, DParked d (rm_name p))]) pkgs)) saved"
proof (induction pkgs arbitrary: saved)
  case (Cons p ps)
  then obtain t where t: "save_pkg d p saved = Inr t" "foldR (save_pkg d) ps t = Inr s"
    by (auto split: sum.splits)
  with Cons.IH [OF t(2)] save_pkg_ok [OF t(1)] show ?case by simp
qed simp

lemma saveRemovals_ok:
  assumes "saveRemovals d pkgs configs = Inr saved"
  shows "\<forall>p \<in> set pkgs. owned_safe p" and "saved = overlays (save_groups d pkgs configs) Map.empty"
proof -
  from assms obtain t where t: "foldR (save_pkg d) pkgs Map.empty = Inr t" "BackupPaths configs (DServer d) t = Inr saved"
    by (auto simp: saveRemovals_def rbind_eq_Inr)
  from save_pkgs_ok [OF t(1)] BackupPaths_ok [OF t(2)]
  show "\<forall>p \<in> set pkgs. owned_safe p" and "saved = overlays (save_groups d pkgs configs) Map.empty"
    by (simp_all add: save_groups_def)
qed

lemma save_groups_mem:
  "p \<in> set pkgs \<Longrightarrow> (in_server p, DServer d) \<in> set (save_groups d pkgs configs)"
  "p \<in> set pkgs \<Longrightarrow> (in_parking p, DParked d (rm_name p)) \<in> set (save_groups d pkgs configs)"
  "(rels configs, DServer d) \<in> set (save_groups d pkgs configs)"
  by (auto simp: save_groups_def)

lemma separate_server: "separate pkgs configs \<Longrightarrow> p \<in> set pkgs \<Longrightarrow> q \<in> in_parking p \<Longrightarrow> q \<notin> server_rels pkgs configs"
  unfolding separate_def by blast

lemma separate_parking:
  "separate pkgs configs \<Longrightarrow> p \<in> set pkgs \<Longrightarrow> p' \<in> set pkgs \<Longrightarrow> q \<in> in_parking p \<Longrightarrow> q \<in> in_parking p' \<Longrightarrow>
     rm_name p' = rm_name p"
  unfolding separate_def by blast

lemma saved_in_server:
  assumes "separate pkgs configs" and "q \<in> server_rels pkgs configs"
  shows "overlays (save_groups d pkgs configs) Map.empty q = None \<or>
         overlays (save_groups d pkgs configs) Map.empty q = DServer d q"
    and "q \<in> \<Union> (in_server ` set pkgs) \<union> rels configs \<Longrightarrow> overlays (save_groups d pkgs configs) Map.empty q = DServer d q"
proof -
  have agree: "snd g q = DServer d q" if "g \<in> set (save_groups d pkgs configs)" "q \<in> fst g" for g
    using that assms(2) by (auto simp: save_groups_def dest: separate_server [OF assms(1)])
  show "overlays (save_groups d pkgs configs) Map.empty q = None \<or>
         overlays (save_groups d pkgs configs) Map.empty q = DServer d q"
    using overlays_either [of "save_groups d pkgs configs" q "DServer d q" Map.empty None] agree by blast
  assume "q \<in> \<Union> (in_server ` set pkgs) \<union> rels configs"
  then consider p where "p \<in> set pkgs" "q \<in> in_server p" | "q \<in> rels configs" by blast
  then show "overlays (save_groups d pkgs configs) Map.empty q = DServer d q"
  proof cases
    case (1 p)
    then show ?thesis by (intro overlays_at [OF agree save_groups_mem(1)]) simp_all
  next
    case 2
    then show ?thesis by (intro overlays_at [OF agree save_groups_mem(3)]) simp_all
  qed
qed

lemma saved_in_parking:
  assumes "separate pkgs configs" and "p \<in> set pkgs" and "q \<in> in_parking p"
  shows "overlays (save_groups d pkgs configs) Map.empty q = DParked d (rm_name p) q"
proof -
  have "snd g q = DParked d (rm_name p) q" if "g \<in> set (save_groups d pkgs configs)" "q \<in> fst g" for g
  proof -
    from that(1) consider "g = (rels configs, DServer d)" | p' where "p' \<in> set pkgs" "g = (in_server p', DServer d)"
      | p' where "p' \<in> set pkgs" "g = (in_parking p', DParked d (rm_name p'))"
      by (auto simp: save_groups_def)
    then show ?thesis
    proof cases
      case (3 p')
      with that(2) have "rm_name p' = rm_name p" using separate_parking [OF assms(1,2)] assms(3) by simp
      with 3 show ?thesis by simp
    qed (use that(2) separate_server [OF assms] in \<open>auto simp: server_rels_def\<close>)
  qed
  from overlays_at [OF this save_groups_mem(2) [OF assms(2)]] assms(3) show ?thesis by simp
qed

subsection \<open>Rolling back both trees\<close>

definition undo_disk :: "string set \<Rightarrow> (string \<Rightarrow> string set) \<Rightarrow> tree \<Rightarrow> disk \<Rightarrow> disk" where
  "undo_disk S P saved d = d\<lparr>DServer := undo S saved (DServer d), DParked := (\<lambda>n. undo (P n) saved (DParked d n))\<rparr>"

lemma undo_empty [simp]: "undo {} saved r = r"
  by (simp add: undo_def)

lemma undo_disk_Un:
  "undo_disk S' P' saved (undo_disk S P saved d) = undo_disk (S \<union> S') (\<lambda>n. P n \<union> P' n) saved d"
  by (simp add: undo_disk_def undo_Un)

lemma undo_disk_empty [simp]: "undo_disk {} (\<lambda>n. {}) saved d = d"
  by (simp add: undo_disk_def)

lemma roll_server_ok:
  "\<forall>p \<in> set (Paths m). CheckDest p \<noteq> None \<Longrightarrow> roll_server saved m d = ([], undo_disk (rels (Paths m)) (\<lambda>n. {}) saved d)"
  by (simp add: roll_server_def Rollback_ok undo_disk_def)

lemma roll_parked_ok:
  "\<forall>p \<in> set (Paths m). CheckDest p \<noteq> None \<Longrightarrow>
     roll_parked saved name m d = ([], undo_disk {} (\<lambda>n. if n = name then rels (Paths m) else {}) saved d)"
  by (auto simp: roll_parked_def Rollback_ok undo_disk_def fun_eq_iff intro!: disk.equality)

definition copied :: "tree \<Rightarrow> string set \<Rightarrow> string set" where
  "copied saved T = {q \<in> T. saved q \<noteq> None}"

lemma has_copy_rels: "rels (filter (has_copy saved) ps) = copied saved (rels ps)"
  by (auto simp: rels_def copied_def has_copy_def)

lemma has_copy_safe: "has_copy saved p \<Longrightarrow> CheckDest p \<noteq> None"
  by (simp add: has_copy_def split: option.splits)

lemma savedCopies_ok:
  "Paths (savedCopies ps saved) = filter (has_copy saved) ps"
  by (simp add: Paths_def savedCopies_def comp_def)

lemma roll_configs_ok:
  "roll_server saved (savedCopies ps saved) d = ([], undo_disk (copied saved (rels ps)) (\<lambda>n. {}) saved d)"
  by (subst roll_server_ok) (auto simp: savedCopies_ok has_copy_rels dest: has_copy_safe)

lemma copied_none: "savedCopies ps saved = [] \<Longrightarrow> copied saved (rels ps) = {}"
  using savedCopies_ok [of ps saved] by (simp add: Paths_def flip: has_copy_rels)

lemma restoreConfigs_ok: "restoreConfigs saved ps d = undo_disk (copied saved (rels ps)) (\<lambda>n. {}) saved d"
  by (simp add: restoreConfigs_def roll_configs_ok copied_none)

abbreviation only :: "string \<Rightarrow> string set \<Rightarrow> string \<Rightarrow> string set" where
  "only name T \<equiv> (\<lambda>n. if n = name then T else {})"

lemma owned_safeD:
  assumes "owned_safe p" and "packageGroups (rm_manifest p) = (a, b)"
  shows "\<forall>q \<in> set (Paths a). CheckDest q \<noteq> None" and "\<forall>q \<in> set (Paths b). CheckDest q \<noteq> None"
    and "in_server p = rels (Paths a)" and "in_parking p = rels (Paths b)"
  using assms by (auto simp: owned_safe_def in_server_def in_parking_def)

lemma rollback_removed_ok:
  assumes "owned_safe p"
  shows "rollback_removed saved p d = ([], undo_disk (in_server p) (only (rm_name p) (in_parking p)) saved d)"
proof -
  obtain a b where g: "packageGroups (rm_manifest p) = (a, b)" by fastforce
  note s = owned_safeD [OF assms g]
  show ?thesis unfolding s(3,4)
    by (simp add: rollback_removed_def g roll_server_ok [OF s(1)] roll_parked_ok [OF s(2)] undo_disk_Un)
qed

lemma restoreRemoval_ok:
  assumes "owned_safe p"
  shows "restoreRemoval saved (rm_name p) (rm_manifest p) d =
    (True, undo_disk (in_server p \<union> copied saved (config_rels p)) (only (rm_name p) (in_parking p)) saved d)"
proof -
  obtain a b where g: "packageGroups (rm_manifest p) = (a, b)" by fastforce
  note s = owned_safeD [OF assms g]
  let ?c = "filter (\<lambda>e. UserConfig (EPath e) \<and> has_copy saved (EPath e)) (rm_manifest p)"
  have c: "Paths ?c = filter (has_copy saved) (filter UserConfig (Paths (rm_manifest p)))"
    by (simp add: Paths_def filter_map comp_def conj_commute)
  then have "\<forall>q \<in> set (Paths ?c). CheckDest q \<noteq> None" by (auto dest: has_copy_safe)
  moreover have "rels (Paths ?c) = copied saved (config_rels p)" unfolding c has_copy_rels config_rels_def ..
  ultimately show ?thesis unfolding s(3,4)
    by (simp add: restoreRemoval_def g roll_server_ok [OF s(1)] roll_parked_ok [OF s(2)] roll_server_ok undo_disk_Un)
qed

definition parked_as :: "removedPackage list \<Rightarrow> string \<Rightarrow> string set" where
  "parked_as pkgs n = (\<Union>p \<in> {p \<in> set pkgs. rm_name p = n}. in_parking p)"

lemma parked_as_Cons: "parked_as (p # ps) = (\<lambda>n. only (rm_name p) (in_parking p) n \<union> parked_as ps n)"
  by (auto simp: parked_as_def fun_eq_iff)

lemma rollback_all_ok:
  "\<forall>p \<in> set pkgs. owned_safe p \<Longrightarrow>
     rollback_all saved pkgs d = ([], undo_disk (\<Union> (in_server ` set pkgs)) (parked_as pkgs) saved d)"
proof (induction pkgs arbitrary: d)
  case Nil
  show ?case by (simp add: parked_as_def)
next
  case (Cons p ps)
  then show ?case by (simp add: rollback_removed_ok undo_disk_Un parked_as_Cons)
qed

lemma sweep_removals_ok:
  "\<forall>p \<in> set pkgs. owned_safe p \<and> rows (rm_name p) = Some (rm_manifest p) \<Longrightarrow>
     sweep_removals saved rows (map rm_name pkgs) d =
       (length pkgs, undo_disk (\<Union>p \<in> set pkgs. in_server p \<union> copied saved (config_rels p)) (parked_as pkgs) saved d)"
proof (induction pkgs arbitrary: d)
  case Nil
  show ?case by (simp add: parked_as_def)
next
  case (Cons p ps)
  then show ?case by (simp add: restoreRemoval_ok undo_disk_Un parked_as_Cons)
qed

lemma undo_disk_exact:
  assumes "\<And>q. is_temp q \<Longrightarrow> DServer d q = None \<and> (\<forall>n. DParked d n q = None)"
    and "\<And>q. q \<in> S \<Longrightarrow> saved q = DServer d q" and "\<And>n q. q \<in> P n \<Longrightarrow> saved q = DParked d n q"
    and "\<And>q. q \<notin> S \<Longrightarrow> DServer d' q = DServer d q" and "\<And>n q. q \<notin> P n \<Longrightarrow> DParked d' n q = DParked d n q"
  shows "undo_disk S P saved d' = d"
proof (rule disk.equality)
  show "DServer (undo_disk S P saved d') = DServer d"
    using assms(1,2,4) by (auto simp: undo_disk_def undo_def)
  show "DParked (undo_disk S P saved d') = DParked d"
    using assms(1,3,5) by (auto simp: undo_disk_def undo_def fun_eq_iff)
qed simp

lemma removing_fromD:
  assumes "removing_from pkgs configs d d'"
  shows "q \<notin> \<Union> (in_server ` set pkgs) \<union> rels configs \<Longrightarrow> DServer d' q = DServer d q"
    and "DServer d' q = DServer d q \<or> DServer d' q = None"
    and "q \<notin> parked_as pkgs n \<Longrightarrow> DParked d' n q = DParked d n q"
proof -
  from assms obtain gone where g: "set gone \<subseteq> (\<Union>p \<in> set pkgs. set (Paths (fst (packageGroups (rm_manifest p))))) \<union> set configs"
    "DServer d' = snd (Remove gone (DServer d))" by (auto simp: removing_from_def)
  then have "rels gone \<subseteq> \<Union> (in_server ` set pkgs) \<union> rels configs" unfolding rels_def in_server_def by blast
  with g(2) show "q \<notin> \<Union> (in_server ` set pkgs) \<union> rels configs \<Longrightarrow> DServer d' q = DServer d q"
    and "DServer d' q = DServer d q \<or> DServer d' q = None" by (auto simp: Remove_tree)
  from assms obtain gone where h: "set gone \<subseteq> (\<Union>p \<in> {p \<in> set pkgs. rm_name p = n}. set (Paths (snd (packageGroups (rm_manifest p)))))"
    "DParked d' n = snd (Remove gone (DParked d n))" unfolding removing_from_def by blast
  then have "rels gone \<subseteq> parked_as pkgs n" unfolding rels_def in_parking_def parked_as_def by blast
  with h(2) show "q \<notin> parked_as pkgs n \<Longrightarrow> DParked d' n q = DParked d n q" by (auto simp: Remove_tree)
qed

lemma uninstall_undo:
  assumes sep: "separate pkgs configs" and saved: "saveRemovals d pkgs configs = Inr saved"
    and stop: "removing_from pkgs configs d d'" and temps: "\<And>q. is_temp q \<Longrightarrow> DServer d q = None \<and> (\<forall>n. DParked d n q = None)"
    and lower: "\<Union> (in_server ` set pkgs) \<union> copied saved (rels configs) \<subseteq> S"
    and upper: "S \<subseteq> \<Union> (in_server ` set pkgs) \<union> copied saved (server_rels pkgs configs)"
  shows "undo_disk S (parked_as pkgs) saved d' = d"
proof (rule undo_disk_exact [OF temps])
  note eq = saveRemovals_ok(2) [OF saved]
  have server: "q \<in> \<Union> (in_server ` set pkgs) \<union> rels configs \<Longrightarrow> saved q = DServer d q"
    and copy: "q \<in> copied saved (server_rels pkgs configs) \<Longrightarrow> saved q = DServer d q" for q
    using saved_in_server [OF sep, of q d] unfolding eq copied_def by (auto simp: server_rels_def)
  show "saved q = DServer d q" if "q \<in> S" for q using that upper server copy by blast
  show "DServer d' q = DServer d q" if "q \<notin> S" for q
  proof (cases "q \<in> rels configs")
    case True
    with that lower have "saved q = None" by (auto simp: copied_def)
    with server [of q] True removing_fromD(2) [OF stop, of q] show ?thesis by auto
  qed (use that lower removing_fromD(1) [OF stop] in blast)
  show "saved q = DParked d n q" if "q \<in> parked_as pkgs n" for n q
    using that saved_in_parking [OF sep] unfolding eq parked_as_def by blast
  show "DParked d' n q = DParked d n q" if "q \<notin> parked_as pkgs n" for n q
    using that by (rule removing_fromD(3) [OF stop])
qed

text \<open>C23. A mod uninstall is undone exactly. Once the saving pass has succeeded, whatever part of the
  removals had happened -- files of any of the packages, in the server root or in their parking trees,
  and the configuration files removed with them -- both the job's own rollback and the crash sweep put
  every tree back byte for byte, with nothing reported stuck and every package counted as restored.\<close>

theorem uninstall_undone_exactly:
  assumes "separate pkgs (configPaths files)" and "saveRemovals d pkgs (configPaths files) = Inr saved"
    and "removing_from pkgs (configPaths files) d d'"
    and "\<forall>p \<in> set pkgs. rows (rm_name p) = Some (rm_manifest p)"
    and "\<And>q. is_temp q \<Longrightarrow> DServer d q = None \<and> (\<forall>n. DParked d n q = None)"
  shows "rollbackUninstall saved pkgs (configPaths files) d' = ([], d) \<and>
         SweepModUninstall saved rows (map rm_name pkgs) files d' = (length pkgs, d)"
proof
  let ?c = "configPaths files"
  note safe = saveRemovals_ok(1) [OF assms(2)] and undo = uninstall_undo [OF assms(1,2,3,5)]
  have "undo_disk (copied saved (rels ?c) \<union> \<Union> (in_server ` set pkgs)) (parked_as pkgs) saved d' = d"
    by (rule undo) (auto simp: copied_def server_rels_def)
  then show "rollbackUninstall saved pkgs ?c d' = ([], d)"
    using copied_none [of ?c saved]
    by (cases "savedCopies ?c saved = []") (simp_all add: rollbackUninstall_def roll_configs_ok rollback_all_ok [OF safe] undo_disk_Un)
  have "undo_disk ((\<Union>p \<in> set pkgs. in_server p \<union> copied saved (config_rels p)) \<union> copied saved (rels ?c)) (parked_as pkgs) saved d' = d"
    by (rule undo) (auto simp: copied_def server_rels_def)
  moreover have "\<forall>p \<in> set pkgs. owned_safe p \<and> rows (rm_name p) = Some (rm_manifest p)" using safe assms(4) by blast
  ultimately show "SweepModUninstall saved rows (map rm_name pkgs) files d' = (length pkgs, d)"
    by (simp add: SweepModUninstall_def sweep_removals_ok restoreConfigs_ok undo_disk_Un)
qed

text \<open>The sweep asks nothing about the saving pass: run for a job that died before or during it, it deletes
  every file of the removal set that had no copy yet, while the rows go on naming them.\<close>

lemma sweep_deletes_unsaved:
  assumes "\<forall>p \<in> set pkgs. owned_safe p \<and> rows (rm_name p) = Some (rm_manifest p)"
    and "p \<in> set pkgs" and "q \<in> in_server p" and "saved q = None"
  shows "DServer (snd (SweepModUninstall saved rows (map rm_name pkgs) files d)) q = None"
  using assms
  by (auto simp: SweepModUninstall_def sweep_removals_ok restoreConfigs_ok undo_disk_Un undo_disk_def undo_def)

text \<open>Two packages, the second disabled, caught with the first one's plugin and the second one's parked
  plugin removed.\<close>

definition ex_removed :: "removedPackage list" where
  "ex_removed = [\<lparr>rm_name = ''A-B'', rm_manifest = ex_manifest\<rparr>,
     \<lparr>rm_name = ''C-D'', rm_manifest = [\<lparr>EPath = ''BepInEx/plugins/A-B/c.dll'', ESHA256 = ''c'', EParked = True\<rparr>]\<rparr>]"

definition ex_disk :: disk where
  "ex_disk = \<lparr>DServer = Server ex_trees, DParked = (\<lambda>n. Map.empty)(''C-D'' := [''BepInEx/plugins/A-B/c.dll'' \<mapsto> ''c''])\<rparr>"

lemma ex_c: "\<not> UserConfig ''BepInEx/plugins/A-B/c.dll''"
  by code_simp

lemma ex_removed_groups:
  "packageGroups ex_manifest = ([hd ex_manifest], [])"
  "packageGroups [\<lparr>EPath = ''BepInEx/plugins/A-B/c.dll'', ESHA256 = ''c'', EParked = True\<rparr>] =
     ([], [\<lparr>EPath = ''BepInEx/plugins/A-B/c.dll'', ESHA256 = ''c'', EParked = True\<rparr>])"
  by (simp_all add: packageGroups_def Split_def ex_manifest_def ex_manifest_checks ex_c)

lemma ex_hd: "EPath (hd ex_manifest) = ''BepInEx/plugins/A-B/b.dll''"
  by (simp add: ex_manifest_def)

lemma ex_configs: "configPaths [] = []"
  by (simp add: configPaths_def)

lemma ex_separate: "separate ex_removed []"
  by (simp add: separate_def ex_removed_def in_parking_def in_server_def config_rels_def server_rels_def ex_removed_groups
      Paths_def ex_checks) (simp add: ex_manifest_def ex_checks ex_manifest_checks ex_c)

lemma ex_saved:
  "saveRemovals ex_disk ex_removed [] =
     Inr [''BepInEx/plugins/A-B/b.dll'' \<mapsto> ''old'', ''BepInEx/plugins/A-B/c.dll'' \<mapsto> ''c'']"
  by (simp add: saveRemovals_def save_pkg_def ex_removed_def ex_removed_groups BackupPaths_def backup_path_def Paths_def
      ex_checks ex_disk_def ex_trees_def ex_hd)

definition ex_removing :: disk where
  "ex_removing = \<lparr>DServer = [''BepInEx/config/b.cfg'' \<mapsto> ''mine''], DParked = (\<lambda>n. Map.empty)\<rparr>"

lemma ex_removing_from: "removing_from ex_removed [] ex_disk ex_removing"
  unfolding removing_from_def
proof (intro conjI allI)
  show "\<exists>gone. set gone \<subseteq> (\<Union>p \<in> set ex_removed. set (Paths (fst (packageGroups (rm_manifest p))))) \<union> set [] \<and>
      DServer ex_removing = snd (Remove gone (DServer ex_disk))"
    by (rule exI [where x = "[''BepInEx/plugins/A-B/b.dll'']"])
      (auto simp: ex_removed_def ex_removed_groups Paths_def ex_hd ex_removing_def ex_disk_def ex_trees_def ex_checks)
  show "\<exists>gone. set gone \<subseteq> (\<Union>p \<in> {p \<in> set ex_removed. rm_name p = n}. set (Paths (snd (packageGroups (rm_manifest p))))) \<and>
      DParked ex_removing n = snd (Remove gone (DParked ex_disk n))" for n
    by (cases "n = ''C-D''", rule exI [where x = "[''BepInEx/plugins/A-B/c.dll'']"])
      (auto simp: ex_removed_def ex_removed_groups Paths_def ex_removing_def ex_disk_def ex_checks intro: exI [where x = "[]"])
qed

theorem uninstall_undone_exactly_witness:
  "rollbackUninstall [''BepInEx/plugins/A-B/b.dll'' \<mapsto> ''old'', ''BepInEx/plugins/A-B/c.dll'' \<mapsto> ''c''] ex_removed [] ex_removing = ([], ex_disk) \<and>
   SweepModUninstall [''BepInEx/plugins/A-B/b.dll'' \<mapsto> ''old'', ''BepInEx/plugins/A-B/c.dll'' \<mapsto> ''c'']
     (map_of (map (\<lambda>p. (rm_name p, rm_manifest p)) ex_removed)) (map rm_name ex_removed) [] ex_removing = (2, ex_disk)"
proof -
  have temps: "DServer ex_disk q = None \<and> (\<forall>n. DParked ex_disk n q = None)" if "is_temp q" for q
  proof -
    have "\<not> is_temp ''BepInEx/plugins/A-B/c.dll''" by code_simp
    with that ex_manifest_checks show ?thesis by (auto simp: ex_disk_def ex_trees_def)
  qed
  have rows: "\<forall>p \<in> set ex_removed. map_of (map (\<lambda>p. (rm_name p, rm_manifest p)) ex_removed) (rm_name p) = Some (rm_manifest p)"
    by (simp add: ex_removed_def)
  have "length ex_removed = 2" by (simp add: ex_removed_def)
  with uninstall_undone_exactly [of ex_removed "[]", unfolded ex_configs, OF ex_separate ex_saved ex_removing_from rows temps]
  show ?thesis by metis
qed

end
