(* ===== verification/Retention.thy ===== *)
theory Retention
  imports Go_Prelude
begin

text \<open>
  Archive retention: \<open>internal/backup/prune.go\<close> for the archives on the host, \<open>pruneEntry\<close> of
  \<open>internal/instance/control/prune.go\<close>, and \<open>internal/backup/remotecopy/retention.go\<close> for the uploaded
  copies. Both walk a catalogue newest first with a count per class; the locale \<open>retention\<close> states the rule
  both are meant to follow and derives what it promises, and both walks are proved to follow it.
\<close>

subsection \<open>Classes\<close>

datatype retentionClass = ClassCold | ClassHot | ClassSnapshot

definition SnapshotTrigger :: "string \<Rightarrow> bool" where
  "SnapshotTrigger t = (t = ''pre_update'' \<or> t = ''pre_restore'' \<or> t = ''pre_import'')"

definition classOf :: "string \<Rightarrow> bool \<Rightarrow> retentionClass" where
  "classOf trigger consistent =
     (if SnapshotTrigger trigger then ClassSnapshot else if \<not> consistent then ClassHot else ClassCold)"

subsection \<open>Archives on the host\<close>

record Entry =
  en_ID :: string
  en_Path :: string
  en_Consistent :: bool
  en_Snapshot :: bool
  en_Pinned :: bool
  en_Flagged :: bool

record Policy =
  KeepCold :: int
  KeepHot :: int

record classCount =
  cc_kept :: int
  cc_sawUnflagged :: bool

definition entry_class :: "Entry \<Rightarrow> retentionClass" where
  "entry_class a = (if en_Snapshot a then ClassSnapshot else if \<not> en_Consistent a then ClassHot else ClassCold)"

definition policy_limit :: "Policy \<Rightarrow> retentionClass \<Rightarrow> int" where
  "policy_limit policy c = (case c of ClassHot \<Rightarrow> KeepHot policy | _ \<Rightarrow> KeepCold policy)"

text \<open>The walk of \<open>Prune\<close>; \<open>st\<close> holds the three class counts.\<close>

fun prune_loop :: "Policy \<Rightarrow> (retentionClass \<Rightarrow> classCount) \<Rightarrow> Entry list \<Rightarrow> Entry list" where
  "prune_loop policy st [] = []"
| "prune_loop policy st (a # as) =
     (if en_Pinned a then prune_loop policy st as
      else
        let c = entry_class a; limit = policy_limit policy c;
            lastGood = (\<not> en_Snapshot a \<and> \<not> en_Flagged a \<and> \<not> cc_sawUnflagged (st c));
            st1 = (if lastGood then st(c := (st c)\<lparr>cc_sawUnflagged := True\<rparr>) else st)
        in if limit \<le> 0 then prune_loop policy st1 as
           else if cc_kept (st1 c) < limit then prune_loop policy (st1(c := (st1 c)\<lparr>cc_kept := cc_kept (st1 c) + 1\<rparr>)) as
           else if \<not> lastGood then a # prune_loop policy st1 as
           else prune_loop policy st1 as)"

definition Prune :: "Entry list \<Rightarrow> Policy \<Rightarrow> Entry list" where
  "Prune archives policy = prune_loop policy (\<lambda>_. \<lparr>cc_kept = 0, cc_sawUnflagged = False\<rparr>) archives"

record Backup_row =
  bk_ID :: string
  bk_Path :: string
  bk_Trigger :: string
  bk_Consistent :: bool
  bk_CreatedAt :: int
  bk_WorldAttention :: "string list"

definition pruneEntry :: "Backup_row \<Rightarrow> Entry" where
  "pruneEntry b = \<lparr>en_ID = bk_ID b, en_Path = bk_Path b, en_Consistent = bk_Consistent b,
     en_Snapshot = SnapshotTrigger (bk_Trigger b), en_Pinned = False, en_Flagged = (bk_WorldAttention b \<noteq> [])\<rparr>"

text \<open>\<open>Select\<close>: the whole catalogue, the fresh archive first, each row marked pinned by what links to it.\<close>

definition Select :: "(Backup_row \<Rightarrow> bool) \<Rightarrow> Backup_row option \<Rightarrow> Backup_row list \<Rightarrow> Policy \<Rightarrow> Entry list" where
  "Select pinned fresh rows policy =
     Prune ((case fresh of None \<Rightarrow> [] | Some b \<Rightarrow> [pruneEntry b]) @ map (\<lambda>b. (pruneEntry b)\<lparr>en_Pinned := pinned b\<rparr>) rows) policy"

subsection \<open>Uploaded copies\<close>

record RemoteCopy =
  rc_ID :: string
  rc_BackupID :: string
  rc_Trigger :: string
  rc_Consistent :: bool
  rc_WorldFlagged :: bool
  rc_CleanupPending :: bool
  rc_ArchiveCreatedAt :: int

record remote_policy =
  RemoteKeepCold :: int
  RemoteKeepHot :: int
  RemoteKeepSnapshots :: int

definition keepLimit :: "remote_policy \<Rightarrow> retentionClass \<Rightarrow> int" where
  "keepLimit inst c = (case c of ClassHot \<Rightarrow> RemoteKeepHot inst | ClassSnapshot \<Rightarrow> RemoteKeepSnapshots inst | ClassCold \<Rightarrow> RemoteKeepCold inst)"

abbreviation copy_class :: "RemoteCopy \<Rightarrow> retentionClass" where
  "copy_class c \<equiv> classOf (rc_Trigger c) (rc_Consistent c)"

text \<open>The walk of \<open>markInstanceRetention\<close> over \<open>RemoteRetentionCopies\<close>; each copy comes back with the mark
  \<open>MarkRemoteCleanup\<close> or \<open>UnmarkRemoteCleanup\<close> leaves on its row.\<close>

fun mark_loop :: "remote_policy \<Rightarrow> (retentionClass \<Rightarrow> int) \<Rightarrow> (retentionClass \<Rightarrow> bool) \<Rightarrow> RemoteCopy list \<Rightarrow> RemoteCopy list" where
  "mark_loop inst counts saw [] = []"
| "mark_loop inst counts saw (c # cs) =
     (let class = copy_class c;
          counts' = counts(class := counts class + 1);
          lastGood = (class \<noteq> ClassSnapshot \<and> \<not> rc_WorldFlagged c \<and> \<not> saw class);
          saw' = (if lastGood then saw(class := True) else saw);
          limit = keepLimit inst class;
          c' = (if limit > 0 \<and> counts' class > limit \<and> \<not> lastGood then c\<lparr>rc_CleanupPending := True\<rparr>
                else if rc_CleanupPending c then c\<lparr>rc_CleanupPending := False\<rparr> else c)
      in c' # mark_loop inst counts' saw' cs)"

definition markInstanceRetention :: "remote_policy \<Rightarrow> RemoteCopy list \<Rightarrow> RemoteCopy list" where
  "markInstanceRetention inst copies = mark_loop inst (\<lambda>_. 0) (\<lambda>_. False) copies"

definition PrunedOnArrival :: "remote_policy \<Rightarrow> RemoteCopy list \<Rightarrow> Backup_row \<Rightarrow> bool" where
  "PrunedOnArrival inst copies b =
     (let class = classOf (bk_Trigger b) (bk_Consistent b); limit = keepLimit inst class;
          newer = filter (\<lambda>c. rc_BackupID c \<noteq> bk_ID b \<and> \<not> rc_CleanupPending c \<and> copy_class c = class \<and>
                              rc_ArchiveCreatedAt c > bk_CreatedAt b) copies
      in if limit \<le> 0 then False
         else if class \<noteq> ClassSnapshot \<and> bk_WorldAttention b = [] \<and> filter (\<lambda>c. \<not> rc_WorldFlagged c) newer = [] then False
         else int (length newer) \<ge> limit)"

subsection \<open>The rule\<close>

text \<open>What is dropped, of an item with the items newer than it: it is not exempt, its class has a limit,
  as many newer items of its class are counted as the limit allows, and it is not its class's newest
  unflagged item -- a guarantee snapshots do not have.\<close>

definition retired ::
  "('a \<Rightarrow> retentionClass) \<Rightarrow> ('a \<Rightarrow> bool) \<Rightarrow> ('a \<Rightarrow> bool) \<Rightarrow> (retentionClass \<Rightarrow> int) \<Rightarrow> 'a list \<Rightarrow> 'a \<Rightarrow> bool" where
  "retired cls exempt flagged limit newer x \<longleftrightarrow>
     (let peers = filter (\<lambda>y. \<not> exempt y \<and> cls y = cls x) newer
      in \<not> exempt x \<and> 0 < limit (cls x) \<and> limit (cls x) \<le> int (length peers) \<and>
         (cls x = ClassSnapshot \<or> flagged x \<or> (\<exists>y \<in> set peers. \<not> flagged y)))"

fun keep_from :: "('a list \<Rightarrow> 'a \<Rightarrow> bool) \<Rightarrow> 'a list \<Rightarrow> 'a list \<Rightarrow> 'a list" where
  "keep_from R newer [] = []"
| "keep_from R newer (x # xs) = (if R newer x then [] else [x]) @ keep_from R (newer @ [x]) xs"

fun drop_from :: "('a list \<Rightarrow> 'a \<Rightarrow> bool) \<Rightarrow> 'a list \<Rightarrow> 'a list \<Rightarrow> 'a list" where
  "drop_from R newer [] = []"
| "drop_from R newer (x # xs) = (if R newer x then [x] else []) @ drop_from R (newer @ [x]) xs"

lemma drop_from_mem:
  "distinct xs \<Longrightarrow> x \<in> set (drop_from R newer xs) \<longleftrightarrow> x \<in> set xs \<and> R (newer @ takeWhile (\<lambda>y. y \<noteq> x) xs) x"
proof (induction xs arbitrary: newer)
  case (Cons z zs)
  then show ?case by (cases "x = z") auto
qed simp

lemma keep_from_filter: "distinct xs \<Longrightarrow> keep_from R newer xs = filter (\<lambda>x. x \<notin> set (drop_from R newer xs)) xs"
proof (induction xs arbitrary: newer)
  case (Cons z zs)
  then have "keep_from R (newer @ [z]) zs = filter (\<lambda>x. x \<notin> set (drop_from R (newer @ [z]) zs)) zs" by simp
  also have "\<dots> = filter (\<lambda>x. x \<notin> set (drop_from R newer (z # zs))) zs"
    by (rule filter_cong [OF refl]) (use Cons.prems in \<open>auto split: if_splits\<close>)
  finally have "keep_from R (newer @ [z]) zs = filter (\<lambda>x. x \<notin> set (drop_from R newer (z # zs))) zs" .
  moreover have "z \<in> set (drop_from R newer (z # zs)) \<longleftrightarrow> R newer z"
    using drop_from_mem [OF Cons.prems, of z R newer] by simp
  ultimately show ?case by simp
qed simp

lemma takeWhile_filter: "P x \<Longrightarrow> takeWhile (\<lambda>y. y \<noteq> x) (filter P xs) = filter P (takeWhile (\<lambda>y. y \<noteq> x) xs)"
proof (induction xs)
  case (Cons z zs)
  then show ?case by (cases "z = x"; cases "P z") simp_all
qed simp

lemma keep_from_append: "keep_from R newer (xs @ ys) = keep_from R newer xs @ keep_from R (newer @ xs) ys"
  by (induction xs arbitrary: newer) auto

lemma keep_from_subset: "set (keep_from R newer xs) \<subseteq> set xs"
  by (induction xs arbitrary: newer) auto

lemma keep_from_length: "length (filter P (keep_from R newer xs)) \<le> length (filter P xs)"
  by (induction xs arbitrary: newer) (auto intro: le_SucI)

locale retention =
  fixes cls :: "'a \<Rightarrow> retentionClass"
    and exempt :: "'a \<Rightarrow> bool"
    and flagged :: "'a \<Rightarrow> bool"
    and limit :: "retentionClass \<Rightarrow> int"
    and dropped :: "'a list \<Rightarrow> 'a list"
  assumes dropped_law: "dropped xs = drop_from (retired cls exempt flagged limit) [] xs"
begin

abbreviation kept :: "'a list \<Rightarrow> 'a list" where
  "kept xs \<equiv> filter (\<lambda>x. x \<notin> set (dropped xs)) xs"

lemma dropped_iff:
  "distinct xs \<Longrightarrow> x \<in> set (dropped xs) \<longleftrightarrow> x \<in> set xs \<and> retired cls exempt flagged limit (takeWhile (\<lambda>y. y \<noteq> x) xs) x"
  by (simp add: dropped_law drop_from_mem)

lemma keep_from_bound:
  assumes "0 < limit c"
  shows "int (length (filter (\<lambda>y. \<not> exempt y \<and> cls y = c) (keep_from (retired cls exempt flagged limit) newer xs))) \<le>
    max 0 (limit c - int (length (filter (\<lambda>y. \<not> exempt y \<and> cls y = c) newer))) +
    (if \<exists>y \<in> set newer. \<not> exempt y \<and> cls y = c \<and> \<not> flagged y then 0 else 1)"
proof (induction xs arbitrary: newer)
  case (Cons x xs)
  from Cons [of "newer @ [x]"] assms show ?case
    by (auto simp: retired_def Let_def split: if_splits)
qed simp

lemma kept_bound:
  assumes "distinct xs" and "0 < limit c"
  shows "int (length (filter (\<lambda>y. \<not> exempt y \<and> cls y = c) (kept xs))) \<le> limit c + 1"
  using keep_from_bound [OF assms(2), of "[]" xs] assms by (simp add: keep_from_filter dropped_law)

lemma kept_last_good:
  assumes "distinct xs" and "x \<in> set xs" and "\<not> exempt x" "\<not> flagged x" "cls x \<noteq> ClassSnapshot"
  shows "\<exists>y \<in> set (kept xs). \<not> exempt y \<and> \<not> flagged y \<and> cls y = cls x"
proof -
  let ?P = "\<lambda>y. \<not> exempt y \<and> \<not> flagged y \<and> cls y = cls x"
  from assms obtain ys y zs where xs: "xs = ys @ y # zs" "?P y" "\<forall>z \<in> set ys. \<not> ?P z"
    using split_list_first_prop [of xs ?P] by blast
  with assms(1) have "takeWhile (\<lambda>z. z \<noteq> y) xs = ys" by (auto simp: takeWhile_append)
  with xs assms(5) have "\<not> retired cls exempt flagged limit (takeWhile (\<lambda>z. z \<noteq> y) xs) y"
    by (auto simp: retired_def Let_def)
  with dropped_iff [OF assms(1)] xs show ?thesis by auto
qed

lemma retired_mono:
  assumes "retired cls exempt flagged limit (filter P newer) x"
  shows "retired cls exempt flagged limit newer x"
proof -
  let ?peer = "\<lambda>y. \<not> exempt y \<and> cls y = cls x"
  have "filter ?peer (filter P newer) = filter P (filter ?peer newer)" by (simp add: conj_commute)
  then have "length (filter ?peer (filter P newer)) \<le> length (filter ?peer newer)" by (metis length_filter_le)
  with assms show ?thesis by (auto simp: retired_def Let_def)
qed

lemma kept_stable:
  assumes "distinct xs"
  shows "dropped (kept xs) = []"
proof (rule ccontr)
  assume "dropped (kept xs) \<noteq> []"
  then obtain x where x: "x \<in> set (dropped (kept xs))" by (cases "dropped (kept xs)") auto
  have "distinct (kept xs)" using assms by simp
  from x [unfolded dropped_iff [OF this]] have "x \<in> set (kept xs)"
    "retired cls exempt flagged limit (takeWhile (\<lambda>y. y \<noteq> x) (kept xs)) x" by blast+
  moreover from this have "takeWhile (\<lambda>y. y \<noteq> x) (kept xs) = filter (\<lambda>x. x \<notin> set (dropped xs)) (takeWhile (\<lambda>y. y \<noteq> x) xs)"
    by (intro takeWhile_filter) simp
  ultimately have "retired cls exempt flagged limit (takeWhile (\<lambda>y. y \<noteq> x) xs) x" "x \<in> set xs" "x \<notin> set (dropped xs)"
    by (auto dest: retired_mono)
  with dropped_iff [OF assms] show False by blast
qed

lemma keep_from_enough:
  "min (limit c) (int (length (filter (\<lambda>y. \<not> exempt y \<and> cls y = c) ys))) \<le>
     int (length (filter (\<lambda>y. \<not> exempt y \<and> cls y = c) (keep_from (retired cls exempt flagged limit) [] ys)))"
proof (induction ys rule: rev_induct)
  case (snoc y ys)
  then show ?case by (auto simp: keep_from_append retired_def Let_def)
qed simp

lemma keep_from_good:
  assumes "x \<in> set ys" "\<not> exempt x" "\<not> flagged x" "cls x \<noteq> ClassSnapshot"
  shows "\<exists>y \<in> set (keep_from (retired cls exempt flagged limit) [] ys). \<not> exempt y \<and> \<not> flagged y \<and> cls y = cls x"
proof -
  let ?P = "\<lambda>y. \<not> exempt y \<and> \<not> flagged y \<and> cls y = cls x"
  from assms obtain as y bs where ys: "ys = as @ y # bs" "?P y" "\<forall>z \<in> set as. \<not> ?P z"
    using split_list_first_prop [of ys ?P] by blast
  then have "\<not> retired cls exempt flagged limit as y" using assms(4) by (auto simp: retired_def Let_def)
  with ys have "y \<in> set (keep_from (retired cls exempt flagged limit) [] ys)" by (simp add: keep_from_append)
  with ys(2) show ?thesis by blast
qed

text \<open>The items that are not dropped decide as well as all of them whether an older item would be.\<close>

lemma retired_keep_from:
  "retired cls exempt flagged limit (keep_from (retired cls exempt flagged limit) [] ys) x \<longleftrightarrow>
   retired cls exempt flagged limit ys x"
proof
  let ?K = "keep_from (retired cls exempt flagged limit) [] ys"
  show "retired cls exempt flagged limit ys x" if r: "retired cls exempt flagged limit ?K x"
  proof -
    have "length (filter (\<lambda>y. \<not> exempt y \<and> cls y = cls x) ?K) \<le> length (filter (\<lambda>y. \<not> exempt y \<and> cls y = cls x) ys)"
      by (rule keep_from_length)
    moreover have "set ?K \<subseteq> set ys" by (rule keep_from_subset)
    ultimately show ?thesis using r by (auto simp: retired_def Let_def)
  qed
  show "retired cls exempt flagged limit ?K x" if r: "retired cls exempt flagged limit ys x"
  proof -
    have "limit (cls x) \<le> int (length (filter (\<lambda>y. \<not> exempt y \<and> cls y = cls x) ?K))"
      using r keep_from_enough [of "cls x" ys] by (auto simp: retired_def Let_def)
    moreover have "cls x = ClassSnapshot \<or> flagged x \<or> (\<exists>y \<in> set ?K. \<not> exempt y \<and> cls y = cls x \<and> \<not> flagged y)"
      using r keep_from_good [of _ ys] by (fastforce simp: retired_def Let_def)
    ultimately show ?thesis using r by (auto simp: retired_def Let_def)
  qed
qed

end

subsection \<open>The host's walk follows the rule\<close>

lemma entry_class_snapshot: "entry_class a = ClassSnapshot \<longleftrightarrow> en_Snapshot a"
  by (simp add: entry_class_def)

abbreviation peers :: "retentionClass \<Rightarrow> Entry list \<Rightarrow> Entry list" where
  "peers c newer \<equiv> filter (\<lambda>y. \<not> en_Pinned y \<and> entry_class y = c) newer"

definition counts_ok :: "Policy \<Rightarrow> Entry list \<Rightarrow> (retentionClass \<Rightarrow> classCount) \<Rightarrow> bool" where
  "counts_ok policy newer st \<longleftrightarrow>
     (\<forall>c. cc_kept (st c) = max 0 (min (policy_limit policy c) (int (length (peers c newer)))) \<and>
          (cc_sawUnflagged (st c) \<longleftrightarrow> c \<noteq> ClassSnapshot \<and> (\<exists>y \<in> set (peers c newer). \<not> en_Flagged y)))"

lemma counts_okD:
  assumes "counts_ok policy newer st"
  shows "cc_kept (st c) = max 0 (min (policy_limit policy c) (int (length (peers c newer))))"
    and "cc_sawUnflagged (st c) \<longleftrightarrow> c \<noteq> ClassSnapshot \<and> (\<exists>y \<in> set (peers c newer). \<not> en_Flagged y)"
  using assms unfolding counts_ok_def by blast+

lemma counts_ok_step:
  assumes ok: "counts_ok policy newer st" and "\<not> en_Pinned a" and other: "\<And>c. c \<noteq> entry_class a \<Longrightarrow> st' c = st c"
    and k: "cc_kept (st' (entry_class a)) =
      (let L = policy_limit policy (entry_class a); k = cc_kept (st (entry_class a)) in if 0 < L \<and> k < L then k + 1 else k)"
    and s: "cc_sawUnflagged (st' (entry_class a)) \<longleftrightarrow>
      cc_sawUnflagged (st (entry_class a)) \<or> \<not> en_Snapshot a \<and> \<not> en_Flagged a"
  shows "counts_ok policy (newer @ [a]) st'"
  unfolding counts_ok_def
proof
  fix c
  show "cc_kept (st' c) = max 0 (min (policy_limit policy c) (int (length (peers c (newer @ [a]))))) \<and>
    (cc_sawUnflagged (st' c) \<longleftrightarrow> c \<noteq> ClassSnapshot \<and> (\<exists>y \<in> set (peers c (newer @ [a])). \<not> en_Flagged y))"
  proof (cases "c = entry_class a")
    case True
    have "cc_kept (st' c) = max 0 (min (policy_limit policy c) (int (length (peers c newer)) + 1))"
      unfolding True k counts_okD(1) [OF ok] Let_def by (auto simp: max_def min_def)
    moreover have "cc_sawUnflagged (st' c) \<longleftrightarrow> c \<noteq> ClassSnapshot \<and> ((\<exists>y \<in> set (peers c newer). \<not> en_Flagged y) \<or> \<not> en_Flagged a)"
      unfolding True s counts_okD(2) [OF ok] by (auto simp: entry_class_snapshot)
    ultimately show ?thesis using True assms(2) by auto
  next
    case False
    with counts_okD [OF ok, of c] other show ?thesis by simp
  qed
qed

lemma prune_loop_spec:
  "counts_ok policy newer st \<Longrightarrow>
     prune_loop policy st as = drop_from (retired entry_class en_Pinned en_Flagged (policy_limit policy)) newer as"
proof (induction as arbitrary: newer st)
  case (Cons a as)
  let ?c = "entry_class a" and ?R = "retired entry_class en_Pinned en_Flagged (policy_limit policy)"
  show ?case
  proof (cases "en_Pinned a")
    case True
    then have "counts_ok policy (newer @ [a]) st" using Cons.prems by (simp add: counts_ok_def)
    with Cons.IH True show ?thesis by (simp add: retired_def)
  next
    case False
    let ?good = "\<not> en_Snapshot a \<and> \<not> en_Flagged a \<and> \<not> cc_sawUnflagged (st ?c)"
    let ?st1 = "if ?good then st(?c := (st ?c)\<lparr>cc_sawUnflagged := True\<rparr>) else st"
    let ?st2 = "if 0 < policy_limit policy ?c \<and> cc_kept (?st1 ?c) < policy_limit policy ?c
                then ?st1(?c := (?st1 ?c)\<lparr>cc_kept := cc_kept (?st1 ?c) + 1\<rparr>) else ?st1"
    have ok: "counts_ok policy (newer @ [a]) ?st2"
      by (rule counts_ok_step [OF Cons.prems False]) (auto simp: Let_def)
    have full: "\<not> cc_kept (st ?c) < policy_limit policy ?c \<longleftrightarrow> policy_limit policy ?c \<le> int (length (peers ?c newer))"
      if "0 < policy_limit policy ?c" using that counts_okD(1) [OF Cons.prems, of ?c] by auto
    have good: "\<not> ?good \<longleftrightarrow> ?c = ClassSnapshot \<or> en_Flagged a \<or> (\<exists>y \<in> set (peers ?c newer). \<not> en_Flagged y)"
      unfolding counts_okD(2) [OF Cons.prems] by (auto simp: entry_class_snapshot)
    have "?R newer a \<longleftrightarrow> 0 < policy_limit policy ?c \<and> \<not> cc_kept (st ?c) < policy_limit policy ?c \<and> \<not> ?good"
      unfolding good using full False by (auto simp: retired_def Let_def)
    moreover have "prune_loop policy st (a # as) =
        (if 0 < policy_limit policy ?c \<and> \<not> cc_kept (st ?c) < policy_limit policy ?c \<and> \<not> ?good then [a] else []) @
        prune_loop policy ?st2 as"
      using False by (cases ?good; cases "0 < policy_limit policy ?c"; cases "cc_kept (st ?c) < policy_limit policy ?c")
        (simp_all add: Let_def)
    ultimately show ?thesis using Cons.IH [OF ok] by simp
  qed
qed simp

interpretation lp: retention entry_class en_Pinned en_Flagged "policy_limit policy" "\<lambda>xs. Prune xs policy" for policy
  by unfold_locales (simp add: Prune_def, rule prune_loop_spec, simp add: counts_ok_def)

text \<open>C36. Host retention keeps exactly what it promises. Over a catalogue listed newest first, \<open>Prune\<close> dooms an
  archive if and only if it is not pinned, its class has a positive limit, at least that many newer
  unpinned archives of its class exist, and it is not the newest unflagged archive of its class (cold or
  hot; snapshots have no such guarantee). So of each limited class at most one archive more than the limit
  survives, a cold or hot class that has an unflagged archive keeps one, and pruning what survived dooms
  nothing more.\<close>

theorem Prune_contract:
  assumes "distinct archives"
  shows "(\<forall>x. x \<in> set (Prune archives policy) \<longleftrightarrow> x \<in> set archives \<and>
       retired entry_class en_Pinned en_Flagged (policy_limit policy) (takeWhile (\<lambda>y. y \<noteq> x) archives) x) \<and>
     (\<forall>c. 0 < policy_limit policy c \<longrightarrow>
       int (length (filter (\<lambda>a. \<not> en_Pinned a \<and> entry_class a = c) (filter (\<lambda>a. a \<notin> set (Prune archives policy)) archives))) \<le>
       policy_limit policy c + 1) \<and>
     (\<forall>x \<in> set archives. \<not> en_Pinned x \<and> \<not> en_Flagged x \<and> \<not> en_Snapshot x \<longrightarrow>
       (\<exists>a \<in> set archives. a \<notin> set (Prune archives policy) \<and> \<not> en_Pinned a \<and> \<not> en_Flagged a \<and> entry_class a = entry_class x)) \<and>
     Prune (filter (\<lambda>a. a \<notin> set (Prune archives policy)) archives) policy = []"
proof (intro conjI allI ballI impI)
  show "x \<in> set (Prune archives policy) \<longleftrightarrow> x \<in> set archives \<and>
      retired entry_class en_Pinned en_Flagged (policy_limit policy) (takeWhile (\<lambda>y. y \<noteq> x) archives) x" for x
    by (rule lp.dropped_iff [OF assms])
  show "int (length (filter (\<lambda>a. \<not> en_Pinned a \<and> entry_class a = c) (filter (\<lambda>a. a \<notin> set (Prune archives policy)) archives))) \<le>
      policy_limit policy c + 1" if "0 < policy_limit policy c" for c
    by (rule lp.kept_bound [OF assms that])
  show "\<exists>a \<in> set archives. a \<notin> set (Prune archives policy) \<and> \<not> en_Pinned a \<and> \<not> en_Flagged a \<and> entry_class a = entry_class x"
    if "x \<in> set archives" "\<not> en_Pinned x \<and> \<not> en_Flagged x \<and> \<not> en_Snapshot x" for x
    using lp.kept_last_good [OF assms, of x policy] that by (auto simp: entry_class_snapshot)
  show "Prune (filter (\<lambda>a. a \<notin> set (Prune archives policy)) archives) policy = []"
    by (rule lp.kept_stable [OF assms])
qed

text \<open>Five cold archives, newest first, the two newest flagged and one pinned, with two to keep.\<close>

definition ex_archive :: "string \<Rightarrow> bool \<Rightarrow> bool \<Rightarrow> Entry" where
  "ex_archive i pinned flagged = \<lparr>en_ID = i, en_Path = i, en_Consistent = True, en_Snapshot = False, en_Pinned = pinned, en_Flagged = flagged\<rparr>"

definition ex_archives :: "Entry list" where
  "ex_archives = [ex_archive ''e'' False True, ex_archive ''d'' False True, ex_archive ''c'' True False,
     ex_archive ''b'' False False, ex_archive ''a'' False False]"

theorem Prune_contract_witness:
  "Prune ex_archives \<lparr>KeepCold = 2, KeepHot = 0\<rparr> = [ex_archive ''a'' False False] \<and>
   Prune (filter (\<lambda>a. a \<notin> set (Prune ex_archives \<lparr>KeepCold = 2, KeepHot = 0\<rparr>)) ex_archives) \<lparr>KeepCold = 2, KeepHot = 0\<rparr> = []"
proof -
  have "distinct ex_archives" by (simp add: ex_archives_def ex_archive_def)
  moreover have "Prune ex_archives \<lparr>KeepCold = 2, KeepHot = 0\<rparr> = [ex_archive ''a'' False False]" by code_simp
  ultimately show ?thesis using Prune_contract [of ex_archives "\<lparr>KeepCold = 2, KeepHot = 0\<rparr>"] by blast
qed

subsection \<open>The destination's walk follows the rule\<close>

fun mark_from :: "(RemoteCopy list \<Rightarrow> RemoteCopy \<Rightarrow> bool) \<Rightarrow> RemoteCopy list \<Rightarrow> RemoteCopy list \<Rightarrow> RemoteCopy list" where
  "mark_from R newer [] = []"
| "mark_from R newer (c # cs) = c\<lparr>rc_CleanupPending := R newer c\<rparr> # mark_from R (newer @ [c]) cs"

lemma mark_from_append: "mark_from R newer (xs @ ys) = mark_from R newer xs @ mark_from R (newer @ xs) ys"
  by (induction xs arbitrary: newer) auto

lemma mark_from_length [simp]: "length (mark_from R newer xs) = length xs"
  by (induction xs arbitrary: newer) auto

lemma set_pending: "rc_CleanupPending c = v \<Longrightarrow> c\<lparr>rc_CleanupPending := v\<rparr> = c"
  by (cases c) simp

lemma marked_fixpoint: "mark_from R newer xs = xs \<Longrightarrow> filter (\<lambda>c. \<not> rc_CleanupPending c) xs = keep_from R newer xs"
proof (induction xs arbitrary: newer)
  case (Cons c cs)
  then have "c\<lparr>rc_CleanupPending := R newer c\<rparr> = c" "mark_from R (newer @ [c]) cs = cs" by simp_all
  moreover from this(1) have "rc_CleanupPending c = R newer c" by (metis RemoteCopy.select_convs(6) RemoteCopy.surjective RemoteCopy.update_convs(6))
  ultimately show ?case using Cons.IH by simp
qed simp

abbreviation copy_retired :: "remote_policy \<Rightarrow> RemoteCopy list \<Rightarrow> RemoteCopy \<Rightarrow> bool" where
  "copy_retired inst \<equiv> retired copy_class (\<lambda>_. False) rc_WorldFlagged (keepLimit inst)"

definition tallies_ok :: "RemoteCopy list \<Rightarrow> (retentionClass \<Rightarrow> int) \<Rightarrow> (retentionClass \<Rightarrow> bool) \<Rightarrow> bool" where
  "tallies_ok newer counts saw \<longleftrightarrow>
     (\<forall>c. counts c = int (length (filter (\<lambda>y. copy_class y = c) newer)) \<and>
          (saw c \<longleftrightarrow> c \<noteq> ClassSnapshot \<and> (\<exists>y \<in> set newer. copy_class y = c \<and> \<not> rc_WorldFlagged y)))"

lemma mark_loop_spec: "tallies_ok newer counts saw \<Longrightarrow> mark_loop inst counts saw cs = mark_from (copy_retired inst) newer cs"
proof (induction cs arbitrary: newer counts saw)
  case (Cons c cs)
  let ?k = "copy_class c"
  let ?good = "?k \<noteq> ClassSnapshot \<and> \<not> rc_WorldFlagged c \<and> \<not> saw ?k"
  have "tallies_ok (newer @ [c]) (counts(?k := counts ?k + 1)) (if ?good then saw(?k := True) else saw)"
    using Cons.prems by (auto simp: tallies_ok_def)
  note IH = Cons.IH [OF this]
  have "copy_retired inst newer c \<longleftrightarrow> 0 < keepLimit inst ?k \<and> counts ?k + 1 > keepLimit inst ?k \<and> \<not> ?good"
    using Cons.prems by (auto simp: tallies_ok_def retired_def Let_def)
  moreover have "mark_loop inst counts saw (c # cs) =
      c\<lparr>rc_CleanupPending := 0 < keepLimit inst ?k \<and> counts ?k + 1 > keepLimit inst ?k \<and> \<not> ?good\<rparr> #
      mark_loop inst (counts(?k := counts ?k + 1)) (if ?good then saw(?k := True) else saw) cs"
    using set_pending [of c False] by (simp only: mark_loop.simps Let_def fun_upd_same) simp
  ultimately show ?case by (simp only: IH mark_from.simps)
qed simp

lemma markInstanceRetention_spec: "markInstanceRetention inst copies = mark_from (copy_retired inst) [] copies"
  unfolding markInstanceRetention_def by (rule mark_loop_spec) (simp add: tallies_ok_def)

text \<open>The copies the walk marks, as it found them.\<close>

definition marked :: "remote_policy \<Rightarrow> RemoteCopy list \<Rightarrow> RemoteCopy list" where
  "marked inst copies = map fst (filter (\<lambda>p. rc_CleanupPending (snd p)) (zip copies (markInstanceRetention inst copies)))"

lemma marked_from: "map fst (filter (\<lambda>p. rc_CleanupPending (snd p)) (zip xs (mark_from R newer xs))) = drop_from R newer xs"
  by (induction xs arbitrary: newer) auto

interpretation rm: retention copy_class "\<lambda>_. False" rc_WorldFlagged "keepLimit inst" "marked inst" for inst
  by unfold_locales (simp add: marked_def markInstanceRetention_spec marked_from)

lemma newest_first_split:
  "sorted_wrt (\<lambda>x y. rc_ArchiveCreatedAt x > rc_ArchiveCreatedAt y) xs \<Longrightarrow>
     xs = filter (\<lambda>c. rc_ArchiveCreatedAt c > t) xs @ filter (\<lambda>c. \<not> rc_ArchiveCreatedAt c > t) xs"
proof (induction xs)
  case (Cons c cs)
  show ?case
  proof (cases "rc_ArchiveCreatedAt c > t")
    case True
    with Cons show ?thesis by simp
  next
    case False
    with Cons.prems have "\<forall>d \<in> set cs. \<not> rc_ArchiveCreatedAt d > t" by auto
    then have "filter (\<lambda>c. rc_ArchiveCreatedAt c > t) cs = []" "filter (\<lambda>c. \<not> rc_ArchiveCreatedAt c > t) cs = cs"
      by (auto simp: filter_empty_conv filter_id_conv)
    with False show ?thesis by simp
  qed
qed simp

text \<open>The copy an upload of \<open>b\<close> records.\<close>

definition copy_of :: "string \<Rightarrow> Backup_row \<Rightarrow> RemoteCopy" where
  "copy_of i b = \<lparr>rc_ID = i, rc_BackupID = bk_ID b, rc_Trigger = bk_Trigger b, rc_Consistent = bk_Consistent b,
     rc_WorldFlagged = (bk_WorldAttention b \<noteq> []), rc_CleanupPending = False, rc_ArchiveCreatedAt = bk_CreatedAt b\<rparr>"

lemma PrunedOnArrival_retired:
  "PrunedOnArrival inst copies b \<longleftrightarrow>
     copy_retired inst (filter (\<lambda>c. rc_BackupID c \<noteq> bk_ID b \<and> \<not> rc_CleanupPending c \<and> rc_ArchiveCreatedAt c > bk_CreatedAt b) copies)
       (copy_of i b)"
proof -
  have "filter (\<lambda>y. copy_class y = k) (filter P copies) = filter (\<lambda>y. P y \<and> copy_class y = k) copies" for k P
    by simp
  then show ?thesis
    by (auto simp: PrunedOnArrival_def retired_def Let_def copy_of_def filter_empty_conv conj_ac)
qed

text \<open>The early answer about an upload is the one retention will give. With the destination's marks up to
  date and its copies listed newest first, \<open>PrunedOnArrival\<close> says that a copy of an archive not yet there
  would be removed exactly when the retention walk, run with that copy in its place among the others,
  marks it for cleanup -- although the early answer looks only at copies not already marked.\<close>

lemma PrunedOnArrival_agrees:
  assumes "sorted_wrt (\<lambda>x y. rc_ArchiveCreatedAt x > rc_ArchiveCreatedAt y) copies"
    and "markInstanceRetention inst copies = copies"
    and "\<forall>c \<in> set copies. rc_BackupID c \<noteq> bk_ID b"
    and "newer = filter (\<lambda>c. rc_ArchiveCreatedAt c > bk_CreatedAt b) copies"
    and "older = filter (\<lambda>c. \<not> rc_ArchiveCreatedAt c > bk_CreatedAt b) copies"
  shows "PrunedOnArrival inst copies b \<longleftrightarrow>
     rc_CleanupPending (markInstanceRetention inst (newer @ copy_of i b # older) ! length newer)"
proof -
  have split: "copies = newer @ older" unfolding assms(4,5) by (rule newest_first_split [OF assms(1)])
  have "mark_from (copy_retired inst) [] newer @ mark_from (copy_retired inst) newer older = newer @ older"
    using assms(2) unfolding markInstanceRetention_spec split mark_from_append by simp
  then have "mark_from (copy_retired inst) [] newer = newer" by (simp add: append_eq_append_conv)
  note kept = marked_fixpoint [OF this]
  have "filter (\<lambda>c. rc_BackupID c \<noteq> bk_ID b \<and> \<not> rc_CleanupPending c \<and> rc_ArchiveCreatedAt c > bk_CreatedAt b) copies =
      filter (\<lambda>c. \<not> rc_CleanupPending c) newer"
    unfolding assms(4) filter_filter by (rule filter_cong) (use assms(3) in auto)
  then have "PrunedOnArrival inst copies b \<longleftrightarrow> copy_retired inst newer (copy_of i b)"
    unfolding PrunedOnArrival_retired [of inst copies b i] kept by (simp only: rm.retired_keep_from)
  moreover have "markInstanceRetention inst (newer @ copy_of i b # older) ! length newer =
      (copy_of i b)\<lparr>rc_CleanupPending := copy_retired inst newer (copy_of i b)\<rparr>"
    unfolding markInstanceRetention_spec mark_from_append by (simp add: nth_append)
  ultimately show ?thesis by simp
qed

definition ex_copy :: "string \<Rightarrow> int \<Rightarrow> bool \<Rightarrow> bool \<Rightarrow> RemoteCopy" where
  "ex_copy i t flagged pending = \<lparr>rc_ID = i, rc_BackupID = i, rc_Trigger = ''manual'', rc_Consistent = True,
     rc_WorldFlagged = flagged, rc_CleanupPending = pending, rc_ArchiveCreatedAt = t\<rparr>"

definition ex_copies :: "RemoteCopy list" where
  "ex_copies = [ex_copy ''d'' 9 False False, ex_copy ''c'' 7 True True]"

definition ex_backup :: Backup_row where
  "ex_backup = \<lparr>bk_ID = ''b'', bk_Path = ''b.zip'', bk_Trigger = ''manual'', bk_Consistent = True, bk_CreatedAt = 5, bk_WorldAttention = []\<rparr>"

definition ex_remote :: remote_policy where
  "ex_remote = \<lparr>RemoteKeepCold = 1, RemoteKeepHot = 1, RemoteKeepSnapshots = 1\<rparr>"

lemma PrunedOnArrival_agrees_example:
  "PrunedOnArrival ex_remote ex_copies ex_backup \<and>
   rc_CleanupPending (markInstanceRetention ex_remote (ex_copies @ [copy_of ''n'' ex_backup]) ! 2)"
proof -
  have "PrunedOnArrival ex_remote ex_copies ex_backup \<longleftrightarrow>
      rc_CleanupPending (markInstanceRetention ex_remote (ex_copies @ copy_of ''n'' ex_backup # []) ! length ex_copies)"
  proof (rule PrunedOnArrival_agrees)
    show "sorted_wrt (\<lambda>x y. rc_ArchiveCreatedAt x > rc_ArchiveCreatedAt y) ex_copies" by (simp add: ex_copies_def ex_copy_def)
    show "markInstanceRetention ex_remote ex_copies = ex_copies" by code_simp
    show "\<forall>c \<in> set ex_copies. rc_BackupID c \<noteq> bk_ID ex_backup" by (simp add: ex_copies_def ex_copy_def ex_backup_def)
    show "ex_copies = filter (\<lambda>c. rc_ArchiveCreatedAt c > bk_CreatedAt ex_backup) ex_copies"
      by (simp add: ex_copies_def ex_copy_def ex_backup_def)
    show "[] = filter (\<lambda>c. \<not> rc_ArchiveCreatedAt c > bk_CreatedAt ex_backup) ex_copies"
      by (simp add: ex_copies_def ex_copy_def ex_backup_def)
  qed
  moreover have "PrunedOnArrival ex_remote ex_copies ex_backup" by code_simp
  moreover have "length ex_copies = 2" by (simp add: ex_copies_def)
  ultimately show ?thesis by metis
qed

end
