(* ===== verification/World_Swap.thy ===== *)
theory World_Swap
  imports Go_Prelude
begin

text \<open>
  Publishing a staged world or server tree (\<open>internal/backup/restore.go\<close>: \<open>MarkStaged\<close>, \<open>DiscardStaged\<close>,
  \<open>SwapKeeping\<close>, \<open>carryOver\<close>, \<open>RecoverSwapKeeping\<close>, \<open>publishStaged\<close>, \<open>discardUnfinishedStaging\<close>), which
  restores, clones, imports and game updates all use. The state is the three sibling directories, each a
  map from the names of its top-level entries to their contents, and the completion marker. Every rename
  and removal is one step; a directory removal may be caught part-way. A rename the operating system
  refuses for its own reasons is outside the model. A nil \<open>keep\<close> is the predicate that selects nothing.
\<close>

subsection \<open>Operations\<close>

type_synonym dir = "string \<rightharpoonup> string"

record swap_dirs =
  Live :: "dir option"
  Old :: "dir option"
  Staged :: "dir option"
  Complete :: bool

datatype swap_error = SetAsideFailed | PublishFailed | PutBackFailed

definition MarkStaged :: "swap_dirs \<Rightarrow> swap_dirs" where
  "MarkStaged s = s\<lparr>Complete := True\<rparr>"

definition DiscardStaged :: "swap_dirs \<Rightarrow> swap_dirs" where
  "DiscardStaged s = s\<lparr>Complete := False, Staged := None\<rparr>"

text \<open>\<open>carryOver\<close>: the selected entries of the superseded tree the live one lacks move over.\<close>

definition carried :: "(string \<Rightarrow> bool) \<Rightarrow> dir \<Rightarrow> dir \<Rightarrow> string set" where
  "carried keep superseded live = {e. superseded e \<noteq> None \<and> keep e \<and> live e = None}"

definition carry :: "string set \<Rightarrow> dir \<Rightarrow> dir \<Rightarrow> dir" where
  "carry K superseded live = (\<lambda>e. if e \<in> K then superseded e else live e)"

definition carryOver :: "(string \<Rightarrow> bool) \<Rightarrow> swap_dirs \<Rightarrow> swap_dirs" where
  "carryOver keep s =
     (case (Old s, Live s) of
        (Some o', Some l) \<Rightarrow>
          s\<lparr>Live := Some (carry (carried keep o' l) o' l), Old := Some (o' |` (- carried keep o' l))\<rparr>
      | _ \<Rightarrow> s)"

text \<open>A rename onto a directory that has entries is refused.\<close>

definition set_aside :: "swap_dirs \<Rightarrow> swap_error + swap_dirs" where
  "set_aside s =
     (case Live s of
        None \<Rightarrow> Inr s
      | Some l \<Rightarrow>
          (if Old s \<noteq> None \<and> Old s \<noteq> Some Map.empty then Inl SetAsideFailed
           else Inr (s\<lparr>Live := None, Old := Some l\<rparr>)))"

definition publish :: "swap_dirs \<Rightarrow> swap_error + swap_dirs" where
  "publish s =
     (case Staged s of None \<Rightarrow> Inl PublishFailed | Some n \<Rightarrow> Inr (s\<lparr>Live := Some n, Staged := None\<rparr>))"

text \<open>What follows the second rename: the marker goes, the selected entries move, the rest is removed.\<close>

definition settle_published :: "(string \<Rightarrow> bool) \<Rightarrow> swap_dirs \<Rightarrow> swap_dirs" where
  "settle_published keep s = (carryOver keep (s\<lparr>Complete := False\<rparr>))\<lparr>Old := None\<rparr>"

definition SwapKeeping :: "(string \<Rightarrow> bool) \<Rightarrow> swap_dirs \<Rightarrow> swap_error + swap_dirs" where
  "SwapKeeping keep s = rbind (set_aside s) (\<lambda>s1. rbind (publish s1) (\<lambda>s2. Inr (settle_published keep s2)))"

definition put_back :: "swap_dirs \<Rightarrow> swap_error + swap_dirs" where
  "put_back s = (case Old s of None \<Rightarrow> Inl PutBackFailed | Some o' \<Rightarrow> Inr (s\<lparr>Live := Some o', Old := None\<rparr>))"

datatype swap_action =
    NoSwap | AlreadySwapped | NotStarted | BetweenRenames | NeverFinished | NeverFinishedPutBack | LostStaged

definition publishStaged :: "(string \<Rightarrow> bool) \<Rightarrow> swap_dirs \<Rightarrow> swap_error + (swap_action \<times> swap_dirs)" where
  "publishStaged keep s = rbind (publish s) (\<lambda>s1. Inr (BetweenRenames, settle_published keep s1))"

definition discardUnfinishedStaging :: "swap_dirs \<Rightarrow> swap_error + (swap_action \<times> swap_dirs)" where
  "discardUnfinishedStaging s =
     (let s1 = DiscardStaged s
      in if Old s1 = None then Inr (NeverFinished, s1)
         else rbind (put_back s1) (\<lambda>s2. Inr (NeverFinishedPutBack, s2)))"

definition RecoverSwapKeeping :: "(string \<Rightarrow> bool) \<Rightarrow> swap_dirs \<Rightarrow> swap_error + (swap_action \<times> swap_dirs)" where
  "RecoverSwapKeeping keep s =
     (if Old s = None \<and> Staged s = None then Inr (NoSwap, DiscardStaged s)
      else if Live s \<noteq> None \<and> Old s \<noteq> None then Inr (AlreadySwapped, (carryOver keep s)\<lparr>Old := None\<rparr>)
      else if Live s \<noteq> None then Inr (NotStarted, DiscardStaged s)
      else if Staged s \<noteq> None \<and> Complete s then publishStaged keep s
      else if Staged s \<noteq> None then discardUnfinishedStaging s
      else rbind (put_back s) (\<lambda>s1. Inr (LostStaged, s1)))"

subsection \<open>Interruptions\<close>

text \<open>Caught after the second rename: the marker may or may not be gone, some of the selected entries
  may have moved, or all of them and some of the rest been removed.\<close>

inductive settling :: "(string \<Rightarrow> bool) \<Rightarrow> swap_dirs \<Rightarrow> swap_dirs \<Rightarrow> bool" for keep s where
  marker: "settling keep s (s\<lparr>Complete := b\<rparr>)"
| carrying: "Old s = Some o' \<Longrightarrow> Live s = Some l \<Longrightarrow> K \<subseteq> carried keep o' l \<Longrightarrow>
    settling keep s (s\<lparr>Complete := b, Live := Some (carry K o' l), Old := Some (o' |` (- K))\<rparr>)"
| removing: "Old s = Some o' \<Longrightarrow> Live s = Some l \<Longrightarrow> gone \<subseteq>\<^sub>m o' |` (- carried keep o' l) \<Longrightarrow>
    settling keep s (s\<lparr>Complete := b, Live := Some (carry (carried keep o' l) o' l), Old := Some gone\<rparr>)"
| removed: "settling keep s ((carryOver keep s)\<lparr>Complete := b, Old := None\<rparr>)"

text \<open>A restore, clone, import or update of the tree \<open>n\<close>, from clearing an earlier staging to the end of the
  swap.\<close>

inductive swap_stopped :: "(string \<Rightarrow> bool) \<Rightarrow> dir \<Rightarrow> swap_dirs \<Rightarrow> swap_dirs \<Rightarrow> bool" for keep n s where
  untouched: "swap_stopped keep n s s"
| staging: "swap_stopped keep n s (s\<lparr>Complete := False, Staged := part\<rparr>)"
| marked: "swap_stopped keep n s (s\<lparr>Staged := Some n, Complete := True\<rparr>)"
| aside: "set_aside (s\<lparr>Staged := Some n, Complete := True\<rparr>) = Inr s' \<Longrightarrow> swap_stopped keep n s s'"
| published: "set_aside (s\<lparr>Staged := Some n, Complete := True\<rparr>) = Inr s1 \<Longrightarrow> publish s1 = Inr s2 \<Longrightarrow>
    settling keep s2 s' \<Longrightarrow> swap_stopped keep n s s'"

inductive recover_stopped :: "(string \<Rightarrow> bool) \<Rightarrow> swap_dirs \<Rightarrow> swap_dirs \<Rightarrow> bool" for keep s where
  nothing: "recover_stopped keep s s"
| swapped: "Live s \<noteq> None \<Longrightarrow> Old s \<noteq> None \<Longrightarrow> settling keep s s' \<Longrightarrow> recover_stopped keep s s'"
| discarding: "Old s = None \<Longrightarrow> Live s \<noteq> None \<or> Staged s = None \<or> \<not> Complete s \<Longrightarrow> part = None \<or> Staged s \<noteq> None \<Longrightarrow>
    recover_stopped keep s (s\<lparr>Complete := False, Staged := part\<rparr>)"
| unfinished: "Live s = None \<Longrightarrow> Staged s \<noteq> None \<Longrightarrow> \<not> Complete s \<Longrightarrow>
    recover_stopped keep s (s\<lparr>Complete := False, Staged := part\<rparr>)"
| finished: "RecoverSwapKeeping keep s = Inr (a, s') \<Longrightarrow> recover_stopped keep s s'"
| publishing: "Live s = None \<Longrightarrow> Complete s \<Longrightarrow> publish s = Inr s1 \<Longrightarrow> settling keep s1 s' \<Longrightarrow> recover_stopped keep s s'"

subsection \<open>What an interrupted swap can look like\<close>

text \<open>The tree a completed swap publishes.\<close>

definition new_tree :: "(string \<Rightarrow> bool) \<Rightarrow> dir option \<Rightarrow> dir \<Rightarrow> dir" where
  "new_tree keep before n = (case before of None \<Rightarrow> n | Some l \<Rightarrow> carry (carried keep l n) l n)"

text \<open>Before the swap; between the renames; entries moving; the superseded tree going; done.\<close>

inductive swap_shape :: "(string \<Rightarrow> bool) \<Rightarrow> dir option \<Rightarrow> dir \<Rightarrow> swap_dirs \<Rightarrow> bool" for keep before n where
  not_swapped: "Live s = before \<Longrightarrow> Old s = None \<Longrightarrow> before \<noteq> None \<or> \<not> Complete s \<or> Staged s = None \<or> Staged s = Some n \<Longrightarrow>
    swap_shape keep before n s"
| between: "before = Some l \<Longrightarrow> Live s = None \<Longrightarrow> Old s = Some l \<Longrightarrow> Staged s = Some n \<Longrightarrow> Complete s \<Longrightarrow>
    swap_shape keep before n s"
| moving: "before = Some l \<Longrightarrow> Staged s = None \<Longrightarrow> K \<subseteq> carried keep l n \<Longrightarrow> Live s = Some (carry K l n) \<Longrightarrow>
    Old s = Some (l |` (- K)) \<Longrightarrow> swap_shape keep before n s"
| going: "Live s = Some (new_tree keep before n) \<Longrightarrow> Staged s = None \<Longrightarrow> Old s = Some o' \<Longrightarrow>
    carried keep o' (new_tree keep before n) = {} \<Longrightarrow> swap_shape keep before n s"
| swapped: "Live s = Some (new_tree keep before n) \<Longrightarrow> Staged s = None \<Longrightarrow> Old s = None \<Longrightarrow> swap_shape keep before n s"

lemma carry_empty [simp]: "carry {} o' l = l"
  by (simp add: carry_def)

lemma restrict_UNIV [simp]: "m |` UNIV = m"
  by (simp add: restrict_map_def)

lemma carry_carry:
  "K \<subseteq> carried keep l n \<Longrightarrow> K' \<subseteq> carried keep (l |` (- K)) (carry K l n) \<Longrightarrow>
     carry K' (l |` (- K)) (carry K l n) = carry (K \<union> K') l n \<and> (l |` (- K)) |` (- K') = l |` (- (K \<union> K')) \<and>
     K \<union> K' \<subseteq> carried keep l n"
  by (auto simp: carry_def carried_def restrict_map_def fun_eq_iff split: if_splits)

lemma carried_rest: "K \<subseteq> carried keep l n \<Longrightarrow> K \<union> carried keep (l |` (- K)) (carry K l n) = carried keep l n"
  by (auto simp: carry_def carried_def restrict_map_def split: if_splits)

lemma carried_after:
  assumes "gone \<subseteq>\<^sub>m l |` (- carried keep l n)"
  shows "carried keep gone (carry (carried keep l n) l n) = {}"
proof -
  have "l e = Some v \<and> e \<notin> carried keep l n" if "gone e = Some v" for e v
  proof -
    have "(l |` (- carried keep l n)) e = Some v" using assms that by (metis domI map_le_def)
    then show ?thesis by (auto simp: restrict_map_def split: if_splits)
  qed
  then show ?thesis by (fastforce simp: carried_def carry_def)
qed

text \<open>After the second rename every interruption, and the end, keeps a shape.\<close>

lemma settling_moving:
  assumes "settling keep s s'" and "before = Some l" "Staged s = None" "K \<subseteq> carried keep l n"
    "Live s = Some (carry K l n)" "Old s = Some (l |` (- K))"
  shows "swap_shape keep before n s'"
  using assms(1)
proof cases
  case (marker b)
  with assms show ?thesis by (auto intro: swap_shape.moving)
next
  case (carrying o' l' K' b)
  with assms have eq: "o' = l |` (- K)" "l' = carry K l n" by simp_all
  note cc = carry_carry [OF assms(4) carrying(4) [unfolded eq]]
  show ?thesis unfolding carrying(1) eq
    by (rule swap_shape.moving [of before l _ "K \<union> K'"]) (use cc assms(2,3) in simp_all)
next
  case (removing o' l' gone b)
  with assms have eq: "o' = l |` (- K)" "l' = carry K l n" by simp_all
  let ?C = "carried keep o' l'"
  have "carry ?C o' l' = carry (K \<union> ?C) l n" "o' |` (- ?C) = l |` (- (K \<union> ?C))"
    using carry_carry [OF assms(4), of ?C] eq by auto
  moreover have "K \<union> ?C = carried keep l n" unfolding eq by (rule carried_rest [OF assms(4)])
  ultimately have "carry ?C o' l' = new_tree keep before n" "gone \<subseteq>\<^sub>m l |` (- carried keep l n)"
    using removing(4) assms(2) by (simp_all add: new_tree_def)
  with removing assms(2,3) carried_after show ?thesis
    by (auto intro!: swap_shape.going [where o' = gone] simp: new_tree_def)
next
  case (removed b)
  have "Live (carryOver keep s) = Some (new_tree keep before n)"
    using carry_carry [OF assms(4), of "carried keep (l |` (- K)) (carry K l n)"] carried_rest [OF assms(4)] assms
    by (simp add: carryOver_def new_tree_def)
  with removed assms show ?thesis by (auto intro!: swap_shape.swapped simp: carryOver_def)
qed

lemma settling_going:
  assumes "settling keep s s'" and "Live s = Some (new_tree keep before n)" "Staged s = None" "Old s = Some o'"
    "carried keep o' (new_tree keep before n) = {}"
  shows "swap_shape keep before n s'"
  using assms(1)
proof cases
  case (marker b)
  with assms show ?thesis by (auto intro: swap_shape.going)
next
  case (carrying o'' l K b)
  with assms have "K = {}" "o'' = o'" "l = new_tree keep before n" by auto
  with carrying assms show ?thesis by (auto intro!: swap_shape.going [where o' = o'])
next
  case (removing o'' l gone b)
  with assms have eq: "o'' = o'" "l = new_tree keep before n" "carried keep o'' l = {}" by auto
  have "carried keep gone (new_tree keep before n) = {}"
  proof -
    have "gone \<subseteq>\<^sub>m o'" using removing(4) eq by simp
    then have sub: "o' e \<noteq> None" if "gone e \<noteq> None" for e using that by (metis domIff map_le_def)
    have "e \<in> carried keep o' (new_tree keep before n)" if "e \<in> carried keep gone (new_tree keep before n)" for e
      using that sub [of e] unfolding carried_def by blast
    with assms(5) show ?thesis by blast
  qed
  with removing assms eq show ?thesis by (auto intro!: swap_shape.going [where o' = gone])
next
  case (removed b)
  with assms show ?thesis by (auto intro!: swap_shape.swapped simp: carryOver_def)
qed

lemma settling_fresh:
  assumes "settling keep s s'" and "before = None" "Live s = Some n" "Staged s = None" "Old s = None"
  shows "swap_shape keep before n s'"
  using assms(1)
proof cases
  case (marker b)
  with assms show ?thesis by (auto intro!: swap_shape.swapped simp: new_tree_def)
next
  case (removed b)
  with assms show ?thesis by (auto intro!: swap_shape.swapped simp: new_tree_def carryOver_def)
qed (use assms in auto)

text \<open>Finishing the tail is one of its interruptions.\<close>

lemma settle_published_settling: "settling keep s (settle_published keep s)"
proof -
  have "settle_published keep s = (carryOver keep s)\<lparr>Complete := False, Old := None\<rparr>"
    by (auto simp: settle_published_def carryOver_def split: option.splits)
  then show ?thesis by (simp add: settling.removed)
qed

lemma recover_swapped_settling: "settling keep s ((carryOver keep s)\<lparr>Old := None\<rparr>)"
  using settling.removed [of keep s "Complete s"] by (simp add: carryOver_def split: option.splits)

lemma published_shape:
  assumes "before = Live s" "Old s = None" "set_aside (s\<lparr>Staged := Some n, Complete := True\<rparr>) = Inr s1"
    "publish s1 = Inr s2" "settling keep s2 s'"
  shows "swap_shape keep before n s'"
proof (cases "Live s")
  case None
  with assms have "Live s2 = Some n" "Staged s2 = None" "Old s2 = None" by (auto simp: set_aside_def publish_def)
  with None assms settling_fresh show ?thesis by blast
next
  case (Some l)
  with assms have "Live s2 = Some (carry {} l n)" "Staged s2 = None" "Old s2 = Some (l |` (- {}))"
    by (auto simp: set_aside_def publish_def)
  with Some assms(1) show ?thesis by (intro settling_moving [OF assms(5), where K = "{}"]) simp_all
qed

lemma swap_stopped_shape:
  assumes "swap_stopped keep n s s'" and "Old s = None" "Staged s = None"
  shows "swap_shape keep (Live s) n s'"
  using assms(1)
proof cases
  case (aside)
  show ?thesis
  proof (cases "Live s")
    case None
    with aside assms show ?thesis by (auto simp: set_aside_def intro!: swap_shape.not_swapped)
  next
    case (Some l)
    with aside assms show ?thesis by (auto simp: set_aside_def intro!: swap_shape.between)
  qed
next
  case (published s1 s2)
  with assms(2) published_shape show ?thesis by blast
qed (use assms in \<open>auto intro!: swap_shape.not_swapped\<close>)

definition resolved :: "(string \<Rightarrow> bool) \<Rightarrow> dir option \<Rightarrow> dir \<Rightarrow> swap_dirs \<Rightarrow> bool" where
  "resolved keep before n s \<longleftrightarrow>
     Old s = None \<and> Staged s = None \<and> (Live s = before \<or> Live s = Some (new_tree keep before n))"

lemma resolved_shape: "resolved keep before n s \<Longrightarrow> swap_shape keep before n s"
  unfolding resolved_def by (auto intro: swap_shape.not_swapped swap_shape.swapped)

text \<open>A tail carried to its end resolves the swap.\<close>

lemma shape_resolved:
  assumes "swap_shape keep before n s" and "Old s = None" "Live s \<noteq> None" "Staged s = None"
  shows "resolved keep before n s"
  using assms by (auto simp: resolved_def elim: swap_shape.cases)

lemma settling_shape:
  assumes "swap_shape keep before n s" "Live s \<noteq> None" "Old s \<noteq> None" "settling keep s s'"
  shows "swap_shape keep before n s' \<and> Staged s = None"
  using assms(1)
proof cases
  case (moving l K)
  with settling_moving [OF assms(4) moving] show ?thesis by simp
next
  case (going o')
  with settling_going [OF assms(4) going] show ?thesis by simp
qed (use assms(2,3) in auto)

lemma settled_resolved:
  assumes "swap_shape keep before n s" "Live s \<noteq> None" "Old s \<noteq> None"
  shows "resolved keep before n ((carryOver keep s)\<lparr>Old := None\<rparr>)"
proof -
  have "swap_shape keep before n ((carryOver keep s)\<lparr>Old := None\<rparr>)" "Staged s = None"
    using settling_shape [OF assms recover_swapped_settling] by simp_all
  then show ?thesis
    using assms(2,3) by (intro shape_resolved) (auto simp: carryOver_def split: option.splits)
qed

lemma between_published:
  assumes "swap_shape keep before n s" "Live s = None" "Complete s" "publish s = Inr s1" "settling keep s1 s'"
  shows "swap_shape keep before n s'"
  using assms(1)
proof cases
  case not_swapped
  with assms settling_fresh [OF assms(5)] show ?thesis by (auto simp: publish_def split: option.splits)
next
  case (between l)
  with assms(4) have "Live s1 = Some (carry {} l n)" "Staged s1 = None" "Old s1 = Some (l |` (- {}))"
    by (auto simp: publish_def)
  with between(1) show ?thesis by (intro settling_moving [OF assms(5), where K = "{}"]) simp_all
qed (use assms(2) in auto)

lemma RecoverSwapKeeping_resolves:
  assumes "swap_shape keep before n s"
  shows "\<exists>a s'. RecoverSwapKeeping keep s = Inr (a, s') \<and> resolved keep before n s'"
proof -
  consider "Live s \<noteq> None" "Old s \<noteq> None" | "Live s \<noteq> None" "Old s = None"
    | "Live s = None" "Staged s \<noteq> None" "Complete s" | "Live s = None" "Staged s = None \<or> \<not> Complete s"
    by (cases "Live s = None"; cases "Old s = None"; cases "Staged s = None"; cases "Complete s") simp_all
  then show ?thesis
  proof cases
    case 1
    with settled_resolved [OF assms] show ?thesis by (auto simp: RecoverSwapKeeping_def)
  next
    case 2
    with assms have "Live s = before \<or> Live s = Some (new_tree keep before n)" by (auto elim: swap_shape.cases)
    with 2 show ?thesis by (auto simp: RecoverSwapKeeping_def resolved_def DiscardStaged_def)
  next
    case 3
    then obtain s1 where s1: "publish s = Inr s1" by (auto simp: publish_def)
    let ?s' = "settle_published keep s1"
    have "swap_shape keep before n ?s'"
      by (rule between_published [OF assms 3(1,3) s1 settle_published_settling])
    moreover have "Old ?s' = None" "Live ?s' \<noteq> None" "Staged ?s' = None"
      using s1 by (auto simp: settle_published_def carryOver_def publish_def split: option.splits)
    ultimately have "resolved keep before n ?s'" by (rule shape_resolved)
    with 3 s1 show ?thesis by (auto simp: RecoverSwapKeeping_def publishStaged_def)
  next
    case 4
    with assms have "Old s = None" "before = None" by (auto elim: swap_shape.cases)
    with 4 show ?thesis
      by (auto simp: RecoverSwapKeeping_def resolved_def DiscardStaged_def discardUnfinishedStaging_def Let_def)
  qed
qed

lemma recover_stopped_shape:
  assumes "recover_stopped keep s s'" and "swap_shape keep before n s"
  shows "swap_shape keep before n s'"
  using assms(1)
proof cases
  case swapped
  with settling_shape [OF assms(2)] show ?thesis by simp
next
  case (discarding part)
  from assms(2) show ?thesis
  proof cases
    case not_swapped
    with discarding show ?thesis by (auto intro!: swap_shape.not_swapped)
  next
    case swapped
    with discarding show ?thesis by (auto intro!: swap_shape.swapped)
  qed (use discarding(2) in auto)
next
  case (unfinished part)
  with assms(2) show ?thesis by (auto elim!: swap_shape.cases intro!: swap_shape.not_swapped)
next
  case (finished a)
  with RecoverSwapKeeping_resolves [OF assms(2)] show ?thesis by (auto intro: resolved_shape)
next
  case (publishing s1)
  with between_published [OF assms(2)] show ?thesis by blast
qed (use assms(2) in simp)

text \<open>C6. Replacing a world or server tree is all or nothing. From settled directories, a restore, clone or
  update of the tree \<open>n\<close> that is killed at any point, followed by any number of recoveries killed at any
  point, leaves directories that one recovery that runs to its end always resolves: no staged or
  superseded tree remains, and the live tree is exactly the one from before or exactly \<open>n\<close> with the
  entries to keep carried over -- never a truncated, mixed or missing one. An uninterrupted swap publishes
  the latter.\<close>

theorem swap_all_or_nothing:
  assumes "Old s = None" and "Staged s = None"
    and "swap_stopped keep n s s1" and "(recover_stopped keep)\<^sup>*\<^sup>* s1 s2"
  shows "(\<exists>a s3. RecoverSwapKeeping keep s2 = Inr (a, s3) \<and> Old s3 = None \<and> Staged s3 = None \<and>
       Live s3 \<in> {Live s, Some (new_tree keep (Live s) n)}) \<and>
     SwapKeeping keep (MarkStaged (s\<lparr>Staged := Some n\<rparr>)) =
       Inr \<lparr>Live = Some (new_tree keep (Live s) n), Old = None, Staged = None, Complete = False\<rparr>"
proof
  have "swap_shape keep (Live s) n s2"
    using assms(4) swap_stopped_shape [OF assms(3,1,2)]
    by (induction rule: rtranclp_induct) (auto intro: recover_stopped_shape)
  from RecoverSwapKeeping_resolves [OF this]
  show "\<exists>a s3. RecoverSwapKeeping keep s2 = Inr (a, s3) \<and> Old s3 = None \<and> Staged s3 = None \<and>
       Live s3 \<in> {Live s, Some (new_tree keep (Live s) n)}"
    by (auto simp: resolved_def)
  show "SwapKeeping keep (MarkStaged (s\<lparr>Staged := Some n\<rparr>)) =
       Inr \<lparr>Live = Some (new_tree keep (Live s) n), Old = None, Staged = None, Complete = False\<rparr>"
    using assms(1) by (cases "Live s")
      (auto simp: SwapKeeping_def MarkStaged_def set_aside_def publish_def settle_published_def carryOver_def new_tree_def
        intro!: swap_dirs.equality)
qed

theorem swap_all_or_nothing_witness:
  "\<exists>a s3. RecoverSwapKeeping (\<lambda>e. e = ''auto'')
       \<lparr>Live = Some [''w'' \<mapsto> ''new''], Old = Some [''w'' \<mapsto> ''old'', ''auto'' \<mapsto> ''x''], Staged = None, Complete = True\<rparr> = Inr (a, s3) \<and>
     Old s3 = None \<and> Staged s3 = None \<and> Live s3 \<in> {Some [''w'' \<mapsto> ''old'', ''auto'' \<mapsto> ''x''],
       Some (new_tree (\<lambda>e. e = ''auto'') (Some [''w'' \<mapsto> ''old'', ''auto'' \<mapsto> ''x'']) [''w'' \<mapsto> ''new''])}"
proof -
  let ?keep = "\<lambda>e. e = ''auto''" and ?l = "[''w'' \<mapsto> ''old'', ''auto'' \<mapsto> ''x'']" and ?n = "[''w'' \<mapsto> ''new'']"
  let ?s = "\<lparr>Live = Some ?l, Old = None, Staged = None, Complete = False\<rparr>"
  let ?s1 = "\<lparr>Live = None, Old = Some ?l, Staged = Some ?n, Complete = True\<rparr>"
  let ?s2 = "\<lparr>Live = Some ?n, Old = Some ?l, Staged = None, Complete = True\<rparr>"
  have "swap_stopped ?keep ?n ?s ?s1" by (rule swap_stopped.aside) (simp add: set_aside_def)
  moreover have "recover_stopped ?keep ?s1 ?s2"
  proof (rule recover_stopped.publishing)
    show "publish ?s1 = Inr ?s2" by (simp add: publish_def)
    show "settling ?keep ?s2 ?s2" using settling.marker [of ?keep ?s2 True] by simp
  qed simp_all
  then have "(recover_stopped ?keep)\<^sup>*\<^sup>* ?s1 ?s2" by blast
  ultimately show ?thesis using swap_all_or_nothing [of ?s ?keep ?n ?s1 ?s2] by simp
qed

text \<open>Recovery never fails, whatever it finds.\<close>

lemma RecoverSwapKeeping_total: "\<exists>a s'. RecoverSwapKeeping keep s = Inr (a, s')"
  by (auto simp: RecoverSwapKeeping_def publishStaged_def publish_def discardUnfinishedStaging_def put_back_def
      DiscardStaged_def Let_def split: option.splits)

text \<open>Without a recovery between them, two attempts lose the world: the sweep of an interrupted world
  import removes only the upload, so an import killed between the renames leaves nothing live, and the
  next one discards the staged tree and then removes the only other copy.\<close>

lemma unrecovered_import_loses_world:
  assumes "s = \<lparr>Live = None, Old = Some l, Staged = Some n, Complete = True\<rparr>"
  shows "SwapKeeping (\<lambda>_. False) (MarkStaged ((DiscardStaged s)\<lparr>Staged := Some n2\<rparr>)) =
     Inr \<lparr>Live = Some n2, Old = None, Staged = None, Complete = False\<rparr>"
  using assms by (auto simp: SwapKeeping_def MarkStaged_def DiscardStaged_def set_aside_def publish_def
      settle_published_def carryOver_def carried_def)

end
