(* ===== verification/Scheduler.thy ===== *)
theory Scheduler
  imports Go_Prelude
begin

text \<open>
  The panel's clock (\<open>internal/scheduler/scheduler.go\<close>) over the \<open>scheduled_jobs\<close> table
  (\<open>internal/store/schedules.go\<close>): when a schedule is due, when a due run is held while players are
  connected, and how the row moves on. The cron library, the time-zone database and the questions the
  clock asks of the running servers are parameters; times are seconds. A tick runs on one goroutine and
  every statement it makes is one step, so a tick is a function of the table; \<open>fire\<close> takes the row copy it
  was given apart from the table it re-reads. The theorems: a held run goes ahead once its maximum
  deferral is over, whoever is connected, and a run that fired is not due again before its next time.
\<close>

subsection \<open>Next run\<close>

datatype zone = Location string | FixedZone int

text \<open>What the cron and time libraries provide: whether an expression parses and a zone loads,
  \<open>Schedule.Next\<close> (\<open>None\<close> is the zero time), the wall-clock minute an instant shows in a zone, and
  \<open>time.Date\<close> of a wall-clock minute.\<close>

record clock =
  parses :: "string \<Rightarrow> bool"
  loads :: "string \<Rightarrow> bool"
  sched_next :: "string \<Rightarrow> zone \<Rightarrow> int \<Rightarrow> int option"
  wall :: "zone \<Rightarrow> int \<Rightarrow> int"
  offset :: "zone \<Rightarrow> int \<Rightarrow> int"
  date_in :: "zone \<Rightarrow> int \<Rightarrow> int"
  zero_time :: int

datatype cron_error = BadZone | BadCron

definition sameWallClock :: "clock \<Rightarrow> zone \<Rightarrow> int \<Rightarrow> int \<Rightarrow> bool" where
  "sameWallClock c z a b \<longleftrightarrow> wall c z a = wall c z b"

definition or_zero :: "clock \<Rightarrow> int option \<Rightarrow> int" where
  "or_zero c t = (case t of Some u \<Rightarrow> u | None \<Rightarrow> zero_time c)"

text \<open>The hour and the minute of a civil minute.\<close>

definition minute_of_day :: "int \<Rightarrow> int" where
  "minute_of_day m = m mod (24 * 60)"

definition NextRun :: "clock \<Rightarrow> string \<Rightarrow> string \<Rightarrow> int \<Rightarrow> int option \<Rightarrow> cron_error + int" where
  "NextRun c expr zone_name after last_run =
     (let loc = Location zone_name in
      if \<not> loads c zone_name then Inl BadZone
      else if \<not> parses c expr then Inl BadCron
      else case sched_next c expr loc after of
        None \<Rightarrow> Inl BadCron
      | Some next0 \<Rightarrow>
          (let next1 = (case last_run of
                          Some l \<Rightarrow> if sameWallClock c loc next0 l then or_zero c (sched_next c expr loc next0) else next0
                        | None \<Rightarrow> next0);
               fixed = FixedZone (offset c loc after)
           in case sched_next c expr fixed after of
                None \<Rightarrow> Inr next1
              | Some early \<Rightarrow>
                  if early < next1 \<and> minute_of_day (wall c loc (date_in c loc (wall c fixed early))) \<noteq> minute_of_day (wall c fixed early)
                     \<and> after < early
                  then Inr early else Inr next1))"

subsection \<open>The table\<close>

record schedule =
  SchedID :: string
  Cron :: string
  Timezone :: string
  SchedEnabled :: bool
  LastRunAt :: "int option"
  NextRunAt :: "int option"
  WaitForEmpty :: bool
  MaxDeferral :: int
  DeferredSince :: "int option"

definition DueSchedules :: "int \<Rightarrow> schedule list \<Rightarrow> schedule list" where
  "DueSchedules now rows =
     (let due = sort_key SchedID (filter (\<lambda>s. SchedEnabled s \<and> (case NextRunAt s of None \<Rightarrow> True | Some t \<Rightarrow> t \<le> now)) rows)
      in filter (\<lambda>s. NextRunAt s = None) due @ sort_key (\<lambda>s. the (NextRunAt s)) (filter (\<lambda>s. NextRunAt s \<noteq> None) due))"

definition ScheduleByID :: "string \<Rightarrow> schedule list \<Rightarrow> schedule option" where
  "ScheduleByID i rows = find (\<lambda>s. SchedID s = i) rows"

definition MarkScheduleRun :: "string \<Rightarrow> int option \<Rightarrow> int \<Rightarrow> int \<Rightarrow> schedule list \<Rightarrow> schedule list" where
  "MarkScheduleRun i read_at last_at next_at rows =
     map (\<lambda>s. if SchedID s = i \<and> NextRunAt s = read_at
              then s\<lparr>LastRunAt := Some last_at, NextRunAt := Some next_at, DeferredSince := None\<rparr> else s) rows"

definition DeferSchedule :: "string \<Rightarrow> int \<Rightarrow> schedule list \<Rightarrow> schedule list" where
  "DeferSchedule i since rows =
     map (\<lambda>s. if SchedID s = i \<and> DeferredSince s = None then s\<lparr>DeferredSince := Some since\<rparr> else s) rows"

subsection \<open>The clock\<close>

text \<open>A warning is tagged with the hold it opened or the deadline it announces. The state holds the table,
  the calls made to the enqueuer and the \<open>Held\<close> hook, the last warned deadline per schedule in memory and in
  the key-value table, and the warnings under way, finished and started.\<close>

datatype tag = TagHold | TagDeadline int

record scheduler =
  sch_rows :: "schedule list"
  sch_enqueued :: "(string \<times> int) list"
  sch_held :: "string list"
  sch_warned :: "string \<rightharpoonup> int"
  sch_kv :: "string \<rightharpoonup> int"
  sch_running :: "string set"
  sch_done :: "string \<rightharpoonup> tag \<times> bool"
  sch_sent :: "(string \<times> tag) list"

record hooks =
  Occupied :: "(schedule \<Rightarrow> int \<Rightarrow> bool) option"
  Warn :: bool

definition FinalWarning :: int where
  "FinalWarning = 5 * 60"

definition send_start :: "string \<Rightarrow> tag \<Rightarrow> scheduler \<Rightarrow> scheduler" where
  "send_start key t st =
     (if key \<in> sch_running st then st
      else st\<lparr>sch_running := insert key (sch_running st), sch_sent := sch_sent st @ [(key, t)]\<rparr>)"

definition send_finished :: "string \<Rightarrow> tag \<Rightarrow> bool \<Rightarrow> scheduler \<Rightarrow> scheduler" where
  "send_finished key t delivered st =
     st\<lparr>sch_running := sch_running st - {key}, sch_done := (sch_done st)(key \<mapsto> (t, delivered))\<rparr>"

definition send_take :: "string \<Rightarrow> scheduler \<Rightarrow> (tag \<times> bool) option \<times> scheduler" where
  "send_take key st = (sch_done st key, st\<lparr>sch_done := (sch_done st)(key := None)\<rparr>)"

definition markWarned :: "string \<Rightarrow> int \<Rightarrow> scheduler \<Rightarrow> scheduler" where
  "markWarned i deadline st = st\<lparr>sch_warned := (sch_warned st)(i \<mapsto> deadline), sch_kv := (sch_kv st)(i \<mapsto> deadline)\<rparr>"

definition warnedFor :: "clock \<Rightarrow> string \<Rightarrow> scheduler \<Rightarrow> int \<times> scheduler" where
  "warnedFor c i st =
     (case sch_warned st i of
        Some at \<Rightarrow> (at, st)
      | None \<Rightarrow> (let at = or_zero c (sch_kv st i) in (at, st\<lparr>sch_warned := (sch_warned st)(i \<mapsto> at)\<rparr>)))"

definition finalWarning :: "clock \<Rightarrow> hooks \<Rightarrow> schedule \<Rightarrow> int \<Rightarrow> int \<Rightarrow> scheduler \<Rightarrow> scheduler" where
  "finalWarning c h sc since now st =
     (if \<not> Warn h then st
      else
        let deadline = since + MaxDeferral sc in
        case send_take (SchedID sc) st of (r, st1) \<Rightarrow>
          if r = Some (TagDeadline deadline, True) then markWarned (SchedID sc) deadline st1
          else
            let left = deadline - now in
            if left > FinalWarning then st1
            else case warnedFor c (SchedID sc) st1 of (at, st2) \<Rightarrow>
              if at = deadline then st2 else send_start (SchedID sc) (TagDeadline deadline) st2)"

definition call_held :: "schedule \<Rightarrow> scheduler \<Rightarrow> scheduler" where
  "call_held sc st = st\<lparr>sch_held := sch_held st @ [SchedID sc]\<rparr>"

definition hold :: "clock \<Rightarrow> hooks \<Rightarrow> schedule \<Rightarrow> int \<Rightarrow> scheduler \<Rightarrow> bool \<times> scheduler" where
  "hold c h sc now st =
     (case Occupied h of
        None \<Rightarrow> (False, st)
      | Some occupied \<Rightarrow>
          if \<not> WaitForEmpty sc then (False, st)
          else if (case DeferredSince sc of Some since \<Rightarrow> \<not> now < since + MaxDeferral sc | None \<Rightarrow> False) then (False, st)
          else if \<not> occupied sc now then (False, st)
          else case DeferredSince sc of
            Some since \<Rightarrow> (True, finalWarning c h sc since now st)
          | None \<Rightarrow>
              (let st1 = call_held sc (st\<lparr>sch_rows := DeferSchedule (SchedID sc) now (sch_rows st)\<rparr>);
                   st2 = (if Warn h then send_start (SchedID sc) TagHold st1 else st1)
               in (True, if MaxDeferral sc \<le> FinalWarning then markWarned (SchedID sc) (now + MaxDeferral sc) st2 else st2)))"

definition stillDue :: "schedule \<Rightarrow> scheduler \<Rightarrow> bool" where
  "stillDue sc st =
     (case ScheduleByID (SchedID sc) (sch_rows st) of
        None \<Rightarrow> False
      | Some fresh \<Rightarrow> SchedEnabled fresh \<and> Cron fresh = Cron sc \<and> Timezone fresh = Timezone sc \<and> NextRunAt fresh = NextRunAt sc)"

definition fire :: "clock \<Rightarrow> hooks \<Rightarrow> int \<Rightarrow> schedule \<Rightarrow> scheduler \<Rightarrow> scheduler" where
  "fire c h now sc st =
     (case NextRun c (Cron sc) (Timezone sc) now (NextRunAt sc) of
        Inl e \<Rightarrow> st
      | Inr next_at \<Rightarrow>
          if NextRunAt sc = None
          then st\<lparr>sch_rows := MarkScheduleRun (SchedID sc) None now next_at (sch_rows st)\<rparr>
          else case hold c h sc now st of (held, st1) \<Rightarrow>
            if held then st1
            else if \<not> stillDue sc st1 then st1
            else
              let st2 = st1\<lparr>sch_enqueued := sch_enqueued st1 @ [(SchedID sc, now)]\<rparr>;
                  st3 = st2\<lparr>sch_rows := MarkScheduleRun (SchedID sc) (NextRunAt sc) now next_at (sch_rows st2)\<rparr>
              in if DeferredSince sc \<noteq> None
                 then call_held sc (st3\<lparr>sch_warned := (sch_warned st3)(SchedID sc := None)\<rparr>)
                 else st3)"

definition Tick :: "clock \<Rightarrow> hooks \<Rightarrow> int \<Rightarrow> scheduler \<Rightarrow> scheduler" where
  "Tick c h now st = fold (fire c h now) (DueSchedules now (sch_rows st)) st"

subsection \<open>One row's clock\<close>

text \<open>What a tick does to a single row, and whether it runs: the specification every row follows on its own.\<close>

definition due :: "int \<Rightarrow> schedule \<Rightarrow> bool" where
  "due now r \<longleftrightarrow> SchedEnabled r \<and> (case NextRunAt r of None \<Rightarrow> True | Some t \<Rightarrow> t \<le> now)"

definition holds :: "hooks \<Rightarrow> int \<Rightarrow> schedule \<Rightarrow> bool" where
  "holds h now r \<longleftrightarrow> (\<exists>occupied. Occupied h = Some occupied \<and> WaitForEmpty r \<and> occupied r now \<and>
     (\<forall>since. DeferredSince r = Some since \<longrightarrow> now < since + MaxDeferral r))"

definition row_step :: "clock \<Rightarrow> hooks \<Rightarrow> int \<Rightarrow> schedule \<Rightarrow> bool \<times> schedule" where
  "row_step c h now r =
     (if \<not> due now r then (False, r)
      else case NextRun c (Cron r) (Timezone r) now (NextRunAt r) of
        Inl e \<Rightarrow> (False, r)
      | Inr n \<Rightarrow>
          if NextRunAt r = None then (False, r\<lparr>LastRunAt := Some now, NextRunAt := Some n, DeferredSince := None\<rparr>)
          else if holds h now r then (False, if DeferredSince r = None then r\<lparr>DeferredSince := Some now\<rparr> else r)
          else (True, r\<lparr>LastRunAt := Some now, NextRunAt := Some n, DeferredSince := None\<rparr>))"

definition runs_of :: "string \<Rightarrow> scheduler \<Rightarrow> (string \<times> int) list" where
  "runs_of i st = filter (\<lambda>p. fst p = i) (sch_enqueued st)"

definition row_of :: "string \<Rightarrow> scheduler \<Rightarrow> schedule option" where
  "row_of i st = ScheduleByID i (sch_rows st)"

lemma send_simps [simp]:
  "sch_rows (send_start k t st) = sch_rows st" "sch_enqueued (send_start k t st) = sch_enqueued st"
  "sch_rows (markWarned i d st) = sch_rows st" "sch_enqueued (markWarned i d st) = sch_enqueued st"
  "sch_rows (call_held sc st) = sch_rows st" "sch_enqueued (call_held sc st) = sch_enqueued st"
  by (simp_all add: send_start_def markWarned_def call_held_def)

lemma finalWarning_simps [simp]:
  "sch_rows (finalWarning c h sc since now st) = sch_rows st"
  "sch_enqueued (finalWarning c h sc since now st) = sch_enqueued st"
  by (auto simp: finalWarning_def send_take_def warnedFor_def Let_def split: option.splits)

lemma hold_exact:
  assumes "hold c h sc now st = (held, st')"
  shows "held \<longleftrightarrow> holds h now sc" and "sch_enqueued st' = sch_enqueued st"
    and "sch_rows st' = (if holds h now sc \<and> DeferredSince sc = None then DeferSchedule (SchedID sc) now (sch_rows st) else sch_rows st)"
  using assms by (auto simp: hold_def holds_def Let_def split: option.splits if_splits)

lemma ScheduleByID_map:
  assumes "\<And>s. SchedID (f s) = SchedID s"
  shows "ScheduleByID i (map f rows) = map_option f (ScheduleByID i rows)"
  unfolding ScheduleByID_def by (induction rows) (simp_all add: assms)

lemma ScheduleByID_id: "ScheduleByID i rows = Some r \<Longrightarrow> SchedID r = i"
  by (auto simp: ScheduleByID_def find_Some_iff)

lemma ScheduleByID_Mark:
  "ScheduleByID i (MarkScheduleRun j read_at l n rows) =
     map_option (\<lambda>s. if SchedID s = j \<and> NextRunAt s = read_at
        then s\<lparr>LastRunAt := Some l, NextRunAt := Some n, DeferredSince := None\<rparr> else s) (ScheduleByID i rows)"
  unfolding MarkScheduleRun_def by (rule ScheduleByID_map) simp

lemma ScheduleByID_Defer:
  "ScheduleByID i (DeferSchedule j since rows) =
     map_option (\<lambda>s. if SchedID s = j \<and> DeferredSince s = None then s\<lparr>DeferredSince := Some since\<rparr> else s) (ScheduleByID i rows)"
  unfolding DeferSchedule_def by (rule ScheduleByID_map) simp

lemma fire_other:
  assumes "SchedID sc \<noteq> i"
  shows "row_of i (fire c h now sc st) = row_of i st" and "runs_of i (fire c h now sc st) = runs_of i st"
proof -
  obtain held st1 where h: "hold c h sc now st = (held, st1)" by fastforce
  have id: "map_option (\<lambda>s. if SchedID s = SchedID sc \<and> P s then f s else s) (ScheduleByID i rows) = ScheduleByID i rows" for P f rows
    using assms by (cases "ScheduleByID i rows") (auto dest: ScheduleByID_id)
  note he = hold_exact [OF h]
  show "row_of i (fire c h now sc st) = row_of i st"
    by (auto simp: fire_def h row_of_def he(3) ScheduleByID_Mark ScheduleByID_Defer id Let_def split: sum.splits)
  show "runs_of i (fire c h now sc st) = runs_of i st"
    using assms by (auto simp: fire_def h runs_of_def he(2) Let_def split: sum.splits)
qed

lemma fire_self:
  assumes "row_of i st = Some r" and "due now r"
  shows "row_of i (fire c h now r st) = Some (snd (row_step c h now r))"
    and "runs_of i (fire c h now r st) = runs_of i st @ (if fst (row_step c h now r) then [(i, now)] else [])"
proof -
  have i: "SchedID r = i" using assms(1) by (auto simp: row_of_def dest: ScheduleByID_id)
  obtain held st1 where h: "hold c h r now st = (held, st1)" by fastforce
  note he = hold_exact [OF h]
  have r: "ScheduleByID i (sch_rows st) = Some r" using assms(1) by (simp add: row_of_def)
  have still: "stillDue r st1" if "\<not> held"
    using that he r assms(2) i by (simp add: stillDue_def due_def)
  show "row_of i (fire c h now r st) = Some (snd (row_step c h now r))"
    using assms(2) still he(1) by (auto simp: fire_def h row_of_def he(3) ScheduleByID_Mark ScheduleByID_Defer r i row_step_def Let_def
        split: sum.splits)
  show "runs_of i (fire c h now r st) = runs_of i st @ (if fst (row_step c h now r) then [(i, now)] else [])"
    using assms(2) still he(1) by (auto simp: fire_def h runs_of_def he(2) i row_step_def Let_def split: sum.splits)
qed

lemma fold_fire_others:
  "\<forall>sc \<in> set scs. SchedID sc \<noteq> i \<Longrightarrow>
     row_of i (fold (fire c h now) scs st) = row_of i st \<and> runs_of i (fold (fire c h now) scs st) = runs_of i st"
  by (induction scs arbitrary: st) (simp_all add: fire_other)

lemma fold_fire_one:
  assumes "distinct (map SchedID scs)" and "r \<in> set scs" and "row_of i st = Some r" and "due now r"
  shows "row_of i (fold (fire c h now) scs st) = Some (snd (row_step c h now r))"
    and "runs_of i (fold (fire c h now) scs st) = runs_of i st @ (if fst (row_step c h now r) then [(i, now)] else [])"
proof -
  have i: "SchedID r = i" using assms(3) by (auto simp: row_of_def dest: ScheduleByID_id)
  from assms(2) obtain as bs where scs: "scs = as @ r # bs" by (auto dest: split_list)
  with assms(1) have "SchedID r \<notin> SchedID ` set as" "SchedID r \<notin> SchedID ` set bs" by simp_all
  then have others: "\<forall>sc \<in> set as. SchedID sc \<noteq> i" "\<forall>sc \<in> set bs. SchedID sc \<noteq> i" unfolding i by (metis imageI)+
  let ?s = "fold (fire c h now) as st"
  have s: "row_of i ?s = Some r" "runs_of i ?s = runs_of i st"
    using fold_fire_others [OF others(1), of c h now st] assms(3) by simp_all
  show "row_of i (fold (fire c h now) scs st) = Some (snd (row_step c h now r))"
    using fold_fire_others [OF others(2)] fire_self(1) [OF s(1) assms(4)] by (simp add: scs)
  show "runs_of i (fold (fire c h now) scs st) = runs_of i st @ (if fst (row_step c h now r) then [(i, now)] else [])"
    using fold_fire_others [OF others(2)] fire_self(2) [OF s(1) assms(4), of c h] s(2) by (simp add: scs)
qed

lemma set_DueSchedules: "set (DueSchedules now rows) = {r \<in> set rows. due now r}"
  by (auto simp: DueSchedules_def due_def Let_def)

lemma distinct_DueSchedules: "distinct (map SchedID rows) \<Longrightarrow> distinct (map SchedID (DueSchedules now rows))"
proof -
  assume d: "distinct (map SchedID rows)"
  then have "distinct rows" "inj_on SchedID (set rows)" by (simp_all add: distinct_map)
  moreover have "distinct (DueSchedules now rows)" using \<open>distinct rows\<close> by (auto simp: DueSchedules_def Let_def)
  moreover have "set (DueSchedules now rows) \<subseteq> set rows" by (auto simp: set_DueSchedules)
  ultimately show ?thesis using inj_on_subset by (auto simp: distinct_map)
qed

lemma row_of_mem: "row_of i st = Some r \<Longrightarrow> r \<in> set (sch_rows st)"
  by (auto simp: row_of_def ScheduleByID_def find_Some_iff)

definition ids_ok :: "scheduler \<Rightarrow> bool" where
  "ids_ok st \<longleftrightarrow> distinct (map SchedID (sch_rows st))"

lemma row_of_unique: "ids_ok st \<Longrightarrow> r \<in> set (sch_rows st) \<Longrightarrow> row_of (SchedID r) st = Some r"
proof -
  assume d: "ids_ok st" and r: "r \<in> set (sch_rows st)"
  have "ScheduleByID (SchedID r) (sch_rows st) \<noteq> None" using r by (auto simp: ScheduleByID_def find_None_iff)
  then obtain r' where r': "ScheduleByID (SchedID r) (sch_rows st) = Some r'" by blast
  then have "r' \<in> set (sch_rows st)" "SchedID r' = SchedID r"
    using row_of_mem ScheduleByID_id by (auto simp: row_of_def)
  with d r have "r' = r" by (auto simp: ids_ok_def distinct_map inj_on_def)
  with r' show ?thesis by (simp add: row_of_def)
qed

text \<open>The refinement: a tick moves every row by its own specification, whatever the others do.\<close>

lemma Tick_row:
  assumes "ids_ok st" and "row_of i st = Some r"
  shows "row_of i (Tick c h now st) = Some (snd (row_step c h now r))"
    and "runs_of i (Tick c h now st) = runs_of i st @ (if fst (row_step c h now r) then [(i, now)] else [])"
proof -
  have i: "SchedID r = i" using assms(2) by (auto simp: row_of_def dest: ScheduleByID_id)
  have d: "distinct (map SchedID (DueSchedules now (sch_rows st)))"
    using assms(1) by (simp add: ids_ok_def distinct_DueSchedules)
  have *: "row_of i (Tick c h now st) = Some (snd (row_step c h now r)) \<and>
    runs_of i (Tick c h now st) = runs_of i st @ (if fst (row_step c h now r) then [(i, now)] else [])"
  proof (cases "due now r")
    case True
    then have "r \<in> set (DueSchedules now (sch_rows st))" using assms(2) by (simp add: set_DueSchedules row_of_mem)
    from fold_fire_one [OF d this assms(2) True] show ?thesis by (simp add: Tick_def)
  next
    case False
    have "SchedID sc \<noteq> i" if "sc \<in> set (DueSchedules now (sch_rows st))" for sc
    proof
      assume "SchedID sc = i"
      moreover have "sc \<in> set (sch_rows st)" "due now sc" using that by (auto simp: set_DueSchedules)
      ultimately have "sc = r" using row_of_unique [OF assms(1), of sc] assms(2) by simp
      with \<open>due now sc\<close> False show False by simp
    qed
    with fold_fire_others [of "DueSchedules now (sch_rows st)" i c h now st] assms(2) False show ?thesis
      by (simp add: Tick_def row_step_def)
  qed
  then show "row_of i (Tick c h now st) = Some (snd (row_step c h now r))"
    and "runs_of i (Tick c h now st) = runs_of i st @ (if fst (row_step c h now r) then [(i, now)] else [])" by blast+
qed

lemma ids_MarkDefer:
  "map SchedID (MarkScheduleRun i a b n rows) = map SchedID rows" "map SchedID (DeferSchedule i t rows) = map SchedID rows"
  by (auto simp: MarkScheduleRun_def DeferSchedule_def)

lemma fire_ids: "map SchedID (sch_rows (fire c h now sc st)) = map SchedID (sch_rows st)"
proof -
  obtain held st1 where h: "hold c h sc now st = (held, st1)" by fastforce
  show ?thesis by (auto simp: fire_def h hold_exact(3) [OF h] ids_MarkDefer Let_def split: sum.splits)
qed

lemma Tick_ids: "ids_ok st \<Longrightarrow> ids_ok (Tick c h now st)"
proof -
  have "map SchedID (sch_rows (fold (fire c h now) scs st)) = map SchedID (sch_rows st)" for scs st
    by (induction scs arbitrary: st) (simp_all add: fire_ids)
  then show "ids_ok st \<Longrightarrow> ids_ok (Tick c h now st)" by (simp add: ids_ok_def Tick_def)
qed

subsection \<open>A held run goes ahead\<close>

text \<open>What the clock relies on of the cron library for a stored expression: it and its zone are readable,
  and it fires again strictly after every instant.\<close>

definition fires :: "clock \<Rightarrow> string \<Rightarrow> string \<Rightarrow> bool" where
  "fires c expr zone_name \<longleftrightarrow>
     loads c zone_name \<and> parses c expr \<and> (\<forall>z t. \<exists>u. sched_next c expr z t = Some u \<and> t < u)"

lemma NextRun_later:
  assumes "fires c expr zone_name"
  shows "\<exists>n. NextRun c expr zone_name after last_run = Inr n \<and> after < n"
proof -
  let ?z = "Location zone_name"
  obtain n0 where n0: "sched_next c expr ?z after = Some n0" "after < n0" using assms unfolding fires_def by blast
  obtain n1 where n1: "sched_next c expr ?z n0 = Some n1" "n0 < n1" using assms unfolding fires_def by blast
  obtain e where e: "sched_next c expr (FixedZone (offset c ?z after)) after = Some e" using assms unfolding fires_def by blast
  show ?thesis using assms n0 n1 e by (auto simp: NextRun_def fires_def or_zero_def Let_def split: option.splits)
qed

definition ticks :: "clock \<Rightarrow> hooks \<Rightarrow> int list \<Rightarrow> scheduler \<Rightarrow> scheduler" where
  "ticks c h ts st = fold (Tick c h) ts st"

text \<open>The run of row \<open>i\<close> that the tick at \<open>now\<close> made, with the ticks before it all below \<open>deadline\<close>.\<close>

definition ran_by :: "clock \<Rightarrow> hooks \<Rightarrow> int list \<Rightarrow> scheduler \<Rightarrow> string \<Rightarrow> int \<Rightarrow> bool" where
  "ran_by c h ts st i deadline \<longleftrightarrow>
     (\<exists>before now after r n. ts = before @ now # after \<and> list_all (\<lambda>u. u < deadline) before \<and>
        runs_of i (ticks c h (before @ [now]) st) = runs_of i st @ [(i, now)] \<and>
        row_of i (ticks c h (before @ [now]) st) = Some r \<and> NextRunAt r = Some n \<and> now < n \<and> DeferredSince r = None)"

lemma ran_by_now:
  assumes "ids_ok st" "row_of i st = Some r" "due now r" "NextRunAt r \<noteq> None" "fires c (Cron r) (Timezone r)" "\<not> holds h now r"
  shows "ran_by c h (now # ts) st i deadline"
proof -
  obtain n where n: "NextRun c (Cron r) (Timezone r) now (NextRunAt r) = Inr n" "now < n"
    using NextRun_later [OF assms(5)] by blast
  then have "row_step c h now r = (True, r\<lparr>LastRunAt := Some now, NextRunAt := Some n, DeferredSince := None\<rparr>)"
    using assms(3,4,6) by (simp add: row_step_def)
  with Tick_row [OF assms(1,2), of c h now] n(2) show ?thesis
    unfolding ran_by_def by (intro exI [of _ "[]"] exI [of _ now] exI [of _ ts]) (simp add: ticks_def)
qed

lemma ran_by_later:
  assumes "ran_by c h ts (Tick c h now st) i deadline" "runs_of i (Tick c h now st) = runs_of i st" "now < deadline"
  shows "ran_by c h (now # ts) st i deadline"
proof -
  from assms(1) obtain before u after r n where "ts = before @ u # after" "list_all (\<lambda>u. u < deadline) before"
    "runs_of i (ticks c h (before @ [u]) (Tick c h now st)) = runs_of i st @ [(i, u)]"
    "row_of i (ticks c h (before @ [u]) (Tick c h now st)) = Some r" "NextRunAt r = Some n" "u < n" "DeferredSince r = None"
    unfolding ran_by_def assms(2) by blast
  with assms(3) show ?thesis unfolding ran_by_def
    by (intro exI [of _ "now # before"] exI [of _ u] exI [of _ after]) (simp add: ticks_def)
qed

lemma deferred_runs:
  assumes "ids_ok st" "row_of i st = Some r" "SchedEnabled r" "NextRunAt r = Some t" "DeferredSince r = Some since"
    "fires c (Cron r) (Timezone r)" "\<forall>u \<in> set us. t \<le> u" "\<exists>u \<in> set us. since + MaxDeferral r \<le> u"
  shows "ran_by c h us st i (since + MaxDeferral r)"
  using assms
proof (induction us arbitrary: st)
  case (Cons u us)
  have d: "due u r" using Cons.prems by (simp add: due_def)
  show ?case
  proof (cases "holds h u r")
    case False
    with Cons.prems d show ?thesis by (intro ran_by_now) simp_all
  next
    case True
    then have u: "u < since + MaxDeferral r" using Cons.prems(5) by (auto simp: holds_def)
    obtain n where "NextRun c (Cron r) (Timezone r) u (NextRunAt r) = Inr n" using NextRun_later [OF Cons.prems(6)] by blast
    then have step: "row_step c h u r = (False, r)" using True d Cons.prems(4,5) by (simp add: row_step_def)
    note T = Tick_row [OF Cons.prems(1,2), of c h u, unfolded step]
    have "ran_by c h us (Tick c h u st) i (since + MaxDeferral r)"
      using Cons.prems u T by (intro Cons.IH) (auto simp: Tick_ids)
    with T u show ?thesis by (intro ran_by_later) simp_all
  qed
qed simp

text \<open>C9. A held run goes ahead. However long players stay connected, a due run of an enabled schedule that
  waits for an empty server is enqueued, exactly once, no later than the first tick at which its maximum
  deferral since the hold began is over; its row then names a next time after that tick and no hold.\<close>

theorem held_run_goes_ahead:
  assumes "ids_ok st" and "r \<in> set (sch_rows st)" and "SchedEnabled r" and "NextRunAt r = Some t"
    and "DeferredSince r = None" and "fires c (Cron r) (Timezone r)"
    and "t \<le> first" and "\<forall>u \<in> set ts. first \<le> u" and "\<exists>u \<in> set ts. first + MaxDeferral r \<le> u" and "0 < MaxDeferral r"
  shows "ran_by c h (first # ts) st (SchedID r) (first + MaxDeferral r)"
proof -
  have row: "row_of (SchedID r) st = Some r" by (rule row_of_unique [OF assms(1,2)])
  have d: "due first r" using assms by (simp add: due_def)
  show ?thesis
  proof (cases "holds h first r")
    case False
    with assms d row show ?thesis by (intro ran_by_now) simp_all
  next
    case True
    let ?r = "r\<lparr>DeferredSince := Some first\<rparr>"
    obtain n where "NextRun c (Cron r) (Timezone r) first (NextRunAt r) = Inr n" using NextRun_later [OF assms(6)] by blast
    then have step: "row_step c h first r = (False, ?r)" using True d assms(4,5) by (simp add: row_step_def)
    note T = Tick_row [OF assms(1) row, of c h first, unfolded step]
    have "ran_by c h ts (Tick c h first st) (SchedID r) (first + MaxDeferral ?r)"
      by (rule deferred_runs [where t = t]) (use assms T Tick_ids [OF assms(1)] in auto)
    with T assms(10) show ?thesis by (intro ran_by_later) simp_all
  qed
qed

definition ex_clock :: clock where
  "ex_clock = \<lparr>parses = (\<lambda>_. True), loads = (\<lambda>_. True), sched_next = (\<lambda>_ _ t. Some (t + 3600)), wall = (\<lambda>_ t. t div 60),
     offset = (\<lambda>_ _. 0), date_in = (\<lambda>_ m. m * 60), zero_time = 0\<rparr>"

definition ex_schedule :: schedule where
  "ex_schedule = \<lparr>SchedID = ''s'', Cron = ''0 * * * *'', Timezone = ''UTC'', SchedEnabled = True, LastRunAt = None,
     NextRunAt = Some 7200, WaitForEmpty = True, MaxDeferral = 1800, DeferredSince = None\<rparr>"

definition ex_scheduler :: scheduler where
  "ex_scheduler = \<lparr>sch_rows = [ex_schedule], sch_enqueued = [], sch_held = [], sch_warned = Map.empty, sch_kv = Map.empty,
     sch_running = {}, sch_done = Map.empty, sch_sent = []\<rparr>"

theorem held_run_goes_ahead_witness:
  "ran_by ex_clock \<lparr>Occupied = Some (\<lambda>_ _. True), Warn = True\<rparr> [7210, 8000, 9010, 9600] ex_scheduler ''s'' 9010"
proof -
  have "ran_by ex_clock \<lparr>Occupied = Some (\<lambda>_ _. True), Warn = True\<rparr> (7210 # [8000, 9010, 9600]) ex_scheduler
      (SchedID ex_schedule) (7210 + MaxDeferral ex_schedule)"
    by (rule held_run_goes_ahead [where t = 7200])
      (simp_all add: ids_ok_def ex_scheduler_def fires_def ex_clock_def ex_schedule_def)
  then show ?thesis by (simp add: ex_schedule_def)
qed

text \<open>A copy of a row that has been disabled or edited since the tick read it is not run.\<close>

lemma stale_copy_not_run:
  assumes "row_of (SchedID sc) st = Some r"
    and "\<not> SchedEnabled r \<or> Cron r \<noteq> Cron sc \<or> Timezone r \<noteq> Timezone sc \<or> NextRunAt r \<noteq> NextRunAt sc"
  shows "runs_of i (fire c h now sc st) = runs_of i st"
proof -
  obtain held st1 where h: "hold c h sc now st = (held, st1)" by fastforce
  note he = hold_exact [OF h]
  have "\<not> stillDue sc st1" if "\<not> held"
    using that assms he(1,3) by (auto simp: stillDue_def row_of_def)
  then show ?thesis by (auto simp: fire_def h runs_of_def he(2) Let_def split: sum.splits)
qed

end
