(* ===== verification/Go_Text.thy ===== *)
theory Go_Text
  imports Go_Prelude
begin

text \<open>
  The parts of Go's \<open>strings\<close> package the configuration editor reads text with: \<open>strings.Lines\<close>,
  \<open>strings.TrimLeft\<close> and \<open>strings.TrimRight\<close> with a set of ASCII bytes, and \<open>strings.TrimSpace\<close>, which works on
  UTF-8: the white space it removes is the list \<open>white_space\<close> of the encodings of the runes
  \<open>unicode.IsSpace\<close> accepts. The lemmas say when trimming and splitting leave the pieces of a text apart.
\<close>

subsection \<open>Lines\<close>

abbreviation newline :: char where
  "newline \<equiv> CHR 0x0A"

fun Lines :: "string \<Rightarrow> string list" where
  "Lines [] = []"
| "Lines (c # cs) =
     (if c = newline then [c] # Lines cs
      else (case Lines cs of [] \<Rightarrow> [[c]] | l # ls \<Rightarrow> (c # l) # ls))"

text \<open>Every line of a text but the last ends in the line's only newline; the last may lack it.\<close>

definition full_line :: "string \<Rightarrow> bool" where
  "full_line l \<longleftrightarrow> (\<exists>b. l = b @ [newline] \<and> newline \<notin> set b)"

definition open_line :: "string \<Rightarrow> bool" where
  "open_line l \<longleftrightarrow> l \<noteq> [] \<and> newline \<notin> set l"

fun are_lines :: "string list \<Rightarrow> bool" where
  "are_lines [] = True"
| "are_lines [l] = (full_line l \<or> open_line l)"
| "are_lines (l # m # ls) = (full_line l \<and> are_lines (m # ls))"

text \<open>A text after which a new line starts.\<close>

definition closed_text :: "string \<Rightarrow> bool" where
  "closed_text s \<longleftrightarrow> s = [] \<or> last s = newline"

lemma concat_Lines [simp]: "concat (Lines s) = s"
  by (induction s) (auto split: list.splits)

lemma Lines_eq_Nil [simp]: "Lines s = [] \<longleftrightarrow> s = []"
  by (cases s) (auto split: list.splits)

lemma full_line_Cons: "c \<noteq> newline \<Longrightarrow> full_line l \<Longrightarrow> full_line (c # l)"
  unfolding full_line_def by (metis append_Cons set_ConsD)

lemma full_line_newline [simp]: "full_line [newline]"
  by (auto simp: full_line_def)

lemma are_lines_Cons: "are_lines (l # ls) \<longleftrightarrow> (full_line l \<or> ls = [] \<and> open_line l) \<and> are_lines ls"
  by (cases ls) auto

lemma are_lines_Lines: "are_lines (Lines s)"
proof (induction s)
  case (Cons c cs)
  then show ?case
    by (auto simp: are_lines_Cons full_line_Cons open_line_def split: list.splits)
qed simp

lemma Lines_full: "newline \<notin> set b \<Longrightarrow> Lines (b @ newline # s) = (b @ [newline]) # Lines s"
  by (induction b) auto

lemma Lines_open: "newline \<notin> set b \<Longrightarrow> b \<noteq> [] \<Longrightarrow> Lines b = [b]"
proof (induction b)
  case (Cons c cs)
  then show ?case by (cases "cs = []") auto
qed simp

lemma Lines_concat: "are_lines ls \<Longrightarrow> Lines (concat ls) = ls"
proof (induction ls)
  case (Cons l ls)
  then show ?case by (auto simp: are_lines_Cons full_line_def open_line_def Lines_full Lines_open)
qed simp

lemma Lines_append: "closed_text a \<Longrightarrow> Lines (a @ b) = Lines a @ Lines b"
proof (induction a)
  case (Cons c cs)
  then have "closed_text cs" by (auto simp: closed_text_def split: if_splits)
  with Cons show ?case by (auto simp: closed_text_def split: list.splits if_splits)
qed simp

lemma closed_text_simps [simp]:
  "closed_text []" "closed_text (a @ [newline])" "closed_text b \<Longrightarrow> closed_text a \<Longrightarrow> closed_text (a @ b)"
  by (auto simp: closed_text_def last_append)

subsection \<open>Trimming a set of bytes\<close>

definition TrimLeft :: "string \<Rightarrow> string \<Rightarrow> string" where
  "TrimLeft s cutset = dropWhile (\<lambda>c. c \<in> set cutset) s"

definition TrimRight :: "string \<Rightarrow> string \<Rightarrow> string" where
  "TrimRight s cutset = rev (dropWhile (\<lambda>c. c \<in> set cutset) (rev s))"

lemma TrimLeft_parts:
  "set a \<subseteq> set cutset \<Longrightarrow> b = [] \<or> hd b \<notin> set cutset \<Longrightarrow> TrimLeft (a @ b) cutset = b"
  unfolding TrimLeft_def by (induction a) (auto simp: dropWhile_eq_self_iff)

lemma TrimRight_parts:
  assumes "set b \<subseteq> set cutset" and "a = [] \<or> last a \<notin> set cutset"
  shows "TrimRight (a @ b) cutset = a"
proof -
  have "rev a = [] \<or> hd (rev a) \<notin> set cutset" using assms(2) by (auto simp: hd_rev)
  then have "dropWhile (\<lambda>c. c \<in> set cutset) (rev b @ rev a) = rev a"
    using TrimLeft_parts [of "rev b" cutset "rev a"] assms(1) by (simp add: TrimLeft_def)
  then show ?thesis by (simp add: TrimRight_def)
qed

lemma TrimRight_stops: "c \<notin> set cutset \<Longrightarrow> TrimRight (a @ c # b) cutset = a @ c # TrimRight b cutset"
  by (simp add: TrimRight_def dropWhile_append3)

lemma TrimLeft_split:
  obtains a where "s = a @ TrimLeft s cutset" and "set a \<subseteq> set cutset"
    and "TrimLeft s cutset = [] \<or> hd (TrimLeft s cutset) \<notin> set cutset"
proof
  show "s = takeWhile (\<lambda>c. c \<in> set cutset) s @ TrimLeft s cutset" by (simp add: TrimLeft_def)
  show "set (takeWhile (\<lambda>c. c \<in> set cutset) s) \<subseteq> set cutset" by (auto dest: set_takeWhileD)
  show "TrimLeft s cutset = [] \<or> hd (TrimLeft s cutset) \<notin> set cutset"
    unfolding TrimLeft_def by (metis hd_dropWhile)
qed

lemma TrimRight_split:
  obtains b where "s = TrimRight s cutset @ b" and "set b \<subseteq> set cutset"
    and "TrimRight s cutset = [] \<or> last (TrimRight s cutset) \<notin> set cutset"
proof (rule TrimLeft_split [of "rev s" cutset])
  fix a assume a: "rev s = a @ TrimLeft (rev s) cutset" "set a \<subseteq> set cutset"
    "TrimLeft (rev s) cutset = [] \<or> hd (TrimLeft (rev s) cutset) \<notin> set cutset"
  have r: "TrimRight s cutset = rev (TrimLeft (rev s) cutset)" by (simp add: TrimRight_def TrimLeft_def)
  have "s = rev (a @ TrimLeft (rev s) cutset)" using a(1) by (metis rev_rev_ident)
  then have "s = TrimRight s cutset @ rev a" unfolding r by simp
  moreover have "TrimRight s cutset = [] \<or> last (TrimRight s cutset) \<notin> set cutset"
    unfolding r using a(3) by (auto simp: last_rev)
  ultimately show thesis using a(2) that [of "rev a"] by simp
qed

subsection \<open>Trimming white space\<close>

text \<open>The encodings of the runes \<open>unicode.IsSpace\<close> accepts.\<close>

definition white_space :: "string list" where
  "white_space =
     [[CHR 0x09], [CHR 0x0A], [CHR 0x0B], [CHR 0x0C], [CHR 0x0D], [CHR 0x20], [CHR 0xC2, CHR 0x85], [CHR 0xC2, CHR 0xA0],
      [CHR 0xE1, CHR 0x9A, CHR 0x80],
      [CHR 0xE2, CHR 0x80, CHR 0x80], [CHR 0xE2, CHR 0x80, CHR 0x81], [CHR 0xE2, CHR 0x80, CHR 0x82],
      [CHR 0xE2, CHR 0x80, CHR 0x83], [CHR 0xE2, CHR 0x80, CHR 0x84], [CHR 0xE2, CHR 0x80, CHR 0x85],
      [CHR 0xE2, CHR 0x80, CHR 0x86], [CHR 0xE2, CHR 0x80, CHR 0x87], [CHR 0xE2, CHR 0x80, CHR 0x88],
      [CHR 0xE2, CHR 0x80, CHR 0x89], [CHR 0xE2, CHR 0x80, CHR 0x8A],
      [CHR 0xE2, CHR 0x80, CHR 0xA8], [CHR 0xE2, CHR 0x80, CHR 0xA9], [CHR 0xE2, CHR 0x80, CHR 0xAF],
      [CHR 0xE2, CHR 0x81, CHR 0x9F], [CHR 0xE3, CHR 0x80, CHR 0x80]]"

text \<open>Remove sequences of the list from the front for as long as one is there.\<close>

function strip :: "string list \<Rightarrow> string \<Rightarrow> string" where
  "strip ps s =
     (case find (\<lambda>p. p \<noteq> [] \<and> is_prefix_of p s) ps of
        None \<Rightarrow> s
      | Some p \<Rightarrow> strip ps (drop (length p) s))"
  by pat_completeness auto

termination
proof (relation "measure (\<lambda>(ps, s). length s)")
  fix ps s p assume "find (\<lambda>p. p \<noteq> [] \<and> is_prefix_of p s) ps = Some p"
  then have "p \<noteq> []" "is_prefix_of p s" by (auto dest: find_SomeD)
  then show "((ps, drop (length p) s), (ps, s)) \<in> measure (\<lambda>(ps, s). length s)"
    by (cases s) (auto simp: is_prefix_of_iff)
qed simp

declare strip.simps [simp del]

definition TrimSpace :: "string \<Rightarrow> string" where
  "TrimSpace s = rev (strip (map rev white_space) (rev (strip white_space s)))"

text \<open>Nothing to remove.\<close>

definition bare :: "string list \<Rightarrow> string \<Rightarrow> bool" where
  "bare ps s \<longleftrightarrow> (\<forall>p \<in> set ps. p \<noteq> [] \<longrightarrow> \<not> is_prefix_of p s)"

lemma bare_find: "bare ps s \<longleftrightarrow> find (\<lambda>p. p \<noteq> [] \<and> is_prefix_of p s) ps = None"
  by (auto simp: bare_def find_None_iff)

lemma strip_bare: "bare ps s \<Longrightarrow> strip ps s = s"
  by (simp add: bare_find strip.simps [of ps s])

lemma bare_strip: "bare ps (strip ps s)"
proof (induction ps s rule: strip.induct)
  case (1 ps s)
  show ?case
  proof (cases "find (\<lambda>p. p \<noteq> [] \<and> is_prefix_of p s) ps")
    case None
    then show ?thesis by (simp add: bare_find strip.simps [of ps s])
  next
    case (Some p)
    with 1 [OF Some] show ?thesis by (simp add: strip.simps [of ps s])
  qed
qed

lemma bare_prefix: "bare ps (a @ b) \<Longrightarrow> bare ps a"
  by (auto simp: bare_def is_prefix_of_iff)

lemma strip_suffix: "\<exists>a. s = a @ strip ps s"
proof (induction ps s rule: strip.induct)
  case (1 ps s)
  show ?case
  proof (cases "find (\<lambda>p. p \<noteq> [] \<and> is_prefix_of p s) ps")
    case None
    then show ?thesis by (simp add: strip.simps [of ps s])
  next
    case (Some p)
    then obtain b where b: "s = p @ b" by (auto dest!: find_SomeD simp: is_prefix_of_iff)
    from 1 [OF Some] obtain a where "b = a @ strip ps b" using b by auto
    with Some b have "s = (p @ a) @ strip ps s" by (simp add: strip.simps [of ps "p @ b"])
    then show ?thesis by blast
  qed
qed

text \<open>A byte that is in none of the sequences stops the trimming.\<close>

lemma prefix_stops: "c \<notin> set p \<Longrightarrow> is_prefix_of p (a @ c # b) \<longleftrightarrow> is_prefix_of p a"
proof (induction p arbitrary: a)
  case (Cons x p)
  then show ?case by (cases a) auto
qed simp

lemma strip_stops:
  assumes "c \<notin> set (concat ps)"
  shows "strip ps (a @ c # b) = strip ps a @ c # b"
  using assms
proof (induction ps a rule: strip.induct)
  case (1 ps a)
  have eq: "find (\<lambda>p. p \<noteq> [] \<and> is_prefix_of p (a @ c # b)) ps = find (\<lambda>p. p \<noteq> [] \<and> is_prefix_of p a) ps"
    using 1(2) by (intro find_cong) (auto simp: prefix_stops)
  show ?case
  proof (cases "find (\<lambda>p. p \<noteq> [] \<and> is_prefix_of p a) ps")
    case None
    with eq show ?thesis by (simp add: strip.simps [of ps a] strip.simps [of ps "a @ c # b"])
  next
    case (Some p)
    then obtain d where d: "a = p @ d" by (auto dest!: find_SomeD simp: is_prefix_of_iff)
    with 1(1) [OF Some 1(2)] Some eq show ?thesis
      by (simp add: strip.simps [of ps "p @ d"] strip.simps [of ps "p @ d @ c # b"])
  qed
qed

lemma set_concat_rev [simp]: "set (concat (map rev ps)) = set (concat ps)"
  by (induction ps) auto

lemma TrimSpace_around:
  assumes "c \<notin> set (concat white_space)"
  shows "TrimSpace (a @ c # b) = strip white_space a @ c # rev (strip (map rev white_space) (rev b))"
  using strip_stops [OF assms, of a b] strip_stops [of c "map rev white_space" "rev b" "rev (strip white_space a)"] assms
  by (simp add: TrimSpace_def del: set_concat)

lemma TrimSpace_prefix: "\<exists>b. strip white_space s = TrimSpace s @ b"
proof -
  obtain a where "rev (strip white_space s) = a @ strip (map rev white_space) (rev (strip white_space s))"
    using strip_suffix by blast
  then have "strip white_space s = TrimSpace s @ rev a"
    by (metis TrimSpace_def rev_append rev_rev_ident)
  then show ?thesis by blast
qed

lemma TrimSpace_hd:
  assumes "c \<notin> set (concat white_space)" and "TrimSpace a \<noteq> []"
  shows "TrimSpace (a @ c # b) \<noteq> []" and "hd (TrimSpace (a @ c # b)) = hd (TrimSpace a)"
proof -
  obtain d where "strip white_space a = TrimSpace a @ d" using TrimSpace_prefix by blast
  with assms(2) show "TrimSpace (a @ c # b) \<noteq> []" "hd (TrimSpace (a @ c # b)) = hd (TrimSpace a)"
    by (simp_all add: TrimSpace_around [OF assms(1)])
qed

lemma TrimSpace_enclosed:
  assumes "c \<notin> set (concat white_space)" and "d \<notin> set (concat white_space)"
  shows "TrimSpace (c # x @ [d]) = c # x @ [d]"
proof -
  have bare: "bare ps []" for ps by (auto simp: bare_def is_prefix_of_iff)
  have "strip (map rev white_space) (rev (x @ [d])) = rev (x @ [d])"
    using strip_stops [of d "map rev white_space" "[]" "rev x"] assms(2) strip_bare [OF bare] by (simp del: set_concat)
  with TrimSpace_around [OF assms(1), of "[]" "x @ [d]"] strip_bare [OF bare] show ?thesis by simp
qed

lemma space_alone: "p \<in> set white_space \<Longrightarrow> CHR '' '' \<in> set p \<Longrightarrow> p = '' ''"
  unfolding white_space_def by auto

lemma bare_TrimSpace: "bare white_space (TrimSpace s)" "bare (map rev white_space) (rev (TrimSpace s))"
proof -
  show "bare white_space (TrimSpace s)"
    using bare_strip [of white_space s] TrimSpace_prefix [of s] bare_prefix by metis
  show "bare (map rev white_space) (rev (TrimSpace s))"
    unfolding TrimSpace_def by (simp add: bare_strip)
qed

lemma TrimSpace_idem [simp]: "TrimSpace (TrimSpace s) = TrimSpace s"
  using bare_TrimSpace [of s] by (simp add: TrimSpace_def [of "TrimSpace s"] strip_bare)

lemma TrimSpace_space:
  assumes "TrimSpace s \<noteq> []"
  shows "TrimSpace (TrimSpace s @ '' '') = TrimSpace s"
proof -
  let ?k = "TrimSpace s"
  have "bare white_space (?k @ '' '')"
    unfolding bare_def
  proof (intro ballI impI notI)
    fix p assume p: "p \<in> set white_space" "p \<noteq> []" "is_prefix_of p (?k @ '' '')"
    then obtain z where z: "?k @ '' '' = p @ z" by (auto simp: is_prefix_of_iff)
    show False
    proof (cases z rule: rev_cases)
      case Nil
      with z have "p = ?k @ '' ''" by simp
      with space_alone [OF p(1)] assms show False by simp
    next
      case (snoc y c)
      with z have "?k = p @ y" by simp
      then have "is_prefix_of p ?k" by (auto simp: is_prefix_of_iff)
      with bare_TrimSpace(1) [of s] p show False by (auto simp: bare_def)
    qed
  qed
  moreover have "strip (map rev white_space) (rev (?k @ '' '')) = rev ?k"
  proof -
    have "find (\<lambda>p. p \<noteq> [] \<and> is_prefix_of p (CHR '' '' # rev ?k)) (map rev white_space) = Some '' ''"
      by (simp add: white_space_def)
    then show ?thesis
      using strip_bare [OF bare_TrimSpace(2), of s] by (simp add: strip.simps [of _ "CHR '' '' # rev ?k"])
  qed
  ultimately show ?thesis by (simp add: TrimSpace_def [of "?k @ '' ''"] strip_bare)
qed

end
