(* ===== verification/Config_Document.thy ===== *)
theory Config_Document
  imports Go_Text
begin

text \<open>
  The configuration editor (\<open>internal/mods/config/document.go\<close>): a plugin's \<open>.cfg\<close> file held as its lines, the
  first assignment of each setting indexed, and edits that replace the bytes of one value. \<open>strings.ToLower\<close>
  is the argument \<open>lower\<close>; nothing is assumed of it. The theory shows that a document and the text it writes
  stay in step: reading the written text gives the settings the document holds.
\<close>

subsection \<open>Documents\<close>

datatype lineKind = kindOther | kindComment | kindSetting

record docLine =
  dl_raw :: string
  dl_kind :: lineKind
  dl_section :: string
  dl_key :: string
  valStart :: nat
  valEnd :: nat

type_synonym settingKey = "string \<times> string"

record Document =
  doc_lines :: "docLine list"
  doc_index :: "settingKey \<rightharpoonup> nat"

record Setting =
  Section :: string
  Key :: string
  Value :: string
  Comments :: "string list"

datatype config_error = ErrNoSuchSetting | ErrValueSpansLines

abbreviation tab :: char where
  "tab \<equiv> CHR 0x09"

abbreviation carriage :: char where
  "carriage \<equiv> CHR 0x0D"

text \<open>The key and the bounds of the value in one line.\<close>

definition splitAssignment :: "string \<Rightarrow> (string \<times> nat \<times> nat) option" where
  "splitAssignment raw =
     (case cut_at CHR ''='' raw of
        None \<Rightarrow> None
      | Some (before, rest) \<Rightarrow>
          (let key = TrimSpace before; eq = length before in
           if key = [] then None
           else
             let lead = length rest - length (TrimLeft rest [CHR '' '', tab]);
                 trail = max (length (TrimRight rest [CHR '' '', tab, carriage, newline])) lead
             in Some (key, eq + 1 + lead, eq + 1 + trail)))"

text \<open>One turn of the loop of \<open>Parse\<close>: the line, and the section after it.\<close>

definition parse_line :: "string \<Rightarrow> string \<Rightarrow> docLine \<times> string" where
  "parse_line sec text =
     (let ln = \<lparr>dl_raw = text, dl_kind = kindOther, dl_section = sec, dl_key = [], valStart = 0, valEnd = 0\<rparr>;
          body = TrimSpace (TrimRight text [carriage, newline])
      in if body \<noteq> [] \<and> hd body = CHR ''['' \<and> last body = CHR '']'' then (ln, take (length body - 2) (tl body))
         else if body \<noteq> [] \<and> hd body = CHR ''#'' then (ln\<lparr>dl_kind := kindComment\<rparr>, sec)
         else case splitAssignment text of
             None \<Rightarrow> (ln, sec)
           | Some (key, start, stop) \<Rightarrow>
               (ln\<lparr>dl_kind := kindSetting, dl_key := key, valStart := start, valEnd := stop\<rparr>, sec))"

definition line_key :: "(string \<Rightarrow> string) \<Rightarrow> docLine \<Rightarrow> settingKey" where
  "line_key lower ln = (dl_section ln, lower (dl_key ln))"

definition parse_step :: "(string \<Rightarrow> string) \<Rightarrow> string \<Rightarrow> Document \<times> string \<Rightarrow> Document \<times> string" where
  "parse_step lower text st =
     (case st of (doc, sec) \<Rightarrow> case parse_line sec text of (ln, sec') \<Rightarrow>
        (\<lparr>doc_lines = doc_lines doc @ [ln],
          doc_index = (if dl_kind ln = kindSetting \<and> doc_index doc (line_key lower ln) = None
                       then (doc_index doc)(line_key lower ln \<mapsto> length (doc_lines doc)) else doc_index doc)\<rparr>, sec'))"

definition Parse :: "(string \<Rightarrow> string) \<Rightarrow> string \<Rightarrow> Document" where
  "Parse lower raw = fst (fold (parse_step lower) (Lines raw) (\<lparr>doc_lines = [], doc_index = Map.empty\<rparr>, []))"

definition Bytes :: "Document \<Rightarrow> string" where
  "Bytes d = concat (map dl_raw (doc_lines d))"

definition line_value :: "docLine \<Rightarrow> string" where
  "line_value ln = take (valEnd ln - valStart ln) (drop (valStart ln) (dl_raw ln))"

definition Get :: "(string \<Rightarrow> string) \<Rightarrow> Document \<Rightarrow> string \<Rightarrow> string \<Rightarrow> string option" where
  "Get lower d sec key =
     (case doc_index d (sec, lower key) of None \<Rightarrow> None | Some i \<Rightarrow> Some (line_value (doc_lines d ! i)))"

definition set_line :: "string \<Rightarrow> docLine \<Rightarrow> docLine" where
  "set_line v ln = ln\<lparr>dl_raw := take (valStart ln) (dl_raw ln) @ v @ drop (valEnd ln) (dl_raw ln),
     valEnd := valStart ln + length v\<rparr>"

definition Set :: "(string \<Rightarrow> string) \<Rightarrow> Document \<Rightarrow> string \<Rightarrow> string \<Rightarrow> string \<Rightarrow> config_error + Document" where
  "Set lower d sec key v =
     (if newline \<in> set v then Inl ErrValueSpansLines
      else case doc_index d (sec, lower key) of
          None \<Rightarrow> Inl ErrNoSuchSetting
        | Some i \<Rightarrow> Inr (d\<lparr>doc_lines := (doc_lines d)[i := set_line v (doc_lines d ! i)]\<rparr>))"

fun commentsAbove :: "docLine list \<Rightarrow> nat \<Rightarrow> string list" where
  "commentsAbove ls 0 = []"
| "commentsAbove ls (Suc j) =
     (if dl_kind (ls ! j) = kindComment then commentsAbove ls j @ [TrimRight (dl_raw (ls ! j)) [carriage, newline]] else [])"

definition Settings :: "(string \<Rightarrow> string) \<Rightarrow> Document \<Rightarrow> Setting list" where
  "Settings lower d =
     map (\<lambda>i. let ln = doc_lines d ! i in
            \<lparr>Section = dl_section ln, Key = dl_key ln, Value = line_value ln, Comments = commentsAbove (doc_lines d) i\<rparr>)
       (filter (\<lambda>i. let ln = doc_lines d ! i in
            dl_kind ln = kindSetting \<and> map_get (doc_index d) 0 (line_key lower ln) = i) [0..<length (doc_lines d)])"

subsection \<open>The lines of a text\<close>

fun parse_lines :: "string \<Rightarrow> string list \<Rightarrow> docLine list" where
  "parse_lines sec [] = []"
| "parse_lines sec (t # ts) = fst (parse_line sec t) # parse_lines (snd (parse_line sec t)) ts"

fun section_after :: "string \<Rightarrow> string list \<Rightarrow> string" where
  "section_after sec [] = sec"
| "section_after sec (t # ts) = section_after (snd (parse_line sec t)) ts"

definition is_key :: "(string \<Rightarrow> string) \<Rightarrow> settingKey \<Rightarrow> docLine \<Rightarrow> bool" where
  "is_key lower k ln \<longleftrightarrow> dl_kind ln = kindSetting \<and> line_key lower ln = k"

fun first_at :: "(string \<Rightarrow> string) \<Rightarrow> docLine list \<Rightarrow> settingKey \<Rightarrow> nat option" where
  "first_at lower [] k = None"
| "first_at lower (ln # ls) k = (if is_key lower k ln then Some 0 else map_option Suc (first_at lower ls k))"

text \<open>The assignments of a text, in order; the first of a key is the one in effect.\<close>

definition assigns :: "(string \<Rightarrow> string) \<Rightarrow> docLine list \<Rightarrow> (settingKey \<times> string) list" where
  "assigns lower ls = map (\<lambda>ln. (line_key lower ln, line_value ln)) (filter (\<lambda>ln. dl_kind ln = kindSetting) ls)"

definition lookup :: "(string \<Rightarrow> string) \<Rightarrow> string \<Rightarrow> settingKey \<rightharpoonup> string" where
  "lookup lower raw = map_of (assigns lower (parse_lines [] (Lines raw)))"

lemma parse_lines_append:
  "parse_lines sec (a @ b) = parse_lines sec a @ parse_lines (section_after sec a) b"
  by (induction a arbitrary: sec) simp_all

lemma section_after_append:
  "section_after sec (a @ b) = section_after (section_after sec a) b"
  by (induction a arbitrary: sec) simp_all

lemma assigns_append [simp]: "assigns lower (a @ b) = assigns lower a @ assigns lower b"
  by (simp add: assigns_def)

lemma assigns_simps [simp]:
  "assigns lower [] = []"
  "dl_kind ln = kindSetting \<Longrightarrow> assigns lower (ln # ls) = (line_key lower ln, line_value ln) # assigns lower ls"
  "dl_kind ln \<noteq> kindSetting \<Longrightarrow> assigns lower (ln # ls) = assigns lower ls"
  by (simp_all add: assigns_def)

lemma first_at_snoc:
  "first_at lower (ls @ [ln]) k =
     (case first_at lower ls k of Some i \<Rightarrow> Some i | None \<Rightarrow> if is_key lower k ln then Some (length ls) else None)"
  by (induction ls) (auto split: option.splits)

lemma first_at_Some:
  "first_at lower ls k = Some i \<Longrightarrow> i < length ls \<and> is_key lower k (ls ! i) \<and> (\<forall>j < i. \<not> is_key lower k (ls ! j))"
  by (induction ls arbitrary: i) (auto split: if_splits simp: less_Suc_eq_0_disj)

lemma first_at_lookup: "map_of (assigns lower ls) k = map_option (\<lambda>i. line_value (ls ! i)) (first_at lower ls k)"
proof (induction ls)
  case (Cons ln ls)
  then show ?case
    by (cases "dl_kind ln = kindSetting") (auto simp: is_key_def option.map_comp comp_def)
qed simp

lemma parse_raw [simp]:
  "dl_raw (fst (parse_line sec t)) = t" "dl_section (fst (parse_line sec t)) = sec"
  by (auto simp: parse_line_def Let_def split: option.splits)

lemma parse_lines_raw [simp]: "map dl_raw (parse_lines sec ts) = ts"
  by (induction ts arbitrary: sec) simp_all

lemma Parse_fold:
  assumes "doc_index d = first_at lower (doc_lines d)"
  shows "fold (parse_step lower) ts (d, sec) =
    (\<lparr>doc_lines = doc_lines d @ parse_lines sec ts, doc_index = first_at lower (doc_lines d @ parse_lines sec ts)\<rparr>,
     section_after sec ts)"
  using assms
proof (induction ts arbitrary: d sec)
  case Nil
  then show ?case by simp
next
  case (Cons t ts)
  obtain ln sec1 where p: "parse_line sec t = (ln, sec1)" by fastforce
  let ?d = "\<lparr>doc_lines = doc_lines d @ [ln], doc_index = first_at lower (doc_lines d @ [ln])\<rparr>"
  have "(if dl_kind ln = kindSetting \<and> doc_index d (line_key lower ln) = None
      then (doc_index d)(line_key lower ln \<mapsto> length (doc_lines d)) else doc_index d) = first_at lower (doc_lines d @ [ln])"
    by (rule ext) (auto simp: Cons.prems first_at_snoc is_key_def split: option.splits)
  then have "parse_step lower t (d, sec) = (?d, sec1)" by (simp add: parse_step_def p)
  with Cons.IH [of ?d sec1] p show ?case by simp
qed

lemma Parse_eq:
  "Parse lower raw = \<lparr>doc_lines = parse_lines [] (Lines raw), doc_index = first_at lower (parse_lines [] (Lines raw))\<rparr>"
proof -
  have "first_at lower [] = Map.empty" by (rule ext) simp
  with Parse_fold [of "\<lparr>doc_lines = [], doc_index = Map.empty\<rparr>" lower "Lines raw" "[]"] show ?thesis
    by (simp add: Parse_def)
qed

lemma Bytes_Parse: "Bytes (Parse lower raw) = raw"
  by (simp add: Bytes_def Parse_eq)

lemma Get_Parse: "Get lower (Parse lower raw) s k = lookup lower raw (s, lower k)"
  by (simp add: Get_def Parse_eq lookup_def first_at_lookup split: option.splits)

subsection \<open>Setting lines\<close>

text \<open>A value as \<open>splitAssignment\<close> bounds it.\<close>

definition tidy :: "string \<Rightarrow> bool" where
  "tidy v \<longleftrightarrow> newline \<notin> set v \<and>
     (v = [] \<or> hd v \<notin> {CHR '' '', tab} \<and> last v \<notin> {CHR '' '', tab, carriage, newline})"

text \<open>A key that cannot turn its line into a section header or a comment.\<close>

definition plain_key :: "string \<Rightarrow> bool" where
  "plain_key k \<longleftrightarrow> k \<noteq> [] \<and> hd k \<noteq> CHR ''['' \<and> hd k \<noteq> CHR ''#''"

text \<open>A setting line in parts: the key with its padding, the blanks before the value, the value, the rest.\<close>

definition parts :: "docLine \<Rightarrow> string \<Rightarrow> string \<Rightarrow> string \<Rightarrow> string \<Rightarrow> bool" where
  "parts ln k0 sp v post \<longleftrightarrow> dl_raw ln = k0 @ CHR ''='' # sp @ v @ post \<and> CHR ''='' \<notin> set k0 \<and>
     set sp \<subseteq> {CHR '' '', tab} \<and> tidy v \<and> set post \<subseteq> {CHR '' '', tab, carriage, newline} \<and>
     valStart ln = length k0 + 1 + length sp \<and> valEnd ln = valStart ln + length v \<and>
     dl_key ln = TrimSpace k0 \<and> plain_key (dl_key ln)"

definition shaped :: "docLine \<Rightarrow> bool" where
  "shaped ln \<longleftrightarrow> (\<exists>k0 sp v post. parts ln k0 sp v post)"

lemma parts_value: "parts ln k0 sp v post \<Longrightarrow> line_value ln = v"
  by (simp add: parts_def line_value_def)

lemma separators_not_space [simp]:
  "CHR ''='' \<notin> set (concat white_space)" "CHR ''['' \<notin> set (concat white_space)" "CHR '']'' \<notin> set (concat white_space)"
  by (simp_all add: white_space_def)

lemma splitAssignment_parts:
  assumes "CHR ''='' \<notin> set k0" "set sp \<subseteq> {CHR '' '', tab}" "tidy v"
    "set post \<subseteq> {CHR '' '', tab, carriage, newline}" "TrimSpace k0 \<noteq> []"
  shows "\<exists>start stop. splitAssignment (k0 @ CHR ''='' # sp @ v @ post) = Some (TrimSpace k0, start, stop) \<and>
    take (stop - start) (drop start (k0 @ CHR ''='' # sp @ v @ post)) = v"
proof -
  let ?rest = "sp @ v @ post"
  let ?trail = "length (TrimRight ?rest [CHR '' '', tab, carriage, newline])"
  let ?lead = "length ?rest - length (TrimLeft ?rest [CHR '' '', tab])"
  have cut: "cut_at CHR ''='' (k0 @ CHR ''='' # ?rest) = Some (k0, ?rest)"
    using assms(1) by (simp add: cut_at_Some)
  have "take (max ?trail ?lead - ?lead) (drop ?lead ?rest) = v"
  proof (cases "v = []")
    case True
    have "TrimRight ([] @ sp @ post) [CHR '' '', tab, carriage, newline] = []"
      by (rule TrimRight_parts) (use assms(2,4) in auto)
    with True show ?thesis by simp
  next
    case False
    have "TrimRight ((sp @ v) @ post) [CHR '' '', tab, carriage, newline] = sp @ v"
      by (rule TrimRight_parts) (use assms(3,4) False in \<open>auto simp: tidy_def\<close>)
    moreover have "TrimLeft (sp @ (v @ post)) [CHR '' '', tab] = v @ post"
      by (rule TrimLeft_parts) (use assms(2,3) False in \<open>auto simp: tidy_def\<close>)
    ultimately show ?thesis by simp
  qed
  then show ?thesis
    using assms(5) by (simp add: splitAssignment_def cut Let_def)
qed

text \<open>What a line is read as depends on its parts only.\<close>

lemma parse_line_parts:
  assumes "CHR ''='' \<notin> set k0" "set sp \<subseteq> {CHR '' '', tab}" "tidy v"
    "set post \<subseteq> {CHR '' '', tab, carriage, newline}" "plain_key (TrimSpace k0)"
  defines "raw \<equiv> k0 @ CHR ''='' # sp @ v @ post"
  shows "snd (parse_line sec raw) = sec" and "dl_kind (fst (parse_line sec raw)) = kindSetting"
    and "dl_key (fst (parse_line sec raw)) = TrimSpace k0" and "line_value (fst (parse_line sec raw)) = v"
proof -
  have k: "TrimSpace k0 \<noteq> []" using assms(5) by (simp add: plain_key_def)
  let ?body = "TrimSpace (TrimRight raw [carriage, newline])"
  have "?body \<noteq> []" "hd ?body = hd (TrimSpace k0)"
    unfolding raw_def using TrimSpace_hd [OF separators_not_space(1) k] by (simp_all add: TrimRight_stops)
  with assms(5) have not: "\<not> (?body \<noteq> [] \<and> hd ?body = CHR ''['' \<and> last ?body = CHR '']'')" "\<not> (?body \<noteq> [] \<and> hd ?body = CHR ''#'')"
    by (simp_all add: plain_key_def)
  obtain start stop where s: "splitAssignment raw = Some (TrimSpace k0, start, stop)"
    "take (stop - start) (drop start raw) = v"
    using splitAssignment_parts [OF assms(1-4) k] unfolding raw_def by blast
  have "parse_line sec raw = (\<lparr>dl_raw = raw, dl_kind = kindSetting, dl_section = sec, dl_key = TrimSpace k0,
      valStart = start, valEnd = stop\<rparr>, sec)"
    unfolding parse_line_def Let_def using not s(1) by simp
  then show "snd (parse_line sec raw) = sec" "dl_kind (fst (parse_line sec raw)) = kindSetting"
    "dl_key (fst (parse_line sec raw)) = TrimSpace k0" "line_value (fst (parse_line sec raw)) = v"
    using s(2) by (simp_all add: line_value_def)
qed

text \<open>Conversely a line that is read as a setting has such parts, unless its key starts with a bracket.\<close>

lemma splitAssignment_shape:
  assumes "splitAssignment raw = Some (key, start, stop)" and "full_line raw \<or> open_line raw"
  shows "\<exists>k0 sp v post. raw = k0 @ CHR ''='' # sp @ v @ post \<and> CHR ''='' \<notin> set k0 \<and> set sp \<subseteq> {CHR '' '', tab} \<and>
    tidy v \<and> set post \<subseteq> {CHR '' '', tab, carriage, newline} \<and> start = length k0 + 1 + length sp \<and>
    stop = start + length v \<and> key = TrimSpace k0 \<and> key \<noteq> []"
proof -
  let ?blank = "[CHR '' '', tab]" and ?eol = "[CHR '' '', tab, carriage, newline]"
  from assms(1) obtain k0 rest where c: "cut_at CHR ''='' raw = Some (k0, rest)" and key: "key = TrimSpace k0" "key \<noteq> []"
    and st: "start = length k0 + 1 + (length rest - length (TrimLeft rest ?blank))"
    and en: "stop = length k0 + 1 + max (length (TrimRight rest ?eol)) (length rest - length (TrimLeft rest ?blank))"
    by (auto simp: splitAssignment_def Let_def split: option.splits prod.splits if_splits)
  from c have raw: "raw = k0 @ CHR ''='' # rest" "CHR ''='' \<notin> set k0" by (simp_all add: cut_at_Some)
  obtain sp where sp: "rest = sp @ TrimLeft rest ?blank" "set sp \<subseteq> set ?blank"
      "TrimLeft rest ?blank = [] \<or> hd (TrimLeft rest ?blank) \<notin> set ?blank"
    by (rule TrimLeft_split)
  let ?t = "TrimLeft rest ?blank"
  obtain post where po: "?t = TrimRight ?t ?eol @ post" "set post \<subseteq> set ?eol"
      "TrimRight ?t ?eol = [] \<or> last (TrimRight ?t ?eol) \<notin> set ?eol"
    by (rule TrimRight_split)
  let ?v = "TrimRight ?t ?eol"
  have lead: "length rest - length ?t = length sp" using sp(1) by (metis add_diff_cancel_right' length_append)
  have trail: "max (length (TrimRight rest ?eol)) (length sp) = length sp + length ?v"
  proof (cases "?v = []")
    case True
    with po sp have "TrimRight ([] @ rest) ?eol = []" by (intro TrimRight_parts) auto
    with True show ?thesis by simp
  next
    case False
    have "TrimRight ((sp @ ?v) @ post) ?eol = sp @ ?v" by (rule TrimRight_parts) (use po False in auto)
    with sp(1) po(1) have "TrimRight rest ?eol = sp @ ?v" by (metis append.assoc)
    then show ?thesis by simp
  qed
  have nl: "newline \<notin> set ?v"
  proof
    assume "newline \<in> set ?v"
    then obtain x y where xy: "?v = x @ newline # y" by (auto simp: in_set_conv_decomp)
    from raw sp(1) po(1) have r: "raw = (k0 @ CHR ''='' # sp @ x) @ newline # (y @ post)"
      by (metis xy append.assoc append_Cons)
    with assms(2) have "y @ post = []"
      by (auto simp: full_line_def open_line_def append_eq_append_conv2 append_eq_Cons_conv Cons_eq_append_conv)
    with xy po(3) show False by simp
  qed
  have hd: "?v = [] \<or> hd ?v \<notin> set ?blank" using sp(3) po(1) by (metis append_is_Nil_conv hd_append2)
  have "tidy ?v" using nl hd po(3) by (auto simp: tidy_def)
  moreover have "raw = k0 @ CHR ''='' # sp @ ?v @ post" using raw(1) sp(1) po(1) by simp
  ultimately show ?thesis using raw(2) sp(2) po(2) st en lead trail key by (intro exI conjI) auto
qed

subsection \<open>Documents in step with their text\<close>

text \<open>Every line is what reading its bytes gives, up to where an empty value sits between blanks.\<close>

fun lines_ok :: "string \<Rightarrow> docLine list \<Rightarrow> bool" where
  "lines_ok sec [] = True"
| "lines_ok sec (ln # ls) =
     (dl_section ln = sec \<and> (if dl_kind ln = kindSetting then shaped ln else ln = fst (parse_line sec (dl_raw ln))) \<and>
      lines_ok (snd (parse_line sec (dl_raw ln))) ls)"

definition doc_ok :: "(string \<Rightarrow> string) \<Rightarrow> Document \<Rightarrow> bool" where
  "doc_ok lower d \<longleftrightarrow> lines_ok [] (doc_lines d) \<and> are_lines (map dl_raw (doc_lines d)) \<and>
     doc_index d = first_at lower (doc_lines d)"

text \<open>No key starts with a bracket, which the format's writer rejects in keys.\<close>

definition plain_keys :: "string \<Rightarrow> bool" where
  "plain_keys raw \<longleftrightarrow> list_all (\<lambda>ln. dl_kind ln = kindSetting \<longrightarrow> hd (dl_key ln) \<noteq> CHR ''['') (parse_lines [] (Lines raw))"

definition settings_in :: "(string \<Rightarrow> string) \<Rightarrow> Document \<Rightarrow> settingKey \<rightharpoonup> string" where
  "settings_in lower d = map_of (assigns lower (doc_lines d))"

lemma shaped_reads:
  assumes "shaped ln"
  shows "snd (parse_line sec (dl_raw ln)) = sec" and "dl_kind (fst (parse_line sec (dl_raw ln))) = kindSetting"
    and "dl_key (fst (parse_line sec (dl_raw ln))) = dl_key ln" and "line_value (fst (parse_line sec (dl_raw ln))) = line_value ln"
proof -
  from assms obtain k0 sp v post where p: "parts ln k0 sp v post" by (auto simp: shaped_def)
  then have q: "CHR ''='' \<notin> set k0" "set sp \<subseteq> {CHR '' '', tab}" "tidy v"
    "set post \<subseteq> {CHR '' '', tab, carriage, newline}" "plain_key (TrimSpace k0)"
    and r: "dl_raw ln = k0 @ CHR ''='' # sp @ v @ post" "dl_key ln = TrimSpace k0"
    unfolding parts_def by metis+
  note l = parse_line_parts [OF q, of sec, folded r(1)]
  show "snd (parse_line sec (dl_raw ln)) = sec" by (rule l)
  show "dl_kind (fst (parse_line sec (dl_raw ln))) = kindSetting" by (rule l)
  show "dl_key (fst (parse_line sec (dl_raw ln))) = dl_key ln" using l(3) r(2) by simp
  show "line_value (fst (parse_line sec (dl_raw ln))) = line_value ln" using l(4) parts_value [OF p] by simp
qed

lemma lines_ok_reads: "lines_ok sec ls \<Longrightarrow> assigns lower (parse_lines sec (map dl_raw ls)) = assigns lower ls"
proof (induction ls arbitrary: sec)
  case (Cons ln ls)
  show ?case
  proof (cases "dl_kind ln = kindSetting")
    case True
    with Cons.prems have s: "shaped ln" "dl_section ln = sec" by simp_all
    have "line_key lower (fst (parse_line sec (dl_raw ln))) = line_key lower ln"
      using shaped_reads(3) [OF s(1), of sec] s(2) by (simp add: line_key_def)
    with Cons True shaped_reads [OF s(1), of sec] show ?thesis by simp
  next
    case False
    with Cons.prems have "fst (parse_line sec (dl_raw ln)) = ln" by simp
    with Cons False show ?thesis by simp
  qed
qed simp

lemma doc_ok_lookup: "doc_ok lower d \<Longrightarrow> lookup lower (Bytes d) = settings_in lower d"
  by (simp add: doc_ok_def lookup_def Bytes_def Lines_concat lines_ok_reads settings_in_def)

lemma doc_ok_Get: "doc_ok lower d \<Longrightarrow> Get lower d s k = settings_in lower d (s, lower k)"
  by (simp add: doc_ok_def Get_def settings_in_def first_at_lookup split: option.splits)

lemma parse_line_setting:
  assumes "dl_kind (fst (parse_line sec t)) = kindSetting" and "hd (dl_key (fst (parse_line sec t))) \<noteq> CHR ''[''"
    and "full_line t \<or> open_line t"
  shows "shaped (fst (parse_line sec t))"
proof -
  let ?body = "TrimSpace (TrimRight t [carriage, newline])"
  from assms(1) obtain key start stop where s: "splitAssignment t = Some (key, start, stop)"
    and nb: "\<not> (?body \<noteq> [] \<and> hd ?body = CHR ''#'')"
    and p: "parse_line sec t = (\<lparr>dl_raw = t, dl_kind = kindSetting, dl_section = sec, dl_key = key, valStart = start, valEnd = stop\<rparr>, sec)"
    unfolding parse_line_def Let_def by (auto split: if_splits option.splits)
  from splitAssignment_shape [OF s assms(3)] obtain k0 sp v post where h: "t = k0 @ CHR ''='' # sp @ v @ post"
    "CHR ''='' \<notin> set k0" "set sp \<subseteq> {CHR '' '', tab}" "tidy v" "set post \<subseteq> {CHR '' '', tab, carriage, newline}"
    "start = length k0 + 1 + length sp" "stop = start + length v" "key = TrimSpace k0" "key \<noteq> []"
    by blast
  have "?body \<noteq> []" "hd ?body = hd key"
    using TrimSpace_hd [OF separators_not_space(1), of k0] h(8,9) unfolding h(1) by (simp_all add: TrimRight_stops)
  with nb have "hd key \<noteq> CHR ''#''" by simp
  with assms(2) p h(9) have "plain_key key" by (simp add: plain_key_def)
  with h p have "parts (fst (parse_line sec t)) k0 sp v post" by (simp add: parts_def)
  then show ?thesis by (auto simp: shaped_def)
qed

lemma lines_ok_parse:
  assumes "are_lines ts" and "list_all (\<lambda>ln. dl_kind ln = kindSetting \<longrightarrow> hd (dl_key ln) \<noteq> CHR ''['') (parse_lines sec ts)"
  shows "lines_ok sec (parse_lines sec ts)"
  using assms
proof (induction ts arbitrary: sec)
  case (Cons t ts)
  then show ?case using parse_line_setting [of sec t] by (auto simp: are_lines_Cons)
qed simp

lemma doc_ok_Parse: "plain_keys raw \<Longrightarrow> doc_ok lower (Parse lower raw)"
  by (simp add: doc_ok_def Parse_eq plain_keys_def lines_ok_parse are_lines_Lines)

subsection \<open>Edits\<close>

lemma parts_set_line: "parts ln k0 sp w post \<Longrightarrow> tidy v \<Longrightarrow> parts (set_line v ln) k0 sp v post"
  by (auto simp: parts_def set_line_def)

lemma shaped_set_line: "shaped ln \<Longrightarrow> tidy v \<Longrightarrow> shaped (set_line v ln) \<and> line_value (set_line v ln) = v"
  unfolding shaped_def by (meson parts_set_line parts_value)

lemma set_line_simps [simp]:
  "dl_kind (set_line v ln) = dl_kind ln" "dl_section (set_line v ln) = dl_section ln" "dl_key (set_line v ln) = dl_key ln"
  "line_key lower (set_line v ln) = line_key lower ln" "is_key lower k (set_line v ln) = is_key lower k ln"
  by (simp_all add: set_line_def line_key_def is_key_def)

lemma full_line_append: "b \<noteq> [] \<Longrightarrow> full_line (a @ b) \<longleftrightarrow> newline \<notin> set a \<and> full_line b"
proof (induction b rule: rev_induct)
  case (snoc c b)
  then show ?case by (auto simp: full_line_def)
qed simp

lemma full_line_has_newline: "full_line l \<Longrightarrow> newline \<in> set l"
  by (auto simp: full_line_def)

lemma line_set_line:
  assumes "shaped ln" and "tidy v"
  shows "full_line (dl_raw ln) \<Longrightarrow> full_line (dl_raw (set_line v ln))"
    and "open_line (dl_raw ln) \<Longrightarrow> open_line (dl_raw (set_line v ln))"
proof -
  from assms(1) obtain k0 sp w post where p: "parts ln k0 sp w post" by (auto simp: shaped_def)
  have r: "dl_raw ln = k0 @ CHR ''='' # sp @ w @ post" "dl_raw (set_line v ln) = k0 @ CHR ''='' # sp @ v @ post"
    using p parts_set_line [OF p assms(2)] by (simp_all add: parts_def)
  have nl: "newline \<notin> set sp" "newline \<notin> set w" "newline \<notin> set v"
    using p assms(2) by (auto simp: parts_def tidy_def)
  show "full_line (dl_raw (set_line v ln))" if "full_line (dl_raw ln)"
  proof (cases "post = []")
    case True
    from that have "full_line (CHR ''='' # sp @ w)" unfolding r True by (simp add: full_line_append)
    from full_line_has_newline [OF this] nl show ?thesis by simp
  next
    case False
    then show ?thesis
      using that nl full_line_append [of post "k0 @ CHR ''='' # sp @ w"] full_line_append [of post "k0 @ CHR ''='' # sp @ v"]
      unfolding r by simp
  qed
  show "open_line (dl_raw (set_line v ln))" if "open_line (dl_raw ln)"
    using that nl unfolding r open_line_def by auto
qed

lemma lines_ok_update:
  "lines_ok sec ls \<Longrightarrow> i < length ls \<Longrightarrow> dl_kind (ls ! i) = kindSetting \<Longrightarrow> tidy v \<Longrightarrow>
     lines_ok sec (ls[i := set_line v (ls ! i)])"
proof (induction ls arbitrary: sec i)
  case (Cons ln ls)
  show ?case
  proof (cases i)
    case 0
    with Cons.prems have s: "shaped ln" "shaped (set_line v ln)" using shaped_set_line [of ln v] by simp_all
    from Cons.prems 0 shaped_reads(1) [OF s(1)] shaped_reads(1) [OF s(2)] s(2) show ?thesis by simp
  next
    case (Suc j)
    with Cons show ?thesis by simp
  qed
qed simp

lemma are_lines_update:
  "are_lines (map dl_raw ls) \<Longrightarrow> i < length ls \<Longrightarrow> shaped (ls ! i) \<Longrightarrow> tidy v \<Longrightarrow>
     are_lines (map dl_raw (ls[i := set_line v (ls ! i)]))"
proof (induction ls arbitrary: i)
  case (Cons ln ls)
  then show ?case using line_set_line [of ln v] by (cases i) (auto simp: are_lines_Cons)
qed simp

lemma lines_ok_nth: "lines_ok sec ls \<Longrightarrow> i < length ls \<Longrightarrow> dl_kind (ls ! i) = kindSetting \<Longrightarrow> shaped (ls ! i)"
proof (induction ls arbitrary: sec i)
  case (Cons ln ls)
  then show ?case by (cases i) auto
qed simp

lemma first_at_update: "first_at lower (ls[i := set_line v (ls ! i)]) k = first_at lower ls k"
proof (induction ls arbitrary: i)
  case (Cons ln ls)
  then show ?case by (cases i) simp_all
qed simp

text \<open>An edit keeps the document in step with its text and changes the one setting.\<close>

lemma Set_ok:
  assumes d: "doc_ok lower d" and v: "tidy v" and s: "Set lower d sec key v = Inr d'"
  shows "doc_ok lower d'" and "settings_in lower d' = (settings_in lower d)((sec, lower key) \<mapsto> v)"
proof -
  let ?k = "(sec, lower key)"
  from s obtain i where i: "doc_index d ?k = Some i"
    and d': "d' = d\<lparr>doc_lines := (doc_lines d)[i := set_line v (doc_lines d ! i)]\<rparr>"
    by (auto simp: Set_def split: if_splits option.splits)
  with d have f: "first_at lower (doc_lines d) ?k = Some i" by (simp add: doc_ok_def)
  from first_at_Some [OF this] have l: "i < length (doc_lines d)" "is_key lower ?k (doc_lines d ! i)" by simp_all
  then have k: "dl_kind (doc_lines d ! i) = kindSetting" by (simp add: is_key_def)
  from d l(1) k have sh: "shaped (doc_lines d ! i)" by (auto simp: doc_ok_def intro: lines_ok_nth)
  show "doc_ok lower d'"
    using d l(1) k sh v d' first_at_update [of lower "doc_lines d" i v]
    by (simp add: doc_ok_def lines_ok_update are_lines_update fun_eq_iff)
  show "settings_in lower d' = (settings_in lower d)(?k \<mapsto> v)"
  proof (rule ext)
    fix k'
    show "settings_in lower d' k' = ((settings_in lower d)(?k \<mapsto> v)) k'"
    proof (cases "k' = ?k")
      case True
      with f l(1) d' shaped_set_line [OF sh v] show ?thesis
        by (simp add: settings_in_def first_at_lookup first_at_update)
    next
      case False
      have "j \<noteq> i" if "first_at lower (doc_lines d) k' = Some j" for j
        using first_at_Some [OF that] l(2) False by (auto simp: is_key_def)
      with False d' show ?thesis
        by (auto simp: settings_in_def first_at_lookup first_at_update split: option.splits intro!: option.map_cong)
    qed
  qed
qed

lemma Set_succeeds:
  "doc_ok lower d \<Longrightarrow> tidy v \<Longrightarrow> settings_in lower d (sec, lower key) \<noteq> None \<Longrightarrow> \<exists>d'. Set lower d sec key v = Inr d'"
  by (auto simp: Set_def doc_ok_def settings_in_def first_at_lookup tidy_def split: option.splits)

text \<open>The bytes an edit writes: the old ones with the value replaced.\<close>

lemma Set_bytes:
  assumes d: "doc_ok lower d" and s: "Set lower d sec key v = Inr d'"
  shows "\<exists>before old after. Bytes d = before @ old @ after \<and> Bytes d' = before @ v @ after \<and> Get lower d sec key = Some old"
proof -
  from s obtain i where i: "doc_index d (sec, lower key) = Some i"
    and d': "d' = d\<lparr>doc_lines := (doc_lines d)[i := set_line v (doc_lines d ! i)]\<rparr>"
    by (auto simp: Set_def split: if_splits option.splits)
  with d have "i < length (doc_lines d) \<and> is_key lower (sec, lower key) (doc_lines d ! i)"
    using first_at_Some by (fastforce simp: doc_ok_def)
  then have l: "i < length (doc_lines d)" and sh: "shaped (doc_lines d ! i)"
    using d by (auto simp: doc_ok_def is_key_def intro: lines_ok_nth)
  let ?ln = "doc_lines d ! i"
  from sh obtain k0 sp w post where p: "parts ?ln k0 sp w post" by (auto simp: shaped_def)
  then have r: "dl_raw ?ln = (k0 @ CHR ''='' # sp) @ w @ post" "dl_raw (set_line v ?ln) = (k0 @ CHR ''='' # sp) @ v @ post"
    by (auto simp: parts_def set_line_def)
  let ?b = "concat (map dl_raw (take i (doc_lines d)))" and ?a = "concat (map dl_raw (drop (Suc i) (doc_lines d)))"
  have "Bytes d = (?b @ k0 @ CHR ''='' # sp) @ w @ (post @ ?a)"
    using r(1) unfolding Bytes_def by (subst id_take_nth_drop [OF l]) simp
  moreover have "Bytes d' = (?b @ k0 @ CHR ''='' # sp) @ v @ (post @ ?a)"
    using r(2) l unfolding Bytes_def d' by (simp add: upd_conv_take_nth_drop)
  moreover have "Get lower d sec key = Some w" using i parts_value [OF p] by (simp add: Get_def)
  ultimately show ?thesis by blast
qed

subsection \<open>Listing the settings\<close>

definition setting_pair :: "(string \<Rightarrow> string) \<Rightarrow> Setting \<Rightarrow> settingKey \<times> string" where
  "setting_pair lower s = ((Section s, lower (Key s)), Value s)"

text \<open>A setting that a written line gives back.\<close>

definition good_setting :: "Setting \<Rightarrow> bool" where
  "good_setting s \<longleftrightarrow> newline \<notin> set (Section s) \<and> newline \<notin> set (Key s) \<and> CHR ''='' \<notin> set (Key s) \<and>
     TrimSpace (Key s) = Key s \<and> plain_key (Key s) \<and> tidy (Value s)"

lemma first_at_key:
  assumes "i < length ls" and "dl_kind (ls ! i) = kindSetting"
  shows "\<exists>j \<le> i. first_at lower ls (line_key lower (ls ! i)) = Some j"
  using assms
proof (induction ls arbitrary: i)
  case (Cons ln ls)
  then show ?case by (cases i) (fastforce simp: is_key_def)+
qed simp

lemma Settings_pairs:
  assumes "doc_index d = first_at lower (doc_lines d)"
  shows "distinct (map (fst \<circ> setting_pair lower) (Settings lower d))"
    and "map_of (map (setting_pair lower) (Settings lower d)) = settings_in lower d"
proof -
  let ?ls = "doc_lines d"
  let ?P = "\<lambda>i. dl_kind (?ls ! i) = kindSetting \<and> map_get (doc_index d) 0 (line_key lower (?ls ! i)) = i"
  let ?f = "\<lambda>i. (line_key lower (?ls ! i), line_value (?ls ! i))"
  let ?is = "filter ?P [0..<length ?ls]"
  have eq: "map (setting_pair lower) (Settings lower d) = map ?f ?is"
    by (simp add: Settings_def setting_pair_def Let_def line_key_def)
  have inj: "inj_on (fst \<circ> ?f) (set ?is)"
  proof (rule inj_onI)
    fix i j assume ij: "i \<in> set ?is" "j \<in> set ?is" and e: "(fst \<circ> ?f) i = (fst \<circ> ?f) j"
    have p: "?P n" if "n \<in> set ?is" for n using that by (simp only: set_filter mem_Collect_eq)
    have "i = map_get (doc_index d) 0 (line_key lower (?ls ! i))" using p [OF ij(1)] by (simp only:)
    also have "\<dots> = map_get (doc_index d) 0 (line_key lower (?ls ! j))" using e by (simp only: comp_apply fst_conv)
    also have "\<dots> = j" using p [OF ij(2)] by (simp only:)
    finally show "i = j" .
  qed
  have dist: "distinct (map fst (map ?f ?is))"
    using inj by (simp add: distinct_map)
  then show "distinct (map (fst \<circ> setting_pair lower) (Settings lower d))"
    unfolding map_map [symmetric] eq .
  show "map_of (map (setting_pair lower) (Settings lower d)) = settings_in lower d"
  proof (rule ext)
    fix k
    have "map_of (map ?f ?is) k = map_option (\<lambda>i. line_value (?ls ! i)) (first_at lower ?ls k)"
    proof (cases "first_at lower ?ls k")
      case None
      have "k \<noteq> line_key lower (?ls ! i)" if "i \<in> set ?is" for i
      proof
        assume e: "k = line_key lower (?ls ! i)"
        from that have "i < length ?ls" "dl_kind (?ls ! i) = kindSetting" by simp_all
        from first_at_key [OF this, of lower] None e show False by simp
      qed
      then have "k \<notin> fst ` set (map ?f ?is)" 
        by (simp only: set_map image_image fst_conv image_iff bex_simps not_False_eq_True) blast
      then have "map_of (map ?f ?is) k = None" by (simp only: map_of_eq_None_iff not_False_eq_True)
      with None show ?thesis by simp
    next
      case (Some i)
      from first_at_Some [OF Some] have i: "i < length ?ls" "dl_kind (?ls ! i) = kindSetting" "line_key lower (?ls ! i) = k"
        by (simp_all add: is_key_def)
      have "map_get (doc_index d) 0 k = i" using assms Some by simp
      with i have "i \<in> set ?is" by simp
      then have "(k, line_value (?ls ! i)) \<in> set (map ?f ?is)" using i(3) by (metis (no_types, lifting) image_eqI set_map)
      with dist have "map_of (map ?f ?is) k = Some (line_value (?ls ! i))" by (rule map_of_is_SomeI)
      with Some show ?thesis by simp
    qed
    then show "map_of (map (setting_pair lower) (Settings lower d)) k = settings_in lower d k"
      unfolding eq settings_in_def first_at_lookup .
  qed
qed

lemma set_TrimSpace: "set (TrimSpace s) \<subseteq> set s"
proof -
  obtain a where "s = a @ strip white_space s" using strip_suffix by blast
  moreover obtain b where "strip white_space s = TrimSpace s @ b" using TrimSpace_prefix by blast
  ultimately have "s = a @ TrimSpace s @ b" by simp
  then show ?thesis by (metis set_append Un_upper1 Un_upper2 order_trans)
qed

lemma body_no_newline:
  assumes "full_line t \<or> open_line t"
  shows "newline \<notin> set (TrimSpace (TrimRight t [carriage, newline]))"
proof -
  obtain b where b: "t = TrimRight t [carriage, newline] @ b" "TrimRight t [carriage, newline] = [] \<or> last (TrimRight t [carriage, newline]) \<noteq> newline"
    by (rule TrimRight_split [of t "[carriage, newline]"]) auto
  let ?r = "TrimRight t [carriage, newline]"
  have "newline \<notin> set ?r"
  proof
    assume "newline \<in> set ?r"
    then obtain x y where r: "?r = x @ newline # y" by (auto simp: in_set_conv_decomp)
    with b(1) have "t = x @ newline # (y @ b)" by simp
    with assms have "y = []"
      by (auto simp: full_line_def open_line_def append_eq_append_conv2 append_eq_Cons_conv Cons_eq_append_conv)
    with r b(2) show False by simp
  qed
  then show ?thesis using set_TrimSpace by blast
qed

lemma section_no_newline:
  assumes "full_line t \<or> open_line t" and "newline \<notin> set sec"
  shows "newline \<notin> set (snd (parse_line sec t))"
proof -
  let ?body = "TrimSpace (TrimRight t [carriage, newline])"
  have "snd (parse_line sec t) = sec \<or> ?body \<noteq> [] \<and> snd (parse_line sec t) = take (length ?body - 2) (tl ?body)"
    unfolding parse_line_def Let_def by (auto split: option.splits)
  moreover have "set (take n (tl ?body)) \<subseteq> set ?body" for n
    by (cases ?body) (auto dest: in_set_takeD)
  ultimately show ?thesis using body_no_newline [OF assms(1)] assms(2) by (metis subsetD)
qed

lemma lines_ok_sections:
  assumes "lines_ok sec ls" "are_lines (map dl_raw ls)" "newline \<notin> set sec" "ln \<in> set ls"
  shows "newline \<notin> set (dl_section ln)"
  using assms
proof (induction ls arbitrary: sec)
  case (Cons l ls)
  have "full_line (dl_raw l) \<or> open_line (dl_raw l)" using Cons.prems(2) by (auto simp: are_lines_Cons)
  from section_no_newline [OF this Cons.prems(3)] Cons show ?case by (auto simp: are_lines_Cons)
qed simp

lemma shaped_key:
  assumes "shaped ln" and "full_line (dl_raw ln) \<or> open_line (dl_raw ln)"
  shows "newline \<notin> set (dl_key ln)" "CHR ''='' \<notin> set (dl_key ln)" "TrimSpace (dl_key ln) = dl_key ln"
    "plain_key (dl_key ln)" "tidy (line_value ln)"
proof -
  from assms(1) obtain k0 sp v post where p: "parts ln k0 sp v post" by (auto simp: shaped_def)
  then have k: "dl_key ln = TrimSpace k0" and r: "dl_raw ln = k0 @ CHR ''='' # sp @ v @ post" by (simp_all add: parts_def)
  have "newline \<notin> set k0" using assms(2) unfolding r by (auto simp: full_line_append open_line_def)
  then show "newline \<notin> set (dl_key ln)" "CHR ''='' \<notin> set (dl_key ln)"
    using set_TrimSpace [of k0] p k by (auto simp: parts_def)
  show "TrimSpace (dl_key ln) = dl_key ln" using k by simp
  show "plain_key (dl_key ln)" using p unfolding parts_def by blast
  show "tidy (line_value ln)" using p parts_value [OF p] by (simp add: parts_def)
qed

lemma Settings_good:
  assumes "doc_ok lower d" and "s \<in> set (Settings lower d)"
  shows "good_setting s"
proof -
  from assms(2) obtain i where i: "i < length (doc_lines d)" "dl_kind (doc_lines d ! i) = kindSetting"
    and s: "Section s = dl_section (doc_lines d ! i)" "Key s = dl_key (doc_lines d ! i)" "Value s = line_value (doc_lines d ! i)"
    by (auto simp: Settings_def Let_def)
  let ?ln = "doc_lines d ! i"
  have l: "lines_ok [] (doc_lines d)" "are_lines (map dl_raw (doc_lines d))" using assms(1) by (simp_all add: doc_ok_def)
  have any: "full_line l \<or> open_line l" if "are_lines ls" "l \<in> set ls" for l and ls :: "string list"
    using that by (induction ls) (auto simp: are_lines_Cons)
  have "full_line (dl_raw ?ln) \<or> open_line (dl_raw ?ln)" using any [OF l(2)] i(1) by simp
  from shaped_key [OF lines_ok_nth [OF l(1) i] this] lines_ok_sections [OF l(1,2), of ?ln] i(1) s show ?thesis
    by (simp add: good_setting_def)
qed

end
