(* ===== verification/Config_Merge.thy ===== *)
theory Config_Merge
  imports Config_Document
begin

text \<open>
  What the panel does with whole configuration files (\<open>diff.go\<close>, \<open>tweaks.go\<close> and \<open>pending.go\<close> of
  \<open>internal/mods/config\<close>): the difference of two files, the settings an operator changed as a text that can be
  shared, a text of settings merged into a file, and the edits made while a server runs, put back once it has
  stopped. A configuration directory is a map from file names to bytes. The theorems give each operation as
  one on the maps of settings that the texts stand for.
\<close>

subsection \<open>Operations\<close>

definition writeSetting :: "string \<Rightarrow> Setting \<Rightarrow> string \<Rightarrow> bool \<Rightarrow> string \<times> string" where
  "writeSetting b s latest first =
     ((if first \<and> Section s \<noteq> [] \<or> \<not> first \<and> Section s \<noteq> latest then b @ ''['' @ Section s @ '']'' @ [newline] else b)
        @ Key s @ '' = '' @ Value s @ [newline], Section s)"

definition overlay_step :: "(string \<Rightarrow> string) \<Rightarrow> Setting \<Rightarrow> Document \<Rightarrow> Document" where
  "overlay_step lower s doc =
     (case Get lower doc (Section s) (Key s) of
        None \<Rightarrow> doc
      | Some v \<Rightarrow>
          if v = Value s then doc
          else (case Set lower doc (Section s) (Key s) (Value s) of Inl e \<Rightarrow> doc | Inr doc' \<Rightarrow> doc'))"

definition Overlay :: "(string \<Rightarrow> string) \<Rightarrow> string \<Rightarrow> string \<Rightarrow> string" where
  "Overlay lower base over = Bytes (fold (overlay_step lower) (Settings lower (Parse lower over)) (Parse lower base))"

record merging =
  m_doc :: Document
  m_head :: string
  m_tail :: string
  m_last :: string

definition merge_step :: "(string \<Rightarrow> string) \<Rightarrow> Setting \<Rightarrow> merging \<Rightarrow> merging" where
  "merge_step lower s m =
     (if Get lower (m_doc m) (Section s) (Key s) \<noteq> None
      then (case Set lower (m_doc m) (Section s) (Key s) (Value s) of Inl e \<Rightarrow> m | Inr doc \<Rightarrow> m\<lparr>m_doc := doc\<rparr>)
      else if Section s = [] \<and> m_tail m = []
      then (case writeSetting (m_head m) s (m_last m) True of (b, l) \<Rightarrow> m\<lparr>m_head := b, m_last := l\<rparr>)
      else (case writeSetting (m_tail m) s (m_last m) (m_tail m = []) of (b, l) \<Rightarrow> m\<lparr>m_tail := b, m_last := l\<rparr>))"

definition Merge :: "(string \<Rightarrow> string) \<Rightarrow> string \<Rightarrow> string \<Rightarrow> string" where
  "Merge lower base over =
     (let m = fold (merge_step lower) (Settings lower (Parse lower over))
                \<lparr>m_doc = Parse lower base, m_head = [], m_tail = [], m_last = []\<rparr>;
          out = Bytes (m_doc m);
          out' = (if m_tail m \<noteq> [] \<and> out \<noteq> [] \<and> last out \<noteq> newline then out @ [newline] else out)
      in m_head m @ out' @ m_tail m)"

definition default_comment :: string where
  "default_comment = ''# Default value:''"

fun declaredDefault :: "string list \<Rightarrow> string option" where
  "declaredDefault [] = None"
| "declaredDefault (c # cs) =
     (if is_prefix_of default_comment c then Some (TrimSpace (drop (length default_comment) c)) else declaredDefault cs)"

definition secretMarkers :: "string list" where
  "secretMarkers =
     [''password'', ''passwd'', ''secret'', ''token'', ''apikey'', ''api_key'', ''webhook'', ''credential'']"

definition SecretKey :: "(string \<Rightarrow> string) \<Rightarrow> string \<Rightarrow> bool" where
  "SecretKey lower key = list_ex (contains_str (lower key)) secretMarkers"

text \<open>Whether \<open>Tweaks\<close> passes over a setting of the current file.\<close>

definition unchanged :: "(string \<Rightarrow> string) \<Rightarrow> Document \<Rightarrow> Setting \<Rightarrow> bool" where
  "unchanged lower was s =
     (case Get lower was (Section s) (Key s) of
        Some v \<Rightarrow> v = Value s
      | None \<Rightarrow> declaredDefault (Comments s) = Some (Value s))"

record tweaking =
  t_out :: string
  t_last :: string
  t_kept :: nat
  t_secrets :: nat

definition tweak_step :: "(string \<Rightarrow> string) \<Rightarrow> Document \<Rightarrow> bool \<Rightarrow> Setting \<Rightarrow> tweaking \<Rightarrow> tweaking" where
  "tweak_step lower was withSecrets s t =
     (if unchanged lower was s then t
      else if \<not> withSecrets \<and> SecretKey lower (Key s) then t\<lparr>t_secrets := t_secrets t + 1\<rparr>
      else case writeSetting (t_out t) s (t_last t) (t_kept t = 0) of
          (b, l) \<Rightarrow> t\<lparr>t_out := b, t_last := l, t_kept := t_kept t + 1\<rparr>)"

definition Tweaks :: "(string \<Rightarrow> string) \<Rightarrow> string \<Rightarrow> string \<Rightarrow> bool \<Rightarrow> string \<times> nat \<times> nat" where
  "Tweaks lower orig current withSecrets =
     (let t = fold (tweak_step lower (Parse lower orig) withSecrets) (Settings lower (Parse lower current))
                \<lparr>t_out = [], t_last = [], t_kept = 0, t_secrets = 0\<rparr>
      in (t_out t, t_kept t, t_secrets t))"

record Change =
  ch_Key :: string
  ch_From :: "string option"
  ch_To :: "string option"
  ch_Secret :: bool

definition newChange :: "(string \<Rightarrow> string) \<Rightarrow> string \<Rightarrow> string \<Rightarrow> string option \<Rightarrow> string option \<Rightarrow> Change" where
  "newChange lower sec key from_value to_value =
     (let k = (if sec \<noteq> [] then sec @ ''.'' @ key else key)
      in if SecretKey lower key then \<lparr>ch_Key = k, ch_From = None, ch_To = None, ch_Secret = True\<rparr>
         else \<lparr>ch_Key = k, ch_From = from_value, ch_To = to_value, ch_Secret = False\<rparr>)"

definition Diff :: "(string \<Rightarrow> string) \<Rightarrow> string \<Rightarrow> string \<Rightarrow> Change list" where
  "Diff lower before after =
     (let was = Parse lower before; now = Parse lower after in
      concat (map (\<lambda>s. case Get lower now (Section s) (Key s) of
                  None \<Rightarrow> [newChange lower (Section s) (Key s) (Some (Value s)) None]
                | Some v \<Rightarrow> if v \<noteq> Value s then [newChange lower (Section s) (Key s) (Some (Value s)) (Some v)] else [])
              (Settings lower was))
      @ concat (map (\<lambda>s. if Get lower was (Section s) (Key s) = None
                  then [newChange lower (Section s) (Key s) None (Some (Value s))] else [])
              (Settings lower now)))"

type_synonym cfg_dir = "string \<rightharpoonup> string"

definition BackupSuffix :: string where
  "BackupSuffix = ''.bak''"

definition OriginalSuffix :: string where
  "OriginalSuffix = ''.orig''"

definition PendingSuffix :: string where
  "PendingSuffix = ''.pending''"

definition KeepCopies :: "string \<Rightarrow> string \<Rightarrow> cfg_dir \<Rightarrow> cfg_dir" where
  "KeepCopies name current dir =
     (let dir1 = dir(name @ BackupSuffix \<mapsto> current)
      in if dir1 (name @ OriginalSuffix) = None then dir1(name @ OriginalSuffix \<mapsto> current) else dir1)"

definition DropPending :: "string \<Rightarrow> cfg_dir \<Rightarrow> cfg_dir" where
  "DropPending name dir = dir(name @ PendingSuffix := None)"

text \<open>\<open>settleOne\<close> for the config \<open>name\<close>; a missing file reads as no bytes where it is compared.\<close>

definition settleOne :: "(string \<Rightarrow> string) \<Rightarrow> string \<Rightarrow> cfg_dir \<Rightarrow> cfg_dir" where
  "settleOne lower name dir =
     (case dir (name @ PendingSuffix) of
        None \<Rightarrow> dir
      | Some want \<Rightarrow>
          (let have_bytes = (case dir name of None \<Rightarrow> [] | Some b \<Rightarrow> b);
               next_bytes = (case dir name of None \<Rightarrow> want | Some b \<Rightarrow> Overlay lower b want);
               dir1 = (if next_bytes \<noteq> have_bytes then dir(name \<mapsto> next_bytes) else dir)
           in dir1(name @ PendingSuffix := None)))"

definition pending_of :: "string \<Rightarrow> string option" where
  "pending_of entry =
     (let suffix = ''.cfg'' @ PendingSuffix in
      if length suffix \<le> length entry \<and> drop (length entry - length suffix) entry = suffix
      then Some (take (length entry - length PendingSuffix) entry) else None)"

text \<open>\<open>entries\<close> is what listing the directory gave.\<close>

definition SettlePending :: "(string \<Rightarrow> string) \<Rightarrow> string list \<Rightarrow> cfg_dir \<Rightarrow> cfg_dir" where
  "SettlePending lower entries dir = fold (settleOne lower) (List.map_filter pending_of entries) dir"

subsection \<open>Reading written text\<close>

definition reading :: "(string \<Rightarrow> string) \<Rightarrow> string \<Rightarrow> string \<Rightarrow> (settingKey \<times> string) list" where
  "reading lower sec text = assigns lower (parse_lines sec (Lines text))"

definition ending :: "string \<Rightarrow> string \<Rightarrow> string" where
  "ending sec text = section_after sec (Lines text)"

definition keys_ok :: "string \<Rightarrow> string \<Rightarrow> bool" where
  "keys_ok sec text \<longleftrightarrow>
     list_all (\<lambda>ln. dl_kind ln = kindSetting \<longrightarrow> hd (dl_key ln) \<noteq> CHR ''['') (parse_lines sec (Lines text))"

lemma lookup_reading: "lookup lower text = map_of (reading lower [] text)"
  by (simp add: lookup_def reading_def)

lemma plain_keys_ok: "plain_keys text \<longleftrightarrow> keys_ok [] text"
  by (simp add: plain_keys_def keys_ok_def)

lemma reads_Nil [simp]: "reading lower sec [] = []" "ending sec [] = sec" "keys_ok sec []"
  by (simp_all add: reading_def ending_def keys_ok_def)

lemma reads_append:
  assumes "closed_text a"
  shows "reading lower sec (a @ b) = reading lower sec a @ reading lower (ending sec a) b"
    and "ending sec (a @ b) = ending (ending sec a) b"
    and "keys_ok sec (a @ b) \<longleftrightarrow> keys_ok sec a \<and> keys_ok (ending sec a) b"
  by (simp_all add: reading_def ending_def keys_ok_def Lines_append [OF assms] parse_lines_append section_after_append)

lemma header_line:
  assumes "newline \<notin> set name"
  shows "reading lower sec (''['' @ name @ '']'' @ [newline]) = []" and "ending sec (''['' @ name @ '']'' @ [newline]) = name"
    and "keys_ok sec (''['' @ name @ '']'' @ [newline])"
proof -
  let ?t = "''['' @ name @ '']'' @ [newline]"
  have l: "Lines ?t = [?t]" using Lines_full [of "''['' @ name @ '']''" "[]"] assms by simp
  have "TrimRight ?t [carriage, newline] = ''['' @ name @ '']''"
    using TrimRight_stops [of "CHR '']''" "[carriage, newline]" "''['' @ name" "[newline]"] by (simp add: TrimRight_def)
  then have b: "TrimSpace (TrimRight ?t [carriage, newline]) = CHR ''['' # name @ '']''"
    using TrimSpace_enclosed [of "CHR ''[''" "CHR '']''" name] separators_not_space by simp
  have "parse_line sec ?t = (\<lparr>dl_raw = ?t, dl_kind = kindOther, dl_section = sec, dl_key = [], valStart = 0, valEnd = 0\<rparr>, name)"
    unfolding parse_line_def Let_def b by simp
  with l show "reading lower sec ?t = []" "ending sec ?t = name" "keys_ok sec ?t"
    by (simp_all add: reading_def ending_def keys_ok_def)
qed

lemma setting_line:
  assumes "good_setting s"
  defines "t \<equiv> Key s @ '' = '' @ Value s @ [newline]"
  shows "reading lower (Section s) t = [setting_pair lower s]" and "ending sec t = sec" and "keys_ok sec t"
proof -
  have g: "newline \<notin> set (Key s)" "CHR ''='' \<notin> set (Key s @ '' '')" "tidy (Value s)" "newline \<notin> set (Value s)"
    "TrimSpace (Key s) = Key s" "plain_key (Key s)"
    using assms(1) by (simp_all add: good_setting_def tidy_def)
  have k: "TrimSpace (Key s @ '' '') = Key s"
    using TrimSpace_space [of "Key s"] g(5,6) by (simp add: plain_key_def)
  have t: "t = (Key s @ '' '') @ CHR ''='' # '' '' @ Value s @ [newline]" by (simp add: t_def)
  have l: "Lines t = [t]" using Lines_full [of "Key s @ '' = '' @ Value s" "[]"] g(1,4) by (simp add: t_def)
  note p = parse_line_parts [OF g(2) _ g(3), where sp = "'' ''" and post = "[newline]", folded t, unfolded k]
  show "ending sec t = sec" "keys_ok sec t"
    using p(1,3) [of sec] g(6) l by (simp_all add: ending_def keys_ok_def plain_key_def)
  show "reading lower (Section s) t = [setting_pair lower s]"
    using p(2,3,4) [of "Section s"] g(6) l by (simp add: reading_def line_key_def setting_pair_def)
qed

definition setting_text :: "Setting \<Rightarrow> bool \<Rightarrow> string" where
  "setting_text s header =
     (if header then ''['' @ Section s @ '']'' @ [newline] else []) @ Key s @ '' = '' @ Value s @ [newline]"

lemma writeSetting_text:
  "writeSetting b s latest first =
     (b @ setting_text s (first \<and> Section s \<noteq> [] \<or> \<not> first \<and> Section s \<noteq> latest), Section s)"
  by (simp add: writeSetting_def setting_text_def)

lemma setting_text_reads:
  assumes "good_setting s" and "header \<or> sec = Section s"
  shows "reading lower sec (setting_text s header) = [setting_pair lower s]"
    and "ending sec (setting_text s header) = Section s" and "keys_ok sec (setting_text s header)"
    and "closed_text (setting_text s header)" and "setting_text s header \<noteq> []"
proof -
  have n: "newline \<notin> set (Section s)" using assms(1) by (simp add: good_setting_def)
  have c: "closed_text (''['' @ Section s @ '']'' @ [newline])" by (simp add: closed_text_def)
  show "reading lower sec (setting_text s header) = [setting_pair lower s]"
    "ending sec (setting_text s header) = Section s" "keys_ok sec (setting_text s header)"
    using assms(2) setting_line [OF assms(1)] header_line [OF n] reads_append [OF c]
    by (cases header; simp add: setting_text_def)+
  show "closed_text (setting_text s header)" "setting_text s header \<noteq> []"
    by (simp_all add: setting_text_def closed_text_def)
qed

subsection \<open>Settings as maps\<close>

abbreviation pairs :: "(string \<Rightarrow> string) \<Rightarrow> Setting list \<Rightarrow> settingKey \<rightharpoonup> string" where
  "pairs lower ss \<equiv> map_of (map (setting_pair lower) ss)"

abbreviation key_of :: "(string \<Rightarrow> string) \<Rightarrow> Setting \<Rightarrow> settingKey" where
  "key_of lower s \<equiv> (Section s, lower (Key s))"

text \<open>The values of the second map, for the keys of the first.\<close>

definition overlaid :: "('k \<rightharpoonup> 'v) \<Rightarrow> ('k \<rightharpoonup> 'v) \<Rightarrow> ('k \<rightharpoonup> 'v)" where
  "overlaid b m = (\<lambda>k. if b k = None then None else if m k = None then b k else m k)"

lemma fst_setting_pair [simp]: "fst (setting_pair lower s) = key_of lower s"
  by (simp add: setting_pair_def)

lemma pairs_snoc:
  assumes "key_of lower s \<notin> set (map (key_of lower) ss)"
  shows "pairs lower (ss @ [s]) = (pairs lower ss)(key_of lower s \<mapsto> Value s)"
proof -
  have "pairs lower ss (key_of lower s) = None"
    using assms by (simp add: map_of_eq_None_iff image_image)
  then show ?thesis by (auto simp: setting_pair_def map_add_def fun_eq_iff split: option.splits)
qed

lemma pairs_filter: "pairs lower (filter (\<lambda>s. P (key_of lower s)) ss) k = (if P k then pairs lower ss k else None)"
  unfolding setting_pair_def by (induction ss) auto

lemma overlaid_update: "overlaid b (m(k \<mapsto> v)) = (if b k = None then overlaid b m else (overlaid b m)(k \<mapsto> v))"
  by (auto simp: overlaid_def fun_eq_iff)

lemma overlaid_None [simp]: "overlaid b m k = None \<longleftrightarrow> b k = None"
  by (auto simp: overlaid_def)

lemma overlaid_empty [simp]: "overlaid b Map.empty = b"
  by (auto simp: overlaid_def)

lemma Settings_of_text:
  assumes "plain_keys text"
  shows "distinct (map (key_of lower) (Settings lower (Parse lower text)))" and "pairs lower (Settings lower (Parse lower text)) = lookup lower text"
    and "s \<in> set (Settings lower (Parse lower text)) \<Longrightarrow> good_setting s"
proof -
  have ok: "doc_ok lower (Parse lower text)" by (rule doc_ok_Parse [OF assms(1)])
  then have i: "doc_index (Parse lower text) = first_at lower (doc_lines (Parse lower text))" by (simp add: doc_ok_def)
  show "distinct (map (key_of lower) (Settings lower (Parse lower text)))" using Settings_pairs(1) [OF i] by (simp add: comp_def)
  show "pairs lower (Settings lower (Parse lower text)) = lookup lower text"
    using Settings_pairs(2) [OF i] doc_ok_lookup [OF ok] by (simp add: Bytes_Parse)
  show "good_setting s" if "s \<in> set (Settings lower (Parse lower text))" using Settings_good [OF ok] that by simp
qed

text \<open>Setting a value the document has.\<close>

lemma Set_present:
  assumes "doc_ok lower d" and "good_setting s" and "Get lower d (Section s) (Key s) \<noteq> None"
  obtains d' where "Set lower d (Section s) (Key s) (Value s) = Inr d'" and "doc_ok lower d'"
    and "settings_in lower d' = (settings_in lower d)(key_of lower s \<mapsto> Value s)"
proof -
  have t: "tidy (Value s)" using assms(2) by (simp add: good_setting_def)
  from Set_succeeds [OF assms(1) t, of "Section s" "Key s"] doc_ok_Get [OF assms(1), of "Section s" "Key s"] assms(3)
  obtain d' where s: "Set lower d (Section s) (Key s) (Value s) = Inr d'" by auto
  from that [OF s] Set_ok [OF assms(1) t s] show thesis by blast
qed

lemma overlay_step_ok:
  assumes "doc_ok lower d" and "good_setting s"
  shows "doc_ok lower (overlay_step lower s d)"
    and "settings_in lower (overlay_step lower s d) =
      (if settings_in lower d (key_of lower s) = None then settings_in lower d
       else (settings_in lower d)(key_of lower s \<mapsto> Value s))"
proof -
  note get = doc_ok_Get [OF assms(1), of "Section s" "Key s"]
  consider (none) "Get lower d (Section s) (Key s) = None" | (same) "Get lower d (Section s) (Key s) = Some (Value s)"
    | (other) v where "Get lower d (Section s) (Key s) = Some v" "v \<noteq> Value s" by fastforce
  then have "doc_ok lower (overlay_step lower s d) \<and> settings_in lower (overlay_step lower s d) =
      (if settings_in lower d (key_of lower s) = None then settings_in lower d
       else (settings_in lower d)(key_of lower s \<mapsto> Value s))"
  proof cases
    case none
    with get assms(1) show ?thesis by (simp add: overlay_step_def)
  next
    case same
    with get assms(1) show ?thesis by (auto simp: overlay_step_def fun_eq_iff)
  next
    case other
    obtain d' where "Set lower d (Section s) (Key s) (Value s) = Inr d'" "doc_ok lower d'"
      "settings_in lower d' = (settings_in lower d)(key_of lower s \<mapsto> Value s)"
      by (rule Set_present [OF assms]) (use other in auto)
    with other get show ?thesis by (simp add: overlay_step_def)
  qed
  then show "doc_ok lower (overlay_step lower s d)"
    "settings_in lower (overlay_step lower s d) = (if settings_in lower d (key_of lower s) = None then settings_in lower d
       else (settings_in lower d)(key_of lower s \<mapsto> Value s))" by simp_all
qed

lemma overlay_fold:
  assumes "doc_ok lower d" and "distinct (map (key_of lower) ss)" and "\<And>s. s \<in> set ss \<Longrightarrow> good_setting s"
  shows "doc_ok lower (fold (overlay_step lower) ss d) \<and>
    settings_in lower (fold (overlay_step lower) ss d) = overlaid (settings_in lower d) (pairs lower ss)"
  using assms(2,3)
proof (induction ss rule: rev_induct)
  case Nil
  then show ?case using assms(1) by simp
next
  case (snoc s ss)
  have ih: "doc_ok lower (fold (overlay_step lower) ss d)"
    "settings_in lower (fold (overlay_step lower) ss d) = overlaid (settings_in lower d) (pairs lower ss)"
    using snoc by auto
  have pk: "pairs lower (ss @ [s]) = (pairs lower ss)(key_of lower s \<mapsto> Value s)"
    by (rule pairs_snoc) (use snoc.prems(1) in auto)
  have g: "good_setting s" using snoc.prems(2) by simp
  have "settings_in lower (overlay_step lower s (fold (overlay_step lower) ss d))
      = overlaid (settings_in lower d) (pairs lower (ss @ [s]))"
    unfolding overlay_step_ok(2) [OF ih(1) g] pk overlaid_update ih(2) overlaid_None ..
  with overlay_step_ok(1) [OF ih(1) g] show ?case by simp
qed

lemma Overlay_lookup:
  assumes "plain_keys base" and "plain_keys over"
  shows "lookup lower (Overlay lower base over) = overlaid (lookup lower base) (lookup lower over)"
proof -
  note s = Settings_of_text [OF assms(2), where lower = lower]
  have ok: "doc_ok lower (Parse lower base)" by (rule doc_ok_Parse [OF assms(1)])
  from overlay_fold [OF ok s(1,3)] have "doc_ok lower (fold (overlay_step lower) (Settings lower (Parse lower over)) (Parse lower base))"
    and "settings_in lower (fold (overlay_step lower) (Settings lower (Parse lower over)) (Parse lower base))
      = overlaid (settings_in lower (Parse lower base)) (lookup lower over)" using s(2) by simp_all
  then show ?thesis using doc_ok_lookup doc_ok_lookup [OF ok] by (simp add: Overlay_def Bytes_Parse)
qed

subsection \<open>The operator's changes as a text\<close>

definition keeps :: "(string \<Rightarrow> string) \<Rightarrow> Document \<Rightarrow> bool \<Rightarrow> Setting \<Rightarrow> bool" where
  "keeps lower was withSecrets s \<longleftrightarrow> \<not> unchanged lower was s \<and> (withSecrets \<or> \<not> SecretKey lower (Key s))"

lemma tweak_fold:
  assumes "\<And>s. s \<in> set ss \<Longrightarrow> good_setting s"
  defines "t0 \<equiv> \<lparr>t_out = [], t_last = [], t_kept = 0, t_secrets = 0\<rparr>"
  shows "let t = fold (tweak_step lower was w) ss t0 in closed_text (t_out t) \<and> keys_ok [] (t_out t) \<and>
    reading lower [] (t_out t) = map (setting_pair lower) (filter (keeps lower was w) ss) \<and>
    ending [] (t_out t) = t_last t \<and> (t_kept t = 0 \<longrightarrow> t_last t = []) \<and>
    t_kept t = length (filter (keeps lower was w) ss)"
  using assms(1)
proof (induction ss rule: rev_induct)
  case Nil
  then show ?case by (simp add: t0_def)
next
  case (snoc s ss)
  let ?t = "fold (tweak_step lower was w) ss t0"
  have ih: "closed_text (t_out ?t)" "keys_ok [] (t_out ?t)" "ending [] (t_out ?t) = t_last ?t" "t_kept ?t = 0 \<longrightarrow> t_last ?t = []"
    "reading lower [] (t_out ?t) = map (setting_pair lower) (filter (keeps lower was w) ss)"
    "t_kept ?t = length (filter (keeps lower was w) ss)"
    using snoc by (simp_all add: Let_def)
  show ?case
  proof (cases "keeps lower was w s")
    case False
    then have "tweak_step lower was w s ?t = ?t \<or> tweak_step lower was w s ?t = ?t\<lparr>t_secrets := t_secrets ?t + 1\<rparr>"
      by (auto simp: tweak_step_def keeps_def)
    with ih False show ?thesis by (auto simp: Let_def)
  next
    case True
    have g: "good_setting s" using snoc.prems by simp
    define h where "h = (t_kept ?t = 0 \<and> Section s \<noteq> [] \<or> t_kept ?t \<noteq> 0 \<and> Section s \<noteq> t_last ?t)"
    have "h \<or> t_last ?t = Section s" using ih(4) by (auto simp: h_def)
    note r = setting_text_reads [OF g this]
    have "tweak_step lower was w s ?t =
        ?t\<lparr>t_out := t_out ?t @ setting_text s h, t_last := Section s, t_kept := t_kept ?t + 1\<rparr>"
      using True by (auto simp: tweak_step_def keeps_def writeSetting_text h_def)
    with ih True r reads_append [OF ih(1)] show ?thesis by (simp add: Let_def)
  qed
qed

lemma Tweaks_reads:
  assumes "plain_keys current"
  shows "plain_keys (fst (Tweaks lower orig current w))"
    and "lookup lower (fst (Tweaks lower orig current w)) =
      pairs lower (filter (keeps lower (Parse lower orig) w) (Settings lower (Parse lower current)))"
  using tweak_fold [OF Settings_of_text(3) [OF assms, where lower = lower], where lower = lower and was = "Parse lower orig" and w = w]
  by (simp_all add: Tweaks_def Let_def plain_keys_ok lookup_reading)

text \<open>What the text of changes says of one setting of the current file.\<close>

lemma pairs_filter_distinct:
  assumes "distinct (map (key_of lower) ss)" and "s \<in> set ss"
  shows "pairs lower (filter P ss) (key_of lower s) = (if P s then Some (Value s) else None)"
  using assms
proof (induction ss)
  case (Cons x ss)
  have other: "pairs lower (filter P ss) (key_of lower x) = None"
    using Cons.prems(1) by (auto simp: map_of_eq_None_iff image_iff)
  show ?case
  proof (cases "s = x")
    case True
    with other show ?thesis by (cases "P x") (simp_all add: setting_pair_def [of lower x])
  next
    case False
    with Cons have "s \<in> set ss" "key_of lower s \<noteq> key_of lower x" by (auto simp: image_iff)
    with Cons show ?thesis by (auto simp: setting_pair_def [of lower x])
  qed
qed simp

lemma Tweaks_lookup:
  assumes "plain_keys orig" and "plain_keys current" and "s \<in> set (Settings lower (Parse lower current))"
  shows "lookup lower (fst (Tweaks lower orig current True)) (key_of lower s) =
    (if lookup lower orig (key_of lower s) = Some (Value s) \<or>
        lookup lower orig (key_of lower s) = None \<and> declaredDefault (Comments s) = Some (Value s)
     then None else Some (Value s))"
proof -
  have "Get lower (Parse lower orig) (Section s) (Key s) = lookup lower orig (key_of lower s)" by (rule Get_Parse)
  then show ?thesis
    unfolding Tweaks_reads(2) [OF assms(2)] pairs_filter_distinct [OF Settings_of_text(1) [OF assms(2)] assms(3)]
    by (auto simp: keeps_def unchanged_def split: option.splits)
qed

subsection \<open>Merging\<close>

text \<open>The settings new to the document, in the order they come, are the ones written before and after it.\<close>

definition merge_inv :: "(string \<Rightarrow> string) \<Rightarrow> Document \<Rightarrow> Setting list \<Rightarrow> merging \<Rightarrow> bool" where
  "merge_inv lower d ss m \<longleftrightarrow> doc_ok lower (m_doc m) \<and>
     settings_in lower (m_doc m) = overlaid (settings_in lower d) (pairs lower ss) \<and>
     (\<exists>H T. H @ T = filter (\<lambda>s. settings_in lower d (key_of lower s) = None) ss \<and>
        closed_text (m_head m) \<and> reading lower [] (m_head m) = map (setting_pair lower) H \<and> ending [] (m_head m) = [] \<and>
        closed_text (m_tail m) \<and> (m_tail m = [] \<longleftrightarrow> T = []) \<and>
        (T \<noteq> [] \<longrightarrow> (\<forall>sec. reading lower sec (m_tail m) = map (setting_pair lower) T \<and> ending sec (m_tail m) = m_last m)))"

lemma merging_fields:
  "m_doc (m_doc_update g m) = g (m_doc m)" "m_head (m_doc_update g m) = m_head m" "m_tail (m_doc_update g m) = m_tail m" "m_last (m_doc_update g m) = m_last m"
  "m_doc (m_head_update f m) = m_doc m" "m_head (m_head_update f m) = f (m_head m)" "m_tail (m_head_update f m) = m_tail m" "m_last (m_head_update f m) = m_last m"
  "m_doc (m_tail_update f m) = m_doc m" "m_head (m_tail_update f m) = m_head m" "m_tail (m_tail_update f m) = f (m_tail m)" "m_last (m_tail_update f m) = m_last m"
  "m_doc (m_last_update f m) = m_doc m" "m_head (m_last_update f m) = m_head m" "m_tail (m_last_update f m) = m_tail m" "m_last (m_last_update f m) = f (m_last m)"
  by simp_all

lemma merge_invI:
  assumes "doc_ok lower (m_doc m)" and "settings_in lower (m_doc m) = overlaid (settings_in lower d) (pairs lower ss)"
    and "H @ T = filter (\<lambda>s. settings_in lower d (key_of lower s) = None) ss"
    and "closed_text (m_head m)" "reading lower [] (m_head m) = map (setting_pair lower) H" "ending [] (m_head m) = []"
    and "closed_text (m_tail m)" "m_tail m = [] \<longleftrightarrow> T = []"
    and "\<And>sec. T \<noteq> [] \<Longrightarrow> reading lower sec (m_tail m) = map (setting_pair lower) T"
    and "\<And>sec. T \<noteq> [] \<Longrightarrow> ending sec (m_tail m) = m_last m"
  shows "merge_inv lower d ss m"
  unfolding merge_inv_def using assms by blast

lemma merge_step_doc:
  assumes "doc_ok lower (m_doc m)" and "good_setting s" and "Get lower (m_doc m) (Section s) (Key s) \<noteq> None"
  obtains d where "merge_step lower s m = m\<lparr>m_doc := d\<rparr>" and "doc_ok lower d"
    and "settings_in lower d = (settings_in lower (m_doc m))(key_of lower s \<mapsto> Value s)"
proof (rule Set_present [OF assms])
  fix d assume d: "Set lower (m_doc m) (Section s) (Key s) (Value s) = Inr d" "doc_ok lower d"
    "settings_in lower d = (settings_in lower (m_doc m))(key_of lower s \<mapsto> Value s)"
  from d(1) assms(3) have "merge_step lower s m = m\<lparr>m_doc := d\<rparr>" by (simp add: merge_step_def)
  with d(2,3) that show thesis by blast
qed

lemma merge_step_inv:
  assumes "merge_inv lower d ss m" and "good_setting s" and "key_of lower s \<notin> set (map (key_of lower) ss)"
  shows "merge_inv lower d (ss @ [s]) (merge_step lower s m)"
proof -
  let ?k = "key_of lower s" and ?absent = "\<lambda>s. settings_in lower d (key_of lower s) = None"
  note pk = pairs_snoc [OF assms(3)]
  from assms(1) obtain H T where ok: "doc_ok lower (m_doc m)"
    and st: "settings_in lower (m_doc m) = overlaid (settings_in lower d) (pairs lower ss)"
    and HT: "H @ T = filter ?absent ss"
    and hd: "closed_text (m_head m)" "reading lower [] (m_head m) = map (setting_pair lower) H" "ending [] (m_head m) = []"
    and tl: "closed_text (m_tail m)" "m_tail m = [] \<longleftrightarrow> T = []"
      "T \<noteq> [] \<Longrightarrow> reading lower sec (m_tail m) = map (setting_pair lower) T" "T \<noteq> [] \<Longrightarrow> ending sec (m_tail m) = m_last m" for sec
    unfolding merge_inv_def by blast
  have get: "Get lower (m_doc m) (Section s) (Key s) = None \<longleftrightarrow> ?absent s"
    using doc_ok_Get [OF ok, of "Section s" "Key s"] st by simp
  show ?thesis
  proof (cases "?absent s")
    case False
    obtain d' where d': "merge_step lower s m = m\<lparr>m_doc := d'\<rparr>" "doc_ok lower d'"
      "settings_in lower d' = (settings_in lower (m_doc m))(?k \<mapsto> Value s)"
      using get False by (rule_tac merge_step_doc [OF ok assms(2)]) auto
    have "settings_in lower d' = overlaid (settings_in lower d) (pairs lower (ss @ [s]))"
      unfolding d'(3) pk overlaid_update st using False by auto
    moreover have "H @ T = filter ?absent (ss @ [s])" using HT False by simp
    ultimately show ?thesis
      unfolding d'(1) by (intro merge_invI [where H = H and T = T]) (use d'(2) hd tl in \<open>simp_all only: merging_fields simp_thms\<close>)
  next
    case True
    then have st': "settings_in lower (m_doc m) = overlaid (settings_in lower d) (pairs lower (ss @ [s]))"
      unfolding pk overlaid_update st by simp
    have HT': "H @ T @ [s] = filter ?absent (ss @ [s])" using HT True by simp
    show ?thesis
    proof (cases "Section s = [] \<and> m_tail m = []")
      case head: True
      then have m: "merge_step lower s m = m\<lparr>m_head := m_head m @ setting_text s False, m_last := []\<rparr>"
        using get True by (simp add: merge_step_def writeSetting_text)
      have "False \<or> [] = Section s" using head by simp
      note r = setting_text_reads [OF assms(2) this]
      from head tl(2) have "T = []" by simp
      with HT' have hs: "(H @ [s]) @ [] = filter ?absent (ss @ [s])" by simp
      have "closed_text (m_head m @ setting_text s False)"
        "reading lower [] (m_head m @ setting_text s False) = map (setting_pair lower) (H @ [s])"
        "ending [] (m_head m @ setting_text s False) = []"
        using r head hd reads_append [OF hd(1)] by simp_all
      moreover have "closed_text (m_tail m)" "m_tail m = [] \<longleftrightarrow> ([] :: Setting list) = []" using head by simp_all
      ultimately show ?thesis
        unfolding m by (intro merge_invI [OF _ _ hs]) (use ok st' in \<open>simp_all only: merging_fields simp_thms\<close>)
    next
      case tail: False
      define h where "h = (m_tail m = [] \<and> Section s \<noteq> [] \<or> m_tail m \<noteq> [] \<and> Section s \<noteq> m_last m)"
      have m: "merge_step lower s m = m\<lparr>m_tail := m_tail m @ setting_text s h, m_last := Section s\<rparr>"
        using get True tail by (auto simp: merge_step_def writeSetting_text h_def)
      have "h \<or> ending sec (m_tail m) = Section s" for sec using tail tl(2,4) by (auto simp: h_def)
      note r = setting_text_reads [OF assms(2) this]
      have "reading lower sec (m_tail m) = map (setting_pair lower) T" for sec using tl(2,3) by (cases "T = []") simp_all
      with r reads_append [OF tl(1)] have "reading lower sec (m_tail m @ setting_text s h) = map (setting_pair lower) (T @ [s]) \<and>
          ending sec (m_tail m @ setting_text s h) = Section s" for sec by simp
      moreover have "closed_text (m_tail m @ setting_text s h)" "m_tail m @ setting_text s h = [] \<longleftrightarrow> T @ [s] = []"
        using tl(1) r(4,5) by simp_all
      ultimately show ?thesis
        unfolding m by (intro merge_invI [OF _ _ HT']) (use ok st' hd in \<open>simp_all only: merging_fields\<close>)
    qed
  qed
qed

lemma merge_fold:
  assumes "doc_ok lower d" and "distinct (map (key_of lower) ss)" and "\<And>s. s \<in> set ss \<Longrightarrow> good_setting s"
  shows "merge_inv lower d ss (fold (merge_step lower) ss \<lparr>m_doc = d, m_head = [], m_tail = [], m_last = []\<rparr>)"
  using assms(2,3)
proof (induction ss rule: rev_induct)
  case Nil
  then show ?case using assms(1) by (auto simp: merge_inv_def)
next
  case (snoc s ss)
  then show ?case using merge_step_inv [of lower d ss _ s] by simp
qed

text \<open>Ending an open last line changes nothing that is read.\<close>

lemma TrimRight_newline: "TrimRight (t @ [newline]) [carriage, newline] = TrimRight t [carriage, newline]"
  by (simp add: TrimRight_def)

lemma splitAssignment_newline: "splitAssignment t = None \<Longrightarrow> splitAssignment (t @ [newline]) = None"
proof (cases "cut_at CHR ''='' t")
  case None
  then have "cut_at CHR ''='' (t @ [newline]) = None" by (simp add: cut_at_None)
  then show ?thesis by (simp add: splitAssignment_def)
next
  case (Some p)
  obtain k0 rest where p: "p = (k0, rest)" by fastforce
  assume "splitAssignment t = None"
  with Some p have "TrimSpace k0 = []" by (simp add: splitAssignment_def Let_def split: if_splits)
  moreover from Some p have "cut_at CHR ''='' (t @ [newline]) = Some (k0, rest @ [newline])" by (simp add: cut_at_Some)
  ultimately show ?thesis by (simp add: splitAssignment_def)
qed

lemma close_line:
  assumes "open_line t" and "dl_kind (fst (parse_line sec t)) = kindSetting \<longrightarrow> hd (dl_key (fst (parse_line sec t))) \<noteq> CHR ''[''"
  shows "snd (parse_line sec (t @ [newline])) = snd (parse_line sec t)"
    and "assigns lower [fst (parse_line sec (t @ [newline]))] = assigns lower [fst (parse_line sec t)]"
proof -
  let ?ln = "fst (parse_line sec t)"
  have "snd (parse_line sec (t @ [newline])) = snd (parse_line sec t) \<and>
      assigns lower [fst (parse_line sec (t @ [newline]))] = assigns lower [?ln]"
  proof (cases "dl_kind ?ln = kindSetting")
    case True
    then have sh: "shaped ?ln" using assms parse_line_setting by blast
    then obtain k0 sp v post where p: "parts ?ln k0 sp v post" by (auto simp: shaped_def)
    then have q: "CHR ''='' \<notin> set k0" "set sp \<subseteq> {CHR '' '', tab}" "tidy v"
      "set (post @ [newline]) \<subseteq> {CHR '' '', tab, carriage, newline}" "plain_key (TrimSpace k0)"
      and t: "t @ [newline] = k0 @ CHR ''='' # sp @ v @ (post @ [newline])" "dl_key ?ln = TrimSpace k0"
      unfolding parts_def by auto
    note l = parse_line_parts [OF q, of sec, folded t(1)]
    have "line_key lower (fst (parse_line sec (t @ [newline]))) = line_key lower ?ln"
      using l(3) t(2) by (simp add: line_key_def)
    with l True parts_value [OF p] shaped_reads(1) [OF sh, of sec] show ?thesis by simp
  next
    case False
    then show ?thesis
      using splitAssignment_newline [of t]
      unfolding parse_line_def Let_def TrimRight_newline by (auto split: option.splits if_splits)
  qed
  then show "snd (parse_line sec (t @ [newline])) = snd (parse_line sec t)"
    "assigns lower [fst (parse_line sec (t @ [newline]))] = assigns lower [fst (parse_line sec t)]" by simp_all
qed

lemma closing_lines:
  assumes "are_lines ts" "concat ts \<noteq> []" "last (concat ts) \<noteq> newline"
    and "list_all (\<lambda>ln. dl_kind ln = kindSetting \<longrightarrow> hd (dl_key ln) \<noteq> CHR ''['') (parse_lines sec ts)"
  shows "assigns lower (parse_lines sec (Lines (concat ts @ [newline]))) = assigns lower (parse_lines sec ts)"
  using assms
proof (induction ts arbitrary: sec)
  case (Cons t ts)
  show ?case
  proof (cases "ts = []")
    case True
    with Cons.prems have o: "open_line t" by (auto simp: full_line_def)
    then have "Lines (t @ [newline]) = [t @ [newline]]" using Lines_full [of t "[]"] by (simp add: open_line_def)
    with True Cons.prems close_line [OF o, of sec] show ?thesis by simp
  next
    case False
    with Cons.prems(1) have f: "full_line t" "are_lines ts" by (auto simp: are_lines_Cons)
    from False f(2) have c: "concat ts \<noteq> []" by (cases ts) (auto simp: are_lines_Cons full_line_def open_line_def)
    with Cons.prems(3) have "last (concat ts) \<noteq> newline" by simp
    moreover from f(1) have "Lines ((t @ concat ts) @ [newline]) = t # Lines (concat ts @ [newline])"
      using Lines_full [of "butlast t" "concat ts @ [newline]"] by (auto simp: full_line_def)
    ultimately show ?thesis
      using Cons.IH [OF f(2) c, of "snd (parse_line sec t)"] Cons.prems(4)
      by (cases "dl_kind (fst (parse_line sec t)) = kindSetting") simp_all
  qed
qed simp

lemma closing_text:
  assumes "doc_ok lower d" "Bytes d \<noteq> []" "last (Bytes d) \<noteq> newline"
  shows "reading lower [] (Bytes d @ [newline]) = reading lower [] (Bytes d)"
proof -
  let ?ts = "map dl_raw (doc_lines d)"
  have l: "lines_ok [] (doc_lines d)" "are_lines ?ts" using assms(1) by (simp_all add: doc_ok_def)
  have "list_all (\<lambda>ln. dl_kind ln = kindSetting \<longrightarrow> hd (dl_key ln) \<noteq> CHR ''['') (parse_lines sec (map dl_raw ls))"
    if "lines_ok sec ls" for sec ls
    using that
  proof (induction ls arbitrary: sec)
    case (Cons ln ls)
    have "hd (dl_key ln) \<noteq> CHR ''['' \<and> dl_key (fst (parse_line sec (dl_raw ln))) = dl_key ln" if "shaped ln"
      using that shaped_reads(3) [OF that] by (auto simp: shaped_def parts_def plain_key_def)
    with Cons show ?case by (cases "dl_kind ln = kindSetting") simp_all
  qed simp
  from closing_lines [OF l(2) _ _ this [OF l(1)], of lower] assms(2,3) show ?thesis
    by (simp add: reading_def Bytes_def Lines_concat [OF l(2)])
qed

lemma Merge_lookup:
  assumes "plain_keys base" and "plain_keys over"
  shows "lookup lower (Merge lower base over) = lookup lower base ++ lookup lower over"
proof -
  let ?ss = "Settings lower (Parse lower over)"
  define m where "m = fold (merge_step lower) ?ss \<lparr>m_doc = Parse lower base, m_head = [], m_tail = [], m_last = []\<rparr>"
  define out where "out = (if m_tail m \<noteq> [] \<and> Bytes (m_doc m) \<noteq> [] \<and> last (Bytes (m_doc m)) \<noteq> newline
    then Bytes (m_doc m) @ [newline] else Bytes (m_doc m))"
  note ss = Settings_of_text [OF assms(2), where lower = lower]
  have base: "doc_ok lower (Parse lower base)" by (rule doc_ok_Parse [OF assms(1)])
  then have b: "settings_in lower (Parse lower base) = lookup lower base" using doc_ok_lookup by (metis Bytes_Parse)
  from merge_fold [OF base ss(1,3)] have "merge_inv lower (Parse lower base) ?ss m" by (simp add: m_def)
  then obtain H T where ok: "doc_ok lower (m_doc m)"
    and st: "settings_in lower (m_doc m) = overlaid (lookup lower base) (lookup lower over)"
    and HT: "H @ T = filter (\<lambda>s. lookup lower base (key_of lower s) = None) ?ss"
    and hd: "closed_text (m_head m)" "reading lower [] (m_head m) = map (setting_pair lower) H" "ending [] (m_head m) = []"
    and tl: "m_tail m = [] \<longleftrightarrow> T = []" "T \<noteq> [] \<Longrightarrow> reading lower sec (m_tail m) = map (setting_pair lower) T" for sec
    unfolding merge_inv_def b ss(2) by blast
  have out: "map_of (reading lower [] out) = settings_in lower (m_doc m)" "m_tail m = [] \<or> closed_text out"
    using closing_text [OF ok] doc_ok_lookup [OF ok] by (auto simp: out_def lookup_reading closed_text_def)
  have "reading lower [] (m_head m @ out @ m_tail m) =
      map (setting_pair lower) H @ reading lower [] out @ map (setting_pair lower) T"
    using out(2) hd tl reads_append(1) [OF hd(1)] reads_append(1) [of out] by (cases "T = []") auto
  then have eq: "lookup lower (Merge lower base over) k =
      (pairs lower T ++ settings_in lower (m_doc m) ++ pairs lower H) k" for k
    by (simp add: lookup_reading Merge_def Let_def out_def m_def [symmetric] out(1) [unfolded out_def])
  show ?thesis
  proof (rule ext)
    fix k
    have "(pairs lower T ++ pairs lower H) k = (if lookup lower base k = None then lookup lower over k else None)"
      using pairs_filter [of lower "\<lambda>k. lookup lower base k = None" ?ss k] ss(2) HT by (metis map_append map_of_append)
    then show "lookup lower (Merge lower base over) k = (lookup lower base ++ lookup lower over) k"
      by (auto simp: eq st overlaid_def map_add_def split: option.splits if_splits)
  qed
qed

end
