(* ===== verification/Config_Properties.thy ===== *)
theory Config_Properties
  imports Config_Merge
begin

text \<open>
  What the configuration editor promises: an edit in place, the operator's changes carried over to another file,
  edits made while a server ran put back after it has stopped, and a difference that is empty exactly when
  every setting is the same.
\<close>

subsection \<open>Differences\<close>

lemma Parse_pairs: "pairs lower (Settings lower (Parse lower text)) = lookup lower text"
  using Settings_pairs(2) [of "Parse lower text" lower] by (simp add: Parse_eq settings_in_def lookup_def)

lemma Parse_distinct: "distinct (map (key_of lower) (Settings lower (Parse lower text)))"
  using Settings_pairs(1) [of "Parse lower text" lower] by (simp add: Parse_eq comp_def)

lemma Settings_lookup:
  assumes "s \<in> set (Settings lower (Parse lower text))"
  shows "lookup lower text (key_of lower s) = Some (Value s)"
  using pairs_filter_distinct [OF Parse_distinct assms, of "\<lambda>_. True"] by (simp add: Parse_pairs)

lemma lookup_Settings:
  assumes "lookup lower text k = Some v"
  obtains s where "s \<in> set (Settings lower (Parse lower text))" and "key_of lower s = k" and "Value s = v"
proof -
  from assms have "(k, v) \<in> set (map (setting_pair lower) (Settings lower (Parse lower text)))"
    unfolding Parse_pairs [symmetric] by (rule map_of_SomeD)
  then obtain s where "s \<in> set (Settings lower (Parse lower text))" "setting_pair lower s = (k, v)" by fastforce
  with that show thesis by (auto simp: setting_pair_def)
qed

lemma concat_map_Nil: "concat (map g xs) = [] \<longleftrightarrow> (\<forall>x \<in> set xs. g x = [])"
  by (induction xs) auto

lemma Diff_empty_iff: "Diff lower before after = [] \<longleftrightarrow> lookup lower before = lookup lower after"
proof
  assume d: "Diff lower before after = []"
  let ?lost = "\<lambda>s. case lookup lower after (key_of lower s) of
      None \<Rightarrow> [newChange lower (Section s) (Key s) (Some (Value s)) None]
    | Some v \<Rightarrow> if v \<noteq> Value s then [newChange lower (Section s) (Key s) (Some (Value s)) (Some v)] else []"
  have "\<forall>s \<in> set (Settings lower (Parse lower before)). ?lost s = []"
    and "\<forall>s \<in> set (Settings lower (Parse lower after)). lookup lower before (key_of lower s) \<noteq> None"
    using d unfolding Diff_def Let_def Get_Parse append_is_Nil_conv concat_map_Nil
    by (blast, fastforce split: if_splits)
  then have was: "s \<in> set (Settings lower (Parse lower before)) \<Longrightarrow> lookup lower after (key_of lower s) = Some (Value s)"
    and now: "s \<in> set (Settings lower (Parse lower after)) \<Longrightarrow> lookup lower before (key_of lower s) \<noteq> None" for s
    by (fastforce split: option.splits if_splits)+
  show "lookup lower before = lookup lower after"
  proof (rule ext)
    fix k
    show "lookup lower before k = lookup lower after k"
    proof (cases "lookup lower before k")
      case None
      then show ?thesis by (metis lookup_Settings now option.exhaust)
    next
      case (Some v)
      then show ?thesis by (metis lookup_Settings was)
    qed
  qed
next
  assume e: "lookup lower before = lookup lower after"
  have "lookup lower after (key_of lower s) = Some (Value s)" if "s \<in> set (Settings lower (Parse lower before))" for s
    using Settings_lookup [OF that] e by simp
  moreover have "lookup lower before (key_of lower s) = Some (Value s)" if "s \<in> set (Settings lower (Parse lower after))" for s
    using Settings_lookup [OF that] e by simp
  ultimately show "Diff lower before after = []"
    by (auto simp: Diff_def Let_def Get_Parse)
qed

subsection \<open>Pending edits\<close>

text \<open>What settling leaves under the name of a configuration.\<close>

definition settled_value :: "(string \<Rightarrow> string) \<Rightarrow> string option \<Rightarrow> string \<Rightarrow> string option" where
  "settled_value lower current want =
     (case current of None \<Rightarrow> if want = [] then None else Some want | Some b \<Rightarrow> Some (Overlay lower b want))"

lemma pending_of_Some:
  assumes "pending_of e = Some n"
  obtains b where "n = b @ ''.cfg''" and "e = n @ PendingSuffix"
proof -
  let ?sfx = "''.cfg'' @ PendingSuffix" and ?b = "take (length e - length (''.cfg'' @ PendingSuffix)) e"
  from assms have l: "drop (length e - length ?sfx) e = ?sfx" and n: "n = take (length e - length PendingSuffix) e"
    by (auto simp: pending_of_def Let_def split: if_splits)
  have e: "e = (?b @ ''.cfg'') @ PendingSuffix" using l by (metis append.assoc append_take_drop_id)
  then have "length e = length (?b @ ''.cfg'') + length PendingSuffix" by (metis length_append)
  with e n have "n = ?b @ ''.cfg''" by (metis add_diff_cancel_right' append_eq_conv_conj)
  with e that show thesis by metis
qed

lemma pending_apart: "pending_of e = Some n \<Longrightarrow> pending_of e' = Some m \<Longrightarrow> m @ PendingSuffix \<noteq> n"
  by (elim pending_of_Some) (auto simp: PendingSuffix_def dest: arg_cong [of _ _ last])

lemma settleOne_at:
  "dir (n @ PendingSuffix) = Some want \<Longrightarrow> settleOne lower n dir n = settled_value lower (dir n) want"
  "settleOne lower n dir (n @ PendingSuffix) = None"
  by (auto simp: settleOne_def settled_value_def Let_def PendingSuffix_def split: option.splits)

lemma settleOne_other: "f \<noteq> n \<Longrightarrow> f \<noteq> n @ PendingSuffix \<Longrightarrow> settleOne lower n dir f = dir f"
  by (auto simp: settleOne_def Let_def split: option.splits)

lemma SettlePending_other:
  assumes "\<And>e n. e \<in> set entries \<Longrightarrow> pending_of e = Some n \<Longrightarrow> f \<noteq> n \<and> f \<noteq> e"
  shows "SettlePending lower entries dir f = dir f"
  using assms unfolding SettlePending_def
proof (induction entries arbitrary: dir)
  case (Cons e entries)
  have ih: "fold (settleOne lower) (List.map_filter pending_of entries) d f = d f" for d
    by (rule Cons.IH) (use Cons.prems in auto)
  show ?case
  proof (cases "pending_of e")
    case None
    with ih show ?thesis by (simp add: List.map_filter_simps)
  next
    case (Some n)
    with Cons.prems have "f \<noteq> n" "f \<noteq> n @ PendingSuffix" by (auto elim: pending_of_Some)
    with ih Some settleOne_other show ?thesis by (simp add: List.map_filter_simps)
  qed
qed (simp add: List.map_filter_simps)

lemma SettlePending_at:
  assumes "distinct entries" "e \<in> set entries" "pending_of e = Some n" "dir e = Some want"
  shows "SettlePending lower entries dir n = settled_value lower (dir n) want" and "SettlePending lower entries dir e = None"
proof -
  obtain es1 es2 where es: "entries = es1 @ e # es2" using assms(2) by (auto simp: in_set_conv_decomp)
  with assms(1) have fresh: "e \<notin> set es1" "e \<notin> set es2" by auto
  have e: "e = n @ PendingSuffix" using assms(3) by (auto elim: pending_of_Some)
  have other: "n \<noteq> m \<and> n \<noteq> e' \<and> e \<noteq> m \<and> e \<noteq> e'" if "e' \<in> set es1 \<union> set es2" "pending_of e' = Some m" for e' m
  proof -
    have e': "e' = m @ PendingSuffix" using that(2) by (auto elim: pending_of_Some)
    have ne: "e \<noteq> e'" using that(1) fresh by auto
    with e e' have "n \<noteq> m" by auto
    with ne e e' pending_apart [OF assms(3) that(2)] pending_apart [OF that(2) assms(3)] show ?thesis by auto
  qed
  let ?d1 = "SettlePending lower es1 dir"
  have d1: "?d1 n = dir n" "?d1 e = dir e" by (rule SettlePending_other; use other in blast)+
  have "SettlePending lower entries dir f = SettlePending lower es2 (settleOne lower n ?d1) f" for f
    using es assms(3) by (simp add: SettlePending_def List.map_filter_def)
  moreover have "SettlePending lower es2 d f = d f" if "f \<in> {n, e}" for d f
    by (rule SettlePending_other) (use that other in blast)
  ultimately show "SettlePending lower entries dir n = settled_value lower (dir n) want" "SettlePending lower entries dir e = None"
    using settleOne_at [where dir = ?d1 and n = n and lower = lower] d1 assms(4) e by simp_all
qed

subsection \<open>Properties\<close>

text \<open>C28. An edit of one setting is in place. Replacing a value by one without newlines or padding leaves every
  byte of the file but the old value where it was, and reading the written file gives the settings of the old one
  with that setting changed: nothing else moves, whatever the file's comments, layout or line endings.\<close>

theorem Set_in_place:
  assumes "plain_keys raw" and "tidy v" and "Set lower (Parse lower raw) sec key v = Inr d"
  shows "(\<exists>before old after. raw = before @ old @ after \<and> Bytes d = before @ v @ after \<and>
      lookup lower raw (sec, lower key) = Some old) \<and>
    lookup lower (Bytes d) = (lookup lower raw)((sec, lower key) \<mapsto> v)"
proof -
  have ok: "doc_ok lower (Parse lower raw)" by (rule doc_ok_Parse [OF assms(1)])
  from Set_bytes [OF ok assms(3)] have "\<exists>before old after. raw = before @ old @ after \<and> Bytes d = before @ v @ after \<and>
      lookup lower raw (sec, lower key) = Some old" by (simp add: Bytes_Parse Get_Parse)
  moreover have "lookup lower (Bytes d) = (lookup lower raw)((sec, lower key) \<mapsto> v)"
    using Set_ok [OF ok assms(2,3)] doc_ok_lookup [OF ok] by (simp add: doc_ok_lookup Bytes_Parse)
  ultimately show ?thesis by blast
qed

definition ascii_lower :: "string \<Rightarrow> string" where
  "ascii_lower = map (\<lambda>c. if is_upper c then char_of (of_char c + (32 :: nat)) else c)"

definition ex_cfg :: string where
  "ex_cfg = ''[General]'' @ [newline] @ ''# Default value: 10'' @ [newline] @ ''MaxPlayers = 10'' @ [carriage, newline] @ ''Name=a''"

definition ex_edited :: string where
  "ex_edited = ''[General]'' @ [newline] @ ''# Default value: 10'' @ [newline] @ ''MaxPlayers = 20'' @ [carriage, newline] @ ''Name=a''"

theorem Set_in_place_witness:
  "\<exists>d. Set ascii_lower (Parse ascii_lower ex_cfg) ''General'' ''maxplayers'' ''20'' = Inr d \<and> Bytes d = ex_edited \<and>
     lookup ascii_lower (Bytes d) (''General'', ''name'') = Some ''a''"
proof -
  have p: "plain_keys ex_cfg" "tidy ''20''" by code_simp+
  have "case Set ascii_lower (Parse ascii_lower ex_cfg) ''General'' ''maxplayers'' ''20'' of Inr d \<Rightarrow> Bytes d = ex_edited | Inl e \<Rightarrow> False"
    by code_simp
  then obtain d where d: "Set ascii_lower (Parse ascii_lower ex_cfg) ''General'' ''maxplayers'' ''20'' = Inr d" "Bytes d = ex_edited"
    by (auto split: sum.splits)
  have k: "lookup ascii_lower ex_cfg (''General'', ''name'') = Some ''a''" "ascii_lower ''maxplayers'' = ''maxplayers''" by code_simp+
  from Set_in_place [OF p d(1)] k d show ?thesis by auto
qed

text \<open>C30. The operator's changes carry over. The text of the settings that differ from the file as it was
  delivered, secrets included, merged into that delivered file gives every setting of the current file its
  current value -- except that a setting the delivered file lacks is left out when it has the default its
  comment declares -- and every setting the current file lacks keeps the delivered value.\<close>

theorem tweaks_roundtrip:
  fixes lower :: "string \<Rightarrow> string"
  assumes "plain_keys orig" and "plain_keys current"
  defines "merged \<equiv> Merge lower orig (fst (Tweaks lower orig current True))"
  shows "(s \<in> set (Settings lower (Parse lower current)) \<longrightarrow>
      lookup lower merged (Section s, lower (Key s)) =
        (if lookup lower orig (Section s, lower (Key s)) = None \<and> declaredDefault (Comments s) = Some (Value s)
         then None else Some (Value s))) \<and>
    (lookup lower current k = None \<longrightarrow> lookup lower merged k = lookup lower orig k)"
proof (intro conjI impI)
  note t = Tweaks_reads [OF assms(2), of lower orig True]
  have m: "lookup lower merged = lookup lower orig ++ lookup lower (fst (Tweaks lower orig current True))"
    unfolding merged_def by (rule Merge_lookup [OF assms(1) t(1)])
  show "lookup lower merged (key_of lower s) =
      (if lookup lower orig (key_of lower s) = None \<and> declaredDefault (Comments s) = Some (Value s)
       then None else Some (Value s))" if "s \<in> set (Settings lower (Parse lower current))"
    using Tweaks_lookup [OF assms(1,2) that] unfolding m map_add_def by auto
  show "lookup lower merged k = lookup lower orig k" if "lookup lower current k = None"
  proof -
    have "k \<notin> fst ` set (map (setting_pair lower) (Settings lower (Parse lower current)))"
      using that unfolding Parse_pairs [symmetric] map_of_eq_None_iff .
    then have "k \<notin> fst ` set (map (setting_pair lower) (filter P (Settings lower (Parse lower current))))" for P by auto
    then have "lookup lower (fst (Tweaks lower orig current True)) k = None"
      unfolding t(2) map_of_eq_None_iff by blast
    then show ?thesis unfolding m map_add_def by simp
  qed
qed

theorem tweaks_roundtrip_witness:
  "lookup ascii_lower (Merge ascii_lower ex_cfg (fst (Tweaks ascii_lower ex_cfg ex_edited True))) (''General'', ''maxplayers'') = Some ''20''"
proof -
  let ?s = "\<lparr>Section = ''General'', Key = ''MaxPlayers'', Value = ''20'', Comments = [''# Default value: 10'']\<rparr>"
  have p: "plain_keys ex_cfg" "plain_keys ex_edited" by code_simp+
  have s: "hd (Settings ascii_lower (Parse ascii_lower ex_edited)) = ?s" "Settings ascii_lower (Parse ascii_lower ex_edited) \<noteq> []"
    by code_simp+
  then have m: "?s \<in> set (Settings ascii_lower (Parse ascii_lower ex_edited))" by (metis hd_in_set)
  have k: "declaredDefault [''# Default value: 10''] = Some ''10''" "ascii_lower ''MaxPlayers'' = ''maxplayers''" by code_simp+
  from tweaks_roundtrip [OF p, of ?s ascii_lower] m k show ?thesis by simp
qed

text \<open>C29. Edits made while a server runs survive its shutdown. Settling the pending copies puts the panel's value
  back into every setting the file on disk still has, whatever a plugin wrote over it when the server stopped;
  settings only the plugin's file has keep the plugin's value, none is added, and the copy is gone.\<close>

theorem pending_edits_win:
  assumes "distinct entries" and "n @ PendingSuffix \<in> set entries" and "pending_of (n @ PendingSuffix) = Some n"
    and "dir n = Some written" and "dir (n @ PendingSuffix) = Some wanted"
    and "plain_keys written" and "plain_keys wanted"
  shows "\<exists>b. SettlePending lower entries dir n = Some b \<and> SettlePending lower entries dir (n @ PendingSuffix) = None \<and>
    lookup lower b k = (if lookup lower written k = None then None
       else if lookup lower wanted k = None then lookup lower written k else lookup lower wanted k)"
  using SettlePending_at [OF assms(1-3), where dir = dir and lower = lower] assms(4,5) Overlay_lookup [OF assms(6,7), of lower]
  by (simp add: settled_value_def overlaid_def)

theorem pending_edits_win_witness:
  "\<exists>b. SettlePending ascii_lower [''m.cfg'', ''m.cfg.pending''] [''m.cfg'' \<mapsto> ex_cfg, ''m.cfg.pending'' \<mapsto> ex_edited] ''m.cfg'' = Some b \<and>
     lookup ascii_lower b (''General'', ''maxplayers'') = Some ''20''"
proof -
  have p: "plain_keys ex_cfg" "plain_keys ex_edited" by code_simp+
  have l: "lookup ascii_lower ex_cfg (''General'', ''maxplayers'') = Some ''10''"
    "lookup ascii_lower ex_edited (''General'', ''maxplayers'') = Some ''20''" by code_simp+
  have n: "pending_of (''m.cfg'' @ PendingSuffix) = Some ''m.cfg''" by code_simp
  have e: "''m.cfg'' @ PendingSuffix = ''m.cfg.pending''" by (simp add: PendingSuffix_def)
  from pending_edits_win [of "[''m.cfg'', ''m.cfg.pending'']" "''m.cfg''" "[''m.cfg'' \<mapsto> ex_cfg, ''m.cfg.pending'' \<mapsto> ex_edited]"
      ex_cfg ex_edited ascii_lower "(''General'', ''maxplayers'')"] p l n e
  show ?thesis by auto
qed

text \<open>Why keys must not start with a bracket: setting such a key's value to a text that ends in one turns its
  line into a section header.\<close>

lemma bracket_key_lost:
  "case Set ascii_lower (Parse ascii_lower ''[A = 1'') [] ''[A'' ''1]'' of
     Inr d \<Rightarrow> Get ascii_lower d [] ''[A'' = Some ''1]'' \<and> lookup ascii_lower (Bytes d) ([], ''[a'') = None
   | Inl e \<Rightarrow> False"
  by code_simp

end
