(* ===== verification/Alerts.thy ===== *)
theory Alerts
  imports Complex_Main Job_Store Instance_State
begin

text \<open>
  \<open>internal/alerts\<close>: the registry of condition and event kinds, the conditions a snapshot of the panel makes
  true, and the rules that route them. A duration and an instant are seconds, a stale factor is a rational.
  The texts a condition carries for display (\<open>Detail\<close>) are left out: nothing decides by them. The minute of the
  day a zone's wall clock shows is the argument \<open>local_minutes\<close>, \<open>None\<close> where the zone does not load.
\<close>

subsection \<open>Kinds\<close>

datatype alert_kind =
    AKJobFailed | AKLowDisk | AKStaleBackup | AKUncleanStop | AKRestartRequired | AKUpdateAvailable | AKInstanceError
  | AKCrashLoop | AKJobStuck | AKBackupAttention | AKPowerCut | AKServerStarted | AKServerStopped | AKPlayerJoined
  | AKPlayerLeft | AKBossDefeated | AKBossFightStarted | AKBossFightEnded | AKRaidStarted | AKRaidEnded

fun alert_name :: "alert_kind \<Rightarrow> string" where
  "alert_name AKJobFailed = ''job_failed''"
| "alert_name AKLowDisk = ''low_disk''"
| "alert_name AKStaleBackup = ''stale_backup''"
| "alert_name AKUncleanStop = ''unclean_stop''"
| "alert_name AKRestartRequired = ''restart_required''"
| "alert_name AKUpdateAvailable = ''update_available''"
| "alert_name AKInstanceError = ''instance_error''"
| "alert_name AKCrashLoop = ''crash_loop''"
| "alert_name AKJobStuck = ''job_stuck''"
| "alert_name AKBackupAttention = ''backup_attention''"
| "alert_name AKPowerCut = ''power_cut''"
| "alert_name AKServerStarted = ''server_started''"
| "alert_name AKServerStopped = ''server_stopped''"
| "alert_name AKPlayerJoined = ''player_joined''"
| "alert_name AKPlayerLeft = ''player_left''"
| "alert_name AKBossDefeated = ''boss_defeated''"
| "alert_name AKBossFightStarted = ''boss_fight_started''"
| "alert_name AKBossFightEnded = ''boss_fight_ended''"
| "alert_name AKRaidStarted = ''raid_started''"
| "alert_name AKRaidEnded = ''raid_ended''"

definition condition_kinds :: "alert_kind list" where
  "condition_kinds = [AKJobFailed, AKLowDisk, AKStaleBackup, AKUncleanStop, AKRestartRequired, AKUpdateAvailable,
     AKInstanceError, AKCrashLoop, AKJobStuck, AKBackupAttention]"

definition gameEvents :: "alert_kind list" where
  "gameEvents = [AKPlayerJoined, AKPlayerLeft, AKBossDefeated, AKBossFightStarted, AKBossFightEnded, AKRaidStarted, AKRaidEnded]"

definition event_kinds :: "alert_kind list" where
  "event_kinds = [AKPowerCut, AKServerStarted, AKServerStopped] @ gameEvents"

definition ParseKind :: "string \<Rightarrow> alert_kind option" where
  "ParseKind name = find (\<lambda>k. alert_name k = name) (condition_kinds @ event_kinds)"

definition HostWide :: "alert_kind \<Rightarrow> bool" where
  "HostWide k \<longleftrightarrow> k = AKLowDisk \<or> k = AKPowerCut"

subsection \<open>Thresholds\<close>

record Params =
  CrashCount :: int
  CrashWindow :: int
  StuckAfter :: int
  StaleFactor :: rat

definition Defaults :: "Params \<Rightarrow> Params" where
  "Defaults p =
     \<lparr>CrashCount = (if CrashCount p \<le> 0 then 3 else CrashCount p),
      CrashWindow = (if CrashWindow p \<le> 0 then 30 * 60 else CrashWindow p),
      StuckAfter = (if StuckAfter p \<le> 0 then 60 * 60 else StuckAfter p),
      StaleFactor = (if StaleFactor p \<le> 1 then 2 else StaleFactor p)\<rparr>"

definition zero_params :: Params where
  "zero_params = \<lparr>CrashCount = 0, CrashWindow = 0, StuckAfter = 0, StaleFactor = 0\<rparr>"

type_synonym resolver = "alert_kind \<Rightarrow> string \<Rightarrow> Params"

subsection \<open>Evaluation\<close>

record Condition =
  CondKind :: alert_kind
  CondInstance :: string

text \<open>The columns of an instance row the evaluator reads.\<close>

record inst_view =
  iv_ID :: string
  iv_State :: state
  iv_RestartRequired :: bool
  iv_GameBranch :: string

record BackupSchedule =
  bs_Instance :: string
  bs_Interval :: int
  bs_Missed :: int
  bs_LastRunAt :: "int option"

text \<open>\<open>FlaggedBackups\<close> lists the map's keys in the order the loop meets them.\<close>

record Snapshot =
  Instances :: "inst_view list"
  LatestTerminalJobs :: "job list"
  CleanSignals :: "job list"
  RunningJobs :: "job list"
  BackupSchedules :: "BackupSchedule list"
  LastBackups :: "string \<rightharpoonup> int"
  FlaggedBackups :: "string list"
  Incidents :: "string \<Rightarrow> int list"
  InstalledBuilds :: "string \<rightharpoonup> string"
  BranchBuilds :: "string \<rightharpoonup> string"
  FreeBytes :: int
  AlarmBytes :: int
  SnapNow :: int

definition deref :: "string option \<Rightarrow> string" where
  "deref s = (case s of None \<Rightarrow> [] | Some t \<Rightarrow> t)"

definition knownBuild :: "string \<Rightarrow> bool" where
  "knownBuild b = (case parse_uint64 b of None \<Rightarrow> False | Some n \<Rightarrow> n > 0)"

definition lowDisk :: "Snapshot \<Rightarrow> Condition list" where
  "lowDisk s = (if AlarmBytes s = 0 \<or> FreeBytes s \<ge> AlarmBytes s then [] else [\<lparr>CondKind = AKLowDisk, CondInstance = []\<rparr>])"

definition updateAvailable :: "Snapshot \<Rightarrow> inst_view \<Rightarrow> bool" where
  "updateAvailable s inst =
     (let installed = map_get (InstalledBuilds s) [] (iv_ID inst); available = map_get (BranchBuilds s) [] (iv_GameBranch inst)
      in knownBuild installed \<and> knownBuild available \<and> installed \<noteq> available)"

definition crashLoop :: "Snapshot \<Rightarrow> string \<Rightarrow> Params \<Rightarrow> int \<Rightarrow> bool" where
  "crashLoop s iid p now =
     (let cutoff = now - CrashWindow p; n = int (length (filter (\<lambda>t. t > cutoff) (Incidents s iid))) in \<not> n < CrashCount p)"

definition instance_conditions :: "Snapshot \<Rightarrow> resolver \<Rightarrow> inst_view \<Rightarrow> Condition list" where
  "instance_conditions s params inst =
     (let c = \<lambda>k. \<lparr>CondKind = k, CondInstance = iv_ID inst\<rparr> in
      (if iv_RestartRequired inst then [c AKRestartRequired] else []) @
      (if iv_State inst = StateError then [c AKInstanceError] else []) @
      (if updateAvailable s inst then [c AKUpdateAvailable] else []) @
      (if crashLoop s (iv_ID inst) (params AKCrashLoop (iv_ID inst)) (SnapNow s) then [c AKCrashLoop] else []))"

definition perInstance :: "Snapshot \<Rightarrow> resolver \<Rightarrow> Condition list" where
  "perInstance s params = concat (map (instance_conditions s params) (Instances s))"

definition failedJobs :: "Snapshot \<Rightarrow> Condition list" where
  "failedJobs s =
     map (\<lambda>j. \<lparr>CondKind = AKJobFailed, CondInstance = deref (JobInstance j)\<rparr>)
       (filter (\<lambda>j. \<not> (Status j \<noteq> JobFailed \<or> JobKind j = kind_name KindWebhookDeliver)) (LatestTerminalJobs s))"

definition uncleanStops :: "Snapshot \<Rightarrow> Condition list" where
  "uncleanStops s =
     map (\<lambda>j. \<lparr>CondKind = AKUncleanStop, CondInstance = deref (JobInstance j)\<rparr>)
       (filter (\<lambda>j. \<not> (Clean j = None \<or> Clean j = Some True)) (CleanSignals s))"

definition stale :: "Snapshot \<Rightarrow> resolver \<Rightarrow> BackupSchedule \<Rightarrow> bool" where
  "stale s params sc =
     (if bs_LastRunAt sc = None \<or> bs_Interval sc \<le> 0 then False
      else \<not> (LastBackups s (bs_Instance sc) \<noteq> None \<and> of_int (bs_Missed sc) < StaleFactor (params AKStaleBackup (bs_Instance sc))))"

definition staleBackups :: "Snapshot \<Rightarrow> resolver \<Rightarrow> Condition list" where
  "staleBackups s params =
     map (\<lambda>sc. \<lparr>CondKind = AKStaleBackup, CondInstance = bs_Instance sc\<rparr>) (filter (stale s params) (BackupSchedules s))"

definition flaggedBackups :: "Snapshot \<Rightarrow> Condition list" where
  "flaggedBackups s = map (\<lambda>i. \<lparr>CondKind = AKBackupAttention, CondInstance = i\<rparr>) (FlaggedBackups s)"

definition stuck :: "Snapshot \<Rightarrow> resolver \<Rightarrow> job \<Rightarrow> bool" where
  "stuck s params j =
     (case StartedAt j of None \<Rightarrow> False
      | Some t \<Rightarrow> \<not> SnapNow s - t \<le> StuckAfter (params AKJobStuck (deref (JobInstance j))))"

definition stuckJobs :: "Snapshot \<Rightarrow> resolver \<Rightarrow> Condition list" where
  "stuckJobs s params =
     map (\<lambda>j. \<lparr>CondKind = AKJobStuck, CondInstance = deref (JobInstance j)\<rparr>) (filter (stuck s params) (RunningJobs s))"

definition Evaluate :: "Snapshot \<Rightarrow> resolver option \<Rightarrow> Condition list" where
  "Evaluate s resolve =
     (let r = (case resolve of None \<Rightarrow> (\<lambda>_ _. zero_params) | Some f \<Rightarrow> f); params = (\<lambda>k i. Defaults (r k i))
      in lowDisk s @ perInstance s params @ failedJobs s @ uncleanStops s @ staleBackups s params @ flaggedBackups s @
         stuckJobs s params)"

subsection \<open>Rules\<close>

text \<open>The rule's thresholds are what decoding its \<open>params\<close> column gives.\<close>

record AlertRule =
  RuleID :: string
  RuleInstance :: "string option"
  ConditionKind :: string
  RuleParams :: Params
  QuietStart :: "int option"
  QuietEnd :: "int option"
  QuietTZ :: "string option"
  RuleEnabled :: bool
  WebhookIDs :: "string list"

definition covers :: "alert_kind \<Rightarrow> string \<Rightarrow> AlertRule \<Rightarrow> bool" where
  "covers k i r \<longleftrightarrow> RuleEnabled r \<and> ConditionKind r = alert_name k \<and> (RuleInstance r = None \<or> RuleInstance r = Some i)"

definition choose_rule :: "alert_kind \<Rightarrow> string \<Rightarrow> AlertRule \<Rightarrow> AlertRule option \<Rightarrow> AlertRule option" where
  "choose_rule k i r chosen =
     (if \<not> covers k i r then chosen
      else case chosen of
          None \<Rightarrow> Some r
        | Some c \<Rightarrow> if RuleInstance c = None \<and> RuleInstance r \<noteq> None then Some r else chosen)"

definition RuleResolver :: "AlertRule list \<Rightarrow> resolver" where
  "RuleResolver rules = (\<lambda>k i. case fold (choose_rule k i) rules None of None \<Rightarrow> zero_params | Some r \<Rightarrow> RuleParams r)"

definition Quiet :: "(string \<Rightarrow> int \<Rightarrow> int option) \<Rightarrow> AlertRule \<Rightarrow> int \<Rightarrow> bool" where
  "Quiet local_minutes r now =
     (case (QuietStart r, QuietEnd r, QuietTZ r) of
        (Some start, Some stop, Some tz) \<Rightarrow>
          (case local_minutes tz now of
             None \<Rightarrow> False
           | Some minutes \<Rightarrow>
               if start \<le> stop then minutes \<ge> start \<and> minutes < stop else minutes \<ge> start \<or> minutes < stop)
      | _ \<Rightarrow> False)"

subsection \<open>Lemmas\<close>

lemma ParseKind_roundtrip: "ParseKind (alert_name k) = Some k"
  by (cases k) (simp_all add: ParseKind_def condition_kinds_def event_kinds_def gameEvents_def)

lemma alert_name_inj: "alert_name k = alert_name l \<longleftrightarrow> k = l"
  by (metis ParseKind_roundtrip option.inject)

text \<open>A quiet window is the minutes from its start to its end on the clock face, past midnight or not.\<close>

lemma Quiet_window:
  assumes "QuietStart r = Some a" "QuietEnd r = Some b" "QuietTZ r = Some tz" "local_minutes tz now = Some m"
    and "0 \<le> a" "a < 1440" "0 \<le> b" "b < 1440" "0 \<le> m" "m < 1440"
  shows "Quiet local_minutes r now \<longleftrightarrow> (m - a) mod 1440 < (b - a) mod 1440"
proof -
  have wrap: "(x - a) mod 1440 = (if a \<le> x then x - a else x - a + 1440)" if "0 \<le> x" "x < 1440" for x
  proof (cases "a \<le> x")
    case True
    with that assms(5) show ?thesis by simp
  next
    case False
    have "(x - a) mod 1440 = (x - a + 1440) mod 1440" by simp
    also have "\<dots> = x - a + 1440" using False that assms(5,6) by (intro mod_pos_pos_trivial) auto
    finally show ?thesis using False by simp
  qed
  show ?thesis
    unfolding wrap [OF assms(9,10)] wrap [OF assms(7,8)] Quiet_def using assms by auto
qed

text \<open>The rule for one server wins over the rule for all, the first of either in the list's order.\<close>

lemma fold_choose:
  "fold (choose_rule k i) rules c =
     (case find (\<lambda>r. covers k i r \<and> RuleInstance r \<noteq> None) rules of
        Some r \<Rightarrow> (case c of Some r' \<Rightarrow> if RuleInstance r' \<noteq> None then c else Some r | None \<Rightarrow> Some r)
      | None \<Rightarrow> (case c of Some r' \<Rightarrow> c | None \<Rightarrow> find (covers k i) rules))"
  by (induction rules arbitrary: c) (auto simp: choose_rule_def split: option.splits)

lemma RuleResolver_specific:
  "RuleResolver rules k i =
     (case find (\<lambda>r. covers k i r \<and> RuleInstance r = Some i) rules of
        Some r \<Rightarrow> RuleParams r
      | None \<Rightarrow> (case find (covers k i) rules of Some r \<Rightarrow> RuleParams r | None \<Rightarrow> zero_params))"
proof -
  have "find (\<lambda>r. covers k i r \<and> RuleInstance r \<noteq> None) rules = find (\<lambda>r. covers k i r \<and> RuleInstance r = Some i) rules"
    by (rule find_cong) (auto simp: covers_def)
  then show ?thesis by (auto simp: RuleResolver_def fold_choose split: option.splits)
qed

end
