(* ===== verification/Alert_Store.thy ===== *)
theory Alert_Store
  imports Alerts "HOL-Library.Product_Lexorder"
begin

text \<open>
  The alert tables (\<open>internal/store/alerts.go\<close>) and the passes over them: the reconciliation of the stored
  conditions with what a scan observed (\<open>internal/alerts/scan/scan.go\<close>), and the dispatch of the edges still
  owed to rules (\<open>internal/notify/delivery/alerts.go\<close>). A table is the list of its rows, with the unique index,
  the primary key and the foreign keys of the schema written out where a statement can break them; a
  statement that breaks one undoes its transaction. \<open>NewID\<close> is the argument \<open>fresh\<close> applied to a counter. Which
  destinations a rule's message is rendered for is the argument \<open>prepare\<close>.
\<close>

subsection \<open>Tables\<close>

record AlertCondition =
  ac_ID :: string
  ac_Instance :: "string option"
  ac_Kind :: string
  ac_FirstSeen :: int
  ac_LastSeen :: int
  ac_Resolved :: "int option"

record ObservedCondition =
  ob_Kind :: string
  ob_Instance :: "string option"

datatype edge = EdgeOpened | EdgeResolved

record Notification =
  no_Condition :: string
  no_Rule :: string
  no_Edge :: edge
  no_Event :: string

record alert_delivery =
  ad_Webhook :: string
  ad_Rule :: "string option"
  ad_Event :: string

record alert_db =
  conditions :: "AlertCondition list"
  rules :: "AlertRule list"
  notifications :: "Notification list"
  deliveries :: "alert_delivery list"
  instance_ids :: "string set"
  webhook_ids :: "string set"
  minted :: nat

datatype alert_error = UniqueIndex | ForeignKey | CheckConstraint

definition conditionKey :: "string \<Rightarrow> string option \<Rightarrow> string" where
  "conditionKey kind iid = kind @ [CHR 0x00] @ deref iid"

definition key_of_row :: "AlertCondition \<Rightarrow> string" where
  "key_of_row c = conditionKey (ac_Kind c) (ac_Instance c)"

definition unique_index :: "AlertCondition list \<Rightarrow> bool" where
  "unique_index cs \<longleftrightarrow> distinct (map (\<lambda>c. (ac_Kind c, deref (ac_Instance c), ac_Resolved c)) cs)"

definition open_rows :: "AlertCondition list \<Rightarrow> AlertCondition list" where
  "open_rows cs = filter (\<lambda>c. ac_Resolved c = None) cs"

subsection \<open>Reconciling\<close>

definition new_condition :: "(nat \<Rightarrow> string) \<Rightarrow> ObservedCondition \<Rightarrow> int \<Rightarrow> alert_db \<Rightarrow> AlertCondition" where
  "new_condition fresh ob now d =
     \<lparr>ac_ID = fresh (minted d), ac_Instance = ob_Instance ob, ac_Kind = ob_Kind ob, ac_FirstSeen = now, ac_LastSeen = now,
      ac_Resolved = None\<rparr>"

text \<open>Touch the open row or insert one; the second result is the row when one was opened.\<close>

definition upsertCondition ::
  "(nat \<Rightarrow> string) \<Rightarrow> ObservedCondition \<Rightarrow> AlertCondition option \<Rightarrow> int \<Rightarrow> alert_db \<Rightarrow>
     alert_error + (AlertCondition option \<times> alert_db)" where
  "upsertCondition fresh ob existing now d =
     (case existing of
        Some c \<Rightarrow> Inr (None, d\<lparr>conditions := map (\<lambda>x. if ac_ID x = ac_ID c then x\<lparr>ac_LastSeen := now\<rparr> else x) (conditions d)\<rparr>)
      | None \<Rightarrow>
          (let c = new_condition fresh ob now d; d1 = d\<lparr>conditions := conditions d @ [c], minted := minted d + 1\<rparr> in
           if \<not> unique_index (conditions d1) then Inl UniqueIndex
           else if ac_Instance c \<noteq> None \<and> deref (ac_Instance c) \<notin> instance_ids d then Inl ForeignKey
           else Inr (Some c, d1)))"

record reconciling =
  rc_seen :: "string set"
  rc_opened :: "AlertCondition list"
  rc_db :: alert_db

definition observe_step ::
  "(nat \<Rightarrow> string) \<Rightarrow> (string \<rightharpoonup> AlertCondition) \<Rightarrow> int \<Rightarrow> ObservedCondition \<Rightarrow> reconciling \<Rightarrow> alert_error + reconciling" where
  "observe_step fresh byKey now ob s =
     (let key = conditionKey (ob_Kind ob) (ob_Instance ob) in
      if key \<in> rc_seen s then Inr s
      else rbind (upsertCondition fresh ob (byKey key) now (rc_db s)) (\<lambda>(opened, d).
        Inr \<lparr>rc_seen = insert key (rc_seen s),
             rc_opened = (case opened of None \<Rightarrow> rc_opened s | Some c \<Rightarrow> rc_opened s @ [c]), rc_db = d\<rparr>))"

definition resolve_row :: "int \<Rightarrow> string \<Rightarrow> AlertCondition list \<Rightarrow> AlertCondition list" where
  "resolve_row now i cs = map (\<lambda>x. if ac_ID x = i then x\<lparr>ac_Resolved := Some now\<rparr> else x) cs"

text \<open>Each update is checked against the unique index as it is made.\<close>

fun resolveMissing ::
  "AlertCondition list \<Rightarrow> string set \<Rightarrow> int \<Rightarrow> alert_db \<Rightarrow> alert_error + (AlertCondition list \<times> alert_db)" where
  "resolveMissing [] seen now d = Inr ([], d)"
| "resolveMissing (c # cs) seen now d =
     (if key_of_row c \<in> seen then resolveMissing cs seen now d
      else
        let d1 = d\<lparr>conditions := resolve_row now (ac_ID c) (conditions d)\<rparr> in
        if \<not> unique_index (conditions d1) then Inl UniqueIndex
        else rbind (resolveMissing cs seen now d1) (\<lambda>(resolved, d2). Inr (c\<lparr>ac_Resolved := Some now\<rparr> # resolved, d2)))"

record ConditionDiff =
  Opened :: "AlertCondition list"
  Resolved :: "AlertCondition list"

definition by_key :: "AlertCondition list \<Rightarrow> string \<rightharpoonup> AlertCondition" where
  "by_key cs = fold (\<lambda>c m. m(key_of_row c \<mapsto> c)) cs Map.empty"

definition ReconcileConditions ::
  "(nat \<Rightarrow> string) \<Rightarrow> ObservedCondition list \<Rightarrow> int \<Rightarrow> alert_db \<Rightarrow> alert_error + (ConditionDiff \<times> alert_db)" where
  "ReconcileConditions fresh observed now d =
     (let was_open = open_rows (conditions d) in
      rbind (foldR (observe_step fresh (by_key was_open) now) observed \<lparr>rc_seen = {}, rc_opened = [], rc_db = d\<rparr>) (\<lambda>s.
      rbind (resolveMissing was_open (rc_seen s) now (rc_db s)) (\<lambda>(resolved, d2).
        Inr (\<lparr>Opened = rc_opened s, Resolved = resolved\<rparr>, d2))))"

text \<open>\<open>Scan\<close> hands the evaluated conditions over with the empty instance as no instance.\<close>

definition observed_of :: "Condition list \<Rightarrow> ObservedCondition list" where
  "observed_of cs =
     map (\<lambda>c. \<lparr>ob_Kind = alert_name (CondKind c), ob_Instance = (if CondInstance c = [] then None else Some (CondInstance c))\<rparr>) cs"

subsection \<open>Announcing\<close>

definition notified :: "alert_db \<Rightarrow> string \<Rightarrow> string \<Rightarrow> edge \<Rightarrow> bool" where
  "notified d c r e \<longleftrightarrow> list_ex (\<lambda>n. no_Condition n = c \<and> no_Rule n = r \<and> no_Edge n = e) (notifications d)"

text \<open>\<open>INSERT OR IGNORE\<close> of one claim, guarded by the opening; it is not ignored when a row it refers to is gone.\<close>

definition markNotified :: "Notification \<Rightarrow> alert_db \<Rightarrow> alert_error + (bool \<times> alert_db)" where
  "markNotified n d =
     (if \<not> (no_Edge n = EdgeOpened \<or> notified d (no_Condition n) (no_Rule n) EdgeOpened) then Inr (False, d)
      else if notified d (no_Condition n) (no_Rule n) (no_Edge n) then Inr (False, d)
      else if \<not> list_ex (\<lambda>c. ac_ID c = no_Condition n) (conditions d) \<or> \<not> list_ex (\<lambda>r. RuleID r = no_Rule n) (rules d)
      then Inl ForeignKey
      else Inr (True, d\<lparr>notifications := notifications d @ [n]\<rparr>))"

fun createDeliveries :: "alert_delivery list \<Rightarrow> alert_db \<Rightarrow> alert_error + alert_db" where
  "createDeliveries [] d = Inr d"
| "createDeliveries (x # xs) d =
     (if ad_Webhook x \<notin> webhook_ids d then Inl ForeignKey
      else createDeliveries xs (d\<lparr>deliveries := deliveries d @ [x]\<rparr>))"

definition MarkNotified :: "Notification \<Rightarrow> alert_delivery list \<Rightarrow> alert_db \<Rightarrow> alert_error + (bool \<times> alert_db)" where
  "MarkNotified n ds d =
     rbind (markNotified n d) (\<lambda>(claimed, d1).
       if \<not> claimed then Inr (False, d1) else rbind (createDeliveries ds d1) (\<lambda>d2. Inr (True, d2)))"

definition Matches :: "AlertRule \<Rightarrow> AlertCondition \<Rightarrow> bool" where
  "Matches r c =
     (if \<not> RuleEnabled r \<or> ConditionKind r \<noteq> ac_Kind c then False
      else case RuleInstance r of None \<Rightarrow> True | Some i \<Rightarrow> ac_Instance c = Some i)"

definition ListAlertRules :: "alert_db \<Rightarrow> AlertRule list" where
  "ListAlertRules d = sort_key (\<lambda>r. (ConditionKind r, RuleInstance r, RuleID r)) (rules d)"

definition OpenConditions :: "alert_db \<Rightarrow> AlertCondition list" where
  "OpenConditions d = rev (sort_key (\<lambda>c. (ac_FirstSeen c, ac_ID c)) (open_rows (conditions d)))"

definition owes_resolution :: "alert_db \<Rightarrow> string \<Rightarrow> bool" where
  "owes_resolution d c \<longleftrightarrow>
     list_ex (\<lambda>n. no_Condition n = c \<and> no_Edge n = EdgeOpened \<and> \<not> notified d c (no_Rule n) EdgeResolved) (notifications d)"

definition ResolvedUnannounced :: "int \<Rightarrow> alert_db \<Rightarrow> AlertCondition list" where
  "ResolvedUnannounced since d =
     sort_key (\<lambda>c. (the (ac_Resolved c), ac_ID c))
       (filter (\<lambda>c. (case ac_Resolved c of None \<Rightarrow> False | Some t \<Rightarrow> t > since) \<and> owes_resolution d (ac_ID c)) (conditions d))"

definition clearanceHorizon :: int where
  "clearanceHorizon = 48 * 60 * 60"

type_synonym prepare = "AlertCondition \<Rightarrow> edge \<Rightarrow> AlertRule \<Rightarrow> string list option"

definition ruleDeliveries :: "string \<Rightarrow> AlertRule \<Rightarrow> string list \<Rightarrow> alert_delivery list" where
  "ruleDeliveries event r targets = map (\<lambda>w. \<lparr>ad_Webhook = w, ad_Rule = Some (RuleID r), ad_Event = event\<rparr>) targets"

text \<open>One rule for one edge. A failure to render or to claim is logged and passed over.\<close>

definition dispatch_rule ::
  "(nat \<Rightarrow> string) \<Rightarrow> (string \<Rightarrow> int \<Rightarrow> int option) \<Rightarrow> prepare \<Rightarrow> int \<Rightarrow> AlertCondition \<Rightarrow> edge \<Rightarrow> AlertRule \<Rightarrow> alert_db \<Rightarrow> alert_db" where
  "dispatch_rule fresh local_minutes prepare now c e r d =
     (if \<not> Matches r c \<or> Quiet local_minutes r now then d
      else
        let event = fresh (minted d); d0 = d\<lparr>minted := minted d + 1\<rparr> in
        case prepare c e r of
          None \<Rightarrow> d0
        | Some targets \<Rightarrow>
            (case MarkNotified \<lparr>no_Condition = ac_ID c, no_Rule = RuleID r, no_Edge = e, no_Event = event\<rparr>
                    (ruleDeliveries event r targets) d0 of
               Inl _ \<Rightarrow> d0
             | Inr (_, d1) \<Rightarrow> d1))"

definition dispatchOne ::
  "(nat \<Rightarrow> string) \<Rightarrow> (string \<Rightarrow> int \<Rightarrow> int option) \<Rightarrow> prepare \<Rightarrow> int \<Rightarrow> AlertRule list \<Rightarrow> edge \<Rightarrow> AlertCondition \<Rightarrow> alert_db \<Rightarrow> alert_db" where
  "dispatchOne fresh local_minutes prepare now rs e c d = fold (dispatch_rule fresh local_minutes prepare now c e) rs d"

definition DispatchAlerts ::
  "(nat \<Rightarrow> string) \<Rightarrow> (string \<Rightarrow> int \<Rightarrow> int option) \<Rightarrow> prepare \<Rightarrow> int \<Rightarrow> alert_db \<Rightarrow> alert_db" where
  "DispatchAlerts fresh local_minutes prepare now d =
     (let rs = ListAlertRules d in
      if rs = [] then d
      else
        let was_open = OpenConditions d;
            resolved = ResolvedUnannounced (now - clearanceHorizon) d;
            reopened = (\<lambda>c. list_ex (\<lambda>x. ac_Kind x = ac_Kind c \<and> deref (ac_Instance x) = deref (ac_Instance c)) was_open);
            owed = filter (\<lambda>c. \<not> reopened c) resolved;
            d1 = fold (dispatchOne fresh local_minutes prepare now rs EdgeResolved) owed d
        in fold (dispatchOne fresh local_minutes prepare now rs EdgeOpened) was_open d1)"

subsection \<open>Rules and cascades\<close>

definition quiet_columns_ok :: "AlertRule \<Rightarrow> bool" where
  "quiet_columns_ok r \<longleftrightarrow>
     (case QuietStart r of None \<Rightarrow> True | Some a \<Rightarrow> 0 \<le> a \<and> a \<le> 1439) \<and>
     (case QuietEnd r of None \<Rightarrow> True | Some b \<Rightarrow> 0 \<le> b \<and> b \<le> 1439) \<and>
     (QuietStart r = None) = (QuietEnd r = None) \<and> (QuietStart r = None) = (QuietTZ r = None)"

text \<open>The destinations are rows of their own, read back in their order.\<close>

definition SaveAlertRule :: "AlertRule \<Rightarrow> alert_db \<Rightarrow> alert_error + alert_db" where
  "SaveAlertRule r d =
     (let row = r\<lparr>WebhookIDs := sort (WebhookIDs r)\<rparr> in
      if \<not> quiet_columns_ok r then Inl CheckConstraint
      else if RuleInstance r \<noteq> None \<and> deref (RuleInstance r) \<notin> instance_ids d then Inl ForeignKey
      else if \<not> distinct (WebhookIDs r) then Inl UniqueIndex
      else if \<not> set (WebhookIDs r) \<subseteq> webhook_ids d then Inl ForeignKey
      else Inr (d\<lparr>rules := (if list_ex (\<lambda>x. RuleID x = RuleID r) (rules d)
                            then map (\<lambda>x. if RuleID x = RuleID r then row else x) (rules d) else rules d @ [row])\<rparr>))"

text \<open>A delivery outlives its rule and forgets it.\<close>

definition forget_rules :: "string list \<Rightarrow> alert_delivery list \<Rightarrow> alert_delivery list" where
  "forget_rules ids ds = map (\<lambda>x. if ad_Rule x \<in> Some ` set ids then x\<lparr>ad_Rule := None\<rparr> else x) ds"

definition DeleteAlertRule :: "string \<Rightarrow> alert_db \<Rightarrow> alert_db" where
  "DeleteAlertRule i d =
     d\<lparr>rules := filter (\<lambda>r. RuleID r \<noteq> i) (rules d), notifications := filter (\<lambda>n. no_Rule n \<noteq> i) (notifications d),
       deliveries := forget_rules [i] (deliveries d)\<rparr>"

text \<open>What deleting an instance's row does to these tables.\<close>

definition cascade_instance :: "string \<Rightarrow> alert_db \<Rightarrow> alert_db" where
  "cascade_instance i d =
     (let gone_conditions = map ac_ID (filter (\<lambda>c. ac_Instance c = Some i) (conditions d));
          gone_rules = map RuleID (filter (\<lambda>r. RuleInstance r = Some i) (rules d))
      in d\<lparr>conditions := filter (\<lambda>c. ac_Instance c \<noteq> Some i) (conditions d),
           rules := filter (\<lambda>r. RuleInstance r \<noteq> Some i) (rules d),
           notifications := filter (\<lambda>n. no_Condition n \<notin> set gone_conditions \<and> no_Rule n \<notin> set gone_rules) (notifications d),
           deliveries := forget_rules gone_rules (deliveries d), instance_ids := instance_ids d - {i}\<rparr>)"

subsection \<open>Well-formed tables\<close>

text \<open>Keys and references of the schema, one open row per kind and instance, and no resolution claimed without
  its opening. Kinds hold no NUL byte, so that the key of a condition determines both halves.\<close>

definition alerts_ok :: "(nat \<Rightarrow> string) \<Rightarrow> alert_db \<Rightarrow> bool" where
  "alerts_ok fresh d \<longleftrightarrow>
     distinct (map ac_ID (conditions d)) \<and> ac_ID ` set (conditions d) \<subseteq> fresh ` {..<minted d} \<and>
     (\<forall>c \<in> set (conditions d). CHR 0x00 \<notin> set (ac_Kind c)) \<and>
     distinct (map key_of_row (open_rows (conditions d))) \<and> unique_index (conditions d) \<and>
     distinct (map RuleID (rules d)) \<and>
     distinct (map (\<lambda>n. (no_Condition n, no_Rule n, no_Edge n)) (notifications d)) \<and>
     (\<forall>n \<in> set (notifications d). no_Condition n \<in> ac_ID ` set (conditions d) \<and> no_Rule n \<in> RuleID ` set (rules d) \<and>
        notified d (no_Condition n) (no_Rule n) EdgeOpened)"

lemma conditionKey_inj:
  assumes "CHR 0x00 \<notin> set k" "CHR 0x00 \<notin> set l"
  shows "conditionKey k i = conditionKey l j \<longleftrightarrow> k = l \<and> deref i = deref j"
  using assms by (auto simp: conditionKey_def append_eq_append_conv2 Cons_eq_append_conv append_eq_Cons_conv)

lemma open_rows_append [simp]: "open_rows (a @ b) = open_rows a @ open_rows b"
  by (simp add: open_rows_def)

lemma by_key_lookup:
  assumes "distinct (map key_of_row cs)"
  shows "by_key cs k = Some c \<longleftrightarrow> c \<in> set cs \<and> key_of_row c = k"
proof -
  have "fold (\<lambda>c m. m(key_of_row c \<mapsto> c)) cs m k = (case find (\<lambda>c. key_of_row c = k) cs of Some c \<Rightarrow> Some c | None \<Rightarrow> m k)" for m
    using assms
  proof (induction cs arbitrary: m)
    case (Cons x cs)
    have "find (\<lambda>c. key_of_row c = key_of_row x) cs = None" 
    proof (rule ccontr)
      assume "find (\<lambda>c. key_of_row c = key_of_row x) cs \<noteq> None"
      then obtain y where "y \<in> set cs" "key_of_row y = key_of_row x" by (auto dest: find_SomeD)
      then have "key_of_row x \<in> key_of_row ` set cs" by (metis image_eqI)
      with Cons.prems show False by simp
    qed
    with Cons show ?case by auto
  qed simp
  then have "by_key cs k = find (\<lambda>c. key_of_row c = k) cs" unfolding by_key_def by (simp split: option.splits)
  also have "\<dots> = Some c \<longleftrightarrow> c \<in> set cs \<and> key_of_row c = k"
    using assms by (induction cs) auto
  finally show ?thesis .
qed

subsection \<open>What a reconciliation does\<close>

definition touch :: "int \<Rightarrow> string set \<Rightarrow> AlertCondition \<Rightarrow> AlertCondition" where
  "touch now K x = (if ac_Resolved x = None \<and> key_of_row x \<in> K then x\<lparr>ac_LastSeen := now\<rparr> else x)"

abbreviation keys_of :: "ObservedCondition list \<Rightarrow> string set" where
  "keys_of obs \<equiv> (\<lambda>ob. conditionKey (ob_Kind ob) (ob_Instance ob)) ` set obs"

text \<open>The loop over what was observed, after \<open>obs\<close>.\<close>

definition observing :: "(nat \<Rightarrow> string) \<Rightarrow> alert_db \<Rightarrow> int \<Rightarrow> ObservedCondition list \<Rightarrow> reconciling \<Rightarrow> bool" where
  "observing fresh d now obs s \<longleftrightarrow> rc_seen s = keys_of obs \<and>
     rc_db s = d\<lparr>conditions := map (touch now (keys_of obs)) (conditions d) @ rc_opened s, minted := minted d + length (rc_opened s)\<rparr> \<and>
     map ac_ID (rc_opened s) = map fresh [minted d..<minted d + length (rc_opened s)] \<and>
     distinct (map key_of_row (rc_opened s)) \<and>
     key_of_row ` set (rc_opened s) = keys_of obs - key_of_row ` set (open_rows (conditions d)) \<and>
     (\<forall>c \<in> set (rc_opened s). ac_Resolved c = None \<and> ac_FirstSeen c = now \<and> ac_LastSeen c = now \<and> ac_Kind c \<in> ob_Kind ` set obs)"

lemma touch_simps [simp]:
  "ac_ID (touch now K x) = ac_ID x" "key_of_row (touch now K x) = key_of_row x" "ac_Resolved (touch now K x) = ac_Resolved x"
  "ac_Kind (touch now K x) = ac_Kind x" "ac_Instance (touch now K x) = ac_Instance x" "ac_FirstSeen (touch now K x) = ac_FirstSeen x"
  by (simp_all add: touch_def key_of_row_def)

lemma touch_more:
  assumes "distinct (map ac_ID cs)" "distinct (map key_of_row (open_rows cs))" "c \<in> set (open_rows cs)" "x \<in> set cs"
  shows "(if ac_ID (touch now K x) = ac_ID c then (touch now K x)\<lparr>ac_LastSeen := now\<rparr> else touch now K x)
    = touch now (insert (key_of_row c) K) x"
proof (cases "ac_ID x = ac_ID c")
  case True
  have "c \<in> set cs" using assms(3) by (simp add: open_rows_def)
  with True assms(1,4) have "x = c" by (meson distinct_map inj_onD)
  with assms(3) show ?thesis by (auto simp: touch_def open_rows_def)
next
  case False
  have "key_of_row x \<noteq> key_of_row c" if "ac_Resolved x = None"
  proof -
    have "x \<in> set (open_rows cs)" using that assms(4) by (simp add: open_rows_def)
    moreover have "inj_on key_of_row (set (open_rows cs))" using assms(2) by (simp add: distinct_map)
    ultimately have "x = c" if "key_of_row x = key_of_row c" using assms(3) that unfolding inj_on_def by blast
    with False show ?thesis by blast
  qed
  with False show ?thesis by (auto simp: touch_def)
qed

lemma observe_step_ok:
  assumes ok: "alerts_ok fresh d" and inj: "inj fresh" and s: "observing fresh d now obs s"
    and st: "observe_step fresh (by_key (open_rows (conditions d))) now ob s = Inr s'"
  shows "observing fresh d now (obs @ [ob]) s'"
proof -
  let ?k = "conditionKey (ob_Kind ob) (ob_Instance ob)" and ?K = "keys_of obs" and ?open = "open_rows (conditions d)"
  have dist: "distinct (map ac_ID (conditions d))" "distinct (map key_of_row ?open)"
    and ids: "ac_ID ` set (conditions d) \<subseteq> fresh ` {..<minted d}" using ok by (simp_all add: alerts_ok_def)
  from s have seen: "rc_seen s = ?K" and db: "rc_db s = d\<lparr>conditions := map (touch now ?K) (conditions d) @ rc_opened s,
      minted := minted d + length (rc_opened s)\<rparr>" and new: "map ac_ID (rc_opened s) = map fresh [minted d..<minted d + length (rc_opened s)]"
    "distinct (map key_of_row (rc_opened s))" "key_of_row ` set (rc_opened s) = ?K - key_of_row ` set ?open"
    "\<And>c. c \<in> set (rc_opened s) \<Longrightarrow> ac_Resolved c = None \<and> ac_FirstSeen c = now \<and> ac_LastSeen c = now \<and> ac_Kind c \<in> ob_Kind ` set obs"
    by (auto simp: observing_def)
  show ?thesis
  proof (cases "?k \<in> ?K")
    case True
    then have k: "keys_of (obs @ [ob]) = ?K" by auto
    from True st seen have "s' = s" by (simp add: observe_step_def Let_def)
    with s new(4) show ?thesis unfolding observing_def k by auto
  next
    case fresh_key: False
    have k: "keys_of (obs @ [ob]) = insert ?k ?K" by auto
    show ?thesis
    proof (cases "by_key ?open ?k")
      case None
      then have notopen: "?k \<notin> key_of_row ` set ?open" using by_key_lookup [OF dist(2), of ?k] by fastforce
      let ?c = "new_condition fresh ob now (rc_db s)"
      from st fresh_key seen None have s': "s' = \<lparr>rc_seen = insert ?k ?K, rc_opened = rc_opened s @ [?c],
          rc_db = (rc_db s)\<lparr>conditions := conditions (rc_db s) @ [?c], minted := minted (rc_db s) + 1\<rparr>\<rparr>"
        by (auto simp: observe_step_def upsertCondition_def Let_def split: if_splits)
      have c: "key_of_row ?c = ?k" "ac_ID ?c = fresh (minted d + length (rc_opened s))" "ac_Resolved ?c = None"
        "ac_FirstSeen ?c = now" "ac_LastSeen ?c = now" "ac_Kind ?c = ob_Kind ob"
        by (simp_all add: new_condition_def key_of_row_def db)
      have t: "map (touch now (insert ?k ?K)) (conditions d) = map (touch now ?K) (conditions d)"
      proof (rule map_cong [OF HOL.refl])
        fix x assume "x \<in> set (conditions d)"
        then have "key_of_row x \<noteq> ?k" if "ac_Resolved x = None" using that notopen by (force simp: open_rows_def)
        then show "touch now (insert ?k ?K) x = touch now ?K x" by (auto simp: touch_def)
      qed
      show ?thesis unfolding observing_def k s' using new c notopen fresh_key by (auto simp: db t)
    next
      case (Some c)
      then have c: "c \<in> set ?open" "key_of_row c = ?k" using by_key_lookup [OF dist(2)] by auto
      from st fresh_key seen Some have s': "s' = \<lparr>rc_seen = insert ?k ?K, rc_opened = rc_opened s,
          rc_db = (rc_db s)\<lparr>conditions := map (\<lambda>x. if ac_ID x = ac_ID c then x\<lparr>ac_LastSeen := now\<rparr> else x) (conditions (rc_db s))\<rparr>\<rparr>"
        by (simp add: observe_step_def upsertCondition_def Let_def)
      have "ac_ID x \<noteq> ac_ID c" if "x \<in> set (rc_opened s)" for x
      proof -
        have "ac_ID x \<in> fresh ` {minted d..<minted d + length (rc_opened s)}" using that new(1) by (metis image_eqI set_map set_upt)
        moreover have "ac_ID c \<in> fresh ` {..<minted d}" using ids c(1) by (auto simp: open_rows_def)
        ultimately show ?thesis using inj by (auto simp: inj_eq)
      qed
      then have o: "map (\<lambda>x. if ac_ID x = ac_ID c then x\<lparr>ac_LastSeen := now\<rparr> else x) (rc_opened s) = rc_opened s"
        by (simp add: map_idI)
      have t: "map ((\<lambda>x. if ac_ID x = ac_ID c then x\<lparr>ac_LastSeen := now\<rparr> else x) \<circ> touch now ?K) (conditions d)
          = map (touch now (insert ?k ?K)) (conditions d)"
        using touch_more [OF dist c(1)] c(2) by simp
      have "?k \<in> key_of_row ` set ?open" using c by (metis image_eqI)
      then show ?thesis unfolding observing_def k s' using new by (auto simp: db o t)
    qed
  qed
qed

lemma observing_all:
  assumes ok: "alerts_ok fresh d" and inj: "inj fresh"
    and f: "foldR (observe_step fresh (by_key (open_rows (conditions d))) now) obs s = Inr s'"
    and s: "observing fresh d now done s"
  shows "observing fresh d now (done @ obs) s'"
  using f s
proof (induction obs arbitrary: s "done")
  case (Cons ob obs)
  from Cons.prems(1) obtain t where t: "observe_step fresh (by_key (open_rows (conditions d))) now ob s = Inr t"
    "foldR (observe_step fresh (by_key (open_rows (conditions d))) now) obs t = Inr s'" by (auto split: sum.splits)
  from Cons.IH [OF t(2) observe_step_ok [OF ok inj Cons.prems(2) t(1)]] show ?case by simp
qed simp

text \<open>Closing the rows the scan no longer saw.\<close>

definition close :: "int \<Rightarrow> string set \<Rightarrow> AlertCondition \<Rightarrow> AlertCondition" where
  "close now I x = (if ac_ID x \<in> I then x\<lparr>ac_Resolved := Some now\<rparr> else x)"

abbreviation missing :: "string set \<Rightarrow> AlertCondition list \<Rightarrow> AlertCondition list" where
  "missing K cs \<equiv> filter (\<lambda>c. key_of_row c \<notin> K) cs"

lemma resolveMissing_exact:
  "resolveMissing cs K now d = Inr (resolved, d') \<Longrightarrow>
     resolved = map (\<lambda>c. c\<lparr>ac_Resolved := Some now\<rparr>) (missing K cs) \<and>
     d' = d\<lparr>conditions := map (close now (ac_ID ` set (missing K cs))) (conditions d)\<rparr>"
proof (induction cs arbitrary: d resolved)
  case Nil
  have "close now {} = (\<lambda>x. x)" by (rule ext) (simp add: close_def)
  with Nil show ?case by simp
next
  case (Cons c cs)
  show ?case
  proof (cases "key_of_row c \<in> K")
    case True
    with Cons show ?thesis by simp
  next
    case False
    let ?d1 = "d\<lparr>conditions := resolve_row now (ac_ID c) (conditions d)\<rparr>"
    from Cons.prems False obtain r where r: "resolveMissing cs K now ?d1 = Inr (r, d')" "resolved = c\<lparr>ac_Resolved := Some now\<rparr> # r"
      by (auto simp: Let_def rbind_def split: if_splits sum.splits)
    have "map (close now I) (resolve_row now (ac_ID c) xs) = map (close now (insert (ac_ID c) I)) xs" for I xs
      by (auto simp: resolve_row_def close_def)
    with Cons.IH [OF r(1)] r(2) False show ?thesis by simp
  qed
qed

text \<open>The whole reconciliation.\<close>

definition settle_row :: "int \<Rightarrow> string set \<Rightarrow> AlertCondition \<Rightarrow> AlertCondition" where
  "settle_row now K x =
     (if ac_Resolved x \<noteq> None then x
      else if key_of_row x \<in> K then x\<lparr>ac_LastSeen := now\<rparr> else x\<lparr>ac_Resolved := Some now\<rparr>)"

lemma settle_row_simps [simp]:
  "ac_ID (settle_row now K x) = ac_ID x" "ac_Kind (settle_row now K x) = ac_Kind x" "key_of_row (settle_row now K x) = key_of_row x"
  by (simp_all add: settle_row_def key_of_row_def)

lemma Reconcile_exact:
  assumes ok: "alerts_ok fresh d" and inj: "inj fresh" and r: "ReconcileConditions fresh obs now d = Inr (diff, d')"
  shows "\<exists>news. d' = d\<lparr>conditions := map (settle_row now (keys_of obs)) (conditions d) @ news, minted := minted d + length news\<rparr> \<and>
     Opened diff = news \<and> Resolved diff = map (settle_row now (keys_of obs)) (missing (keys_of obs) (open_rows (conditions d))) \<and>
     map ac_ID news = map fresh [minted d..<minted d + length news] \<and> distinct (map key_of_row news) \<and>
     key_of_row ` set news = keys_of obs - key_of_row ` set (open_rows (conditions d)) \<and>
     (\<forall>c \<in> set news. ac_Resolved c = None \<and> ac_FirstSeen c = now \<and> ac_LastSeen c = now \<and> ac_Kind c \<in> ob_Kind ` set obs)"
proof -
  let ?open = "open_rows (conditions d)" and ?K = "keys_of obs"
  from r obtain s resolved where s: "foldR (observe_step fresh (by_key ?open) now) obs \<lparr>rc_seen = {}, rc_opened = [], rc_db = d\<rparr> = Inr s"
    and m: "resolveMissing ?open (rc_seen s) now (rc_db s) = Inr (resolved, d')"
    and diff: "diff = \<lparr>Opened = rc_opened s, Resolved = resolved\<rparr>"
    by (auto simp: ReconcileConditions_def Let_def rbind_def split: sum.splits)
  have "touch now {} = (\<lambda>x. x)" by (rule ext) (simp add: touch_def)
  then have "observing fresh d now [] \<lparr>rc_seen = {}, rc_opened = [], rc_db = d\<rparr>" by (simp add: observing_def)
  from observing_all [OF ok inj s this] have ob: "observing fresh d now obs s" by simp
  then have seen: "rc_seen s = ?K" and db: "rc_db s = d\<lparr>conditions := map (touch now ?K) (conditions d) @ rc_opened s,
      minted := minted d + length (rc_opened s)\<rparr>" and ids: "map ac_ID (rc_opened s) = map fresh [minted d..<minted d + length (rc_opened s)]"
    by (simp_all add: observing_def)
  let ?I = "ac_ID ` set (missing ?K ?open)"
  from resolveMissing_exact [OF m] have res: "resolved = map (\<lambda>c. c\<lparr>ac_Resolved := Some now\<rparr>) (missing ?K ?open)"
    and d': "d' = (rc_db s)\<lparr>conditions := map (close now ?I) (conditions (rc_db s))\<rparr>" by (simp_all add: seen)
  have dist: "distinct (map ac_ID (conditions d))" and old: "ac_ID ` set (conditions d) \<subseteq> fresh ` {..<minted d}"
    using ok by (simp_all add: alerts_ok_def)
  have "close now ?I (touch now ?K x) = settle_row now ?K x" if x: "x \<in> set (conditions d)" for x
  proof -
    have "ac_ID x \<in> ?I \<longleftrightarrow> ac_Resolved x = None \<and> key_of_row x \<notin> ?K"
      using dist x by (auto simp: open_rows_def distinct_map inj_on_def)
    then show ?thesis by (auto simp: close_def touch_def settle_row_def)
  qed
  moreover have "close now ?I x = x" if "x \<in> set (rc_opened s)" for x
  proof -
    have "ac_ID x \<in> fresh ` {minted d..<minted d + length (rc_opened s)}" using that ids by (metis image_eqI set_map set_upt)
    moreover have "?I \<subseteq> fresh ` {..<minted d}" using old by (auto simp: open_rows_def)
    ultimately show ?thesis using inj by (auto simp: close_def inj_eq)
  qed
  ultimately have "d' = d\<lparr>conditions := map (settle_row now ?K) (conditions d) @ rc_opened s, minted := minted d + length (rc_opened s)\<rparr>"
    unfolding d' db by (simp add: map_idI)
  moreover have "resolved = map (settle_row now ?K) (missing ?K ?open)"
    unfolding res by (auto simp: settle_row_def open_rows_def)
  ultimately show ?thesis using ob diff by (auto simp: observing_def)
qed

text \<open>Every statement of the transaction is checked against the unique index.\<close>

lemma unique_index_map:
  assumes "\<And>x. ac_Kind (f x) = ac_Kind x \<and> ac_Instance (f x) = ac_Instance x \<and> ac_Resolved (f x) = ac_Resolved x"
  shows "unique_index (map f cs) = unique_index cs"
  by (simp add: unique_index_def comp_def assms)

lemma observe_fold_unique:
  assumes "foldR (observe_step fresh byKey now) obs s = Inr s'" and "unique_index (conditions (rc_db s))"
  shows "unique_index (conditions (rc_db s'))"
proof (rule foldR_invariant [OF assms(1), where P = "\<lambda>s. unique_index (conditions (rc_db s))"])
  show "unique_index (conditions (rc_db t'))"
    if "observe_step fresh byKey now ob t = Inr t'" "unique_index (conditions (rc_db t))" for ob t t'
    using that by (auto simp: observe_step_def upsertCondition_def Let_def unique_index_map split: if_splits option.splits)
qed (rule assms(2))

lemma Reconcile_unique:
  assumes u: "unique_index (conditions d)" and r: "ReconcileConditions fresh obs now d = Inr (diff, d')"
  shows "unique_index (conditions d')"
proof -
  let ?open = "open_rows (conditions d)"
  from r obtain s resolved where s: "foldR (observe_step fresh (by_key ?open) now) obs \<lparr>rc_seen = {}, rc_opened = [], rc_db = d\<rparr> = Inr s"
    and m: "resolveMissing ?open (rc_seen s) now (rc_db s) = Inr (resolved, d')"
    by (auto simp: ReconcileConditions_def Let_def rbind_def split: sum.splits)
  from observe_fold_unique [OF s] u have "unique_index (conditions (rc_db s))" by simp
  moreover have "unique_index (conditions d2)"
    if "resolveMissing cs K now d1 = Inr (rs, d2)" "unique_index (conditions d1)" for cs K d1 rs d2
    using that
  proof (induction cs arbitrary: d1 rs)
    case (Cons c cs)
    show ?case
    proof (cases "key_of_row c \<in> K")
      case True
      with Cons show ?thesis by simp
    next
      case False
      with Cons show ?thesis by (auto simp: Let_def rbind_def split: if_splits sum.splits)
    qed
  qed simp
  ultimately show ?thesis using m by blast
qed

end
