(* ===== verification/Alert_Properties.thy ===== *)
theory Alert_Properties
  imports Alert_Store
begin

text \<open>
  What the alert tables promise under any interleaving of scans, claims and administration: one open row per
  condition, the messages about an edge queued for a rule at most once and a resolution only after its opening; that
  a scan leaves exactly the observed conditions open; and that a dispatch leaves nothing owed and queues exactly
  the messages of what it announces.
\<close>

subsection \<open>Steps\<close>

definition cascade_webhook :: "string \<Rightarrow> alert_db \<Rightarrow> alert_db" where
  "cascade_webhook w d =
     d\<lparr>rules := map (\<lambda>r. r\<lparr>WebhookIDs := filter (\<lambda>x. x \<noteq> w) (WebhookIDs r)\<rparr>) (rules d),
       deliveries := filter (\<lambda>x. ad_Webhook x \<noteq> w) (deliveries d), webhook_ids := webhook_ids d - {w}\<rparr>"

text \<open>Every transaction on the tables but the claims of a dispatch.\<close>

inductive table_step :: "(nat \<Rightarrow> string) \<Rightarrow> alert_db \<Rightarrow> alert_db \<Rightarrow> bool" for fresh where
  scan: "ReconcileConditions fresh (observed_of cs) now d = Inr (diff, d') \<Longrightarrow> table_step fresh d d'"
| unclaimed: "table_step fresh d (d\<lparr>minted := minted d + 1\<rparr>)"
| save: "SaveAlertRule r d = Inr d' \<Longrightarrow> table_step fresh d d'"
| delete: "table_step fresh d (DeleteAlertRule i d)"
| instance_added: "table_step fresh d (d\<lparr>instance_ids := insert i (instance_ids d)\<rparr>)"
| instance_deleted: "table_step fresh d (cascade_instance i d)"
| webhook_added: "table_step fresh d (d\<lparr>webhook_ids := insert w (webhook_ids d)\<rparr>)"
| webhook_deleted: "table_step fresh d (cascade_webhook w d)"

inductive alert_step :: "(nat \<Rightarrow> string) \<Rightarrow> alert_db \<Rightarrow> alert_db \<Rightarrow> bool" for fresh where
  claim: "MarkNotified n ds (d\<lparr>minted := minted d + 1\<rparr>) = Inr (claimed, d') \<Longrightarrow> alert_step fresh d d'"
| other: "table_step fresh d d' \<Longrightarrow> alert_step fresh d d'"

text \<open>A run with what each of its claims queued, for as long as a rule exists.\<close>

inductive alert_run ::
  "(nat \<Rightarrow> string) \<Rightarrow> string \<Rightarrow> alert_db \<Rightarrow> (Notification \<times> alert_delivery list) list \<Rightarrow> alert_db \<Rightarrow> bool"
  for fresh rid d where
  none: "alert_run fresh rid d [] d"
| claims: "alert_run fresh rid d tr d1 \<Longrightarrow> MarkNotified n ds (d1\<lparr>minted := minted d1 + 1\<rparr>) = Inr (claimed, d2) \<Longrightarrow>
    alert_run fresh rid d (tr @ [(n, drop (length (deliveries d1)) (deliveries d2))]) d2"
| others: "alert_run fresh rid d tr d1 \<Longrightarrow> table_step fresh d1 d2 \<Longrightarrow> rid \<in> RuleID ` set (rules d2) \<Longrightarrow>
    alert_run fresh rid d tr d2"

definition empty_alerts :: alert_db where
  "empty_alerts = \<lparr>conditions = [], rules = [], notifications = [], deliveries = [], instance_ids = {}, webhook_ids = {}, minted = 0\<rparr>"

subsection \<open>The invariant\<close>

lemma alert_name_no_NUL: "CHR 0x00 \<notin> set (alert_name k)"
  by (cases k) simp_all

lemma notified_fields:
  "notified (d\<lparr>conditions := x\<rparr>) = notified d" "notified (d\<lparr>minted := m\<rparr>) = notified d" "notified (d\<lparr>rules := y\<rparr>) = notified d"
  "notified (d\<lparr>deliveries := z\<rparr>) = notified d" "notified (d\<lparr>instance_ids := u\<rparr>) = notified d" "notified (d\<lparr>webhook_ids := w\<rparr>) = notified d"
  by (simp_all add: notified_def fun_eq_iff)

lemma notified_iff: "notified d c r e \<longleftrightarrow> (c, r, e) \<in> (\<lambda>n. (no_Condition n, no_Rule n, no_Edge n)) ` set (notifications d)"
  by (auto simp: notified_def list_ex_iff image_iff)

lemma open_rows_settle:
  "open_rows (map (settle_row now K) cs) = map (settle_row now K) (filter (\<lambda>c. key_of_row c \<in> K) (open_rows cs))"
  by (induction cs) (auto simp: open_rows_def settle_row_def)

lemma alerts_ok_scan:
  assumes ok: "alerts_ok fresh d" and inj: "inj fresh" and r: "ReconcileConditions fresh (observed_of cs) now d = Inr (diff, d')"
  shows "alerts_ok fresh d'"
proof -
  let ?obs = "observed_of cs" and ?f = "settle_row now (keys_of (observed_of cs))"
  from Reconcile_exact [OF ok inj r] obtain news where
    d': "d' = d\<lparr>conditions := map ?f (conditions d) @ news, minted := minted d + length news\<rparr>"
    and ids: "map ac_ID news = map fresh [minted d..<minted d + length news]"
    and keys: "distinct (map key_of_row news)" "key_of_row ` set news = keys_of ?obs - key_of_row ` set (open_rows (conditions d))"
    and new: "\<And>c. c \<in> set news \<Longrightarrow> ac_Resolved c = None \<and> ac_Kind c \<in> ob_Kind ` set ?obs"
    by (elim exE conjE) (rule that; (assumption | blast))
  have o: "distinct (map ac_ID (conditions d))" "ac_ID ` set (conditions d) \<subseteq> fresh ` {..<minted d}"
    "\<And>c. c \<in> set (conditions d) \<Longrightarrow> CHR 0x00 \<notin> set (ac_Kind c)" "distinct (map key_of_row (open_rows (conditions d)))"
    using ok by (auto simp: alerts_ok_def)
  have nid: "ac_ID ` set news = fresh ` {minted d..<minted d + length news}" using arg_cong [OF ids, of set] by simp
  have "distinct (map ac_ID news)" unfolding ids distinct_map using inj_on_subset [OF inj subset_UNIV] by simp
  moreover have "ac_ID ` set (conditions d) \<inter> ac_ID ` set news = {}" unfolding nid using o(2) inj by (auto simp: inj_eq)
  ultimately have 1: "distinct (map ac_ID (conditions d'))" using o(1) by (simp add: d' comp_def)
  have 2: "ac_ID ` set (conditions d') \<subseteq> fresh ` {..<minted d'}" using o(2) nid by (auto simp: d' image_image image_Un)
  have "CHR 0x00 \<notin> set k" if "k \<in> ob_Kind ` set ?obs" for k using that alert_name_no_NUL by (auto simp: observed_of_def)
  then have 3: "\<forall>c \<in> set (conditions d'). CHR 0x00 \<notin> set (ac_Kind c)" using o(3) new by (auto simp: d')
  have "open_rows news = news" using new by (simp add: open_rows_def)
  then have 4: "distinct (map key_of_row (open_rows (conditions d')))"
    using o(4) keys by (auto simp: d' open_rows_settle comp_def distinct_map_filter)
  show ?thesis
    using ok 1 2 3 4 Reconcile_unique [OF _ r] by (auto simp: alerts_ok_def d' notified_fields image_image image_Un)
qed

lemma createDeliveries_exact: "createDeliveries ds d = Inr d' \<Longrightarrow> d' = d\<lparr>deliveries := deliveries d @ ds\<rparr>"
proof (induction ds arbitrary: d)
  case (Cons x ds)
  from Cons.prems have "createDeliveries ds (d\<lparr>deliveries := deliveries d @ [x]\<rparr>) = Inr d'" by (simp split: if_splits)
  from Cons.IH [OF this] show ?case by simp
qed simp

text \<open>A claim either changes nothing or adds the one notification that was missing and exactly its deliveries.\<close>

lemma MarkNotified_cases:
  assumes "MarkNotified n ds d = Inr (claimed, d')"
  obtains (kept) "\<not> claimed" "d' = d"
  | (new) "claimed" "d' = d\<lparr>notifications := notifications d @ [n], deliveries := deliveries d @ ds\<rparr>"
      "\<not> notified d (no_Condition n) (no_Rule n) (no_Edge n)"
      "no_Edge n = EdgeOpened \<or> notified d (no_Condition n) (no_Rule n) EdgeOpened"
      "no_Condition n \<in> ac_ID ` set (conditions d)" "no_Rule n \<in> RuleID ` set (rules d)"
proof -
  from assms obtain b d1 where m: "markNotified n d = Inr (b, d1)" by (auto simp: MarkNotified_def rbind_def split: sum.splits)
  show thesis
  proof (cases b)
    case False
    with assms m have "\<not> claimed" "d' = d1" by (auto simp: MarkNotified_def)
    moreover from False m have "d1 = d" by (auto simp: markNotified_def split: if_splits)
    ultimately show thesis using kept by simp
  next
    case True
    with m have d1: "d1 = d\<lparr>notifications := notifications d @ [n]\<rparr>"
      and n: "\<not> notified d (no_Condition n) (no_Rule n) (no_Edge n)"
        "no_Edge n = EdgeOpened \<or> notified d (no_Condition n) (no_Rule n) EdgeOpened"
        "no_Condition n \<in> ac_ID ` set (conditions d)" "no_Rule n \<in> RuleID ` set (rules d)"
      by (auto simp: markNotified_def list_ex_iff image_iff eq_commute [of "no_Condition n"] eq_commute [of "no_Rule n"] split: if_splits)
    from True assms m have "claimed" "createDeliveries ds d1 = Inr d'"
      by (auto simp: MarkNotified_def rbind_def split: sum.splits)
    with createDeliveries_exact [OF this(2)] d1 new n show thesis by simp
  qed
qed

lemma alerts_ok_claim:
  assumes ok: "alerts_ok fresh d" and m: "MarkNotified n ds d = Inr (claimed, d')"
  shows "alerts_ok fresh d'"
  using m
proof (cases rule: MarkNotified_cases)
  case kept
  with ok show ?thesis by simp
next
  case new
  have more: "notified d' c r e \<longleftrightarrow> notified d c r e \<or> (c, r, e) = (no_Condition n, no_Rule n, no_Edge n)" for c r e
    by (auto simp: new(2) notified_iff)
  have "distinct (map (\<lambda>n. (no_Condition n, no_Rule n, no_Edge n)) (notifications d'))"
    using ok new(2,3) by (auto simp: alerts_ok_def notified_iff)
  moreover have "\<forall>x \<in> set (notifications d'). no_Condition x \<in> ac_ID ` set (conditions d') \<and> no_Rule x \<in> RuleID ` set (rules d') \<and>
      notified d' (no_Condition x) (no_Rule x) EdgeOpened"
    using ok new(2,4,5,6) more by (auto simp: alerts_ok_def)
  ultimately show ?thesis using ok by (simp add: alerts_ok_def new(2))
qed

lemma alerts_ok_rules:
  assumes ok: "alerts_ok fresh d" and ids: "distinct (map RuleID rs)" "RuleID ` set (rules d) \<subseteq> RuleID ` set rs"
  shows "alerts_ok fresh (d\<lparr>rules := rs\<rparr>)"
  using assms unfolding alerts_ok_def by (auto simp: notified_fields dest: bspec subsetD)

lemma alerts_ok_filter:
  assumes ok: "alerts_ok fresh d"
    and keep: "\<And>n. n \<in> set (notifications d) \<Longrightarrow> Q (no_Condition n) (no_Rule n) \<Longrightarrow>
      (\<exists>c \<in> set (conditions d). ac_ID c = no_Condition n \<and> C c) \<and> (\<exists>r \<in> set (rules d). RuleID r = no_Rule n \<and> R r)"
  shows "alerts_ok fresh (d\<lparr>conditions := filter C (conditions d), rules := filter R (rules d),
    notifications := filter (\<lambda>n. Q (no_Condition n) (no_Rule n)) (notifications d)\<rparr>)" (is "alerts_ok fresh ?d")
proof -
  have n: "notified ?d c r e \<longleftrightarrow> notified d c r e \<and> Q c r" for c r e by (auto simp: notified_iff)
  have refs: "\<forall>n \<in> set (notifications ?d). no_Condition n \<in> ac_ID ` set (conditions ?d) \<and> no_Rule n \<in> RuleID ` set (rules ?d) \<and>
      notified ?d (no_Condition n) (no_Rule n) EdgeOpened"
  proof
    fix x assume "x \<in> set (notifications ?d)"
    then have x: "x \<in> set (notifications d)" "Q (no_Condition x) (no_Rule x)" by simp_all
    from keep [OF this] have "no_Condition x \<in> ac_ID ` set (conditions ?d)" "no_Rule x \<in> RuleID ` set (rules ?d)"
      by (auto simp: image_iff)
    moreover have "notified d (no_Condition x) (no_Rule x) EdgeOpened" using ok x(1) by (simp add: alerts_ok_def)
    ultimately show "no_Condition x \<in> ac_ID ` set (conditions ?d) \<and> no_Rule x \<in> RuleID ` set (rules ?d) \<and>
      notified ?d (no_Condition x) (no_Rule x) EdgeOpened" using x(2) n by simp
  qed
  have "open_rows (filter C (conditions d)) = filter C (open_rows (conditions d))"
    by (simp add: open_rows_def conj_commute)
  then have "distinct (map key_of_row (open_rows (filter C (conditions d))))" using ok by (simp add: alerts_ok_def distinct_map_filter)
  moreover have "unique_index (filter C (conditions d))" using ok by (simp add: alerts_ok_def unique_index_def distinct_map_filter)
  ultimately show ?thesis using ok refs unfolding alerts_ok_def by (auto simp: distinct_map_filter)
qed

lemma alerts_ok_deliveries [simp]: "alerts_ok fresh (d\<lparr>deliveries := z\<rparr>) = alerts_ok fresh d"
  by (simp add: alerts_ok_def notified_fields)

lemma alerts_ok_refs:
  assumes "alerts_ok fresh d" "n \<in> set (notifications d)"
  shows "\<exists>c \<in> set (conditions d). ac_ID c = no_Condition n" and "\<exists>r \<in> set (rules d). RuleID r = no_Rule n"
  using assms unfolding alerts_ok_def by fastforce+

lemma alerts_ok_minted: "alerts_ok fresh d \<Longrightarrow> alerts_ok fresh (d\<lparr>minted := minted d + 1\<rparr>)"
  unfolding alerts_ok_def by (auto simp: notified_fields)

lemma alerts_ok_table_step:
  assumes st: "table_step fresh d d'" and ok: "alerts_ok fresh d" and inj: "inj fresh"
  shows "alerts_ok fresh d'"
  using st
proof cases
  case (scan cs now diff)
  with ok inj show ?thesis by (auto intro: alerts_ok_scan)
next
  case unclaimed
  then show ?thesis using ok unfolding alerts_ok_def by (auto simp: notified_fields)
next
  case (save r)
  let ?row = "r\<lparr>WebhookIDs := sort (WebhookIDs r)\<rparr>"
  define rs where "rs = (if list_ex (\<lambda>x. RuleID x = RuleID r) (rules d)
    then map (\<lambda>x. if RuleID x = RuleID r then ?row else x) (rules d) else rules d @ [?row])"
  have same: "map RuleID (map (\<lambda>x. if RuleID x = RuleID r then ?row else x) xs) = map RuleID xs" for xs by (induction xs) auto
  have "map RuleID rs = map RuleID (rules d) \<or> map RuleID rs = map RuleID (rules d) @ [RuleID r] \<and> RuleID r \<notin> set (map RuleID (rules d))"
  proof (cases "list_ex (\<lambda>x. RuleID x = RuleID r) (rules d)")
    case True
    then show ?thesis by (simp only: rs_def if_True same) simp
  next
    case False
    then show ?thesis by (auto simp: rs_def list_ex_iff)
  qed
  moreover have "distinct (map RuleID (rules d))" using ok by (simp add: alerts_ok_def)
  ultimately have "distinct (map RuleID rs)" and "set (map RuleID (rules d)) \<subseteq> set (map RuleID rs)"
    by (elim disjE conjE; simp only: distinct_append set_append; force)+
  from alerts_ok_rules [OF ok this(1)] this(2) save show ?thesis
    by (simp add: SaveAlertRule_def Let_def rs_def split: if_splits)
next
  case (delete i)
  have "alerts_ok fresh (d\<lparr>conditions := filter (\<lambda>_. True) (conditions d), rules := filter (\<lambda>r. RuleID r \<noteq> i) (rules d),
      notifications := filter (\<lambda>n. (\<lambda>c r. r \<noteq> i) (no_Condition n) (no_Rule n)) (notifications d)\<rparr>)"
    by (rule alerts_ok_filter [OF ok]) (use alerts_ok_refs [OF ok] in fastforce)
  then have "alerts_ok fresh (d\<lparr>rules := filter (\<lambda>r. RuleID r \<noteq> i) (rules d), notifications := filter (\<lambda>n. no_Rule n \<noteq> i) (notifications d),
      deliveries := forget_rules [i] (deliveries d)\<rparr>)" by (subst alerts_ok_deliveries) simp
  with delete show ?thesis by (simp add: DeleteAlertRule_def)
next
  case (instance_added i)
  then show ?thesis using ok unfolding alerts_ok_def by (auto simp: notified_fields)
next
  case (instance_deleted i)
  let ?gc = "map ac_ID (filter (\<lambda>c. ac_Instance c = Some i) (conditions d))"
  let ?gr = "map RuleID (filter (\<lambda>r. RuleInstance r = Some i) (rules d))"
  have "alerts_ok fresh (d\<lparr>conditions := filter (\<lambda>c. ac_Instance c \<noteq> Some i) (conditions d),
      rules := filter (\<lambda>r. RuleInstance r \<noteq> Some i) (rules d),
      notifications := filter (\<lambda>n. (\<lambda>c r. c \<notin> set ?gc \<and> r \<notin> set ?gr) (no_Condition n) (no_Rule n)) (notifications d)\<rparr>)"
  proof (rule alerts_ok_filter [OF ok])
    fix n assume n: "n \<in> set (notifications d)" "no_Condition n \<notin> set ?gc \<and> no_Rule n \<notin> set ?gr"
    from alerts_ok_refs [OF ok n(1)] obtain c r where "c \<in> set (conditions d)" "ac_ID c = no_Condition n"
      "r \<in> set (rules d)" "RuleID r = no_Rule n" by blast
    with n(2) show "(\<exists>c \<in> set (conditions d). ac_ID c = no_Condition n \<and> ac_Instance c \<noteq> Some i) \<and>
      (\<exists>r \<in> set (rules d). RuleID r = no_Rule n \<and> RuleInstance r \<noteq> Some i)" by force
  qed
  then show ?thesis unfolding instance_deleted cascade_instance_def Let_def alerts_ok_def
    by (auto simp: notified_def)
next
  case (webhook_added w)
  then show ?thesis using ok unfolding alerts_ok_def by (auto simp: notified_fields)
next
  case (webhook_deleted w)
  have "map RuleID (map (\<lambda>r. r\<lparr>WebhookIDs := filter (\<lambda>x. x \<noteq> w) (WebhookIDs r)\<rparr>) xs) = map RuleID xs" for xs by simp
  with alerts_ok_rules [OF ok, of "map (\<lambda>r. r\<lparr>WebhookIDs := filter (\<lambda>x. x \<noteq> w) (WebhookIDs r)\<rparr>) (rules d)"] ok
  have "alerts_ok fresh (d\<lparr>rules := map (\<lambda>r. r\<lparr>WebhookIDs := filter (\<lambda>x. x \<noteq> w) (WebhookIDs r)\<rparr>) (rules d)\<rparr>)"
    by (auto simp: alerts_ok_def image_image comp_def)
  then show ?thesis unfolding webhook_deleted cascade_webhook_def alerts_ok_def by (auto simp: notified_def)
qed

lemma alerts_ok_step:
  assumes st: "alert_step fresh d d'" and ok: "alerts_ok fresh d" and inj: "inj fresh"
  shows "alerts_ok fresh d'"
  using st
proof cases
  case (claim n ds claimed)
  with alerts_ok_minted [OF ok] show ?thesis by (auto intro: alerts_ok_claim)
next
  case other
  then show ?thesis by (rule alerts_ok_table_step [OF _ ok inj])
qed

subsection \<open>A scan goes through\<close>

lemma unique_index_split:
  "distinct (map key_of_row (open_rows cs)) \<Longrightarrow> unique_index (filter (\<lambda>c. ac_Resolved c \<noteq> None) cs) \<Longrightarrow> unique_index cs"
proof (induction cs)
  case (Cons x cs)
  have "(ac_Kind x, deref (ac_Instance x), ac_Resolved x) \<noteq> (ac_Kind y, deref (ac_Instance y), ac_Resolved y)" if "y \<in> set cs" for y
  proof (cases "ac_Resolved x")
    case None
    with Cons.prems(1) that have "key_of_row y \<noteq> key_of_row x" if "ac_Resolved y = None"
      using that by (auto simp: open_rows_def image_iff)
    with None show ?thesis by (auto simp: key_of_row_def conditionKey_def)
  next
    case (Some t)
    with Cons.prems(2) that show ?thesis by (auto simp: unique_index_def image_iff)
  qed
  moreover have "unique_index cs" by (rule Cons.IH) (use Cons.prems in \<open>auto simp: open_rows_def unique_index_def split: if_splits\<close>)
  ultimately show ?case by (auto simp: unique_index_def)
qed (simp add: unique_index_def)

lemma unique_close:
  assumes u: "unique_index cs" and I: "\<And>x. x \<in> set cs \<Longrightarrow> ac_ID x \<in> I \<Longrightarrow> ac_Resolved x = None"
    and now: "\<And>x. x \<in> set cs \<Longrightarrow> ac_Resolved x \<noteq> Some now"
  shows "unique_index (map (close now I) cs)"
proof -
  let ?t = "\<lambda>c. (ac_Kind c, deref (ac_Instance c), ac_Resolved c)"
  have t: "?t (close now I x) = (ac_Kind x, deref (ac_Instance x), if ac_ID x \<in> I then Some now else ac_Resolved x)" for x
    by (simp add: close_def)
  have inj: "inj_on ?t (set cs)" and d: "distinct cs" using u by (simp_all add: unique_index_def distinct_map)
  have "inj_on (\<lambda>x. ?t (close now I x)) (set cs)"
  proof (rule inj_onI)
    fix x y assume x: "x \<in> set cs" and y: "y \<in> set cs" and e: "?t (close now I x) = ?t (close now I y)"
    from e I [OF x] I [OF y] now [OF x] now [OF y] have "?t x = ?t y" unfolding t by (auto split: if_splits)
    with inj x y show "x = y" by (meson inj_onD)
  qed
  with d show ?thesis by (simp add: unique_index_def distinct_map comp_def)
qed

lemma resolveMissing_succeeds:
  assumes "unique_index cs0" "\<And>x. x \<in> set cs0 \<Longrightarrow> ac_Resolved x \<noteq> Some now"
    and "\<And>x. x \<in> set cs0 \<Longrightarrow> ac_ID x \<in> I \<union> ac_ID ` set cs \<Longrightarrow> ac_Resolved x = None"
  shows "\<exists>rs d'. resolveMissing cs K now (d\<lparr>conditions := map (close now I) cs0\<rparr>) = Inr (rs, d')"
  using assms(3)
proof (induction cs arbitrary: I)
  case (Cons c cs)
  show ?case
  proof (cases "key_of_row c \<in> K")
    case True
    with Cons.IH [of I] Cons.prems show ?thesis by auto
  next
    case False
    let ?I = "insert (ac_ID c) I"
    have r: "resolve_row now (ac_ID c) (map (close now I) cs0) = map (close now ?I) cs0"
      by (auto simp: resolve_row_def close_def)
    have "unique_index (map (close now ?I) cs0)"
      by (rule unique_close [OF assms(1) _ assms(2)]) (use Cons.prems in auto)
    with Cons.IH [of ?I] Cons.prems False show ?thesis by (fastforce simp: r Let_def)
  qed
qed simp

lemma observe_step_succeeds:
  assumes ok: "alerts_ok fresh d" and s: "observing fresh d now obs s" and i: "ob_Instance ob = None \<or> deref (ob_Instance ob) \<in> instance_ids d"
  shows "\<exists>s'. observe_step fresh (by_key (open_rows (conditions d))) now ob s = Inr s'"
proof (cases "conditionKey (ob_Kind ob) (ob_Instance ob) \<in> rc_seen s \<or> by_key (open_rows (conditions d)) (conditionKey (ob_Kind ob) (ob_Instance ob)) \<noteq> None")
  case True
  then show ?thesis by (auto simp: observe_step_def upsertCondition_def Let_def)
next
  case False
  let ?k = "conditionKey (ob_Kind ob) (ob_Instance ob)" and ?K = "keys_of obs" and ?open = "open_rows (conditions d)"
  let ?c = "new_condition fresh ob now (rc_db s)"
  have dist: "distinct (map key_of_row ?open)" "unique_index (conditions d)" using ok by (simp_all add: alerts_ok_def)
  from s have db: "rc_db s = d\<lparr>conditions := map (touch now ?K) (conditions d) @ rc_opened s, minted := minted d + length (rc_opened s)\<rparr>"
    and new: "distinct (map key_of_row (rc_opened s))" "key_of_row ` set (rc_opened s) = ?K - key_of_row ` set ?open"
    "\<And>c. c \<in> set (rc_opened s) \<Longrightarrow> ac_Resolved c = None" and seen: "rc_seen s = ?K" by (simp_all add: observing_def)
  from False seen have k: "?k \<notin> ?K" "?k \<notin> key_of_row ` set ?open"
    using by_key_lookup [OF dist(1), of ?k] by fastforce+
  have c: "key_of_row ?c = ?k" "ac_Resolved ?c = None" "ac_Instance ?c = ob_Instance ob" by (simp_all add: new_condition_def key_of_row_def)
  have "open_rows (map (touch now ?K) xs) = map (touch now ?K) (open_rows xs)" for xs by (simp add: open_rows_def filter_map comp_def)
  moreover have "open_rows (rc_opened s @ [?c]) = rc_opened s @ [?c]" using new(3) c(2) by (simp add: open_rows_def)
  ultimately have "open_rows (conditions (rc_db s) @ [?c]) = map (touch now ?K) ?open @ rc_opened s @ [?c]" by (simp add: db)
  then have "distinct (map key_of_row (open_rows (conditions (rc_db s) @ [?c])))"
    using dist(1) new(1,2) c(1) k by (auto simp: comp_def)
  moreover have "filter (\<lambda>c. ac_Resolved c \<noteq> None) (conditions (rc_db s) @ [?c]) = map (touch now ?K) (filter (\<lambda>c. ac_Resolved c \<noteq> None) (conditions d))"
    using new(3) c(2) by (simp add: db filter_map comp_def)
  then have "unique_index (filter (\<lambda>c. ac_Resolved c \<noteq> None) (conditions (rc_db s) @ [?c]))"
    using dist(2) by (simp add: unique_index_map) (simp add: unique_index_def distinct_map_filter)
  ultimately have "unique_index (conditions (rc_db s) @ [?c])" by (rule unique_index_split)
  with False i c(3) show ?thesis by (auto simp: observe_step_def upsertCondition_def Let_def db)
qed

lemma Reconcile_succeeds:
  assumes ok: "alerts_ok fresh d" and inj: "inj fresh"
    and known: "\<And>ob. ob \<in> set obs \<Longrightarrow> ob_Instance ob = None \<or> deref (ob_Instance ob) \<in> instance_ids d"
    and now: "\<And>c. c \<in> set (conditions d) \<Longrightarrow> ac_Resolved c \<noteq> Some now"
  shows "\<exists>diff d'. ReconcileConditions fresh obs now d = Inr (diff, d')"
proof -
  let ?open = "open_rows (conditions d)" and ?s0 = "\<lparr>rc_seen = {}, rc_opened = [], rc_db = d\<rparr>"
  let ?step = "observe_step fresh (by_key ?open) now"
  have t0: "touch now {} = (\<lambda>x. x)" by (rule ext) (simp add: touch_def)
  have "\<exists>s'. foldR ?step obs' s = Inr s'" if "observing fresh d now done' s" "set obs' \<subseteq> set obs" for obs' done' s
    using that
  proof (induction obs' arbitrary: done' s)
    case (Cons ob obs')
    from observe_step_succeeds [OF ok Cons.prems(1), of ob] known [of ob] Cons.prems(2) obtain t where t: "?step ob s = Inr t" by auto
    from Cons.IH [OF observe_step_ok [OF ok inj Cons.prems(1) t]] Cons.prems(2) t show ?case by simp
  qed simp
  moreover have init: "observing fresh d now [] ?s0" using t0 by (simp add: observing_def)
  ultimately obtain s where s: "foldR ?step obs ?s0 = Inr s" by blast
  from observing_all [OF ok inj s init] have ob: "observing fresh d now obs s" by simp
  let ?cs = "conditions (rc_db s)"
  have u: "unique_index ?cs"
    using observe_fold_unique [OF s] ok by (simp add: alerts_ok_def)
  have db: "?cs = map (touch now (keys_of obs)) (conditions d) @ rc_opened s" and new: "\<And>c. c \<in> set (rc_opened s) \<Longrightarrow> ac_Resolved c = None"
    using ob by (auto simp: observing_def)
  have n: "ac_Resolved x \<noteq> Some now" if "x \<in> set ?cs" for x using that now new by (auto simp: db)
  have o: "ac_Resolved x = None" if "x \<in> set ?cs" "ac_ID x \<in> {} \<union> ac_ID ` set ?open" for x
  proof -
    from that(2) obtain y where y: "y \<in> set (conditions d)" "ac_Resolved y = None" "ac_ID y = ac_ID x" by (auto simp: open_rows_def)
    have "distinct (map ac_ID (conditions d))" using ok by (simp add: alerts_ok_def)
    with y that(1) new show ?thesis by (auto simp: db distinct_map inj_on_def)
  qed
  have "close now {} = (\<lambda>x. x)" by (rule ext) (simp add: close_def)
  with resolveMissing_succeeds [where I = "{}" and cs = "?open" and K = "rc_seen s" and d = "rc_db s", OF u n o] obtain rs d' where
    "resolveMissing ?open (rc_seen s) now (rc_db s) = Inr (rs, d')" by auto
  with s show ?thesis by (auto simp: ReconcileConditions_def Let_def)
qed

subsection \<open>Dispatching\<close>

text \<open>A dispatch only adds notifications, deliveries and minted identifiers.\<close>

definition grown :: "alert_db \<Rightarrow> alert_db \<Rightarrow> bool" where
  "grown d d' \<longleftrightarrow> conditions d' = conditions d \<and> rules d' = rules d \<and> webhook_ids d' = webhook_ids d \<and>
     (\<forall>c r e. notified d c r e \<longrightarrow> notified d' c r e)"

lemma grown_refl [simp]: "grown d d"
  by (simp add: grown_def)

lemma grown_trans: "grown a b \<Longrightarrow> grown b c \<Longrightarrow> grown a c"
  by (auto simp: grown_def)

lemma fold_grown: "(\<And>x d. grown d (f x d)) \<Longrightarrow> grown d (fold f xs d)"
  by (induction xs arbitrary: d) (auto intro: grown_trans)

lemma fold_reaches:
  assumes g: "\<And>x d. grown d (f x d)" and x: "x \<in> set xs" and r: "\<And>d'. grown d d' \<Longrightarrow> notified (f x d') c r e"
  shows "notified (fold f xs d) c r e"
proof -
  obtain ys zs where xs: "xs = ys @ x # zs" using x by (auto simp: in_set_conv_decomp)
  have "notified (f x (fold f ys d)) c r e" by (rule r) (rule fold_grown [OF g])
  with fold_grown [where f = f and d = "f x (fold f ys d)" and xs = zs, OF g] show ?thesis by (simp add: xs grown_def)
qed

lemma createDeliveries_succeeds: "ad_Webhook ` set ds \<subseteq> webhook_ids d \<Longrightarrow> \<exists>d'. createDeliveries ds d = Inr d'"
  by (induction ds arbitrary: d) auto

lemma dispatch_rule_steps: "(alert_step fresh)\<^sup>*\<^sup>* d (dispatch_rule fresh lm prep now c e r d)"
proof (cases "Matches r c \<and> \<not> Quiet lm r now")
  case False
  then show ?thesis by (auto simp: dispatch_rule_def)
next
  case go: True
  let ?d0 = "d\<lparr>minted := minted d + 1\<rparr>"
  show ?thesis
  proof (cases "prep c e r")
    case None
    with go have "dispatch_rule fresh lm prep now c e r d = ?d0" by (simp add: dispatch_rule_def)
    then show ?thesis using alert_step.other [OF table_step.unclaimed, of fresh d] by simp
  next
    case (Some targets)
    let ?n = "\<lparr>no_Condition = ac_ID c, no_Rule = RuleID r, no_Edge = e, no_Event = fresh (minted d)\<rparr>"
    show ?thesis
    proof (cases "MarkNotified ?n (ruleDeliveries (fresh (minted d)) r targets) ?d0")
      case (Inl x)
      with go Some have "dispatch_rule fresh lm prep now c e r d = ?d0" by (simp add: dispatch_rule_def Let_def)
      then show ?thesis using alert_step.other [OF table_step.unclaimed, of fresh d] by simp
    next
      case (Inr p)
      obtain b d1 where p: "p = (b, d1)" by fastforce
      with go Some Inr have "dispatch_rule fresh lm prep now c e r d = d1" by (simp add: dispatch_rule_def Let_def)
      with alert_step.claim [OF Inr [unfolded p]] show ?thesis by auto
    qed
  qed
qed

lemma dispatch_rule_new:
  assumes "notified (dispatch_rule fresh lm prep now c e r d) c' r' e'"
  shows "notified d c' r' e' \<or> (c', r', e') = (ac_ID c, RuleID r, e) \<and> Matches r c \<and> \<not> Quiet lm r now"
proof (cases "Matches r c \<and> \<not> Quiet lm r now")
  case False
  then show ?thesis using assms by (auto simp: dispatch_rule_def)
next
  case go: True
  let ?d0 = "d\<lparr>minted := minted d + 1\<rparr>"
  have "notified d1 c' r' e' \<longrightarrow> notified d c' r' e' \<or> (c', r', e') = (ac_ID c, RuleID r, e)"
    if "MarkNotified \<lparr>no_Condition = ac_ID c, no_Rule = RuleID r, no_Edge = e, no_Event = v\<rparr> ds ?d0 = Inr (b, d1)" for v ds b d1
    using that by (cases rule: MarkNotified_cases) (auto simp: notified_iff)
  with assms go show ?thesis
    by (auto simp: dispatch_rule_def Let_def notified_fields split: option.splits sum.splits)
qed

lemma dispatch_rule_grown: "grown d (dispatch_rule fresh lm prep now c e r d)"
proof -
  have "grown d d1" if "MarkNotified n ds (d\<lparr>minted := minted d + 1\<rparr>) = Inr (b, d1)" for n ds b d1
    using that by (cases rule: MarkNotified_cases) (auto simp: grown_def notified_iff)
  then show ?thesis
    by (auto simp: dispatch_rule_def Let_def grown_def notified_fields split: option.splits sum.splits)
qed

lemma dispatch_rule_announces:
  assumes "Matches r c" "\<not> Quiet lm r now" "prep c e r = Some targets" "set targets \<subseteq> webhook_ids d"
    "c \<in> set (conditions d)" "r \<in> set (rules d)" "e = EdgeOpened \<or> notified d (ac_ID c) (RuleID r) EdgeOpened"
  shows "notified (dispatch_rule fresh lm prep now c e r d) (ac_ID c) (RuleID r) e"
proof -
  let ?d0 = "d\<lparr>minted := minted d + 1\<rparr>" and ?v = "fresh (minted d)"
  let ?n = "\<lparr>no_Condition = ac_ID c, no_Rule = RuleID r, no_Edge = e, no_Event = ?v\<rparr>"
  have ex: "list_ex (\<lambda>x. ac_ID x = ac_ID c) (conditions d)" "list_ex (\<lambda>x. RuleID x = RuleID r) (rules d)"
    using assms(5,6) by (auto simp: list_ex_iff)
  have "\<exists>b d1. MarkNotified ?n (ruleDeliveries ?v r targets) ?d0 = Inr (b, d1) \<and> notified d1 (ac_ID c) (RuleID r) e"
  proof (cases "notified d (ac_ID c) (RuleID r) e")
    case True
    with assms(7) show ?thesis by (auto simp: MarkNotified_def markNotified_def notified_fields)
  next
    case False
    let ?d1 = "?d0\<lparr>notifications := notifications d @ [?n]\<rparr>"
    have "ad_Webhook ` set (ruleDeliveries ?v r targets) \<subseteq> webhook_ids ?d1" using assms(4) by (auto simp: ruleDeliveries_def)
    from createDeliveries_succeeds [OF this] obtain d2 where d2: "createDeliveries (ruleDeliveries ?v r targets) ?d1 = Inr d2" by blast
    from createDeliveries_exact [OF d2] have "notified d2 (ac_ID c) (RuleID r) e" by (auto simp: notified_iff)
    moreover have "markNotified ?n ?d0 = Inr (True, ?d1)"
      using False assms(7) ex by (auto simp: markNotified_def notified_fields)
    ultimately have "MarkNotified ?n (ruleDeliveries ?v r targets) ?d0 = Inr (True, d2) \<and> notified d2 (ac_ID c) (RuleID r) e"
      using d2 by (simp add: MarkNotified_def)
    then show ?thesis by blast
  qed
  with assms(1-3) show ?thesis by (auto simp: dispatch_rule_def Let_def)
qed

lemma dispatchOne_grown: "grown d (dispatchOne fresh lm prep now rs e c d)"
  unfolding dispatchOne_def by (rule fold_grown) (rule dispatch_rule_grown)

lemma dispatchOne_announces:
  assumes "r \<in> set rs" "Matches r c" "\<not> Quiet lm r now" "prep c e r = Some targets" "set targets \<subseteq> webhook_ids d"
    "c \<in> set (conditions d)" "r \<in> set (rules d)" "e = EdgeOpened \<or> notified d (ac_ID c) (RuleID r) EdgeOpened"
  shows "notified (dispatchOne fresh lm prep now rs e c d) (ac_ID c) (RuleID r) e"
  unfolding dispatchOne_def
proof (rule fold_reaches [OF dispatch_rule_grown assms(1)])
  fix d' assume "grown d d'"
  then show "notified (dispatch_rule fresh lm prep now c e r d') (ac_ID c) (RuleID r) e"
    using assms(2-) by (intro dispatch_rule_announces [where targets = targets]) (auto simp: grown_def)
qed

lemma dispatchOne_steps: "(alert_step fresh)\<^sup>*\<^sup>* d (dispatchOne fresh lm prep now rs e c d)"
  unfolding dispatchOne_def
  by (induction rs arbitrary: d) (auto intro: rtranclp_trans [OF dispatch_rule_steps])

lemma dispatchOne_new:
  assumes "notified (dispatchOne fresh lm prep now rs e c d) c' r' e'"
  shows "notified d c' r' e' \<or> (\<exists>r \<in> set rs. (c', r', e') = (ac_ID c, RuleID r, e) \<and> Matches r c \<and> \<not> Quiet lm r now)"
  using assms unfolding dispatchOne_def
proof (induction rs arbitrary: d)
  case (Cons r rs)
  from Cons.IH [of "dispatch_rule fresh lm prep now c e r d"] Cons.prems dispatch_rule_new [of fresh lm prep now c e r d c' r' e'] show ?case by auto
qed simp

lemma fold_dispatch_steps: "(alert_step fresh)\<^sup>*\<^sup>* d (fold (dispatchOne fresh lm prep now rs e) cs d)"
  by (induction cs arbitrary: d) (auto intro: rtranclp_trans [OF dispatchOne_steps])

lemma fold_dispatch_new:
  assumes "notified (fold (dispatchOne fresh lm prep now rs e) cs d) c' r' e'"
  shows "notified d c' r' e' \<or> (\<exists>c \<in> set cs. \<exists>r \<in> set rs. (c', r', e') = (ac_ID c, RuleID r, e) \<and> Matches r c \<and> \<not> Quiet lm r now)"
  using assms
proof (induction cs arbitrary: d)
  case (Cons c cs)
  from Cons.IH [of "dispatchOne fresh lm prep now rs e c d"] Cons.prems dispatchOne_new [of fresh lm prep now rs e c d c' r' e'] show ?case by auto
qed simp

lemma DispatchAlerts_unfold:
  fixes d :: alert_db
  defines "owed \<equiv> \<lambda>now. filter (\<lambda>c. \<not> list_ex (\<lambda>x. ac_Kind x = ac_Kind c \<and> deref (ac_Instance x) = deref (ac_Instance c)) (OpenConditions d))
      (ResolvedUnannounced (now - clearanceHorizon) d)"
  shows "DispatchAlerts fresh lm prep now d =
    fold (dispatchOne fresh lm prep now (ListAlertRules d) EdgeOpened) (OpenConditions d)
      (fold (dispatchOne fresh lm prep now (ListAlertRules d) EdgeResolved) (owed now) d)"
proof -
  have "fold (dispatchOne fresh lm prep now [] e) cs x = x" for e cs x
    by (induction cs arbitrary: x) (simp_all add: dispatchOne_def)
  then show ?thesis by (simp add: DispatchAlerts_def Let_def owed_def)
qed

lemma dispatch_reads:
  "set (ListAlertRules d) = set (rules d)" "set (OpenConditions d) = set (open_rows (conditions d))"
  "c \<in> set (ResolvedUnannounced since d) \<longleftrightarrow>
     c \<in> set (conditions d) \<and> (\<exists>t. ac_Resolved c = Some t \<and> t > since) \<and> owes_resolution d (ac_ID c)"
  by (auto simp: ListAlertRules_def OpenConditions_def ResolvedUnannounced_def split: option.splits)

lemma fold_dispatch_announces:
  assumes c: "c \<in> set cs" "c \<in> set (conditions d)" and r: "r \<in> set rs" "r \<in> set (rules d)"
    and "Matches r c" "\<not> Quiet lm r now" "prep c e r = Some targets" "set targets \<subseteq> webhook_ids d"
    "e = EdgeOpened \<or> notified d (ac_ID c) (RuleID r) EdgeOpened"
  shows "notified (fold (dispatchOne fresh lm prep now rs e) cs d) (ac_ID c) (RuleID r) e"
proof (rule fold_reaches [OF dispatchOne_grown c(1)])
  fix d' assume "grown d d'"
  with assms show "notified (dispatchOne fresh lm prep now rs e c d') (ac_ID c) (RuleID r) e"
    by (intro dispatchOne_announces [where targets = targets]) (auto simp: grown_def)
qed

lemma DispatchAlerts_steps: "(alert_step fresh)\<^sup>*\<^sup>* d (DispatchAlerts fresh lm prep now d)"
  unfolding DispatchAlerts_unfold by (rule rtranclp_trans) (rule fold_dispatch_steps)+

lemma reachable_alerts_ok:
  assumes "(alert_step fresh)\<^sup>*\<^sup>* empty_alerts d" "inj fresh"
  shows "alerts_ok fresh d"
  using assms
proof (induction rule: rtranclp_induct)
  case base
  then show ?case by (simp add: alerts_ok_def empty_alerts_def unique_index_def open_rows_def)
next
  case (step d d')
  then show ?case using alerts_ok_step by blast
qed

subsection \<open>An example\<close>

definition wfresh :: "nat \<Rightarrow> string" where
  "wfresh n = replicate n CHR ''a''"

definition wrow :: AlertCondition where
  "wrow = \<lparr>ac_ID = [], ac_Instance = None, ac_Kind = ''low_disk'', ac_FirstSeen = 100, ac_LastSeen = 100, ac_Resolved = None\<rparr>"

definition wrule :: AlertRule where
  "wrule = \<lparr>RuleID = ''r'', RuleInstance = None, ConditionKind = ''low_disk'', RuleParams = zero_params, QuietStart = None,
     QuietEnd = None, QuietTZ = None, RuleEnabled = True, WebhookIDs = [''w'']\<rparr>"

definition wdb :: alert_db where
  "wdb = empty_alerts\<lparr>conditions := [wrow], rules := [wrule], webhook_ids := {''w''}, minted := 1\<rparr>"

lemma wfresh_inj: "inj wfresh"
  by (rule injI) (metis wfresh_def length_replicate)

lemma wdb_reached: "(alert_step wfresh)\<^sup>*\<^sup>* empty_alerts wdb"
proof -
  let ?d = "empty_alerts\<lparr>conditions := [wrow], minted := 1\<rparr>" and ?h = "empty_alerts\<lparr>conditions := [wrow], webhook_ids := {''w''}, minted := 1\<rparr>"
  have "ReconcileConditions wfresh (observed_of [\<lparr>CondKind = AKLowDisk, CondInstance = []\<rparr>]) 100 empty_alerts
      = Inr (\<lparr>Opened = [wrow], Resolved = []\<rparr>, ?d)"
    by (simp add: ReconcileConditions_def observe_step_def upsertCondition_def new_condition_def observed_of_def empty_alerts_def wrow_def
        wfresh_def unique_index_def open_rows_def by_key_def Let_def)
  then have "alert_step wfresh empty_alerts ?d" by (intro alert_step.other table_step.scan)
  moreover have "alert_step wfresh ?d ?h"
    using alert_step.other [OF table_step.webhook_added [of wfresh ?d "''w''"]] by (simp add: empty_alerts_def)
  moreover have "SaveAlertRule wrule ?h = Inr wdb"
    by (simp add: SaveAlertRule_def wrule_def wdb_def quiet_columns_ok_def empty_alerts_def Let_def)
  then have "alert_step wfresh ?h wdb" by (intro alert_step.other table_step.save)
  ultimately show ?thesis by (meson converse_rtranclp_into_rtranclp r_into_rtranclp)
qed

subsection \<open>Said once\<close>

definition note_key :: "Notification \<Rightarrow> string \<times> string \<times> edge" where
  "note_key n = (no_Condition n, no_Rule n, no_Edge n)"

text \<open>An edge that cannot be claimed any more: it was, or its condition's row is gone for good.\<close>

definition spent :: "(nat \<Rightarrow> string) \<Rightarrow> alert_db \<Rightarrow> string \<Rightarrow> string \<Rightarrow> edge \<Rightarrow> bool" where
  "spent fresh d c r e \<longleftrightarrow> notified d c r e \<or> c \<in> fresh ` {..<minted d} - ac_ID ` set (conditions d)"

lemma spent_scan:
  assumes ok: "alerts_ok fresh d" and inj: "inj fresh" and r: "ReconcileConditions fresh obs now d = Inr (diff, d')"
    and s: "spent fresh d c rid e"
  shows "spent fresh d' c rid e"
proof -
  from Reconcile_exact [OF ok inj r] obtain news where
    d': "d' = d\<lparr>conditions := map (settle_row now (keys_of obs)) (conditions d) @ news, minted := minted d + length news\<rparr>"
    and ids: "map ac_ID news = map fresh [minted d..<minted d + length news]"
    by (elim exE conjE) (rule that; (assumption | blast))
  have nid: "ac_ID ` set news = fresh ` {minted d..<minted d + length news}" using arg_cong [OF ids, of set] by simp
  have "ac_ID ` set (conditions d') = ac_ID ` set (conditions d) \<union> fresh ` {minted d..<minted d + length news}"
    unfolding nid [symmetric] by (simp add: d' image_Un image_image)
  moreover have "fresh ` {..<minted d} \<inter> fresh ` {minted d..<minted d + length news} = {}" using inj by (auto simp: inj_eq)
  moreover have "fresh ` {..<minted d} \<subseteq> fresh ` {..<minted d'}" by (auto simp: d')
  moreover have "notified d' = notified d" by (simp add: d' notified_fields)
  ultimately show ?thesis using s unfolding spent_def by auto
qed

lemma spent_notified: "alerts_ok fresh d \<Longrightarrow> notified d c r e \<Longrightarrow> c \<in> fresh ` {..<minted d}"
  unfolding notified_iff alerts_ok_def by fastforce

lemma spent_table_step:
  assumes st: "table_step fresh d d'" and ok: "alerts_ok fresh d" and inj: "inj fresh"
    and rid: "rid \<in> RuleID ` set (rules d')" and s: "spent fresh d c rid e"
  shows "spent fresh d' c rid e"
  using st
proof cases
  case (scan cs now diff)
  then show ?thesis by (rule spent_scan [OF ok inj _ s])
next
  case unclaimed
  with s show ?thesis by (auto simp: spent_def notified_fields)
next
  case (save r)
  then have "\<exists>rs. d' = d\<lparr>rules := rs\<rparr>" by (auto simp: SaveAlertRule_def Let_def split: if_splits)
  with s show ?thesis by (auto simp: spent_def notified_fields)
next
  case (delete i)
  with rid have "rid \<noteq> i" by (auto simp: DeleteAlertRule_def)
  with s delete show ?thesis by (auto simp: spent_def notified_iff DeleteAlertRule_def)
next
  case (instance_added i)
  with s show ?thesis by (simp add: spent_def notified_fields)
next
  case (instance_deleted i)
  let ?gc = "map ac_ID (filter (\<lambda>c. ac_Instance c = Some i) (conditions d))"
  have cs: "conditions d' = filter (\<lambda>c. ac_Instance c \<noteq> Some i) (conditions d)" and m: "minted d' = minted d"
    by (simp_all add: instance_deleted cascade_instance_def Let_def)
  have "rid \<notin> RuleID ` set (filter (\<lambda>r. RuleInstance r = Some i) (rules d))"
  proof
    assume "rid \<in> RuleID ` set (filter (\<lambda>r. RuleInstance r = Some i) (rules d))"
    then obtain x where x: "x \<in> set (rules d)" "RuleInstance x = Some i" "RuleID x = rid" by auto
    from rid obtain y where y: "y \<in> set (rules d)" "RuleInstance y \<noteq> Some i" "RuleID y = rid"
      by (auto simp: instance_deleted cascade_instance_def Let_def)
    have "inj_on RuleID (set (rules d))" using ok by (simp add: alerts_ok_def distinct_map)
    with x y have "x = y" by (auto dest: inj_onD)
    with x y show False by simp
  qed
  then have n: "notified d' c rid e \<longleftrightarrow> notified d c rid e \<and> c \<notin> set ?gc"
    by (auto simp: instance_deleted cascade_instance_def Let_def notified_def list_ex_iff)
  have "ac_ID x \<noteq> c" if "c \<in> set ?gc" "x \<in> set (conditions d')" for x
  proof
    assume "ac_ID x = c"
    from that(1) obtain y where y: "y \<in> set (conditions d)" "ac_Instance y = Some i" "ac_ID y = c" by auto
    from that(2) have x: "x \<in> set (conditions d)" "ac_Instance x \<noteq> Some i" by (simp_all add: cs)
    have "inj_on ac_ID (set (conditions d))" using ok by (simp add: alerts_ok_def distinct_map)
    with x(1) y(1,3) \<open>ac_ID x = c\<close> have "x = y" by (auto dest: inj_onD)
    with x(2) y(2) show False by simp
  qed
  then have gone: "c \<in> set ?gc \<Longrightarrow> c \<notin> ac_ID ` set (conditions d')" by blast
  have "ac_ID ` set (conditions d') \<subseteq> ac_ID ` set (conditions d)" by (auto simp: cs)
  moreover from s consider "notified d c rid e" | "c \<in> fresh ` {..<minted d}" "c \<notin> ac_ID ` set (conditions d)"
    by (auto simp: spent_def)
  ultimately show ?thesis
    using n gone spent_notified [OF ok, of c rid e] unfolding spent_def m by (metis (no_types) DiffI in_mono)
next
  case (webhook_added w)
  with s show ?thesis by (simp add: spent_def notified_fields)
next
  case (webhook_deleted w)
  with s show ?thesis by (simp add: spent_def cascade_webhook_def notified_iff)
qed

lemma claim_once:
  assumes ok: "alerts_ok fresh d" and m: "MarkNotified n ds (d\<lparr>minted := minted d + 1\<rparr>) = Inr (claimed, d')"
  shows "alerts_ok fresh d' \<and> (spent fresh d c r e \<longrightarrow> spent fresh d' c r e) \<and>
    (note_key n = (c, r, e) \<and> drop (length (deliveries d)) (deliveries d') \<noteq> [] \<longrightarrow>
       \<not> spent fresh d c r e \<and> spent fresh d' c r e)"
  using m
proof (cases rule: MarkNotified_cases)
  case kept
  with alerts_ok_minted [OF ok] show ?thesis by (auto simp: spent_def notified_fields)
next
  case new
  have "alerts_ok fresh d'" by (rule alerts_ok_claim [OF alerts_ok_minted [OF ok] m])
  moreover have "notified d' c r e \<longleftrightarrow> notified d c r e \<or> note_key n = (c, r, e)" by (auto simp: new(2) notified_iff note_key_def)
  moreover have "conditions d' = conditions d" "minted d' = minted d + 1" by (simp_all add: new(2))
  ultimately show ?thesis using new(3,5) unfolding spent_def by (auto simp: note_key_def notified_fields)
qed

lemma alert_run_once:
  assumes "alert_run fresh rid d tr d'" and "alerts_ok fresh d" and inj: "inj fresh"
  shows "alerts_ok fresh d' \<and>
    length (filter (\<lambda>(n, qs). note_key n = (c, rid, e) \<and> qs \<noteq> []) tr) \<le> (if spent fresh d c rid e then 0 else 1) \<and>
    (spent fresh d c rid e \<or> (\<exists>(n, qs) \<in> set tr. note_key n = (c, rid, e) \<and> qs \<noteq> []) \<longrightarrow> spent fresh d' c rid e)"
  using assms(1)
proof induction
  case none
  then show ?case using assms(2) by simp
next
  case (claims tr d1 n ds claimed d2)
  let ?P = "\<lambda>(n, qs). note_key n = (c, rid, e) \<and> qs \<noteq> ([] :: alert_delivery list)"
  note one = claim_once [OF conjunct1 [OF claims.IH] claims.hyps(2), of c rid e]
  have "filter ?P tr = []" if "\<not> spent fresh d1 c rid e" using that claims.IH by (auto simp: filter_empty_conv)
  then show ?case using claims.IH one by (auto split: if_splits)
next
  case (others tr d1 d2)
  from others.IH have ok: "alerts_ok fresh d1" by blast
  with others.IH alerts_ok_table_step [OF others.hyps(2) ok inj] spent_table_step [OF others.hyps(2) ok inj others.hyps(3)]
  show ?case by blast
qed

text \<open>C19. Under any interleaving of scans, claims, rule changes and deletions, starting from empty tables: at most one
  row is open for a kind of condition on a server, and a rule is told that a condition cleared only if it was told that
  the condition opened. And for as long as a rule exists, messages about one edge of one condition are queued for it at
  most once, in whatever order dispatches race with each other and with everything else: never again once the edge
  was claimed, since a claim that finds it claimed queues nothing.\<close>

theorem alerts_announced_once:
  assumes "inj fresh" and "(alert_step fresh)\<^sup>*\<^sup>* empty_alerts d" and "alert_run fresh rid d tr d'"
  shows "distinct (map (\<lambda>c. (ac_Kind c, deref (ac_Instance c))) (open_rows (conditions d))) \<and>
    distinct (map note_key (notifications d)) \<and>
    (\<forall>n \<in> set (notifications d). notified d (no_Condition n) (no_Rule n) EdgeOpened) \<and>
    length (filter (\<lambda>(n, qs). note_key n = (c, rid, e) \<and> qs \<noteq> []) tr) \<le> (if notified d c rid e then 0 else 1)"
proof -
  have ok: "alerts_ok fresh d" using reachable_alerts_ok assms(1,2) by blast
  then have "distinct (map key_of_row (open_rows (conditions d)))" by (simp add: alerts_ok_def)
  moreover have "key_of_row c = key_of_row x \<longleftrightarrow> (ac_Kind c, deref (ac_Instance c)) = (ac_Kind x, deref (ac_Instance x))"
    if "c \<in> set (open_rows (conditions d))" "x \<in> set (open_rows (conditions d))" for c x
    using that ok by (simp add: key_of_row_def conditionKey_inj alerts_ok_def open_rows_def)
  ultimately have "distinct (map (\<lambda>c. (ac_Kind c, deref (ac_Instance c))) (open_rows (conditions d)))"
    unfolding distinct_map inj_on_def by blast
  moreover have "spent fresh d c rid e" if "notified d c rid e" using that by (simp add: spent_def)
  ultimately show ?thesis
    using ok alert_run_once [OF assms(3) ok assms(1), of c e] by (auto simp: alerts_ok_def note_key_def [abs_def] split: if_splits)
qed

definition wnote :: "string \<Rightarrow> Notification" where
  "wnote v = \<lparr>no_Condition = [], no_Rule = ''r'', no_Edge = EdgeOpened, no_Event = v\<rparr>"

text \<open>Two dispatches race to announce one opening: the first claim queues its message, the second queues none.\<close>

theorem alerts_announced_once_witness:
  "\<exists>d' qs. alert_run wfresh ''r'' wdb [(wnote ''a'', ruleDeliveries ''a'' wrule [''w'']), (wnote ''aa'', qs)] d' \<and> qs = []"
proof -
  let ?q = "ruleDeliveries ''a'' wrule [''w'']" and ?q2 = "ruleDeliveries ''aa'' wrule [''w'']"
  let ?d1 = "wdb\<lparr>minted := 2, notifications := [wnote ''a''], deliveries := ?q\<rparr>"
  have "MarkNotified (wnote ''a'') ?q (wdb\<lparr>minted := minted wdb + 1\<rparr>) = Inr (True, ?d1)"
    by (simp add: MarkNotified_def markNotified_def notified_def wdb_def wrow_def wrule_def wnote_def ruleDeliveries_def empty_alerts_def)
  from alert_run.claims [OF alert_run.none [of wfresh "''r''" wdb] this]
  have r1: "alert_run wfresh ''r'' wdb [(wnote ''a'', ?q)] ?d1" by (simp add: wdb_def empty_alerts_def)
  have "MarkNotified (wnote ''aa'') ?q2 (?d1\<lparr>minted := minted ?d1 + 1\<rparr>) = Inr (False, ?d1\<lparr>minted := minted ?d1 + 1\<rparr>)"
    by (simp add: MarkNotified_def markNotified_def notified_def wnote_def)
  from alert_run.claims [OF r1 this] obtain qs d' where
    r2: "alert_run wfresh ''r'' wdb [(wnote ''a'', ?q), (wnote ''aa'', qs)] d'" by auto
  have "length (filter (\<lambda>(n, qs). note_key n = ([], ''r'', EdgeOpened) \<and> qs \<noteq> [])
      [(wnote ''a'', ?q), (wnote ''aa'', qs)]) \<le> 1"
    using alerts_announced_once [OF wfresh_inj wdb_reached r2, of "[]" EdgeOpened] by (auto split: if_splits)
  then have "qs = []" by (simp add: note_key_def wnote_def ruleDeliveries_def split: if_splits)
  with r2 show ?thesis by blast
qed

text \<open>Keys of rows and of observations, in terms of what they are made of.\<close>

definition row_pair :: "AlertCondition \<Rightarrow> string \<times> string" where
  "row_pair c = (ac_Kind c, deref (ac_Instance c))"

definition cond_pair :: "Condition \<Rightarrow> string \<times> string" where
  "cond_pair c = (alert_name (CondKind c), CondInstance c)"

definition pair_key :: "string \<times> string \<Rightarrow> string" where
  "pair_key p = conditionKey (fst p) (Some (snd p))"

lemma key_of_row_pair: "key_of_row c = pair_key (row_pair c)"
  by (simp add: key_of_row_def row_pair_def pair_key_def conditionKey_def deref_def)

lemma keys_of_observed: "keys_of (observed_of cs) = pair_key ` cond_pair ` set cs"
proof -
  have "conditionKey k (if i = [] then None else Some i) = conditionKey k (Some i)" for k i by (simp add: conditionKey_def deref_def)
  then show ?thesis by (simp add: observed_of_def image_image pair_key_def cond_pair_def)
qed

lemma pair_key_eq: "CHR 0x00 \<notin> set (ac_Kind c) \<Longrightarrow> pair_key (row_pair c) = pair_key (cond_pair x) \<longleftrightarrow> row_pair c = cond_pair x"
  using alert_name_no_NUL by (auto simp: pair_key_def row_pair_def cond_pair_def conditionKey_inj deref_def)

lemma key_observed:
  assumes "CHR 0x00 \<notin> set (ac_Kind c)"
  shows "key_of_row c \<in> keys_of (observed_of cs) \<longleftrightarrow> row_pair c \<in> cond_pair ` set cs"
  unfolding keys_of_observed key_of_row_pair using pair_key_eq [OF assms] by (auto simp: image_iff)

lemma Reconcile_open:
  assumes ok: "alerts_ok fresh d" and inj: "inj fresh" and r: "ReconcileConditions fresh (observed_of cs) now d = Inr (diff, d')"
  shows "row_pair ` set (open_rows (conditions d')) = cond_pair ` set cs"
proof -
  let ?K = "keys_of (observed_of cs)"
  from Reconcile_exact [OF ok inj r] obtain news where
    d': "d' = d\<lparr>conditions := map (settle_row now ?K) (conditions d) @ news, minted := minted d + length news\<rparr>"
    and keys: "key_of_row ` set news = ?K - key_of_row ` set (open_rows (conditions d))"
    and new: "\<And>c. c \<in> set news \<Longrightarrow> ac_Resolved c = None"
    by (elim exE conjE) (rule that; (assumption | blast))
  have nn: "CHR 0x00 \<notin> set (ac_Kind c)" if "c \<in> set (open_rows (conditions d'))" for c
    using alerts_ok_scan [OF ok inj r] that by (simp add: alerts_ok_def open_rows_def)
  have "open_rows news = news" using new by (simp add: open_rows_def)
  moreover have "key_of_row ` {x \<in> A. key_of_row x \<in> K} = key_of_row ` A \<inter> K" for A K by auto
  ultimately have "key_of_row ` set (open_rows (conditions d')) = ?K"
    using keys by (simp add: d' open_rows_settle image_Un image_image) blast
  then have e: "(\<lambda>c. pair_key (row_pair c)) ` set (open_rows (conditions d')) = (\<lambda>x. pair_key (cond_pair x)) ` set cs"
    by (simp add: keys_of_observed key_of_row_pair image_image)
  have "\<exists>x \<in> set cs. row_pair c = cond_pair x" if c: "c \<in> set (open_rows (conditions d'))" for c
    using imageI [OF c, of "\<lambda>c. pair_key (row_pair c)", unfolded e] pair_key_eq [OF nn [OF c]] by auto
  moreover have "\<exists>c \<in> set (open_rows (conditions d')). row_pair c = cond_pair x" if x: "x \<in> set cs" for x
    using imageI [OF x, of "\<lambda>x. pair_key (cond_pair x)", unfolded e [symmetric]] pair_key_eq [OF nn] by (auto dest: sym)
  ultimately show ?thesis by (auto simp: image_iff) metis
qed

text \<open>C20. A scan can always be reconciled with the tables it meets, as long as its servers exist and no row was
  resolved at the same instant. Afterwards exactly the observed conditions are open; a condition that was open and is
  still observed keeps its row and its first sighting, one no longer observed is resolved now and reported, a row
  already resolved is not touched, and the rows reported as opened are new ones.\<close>

theorem scan_leaves_observed_open:
  assumes inj: "inj fresh" and reach: "(alert_step fresh)\<^sup>*\<^sup>* empty_alerts d"
    and known: "\<And>c. c \<in> set cs \<Longrightarrow> CondInstance c = [] \<or> CondInstance c \<in> instance_ids d"
    and now: "\<And>c. c \<in> set (conditions d) \<Longrightarrow> ac_Resolved c \<noteq> Some now"
  shows "\<exists>diff d'. ReconcileConditions fresh (observed_of cs) now d = Inr (diff, d') \<and>
    row_pair ` set (open_rows (conditions d')) = cond_pair ` set cs \<and>
    (\<forall>c \<in> set (conditions d).
       if ac_Resolved c \<noteq> None then c \<in> set (conditions d')
       else if row_pair c \<in> cond_pair ` set cs then c\<lparr>ac_LastSeen := now\<rparr> \<in> set (conditions d')
       else c\<lparr>ac_Resolved := Some now\<rparr> \<in> set (conditions d') \<inter> set (Resolved diff)) \<and>
    ac_ID ` set (Opened diff) \<inter> ac_ID ` set (conditions d) = {} \<and>
    set (conditions d') \<subseteq> set (Opened diff) \<union> {c. ac_ID c \<in> ac_ID ` set (conditions d)}"
proof -
  let ?obs = "observed_of cs" and ?K = "keys_of (observed_of cs)"
  have ok: "alerts_ok fresh d" using reachable_alerts_ok reach inj by blast
  have "\<exists>diff d'. ReconcileConditions fresh ?obs now d = Inr (diff, d')"
    by (rule Reconcile_succeeds [OF ok inj _ now]) (use known in \<open>fastforce simp: observed_of_def deref_def split: if_splits\<close>)
  then obtain diff d' where r: "ReconcileConditions fresh ?obs now d = Inr (diff, d')" by blast
  from Reconcile_exact [OF ok inj r] obtain news where
    d': "d' = d\<lparr>conditions := map (settle_row now ?K) (conditions d) @ news, minted := minted d + length news\<rparr>"
    and diff: "Opened diff = news" "Resolved diff = map (settle_row now ?K) (missing ?K (open_rows (conditions d)))"
    and ids: "map ac_ID news = map fresh [minted d..<minted d + length news]"
    by (elim exE conjE) (rule that; (assumption | blast))
  have "if ac_Resolved c \<noteq> None then c \<in> set (conditions d')
       else if row_pair c \<in> cond_pair ` set cs then c\<lparr>ac_LastSeen := now\<rparr> \<in> set (conditions d')
       else c\<lparr>ac_Resolved := Some now\<rparr> \<in> set (conditions d') \<inter> set (Resolved diff)" if c: "c \<in> set (conditions d)" for c
  proof -
    have s: "settle_row now ?K c \<in> set (conditions d')" using c by (simp add: d')
    have "settle_row now ?K c \<in> set (Resolved diff)" if "ac_Resolved c = None" "key_of_row c \<notin> ?K"
      using c that by (auto simp: diff open_rows_def)
    moreover have "key_of_row c \<in> ?K \<longleftrightarrow> row_pair c \<in> cond_pair ` set cs"
      by (rule key_observed) (use ok c in \<open>simp add: alerts_ok_def\<close>)
    ultimately show ?thesis using s by (simp add: settle_row_def split: if_splits)
  qed
  moreover have "ac_ID ` set news = fresh ` {minted d..<minted d + length news}" using arg_cong [OF ids, of set] by simp
  then have "ac_ID ` set (Opened diff) \<inter> ac_ID ` set (conditions d) = {}"
    using ok inj unfolding diff alerts_ok_def by (auto simp: inj_eq)
  moreover have "set (conditions d') \<subseteq> set (Opened diff) \<union> {c. ac_ID c \<in> ac_ID ` set (conditions d)}"
    by (auto simp: d' diff)
  ultimately show ?thesis using r Reconcile_open [OF ok inj r] by blast
qed

theorem scan_leaves_observed_open_witness:
  "\<exists>diff d'. ReconcileConditions wfresh (observed_of [\<lparr>CondKind = AKJobFailed, CondInstance = []\<rparr>]) 200 wdb = Inr (diff, d') \<and>
     row_pair ` set (open_rows (conditions d')) = {(''job_failed'', [])} \<and> wrow\<lparr>ac_Resolved := Some 200\<rparr> \<in> set (Resolved diff)"
  using scan_leaves_observed_open [OF wfresh_inj wdb_reached, of "[\<lparr>CondKind = AKJobFailed, CondInstance = []\<rparr>]" 200]
  by (auto simp: wdb_def wrow_def cond_pair_def row_pair_def)

subsection \<open>What a dispatch says\<close>

text \<open>The announcement \<open>n\<close> of an edge of a condition to a rule that wants it now, and the messages that carry it.\<close>

definition announcement ::
  "(string \<Rightarrow> int \<Rightarrow> int option) \<Rightarrow> prepare \<Rightarrow> int \<Rightarrow> AlertCondition list \<Rightarrow> AlertRule list \<Rightarrow> Notification \<Rightarrow> alert_delivery list \<Rightarrow> bool" where
  "announcement local_minutes prepare now cs rs n qs \<longleftrightarrow>
     (\<exists>c \<in> set cs. \<exists>r \<in> set rs. \<exists>targets. no_Condition n = ac_ID c \<and> no_Rule n = RuleID r \<and>
        (no_Edge n = EdgeOpened \<longleftrightarrow> ac_Resolved c = None) \<and> Matches r c \<and> \<not> Quiet local_minutes r now \<and>
        prepare c (no_Edge n) r = Some targets \<and> qs = ruleDeliveries (no_Event n) r targets)"

definition said ::
  "(Notification \<Rightarrow> alert_delivery list \<Rightarrow> bool) \<Rightarrow> alert_db \<Rightarrow> (Notification \<times> alert_delivery list) list \<Rightarrow> alert_db \<Rightarrow> bool" where
  "said A d news d' \<longleftrightarrow> notifications d' = notifications d @ map fst news \<and>
     deliveries d' = deliveries d @ concat (map snd news) \<and> (\<forall>(n, qs) \<in> set news. A n qs)"

lemma said_trans: "said A d xs d1 \<Longrightarrow> said A d1 ys d2 \<Longrightarrow> said A d (xs @ ys) d2"
  by (auto simp: said_def)

lemma said_fold: "(\<And>x d. x \<in> set xs \<Longrightarrow> \<exists>news. said A d news (f x d)) \<Longrightarrow> \<exists>news. said A d news (fold f xs d)"
proof (induction xs arbitrary: d)
  case Nil
  have "said A d [] d" by (simp add: said_def)
  then show ?case by auto
next
  case (Cons x xs)
  from Cons.prems [of x d] obtain n1 where 1: "said A d n1 (f x d)" by auto
  from Cons.IH [of "f x d"] Cons.prems obtain n2 where 2: "said A (f x d) n2 (fold f xs (f x d))" by auto
  from said_trans [OF 1 2] show ?case by auto
qed

lemma said_rule:
  assumes c: "c \<in> set cs" "e = EdgeOpened \<longleftrightarrow> ac_Resolved c = None" and r: "r \<in> set rs"
  shows "\<exists>news. said (announcement lm prep now cs rs) d news (dispatch_rule fresh lm prep now c e r d)"
proof -
  let ?A = "announcement lm prep now cs rs" and ?d' = "dispatch_rule fresh lm prep now c e r d"
  have quiet: "\<exists>news. said ?A d news ?d'" if "notifications ?d' = notifications d" "deliveries ?d' = deliveries d"
    by (rule exI [of _ "[]"]) (simp add: said_def that)
  show ?thesis
  proof (cases "Matches r c \<and> \<not> Quiet lm r now")
    case False
    then show ?thesis by (intro quiet) (auto simp: dispatch_rule_def)
  next
    case go: True
    let ?v = "fresh (minted d)" and ?d0 = "d\<lparr>minted := minted d + 1\<rparr>"
    let ?n = "\<lparr>no_Condition = ac_ID c, no_Rule = RuleID r, no_Edge = e, no_Event = ?v\<rparr>"
    show ?thesis
    proof (cases "prep c e r")
      case None
      with go show ?thesis by (intro quiet) (simp_all add: dispatch_rule_def Let_def)
    next
      case (Some ts)
      show ?thesis
      proof (cases "MarkNotified ?n (ruleDeliveries ?v r ts) ?d0")
        case (Inl err)
        with go Some show ?thesis by (intro quiet) (simp_all add: dispatch_rule_def Let_def)
      next
        case (Inr p)
        obtain b d1 where m: "MarkNotified ?n (ruleDeliveries ?v r ts) ?d0 = Inr (b, d1)" using Inr by (cases p) simp
        with go Some have d1: "?d' = d1" by (simp add: dispatch_rule_def Let_def)
        from m show ?thesis
        proof (cases rule: MarkNotified_cases)
          case kept
          then show ?thesis by (intro quiet) (simp_all add: d1)
        next
          case new
          have "?A ?n (ruleDeliveries ?v r ts)" unfolding announcement_def using c r go Some by auto
          with new have "said ?A d [(?n, ruleDeliveries ?v r ts)] ?d'" by (simp add: said_def d1)
          then show ?thesis by blast
        qed
      qed
    qed
  qed
qed

lemma said_edges:
  assumes "\<And>c. c \<in> set xs \<Longrightarrow> c \<in> set cs \<and> (e = EdgeOpened \<longleftrightarrow> ac_Resolved c = None)" and "set rs' \<subseteq> set rs"
  shows "\<exists>news. said (announcement lm prep now cs rs) d news (fold (dispatchOne fresh lm prep now rs' e) xs d)"
proof (rule said_fold)
  fix c d
  assume "c \<in> set xs"
  with assms(1) have c: "c \<in> set cs" "e = EdgeOpened \<longleftrightarrow> ac_Resolved c = None" by blast+
  show "\<exists>news. said (announcement lm prep now cs rs) d news (dispatchOne fresh lm prep now rs' e c d)"
    unfolding dispatchOne_def by (rule said_fold) (use said_rule [OF c] assms(2) in blast)
qed

text \<open>C32. A dispatch leaves nothing owed. Assume every destination a message is rendered for exists. Then afterwards every
  open condition whose message can be rendered has been announced to every rule that matches it outside its quiet
  window, and every resolution of the last two days of an announced condition that has not opened again has been
  announced too. What the dispatch adds to the tables is a list of announcements, each of an edge of a condition to a
  rule that matches it outside its quiet window -- the opening of an open one or the resolution of a resolved
  one -- and for each of them one message to every destination rendered for that rule, and nothing else. And it is a
  sequence of claims, each atomic, so that what holds of the tables under any interleaving holds of it.\<close>

theorem dispatch_leaves_nothing_owed:
  assumes hooks: "\<And>c e r targets. prepare c e r = Some targets \<Longrightarrow> set targets \<subseteq> webhook_ids d"
    and d'_def: "d' = DispatchAlerts fresh local_minutes prepare now d"
  shows "(\<forall>c \<in> set (conditions d). \<forall>r \<in> set (rules d). Matches r c \<and> \<not> Quiet local_minutes r now \<longrightarrow>
      (ac_Resolved c = None \<and> prepare c EdgeOpened r \<noteq> None \<longrightarrow> notified d' (ac_ID c) (RuleID r) EdgeOpened) \<and>
      ((\<exists>t > now - 48 * 3600. ac_Resolved c = Some t) \<and> notified d (ac_ID c) (RuleID r) EdgeOpened \<and> prepare c EdgeResolved r \<noteq> None \<and>
         (\<forall>x \<in> set (conditions d). ac_Resolved x = None \<longrightarrow> ac_Kind x \<noteq> ac_Kind c \<or> deref (ac_Instance x) \<noteq> deref (ac_Instance c))
       \<longrightarrow> notified d' (ac_ID c) (RuleID r) EdgeResolved)) \<and>
    (\<forall>ci ri e. notified d' ci ri e \<and> \<not> notified d ci ri e \<longrightarrow>
      (\<exists>c \<in> set (conditions d). \<exists>r \<in> set (rules d). ci = ac_ID c \<and> ri = RuleID r \<and> Matches r c \<and> \<not> Quiet local_minutes r now \<and>
         (e = EdgeOpened \<longleftrightarrow> ac_Resolved c = None))) \<and>
    (\<exists>news. notifications d' = notifications d @ map fst news \<and> deliveries d' = deliveries d @ concat (map snd news) \<and>
      (\<forall>(n, qs) \<in> set news. announcement local_minutes prepare now (conditions d) (rules d) n qs)) \<and>
    (alert_step fresh)\<^sup>*\<^sup>* d d'"
proof -
  let ?rs = "ListAlertRules d" and ?open = "OpenConditions d"
  define owed where "owed = filter (\<lambda>c. \<not> list_ex (\<lambda>x. ac_Kind x = ac_Kind c \<and> deref (ac_Instance x) = deref (ac_Instance c)) ?open)
      (ResolvedUnannounced (now - clearanceHorizon) d)"
  define d1 where "d1 = fold (dispatchOne fresh local_minutes prepare now ?rs EdgeResolved) owed d"
  have d': "d' = fold (dispatchOne fresh local_minutes prepare now ?rs EdgeOpened) ?open d1"
    by (simp add: d'_def DispatchAlerts_unfold owed_def d1_def)
  have g1: "grown d d1" unfolding d1_def by (rule fold_grown) (rule dispatchOne_grown)
  have g2: "grown d1 d'" unfolding d' by (rule fold_grown) (rule dispatchOne_grown)
  have opened: "notified d' (ac_ID c) (RuleID r) EdgeOpened"
    if c: "c \<in> set (conditions d)" "ac_Resolved c = None" and r: "r \<in> set (rules d)" "Matches r c" "\<not> Quiet local_minutes r now"
      and p: "prepare c EdgeOpened r = Some ts" for c r ts
    unfolding d' by (rule fold_dispatch_announces [where targets = ts])
      (use c r p hooks [OF p] g1 in \<open>simp_all add: dispatch_reads open_rows_def grown_def\<close>)
  have resolution: "notified d' (ac_ID c) (RuleID r) EdgeResolved"
    if c: "c \<in> set (conditions d)" "ac_Resolved c = Some t" "t > now - 48 * 3600"
      and r: "r \<in> set (rules d)" "Matches r c" "\<not> Quiet local_minutes r now"
      and n: "notified d (ac_ID c) (RuleID r) EdgeOpened" and p: "prepare c EdgeResolved r = Some ts"
      and x: "\<forall>x \<in> set (conditions d). ac_Resolved x = None \<longrightarrow> ac_Kind x \<noteq> ac_Kind c \<or> deref (ac_Instance x) \<noteq> deref (ac_Instance c)"
    for c r t ts
  proof (cases "notified d (ac_ID c) (RuleID r) EdgeResolved")
    case True
    with g1 g2 show ?thesis by (simp add: grown_def)
  next
    case False
    with n have "owes_resolution d (ac_ID c)" by (auto simp: owes_resolution_def notified_def list_ex_iff)
    with c x have "c \<in> set owed"
      by (auto simp: owed_def dispatch_reads list_ex_iff open_rows_def clearanceHorizon_def)
    then have "notified d1 (ac_ID c) (RuleID r) EdgeResolved"
      unfolding d1_def by (rule fold_dispatch_announces [where targets = ts])
        (use c r n p hooks [OF p] in \<open>simp_all add: dispatch_reads\<close>)
    with g2 show ?thesis by (simp add: grown_def)
  qed
  have only: "\<exists>c \<in> set (conditions d). \<exists>r \<in> set (rules d). ci = ac_ID c \<and> ri = RuleID r \<and> Matches r c \<and> \<not> Quiet local_minutes r now \<and>
      (e = EdgeOpened \<longleftrightarrow> ac_Resolved c = None)" if n: "notified d' ci ri e" "\<not> notified d ci ri e" for ci ri e
  proof (cases "notified d1 ci ri e")
    case True
    from fold_dispatch_new [OF True [unfolded d1_def]] n(2) obtain c r where "c \<in> set owed" "r \<in> set ?rs"
      "(ci, ri, e) = (ac_ID c, RuleID r, EdgeResolved)" "Matches r c" "\<not> Quiet local_minutes r now" by blast
    then show ?thesis by (auto simp: owed_def dispatch_reads)
  next
    case False
    from fold_dispatch_new [OF n(1) [unfolded d']] False obtain c r where "c \<in> set ?open" "r \<in> set ?rs"
      "(ci, ri, e) = (ac_ID c, RuleID r, EdgeOpened)" "Matches r c" "\<not> Quiet local_minutes r now" by blast
    then show ?thesis by (auto simp: dispatch_reads open_rows_def)
  qed
  have "\<exists>news. said (announcement local_minutes prepare now (conditions d) (rules d)) d news d1"
    unfolding d1_def by (rule said_edges) (auto simp: owed_def dispatch_reads)
  moreover have "\<exists>news. said (announcement local_minutes prepare now (conditions d) (rules d)) d1 news d'"
    unfolding d' by (rule said_edges) (auto simp: dispatch_reads open_rows_def)
  ultimately have "\<exists>news. said (announcement local_minutes prepare now (conditions d) (rules d)) d news d'"
    using said_trans by blast
  then have messages: "\<exists>news. notifications d' = notifications d @ map fst news \<and> deliveries d' = deliveries d @ concat (map snd news) \<and>
      (\<forall>(n, qs) \<in> set news. announcement local_minutes prepare now (conditions d) (rules d) n qs)"
    unfolding said_def .
  show ?thesis
    using opened resolution only messages DispatchAlerts_steps [of fresh d local_minutes prepare now] unfolding d'_def [symmetric] by blast
qed

definition wprepare :: prepare where
  "wprepare c e r = Some [''w'']"

definition wdispatched :: alert_db where
  "wdispatched = DispatchAlerts wfresh (\<lambda>_ _. None) wprepare 200 wdb"

theorem dispatch_leaves_nothing_owed_witness:
  "\<not> notified wdb [] ''r'' EdgeOpened \<and> notified wdispatched [] ''r'' EdgeOpened \<and>
   (\<exists>n qs. notifications wdispatched = [n] \<and> deliveries wdispatched = qs \<and>
      announcement (\<lambda>_ _. None) wprepare 200 [wrow] [wrule] n qs \<and>
      qs = [\<lparr>ad_Webhook = ''w'', ad_Rule = Some ''r'', ad_Event = ''a''\<rparr>])"
proof -
  have prep: "wprepare c e r = Some targets \<longleftrightarrow> targets = [''w'']" for c e r targets by (auto simp: wprepare_def)
  have in_db: "conditions wdb = [wrow]" "rules wdb = [wrule]" "notifications wdb = []" "deliveries wdb = []" "webhook_ids wdb = {''w''}"
    by (simp_all add: wdb_def empty_alerts_def)
  note D = dispatch_leaves_nothing_owed [where prepare = wprepare and d = wdb, OF _ wdispatched_def]
  have "Matches wrule wrow" "\<not> Quiet (\<lambda>_ _. None) wrule 200" by (simp_all add: Matches_def Quiet_def wrule_def wrow_def)
  then have "notified wdispatched [] ''r'' EdgeOpened"
    using D by (simp add: prep in_db wrow_def wrule_def)
  moreover have "\<not> notified wdb [] ''r'' EdgeOpened" by (simp add: notified_def in_db)
  moreover from D obtain news where news: "notifications wdispatched = map fst news" "deliveries wdispatched = concat (map snd news)"
    "\<forall>(n, qs) \<in> set news. announcement (\<lambda>_ _. None) wprepare 200 [wrow] [wrule] n qs"
    by (simp add: prep in_db) blast
  moreover have len: "length (notifications wdispatched) = 1"
    and qs: "deliveries wdispatched = [\<lparr>ad_Webhook = ''w'', ad_Rule = Some ''r'', ad_Event = ''a''\<rparr>]" by code_simp+
  from len news(1) obtain n qs where "news = [(n, qs)]" by (cases news) (auto simp: length_Suc_conv)
  ultimately show ?thesis using qs by auto
qed

end
