(* ===== verification/Instance_Store.thy ===== *)
theory Instance_Store
  imports Complex_Main Instance_State
begin

text \<open>
  The instances table (\<open>internal/store/instances.go\<close>): every statement that inserts, updates or deletes a row,
  the unique columns they can collide on, and the edit of an instance as one transaction. Columns are grouped
  the way the update structures group them; creation and update times are left out. \<open>Instance_State\<close> models
  the same table reduced to what the lifecycle reads; \<open>lifecycle_view\<close> is the reduction, and the state
  writes here refine the ones there.
\<close>

subsection \<open>Rows\<close>

record InstanceLaunch =
  la_ServerName :: string
  la_Password :: string
  la_Public :: bool
  la_Crossplay :: bool
  la_Preset :: "string option"
  la_Modifiers :: "string option"
  la_MemLimitMB :: int
  la_CPULimit :: "rat option"
  la_ExtraArgs :: "string option"
  la_GameBackups :: int

record BackupPolicy =
  bp_KeepCold :: int
  bp_KeepHot :: int
  bp_OnRestart :: bool

record RemotePolicy =
  rp_Enabled :: bool
  rp_KeepCold :: int
  rp_KeepHot :: int
  rp_KeepSnapshots :: int

record StatusText =
  st_Notice :: string
  st_ConnectInfo :: string

record InstanceBranch =
  br_Name :: string
  br_Password :: string

record instance_row =
  in_ID :: string
  in_Name :: string
  in_State :: state
  in_ContainerID :: "string option"
  in_DataDir :: string
  in_BasePort :: int
  in_WorldName :: string
  in_CrossplayID :: string
  in_Launch :: InstanceLaunch
  in_Modded :: bool
  in_BepInEx :: "string option"
  in_RestartRequired :: bool
  in_PendingRestart :: bool
  in_BuildID :: "string option"
  in_Branch :: string
  in_BranchPassword :: "string option"
  in_Backup :: BackupPolicy
  in_Remote :: RemotePolicy
  in_StatusPublished :: bool
  in_StatusText :: StatusText
  in_AutoStopMinutes :: int
  in_TestOf :: "string option"
  in_TestPassed :: bool
  in_StartedAt :: "int option"

text \<open>One entry of the permanent record, as it is asked for and as it is stored.\<close>

record AuditEntry =
  au_User :: string
  au_Instance :: string
  au_Action :: string
  au_ActorName :: string
  au_InstanceName :: string
  au_Job :: string
  au_Outcome :: string

record audit_row =
  ar_User :: "string option"
  ar_Instance :: "string option"
  ar_Action :: string
  ar_ActorName :: "string option"
  ar_InstanceName :: "string option"
  ar_Job :: "string option"
  ar_Outcome :: string

record inst_db =
  insts :: "instance_row list"
  audit_log :: "audit_row list"

datatype inst_error =
    ErrInstanceNotFound | ErrInstanceNameTaken | ErrBasePortTaken | ErrInstanceIDTaken | ErrInstanceNotStopped
  | ErrNotInState state | ErrCheckConstraint

definition nullIfEmpty :: "string \<Rightarrow> string option" where
  "nullIfEmpty s = (if s = [] then None else Some s)"

definition branchOrPublic :: "string \<Rightarrow> string" where
  "branchOrPublic branch = (if branch = [] then ''public'' else branch)"

subsection \<open>Reads\<close>

definition InstanceByID :: "string \<Rightarrow> inst_db \<Rightarrow> instance_row option" where
  "InstanceByID i d = find (\<lambda>r. in_ID r = i) (insts d)"

definition InstanceTestCopy :: "string \<Rightarrow> inst_db \<Rightarrow> instance_row option" where
  "InstanceTestCopy src d = find (\<lambda>r. in_TestOf r = Some src) (insts d)"

definition InstanceByContainerID :: "string \<Rightarrow> inst_db \<Rightarrow> instance_row option" where
  "InstanceByContainerID c d = find (\<lambda>r. in_ContainerID r = Some c) (insts d)"

definition ListInstances :: "string list option \<Rightarrow> inst_db \<Rightarrow> instance_row list" where
  "ListInstances ids d =
     (if ids = Some [] then []
      else filter (\<lambda>r. case ids of None \<Rightarrow> True | Some want \<Rightarrow> in_ID r \<in> set want) (sort_key in_Name (insts d)))"

definition UsedBasePorts :: "inst_db \<Rightarrow> int \<Rightarrow> bool" where
  "UsedBasePorts d p \<longleftrightarrow> list_ex (\<lambda>r. in_BasePort r = p) (insts d)"

definition InstanceNameInUse :: "string \<Rightarrow> string \<Rightarrow> inst_db \<Rightarrow> bool" where
  "InstanceNameInUse name i d \<longleftrightarrow> list_ex (\<lambda>r. in_Name r = name \<and> in_ID r \<noteq> i) (insts d)"

text \<open>What the public status page may read: nothing unless the row exists and has opted in.\<close>

record PublishedStatus =
  ps_ServerName :: string
  ps_State :: state
  ps_Notice :: string
  ps_ConnectInfo :: string
  ps_JobKind :: string

definition PublishedInstanceStatus :: "(string \<rightharpoonup> string) \<Rightarrow> string \<Rightarrow> string \<Rightarrow> inst_db \<Rightarrow> PublishedStatus option" where
  "PublishedInstanceStatus lock_kind i lockKey d =
     map_option (\<lambda>r. \<lparr>ps_ServerName = la_ServerName (in_Launch r), ps_State = in_State r, ps_Notice = st_Notice (in_StatusText r),
         ps_ConnectInfo = st_ConnectInfo (in_StatusText r),
         ps_JobKind = (case lock_kind lockKey of None \<Rightarrow> [] | Some k \<Rightarrow> k)\<rparr>)
       (find (\<lambda>r. in_ID r = i \<and> in_StatusPublished r) (insts d))"

subsection \<open>The audit log\<close>

definition writeAuditLog :: "(string \<rightharpoonup> string) \<Rightarrow> AuditEntry \<Rightarrow> inst_db \<Rightarrow> inst_db" where
  "writeAuditLog username e d =
     d\<lparr>audit_log := audit_log d @
       [\<lparr>ar_User = nullIfEmpty (au_User e), ar_Instance = nullIfEmpty (au_Instance e), ar_Action = au_Action e,
         ar_ActorName = (if au_ActorName e \<noteq> [] then Some (au_ActorName e) else username (au_User e)),
         ar_InstanceName = (if au_InstanceName e \<noteq> [] then Some (au_InstanceName e) else map_option in_Name (InstanceByID (au_Instance e) d)),
         ar_Job = nullIfEmpty (au_Job e),
         ar_Outcome = (if au_Outcome e \<noteq> [] then au_Outcome e else if au_Job e \<noteq> [] then ''requested'' else ''succeeded'')\<rparr>]\<rparr>"

subsection \<open>Inserting\<close>

text \<open>Columns with a unique index: the key, the name, the base port and the crossplay identity.\<close>

definition clashes :: "instance_row \<Rightarrow> inst_db \<Rightarrow> bool" where
  "clashes n d \<longleftrightarrow> list_ex (\<lambda>r. in_ID r = in_ID n \<or> in_Name r = in_Name n \<or> in_BasePort r = in_BasePort n \<or> in_CrossplayID r = in_CrossplayID n) (insts d)"

definition name_exists :: "string \<Rightarrow> inst_db \<Rightarrow> bool" where
  "name_exists name d \<longleftrightarrow> list_ex (\<lambda>r. in_Name r = name) (insts d)"

definition insert_instance :: "instance_row \<Rightarrow> inst_db \<Rightarrow> inst_error + inst_db" where
  "insert_instance n d =
     (if \<not> clashes n d then Inr (d\<lparr>insts := insts d @ [n]\<rparr>)
      else if name_exists (in_Name n) d then Inl ErrInstanceNameTaken
      else Inl ErrBasePortTaken)"

record NewInstance =
  ni_ID :: string
  ni_Name :: string
  ni_DataDir :: string
  ni_BasePort :: int
  ni_ServerName :: string
  ni_WorldName :: string
  ni_Password :: string
  ni_Public :: bool
  ni_Crossplay :: bool
  ni_CrossplayID :: string
  ni_Preset :: string
  ni_Modifiers :: string
  ni_ExtraArgs :: string
  ni_MemLimitMB :: int
  ni_CPULimit :: "rat option"
  ni_Branch :: string
  ni_BranchPassword :: string
  ni_UpdateTest :: bool

text \<open>What the schema fills in for columns an insert leaves out.\<close>

definition default_backup :: BackupPolicy where
  "default_backup = \<lparr>bp_KeepCold = 2, bp_KeepHot = 5, bp_OnRestart = False\<rparr>"

definition default_remote :: RemotePolicy where
  "default_remote = \<lparr>rp_Enabled = False, rp_KeepCold = 10, rp_KeepHot = 5, rp_KeepSnapshots = 10\<rparr>"

definition default_text :: StatusText where
  "default_text = \<lparr>st_Notice = [], st_ConnectInfo = []\<rparr>"

definition new_row :: "NewInstance \<Rightarrow> instance_row" where
  "new_row n =
     \<lparr>in_ID = ni_ID n, in_Name = ni_Name n, in_State = StateCreated, in_ContainerID = None, in_DataDir = ni_DataDir n,
      in_BasePort = ni_BasePort n, in_WorldName = ni_WorldName n, in_CrossplayID = ni_CrossplayID n,
      in_Launch = \<lparr>la_ServerName = ni_ServerName n, la_Password = ni_Password n, la_Public = ni_Public n, la_Crossplay = ni_Crossplay n,
        la_Preset = nullIfEmpty (ni_Preset n), la_Modifiers = nullIfEmpty (ni_Modifiers n), la_MemLimitMB = ni_MemLimitMB n,
        la_CPULimit = ni_CPULimit n, la_ExtraArgs = nullIfEmpty (ni_ExtraArgs n), la_GameBackups = 4\<rparr>,
      in_Modded = False, in_BepInEx = None, in_RestartRequired = False, in_PendingRestart = False, in_BuildID = None,
      in_Branch = branchOrPublic (ni_Branch n), in_BranchPassword = nullIfEmpty (ni_BranchPassword n),
      in_Backup = default_backup, in_Remote = default_remote, in_StatusPublished = False, in_StatusText = default_text,
      in_AutoStopMinutes = 0, in_TestOf = None, in_TestPassed = False, in_StartedAt = None\<rparr>"

definition CreateInstance :: "NewInstance \<Rightarrow> inst_db \<Rightarrow> inst_error + inst_db" where
  "CreateInstance n d = insert_instance (new_row n) d"

definition updateTestAutoStopMinutes :: int where
  "updateTestAutoStopMinutes = 10"

text \<open>The row a clone inserts: the source's settings under the destination's identity.\<close>

definition clone_row :: "NewInstance \<Rightarrow> instance_row \<Rightarrow> instance_row" where
  "clone_row n src =
     (let t = ni_UpdateTest n; l = in_Launch src in
      \<lparr>in_ID = ni_ID n, in_Name = ni_Name n, in_State = StateProvisioning, in_ContainerID = None, in_DataDir = ni_DataDir n,
       in_BasePort = ni_BasePort n, in_WorldName = in_WorldName src, in_CrossplayID = ni_CrossplayID n,
       in_Launch = l\<lparr>la_Password := ni_Password n, la_Public := la_Public l \<and> \<not> t, la_Crossplay := la_Crossplay l \<and> \<not> t,
         la_CPULimit := (case ni_CPULimit n of Some c \<Rightarrow> Some c | None \<Rightarrow> la_CPULimit l)\<rparr>,
       in_Modded = in_Modded src, in_BepInEx = in_BepInEx src, in_RestartRequired = False, in_PendingRestart = False,
       in_BuildID = in_BuildID src, in_Branch = in_Branch src, in_BranchPassword = nullIfEmpty (ni_BranchPassword n),
       in_Backup = in_Backup src, in_Remote = default_remote, in_StatusPublished = False, in_StatusText = default_text,
       in_AutoStopMinutes = (if t then updateTestAutoStopMinutes else in_AutoStopMinutes src),
       in_TestOf = (if t then Some (in_ID src) else None), in_TestPassed = False, in_StartedAt = None\<rparr>)"

definition clonable :: "NewInstance \<Rightarrow> instance_row \<Rightarrow> bool" where
  "clonable n src \<longleftrightarrow> in_State src = StateStopped \<or> ni_UpdateTest n \<and> in_State src = StateRunning"

definition TxCreateCloneInstance :: "string \<Rightarrow> NewInstance \<Rightarrow> inst_db \<Rightarrow> inst_error + inst_db" where
  "TxCreateCloneInstance sourceID n d =
     (case InstanceByID sourceID d of
        None \<Rightarrow> Inl ErrInstanceNotStopped
      | Some src \<Rightarrow> if \<not> clonable n src then Inl ErrInstanceNotStopped else insert_instance (clone_row n src) d)"

record AdoptedInstance =
  ai_ID :: string
  ai_Name :: string
  ai_State :: state
  ai_ContainerID :: string
  ai_DataDir :: string
  ai_BasePort :: int
  ai_WorldName :: string
  ai_CrossplayID :: string
  ai_Launch :: InstanceLaunch
  ai_Modded :: bool
  ai_BuildID :: string
  ai_Branch :: string

definition adopted_row :: "AdoptedInstance \<Rightarrow> instance_row" where
  "adopted_row n =
     \<lparr>in_ID = ai_ID n, in_Name = ai_Name n, in_State = ai_State n, in_ContainerID = Some (ai_ContainerID n), in_DataDir = ai_DataDir n,
      in_BasePort = ai_BasePort n, in_WorldName = ai_WorldName n, in_CrossplayID = ai_CrossplayID n,
      in_Launch = (ai_Launch n)\<lparr>la_GameBackups := 4\<rparr>, in_Modded = ai_Modded n, in_BepInEx = None, in_RestartRequired = False,
      in_PendingRestart = False, in_BuildID = Some (ai_BuildID n), in_Branch = branchOrPublic (ai_Branch n), in_BranchPassword = None,
      in_Backup = default_backup, in_Remote = default_remote, in_StatusPublished = False, in_StatusText = default_text,
      in_AutoStopMinutes = 0, in_TestOf = None, in_TestPassed = False, in_StartedAt = None\<rparr>"

definition TxAdoptInstance :: "AdoptedInstance \<Rightarrow> inst_db \<Rightarrow> inst_error + inst_db" where
  "TxAdoptInstance n d =
     (if \<not> clashes (adopted_row n) d then Inr (d\<lparr>insts := insts d @ [adopted_row n]\<rparr>)
      else if list_ex (\<lambda>r. in_ID r = ai_ID n \<or> in_CrossplayID r = ai_CrossplayID n) (insts d) then Inl ErrInstanceIDTaken
      else if name_exists (ai_Name n) d then Inl ErrInstanceNameTaken
      else if UsedBasePorts d (ai_BasePort n) then Inl ErrBasePortTaken
      else Inl ErrInstanceIDTaken)"

subsection \<open>Updating\<close>

text \<open>\<open>UPDATE instances SET \<dots> WHERE id = ?\<close>; the checked form reports a missing row.\<close>

definition update_row :: "string \<Rightarrow> (instance_row \<Rightarrow> instance_row) \<Rightarrow> inst_db \<Rightarrow> inst_db" where
  "update_row i f d = d\<lparr>insts := map (\<lambda>r. if in_ID r = i then f r else r) (insts d)\<rparr>"

definition update_checked :: "string \<Rightarrow> (instance_row \<Rightarrow> instance_row) \<Rightarrow> inst_db \<Rightarrow> inst_error + inst_db" where
  "update_checked i f d =
     (if list_ex (\<lambda>r. in_ID r = i) (insts d) then Inr (update_row i f d) else Inl ErrInstanceNotFound)"

definition ResetInstancePassword :: "string \<Rightarrow> string \<Rightarrow> inst_db \<Rightarrow> inst_error + inst_db" where
  "ResetInstancePassword i password =
     update_checked i (\<lambda>r. r\<lparr>in_Launch := (in_Launch r)\<lparr>la_Password := password\<rparr>, in_RestartRequired := True\<rparr>)"

definition updateInstanceLaunch :: "string \<Rightarrow> InstanceLaunch \<Rightarrow> inst_db \<Rightarrow> inst_error + inst_db" where
  "updateInstanceLaunch i patch = update_checked i (\<lambda>r. r\<lparr>in_Launch := patch, in_RestartRequired := True\<rparr>)"

definition updateInstanceBackupPolicy :: "string \<Rightarrow> BackupPolicy \<Rightarrow> inst_db \<Rightarrow> inst_error + inst_db" where
  "updateInstanceBackupPolicy i policy = update_checked i (\<lambda>r. r\<lparr>in_Backup := policy\<rparr>)"

definition updateInstanceAutoStop :: "string \<Rightarrow> int \<Rightarrow> inst_db \<Rightarrow> inst_error + inst_db" where
  "updateInstanceAutoStop i minutes = update_checked i (\<lambda>r. r\<lparr>in_AutoStopMinutes := minutes\<rparr>)"

definition updateInstanceBranch :: "string \<Rightarrow> string \<Rightarrow> string \<Rightarrow> inst_db \<Rightarrow> inst_error + inst_db" where
  "updateInstanceBranch i branch password =
     update_checked i (\<lambda>r. r\<lparr>in_Branch := branch, in_BranchPassword := nullIfEmpty password\<rparr>)"

text \<open>This one does not look at how many rows it matched.\<close>

definition updateRemotePolicy :: "string \<Rightarrow> RemotePolicy \<Rightarrow> inst_db \<Rightarrow> inst_error + inst_db" where
  "updateRemotePolicy i p d =
     (if list_ex (\<lambda>r. in_ID r = i) (insts d) \<and> (rp_KeepCold p < 0 \<or> rp_KeepHot p < 0 \<or> rp_KeepSnapshots p < 0) then Inl ErrCheckConstraint
      else Inr (update_row i (\<lambda>r. r\<lparr>in_Remote := p\<rparr>) d))"

definition setInstanceStatusText :: "string \<Rightarrow> StatusText \<Rightarrow> inst_db \<Rightarrow> inst_error + inst_db" where
  "setInstanceStatusText i t = update_checked i (\<lambda>r. r\<lparr>in_StatusText := t\<rparr>)"

definition setInstanceStatusPublished :: "string \<Rightarrow> bool \<Rightarrow> inst_db \<Rightarrow> inst_error + inst_db" where
  "setInstanceStatusPublished i published = update_checked i (\<lambda>r. r\<lparr>in_StatusPublished := published\<rparr>)"

definition renameInstance :: "string \<Rightarrow> string \<Rightarrow> inst_db \<Rightarrow> inst_error + inst_db" where
  "renameInstance i name d =
     (if \<not> list_ex (\<lambda>r. in_ID r = i) (insts d) then Inl ErrInstanceNotFound
      else if InstanceNameInUse name i d then Inl ErrInstanceNameTaken
      else Inr (update_row i (\<lambda>r. r\<lparr>in_Name := name\<rparr>) d))"

record InstanceUpdate =
  up_Launch :: "InstanceLaunch option"
  up_Backup :: "BackupPolicy option"
  up_AutoStop :: "int option"
  up_Branch :: "InstanceBranch option"
  up_Remote :: "RemotePolicy option"
  up_StatusText :: "StatusText option"
  up_StatusPublished :: "bool option"
  up_Name :: "string option"

definition opt_write :: "'a option \<Rightarrow> ('a \<Rightarrow> inst_db \<Rightarrow> inst_error + inst_db) \<Rightarrow> (inst_db \<Rightarrow> inst_error + inst_db) list" where
  "opt_write x f = (case x of None \<Rightarrow> [] | Some v \<Rightarrow> [f v])"

definition writes :: "InstanceUpdate \<Rightarrow> string \<Rightarrow> (inst_db \<Rightarrow> inst_error + inst_db) list" where
  "writes u i =
     opt_write (up_Launch u) (updateInstanceLaunch i) @
     opt_write (up_Backup u) (updateInstanceBackupPolicy i) @
     opt_write (up_AutoStop u) (updateInstanceAutoStop i) @
     opt_write (up_Branch u) (\<lambda>b. updateInstanceBranch i (br_Name b) (br_Password b)) @
     opt_write (up_Remote u) (updateRemotePolicy i) @
     opt_write (up_StatusText u) (setInstanceStatusText i) @
     opt_write (up_StatusPublished u) (setInstanceStatusPublished i) @
     opt_write (up_Name u) (renameInstance i)"

text \<open>One transaction: the first failing statement undoes them all.\<close>

definition UpdateInstance :: "(string \<rightharpoonup> string) \<Rightarrow> string \<Rightarrow> InstanceUpdate \<Rightarrow> AuditEntry list \<Rightarrow> inst_db \<Rightarrow> inst_error + inst_db" where
  "UpdateInstance username i u audits d =
     rbind (foldR (\<lambda>w. w) (writes u i) d) (\<lambda>d1. Inr (fold (writeAuditLog username) audits d1))"

definition SetInstanceContainerID :: "string \<Rightarrow> string \<Rightarrow> inst_db \<Rightarrow> inst_db" where
  "SetInstanceContainerID i c = update_row i (\<lambda>r. r\<lparr>in_ContainerID := Some c\<rparr>)"

definition SetContainerStartedAt :: "string \<Rightarrow> int \<Rightarrow> inst_db \<Rightarrow> inst_db" where
  "SetContainerStartedAt i t = update_row i (\<lambda>r. r\<lparr>in_StartedAt := Some t\<rparr>)"

definition TxSetInstanceBuildID :: "string \<Rightarrow> string \<Rightarrow> inst_db \<Rightarrow> inst_db" where
  "TxSetInstanceBuildID i b = update_row i (\<lambda>r. r\<lparr>in_BuildID := Some b\<rparr>)"

definition TxMarkTestPassed :: "string \<Rightarrow> inst_db \<Rightarrow> inst_db" where
  "TxMarkTestPassed i = update_row i (\<lambda>r. r\<lparr>in_TestPassed := True\<rparr>)"

subsection \<open>State writes\<close>

definition in_state :: "string \<Rightarrow> state \<Rightarrow> inst_db \<Rightarrow> bool" where
  "in_state i s d \<longleftrightarrow> list_ex (\<lambda>r. in_ID r = i \<and> in_State r = s) (insts d)"

definition update_if :: "string \<Rightarrow> state \<Rightarrow> (instance_row \<Rightarrow> instance_row) \<Rightarrow> inst_db \<Rightarrow> bool \<times> inst_db" where
  "update_if i from f d =
     (in_state i from d, d\<lparr>insts := map (\<lambda>r. if in_ID r = i \<and> in_State r = from then f r else r) (insts d)\<rparr>)"

definition UpdateState :: "string \<Rightarrow> state \<Rightarrow> state \<Rightarrow> inst_db \<Rightarrow> bool \<times> inst_db" where
  "UpdateState i from to = update_if i from (\<lambda>r. r\<lparr>in_State := to\<rparr>)"

definition UpdateStateAudited ::
  "(string \<rightharpoonup> string) \<Rightarrow> string \<Rightarrow> state \<Rightarrow> state \<Rightarrow> AuditEntry \<Rightarrow> inst_db \<Rightarrow> bool \<times> inst_db" where
  "UpdateStateAudited username i from to audit d =
     (case UpdateState i from to d of (moved, d1) \<Rightarrow> if \<not> moved then (False, d1) else (True, writeAuditLog username audit d1))"

definition require :: "state \<Rightarrow> bool \<times> inst_db \<Rightarrow> inst_error + inst_db" where
  "require from p = (if fst p then Inr (snd p) else Inl (ErrNotInState from))"

definition FinishProvisioning :: "string \<Rightarrow> state \<Rightarrow> state \<Rightarrow> string \<Rightarrow> string \<Rightarrow> inst_db \<Rightarrow> inst_error + inst_db" where
  "FinishProvisioning i from to containerID gameBuildID d =
     require from (update_if i from (\<lambda>r. r\<lparr>in_State := to, in_ContainerID := Some containerID, in_BuildID := Some gameBuildID\<rparr>) d)"

definition FinishStart :: "string \<Rightarrow> state \<Rightarrow> state \<Rightarrow> inst_db \<Rightarrow> inst_error + inst_db" where
  "FinishStart i from to d =
     require from (update_if i from (\<lambda>r. r\<lparr>in_State := to, in_RestartRequired := False, in_PendingRestart := False\<rparr>) d)"

text \<open>The row goes, and the test copies made from it forget it.\<close>

definition DeleteInstance :: "string \<Rightarrow> state \<Rightarrow> inst_db \<Rightarrow> inst_error + inst_db" where
  "DeleteInstance i from d =
     require from (in_state i from d,
       d\<lparr>insts := map (\<lambda>r. if in_state i from d \<and> in_TestOf r = Some i then r\<lparr>in_TestOf := None\<rparr> else r)
           (filter (\<lambda>r. \<not> (in_ID r = i \<and> in_State r = from)) (insts d))\<rparr>)"

subsection \<open>What an edit does\<close>

definition or_else :: "'a \<Rightarrow> 'a option \<Rightarrow> 'a" where
  "or_else x y = (case y of None \<Rightarrow> x | Some v \<Rightarrow> v)"

text \<open>The row an edit asks for: the fields it sets, and a restart owed when it sets launch properties.\<close>

definition edited :: "InstanceUpdate \<Rightarrow> instance_row \<Rightarrow> instance_row" where
  "edited u r =
     r\<lparr>in_Launch := or_else (in_Launch r) (up_Launch u), in_RestartRequired := in_RestartRequired r \<or> up_Launch u \<noteq> None,
       in_Backup := or_else (in_Backup r) (up_Backup u), in_AutoStopMinutes := or_else (in_AutoStopMinutes r) (up_AutoStop u),
       in_Branch := or_else (in_Branch r) (map_option br_Name (up_Branch u)),
       in_BranchPassword := or_else (in_BranchPassword r) (map_option (\<lambda>b. nullIfEmpty (br_Password b)) (up_Branch u)),
       in_Remote := or_else (in_Remote r) (up_Remote u), in_StatusText := or_else (in_StatusText r) (up_StatusText u),
       in_StatusPublished := or_else (in_StatusPublished r) (up_StatusPublished u), in_Name := or_else (in_Name r) (up_Name u)\<rparr>"

definition row_exists :: "string \<Rightarrow> inst_db \<Rightarrow> bool" where
  "row_exists i d \<longleftrightarrow> list_ex (\<lambda>r. in_ID r = i) (insts d)"

text \<open>Fields whose statement reports a missing row: all but the remote policy.\<close>

definition sets_checked :: "InstanceUpdate \<Rightarrow> bool" where
  "sets_checked u \<longleftrightarrow> up_Launch u \<noteq> None \<or> up_Backup u \<noteq> None \<or> up_AutoStop u \<noteq> None \<or> up_Branch u \<noteq> None \<or>
     up_StatusText u \<noteq> None \<or> up_StatusPublished u \<noteq> None \<or> up_Name u \<noteq> None"

definition bad_remote :: "InstanceUpdate \<Rightarrow> bool" where
  "bad_remote u \<longleftrightarrow> (\<exists>p. up_Remote u = Some p \<and> (rp_KeepCold p < 0 \<or> rp_KeepHot p < 0 \<or> rp_KeepSnapshots p < 0))"

lemma row_exists_update [simp]: "(\<And>r. in_ID (f r) = in_ID r) \<Longrightarrow> row_exists i (update_row j f d) = row_exists i d"
  by (auto simp: row_exists_def update_row_def list_ex_iff)

lemma name_in_use_update [simp]:
  "(\<And>r. in_ID (f r) = in_ID r) \<Longrightarrow> InstanceNameInUse name i (update_row i f d) = InstanceNameInUse name i d"
  by (auto simp: InstanceNameInUse_def update_row_def list_ex_iff)

lemma update_row_comp: "(\<And>r. in_ID (f r) = in_ID r) \<Longrightarrow> update_row i g (update_row i f d) = update_row i (\<lambda>r. g (f r)) d"
  by (simp add: update_row_def comp_def)

lemma update_row_id: "update_row i (\<lambda>r. r) d = d"
  by (simp add: update_row_def)

lemma update_row_missing: "\<not> row_exists i d \<Longrightarrow> update_row i f d = d"
proof -
  assume "\<not> row_exists i d"
  then have "map (\<lambda>r. if in_ID r = i then f r else r) (insts d) = insts d" by (intro map_idI) (auto simp: row_exists_def list_ex_iff)
  then show ?thesis by (simp add: update_row_def)
qed

lemma opt_write_exec: "foldR (\<lambda>w. w) (opt_write x f @ ws) d = rbind (case x of None \<Rightarrow> Inr d | Some v \<Rightarrow> f v d) (foldR (\<lambda>w. w) ws)"
  by (auto simp: opt_write_def rbind_def split: option.splits sum.splits)

text \<open>On an existing row each statement but the last two rewrites it; on a missing one each but the remote policy fails.\<close>

lemma opt_write_present:
  assumes "row_exists i d" and "\<And>v. f v = update_checked i (g v)" and "\<And>v r. x = Some v \<Longrightarrow> g v r = h r" and "x = None \<Longrightarrow> h = (\<lambda>r. r)"
  shows "foldR (\<lambda>w. w) (opt_write x f @ ws) d = foldR (\<lambda>w. w) ws (update_row i h d)"
proof (cases x)
  case None
  with assms(4) show ?thesis unfolding opt_write_exec by (simp add: update_row_id)
next
  case (Some v)
  then have "g v = h" using assms(3) by (intro ext) blast
  with Some assms(1,2) show ?thesis unfolding opt_write_exec by (simp add: update_checked_def row_exists_def)
qed

lemma opt_write_absent:
  assumes "\<not> row_exists i d" and "\<And>v. f v = update_checked i (g v)"
  shows "foldR (\<lambda>w. w) (opt_write x f @ ws) d = (if x = None then foldR (\<lambda>w. w) ws d else Inl ErrInstanceNotFound)"
  using assms unfolding opt_write_exec by (auto simp: update_checked_def row_exists_def split: option.splits)

lemma writes_absent:
  assumes "\<not> row_exists i d"
  shows "foldR (\<lambda>w. w) (writes u i) d = (if sets_checked u then Inl ErrInstanceNotFound else Inr d)"
proof -
  have r: "foldR (\<lambda>w. w) (opt_write x (updateRemotePolicy i) @ ws) d = foldR (\<lambda>w. w) ws d" for x ws
    using assms update_row_missing [OF assms] unfolding opt_write_exec by (auto simp: updateRemotePolicy_def row_exists_def split: option.splits)
  have n: "foldR (\<lambda>w. w) (opt_write x (renameInstance i)) d = (if x = None then Inr d else Inl ErrInstanceNotFound)" for x
    using assms by (auto simp: opt_write_def renameInstance_def row_exists_def split: option.splits)
  note step = opt_write_absent [OF assms]
  show ?thesis unfolding writes_def sets_checked_def
    by (simp add: step [OF updateInstanceLaunch_def] step [OF updateInstanceBackupPolicy_def] step [OF updateInstanceAutoStop_def]
        step [OF updateInstanceBranch_def] step [OF setInstanceStatusText_def] step [OF setInstanceStatusPublished_def] r n)
qed

lemma present_steps:
  assumes "row_exists i d"
  shows "foldR (\<lambda>w. w) (opt_write a (updateInstanceLaunch i) @ ws) d =
      foldR (\<lambda>w. w) ws (update_row i (\<lambda>r. r\<lparr>in_Launch := or_else (in_Launch r) a, in_RestartRequired := in_RestartRequired r \<or> a \<noteq> None\<rparr>) d)"
    and "foldR (\<lambda>w. w) (opt_write b (updateInstanceBackupPolicy i) @ ws) d =
      foldR (\<lambda>w. w) ws (update_row i (\<lambda>r. r\<lparr>in_Backup := or_else (in_Backup r) b\<rparr>) d)"
    and "foldR (\<lambda>w. w) (opt_write c (updateInstanceAutoStop i) @ ws) d =
      foldR (\<lambda>w. w) ws (update_row i (\<lambda>r. r\<lparr>in_AutoStopMinutes := or_else (in_AutoStopMinutes r) c\<rparr>) d)"
    and "foldR (\<lambda>w. w) (opt_write e (\<lambda>x. updateInstanceBranch i (br_Name x) (br_Password x)) @ ws) d =
      foldR (\<lambda>w. w) ws (update_row i (\<lambda>r. r\<lparr>in_Branch := or_else (in_Branch r) (map_option br_Name e),
        in_BranchPassword := or_else (in_BranchPassword r) (map_option (\<lambda>x. nullIfEmpty (br_Password x)) e)\<rparr>) d)"
    and "foldR (\<lambda>w. w) (opt_write f (setInstanceStatusText i) @ ws) d =
      foldR (\<lambda>w. w) ws (update_row i (\<lambda>r. r\<lparr>in_StatusText := or_else (in_StatusText r) f\<rparr>) d)"
    and "foldR (\<lambda>w. w) (opt_write g (setInstanceStatusPublished i) @ ws) d =
      foldR (\<lambda>w. w) ws (update_row i (\<lambda>r. r\<lparr>in_StatusPublished := or_else (in_StatusPublished r) g\<rparr>) d)"
  subgoal by (rule opt_write_present [OF assms updateInstanceLaunch_def]) (simp_all add: or_else_def fun_eq_iff)
  subgoal by (rule opt_write_present [OF assms updateInstanceBackupPolicy_def]) (simp_all add: or_else_def fun_eq_iff)
  subgoal by (rule opt_write_present [OF assms updateInstanceAutoStop_def]) (simp_all add: or_else_def fun_eq_iff)
  subgoal by (rule opt_write_present [OF assms updateInstanceBranch_def]) (simp_all add: or_else_def fun_eq_iff)
  subgoal by (rule opt_write_present [OF assms setInstanceStatusText_def]) (simp_all add: or_else_def fun_eq_iff)
  subgoal by (rule opt_write_present [OF assms setInstanceStatusPublished_def]) (simp_all add: or_else_def fun_eq_iff)
  done

lemma writes_present:
  assumes "row_exists i d"
  shows "foldR (\<lambda>w. w) (writes u i) d =
    (if bad_remote u then Inl ErrCheckConstraint
     else if (\<exists>name. up_Name u = Some name \<and> InstanceNameInUse name i d) then Inl ErrInstanceNameTaken
     else Inr (update_row i (edited u) d))"
proof -
  have rem: "foldR (\<lambda>w. w) (opt_write (up_Remote u) (updateRemotePolicy i) @ ws) d =
      (if bad_remote u then Inl ErrCheckConstraint
       else foldR (\<lambda>w. w) ws (update_row i (\<lambda>r. r\<lparr>in_Remote := or_else (in_Remote r) (up_Remote u)\<rparr>) d))" if "row_exists i d" for d ws
    using that unfolding opt_write_exec
    by (cases "up_Remote u") (auto simp: updateRemotePolicy_def row_exists_def bad_remote_def or_else_def update_row_id)
  have nam: "foldR (\<lambda>w. w) (opt_write (up_Name u) (renameInstance i)) d =
      (if (\<exists>name. up_Name u = Some name \<and> InstanceNameInUse name i d) then Inl ErrInstanceNameTaken
       else Inr (update_row i (\<lambda>r. r\<lparr>in_Name := or_else (in_Name r) (up_Name u)\<rparr>) d))" if "row_exists i d" for d
    using that by (cases "up_Name u") (auto simp: opt_write_def renameInstance_def row_exists_def or_else_def update_row_id)
  show ?thesis unfolding writes_def using assms
    by (auto simp: present_steps rem nam update_row_comp edited_def [abs_def])
qed

text \<open>An edit of an instance is all or nothing, and exactly what it says: it fails, changing nothing, when it
  names a missing row through a field whose statement checks for one, a negative remote count, or a name another
  instance has, in that order; otherwise the named row gets every field the edit sets and no other, owes a restart
  exactly when it already did or launch properties were set, every other row is untouched, and the audit
  entries are written in the same transaction.\<close>

lemma UpdateInstance_exact:
  "UpdateInstance username i u audits d =
     (if \<not> row_exists i d \<and> sets_checked u then Inl ErrInstanceNotFound
      else if row_exists i d \<and> bad_remote u then Inl ErrCheckConstraint
      else if row_exists i d \<and> (\<exists>name. up_Name u = Some name \<and> InstanceNameInUse name i d) then Inl ErrInstanceNameTaken
      else Inr (fold (writeAuditLog username) audits (d\<lparr>insts := map (\<lambda>r. if in_ID r = i then edited u r else r) (insts d)\<rparr>)))"
proof (cases "row_exists i d")
  case True
  then show ?thesis by (auto simp: UpdateInstance_def writes_present update_row_def)
next
  case False
  then show ?thesis using update_row_missing [OF False, of "edited u"] by (simp add: UpdateInstance_def writes_absent update_row_def)
qed

end
