(* ===== verification/Instance_Ports.thy ===== *)
theory Instance_Ports
  imports Instance_Store
begin

text \<open>
  The base-port allocator (\<open>internal/instance/ports.go\<close>) over the instances table, what an adoption checks of a port
  (\<open>internal/instance/adoption.go\<close>), and what holds of the table under any interleaving of the statements that change
  it: no two servers share an identity or, adoptions off the allocator's grid apart, a port, and nothing about a
  row's identity ever changes.
\<close>

subsection \<open>Allocation\<close>

record port_binding =
  pb_Proto :: string
  pb_HostPort :: int

record container_view =
  cv_Running :: bool
  cv_Ports :: "port_binding list"

datatype alloc_error = ErrPortsExhausted | ErrListContainers

definition maxPortScan :: nat where
  "maxPortScan = 1000"

text \<open>The engine is absent, fails, or lists the containers of the host.\<close>

type_synonym engine = "(unit + container_view list) option"

definition publishedPorts :: "engine \<Rightarrow> alloc_error + (int \<Rightarrow> bool)" where
  "publishedPorts rt =
     (case rt of
        None \<Rightarrow> Inr (\<lambda>_. False)
      | Some (Inl _) \<Rightarrow> Inl ErrListContainers
      | Some (Inr cs) \<Rightarrow>
          Inr (\<lambda>p. list_ex (\<lambda>c. cv_Running c \<and> list_ex (\<lambda>b. pb_Proto b = ''udp'' \<and> pb_HostPort b \<noteq> 0 \<and> pb_HostPort b = p) (cv_Ports c)) cs))"

text \<open>What binding a UDP port in one address family gives.\<close>

datatype listen_result = Listening | FamilyUnsupported | ListenFailed

fun freeOn :: "(string \<Rightarrow> int \<Rightarrow> listen_result) \<Rightarrow> string list \<Rightarrow> int \<Rightarrow> bool" where
  "freeOn listen [] port = True"
| "freeOn listen (network # ns) port =
     (case listen network port of
        FamilyUnsupported \<Rightarrow> freeOn listen ns port
      | ListenFailed \<Rightarrow> False
      | Listening \<Rightarrow> freeOn listen ns port)"

definition localFree :: "(string \<Rightarrow> int \<Rightarrow> listen_result) \<Rightarrow> int \<Rightarrow> bool" where
  "localFree listen port = freeOn listen [''udp4'', ''udp6''] port"

definition port_free :: "(string \<Rightarrow> int \<Rightarrow> listen_result) \<Rightarrow> (int \<Rightarrow> bool) \<Rightarrow> inst_db \<Rightarrow> int \<Rightarrow> bool" where
  "port_free listen published d port \<longleftrightarrow>
     \<not> (UsedBasePorts d port \<or> published port \<or> published (port + 1)) \<and> localFree listen port \<and> localFree listen (port + 1)"

definition Allocate ::
  "int \<Rightarrow> int \<Rightarrow> engine \<Rightarrow> (string \<Rightarrow> int \<Rightarrow> listen_result) \<Rightarrow> inst_db \<Rightarrow> alloc_error + int" where
  "Allocate base stride rt listen d =
     rbind (publishedPorts rt) (\<lambda>published.
       case find (port_free listen published d) (map (\<lambda>i. base + int i * stride) [0..<maxPortScan]) of
         Some port \<Rightarrow> Inr port
       | None \<Rightarrow> Inl ErrPortsExhausted)"

subsection \<open>Steps\<close>

definition on_grid :: "int \<Rightarrow> int \<Rightarrow> int \<Rightarrow> bool" where
  "on_grid base stride p \<longleftrightarrow> (\<exists>i :: nat. p = base + int i * stride)"

text \<open>What an adoption asks of the labels that name the instance; the port is whatever the container carries.\<close>

definition validAdoptionIdentityLabels :: "string \<Rightarrow> int \<Rightarrow> bool" where
  "validAdoptionIdentityLabels instanceID basePort \<longleftrightarrow>
     instanceID \<noteq> [] \<and> \<not> contains_str instanceID ''..'' \<and>
     CHR ''/'' \<notin> set instanceID \<and> CHR 0x5C \<notin> set instanceID \<and> 0 < basePort \<and> basePort \<le> 65534"

text \<open>Allocation and insertion are not one transaction: the port was free in some earlier state of the table.
  A step is labelled with the port an adoption brings.\<close>

inductive inst_step :: "int \<Rightarrow> int \<Rightarrow> int option \<Rightarrow> inst_db \<Rightarrow> inst_db \<Rightarrow> bool" for base stride where
  create: "Allocate base stride rt listen earlier = Inr p \<Longrightarrow> CreateInstance (n\<lparr>ni_BasePort := p\<rparr>) d = Inr d' \<Longrightarrow>
    inst_step base stride None d d'"
| clone: "Allocate base stride rt listen earlier = Inr p \<Longrightarrow> TxCreateCloneInstance src (n\<lparr>ni_BasePort := p\<rparr>) d = Inr d' \<Longrightarrow>
    inst_step base stride None d d'"
| adopt: "validAdoptionIdentityLabels (ai_ID a) (ai_BasePort a) \<Longrightarrow> TxAdoptInstance a d = Inr d' \<Longrightarrow>
    inst_step base stride (Some (ai_BasePort a)) d d'"
| edit: "UpdateInstance username i u audits d = Inr d' \<Longrightarrow> inst_step base stride None d d'"
| password: "ResetInstancePassword i p d = Inr d' \<Longrightarrow> inst_step base stride None d d'"
| container: "inst_step base stride None d (SetInstanceContainerID i c d)"
| started: "inst_step base stride None d (SetContainerStartedAt i t d)"
| build: "inst_step base stride None d (TxSetInstanceBuildID i b d)"
| passed: "inst_step base stride None d (TxMarkTestPassed i d)"
| state: "UpdateState i from to d = (moved, d') \<Longrightarrow> inst_step base stride None d d'"
| state_audited: "UpdateStateAudited username i from to audit d = (moved, d') \<Longrightarrow> inst_step base stride None d d'"
| provisioned: "FinishProvisioning i from to c b d = Inr d' \<Longrightarrow> inst_step base stride None d d'"
| finished: "FinishStart i from to d = Inr d' \<Longrightarrow> inst_step base stride None d d'"
| deleted: "DeleteInstance i from d = Inr d' \<Longrightarrow> inst_step base stride None d d'"

definition empty_insts :: inst_db where
  "empty_insts = \<lparr>insts = [], audit_log = []\<rparr>"

text \<open>A history of the table under one port configuration, with the ports its adoptions brought.\<close>

inductive inst_run :: "int \<Rightarrow> int \<Rightarrow> int set \<Rightarrow> inst_db \<Rightarrow> bool" for base stride where
  start: "inst_run base stride {} empty_insts"
| step: "inst_run base stride adopted d \<Longrightarrow> inst_step base stride l d d' \<Longrightarrow>
    inst_run base stride (adopted \<union> set_option l) d'"

subsection \<open>What an allocation promises\<close>

lemma find_nth:
  "find P (map f [0..<n]) = Some x \<longleftrightarrow> (\<exists>i < n. x = f i \<and> P x \<and> (\<forall>j < i. \<not> P (f j)))"
  by (auto simp: find_Some_iff)

lemma Allocate_grid: "Allocate base stride rt listen d = Inr p \<Longrightarrow> on_grid base stride p"
  by (auto simp: Allocate_def rbind_eq_Inr find_nth on_grid_def split: option.splits)

subsection \<open>Identity\<close>

definition identity :: "instance_row \<Rightarrow> string \<times> int \<times> string \<times> string \<times> string" where
  "identity r = (in_ID r, in_BasePort r, in_CrossplayID r, in_DataDir r, in_WorldName r)"

definition insts_ok :: "int \<Rightarrow> int \<Rightarrow> int set \<Rightarrow> inst_db \<Rightarrow> bool" where
  "insts_ok base stride adopted d \<longleftrightarrow>
     distinct (map in_ID (insts d)) \<and> distinct (map in_Name (insts d)) \<and> distinct (map in_BasePort (insts d)) \<and>
     distinct (map in_CrossplayID (insts d)) \<and>
     (\<forall>r \<in> set (insts d). on_grid base stride (in_BasePort r) \<or> in_BasePort r \<in> adopted)"

text \<open>Three ways to change the table: append a row that clashes with none, rewrite rows in place, drop one.\<close>

definition appended :: "inst_db \<Rightarrow> instance_row \<Rightarrow> inst_db \<Rightarrow> bool" where
  "appended d n d' \<longleftrightarrow> insts d' = insts d @ [n] \<and> \<not> clashes n d"

definition rewritten :: "inst_db \<Rightarrow> inst_db \<Rightarrow> bool" where
  "rewritten d d' \<longleftrightarrow> map identity (insts d') = map identity (insts d) \<and> (distinct (map in_Name (insts d)) \<longrightarrow> distinct (map in_Name (insts d')))"

lemma rewritten_refl [simp]: "rewritten d d"
  by (simp add: rewritten_def)

lemma rewritten_trans: "rewritten a b \<Longrightarrow> rewritten b c \<Longrightarrow> rewritten a c"
  by (simp add: rewritten_def)

lemma rewritten_map:
  assumes "insts d' = map f (insts d)" and "\<And>r. identity (f r) = identity r" and "\<And>r. in_Name (f r) = in_Name r"
  shows "rewritten d d'"
  using assms by (simp add: rewritten_def comp_def)

lemma rewritten_update_row:
  assumes "\<And>r. identity (f r) = identity r" and "\<And>r. in_Name (f r) = in_Name r"
  shows "rewritten d (update_row i f d)"
  using assms by (intro rewritten_map [where f = "\<lambda>r. if in_ID r = i then f r else r"]) (simp_all add: update_row_def)

lemma rewritten_update_checked:
  assumes "update_checked i f d = Inr d'" and "\<And>r. identity (f r) = identity r" and "\<And>r. in_Name (f r) = in_Name r"
  shows "rewritten d d'"
  using assms rewritten_update_row by (auto simp: update_checked_def split: if_splits)

lemma rewritten_update_if:
  assumes "\<And>r. identity (f r) = identity r" and "\<And>r. in_Name (f r) = in_Name r"
  shows "rewritten d (snd (update_if i from f d))"
  using assms by (intro rewritten_map [where f = "\<lambda>r. if in_ID r = i \<and> in_State r = from then f r else r"]) (simp_all add: update_if_def)

lemma rewritten_rename:
  assumes r: "renameInstance i name d = Inr d'" and ids: "distinct (map in_ID (insts d))"
  shows "rewritten d d'"
proof -
  from r have free: "\<And>r. r \<in> set (insts d) \<Longrightarrow> in_ID r \<noteq> i \<Longrightarrow> in_Name r \<noteq> name"
    and d': "d' = update_row i (\<lambda>r. r\<lparr>in_Name := name\<rparr>) d"
    by (auto simp: renameInstance_def InstanceNameInUse_def list_ex_iff split: if_splits)
  have "distinct (map in_Name (map (\<lambda>r. if in_ID r = i then r\<lparr>in_Name := name\<rparr> else r) rs))"
    if "distinct (map in_Name rs)" "distinct (map in_ID rs)" "set rs \<subseteq> set (insts d)" for rs
    using that
  proof (induction rs)
    case (Cons r rs)
    let ?f = "\<lambda>r. if in_ID r = i then r\<lparr>in_Name := name\<rparr> else r"
    have ne: "in_Name (?f r) \<noteq> in_Name (?f x)" if "x \<in> set rs" for x
      using that Cons.prems free [of x] free [of r] by (auto simp: image_iff)
    have "in_Name (?f r) \<notin> in_Name ` ?f ` set rs"
    proof
      assume "in_Name (?f r) \<in> in_Name ` ?f ` set rs"
      then obtain x where "x \<in> set rs" "in_Name (?f r) = in_Name (?f x)" by blast
      with ne show False by blast
    qed
    moreover have "distinct (map in_Name (map ?f rs))" using Cons by simp
    ultimately show ?case unfolding list.map distinct.simps set_map by blast
  qed simp
  with ids have "distinct (map in_Name (insts d)) \<longrightarrow> distinct (map in_Name (insts d'))" by (simp add: d' update_row_def)
  moreover have "map identity (insts d') = map identity (insts d)" by (simp add: d' update_row_def identity_def comp_def cong: if_cong)
  ultimately show ?thesis by (simp add: rewritten_def)
qed

lemma rewritten_same_ids: "rewritten d d' \<Longrightarrow> map in_ID (insts d') = map in_ID (insts d)"
proof -
  assume "rewritten d d'"
  then have "map fst (map identity (insts d')) = map fst (map identity (insts d))" by (simp add: rewritten_def)
  then show ?thesis by (simp add: identity_def comp_def)
qed


lemma rewritten_write:
  assumes "w \<in> set (writes u i)" "w d = Inr d'" "distinct (map in_ID (insts d))"
  shows "rewritten d d'"
proof -
  have c: "update_checked i f d = Inr d' \<Longrightarrow> (\<And>r. identity (f r) = identity r) \<Longrightarrow> (\<And>r. in_Name (f r) = in_Name r) \<Longrightarrow> rewritten d d'" for f
    using rewritten_update_checked by blast
  have id: "identity (r\<lparr>in_Launch := a, in_RestartRequired := b\<rparr>) = identity r" "identity (r\<lparr>in_Backup := p\<rparr>) = identity r"
    "identity (r\<lparr>in_AutoStopMinutes := m\<rparr>) = identity r" "identity (r\<lparr>in_Branch := x, in_BranchPassword := y\<rparr>) = identity r"
    "identity (r\<lparr>in_Remote := q\<rparr>) = identity r" "identity (r\<lparr>in_StatusText := t\<rparr>) = identity r" "identity (r\<lparr>in_StatusPublished := b\<rparr>) = identity r"
    for r a b p m x y q t by (simp_all add: identity_def)
  from assms(1) consider l where "w = updateInstanceLaunch i l" | p where "w = updateInstanceBackupPolicy i p"
    | m where "w = updateInstanceAutoStop i m" | x y where "w = updateInstanceBranch i x y"
    | r where "w = updateRemotePolicy i r" | t where "w = setInstanceStatusText i t" | b where "w = setInstanceStatusPublished i b"
    | n where "w = renameInstance i n"
    by (auto simp: writes_def opt_write_def split: option.splits)
  then show ?thesis
  proof cases
    case (5 r)
    with assms(2) have "d' = update_row i (\<lambda>x. x\<lparr>in_Remote := r\<rparr>) d" by (simp add: updateRemotePolicy_def split: if_splits)
    then show ?thesis by (simp add: rewritten_update_row id)
  next
    case (8 n)
    with assms(2,3) show ?thesis by (auto intro: rewritten_rename)
  qed (use assms(2) id in \<open>auto simp: updateInstanceLaunch_def updateInstanceBackupPolicy_def updateInstanceAutoStop_def
        updateInstanceBranch_def setInstanceStatusText_def setInstanceStatusPublished_def intro: c\<close>)
qed

lemma audit_insts [simp]: "insts (writeAuditLog un e d) = insts d" "insts (fold (writeAuditLog un) es d) = insts d"
proof -
  show w: "insts (writeAuditLog un e d) = insts d" for e d by (simp add: writeAuditLog_def)
  show "insts (fold (writeAuditLog un) es d) = insts d" by (induction es arbitrary: d) (simp_all add: w)
qed

lemma rewritten_edit:
  assumes u: "UpdateInstance un i u audits d = Inr d'" and ids: "distinct (map in_ID (insts d))"
  shows "rewritten d d'"
proof -
  have "rewritten d d1" if "foldR (\<lambda>w. w) ws d = Inr d1" "set ws \<subseteq> set (writes u i)" "distinct (map in_ID (insts d))" for ws d d1
    using that
  proof (induction ws arbitrary: d)
    case (Cons w ws)
    from Cons.prems(1) obtain d2 where d2: "w d = Inr d2" "foldR (\<lambda>w. w) ws d2 = Inr d1" by (auto split: sum.splits)
    have r: "rewritten d d2" using rewritten_write d2(1) Cons.prems by auto
    then have "distinct (map in_ID (insts d2))" using rewritten_same_ids Cons.prems(3) by metis
    with Cons.IH [OF d2(2)] Cons.prems(2) r show ?case by (auto intro: rewritten_trans)
  qed simp
  moreover from u obtain d1 where "foldR (\<lambda>w. w) (writes u i) d = Inr d1" "insts d' = insts d1" by (auto simp: UpdateInstance_def rbind_eq_Inr)
  ultimately show ?thesis using ids by (simp add: rewritten_def)
qed

definition dropped :: "inst_db \<Rightarrow> inst_db \<Rightarrow> bool" where
  "dropped d d' \<longleftrightarrow> (\<exists>P. map identity (insts d') = map identity (filter P (insts d)) \<and> map in_Name (insts d') = map in_Name (filter P (insts d)))"

lemma insert_appended: "insert_instance n d = Inr d' \<Longrightarrow> appended d n d'"
  by (auto simp: insert_instance_def appended_def split: if_splits)

text \<open>Every step is one of the three.\<close>

lemma inst_step_forms:
  assumes "inst_step base stride l d d'" and ids: "distinct (map in_ID (insts d))"
  shows "(\<exists>n. appended d n d' \<and> (on_grid base stride (in_BasePort n) \<or> l = Some (in_BasePort n))) \<or>
    rewritten d d' \<or> dropped d d'"
  using assms(1)
proof cases
  case (create rt listen earlier p n)
  from insert_appended [OF create(3) [unfolded CreateInstance_def]] Allocate_grid [OF create(2)] show ?thesis by (auto simp: new_row_def)
next
  case (clone rt listen earlier p src n)
  from clone(3) obtain s where "insert_instance (clone_row (n\<lparr>ni_BasePort := p\<rparr>) s) d = Inr d'"
    by (auto simp: TxCreateCloneInstance_def split: option.splits if_splits)
  from insert_appended [OF this] Allocate_grid [OF clone(2)] show ?thesis by (auto simp: clone_row_def Let_def)
next
  case (adopt a)
  then have "appended d (adopted_row a) d'" by (auto simp: TxAdoptInstance_def appended_def split: if_splits)
  moreover have "l = Some (in_BasePort (adopted_row a))" using adopt(1) by (simp add: adopted_row_def)
  ultimately show ?thesis by blast
next
  case (edit un i u audits)
  from rewritten_edit [OF edit(2) ids] show ?thesis by blast
next
  case (password i p)
  from password(2) have "rewritten d d'" unfolding ResetInstancePassword_def by (rule rewritten_update_checked) (simp_all add: identity_def)
  then show ?thesis by blast
next
  case (container i c)
  then show ?thesis by (auto simp: SetInstanceContainerID_def identity_def intro!: rewritten_update_row)
next
  case (started i t)
  then show ?thesis by (auto simp: SetContainerStartedAt_def identity_def intro!: rewritten_update_row)
next
  case (build i b)
  then show ?thesis by (auto simp: TxSetInstanceBuildID_def identity_def intro!: rewritten_update_row)
next
  case (passed i)
  then show ?thesis by (auto simp: TxMarkTestPassed_def identity_def intro!: rewritten_update_row)
next
  case (state i s t moved)
  have "rewritten d (snd (UpdateState i s t d))" unfolding UpdateState_def by (rule rewritten_update_if) (simp_all add: identity_def)
  with state show ?thesis by simp
next
  case (state_audited un i s t audit moved)
  have "rewritten d (snd (UpdateState i s t d))" unfolding UpdateState_def by (rule rewritten_update_if) (simp_all add: identity_def)
  moreover have "insts d' = insts (snd (UpdateState i s t d))" using state_audited by (auto simp: UpdateStateAudited_def split: prod.splits if_splits)
  ultimately show ?thesis by (simp add: rewritten_def)
next
  case (provisioned i s t c b)
  then have "d' = snd (update_if i s (\<lambda>r. r\<lparr>in_State := t, in_ContainerID := Some c, in_BuildID := Some b\<rparr>) d)"
    by (simp add: FinishProvisioning_def require_def split: if_splits)
  then show ?thesis by (simp add: rewritten_update_if identity_def)
next
  case (finished i s t)
  then have "d' = snd (update_if i s (\<lambda>r. r\<lparr>in_State := t, in_RestartRequired := False, in_PendingRestart := False\<rparr>) d)"
    by (simp add: FinishStart_def require_def split: if_splits)
  then show ?thesis by (simp add: rewritten_update_if identity_def)
next
  case (deleted i s)
  let ?P = "\<lambda>r. \<not> (in_ID r = i \<and> in_State r = s)" and ?f = "\<lambda>r. if in_TestOf r = Some i then r\<lparr>in_TestOf := None\<rparr> else r"
  from deleted have "insts d' = map ?f (filter ?P (insts d))" by (auto simp: DeleteInstance_def require_def split: if_splits)
  then have "map identity (insts d') = map identity (filter ?P (insts d))" "map in_Name (insts d') = map in_Name (filter ?P (insts d))"
    by (simp_all add: identity_def comp_def cong: if_cong)
  then show ?thesis unfolding dropped_def by blast
qed

lemma identity_columns:
  assumes "map identity xs = map identity ys"
  shows "map in_ID xs = map in_ID ys" "map in_BasePort xs = map in_BasePort ys" "map in_CrossplayID xs = map in_CrossplayID ys"
proof -
  have "map (f \<circ> identity) xs = map (f \<circ> identity) ys" for f :: "_ \<Rightarrow> 'a" by (metis assms map_map)
  from this [of fst] this [of "\<lambda>p. fst (snd p)"] this [of "\<lambda>p. fst (snd (snd p))"]
  show "map in_ID xs = map in_ID ys" "map in_BasePort xs = map in_BasePort ys" "map in_CrossplayID xs = map in_CrossplayID ys"
    by (simp_all add: identity_def comp_def)
qed

lemma insts_ok_step:
  assumes st: "inst_step base stride l d d'" and ok: "insts_ok base stride A d"
  shows "insts_ok base stride (A \<union> set_option l) d'"
proof -
  have old: "distinct (map in_ID (insts d))" "distinct (map in_Name (insts d))" "distinct (map in_BasePort (insts d))"
    "distinct (map in_CrossplayID (insts d))" "\<And>p. p \<in> set (map in_BasePort (insts d)) \<Longrightarrow> on_grid base stride p \<or> p \<in> A"
    using ok by (auto simp: insts_ok_def)
  from inst_step_forms [OF st old(1)] consider
    n where "appended d n d'" "on_grid base stride (in_BasePort n) \<or> l = Some (in_BasePort n)" | "rewritten d d'" | "dropped d d'" by blast
  then show ?thesis
  proof cases
    case 1
    then show ?thesis using ok by (auto simp: insts_ok_def appended_def clashes_def list_ex_iff)
  next
    case 2
    then have e: "map identity (insts d') = map identity (insts d)" and n: "distinct (map in_Name (insts d'))"
      using old(2) by (simp_all add: rewritten_def)
    have "on_grid base stride p \<or> p \<in> A" if "p \<in> set (map in_BasePort (insts d'))" for p
      using that old(5) unfolding identity_columns(2) [OF e] by blast
    then have "\<forall>r \<in> set (insts d'). on_grid base stride (in_BasePort r) \<or> in_BasePort r \<in> A \<union> set_option l"
      unfolding set_map by blast
    then show ?thesis using old n unfolding insts_ok_def identity_columns [OF e] by simp
  next
    case 3
    then obtain P where e: "map identity (insts d') = map identity (filter P (insts d))"
      and n: "map in_Name (insts d') = map in_Name (filter P (insts d))" unfolding dropped_def by blast
    have "on_grid base stride p \<or> p \<in> A" if "p \<in> set (map in_BasePort (insts d'))" for p
      using that old(5) unfolding identity_columns(2) [OF e] by auto
    then have "\<forall>r \<in> set (insts d'). on_grid base stride (in_BasePort r) \<or> in_BasePort r \<in> A \<union> set_option l"
      unfolding set_map by blast
    then show ?thesis using old n unfolding insts_ok_def identity_columns [OF e] n by (simp add: distinct_map_filter)
  qed
qed

lemma reachable_insts_ok: "inst_run base stride A d \<Longrightarrow> insts_ok base stride A d"
  by (induction rule: inst_run.induct) (simp add: insts_ok_def empty_insts_def, rule insts_ok_step)

lemma inst_step_identity:
  assumes st: "inst_step base stride l d d'" and ids: "distinct (map in_ID (insts d))"
    and r: "r \<in> set (insts d)" "r' \<in> set (insts d')" "in_ID r' = in_ID r"
  shows "identity r' = identity r"
proof -
  have kept: "identity r' = identity r" if "s \<in> set (insts d)" "identity r' = identity s" for s
  proof -
    have "in_ID s = in_ID r" using that(2) r(3) by (simp add: identity_def)
    then have "s = r" using ids r(1) that(1) by (meson distinct_map inj_onD)
    with that(2) show ?thesis by simp
  qed
  from inst_step_forms [OF st ids] consider n where "appended d n d'" | "rewritten d d'" | "dropped d d'" by blast
  then show ?thesis
  proof cases
    case 1
    then show ?thesis using r kept by (auto simp: appended_def clashes_def list_ex_iff)
  next
    case 2
    then have "set (map identity (insts d')) = set (map identity (insts d))" by (simp add: rewritten_def)
    then show ?thesis using r(2) kept by (metis imageE imageI list.set_map)
  next
    case 3
    then obtain P where "set (map identity (insts d')) = set (map identity (filter P (insts d)))" unfolding dropped_def by metis
    then have "identity r' \<in> identity ` {x \<in> set (insts d). P x}" using r(2) by (metis imageI list.set_map set_filter)
    then show ?thesis using kept by blast
  qed
qed

lemma grid_apart:
  assumes "on_grid base stride p" "on_grid base stride q" "p \<noteq> q" "2 \<le> stride"
  shows "{p, p + 1} \<inter> {q, q + 1} = {}"
proof -
  obtain i j :: nat where i: "p = base + int i * stride" and j: "q = base + int j * stride" using assms(1,2) by (auto simp: on_grid_def)
  have "2 \<le> \<bar>p - q\<bar>"
  proof -
    have "p - q = (int i - int j) * stride" by (simp add: i j algebra_simps)
    moreover have "1 \<le> \<bar>int i - int j\<bar>" using assms(3) i j by auto
    then have "1 * 2 \<le> \<bar>int i - int j\<bar> * stride" using assms(4) by (intro mult_mono) auto
    ultimately show ?thesis using assms(4) by (simp add: abs_mult)
  qed
  then show ?thesis by auto
qed

text \<open>C13. However creations, clones, adoptions, edits, state changes and deletions interleave under one port
  configuration of stride at least two: no two rows share their key, their name, their base port or their
  crossplay identity; every base port is one the allocator gave or an adopted container brought; and two
  different rows share no UDP port -- although a port is allocated before, and not in, the transaction that
  inserts the row -- unless one of them was adopted with a port off the allocator's grid (then the allocator
  may give its second port away, as \<open>reserved_port_given_away\<close> shows). No statement changes the port, the
  crossplay identity, the data directory or the world of a row that stays.\<close>

theorem instances_never_share_ports:
  assumes "inst_run base stride adopted d" and "2 \<le> stride"
  shows "distinct (map in_ID (insts d)) \<and> distinct (map in_Name (insts d)) \<and> distinct (map in_BasePort (insts d)) \<and>
    distinct (map in_CrossplayID (insts d)) \<and>
    (\<forall>r \<in> set (insts d). on_grid base stride (in_BasePort r) \<or> in_BasePort r \<in> adopted) \<and>
    (\<forall>r \<in> set (insts d). \<forall>s \<in> set (insts d). r \<noteq> s \<longrightarrow>
       {in_BasePort r, in_BasePort r + 1} \<inter> {in_BasePort s, in_BasePort s + 1} = {} \<or>
       (\<exists>x \<in> {r, s}. in_BasePort x \<in> adopted \<and> \<not> on_grid base stride (in_BasePort x))) \<and>
    (\<forall>l d' r r'. inst_step base stride l d d' \<and> r \<in> set (insts d) \<and> r' \<in> set (insts d') \<and> in_ID r' = in_ID r \<longrightarrow>
       in_BasePort r' = in_BasePort r \<and> in_CrossplayID r' = in_CrossplayID r \<and> in_DataDir r' = in_DataDir r \<and>
       in_WorldName r' = in_WorldName r)"
proof -
  have ok: "insts_ok base stride adopted d" by (rule reachable_insts_ok [OF assms(1)])
  have "{in_BasePort r, in_BasePort r + 1} \<inter> {in_BasePort s, in_BasePort s + 1} = {} \<or>
      (\<exists>x \<in> {r, s}. in_BasePort x \<in> adopted \<and> \<not> on_grid base stride (in_BasePort x))"
    if r: "r \<in> set (insts d)" "s \<in> set (insts d)" "r \<noteq> s" for r s
  proof (cases "on_grid base stride (in_BasePort r) \<and> on_grid base stride (in_BasePort s)")
    case True
    have "inj_on in_BasePort (set (insts d))" using ok by (simp add: insts_ok_def distinct_map)
    then have "in_BasePort r \<noteq> in_BasePort s" using r by (meson inj_onD)
    with grid_apart [OF _ _ _ assms(2)] True show ?thesis by blast
  next
    case False
    with ok r show ?thesis unfolding insts_ok_def by blast
  qed
  moreover have "in_BasePort r' = in_BasePort r \<and> in_CrossplayID r' = in_CrossplayID r \<and> in_DataDir r' = in_DataDir r \<and>
      in_WorldName r' = in_WorldName r"
    if "inst_step base stride l d d'" "r \<in> set (insts d)" "r' \<in> set (insts d')" "in_ID r' = in_ID r" for l d' r r'
    using inst_step_identity [OF that(1) _ that(2-4)] ok by (simp add: insts_ok_def identity_def)
  ultimately show ?thesis using ok unfolding insts_ok_def by blast
qed

text \<open>An allocation gives the first port of the grid whose pair is free: among the first thousand, it is the
  lowest that no row reserves, that no running container publishes alone or with its successor over UDP, and that can
  be bound with its successor; it fails only when the engine cannot list its containers or none of the thousand is free.\<close>

lemma Allocate_first_free:
  "Allocate base stride rt listen d =
     (case publishedPorts rt of
        Inl e \<Rightarrow> Inl e
      | Inr published \<Rightarrow>
          if \<exists>i < 1000. port_free listen published d (base + int i * stride)
          then Inr (base + int (LEAST i. port_free listen published d (base + int i * stride)) * stride)
          else Inl ErrPortsExhausted)"
proof (cases "publishedPorts rt")
  case (Inl e)
  then show ?thesis by (simp add: Allocate_def)
next
  case (Inr published)
  let ?P = "\<lambda>i. port_free listen published d (base + int i * stride)"
  show ?thesis
  proof (cases "\<exists>i < 1000. ?P i")
    case True
    then obtain i where i: "i < 1000" "?P i" by blast
    have "?P (LEAST i. ?P i)" "(LEAST i. ?P i) < 1000" using LeastI [of ?P i] Least_le [of ?P i] i by auto
    moreover have "\<not> ?P j" if "j < (LEAST i. ?P i)" for j using that by (rule not_less_Least)
    ultimately have "find (port_free listen published d) (map (\<lambda>i. base + int i * stride) [0..<maxPortScan])
        = Some (base + int (LEAST i. ?P i) * stride)"
      unfolding find_nth by (intro exI [of _ "LEAST i. ?P i"]) (simp add: maxPortScan_def)
    with True Inr show ?thesis by (simp add: Allocate_def)
  next
    case False
    then have "find (port_free listen published d) (map (\<lambda>i. base + int i * stride) [0..<maxPortScan]) = None"
      by (auto simp: find_None_iff maxPortScan_def)
    with False Inr show ?thesis by (simp add: Allocate_def)
  qed
qed

subsection \<open>The lifecycle's view of the table\<close>

definition row_view :: "instance_row \<Rightarrow> inst_row" where
  "row_view r = \<lparr>row_state = in_State r, container_id = in_ContainerID r, game_build_id = in_BuildID r,
     restart_required = in_RestartRequired r, pending_restart = in_PendingRestart r, container_started_at = in_StartedAt r\<rparr>"

definition lifecycle_view :: "inst_db \<Rightarrow> inst_table" where
  "lifecycle_view d = (\<lambda>i. map_option row_view (InstanceByID i d))"

lemma find_map_ids: "(\<And>r. in_ID (h r) = in_ID r) \<Longrightarrow> find (\<lambda>r. in_ID r = j) (map h rs) = map_option h (find (\<lambda>r. in_ID r = j) rs)"
  by (induction rs) auto

lemma find_drop: "find (\<lambda>x. in_ID x = j) (filter (\<lambda>x. in_ID x \<noteq> i) xs) = (if j = i then None else find (\<lambda>x. in_ID x = j) xs)"
  by (induction xs) auto

lemma find_ID: "distinct (map in_ID rs) \<Longrightarrow> find (\<lambda>r. in_ID r = i) rs = Some r \<longleftrightarrow> r \<in> set rs \<and> in_ID r = i"
  by (induction rs) auto

lemma InstanceByID_unique:
  "distinct (map in_ID (insts d)) \<Longrightarrow> InstanceByID i d = Some r \<longleftrightarrow> r \<in> set (insts d) \<and> in_ID r = i"
  unfolding InstanceByID_def by (rule find_ID)

lemma in_state_view:
  assumes "distinct (map in_ID (insts d))"
  shows "in_state i s d \<longleftrightarrow> state_of (lifecycle_view d) i = Some s"
proof -
  have "in_state i s d \<longleftrightarrow> (\<exists>r. InstanceByID i d = Some r \<and> in_State r = s)"
    by (auto simp: in_state_def list_ex_iff InstanceByID_unique [OF assms])
  then show ?thesis by (auto simp: state_of_def lifecycle_view_def row_view_def)
qed

lemma view_update_if:
  assumes ids: "distinct (map in_ID (insts d))" and f: "\<And>r. in_ID (f r) = in_ID r" "\<And>r. row_view (f r) = g (row_view r)"
  shows "update_where_state i s g (lifecycle_view d) = (fst (update_if i s f d), lifecycle_view (snd (update_if i s f d)))"
proof -
  let ?h = "\<lambda>r. if in_ID r = i \<and> in_State r = s then f r else r"
  have v: "lifecycle_view (snd (update_if i s f d)) j = map_option (row_view \<circ> ?h) (InstanceByID j d)" for j
    using f(1) by (simp add: lifecycle_view_def update_if_def InstanceByID_def find_map_ids option.map_comp)
  have id: "InstanceByID j d = Some r \<Longrightarrow> in_ID r = j" for j r by (simp add: InstanceByID_unique [OF ids])
  have st: "in_state i s d \<longleftrightarrow> (\<exists>r. InstanceByID i d = Some r \<and> in_State r = s)"
    using in_state_view [OF ids, of i s] by (auto simp: state_of_def lifecycle_view_def row_view_def)
  have "update_where_state i s g (lifecycle_view d) = (in_state i s d, \<lambda>j. map_option (row_view \<circ> ?h) (InstanceByID j d))"
  proof (cases "InstanceByID i d")
    case None
    have "map_option (row_view \<circ> ?h) (InstanceByID j d) = map_option row_view (InstanceByID j d)" for j
      using None id [of j] by (cases "InstanceByID j d") auto
    with None st show ?thesis by (simp add: update_where_state_def lifecycle_view_def)
  next
    case (Some r)
    have "map_option (row_view \<circ> ?h) (InstanceByID j d) =
        (if in_State r = s then (lifecycle_view d)(i \<mapsto> g (row_view r)) else lifecycle_view d) j" for j
    proof (cases "j = i")
      case True
      have "in_ID r = i" by (rule id [OF Some])
      with True Some show ?thesis by (simp add: lifecycle_view_def f(2))
    next
      case False
      then show ?thesis using id [of j] by (cases "InstanceByID j d") (simp_all add: lifecycle_view_def)
    qed
    moreover have "row_state (row_view r) = in_State r" by (simp add: row_view_def)
    ultimately show ?thesis using Some st by (auto simp: update_where_state_def lifecycle_view_def)
  qed
  moreover have "lifecycle_view (snd (update_if i s f d)) = (\<lambda>j. map_option (row_view \<circ> ?h) (InstanceByID j d))" by (rule ext) (rule v)
  ultimately show ?thesis by (simp add: update_if_def)
qed

text \<open>The statements on the full rows implement the guarded writes the lifecycle is proved about: in every
  reachable table, moving a state, finishing a start, finishing a provisioning and deleting succeed exactly when the
  lifecycle's writes do on the reduced table, and lead to the same reduced table.\<close>

lemma state_writes_refined:
  assumes "inst_run base stride adopted d"
  shows "UpdateInstanceState i from to (lifecycle_view d) = (fst (UpdateState i from to d), lifecycle_view (snd (UpdateState i from to d))) \<and>
    TxFinishStart i from to (lifecycle_view d) =
      (case FinishStart i from to d of Inl _ \<Rightarrow> Inl (NotInState from) | Inr d' \<Rightarrow> Inr (lifecycle_view d')) \<and>
    TxFinishProvisioning i from to c b (lifecycle_view d) =
      (case FinishProvisioning i from to c b d of Inl _ \<Rightarrow> Inl (NotInState from) | Inr d' \<Rightarrow> Inr (lifecycle_view d')) \<and>
    TxDeleteInstance i from (lifecycle_view d) =
      (case DeleteInstance i from d of Inl _ \<Rightarrow> Inl (NotInState from) | Inr d' \<Rightarrow> Inr (lifecycle_view d'))"
proof -
  have ids: "distinct (map in_ID (insts d))" using reachable_insts_ok [OF assms] by (simp add: insts_ok_def)
  note u = view_update_if [OF ids]
  have "TxDeleteInstance i from (lifecycle_view d) =
      (case DeleteInstance i from d of Inl _ \<Rightarrow> Inl (NotInState from) | Inr d' \<Rightarrow> Inr (lifecycle_view d'))"
  proof (cases "in_state i from d")
    case False
    then show ?thesis using in_state_view [OF ids] by (simp add: TxDeleteInstance_def DeleteInstance_def require_def)
  next
    case True
    then obtain r where r: "r \<in> set (insts d)" "in_ID r = i" "in_State r = from" by (auto simp: in_state_def list_ex_iff)
    let ?P = "\<lambda>x. \<not> (in_ID x = i \<and> in_State x = from)" and ?h = "\<lambda>x. if in_TestOf x = Some i then x\<lparr>in_TestOf := None\<rparr> else x"
    define d' where "d' = d\<lparr>insts := map ?h (filter ?P (insts d))\<rparr>"
    have only: "x = r" if "x \<in> set (insts d)" "in_ID x = i" for x using ids r that by (meson distinct_map inj_onD)
    have "filter ?P (insts d) = filter (\<lambda>x. in_ID x \<noteq> i) (insts d)" by (rule filter_cong) (use only r(3) in blast)+
    moreover have "row_view (?h x) = row_view x" for x by (simp add: row_view_def)
    ultimately have v: "lifecycle_view d' j = (if j = i then None else lifecycle_view d j)" for j
      unfolding lifecycle_view_def d'_def InstanceByID_def by (simp add: find_map_ids option.map_comp comp_def find_drop)
    have "lifecycle_view d' = (lifecycle_view d)(i := None)" by (rule ext) (simp add: v)
    with True show ?thesis using in_state_view [OF ids, of i "from"]
      by (simp add: TxDeleteInstance_def DeleteInstance_def require_def d'_def)
  qed
  moreover have "UpdateInstanceState i from to (lifecycle_view d) = (fst (UpdateState i from to d), lifecycle_view (snd (UpdateState i from to d)))"
    unfolding UpdateInstanceState_def UpdateState_def by (rule u) (simp_all add: row_view_def)
  moreover have "TxFinishStart i from to (lifecycle_view d) =
      (case FinishStart i from to d of Inl _ \<Rightarrow> Inl (NotInState from) | Inr d' \<Rightarrow> Inr (lifecycle_view d'))"
    unfolding TxFinishStart_def FinishStart_def
    by (subst u [where f = "\<lambda>r. r\<lparr>in_State := to, in_RestartRequired := False, in_PendingRestart := False\<rparr>"])
      (simp_all add: row_view_def require_def)
  moreover have "TxFinishProvisioning i from to c b (lifecycle_view d) =
      (case FinishProvisioning i from to c b d of Inl _ \<Rightarrow> Inl (NotInState from) | Inr d' \<Rightarrow> Inr (lifecycle_view d'))"
    unfolding TxFinishProvisioning_def FinishProvisioning_def
    by (subst u [where f = "\<lambda>r. r\<lparr>in_State := to, in_ContainerID := Some c, in_BuildID := Some b\<rparr>"])
      (simp_all add: row_view_def require_def)
  ultimately show ?thesis by blast
qed

subsection \<open>An example\<close>

definition ex_new :: "string \<Rightarrow> NewInstance" where
  "ex_new i = \<lparr>ni_ID = i, ni_Name = i, ni_DataDir = i, ni_BasePort = 0, ni_ServerName = ''s'', ni_WorldName = ''w'', ni_Password = ''p'',
     ni_Public = False, ni_Crossplay = False, ni_CrossplayID = i, ni_Preset = [], ni_Modifiers = [], ni_ExtraArgs = [],
     ni_MemLimitMB = 4096, ni_CPULimit = None, ni_Branch = [], ni_BranchPassword = [], ni_UpdateTest = False\<rparr>"

definition all_free :: "string \<Rightarrow> int \<Rightarrow> listen_result" where
  "all_free n p = Listening"

definition ex_insts :: inst_db where
  "ex_insts = empty_insts\<lparr>insts := [new_row (ex_new ''a''\<lparr>ni_BasePort := 2456\<rparr>)]\<rparr>"

definition ex_two :: inst_db where
  "ex_two = empty_insts\<lparr>insts := [new_row (ex_new ''a''\<lparr>ni_BasePort := 2456\<rparr>), new_row (ex_new ''b''\<lparr>ni_BasePort := 2461\<rparr>)]\<rparr>"

lemma Allocate_base: "publishedPorts rt = Inr pub \<Longrightarrow> port_free listen pub d base \<Longrightarrow> Allocate base stride rt listen d = Inr base"
proof -
  assume p: "publishedPorts rt = Inr pub" and f: "port_free listen pub d base"
  then have "find (port_free listen pub d) (map (\<lambda>i. base + int i * stride) [0..<maxPortScan]) = Some base"
    unfolding find_nth by (intro exI [of _ 0]) (simp add: maxPortScan_def)
  with p show ?thesis by (simp add: Allocate_def)
qed

lemma ex_insts_reached: "inst_run 2456 5 {} ex_insts"
proof -
  have "Allocate 2456 5 None all_free empty_insts = Inr 2456"
    by (rule Allocate_base [where pub = "\<lambda>_. False"]) (simp_all add: publishedPorts_def port_free_def UsedBasePorts_def empty_insts_def localFree_def all_free_def)
  moreover have "CreateInstance (ex_new ''a''\<lparr>ni_BasePort := 2456\<rparr>) empty_insts = Inr ex_insts"
    by (simp add: CreateInstance_def insert_instance_def clashes_def empty_insts_def ex_insts_def)
  ultimately show ?thesis using inst_run.step [OF inst_run.start inst_step.create] by fastforce
qed

lemma ex_two_reached: "inst_run 2456 5 {} ex_two"
proof -
  have "find (port_free all_free (\<lambda>_. False) ex_insts) (map (\<lambda>i. 2456 + int i * 5) [0..<maxPortScan]) = Some 2461"
    unfolding find_nth
    by (intro exI [of _ 1]) (simp add: maxPortScan_def port_free_def UsedBasePorts_def ex_insts_def new_row_def localFree_def all_free_def)
  then have "Allocate 2456 5 None all_free ex_insts = Inr 2461" by (simp add: Allocate_def publishedPorts_def)
  moreover have "CreateInstance (ex_new ''b''\<lparr>ni_BasePort := 2461\<rparr>) ex_insts = Inr ex_two"
    by (simp add: CreateInstance_def insert_instance_def clashes_def empty_insts_def ex_insts_def ex_two_def new_row_def ex_new_def)
  ultimately show ?thesis using inst_run.step [OF ex_insts_reached inst_step.create] by fastforce
qed

theorem instances_never_share_ports_witness:
  "\<exists>r s. insts ex_two = [r, s] \<and> in_BasePort r = 2456 \<and>
     {in_BasePort r, in_BasePort r + 1} \<inter> {in_BasePort s, in_BasePort s + 1} = {}"
proof -
  let ?r = "new_row (ex_new ''a''\<lparr>ni_BasePort := 2456\<rparr>)" and ?s = "new_row (ex_new ''b''\<lparr>ni_BasePort := 2461\<rparr>)"
  have rs: "insts ex_two = [?r, ?s]" "in_BasePort ?r = 2456" by (simp_all add: ex_two_def new_row_def)
  have "in_ID ?r \<noteq> in_ID ?s" by (simp add: new_row_def ex_new_def)
  then have ne: "?r \<noteq> ?s" by metis
  have two: "(2::int) \<le> 5" by simp
  have "?r \<in> set (insts ex_two)" "?s \<in> set (insts ex_two)" unfolding rs(1) by (simp_all only: list.set insert_iff simp_thms)
  with instances_never_share_ports [OF ex_two_reached two] ne
  have "{in_BasePort ?r, in_BasePort ?r + 1} \<inter> {in_BasePort ?s, in_BasePort ?s + 1} = {}" by blast
  with rs show ?thesis by blast
qed

lemma state_writes_refined_example:
  "UpdateInstanceState ''a'' StateCreated StateProvisioning (lifecycle_view ex_insts) =
     (True, lifecycle_view (snd (UpdateState ''a'' StateCreated StateProvisioning ex_insts)))"
  using state_writes_refined [OF ex_insts_reached, of "''a''" StateCreated StateProvisioning "[]" "[]"]
  by (simp add: UpdateState_def update_if_def in_state_def ex_insts_def new_row_def ex_new_def)

text \<open>Only equal base ports are compared. Once the grid has moved by one -- a changed base, or a container
  adopted from another panel -- a stopped server's second port is given away.\<close>

lemma reserved_port_given_away:
  "UsedBasePorts ex_insts 2456 \<and> Allocate 2457 5 None all_free ex_insts = Inr 2457"
proof
  show "UsedBasePorts ex_insts 2456" by (simp add: UsedBasePorts_def ex_insts_def new_row_def)
  show "Allocate 2457 5 None all_free ex_insts = Inr 2457"
    by (rule Allocate_base [where pub = "\<lambda>_. False"]) (simp_all add: publishedPorts_def port_free_def UsedBasePorts_def localFree_def all_free_def ex_insts_def new_row_def)
qed

end
