(* ===== verification/Go_Encoding.thy ===== *)
theory Go_Encoding
  imports Go_Text
begin

text \<open>
  Encodings of Go's standard library the share codes are made with, on byte strings: \<open>strconv.Itoa\<close>,
  \<open>url.QueryEscape\<close>, \<open>url.Values.Encode\<close> and \<open>url.ParseQuery\<close>, \<open>base64.RawURLEncoding\<close>, \<open>utf8.Valid\<close>, and
  \<open>strings.Join(strings.Fields(s), "")\<close>; with the round trips between them.
\<close>

subsection \<open>Bytes\<close>

abbreviation byte_of :: "char \<Rightarrow> nat" where
  "byte_of c \<equiv> of_char c"

lemma byte_bound [simp]: "byte_of c < 256"
  by (metis of_char_of of_char_mod_256 mod_less_divisor zero_less_numeral)

lemma char_of_byte_mod: "char_of (n mod 256) = (char_of n :: char)"
  by (rule char_of_mod_256)

subsection \<open>Decimal numbers\<close>

definition digit_char :: "nat \<Rightarrow> char" where
  "digit_char n = char_of (48 + n)"

fun decimal :: "nat \<Rightarrow> string" where
  "decimal n = (if n < 10 then [digit_char n] else decimal (n div 10) @ [digit_char (n mod 10)])"

declare decimal.simps [simp del]

definition Itoa :: "int \<Rightarrow> string" where
  "Itoa n = (if n < 0 then CHR ''-'' # decimal (nat (- n)) else decimal (nat n))"

lemma digit_char: "n < 10 \<Longrightarrow> byte_of (digit_char n) = 48 + n"
  by (simp add: digit_char_def of_char_of)

lemma digit_char_is_digit: "n < 10 \<Longrightarrow> is_digit (digit_char n)"
  by (simp add: is_digit_def digit_char)

lemma decimal_digits: "list_all is_digit (decimal n)" "decimal n \<noteq> []"
  by (induction n rule: decimal.induct) (subst decimal.simps, simp add: digit_char_is_digit)+

lemma digits_val_append: "digits_val acc (xs @ [c]) = 10 * digits_val acc xs + (of_char c - 48)"
  by (induction xs arbitrary: acc) auto

lemma digits_val_decimal: "digits_val 0 (decimal n) = int n"
proof (induction n rule: decimal.induct)
  case (1 n)
  have c: "(of_char (digit_char k) :: int) = 48 + int k" if "k < 10" for k
  proof -
    have "(of_char (digit_char k) :: int) = int (byte_of (digit_char k))" by (simp only: of_nat_of_char)
    then show ?thesis using that digit_char by simp
  qed
  show ?case
  proof (cases "n < 10")
    case True
    then show ?thesis by (subst decimal.simps) (simp add: c)
  next
    case False
    then have "digits_val 0 (decimal n) = 10 * int (n div 10) + int (n mod 10)"
      using 1 by (subst decimal.simps) (simp add: digits_val_append c)
    then show ?thesis by (simp add: zdiv_int zmod_int)
  qed
qed

lemma atoi_Itoa: "in_int64 n \<Longrightarrow> atoi (Itoa n) = Some n"
proof -
  assume n: "in_int64 n"
  have sign: "c \<noteq> CHR ''-'' \<and> c \<noteq> CHR ''+''" if "is_digit c" for c using that by (auto simp: is_digit_def)
  obtain c cs where d: "decimal (nat \<bar>n\<bar>) = c # cs" using decimal_digits(2) by (cases "decimal (nat \<bar>n\<bar>)") auto
  have l: "list_all is_digit (c # cs)" using decimal_digits(1) [of "nat \<bar>n\<bar>"] by (simp add: d)
  then have "c \<noteq> CHR ''-''" "c \<noteq> CHR ''+''" using sign by auto
  moreover have "digits_val 0 (c # cs) = \<bar>n\<bar>" using digits_val_decimal [of "nat \<bar>n\<bar>"] by (simp add: d)
  ultimately show ?thesis using n l d by (auto simp: Itoa_def atoi_def Let_def split: if_splits)
qed

subsection \<open>Query escaping\<close>

definition unreserved :: "char \<Rightarrow> bool" where
  "unreserved c \<longleftrightarrow> is_lower c \<or> is_upper c \<or> is_digit c \<or> c \<in> set ''-_.~''"

definition upper_hex :: "nat \<Rightarrow> char" where
  "upper_hex n = (if n < 10 then char_of (48 + n) else char_of (55 + n))"

definition unhex :: "char \<Rightarrow> nat option" where
  "unhex c =
     (let n = byte_of c in
      if is_digit c then Some (n - 48)
      else if 97 \<le> n \<and> n \<le> 102 then Some (n - 87)
      else if 65 \<le> n \<and> n \<le> 70 then Some (n - 55)
      else None)"

definition escape_char :: "char \<Rightarrow> string" where
  "escape_char c =
     (if c = CHR '' '' then ''+''
      else if unreserved c then [c]
      else [CHR ''%'', upper_hex (byte_of c div 16), upper_hex (byte_of c mod 16)])"

definition QueryEscape :: "string \<Rightarrow> string" where
  "QueryEscape s = concat (map escape_char s)"

fun QueryUnescape :: "string \<Rightarrow> string option" where
  "QueryUnescape [] = Some []"
| "QueryUnescape (c # cs) =
     (if c = CHR ''%'' then
        (case cs of
           a # b # rest \<Rightarrow>
             (case (unhex a, unhex b) of
                (Some x, Some y) \<Rightarrow> map_option (Cons (char_of (16 * x + y))) (QueryUnescape rest)
              | _ \<Rightarrow> None)
         | _ \<Rightarrow> None)
      else map_option (Cons (if c = CHR ''+'' then CHR '' '' else c)) (QueryUnescape cs))"

lemma unhex_upper: "n < 16 \<Longrightarrow> unhex (upper_hex n) = Some n"
  by (auto simp: unhex_def upper_hex_def is_digit_def of_char_of Let_def)

lemma char_of_halves: "char_of (16 * (byte_of c div 16) + byte_of c mod 16) = c"
  by simp

lemma unescape_char: "QueryUnescape (escape_char c @ s) = map_option (Cons c) (QueryUnescape s)"
proof -
  have "byte_of c div 16 < 16" using byte_bound [of c] by linarith
  moreover have "unreserved c \<Longrightarrow> c \<noteq> CHR ''%'' \<and> c \<noteq> CHR ''+''" by (auto simp: unreserved_def is_lower_def is_upper_def is_digit_def)
  ultimately show ?thesis by (simp add: escape_char_def unhex_upper)
qed

lemma unescape_escape: "QueryUnescape (QueryEscape s) = Some s"
  by (induction s) (simp_all add: QueryEscape_def unescape_char)

text \<open>Escaped text is ASCII and holds none of the separators of a query or of lines.\<close>

definition query_char :: "char \<Rightarrow> bool" where
  "query_char c \<longleftrightarrow> unreserved c \<or> c = CHR ''+'' \<or> c = CHR ''%''"

lemma upper_hex_char: "n < 16 \<Longrightarrow> unreserved (upper_hex n)"
  by (auto simp: upper_hex_def unreserved_def is_upper_def is_digit_def of_char_of)

lemma escape_chars: "c \<in> set (QueryEscape s) \<Longrightarrow> query_char c"
proof -
  have "byte_of x div 16 < 16" for x using byte_bound [of x] by linarith
  then have "c \<in> set (escape_char x) \<Longrightarrow> query_char c" for x by (auto simp: escape_char_def query_char_def upper_hex_char split: if_splits)
  then show "c \<in> set (QueryEscape s) \<Longrightarrow> query_char c" by (auto simp: QueryEscape_def)
qed

lemma query_char_plain: "query_char c \<Longrightarrow> c \<notin> set ''&=;#'' \<and> c \<noteq> newline \<and> byte_of c < 128"
  by (auto simp: query_char_def unreserved_def is_lower_def is_upper_def is_digit_def)

subsection \<open>Query values\<close>

text \<open>\<open>url.Values\<close>: the values of each key in order, as an association list of distinct keys.\<close>

type_synonym Values = "(string \<times> string list) list"

definition vals :: "Values \<Rightarrow> string \<Rightarrow> string list" where
  "vals v k = (case map_of v k of None \<Rightarrow> [] | Some xs \<Rightarrow> xs)"

fun put :: "string \<Rightarrow> string list \<Rightarrow> Values \<Rightarrow> Values" where
  "put k xs [] = [(k, xs)]"
| "put k xs ((j, ys) # v) = (if j = k then (k, xs) # v else (j, ys) # put k xs v)"

definition Add :: "string \<Rightarrow> string \<Rightarrow> Values \<Rightarrow> Values" where
  "Add k x v = put k (vals v k @ [x]) v"

definition Set_value :: "string \<Rightarrow> string \<Rightarrow> Values \<Rightarrow> Values" where
  "Set_value k x v = put k [x] v"

definition Get_value :: "Values \<Rightarrow> string \<Rightarrow> string" where
  "Get_value v k = (case vals v k of [] \<Rightarrow> [] | x # _ \<Rightarrow> x)"

definition Has :: "Values \<Rightarrow> string \<Rightarrow> bool" where
  "Has v k \<longleftrightarrow> map_of v k \<noteq> None"

definition query_pairs :: "Values \<Rightarrow> (string \<times> string) list" where
  "query_pairs v = concat (map (\<lambda>(k, xs). map (Pair k) xs) (sort_key fst v))"

definition query_pair :: "string \<times> string \<Rightarrow> string" where
  "query_pair p = QueryEscape (fst p) @ CHR ''='' # QueryEscape (snd p)"

definition Values_Encode :: "Values \<Rightarrow> string" where
  "Values_Encode v = join_with (CHR ''&'') (map query_pair (query_pairs v))"

text \<open>One part of a query: nothing for an empty part, an error for a semicolon or a broken escape.\<close>

definition parse_part :: "string \<Rightarrow> Values option \<Rightarrow> Values option" where
  "parse_part part acc =
     (if CHR '';'' \<in> set part then None
      else if part = [] then acc
      else let (k, x) = (case cut_at (CHR ''='') part of None \<Rightarrow> (part, []) | Some p \<Rightarrow> p) in
        case (QueryUnescape k, QueryUnescape x) of
          (Some key, Some val) \<Rightarrow> map_option (Add key val) acc
        | _ \<Rightarrow> None)"

definition ParseQuery :: "string \<Rightarrow> Values option" where
  "ParseQuery query = fold parse_part (split_on (CHR ''&'') query) (Some [])"

lemma map_of_put: "map_of (put k xs v) = (map_of v)(k \<mapsto> xs)"
  by (induction k xs v rule: put.induct) (auto simp: fun_eq_iff)

lemma keys_put: "fst ` set (put k xs v) = insert k (fst ` set v)"
  by (induction k xs v rule: put.induct) auto

lemma distinct_put: "distinct (map fst v) \<Longrightarrow> distinct (map fst (put k xs v))"
  by (induction k xs v rule: put.induct) (auto simp: keys_put)

lemma vals_put [simp]: "vals (put k xs v) = (vals v)(k := xs)"
  by (simp add: fun_eq_iff vals_def map_of_put)

lemma vals_Nil [simp]: "vals [] = (\<lambda>_. [])"
  by (simp add: vals_def fun_eq_iff)

lemma vals_Add [simp]: "vals (Add k x v) = (vals v)(k := vals v k @ [x])"
  by (simp add: Add_def)

lemma vals_Set [simp]: "vals (Set_value k x v) = (vals v)(k := [x])"
  by (simp add: Set_value_def)

text \<open>Tables a program can build: distinct keys, each with a value.\<close>

definition values_ok :: "Values \<Rightarrow> bool" where
  "values_ok v \<longleftrightarrow> distinct (map fst v) \<and> (\<forall>(k, xs) \<in> set v. xs \<noteq> [])"

lemma values_ok_put: "values_ok v \<Longrightarrow> xs \<noteq> [] \<Longrightarrow> values_ok (put k xs v)"
proof -
  have "(j, ys) \<in> set (put k xs v) \<Longrightarrow> (j, ys) \<in> set v \<or> ys = xs" for j ys by (induction k xs v rule: put.induct) (auto split: if_splits)
  then show "values_ok v \<Longrightarrow> xs \<noteq> [] \<Longrightarrow> values_ok (put k xs v)" unfolding values_ok_def by (fastforce simp: distinct_put)
qed

lemma values_ok_simps [simp]:
  "values_ok []" "values_ok v \<Longrightarrow> values_ok (Add k x v)" "values_ok v \<Longrightarrow> values_ok (Set_value k x v)"
  by (simp_all add: Add_def Set_value_def values_ok_put) (simp add: values_ok_def)

lemma values_ok_Has: "values_ok v \<Longrightarrow> Has v k \<longleftrightarrow> vals v k \<noteq> []"
  unfolding values_ok_def Has_def vals_def by (auto split: option.splits dest: map_of_SomeD)

lemma parse_pair: "parse_part (query_pair p) (Some v) = Some (Add (fst p) (snd p) v)"
proof -
  let ?k = "QueryEscape (fst p)" and ?x = "QueryEscape (snd p)"
  have no: "c \<notin> set ?k" "c \<notin> set ?x" if "c \<in> set ''&=;#''" for c using that escape_chars query_char_plain by blast+
  then have "CHR '';'' \<notin> set (query_pair p)" by (auto simp: query_pair_def)
  moreover have "cut_at (CHR ''='') (query_pair p) = Some (?k, ?x)" using no(1) [of "CHR ''=''"] by (simp add: query_pair_def cut_at_Some)
  moreover have "query_pair p \<noteq> []" by (simp add: query_pair_def)
  ultimately show ?thesis by (simp add: parse_part_def unescape_escape)
qed

lemma parse_pairs: "fold parse_part (map query_pair ps) (Some v) = Some (fold (\<lambda>p. Add (fst p) (snd p)) ps v)"
  by (induction ps arbitrary: v) (simp_all add: parse_pair)

lemma vals_fold_Add: "vals (fold (\<lambda>p. Add (fst p) (snd p)) ps v) k = vals v k @ map snd (filter (\<lambda>p. fst p = k) ps)"
  by (induction ps arbitrary: v) auto

lemma values_ok_fold_Add: "values_ok v \<Longrightarrow> values_ok (fold (\<lambda>p. Add (fst p) (snd p)) ps v)"
  by (induction ps arbitrary: v) auto

lemma query_pairs_vals: "distinct (map fst v) \<Longrightarrow> map snd (filter (\<lambda>p. fst p = k) (query_pairs v)) = vals v k"
proof -
  have "map snd (filter (\<lambda>p. fst p = k) (concat (map (\<lambda>(k, xs). map (Pair k) xs) w))) = vals w k" if "distinct (map fst w)" for w :: Values
    using that
  proof (induction w)
    case (Cons a w)
    obtain j ys where a: "a = (j, ys)" by fastforce
    have e: "map_of w j = None" using Cons.prems by (simp add: a map_of_eq_None_iff)
    have "filter (\<lambda>p. fst p = k) (map (Pair j) ys) = (if j = k then map (Pair j) ys else [])" by (induction ys) auto
    with Cons a e show ?case by (auto simp: vals_def comp_def)
  qed simp
  moreover assume d: "distinct (map fst v)"
  then have "distinct (map fst (sort_key fst v))" by (metis distinct_map distinct_sort inj_on_cong set_sort)
  moreover have "map_of (sort_key fst v) = map_of v"
    using d \<open>distinct (map fst (sort_key fst v))\<close> map_of_inject_set [of "sort_key fst v" v] by simp
  ultimately show ?thesis by (simp add: query_pairs_def vals_def)
qed

lemma ParseQuery_Encode:
  assumes "values_ok v"
  shows "\<exists>w. ParseQuery (Values_Encode v) = Some w \<and> values_ok w \<and> vals w = vals v"
proof -
  let ?w = "fold (\<lambda>p. Add (fst p) (snd p)) (query_pairs v) []"
  have "CHR ''&'' \<notin> set (query_pair p)" for p
    using escape_chars query_char_plain by (fastforce simp: query_pair_def)
  then have "ParseQuery (Values_Encode v) = Some ?w"
  proof (cases "query_pairs v = []")
    case True
    then show ?thesis by (simp add: ParseQuery_def Values_Encode_def parse_part_def)
  next
    case False
    then have "split_on (CHR ''&'') (Values_Encode v) = map query_pair (query_pairs v)"
      unfolding Values_Encode_def by (intro split_join) (use \<open>\<And>p. CHR ''&'' \<notin> set (query_pair p)\<close> in auto)
    then show ?thesis by (simp add: ParseQuery_def parse_pairs)
  qed
  moreover have "vals ?w = vals v"
    using assms by (simp add: fun_eq_iff vals_fold_Add query_pairs_vals values_ok_def)
  ultimately show ?thesis using values_ok_fold_Add [of "[]" "query_pairs v"] by auto
qed

definition plain_query :: "string \<Rightarrow> bool" where
  "plain_query s \<longleftrightarrow> newline \<notin> set s \<and> (\<forall>c \<in> set s. byte_of c < 128)"

lemma join_with_set: "set (join_with c ps) \<subseteq> insert c (\<Union> (set ` set ps))"
  by (induction c ps rule: join_with.induct) auto

lemma Values_Encode_plain: "plain_query (Values_Encode v)"
proof -
  have "x \<noteq> newline \<and> byte_of x < 128" if "x \<in> set (query_pair p)" for x p
    using that escape_chars query_char_plain by (fastforce simp: query_pair_def)
  then have "x \<noteq> newline \<and> byte_of x < 128" if "x \<in> set (Values_Encode v)" for x
    using that join_with_set [of "CHR ''&''" "map query_pair (query_pairs v)"] by (fastforce simp: Values_Encode_def)
  then show ?thesis unfolding plain_query_def by blast
qed

subsection \<open>Base64\<close>

text \<open>\<open>base64.RawURLEncoding\<close>: the URL alphabet, no padding. The decoder is the lenient one, which ignores the
  unused low bits of a last partial group; it also skips line breaks, which no text that reaches it here holds.\<close>

definition b64_char :: "nat \<Rightarrow> char" where
  "b64_char n =
     (if n < 26 then char_of (65 + n) else if n < 52 then char_of (71 + n) else if n < 62 then char_of (n - 4)
      else if n = 62 then CHR ''-'' else CHR ''_'')"

definition b64_val :: "char \<Rightarrow> nat option" where
  "b64_val c =
     (let n = byte_of c in
      if is_upper c then Some (n - 65) else if is_lower c then Some (n - 71) else if is_digit c then Some (n + 4)
      else if c = CHR ''-'' then Some 62 else if c = CHR ''_'' then Some 63 else None)"

fun sextets :: "nat list \<Rightarrow> nat list" where
  "sextets [] = []"
| "sextets [a] = (let n = a * 16 in [n div 64, n mod 64])"
| "sextets [a, b] = (let n = (a * 256 + b) * 4 in [n div 4096, n div 64 mod 64, n mod 64])"
| "sextets (a # b # c # rest) =
     (let n = (a * 256 + b) * 256 + c in n div 262144 # n div 4096 mod 64 # n div 64 mod 64 # n mod 64 # sextets rest)"

fun octets :: "nat list \<Rightarrow> nat list option" where
  "octets [] = Some []"
| "octets [x] = None"
| "octets [x, y] = (let n = x * 64 + y in Some [n div 16])"
| "octets [x, y, z] = (let n = (x * 64 + y) * 64 + z in Some [n div 1024, n div 4 mod 256])"
| "octets (x # y # z # w # rest) =
     (let n = ((x * 64 + y) * 64 + z) * 64 + w in
      map_option (\<lambda>bs. n div 65536 # n div 256 mod 256 # n mod 256 # bs) (octets rest))"

fun all_some :: "'a option list \<Rightarrow> 'a list option" where
  "all_some [] = Some []"
| "all_some (None # xs) = None"
| "all_some (Some x # xs) = map_option (Cons x) (all_some xs)"

definition RawURL_Encode :: "string \<Rightarrow> string" where
  "RawURL_Encode s = map b64_char (sextets (map byte_of s))"

definition RawURL_Decode :: "string \<Rightarrow> string option" where
  "RawURL_Decode s =
     (case all_some (map b64_val s) of
        None \<Rightarrow> None
      | Some xs \<Rightarrow> map_option (map char_of) (octets xs))"

lemma b64_val_char: "n < 64 \<Longrightarrow> b64_val (b64_char n) = Some n"
  by (auto simp: b64_char_def b64_val_def is_upper_def is_lower_def is_digit_def of_char_of Let_def)

lemma split_64: "n div 64 * 64 + n mod 64 = (n :: nat)"
  by simp

lemma octets_sextets: "list_all (\<lambda>b. b < 256) bs \<Longrightarrow> octets (sextets bs) = Some bs"
proof (induction bs rule: sextets.induct)
  case (2 a)
  define n where "n = a * 16"
  have "n div 64 * 64 + n mod 64 = n" by (rule split_64)
  moreover have "n div 16 = a" by (simp add: n_def)
  ultimately show ?case by (simp add: Let_def n_def [symmetric])
next
  case (3 a b)
  define n where "n = (a * 256 + b) * 4"
  have "n div 4096 * 64 + n div 64 mod 64 = n div 64" using split_64 [of "n div 64"] by (simp add: div_mult2_eq [symmetric])
  then have "(n div 4096 * 64 + n div 64 mod 64) * 64 + n mod 64 = n" by simp
  moreover have "n div 1024 = a" "n div 4 mod 256 = b" using 3 by (simp_all add: n_def)
  ultimately show ?case by (simp only: sextets.simps Let_def n_def [symmetric] octets.simps)
next
  case (4 a b c rest)
  define n where "n = (a * 256 + b) * 256 + c"
  have "n div 262144 * 64 + n div 4096 mod 64 = n div 4096" using split_64 [of "n div 4096"] by (simp add: div_mult2_eq [symmetric])
  moreover have "n div 4096 * 64 + n div 64 mod 64 = n div 64" using split_64 [of "n div 64"] by (simp add: div_mult2_eq [symmetric])
  ultimately have m: "((n div 262144 * 64 + n div 4096 mod 64) * 64 + n div 64 mod 64) * 64 + n mod 64 = n" by simp
  have q: "(x * 256 + y) div 256 = x" "(x * 256 + y) mod 256 = y" if "y < 256" for x y :: nat using that by auto
  have "n div 256 = a * 256 + b" "n mod 256 = c" unfolding n_def by (rule q; use 4(2) in simp)+
  moreover have "n div 65536 = n div 256 div 256" by (simp add: div_mult2_eq [symmetric])
  ultimately have "n div 65536 = a" "n div 256 mod 256 = b" "n mod 256 = c" using q 4(2) by simp_all
  with m show ?case using 4 by (simp only: sextets.simps Let_def n_def [symmetric] octets.simps) simp
qed simp

lemma sextets_bound: "list_all (\<lambda>b. b < 256) bs \<Longrightarrow> x \<in> set (sextets bs) \<Longrightarrow> x < 64"
  by (induction bs rule: sextets.induct) (auto simp: Let_def)

lemma all_some_map: "(\<And>x. x \<in> set xs \<Longrightarrow> f (g x) = Some x) \<Longrightarrow> all_some (map f (map g xs)) = Some xs"
  by (induction xs) auto

lemma bytes_bound: "list_all (\<lambda>b. b < 256) (map byte_of s)"
  by (induction s) simp_all

lemma RawURL_roundtrip: "RawURL_Decode (RawURL_Encode s) = Some s"
proof -
  let ?xs = "sextets (map byte_of s)"
  have "all_some (map b64_val (map b64_char ?xs)) = Some ?xs"
    by (rule all_some_map) (rule b64_val_char [OF sextets_bound [OF bytes_bound]])
  then show ?thesis by (simp add: RawURL_Decode_def RawURL_Encode_def octets_sextets [OF bytes_bound] comp_def)
qed

lemma RawURL_chars: "c \<in> set (RawURL_Encode s) \<Longrightarrow> unreserved c"
proof -
  have "unreserved (b64_char n)" if "n < 64" for n
    using that by (auto simp: b64_char_def unreserved_def is_upper_def is_lower_def is_digit_def of_char_of)
  then show "c \<in> set (RawURL_Encode s) \<Longrightarrow> unreserved c" using sextets_bound [OF bytes_bound] by (auto simp: RawURL_Encode_def)
qed

subsection \<open>UTF-8\<close>

definition cont :: "nat \<Rightarrow> bool" where
  "cont b \<longleftrightarrow> 0x80 \<le> b \<and> b \<le> 0xBF"

text \<open>The bytes that may follow a lead byte first, and how many continuation bytes come after it.\<close>

definition lead :: "nat \<Rightarrow> (nat \<times> nat \<times> nat) option" where
  "lead b =
     (if 0xC2 \<le> b \<and> b \<le> 0xDF then Some (0x80, 0xBF, 0)
      else if b = 0xE0 then Some (0xA0, 0xBF, 1)
      else if b = 0xED then Some (0x80, 0x9F, 1)
      else if 0xE1 \<le> b \<and> b \<le> 0xEF then Some (0x80, 0xBF, 1)
      else if b = 0xF0 then Some (0x90, 0xBF, 2)
      else if 0xF1 \<le> b \<and> b \<le> 0xF3 then Some (0x80, 0xBF, 2)
      else if b = 0xF4 then Some (0x80, 0x8F, 2)
      else None)"

fun valid_runes :: "nat list \<Rightarrow> bool" where
  "valid_runes [] = True"
| "valid_runes (b # bs) =
     (if b < 0x80 then valid_runes bs
      else case lead b of
          None \<Rightarrow> False
        | Some (lo, hi, more) \<Rightarrow>
            (case bs of
               [] \<Rightarrow> False
             | x # rest \<Rightarrow> lo \<le> x \<and> x \<le> hi \<and> more \<le> length rest \<and> list_all cont (take more rest) \<and> valid_runes (drop more rest)))"

definition utf8_Valid :: "string \<Rightarrow> bool" where
  "utf8_Valid s = valid_runes (map byte_of s)"

lemma valid_runes_append: "valid_runes a \<Longrightarrow> valid_runes (a @ b) = valid_runes b"
proof (induction a rule: valid_runes.induct)
  case (2 x bs)
  show ?case
  proof (cases "x < 0x80")
    case True
    with 2 show ?thesis by simp
  next
    case False
    with 2(3) obtain lo hi k y rest where l: "lead x = Some (lo, hi, k)" "bs = y # rest"
      and v: "lo \<le> y" "y \<le> hi" "k \<le> length rest" "list_all cont (take k rest)" "valid_runes (drop k rest)"
      by (cases bs) (auto split: option.splits)
    from 2(2) [OF False l(1) _ _ l(2) v(5)] have "valid_runes (drop k rest @ b) = valid_runes b" by simp
    with False l v show ?thesis by simp
  qed
qed simp

lemma utf8_Valid_append: "utf8_Valid a \<Longrightarrow> utf8_Valid b \<Longrightarrow> utf8_Valid (a @ b)"
  by (simp add: utf8_Valid_def valid_runes_append)

lemma utf8_Valid_ascii: "(\<And>c. c \<in> set s \<Longrightarrow> byte_of c < 128) \<Longrightarrow> utf8_Valid s"
  unfolding utf8_Valid_def by (induction s) auto

lemma utf8_Valid_concat: "(\<And>s. s \<in> set ss \<Longrightarrow> utf8_Valid s) \<Longrightarrow> utf8_Valid (concat ss)"
proof (induction ss)
  case Nil
  show ?case by (simp add: utf8_Valid_def)
next
  case (Cons s ss)
  then show ?case by (simp add: utf8_Valid_append)
qed

subsection \<open>Removing white space\<close>

text \<open>\<open>strings.Join(strings.Fields(s), "")\<close>. An encoding of a white-space rune starts with a byte no other rune
  continues with, so it is found by looking at every position.\<close>

function join_fields :: "string \<Rightarrow> string" where
  "join_fields s =
     (case s of
        [] \<Rightarrow> []
      | c # cs \<Rightarrow>
          (case find (\<lambda>p. p \<noteq> [] \<and> is_prefix_of p s) white_space of
             Some p \<Rightarrow> join_fields (drop (length p) s)
           | None \<Rightarrow> c # join_fields cs))"
  by pat_completeness auto
termination
  by (relation "measure length") (auto dest!: find_SomeD)

declare join_fields.simps [simp del]

lemma white_space_ascii: "p \<in> set white_space \<Longrightarrow> p \<noteq> [] \<Longrightarrow> byte_of (hd p) < 128 \<Longrightarrow> hd p \<in> {CHR 0x09, CHR 0x0A, CHR 0x0B, CHR 0x0C, CHR 0x0D, CHR '' ''}"
  by (auto simp: white_space_def)

lemma join_fields_append:
  "(\<And>c. c \<in> set s \<Longrightarrow> 0x20 < byte_of c \<and> byte_of c < 128) \<Longrightarrow> join_fields (s @ t) = s @ join_fields t"
proof (induction s)
  case (Cons c cs)
  have "find (\<lambda>p. p \<noteq> [] \<and> is_prefix_of p (c # cs @ t)) white_space = None"
  proof (rule ccontr)
    assume "find (\<lambda>p. p \<noteq> [] \<and> is_prefix_of p (c # cs @ t)) white_space \<noteq> None"
    then obtain p where p: "p \<in> set white_space" "p \<noteq> []" "is_prefix_of p (c # cs @ t)" by (auto dest: find_SomeD)
    have "hd p = c" using p(2,3) by (induction p) (auto simp: is_prefix_of_iff)
    moreover have "0x20 < byte_of c" "byte_of c < 128" using Cons.prems [of c] by simp_all
    ultimately show False using white_space_ascii [OF p(1,2)] by auto
  qed
  then show ?case using Cons by (subst join_fields.simps) simp
qed simp

lemma join_fields_Nil [simp]: "join_fields [] = []"
  by (simp add: join_fields.simps)

lemma join_fields_newline: "join_fields [newline] = []"
  by (subst join_fields.simps) (simp add: white_space_def)

lemma join_fields_printable:
  "(\<And>c. c \<in> set s \<Longrightarrow> 0x20 < byte_of c \<and> byte_of c < 128) \<Longrightarrow> join_fields s = s"
  using join_fields_append [of s "[]"] by simp

end
