(* ===== verification/Share_Code.thy ===== *)
theory Share_Code
  imports Go_Encoding
begin

text \<open>
  \<open>internal/sharecode/sharecode.go\<close>: a server template as a short code that can be pasted, and back. The
  compressor is a parameter: \<open>deflate\<close> writes, and \<open>inflate raw n\<close> is what reading at most \<open>n\<close> bytes of the
  decompressed text gives, \<open>None\<close> for a broken stream. A floating-point number and its two textual forms
  are parameters too. A Go map of modifiers is an association list of distinct keys.
\<close>

subsection \<open>Templates\<close>

record 'f ManifestLaunch =
  ml_ServerName :: string
  ml_WorldName :: string
  ml_Public :: bool
  ml_Crossplay :: bool
  ml_Preset :: string
  ml_Modifiers :: "(string \<times> string) list"
  ml_ExtraArgs :: string
  ml_MemLimitMB :: int
  ml_CPULimit :: "'f option"
  ml_KeepCold :: int
  ml_KeepHot :: int
  ml_OnRestart :: bool

record ManifestMod =
  mm_FullName :: string
  mm_Source :: string
  mm_Version :: string
  mm_Side :: string

record ManifestConfig =
  mc_File :: string
  mc_Content :: string

record 'f Template =
  tp_Name :: string
  tp_Launch :: "'f ManifestLaunch"
  tp_Mods :: "ManifestMod list"
  tp_Configs :: "ManifestConfig list"

datatype code_error =
    ErrNotACode | ErrNewer | ErrDamaged | ErrTooLarge | ErrBadPayload | ErrUnknownSide | ErrCannotWrite

definition Prefix :: string where
  "Prefix = ''valmin1:''"

definition thunderstore :: string where
  "thunderstore = ''thunderstore''"

definition sideCodes :: "string \<rightharpoonup> string" where
  "sideCodes = [''server_only'' \<mapsto> ''s'', ''client_required'' \<mapsto> ''r'', ''client_optional'' \<mapsto> ''o'', ''unknown'' \<mapsto> ''-'', [] \<mapsto> ''-'']"

definition sideNames :: "string \<rightharpoonup> string" where
  "sideNames = [''s'' \<mapsto> ''server_only'', ''r'' \<mapsto> ''client_required'', ''o'' \<mapsto> ''client_optional'', ''-'' \<mapsto> []]"

subsection \<open>Encoding\<close>

text \<open>\<open>strings.ContainsAny(field, " \t\r\n")\<close>.\<close>

definition spaced :: "string \<Rightarrow> bool" where
  "spaced f \<longleftrightarrow> list_ex (\<lambda>c. c \<in> {CHR '' '', CHR 0x09, CHR 0x0D, newline}) f"

definition encodeMod :: "ManifestMod \<Rightarrow> code_error + string" where
  "encodeMod m =
     (if list_ex spaced [mm_FullName m, mm_Version m, mm_Source m]
      then Inl ErrCannotWrite
      else if mm_FullName m = [] \<or> mm_Version m = [] \<or> is_prefix_of ''#'' (mm_FullName m) then Inl ErrCannotWrite
      else case sideCodes (mm_Side m) of
          None \<Rightarrow> Inl ErrCannotWrite
        | Some side \<Rightarrow>
            let line = mm_FullName m @ '' '' @ mm_Version m in
            Inr (if mm_Source m \<noteq> [] \<and> mm_Source m \<noteq> thunderstore then line @ '' '' @ side @ '' '' @ mm_Source m
                 else if side \<noteq> ''-'' then line @ '' '' @ side
                 else line))"

definition set_text :: "string \<Rightarrow> string \<Rightarrow> Values \<Rightarrow> Values" where
  "set_text key val v = (if val \<noteq> [] then Set_value key val v else v)"

definition set_flag :: "string \<Rightarrow> bool \<Rightarrow> Values \<Rightarrow> Values" where
  "set_flag key on v = (if on then Set_value key ''1'' v else v)"

definition set_number :: "string \<Rightarrow> int \<Rightarrow> Values \<Rightarrow> Values" where
  "set_number key n v = (if n \<noteq> 0 then Set_value key (Itoa n) v else v)"

definition add_modifier :: "string \<times> string \<Rightarrow> Values \<Rightarrow> Values" where
  "add_modifier m v = Add ''m'' (fst m @ '':'' @ snd m) v"

definition header_values :: "('f \<Rightarrow> string) \<Rightarrow> 'f Template \<Rightarrow> Values" where
  "header_values formatFloat t =
     (let l = tp_Launch t;
          v = set_text ''r'' (ml_Preset l) (set_flag ''x'' (ml_Crossplay l) (set_flag ''p'' (ml_Public l)
                (set_text ''w'' (ml_WorldName l) (set_text ''s'' (ml_ServerName l) (set_text ''n'' (tp_Name t) [])))));
          v = fold add_modifier (sort_key fst (ml_Modifiers l)) v;
          v = set_number ''mem'' (ml_MemLimitMB l) (set_text ''a'' (ml_ExtraArgs l) v);
          v = (case ml_CPULimit l of None \<Rightarrow> v | Some c \<Rightarrow> Set_value ''cpu'' (formatFloat c) v)
      in set_flag ''br'' (ml_OnRestart l) (set_number ''bh'' (ml_KeepHot l) (set_number ''bc'' (ml_KeepCold l) v)))"

definition encodeHeader :: "('f \<Rightarrow> string) \<Rightarrow> 'f Template \<Rightarrow> code_error + string" where
  "encodeHeader formatFloat t =
     (if list_ex (\<lambda>m. CHR '':'' \<in> set (fst m)) (ml_Modifiers (tp_Launch t)) then Inl ErrCannotWrite
      else Inr (Values_Encode (header_values formatFloat t)))"

definition closed_content :: "string \<Rightarrow> string" where
  "closed_content s = (if s \<noteq> [] \<and> last s \<noteq> newline then s @ [newline] else s)"

definition encodeConfig :: "ManifestConfig \<Rightarrow> code_error + string" where
  "encodeConfig c =
     (if list_ex (\<lambda>x. x = CHR 0x0D \<or> x = newline) (mc_File c) then Inl ErrCannotWrite
      else if list_ex (is_prefix_of ''#'') (Lines (mc_Content c)) then Inl ErrCannotWrite
      else Inr (''#'' @ mc_File c @ [newline] @ closed_content (mc_Content c)))"

fun mapR :: "('a \<Rightarrow> 'e + 'b) \<Rightarrow> 'a list \<Rightarrow> 'e + 'b list" where
  "mapR f [] = Inr []"
| "mapR f (x # xs) = rbind (f x) (\<lambda>y. rbind (mapR f xs) (\<lambda>ys. Inr (y # ys)))"

definition encodePayload :: "('f \<Rightarrow> string) \<Rightarrow> 'f Template \<Rightarrow> code_error + string" where
  "encodePayload formatFloat t =
     rbind (encodeHeader formatFloat t) (\<lambda>header.
     rbind (mapR encodeMod (tp_Mods t)) (\<lambda>mods.
     rbind (mapR encodeConfig (tp_Configs t)) (\<lambda>configs.
       Inr (header @ [newline] @ concat (map (\<lambda>l. l @ [newline]) mods) @ concat configs))))"

definition Encode :: "(string \<Rightarrow> string) \<Rightarrow> ('f \<Rightarrow> string) \<Rightarrow> 'f Template \<Rightarrow> code_error + string" where
  "Encode deflate formatFloat t =
     rbind (encodePayload formatFloat t) (\<lambda>payload. Inr (Prefix @ RawURL_Encode (deflate payload)))"

subsection \<open>Decoding\<close>

definition decodeMod :: "string \<Rightarrow> code_error + ManifestMod" where
  "decodeMod line =
     (let f = split_on (CHR '' '') line in
      if length f < 2 \<or> length f > 4 \<or> [] \<in> set f then Inl ErrBadPayload
      else
        let m = \<lparr>mm_FullName = f ! 0, mm_Source = thunderstore, mm_Version = f ! 1, mm_Side = []\<rparr> in
        rbind (if length f > 2 then (case sideNames (f ! 2) of None \<Rightarrow> Inl ErrUnknownSide | Some side \<Rightarrow> Inr (m\<lparr>mm_Side := side\<rparr>))
               else Inr m) (\<lambda>m.
          Inr (if length f > 3 then m\<lparr>mm_Source := f ! 3\<rparr> else m)))"

definition headerKeys :: "string list" where
  "headerKeys = [''n'', ''s'', ''w'', ''p'', ''x'', ''r'', ''m'', ''a'', ''mem'', ''cpu'', ''bc'', ''bh'', ''br'']"

definition checkHeaderKeys :: "Values \<Rightarrow> bool" where
  "checkHeaderKeys v \<longleftrightarrow> list_all (\<lambda>(key, xs). key \<in> set headerKeys \<and> (key = ''m'' \<or> length xs = 1)) v"

definition read_flag :: "Values \<Rightarrow> string \<Rightarrow> bool option" where
  "read_flag v key = (if Get_value v key = [] then Some False else if Get_value v key = ''1'' then Some True else None)"

definition read_number :: "Values \<Rightarrow> string \<Rightarrow> int option" where
  "read_number v key = (if \<not> Has v key then Some 0 else atoi (Get_value v key))"

definition read_cpu :: "(string \<Rightarrow> 'f option) \<Rightarrow> Values \<Rightarrow> 'f option option" where
  "read_cpu parseFloat v =
     (if \<not> Has v ''cpu'' then Some None else map_option Some (parseFloat (Get_value v ''cpu'')))"

definition decodeModifier :: "string \<Rightarrow> (string \<times> string) list \<Rightarrow> code_error + (string \<times> string) list" where
  "decodeModifier kv out =
     (case cut_at (CHR '':'') kv of
        None \<Rightarrow> Inl ErrBadPayload
      | Some (k, val) \<Rightarrow>
          if k = [] \<or> k \<in> fst ` set out then Inl ErrBadPayload else Inr (out @ [(k, val)]))"

definition decodeHeader :: "(string \<Rightarrow> 'f option) \<Rightarrow> string \<Rightarrow> code_error + 'f Template" where
  "decodeHeader parseFloat line =
     (case ParseQuery line of
        None \<Rightarrow> Inl ErrBadPayload
      | Some v \<Rightarrow>
          if \<not> checkHeaderKeys v then Inl ErrBadPayload
          else
            (case (read_flag v ''p'', read_flag v ''x'', read_flag v ''br'', read_number v ''mem'', read_number v ''bc'',
                   read_number v ''bh'', read_cpu parseFloat v) of
               (Some public, Some crossplay, Some onRestart, Some mem, Some cold, Some hot, Some cpu) \<Rightarrow>
                 rbind (foldR decodeModifier (vals v ''m'') []) (\<lambda>modifiers.
                   Inr \<lparr>tp_Name = Get_value v ''n'',
                        tp_Launch = \<lparr>ml_ServerName = Get_value v ''s'', ml_WorldName = Get_value v ''w'', ml_Public = public,
                          ml_Crossplay = crossplay, ml_Preset = Get_value v ''r'', ml_Modifiers = modifiers,
                          ml_ExtraArgs = Get_value v ''a'', ml_MemLimitMB = mem, ml_CPULimit = cpu, ml_KeepCold = cold,
                          ml_KeepHot = hot, ml_OnRestart = onRestart\<rparr>,
                        tp_Mods = [], tp_Configs = []\<rparr>)
             | _ \<Rightarrow> Inl ErrBadPayload))"

definition read_config_line :: "string \<Rightarrow> ManifestConfig list \<Rightarrow> ManifestConfig list" where
  "read_config_line line cs =
     (if is_prefix_of ''#'' line then cs @ [\<lparr>mc_File = tl line, mc_Content = []\<rparr>]
      else butlast cs @ [(last cs)\<lparr>mc_Content := mc_Content (last cs) @ line @ [newline]\<rparr>])"

definition decodePayload :: "(string \<Rightarrow> 'f option) \<Rightarrow> string \<Rightarrow> code_error + 'f Template" where
  "decodePayload parseFloat payload =
     (let ls = split_on newline payload in
      if length ls < 2 \<or> last ls \<noteq> [] then Inl ErrBadPayload
      else
        let ls = butlast ls in
        rbind (decodeHeader parseFloat (hd ls)) (\<lambda>t.
        rbind (mapR decodeMod (takeWhile (\<lambda>l. \<not> is_prefix_of ''#'' l) (tl ls))) (\<lambda>mods.
          Inr (t\<lparr>tp_Mods := mods,
                 tp_Configs := fold read_config_line (dropWhile (\<lambda>l. \<not> is_prefix_of ''#'' l) (tl ls)) []\<rparr>))))"

definition isLaterVersion :: "string \<Rightarrow> bool" where
  "isLaterVersion code =
     (if \<not> is_prefix_of ''valmin'' code then False
      else case cut_at (CHR '':'') (drop 6 code) of
          None \<Rightarrow> False
        | Some (digits, _) \<Rightarrow> (case atoi digits of None \<Rightarrow> False | Some n \<Rightarrow> n > 1))"

definition Decode :: "(string \<Rightarrow> nat \<Rightarrow> string option) \<Rightarrow> (string \<Rightarrow> 'f option) \<Rightarrow> string \<Rightarrow> nat \<Rightarrow> code_error + 'f Template" where
  "Decode inflate parseFloat text maxBytes =
     (let code = join_fields text in
      if \<not> is_prefix_of Prefix code then Inl (if isLaterVersion code then ErrNewer else ErrNotACode)
      else case RawURL_Decode (TrimRight (drop (length Prefix) code) ''='') of
          None \<Rightarrow> Inl ErrDamaged
        | Some raw \<Rightarrow>
            (case inflate raw (maxBytes + 1) of
               None \<Rightarrow> Inl ErrDamaged
             | Some payload \<Rightarrow>
                 if length payload > maxBytes then Inl ErrTooLarge
                 else if \<not> utf8_Valid payload then Inl ErrDamaged
                 else decodePayload parseFloat payload))"

subsection \<open>Mod lines\<close>

text \<open>What a code keeps of a package: no registry means the default one, and no side or an unknown one is untagged.\<close>

definition read_back_mod :: "ManifestMod \<Rightarrow> ManifestMod" where
  "read_back_mod m =
     m\<lparr>mm_Source := (if mm_Source m = [] then thunderstore else mm_Source m), mm_Side := (if mm_Side m = ''unknown'' then [] else mm_Side m)\<rparr>"

lemma sides:
  assumes "sideCodes s = Some c"
  shows "sideNames c = Some (if s = ''unknown'' then [] else s)" and "CHR '' '' \<notin> set c" and "newline \<notin> set c" and "c \<noteq> []"
    and "c = ''-'' \<longleftrightarrow> s = [] \<or> s = ''unknown''" and "utf8_Valid c"
  using assms by (auto simp: sideCodes_def sideNames_def utf8_Valid_def split: if_splits)

lemma decode_encode_mod:
  assumes "encodeMod m = Inr line"
  shows "decodeMod line = Inr (read_back_mod m)" and "newline \<notin> set line" and "\<not> is_prefix_of ''#'' line"
    and "utf8_Valid (mm_FullName m) \<Longrightarrow> utf8_Valid (mm_Version m) \<Longrightarrow> utf8_Valid (mm_Source m) \<Longrightarrow> utf8_Valid line"
proof -
  let ?n = "mm_FullName m" and ?v = "mm_Version m" and ?s = "mm_Source m"
  have "\<not> list_ex spaced [?n, ?v, ?s]" by (rule ccontr) (use assms in \<open>simp add: encodeMod_def\<close>)
  then have clean: "\<not> spaced ?n" "\<not> spaced ?v" "\<not> spaced ?s" by simp_all
  then have ne: "?n \<noteq> []" "?v \<noteq> []" "\<not> is_prefix_of ''#'' ?n" using assms by (auto simp: encodeMod_def split: if_splits)
  then obtain side where side: "sideCodes (mm_Side m) = Some side" using assms clean by (cases "sideCodes (mm_Side m)") (auto simp: encodeMod_def)
  have line: "line = (if ?s \<noteq> [] \<and> ?s \<noteq> thunderstore then (?n @ '' '' @ ?v) @ '' '' @ side @ '' '' @ ?s
        else if side \<noteq> ''-'' then (?n @ '' '' @ ?v) @ '' '' @ side else ?n @ '' '' @ ?v)"
    using assms clean ne side by (auto simp: encodeMod_def Let_def)
  have chars: "CHR '' '' \<notin> set f" "newline \<notin> set f" if "\<not> spaced f" for f using that by (auto simp: spaced_def list_ex_iff)
  note sd = sides [OF side]
  note no = chars(1) [OF clean(1)] chars(1) [OF clean(2)] chars(1) [OF clean(3)]
  have "newline \<notin> set ?n" "newline \<notin> set ?v" "newline \<notin> set ?s" using chars(2) clean by blast+
  then show "newline \<notin> set line" using sd(3) by (auto simp: line)
  show "\<not> is_prefix_of ''#'' line" using ne by (cases ?n) (auto simp: line)
  have sp: "utf8_Valid '' ''" by (simp add: utf8_Valid_def)
  show "utf8_Valid line" if "utf8_Valid ?n" "utf8_Valid ?v" "utf8_Valid ?s"
    unfolding line using that sd(6) sp by (simp only: utf8_Valid_append split: if_split) simp
  consider (registry) "?s \<noteq> []" "?s \<noteq> thunderstore" | (tagged) "?s = [] \<or> ?s = thunderstore" "side \<noteq> ''-''" | (bare) "?s = [] \<or> ?s = thunderstore" "side = ''-''" by blast
  then show "decodeMod line = Inr (read_back_mod m)"
  proof cases
    case registry
    then have l: "line = join_with (CHR '' '') [?n, ?v, side, ?s]" by (auto simp: line)
    have "split_on (CHR '' '') line = [?n, ?v, side, ?s]" unfolding l by (rule split_join) (use no sd(2) in auto)
    then show ?thesis using ne registry sd by (simp add: decodeMod_def Let_def read_back_mod_def)
  next
    case tagged
    then have l: "line = join_with (CHR '' '') [?n, ?v, side]" by (auto simp: line)
    have "split_on (CHR '' '') line = [?n, ?v, side]" unfolding l by (rule split_join) (use no sd(2) in auto)
    then show ?thesis using ne tagged sd by (auto simp: decodeMod_def Let_def read_back_mod_def)
  next
    case bare
    then have l: "line = join_with (CHR '' '') [?n, ?v]" by (auto simp: line)
    have "split_on (CHR '' '') line = [?n, ?v]" unfolding l by (rule split_join) (use no sd(2) in auto)
    then show ?thesis using ne bare sd by (auto simp: decodeMod_def Let_def read_back_mod_def)
  qed
qed

subsection \<open>Configuration files\<close>

definition content_lines :: "string \<Rightarrow> string list" where
  "content_lines s = butlast (split_on newline (closed_content s))"

definition unlines :: "string list \<Rightarrow> string" where
  "unlines ls = concat (map (\<lambda>l. l @ [newline]) ls)"

lemma unlines_simps [simp]: "unlines [] = []" "unlines (a @ b) = unlines a @ unlines b"
  by (simp_all add: unlines_def)

lemma split_unlines: "(\<And>l. l \<in> set ls \<Longrightarrow> newline \<notin> set l) \<Longrightarrow> split_on newline (unlines ls) = ls @ [[]]"
  by (induction ls) (simp_all add: unlines_def split_on_append)

lemma unlines_split: "closed_text s \<Longrightarrow> unlines (butlast (split_on newline s)) = s"
proof (induction "split_on newline s" arbitrary: s rule: list.induct)
  case Nil
  then show ?case using split_on_not_Nil [of newline s] by simp
next
  case (Cons p ps)
  show ?case
  proof (cases ps)
    case Nil
    with Cons(2) have "split_on newline s = [p]" by simp
    then have "s = p" "newline \<notin> set p" using join_split [of newline s] split_on_parts [of p newline s] by simp_all
    then have "newline \<notin> set s" by simp
    with Cons.prems have "s = []" unfolding closed_text_def by (metis last_in_set)
    then show ?thesis by (simp add: unlines_def)
  next
    case (Cons q qs)
    let ?t = "join_with newline ps"
    have s: "s = p @ newline # ?t" using Cons.hyps(2) join_split [of newline s] Cons by (metis join_with.simps(3))
    have parts: "newline \<notin> set x" if "x \<in> set ps" for x
      using that Cons.hyps(2) split_on_parts [of x newline s] by (metis list.set_intros(2))
    have sp: "split_on newline ?t = ps" by (rule split_join) (use Cons parts in auto)
    have "closed_text ?t" using Cons.prems by (auto simp: s closed_text_def split: if_splits)
    with Cons.hyps(1) [of ?t] sp have "unlines (butlast ps) = ?t" by simp
    moreover have "butlast (split_on newline s) = p # butlast ps" using Cons.hyps(2) Cons by (metis butlast.simps(2) list.distinct(1))
    ultimately show ?thesis by (simp add: unlines_def s)
  qed
qed

lemma closed_content_closed: "closed_text (closed_content s)"
  by (auto simp: closed_content_def closed_text_def)

lemma unlines_content: "unlines (content_lines s) = closed_content s"
  unfolding content_lines_def by (rule unlines_split) (rule closed_content_closed)

lemma content_lines_parts: "l \<in> set (content_lines s) \<Longrightarrow> newline \<notin> set l"
  unfolding content_lines_def by (meson in_set_butlastD split_on_parts)

lemma Lines_unlines: "(\<And>l. l \<in> set ls \<Longrightarrow> newline \<notin> set l) \<Longrightarrow> Lines (unlines ls) = map (\<lambda>l. l @ [newline]) ls"
  by (induction ls) (simp_all add: unlines_def Lines_full)

lemma Lines_add_newline:
  assumes "s \<noteq> []" "last s \<noteq> newline"
  shows "\<exists>xs y. Lines s = xs @ [y] \<and> y \<noteq> [] \<and> Lines (s @ [newline]) = xs @ [y @ [newline]]"
proof -
  obtain xs y where l: "Lines s = xs @ [y]" using assms(1) by (metis Lines_eq_Nil rev_exhaust)
  have a: "are_lines (xs @ [y])" using are_lines_Lines [of s] by (simp add: l)
  have y: "full_line y \<or> open_line y" using a by (induction xs) (auto simp: are_lines_Cons)
  have s: "s = concat xs @ y" using concat_Lines [of s] by (simp add: l)
  have yo: "open_line y" using y s assms(2) by (auto simp: full_line_def)
  then have f: "full_line (y @ [newline])" by (auto simp: full_line_def open_line_def)
  have "are_lines (xs @ [z])" if "full_line z" for z using a that by (induction xs) (auto simp: are_lines_Cons)
  from Lines_concat [OF this [OF f]] have "Lines (s @ [newline]) = xs @ [y @ [newline]]" by (simp add: s)
  with l yo show ?thesis by (auto simp: open_line_def)
qed

lemma content_lines_hash:
  assumes "\<not> list_ex (is_prefix_of ''#'') (Lines s)" and "l \<in> set (content_lines s)"
  shows "\<not> is_prefix_of ''#'' l"
proof -
  have h: "is_prefix_of ''#'' (x @ z) = is_prefix_of ''#'' x" if "x \<noteq> []" for x z using that by (cases x) auto
  have "Lines (closed_content s) = map (\<lambda>l. l @ [newline]) (content_lines s)"
    using Lines_unlines [of "content_lines s", OF content_lines_parts] by (simp add: unlines_content)
  with assms(2) have m: "l @ [newline] \<in> set (Lines (closed_content s))" by simp
  have "\<not> list_ex (is_prefix_of ''#'') (Lines (closed_content s))"
  proof (cases "s \<noteq> [] \<and> last s \<noteq> newline")
    case True
    then obtain xs y where "Lines s = xs @ [y]" "y \<noteq> []" "Lines (s @ [newline]) = xs @ [y @ [newline]]" using Lines_add_newline by blast
    with assms(1) True show ?thesis by (simp add: closed_content_def h)
  next
    case False
    with assms(1) show ?thesis by (auto simp: closed_content_def)
  qed
  with m have n: "\<not> is_prefix_of ''#'' (l @ [newline])" by (auto simp: list_ex_iff)
  then show ?thesis by (cases l) auto
qed

definition read_back_config :: "ManifestConfig \<Rightarrow> ManifestConfig" where
  "read_back_config c = c\<lparr>mc_Content := closed_content (mc_Content c)\<rparr>"

definition config_lines :: "ManifestConfig \<Rightarrow> string list" where
  "config_lines c = (''#'' @ mc_File c) # content_lines (mc_Content c)"

lemma read_content_lines:
  "(\<And>l. l \<in> set ls \<Longrightarrow> \<not> is_prefix_of ''#'' l) \<Longrightarrow>
     fold read_config_line ls (acc @ [c]) = acc @ [c\<lparr>mc_Content := mc_Content c @ unlines ls\<rparr>]"
  by (induction ls arbitrary: c) (simp_all add: read_config_line_def unlines_def)

lemma encode_config_lines:
  assumes "encodeConfig c = Inr s"
  shows "s = unlines (config_lines c)" and "\<And>l. l \<in> set (config_lines c) \<Longrightarrow> newline \<notin> set l"
    and "fold read_config_line (config_lines c) acc = acc @ [read_back_config c]"
    and "utf8_Valid (mc_File c) \<Longrightarrow> utf8_Valid (mc_Content c) \<Longrightarrow> utf8_Valid s"
proof -
  from assms have f: "newline \<notin> set (mc_File c)" and h: "\<not> list_ex (is_prefix_of ''#'') (Lines (mc_Content c))"
    and s: "s = ''#'' @ mc_File c @ [newline] @ closed_content (mc_Content c)"
    by (auto simp: encodeConfig_def list_ex_iff split: if_splits)
  show "s = unlines (config_lines c)" using unlines_content [of "mc_Content c"] by (simp add: s config_lines_def unlines_def)
  show "newline \<notin> set l" if "l \<in> set (config_lines c)" for l using that f content_lines_parts by (auto simp: config_lines_def)
  have "fold read_config_line (config_lines c) acc =
      fold read_config_line (content_lines (mc_Content c)) (acc @ [\<lparr>mc_File = mc_File c, mc_Content = []\<rparr>])"
    by (simp add: config_lines_def read_config_line_def)
  also have "\<dots> = acc @ [read_back_config c]"
    by (subst read_content_lines) (use content_lines_hash [OF h] in \<open>simp_all add: unlines_content read_back_config_def\<close>)
  finally show "fold read_config_line (config_lines c) acc = acc @ [read_back_config c]" .
  have v: "utf8_Valid ''#''" "utf8_Valid [newline]" by (simp_all add: utf8_Valid_def)
  then have "utf8_Valid (closed_content (mc_Content c))" if "utf8_Valid (mc_Content c)"
    using that by (simp add: closed_content_def utf8_Valid_append)
  then show "utf8_Valid s" if "utf8_Valid (mc_File c)" "utf8_Valid (mc_Content c)"
    unfolding s using that v by (intro utf8_Valid_append) blast+
qed

subsection \<open>The header\<close>

lemma set_vals [simp]:
  "vals (set_text k x v) = (if x \<noteq> [] then (vals v)(k := [x]) else vals v)"
  "vals (set_flag k b v) = (if b then (vals v)(k := [''1'']) else vals v)"
  "vals (set_number k n v) = (if n \<noteq> 0 then (vals v)(k := [Itoa n]) else vals v)"
  by (simp_all add: set_text_def set_flag_def set_number_def)

lemma set_values_ok [simp]:
  "values_ok v \<Longrightarrow> values_ok (set_text k x v)" "values_ok v \<Longrightarrow> values_ok (set_flag k b v)" "values_ok v \<Longrightarrow> values_ok (set_number k n v)"
  by (simp_all add: set_text_def set_flag_def set_number_def)

lemma modifiers_values:
  "vals (fold add_modifier ms v) = (vals v)(''m'' := vals v ''m'' @ map (\<lambda>m. fst m @ '':'' @ snd m) ms)"
  "values_ok v \<Longrightarrow> values_ok (fold add_modifier ms v)"
  by (induction ms arbitrary: v) (simp_all add: add_modifier_def)

lemma header_values_ok: "values_ok (header_values ff t)"
  by (simp add: header_values_def Let_def modifiers_values split: option.split)

lemma header_vals:
  fixes ff :: "'f \<Rightarrow> string" and t :: "'f Template"
  defines "l \<equiv> tp_Launch t" and "v \<equiv> vals (header_values ff t)"
  shows "v ''n'' = (if tp_Name t = [] then [] else [tp_Name t])" "v ''s'' = (if ml_ServerName l = [] then [] else [ml_ServerName l])"
    "v ''w'' = (if ml_WorldName l = [] then [] else [ml_WorldName l])" "v ''r'' = (if ml_Preset l = [] then [] else [ml_Preset l])"
    "v ''a'' = (if ml_ExtraArgs l = [] then [] else [ml_ExtraArgs l])"
    "v ''p'' = (if ml_Public l then [''1''] else [])" "v ''x'' = (if ml_Crossplay l then [''1''] else [])" "v ''br'' = (if ml_OnRestart l then [''1''] else [])"
    "v ''mem'' = (if ml_MemLimitMB l = 0 then [] else [Itoa (ml_MemLimitMB l)])" "v ''bc'' = (if ml_KeepCold l = 0 then [] else [Itoa (ml_KeepCold l)])"
    "v ''bh'' = (if ml_KeepHot l = 0 then [] else [Itoa (ml_KeepHot l)])"
    "v ''cpu'' = (case ml_CPULimit l of None \<Rightarrow> [] | Some c \<Rightarrow> [ff c])"
    "v ''m'' = map (\<lambda>m. fst m @ '':'' @ snd m) (sort_key fst (ml_Modifiers l))"
    "\<And>k. k \<notin> set headerKeys \<Longrightarrow> v k = []"
  unfolding v_def l_def header_values_def Let_def
  by (cases "ml_CPULimit (tp_Launch t)"; simp add: modifiers_values headerKeys_def)+

lemma decode_modifiers:
  assumes "distinct (map fst (out @ ms))" and "\<And>m. m \<in> set ms \<Longrightarrow> fst m \<noteq> [] \<and> CHR '':'' \<notin> set (fst m)"
  shows "foldR decodeModifier (map (\<lambda>m. fst m @ '':'' @ snd m) ms) out = Inr (out @ ms)"
  using assms
proof (induction ms arbitrary: out)
  case (Cons m ms)
  obtain a b where m: "m = (a, b)" by fastforce
  then have "cut_at (CHR '':'') (a @ CHR '':'' # b) = Some (a, b)" using Cons.prems(2) [of m] by (simp add: cut_at_Some)
  then have "decodeModifier (fst m @ '':'' @ snd m) out = Inr (out @ [m])"
    using Cons.prems(1) Cons.prems(2) [of m] by (simp add: decodeModifier_def m)
  with Cons.IH [of "out @ [m]"] Cons.prems show ?case by simp
qed simp

text \<open>What a template must satisfy to be read back: its numbers fit a machine word, its modifiers have names.\<close>

definition plain_template :: "('f \<Rightarrow> string) \<Rightarrow> (string \<Rightarrow> 'f option) \<Rightarrow> 'f Template \<Rightarrow> bool" where
  "plain_template formatFloat parseFloat t \<longleftrightarrow>
     (let l = tp_Launch t in
      in_int64 (ml_MemLimitMB l) \<and> in_int64 (ml_KeepCold l) \<and> in_int64 (ml_KeepHot l) \<and>
      (case ml_CPULimit l of None \<Rightarrow> True | Some c \<Rightarrow> parseFloat (formatFloat c) = Some c) \<and>
      distinct (map fst (ml_Modifiers l)) \<and> list_all (\<lambda>m. fst m \<noteq> []) (ml_Modifiers l) \<and>
      list_all (\<lambda>m. utf8_Valid (mm_FullName m) \<and> utf8_Valid (mm_Version m) \<and> utf8_Valid (mm_Source m)) (tp_Mods t) \<and>
      list_all (\<lambda>c. utf8_Valid (mc_File c) \<and> utf8_Valid (mc_Content c)) (tp_Configs t))"

definition read_back :: "'f Template \<Rightarrow> 'f Template" where
  "read_back t =
     t\<lparr>tp_Launch := (tp_Launch t)\<lparr>ml_Modifiers := sort_key fst (ml_Modifiers (tp_Launch t))\<rparr>,
       tp_Mods := map read_back_mod (tp_Mods t), tp_Configs := map read_back_config (tp_Configs t)\<rparr>"

lemma distinct_sort_key: "distinct (map fst (sort_key fst xs)) = distinct (map fst xs)"
  by (metis distinct_map distinct_sort inj_on_cong set_sort)

lemma decode_encode_header:
  assumes p: "plain_template ff pf t" and e: "encodeHeader ff t = Inr header"
  shows "decodeHeader pf header = Inr ((read_back t)\<lparr>tp_Mods := [], tp_Configs := []\<rparr>)" and "plain_query header"
proof -
  let ?l = "tp_Launch t" and ?h = "header_values ff t"
  from e have colon: "\<And>m. m \<in> set (ml_Modifiers ?l) \<Longrightarrow> CHR '':'' \<notin> set (fst m)" and header: "header = Values_Encode ?h"
    by (auto simp: encodeHeader_def list_ex_iff split: if_splits)
  show "plain_query header" unfolding header by (rule Values_Encode_plain)
  from ParseQuery_Encode [OF header_values_ok] obtain w where w: "ParseQuery header = Some w" "values_ok w" "vals w = vals ?h"
    unfolding header by blast
  have "key \<in> set headerKeys \<and> (key = ''m'' \<or> length xs = 1)" if "(key, xs) \<in> set w" for key xs
  proof -
    have xs: "xs = vals ?h key" "xs \<noteq> []" using that w(2) unfolding w(3) [symmetric] values_ok_def vals_def by auto
    have key: "key \<in> set headerKeys" using header_vals(14) [of key ff t] xs by blast
    then show ?thesis using xs by (auto simp: headerKeys_def header_vals split: option.splits if_splits)
  qed
  then have k: "checkHeaderKeys w" by (auto simp: checkHeaderKeys_def list_all_iff)
  have g: "Get_value w = (\<lambda>k. case vals ?h k of [] \<Rightarrow> [] | x # _ \<Rightarrow> x)" by (simp add: Get_value_def fun_eq_iff w(3))
  have has: "Has w k \<longleftrightarrow> vals ?h k \<noteq> []" for k using values_ok_Has [OF w(2)] by (simp add: w(3))
  have ints: "in_int64 (ml_MemLimitMB ?l)" "in_int64 (ml_KeepCold ?l)" "in_int64 (ml_KeepHot ?l)" using p by (simp_all add: plain_template_def Let_def)
  have "read_flag w ''p'' = Some (ml_Public ?l)" "read_flag w ''x'' = Some (ml_Crossplay ?l)" "read_flag w ''br'' = Some (ml_OnRestart ?l)"
    by (simp_all add: read_flag_def g header_vals)
  moreover have "read_number w ''mem'' = Some (ml_MemLimitMB ?l)" "read_number w ''bc'' = Some (ml_KeepCold ?l)" "read_number w ''bh'' = Some (ml_KeepHot ?l)"
    using ints by (simp_all add: read_number_def has g header_vals atoi_Itoa)
  moreover have "read_cpu pf w = Some (ml_CPULimit ?l)"
    using p by (cases "ml_CPULimit ?l") (simp_all add: read_cpu_def has g header_vals plain_template_def Let_def)
  moreover have "foldR decodeModifier (vals w ''m'') [] = Inr (sort_key fst (ml_Modifiers ?l))"
    unfolding w(3) header_vals using p colon decode_modifiers [of "[]" "sort_key fst (ml_Modifiers ?l)"]
    by (simp add: plain_template_def Let_def distinct_sort_key list_all_iff)
  moreover have "Get_value w ''n'' = tp_Name t" "Get_value w ''s'' = ml_ServerName ?l" "Get_value w ''w'' = ml_WorldName ?l"
    "Get_value w ''r'' = ml_Preset ?l" "Get_value w ''a'' = ml_ExtraArgs ?l" by (simp_all add: g header_vals)
  ultimately show "decodeHeader pf header = Inr ((read_back t)\<lparr>tp_Mods := [], tp_Configs := []\<rparr>)"
    using w(1) k by (simp add: decodeHeader_def read_back_def)
qed

subsection \<open>The code\<close>

lemma mapR_Inr: "mapR f xs = Inr ys \<longleftrightarrow> list_all2 (\<lambda>x y. f x = Inr y) xs ys"
  by (induction xs arbitrary: ys) (auto simp: rbind_eq_Inr list_all2_Cons1)

lemma decode_mods:
  assumes "mapR encodeMod ms = Inr ls"
  shows "mapR decodeMod ls = Inr (map read_back_mod ms)" and "\<And>l. l \<in> set ls \<Longrightarrow> newline \<notin> set l \<and> \<not> is_prefix_of ''#'' l"
    and "list_all (\<lambda>m. utf8_Valid (mm_FullName m) \<and> utf8_Valid (mm_Version m) \<and> utf8_Valid (mm_Source m)) ms \<Longrightarrow> l \<in> set ls \<Longrightarrow> utf8_Valid l"
proof -
  have a: "list_all2 (\<lambda>m l. encodeMod m = Inr l) ms ls" using assms by (simp add: mapR_Inr)
  then show "mapR decodeMod ls = Inr (map read_back_mod ms)" by (induction rule: list_all2_induct) (simp_all add: decode_encode_mod)
  show "l \<in> set ls \<Longrightarrow> newline \<notin> set l \<and> \<not> is_prefix_of ''#'' l" for l
    using a decode_encode_mod by (induction rule: list_all2_induct) auto
  show "utf8_Valid l" if "list_all (\<lambda>m. utf8_Valid (mm_FullName m) \<and> utf8_Valid (mm_Version m) \<and> utf8_Valid (mm_Source m)) ms" "l \<in> set ls"
    using a that decode_encode_mod(4) by (induction rule: list_all2_induct) auto
qed

lemma decode_configs:
  assumes "mapR encodeConfig cs = Inr ss"
  shows "concat ss = unlines (concat (map config_lines cs))"
    and "fold read_config_line (concat (map config_lines cs)) acc = acc @ map read_back_config cs"
    and "\<And>l. l \<in> set (concat (map config_lines cs)) \<Longrightarrow> newline \<notin> set l"
    and "list_all (\<lambda>c. utf8_Valid (mc_File c) \<and> utf8_Valid (mc_Content c)) cs \<Longrightarrow> s \<in> set ss \<Longrightarrow> utf8_Valid s"
proof -
  have a: "list_all2 (\<lambda>c s. encodeConfig c = Inr s) cs ss" using assms by (simp add: mapR_Inr)
  from a show "concat ss = unlines (concat (map config_lines cs))"
    by (induction rule: list_all2_induct) (simp_all add: encode_config_lines(1))
  from a show "fold read_config_line (concat (map config_lines cs)) acc = acc @ map read_back_config cs"
    by (induction arbitrary: acc rule: list_all2_induct) (simp_all add: encode_config_lines(3))
  from a show "l \<in> set (concat (map config_lines cs)) \<Longrightarrow> newline \<notin> set l" for l
    by (induction rule: list_all2_induct) (auto dest: encode_config_lines(2))
  show "utf8_Valid s" if "list_all (\<lambda>c. utf8_Valid (mc_File c) \<and> utf8_Valid (mc_Content c)) cs" "s \<in> set ss"
    using a that encode_config_lines(4) by (induction rule: list_all2_induct) auto
qed

lemma starts_hash:
  "xs = [] \<or> is_prefix_of ''#'' (hd xs) \<Longrightarrow> takeWhile (\<lambda>l. \<not> is_prefix_of ''#'' l) xs = [] \<and> dropWhile (\<lambda>l. \<not> is_prefix_of ''#'' l) xs = xs"
  by (cases xs) auto

lemma decode_encode_payload:
  assumes p: "plain_template ff pf t" and e: "encodePayload ff t = Inr payload"
  shows "decodePayload pf payload = Inr (read_back t)" and "utf8_Valid payload"
proof -
  from e obtain header mods configs where h: "encodeHeader ff t = Inr header" and m: "mapR encodeMod (tp_Mods t) = Inr mods"
    and c: "mapR encodeConfig (tp_Configs t) = Inr configs"
    and payload: "payload = header @ [newline] @ concat (map (\<lambda>l. l @ [newline]) mods) @ concat configs"
    by (auto simp: encodePayload_def rbind_eq_Inr)
  note dh = decode_encode_header [OF p h] and dm = decode_mods [OF m] and dc = decode_configs [OF c]
  let ?cl = "concat (map config_lines (tp_Configs t))"
  have u: "payload = unlines (header # mods @ ?cl)" by (simp add: payload dc(1) unlines_def)
  have "split_on newline payload = (header # mods @ ?cl) @ [[]]"
    unfolding u by (rule split_unlines) (use dh(2) dm(2) dc(3) in \<open>auto simp: plain_query_def\<close>)
  then have ls: "split_on newline payload = header # mods @ ?cl @ [[]]" by simp
  have tw: "takeWhile (\<lambda>l. \<not> is_prefix_of ''#'' l) (mods @ ?cl) = mods" "dropWhile (\<lambda>l. \<not> is_prefix_of ''#'' l) (mods @ ?cl) = ?cl"
  proof -
    have "?cl = [] \<or> is_prefix_of ''#'' (hd ?cl)" by (cases "tp_Configs t") (simp_all add: config_lines_def)
    note starts_hash [OF this]
    then show "takeWhile (\<lambda>l. \<not> is_prefix_of ''#'' l) (mods @ ?cl) = mods" "dropWhile (\<lambda>l. \<not> is_prefix_of ''#'' l) (mods @ ?cl) = ?cl"
      using takeWhile_append2 [of mods "\<lambda>l. \<not> is_prefix_of ''#'' l" ?cl] dropWhile_append2 [of mods "\<lambda>l. \<not> is_prefix_of ''#'' l" ?cl] dm(2) by auto
  qed
  have b: "butlast (header # mods @ ?cl @ [[]]) = header # mods @ ?cl" "last (header # mods @ ?cl @ [[]]) = []"
    using butlast_append [of "header # mods @ ?cl" "[[]]"] last_append [of "header # mods @ ?cl" "[[]]"] by simp_all
  show "decodePayload pf payload = Inr (read_back t)"
    unfolding decodePayload_def Let_def ls b using dc(2) [of "[]"] by (simp add: dh(1) tw dm(1) read_back_def)
  have "utf8_Valid header" using dh(2) by (intro utf8_Valid_ascii) (simp add: plain_query_def)
  moreover have "utf8_Valid [newline]" by (simp add: utf8_Valid_def)
  moreover have "utf8_Valid (l @ [newline])" if "l \<in> set mods" for l
    by (rule utf8_Valid_append [OF dm(3) [OF _ that]]) (use p in \<open>simp_all add: plain_template_def Let_def utf8_Valid_def\<close>)
  moreover have "utf8_Valid s" if "s \<in> set configs" for s
    by (rule dc(4) [OF _ that]) (use p in \<open>simp add: plain_template_def Let_def\<close>)
  ultimately show "utf8_Valid payload" unfolding payload by (intro utf8_Valid_append utf8_Valid_concat) auto
qed

lemma RawURL_printable: "c \<in> set (RawURL_Encode s) \<Longrightarrow> 0x20 < byte_of c \<and> byte_of c < 128 \<and> c \<noteq> CHR ''=''"
  using RawURL_chars by (fastforce simp: unreserved_def is_lower_def is_upper_def is_digit_def)

lemma code_printable:
  assumes "Encode deflate ff t = Inr code" "c \<in> set code"
  shows "0x20 < byte_of c \<and> byte_of c < 128"
proof -
  obtain s where "code = Prefix @ RawURL_Encode s" using assms(1) by (auto simp: Encode_def rbind_eq_Inr)
  moreover have "0x20 < byte_of c \<and> byte_of c < 128" if "c \<in> set Prefix" using that by (auto simp: Prefix_def)
  ultimately show ?thesis using assms(2) RawURL_printable by auto
qed

text \<open>C16. A template survives being shared. Take a template whose modifiers are named, each name once, whose package
  entries and configuration files are valid UTF-8, whose numbers fit 64 bits and whose CPU limit is read back from
  its printed form, and a compressor whose output inflates to its input. If it can be written as a code, then decoding
  that code -- however white space was added to it on the way -- gives the template back, up to what the format does
  not keep: modifiers come back sorted, a package without a registry comes back with the default one, an unknown
  side as none, and a configuration file ends in a newline. A payload longer than the reader's limit is refused,
  never cut. (The writer accepts a modifier without a name, which the reader refuses: \<open>unnamed_modifier_unreadable\<close>.)\<close>

theorem share_code_roundtrip:
  assumes "\<And>payload n. inflate (deflate payload) n = Some (take n payload)"
    and "plain_template formatFloat parseFloat t" and "encodePayload formatFloat t = Inr payload"
    and "Encode deflate formatFloat t = Inr code" and "join_fields text = code"
  shows "Decode inflate parseFloat text maxBytes = (if length payload \<le> maxBytes then Inr (read_back t) else Inl ErrTooLarge) \<and>
    join_fields code = code"
proof
  have code: "code = Prefix @ RawURL_Encode (deflate payload)" using assms(3,4) by (simp add: Encode_def)
  show "join_fields code = code" by (rule join_fields_printable) (rule code_printable [OF assms(4)])
  have "TrimRight (RawURL_Encode s) ''='' = RawURL_Encode s" for s
    using TrimRight_parts [of "[]" "''=''" "RawURL_Encode s"] RawURL_printable [of "last (RawURL_Encode s)" s] by (cases "RawURL_Encode s = []") auto
  moreover have "is_prefix_of Prefix (Prefix @ s)" for s by (simp add: is_prefix_of_iff)
  ultimately show "Decode inflate parseFloat text maxBytes = (if length payload \<le> maxBytes then Inr (read_back t) else Inl ErrTooLarge)"
    using decode_encode_payload [OF assms(2,3)] unfolding Decode_def Let_def assms(5) code
    by (simp add: RawURL_roundtrip assms(1))
qed

subsection \<open>An example\<close>

definition ex_template :: "string Template" where
  "ex_template =
     \<lparr>tp_Name = ''Our world'',
      tp_Launch = \<lparr>ml_ServerName = ''s&1'', ml_WorldName = ''w'', ml_Public = True, ml_Crossplay = False, ml_Preset = [],
        ml_Modifiers = [(''raids'', ''none''), (''combat'', ''hard'')], ml_ExtraArgs = [], ml_MemLimitMB = 4096, ml_CPULimit = Some ''1.5'',
        ml_KeepCold = 2, ml_KeepHot = 0, ml_OnRestart = False\<rparr>,
      tp_Mods = [\<lparr>mm_FullName = ''A-B'', mm_Source = [], mm_Version = ''1.0.0'', mm_Side = ''server_only''\<rparr>],
      tp_Configs = [\<lparr>mc_File = ''a.cfg'', mc_Content = ''[G]''\<rparr>]\<rparr>"

definition ex_code :: string where
  "ex_code = projr (Encode (\<lambda>s. s) (\<lambda>s. s) ex_template)"

theorem share_code_roundtrip_witness:
  "Decode (\<lambda>s n. Some (take n s)) Some (ex_code @ [newline]) 1000 = Inr (read_back ex_template)"
proof -
  have p: "plain_template (\<lambda>s. s) Some ex_template" by code_simp
  have e: "case encodePayload (\<lambda>s. s) ex_template of Inl _ \<Rightarrow> False | Inr p \<Rightarrow> length p \<le> 1000" by code_simp
  then obtain payload where pl: "encodePayload (\<lambda>s. s) ex_template = Inr payload" "length payload \<le> 1000" by (auto split: sum.splits)
  have c: "Encode (\<lambda>s. s) (\<lambda>s. s) ex_template = Inr ex_code" using pl(1) by (simp add: ex_code_def Encode_def)
  have "join_fields (ex_code @ [newline]) = ex_code @ join_fields [newline]" by (rule join_fields_append) (rule code_printable [OF c])
  then have "join_fields (ex_code @ [newline]) = ex_code" by (simp add: join_fields_newline)
  from share_code_roundtrip [of "\<lambda>s n. Some (take n s)" "\<lambda>s. s", OF HOL.refl p pl(1) c this, of 1000] pl(2) show ?thesis by simp
qed

text \<open>The writer accepts a modifier without a name, which the reader refuses.\<close>

lemma unnamed_modifier_unreadable:
  "case encodeHeader (\<lambda>s. s) (ex_template\<lparr>tp_Launch := (tp_Launch ex_template)\<lparr>ml_Modifiers := [([], ''x'')]\<rparr>\<rparr>) of
     Inl _ \<Rightarrow> False
   | Inr header \<Rightarrow> decodeHeader Some header = Inl ErrBadPayload"
  by code_simp

end
