(* ===== verification/Rate_Limit.thy ===== *)
theory Rate_Limit
  imports Complex_Main Go_Prelude "HOL-Library.Multiset"
begin

text \<open>
  \<open>internal/ratelimit/limiter.go\<close>: token buckets in a bounded table, one per key. Instants are seconds and token
  counts exact rationals where the code has floating-point numbers; a wait is rounded down to nanoseconds as
  the code rounds it. The table is an association list in the order the sweep happens to visit it.
\<close>

subsection \<open>Limiters\<close>

record bucket =
  tb_tokens :: rat
  tb_last :: rat

record Limiter =
  lm_rate :: rat
  lm_burst :: rat
  lm_maxKeys :: nat
  lm_buckets :: "(string \<times> bucket) list"

definition New :: "int \<Rightarrow> rat \<Rightarrow> int \<Rightarrow> Limiter" where
  "New per period burst =
     \<lparr>lm_rate = of_int per / period, lm_burst = of_int burst, lm_maxKeys = 10000, lm_buckets = []\<rparr>"

definition store_bucket :: "string \<Rightarrow> bucket \<Rightarrow> (string \<times> bucket) list \<Rightarrow> (string \<times> bucket) list" where
  "store_bucket key b bs = map (\<lambda>(k, c). if k = key then (k, b) else (k, c)) bs"

definition Refund :: "string \<Rightarrow> Limiter \<Rightarrow> Limiter" where
  "Refund key l =
     (case map_of (lm_buckets l) key of
        None \<Rightarrow> l
      | Some b \<Rightarrow> l\<lparr>lm_buckets := store_bucket key (b\<lparr>tb_tokens := min (lm_burst l) (tb_tokens b + 1)\<rparr>) (lm_buckets l)\<rparr>)"

definition refilled :: "Limiter \<Rightarrow> rat \<Rightarrow> bucket \<Rightarrow> rat" where
  "refilled l now b = tb_tokens b + (now - tb_last b) * lm_rate l"

text \<open>One key of the sweep: drop it when full, otherwise remember it if it is the least recently seen so far.\<close>

definition sweep_key :: "Limiter \<Rightarrow> rat \<Rightarrow> string \<times> bucket \<Rightarrow> (string \<times> bucket) list \<times> string \<times> rat \<Rightarrow> (string \<times> bucket) list \<times> string \<times> rat" where
  "sweep_key l now kb acc =
     (case (kb, acc) of ((k, b), (kept, oldestKey, oldest)) \<Rightarrow>
        if refilled l now b \<ge> lm_burst l then acc
        else if oldestKey = [] \<or> tb_last b < oldest then (kept @ [(k, b)], k, tb_last b)
        else (kept @ [(k, b)], oldestKey, oldest))"

definition sweep :: "rat \<Rightarrow> Limiter \<Rightarrow> Limiter" where
  "sweep now l =
     (if length (lm_buckets l) < lm_maxKeys l then l
      else case fold (sweep_key l now) (lm_buckets l) ([], [], 0) of
          (kept, oldestKey, _) \<Rightarrow>
            l\<lparr>lm_buckets := (if length kept \<ge> lm_maxKeys l \<and> oldestKey \<noteq> [] then filter (\<lambda>(k, _). k \<noteq> oldestKey) kept else kept)\<rparr>)"

text \<open>The second result is how long to wait, in seconds, when the answer is no.\<close>

definition Allow :: "string \<Rightarrow> rat \<Rightarrow> Limiter \<Rightarrow> (bool \<times> rat) \<times> Limiter" where
  "Allow key now l =
     (let (b, l1) =
        (case map_of (lm_buckets l) key of
           Some b \<Rightarrow> (b, l)
         | None \<Rightarrow>
             (let s = sweep now l; b = \<lparr>tb_tokens = lm_burst l, tb_last = now\<rparr> in (b, s\<lparr>lm_buckets := lm_buckets s @ [(key, b)]\<rparr>)));
          tokens = min (lm_burst l1) (refilled l1 now b)
      in if tokens < 1
         then ((False, of_int \<lfloor>(1 - tokens) / lm_rate l1 * 10 ^ 9\<rfloor> / 10 ^ 9 + 1),
               l1\<lparr>lm_buckets := store_bucket key \<lparr>tb_tokens = tokens, tb_last = now\<rparr> (lm_buckets l1)\<rparr>)
         else ((True, 0), l1\<lparr>lm_buckets := store_bucket key \<lparr>tb_tokens = tokens - 1, tb_last = now\<rparr> (lm_buckets l1)\<rparr>))"

subsection \<open>The table\<close>

lemma map_of_store: "map_of (store_bucket key b bs) k = (if k = key \<and> map_of bs k \<noteq> None then Some b else map_of bs k)"
  unfolding store_bucket_def by (induction bs) auto

lemma keys_store [simp]: "map fst (store_bucket key b bs) = map fst bs"
  unfolding store_bucket_def by (induction bs) auto

lemma set_store: "x \<in> set (store_bucket key b bs) \<Longrightarrow> x = (key, b) \<or> x \<in> set bs"
  unfolding store_bucket_def by (auto split: if_splits)

text \<open>What the sweep keeps: the buckets that are not full, in order, less the oldest when they are still too many.\<close>

lemma sweep_fields [simp]: "lm_rate (sweep now l) = lm_rate l" "lm_burst (sweep now l) = lm_burst l" "lm_maxKeys (sweep now l) = lm_maxKeys l"
  by (simp_all add: sweep_def split: prod.split)

lemma sweep_fold_kept:
  "fst (fold (sweep_key l now) bs (kept, k0, t0)) = kept @ filter (\<lambda>(k, b). \<not> refilled l now b \<ge> lm_burst l) bs"
  by (induction bs arbitrary: kept k0 t0) (auto simp: sweep_key_def)

lemma sweep_fold_oldest:
  assumes "[] \<notin> fst ` set bs" "k0 \<noteq> [] \<or> (\<exists>x \<in> set bs. \<not> refilled l now (snd x) \<ge> lm_burst l)"
  shows "fst (snd (fold (sweep_key l now) bs (kept, k0, t0))) \<noteq> [] \<and>
         fst (snd (fold (sweep_key l now) bs (kept, k0, t0))) \<in> insert k0 (fst ` {x \<in> set bs. \<not> refilled l now (snd x) \<ge> lm_burst l})"
  using assms
proof (induction bs arbitrary: kept k0 t0)
  case (Cons x bs)
  obtain k b where x: "x = (k, b)" by fastforce
  show ?case
  proof (cases "refilled l now b \<ge> lm_burst l")
    case True
    then have s: "fold (sweep_key l now) (x # bs) (kept, k0, t0) = fold (sweep_key l now) bs (kept, k0, t0)"
      by (simp add: sweep_key_def x)
    show ?thesis unfolding s using Cons.IH [of k0 kept t0] Cons.prems True by (auto simp: x)
  next
    case False
    then obtain k1 t1 where s: "sweep_key l now x (kept, k0, t0) = (kept @ [x], k1, t1)" "k1 = k \<or> k0 \<noteq> [] \<and> k1 = k0"
      by (cases "k0 = [] \<or> tb_last b < t0") (auto simp: sweep_key_def x)
    then have f: "fold (sweep_key l now) (x # bs) (kept, k0, t0) = fold (sweep_key l now) bs (kept @ [x], k1, t1)" by simp
    have "k1 \<noteq> []" using s(2) Cons.prems(1) by (auto simp: x)
    moreover have "k1 \<in> insert k0 (fst ` {y \<in> set (x # bs). \<not> refilled l now (snd y) \<ge> lm_burst l})"
      using s(2) False by (force simp: x)
    ultimately show ?thesis unfolding f using Cons.IH [of k1 "kept @ [x]" t1] Cons.prems(1) by auto
  qed
qed auto

lemma sweep_room:
  assumes d: "distinct (map fst (lm_buckets l))" and e: "[] \<notin> fst ` set (lm_buckets l)"
    and n: "length (lm_buckets l) \<le> lm_maxKeys l" "0 < lm_maxKeys l"
  shows "length (lm_buckets (sweep now l)) < lm_maxKeys l" and "set (lm_buckets (sweep now l)) \<subseteq> set (lm_buckets l)"
    and "distinct (map fst (lm_buckets (sweep now l)))" and "lm_maxKeys (sweep now l) = lm_maxKeys l"
    and "lm_burst (sweep now l) = lm_burst l" and "lm_rate (sweep now l) = lm_rate l"
proof -
  let ?bs = "lm_buckets l" and ?p = "\<lambda>(k, b). \<not> refilled l now b \<ge> lm_burst l"
  obtain kept ok t where f: "fold (sweep_key l now) ?bs ([], [], 0) = (kept, ok, t)" by (metis prod_cases3)
  have kept: "kept = filter ?p ?bs" using sweep_fold_kept [of l now ?bs "[]" "[]" 0] by (simp add: f)
  have ok: "ok \<noteq> [] \<and> ok \<in> fst ` {x \<in> set ?bs. ?p x}" if "\<exists>x \<in> set ?bs. ?p x"
    using sweep_fold_oldest [OF e, of "[]" l now "[]" 0] that by (auto simp: f case_prod_beta)
  define r where "r = (if length kept \<ge> lm_maxKeys l \<and> ok \<noteq> [] then filter (\<lambda>(k, _). k \<noteq> ok) kept else kept)"
  have s: "lm_buckets (sweep now l) = (if length ?bs < lm_maxKeys l then ?bs else r)" by (simp add: sweep_def f r_def)
  have "length r < lm_maxKeys l"
  proof (cases "length kept \<ge> lm_maxKeys l")
    case False
    then show ?thesis by (simp add: r_def)
  next
    case True
    then have "kept \<noteq> []" using n(2) by auto
    then obtain y where "y \<in> set ?bs" "?p y" unfolding kept by (metis filter_False)
    then have okk: "ok \<noteq> []" "ok \<in> fst ` set kept" using ok by (auto simp: kept)
    then obtain x where x: "x \<in> set kept" "fst x = ok" by auto
    then have "length (filter (\<lambda>(k, _). k \<noteq> ok) kept) < length kept" by (intro length_filter_less) auto
    also have "length kept \<le> lm_maxKeys l" unfolding kept by (rule le_trans [OF length_filter_le n(1)])
    finally show ?thesis using True okk by (simp add: r_def)
  qed
  then show "length (lm_buckets (sweep now l)) < lm_maxKeys l" by (simp add: s)
  have r: "set r \<subseteq> set ?bs" "distinct (map fst r)" using d by (auto simp: r_def kept distinct_map_filter)
  then show "set (lm_buckets (sweep now l)) \<subseteq> set ?bs" "distinct (map fst (lm_buckets (sweep now l)))" using d by (simp_all add: s)
  show "lm_maxKeys (sweep now l) = lm_maxKeys l" "lm_burst (sweep now l) = lm_burst l" "lm_rate (sweep now l) = lm_rate l"
    by (simp_all add: sweep_def f)
qed


subsection \<open>Sequences of requests\<close>

text \<open>
  A run of the limiter: requests at the instants the clock showed, refunds, and the map's order changing, as
  Go's does from one sweep to the next.
\<close>

datatype event = Ask string rat | Give_back string | Reorder "(string \<times> bucket) list"

fun event_step :: "event \<Rightarrow> Limiter \<Rightarrow> bool \<times> Limiter" where
  "event_step (Ask k now) l = (case Allow k now l of ((ok, _), l') \<Rightarrow> (ok, l'))"
| "event_step (Give_back k) l = (False, Refund k l)"
| "event_step (Reorder bs) l = (False, if mset bs = mset (lm_buckets l) then l\<lparr>lm_buckets := bs\<rparr> else l)"

fun asks :: "string \<Rightarrow> event \<Rightarrow> bool" where
  "asks k (Ask q now) = (q = k)"
| "asks k e = False"

text \<open>What a key is answered, and how often with yes.\<close>

fun answers :: "string \<Rightarrow> event list \<Rightarrow> Limiter \<Rightarrow> bool list" where
  "answers k [] l = []"
| "answers k (e # es) l = (case event_step e l of (ok, l') \<Rightarrow> (if asks k e then [ok] else []) @ answers k es l')"

definition granted :: "string \<Rightarrow> event list \<Rightarrow> Limiter \<Rightarrow> nat" where
  "granted k es l = length (filter id (answers k es l))"

lemma granted_simps [simp]:
  "granted k [] l = 0"
  "granted k (e # es) l = (case event_step e l of (ok, l') \<Rightarrow> (if ok \<and> asks k e then 1 else 0) + granted k es l')"
  by (simp_all add: granted_def split: prod.split)

fun after :: "event list \<Rightarrow> Limiter \<Rightarrow> Limiter" where
  "after [] l = l"
| "after (e # es) l = after es (snd (event_step e l))"

fun refunds :: "string \<Rightarrow> event list \<Rightarrow> nat" where
  "refunds k [] = 0"
| "refunds k (e # es) = (if e = Give_back k then 1 else 0) + refunds k es"

fun asked :: "event list \<Rightarrow> string set" where
  "asked [] = {}"
| "asked (Ask k now # es) = insert k (asked es)"
| "asked (e # es) = asked es"

text \<open>The clock never runs backwards, and where it stands at the end.\<close>

fun in_order :: "rat \<Rightarrow> event list \<Rightarrow> bool" where
  "in_order t [] = True"
| "in_order t (Ask k now # es) = (t \<le> now \<and> in_order now es)"
| "in_order t (e # es) = in_order t es"

fun end_time :: "rat \<Rightarrow> event list \<Rightarrow> rat" where
  "end_time t [] = t"
| "end_time t (Ask k now # es) = end_time now es"
| "end_time t (e # es) = end_time t es"

text \<open>A key of its own: one bucket, full at first, that refills at the rate up to the burst, gives a token for every yes
  and takes one back for every refund. There is no table and nothing is ever swept.\<close>

fun bucket_answers :: "rat \<Rightarrow> rat \<Rightarrow> string \<Rightarrow> event list \<Rightarrow> rat \<Rightarrow> rat \<Rightarrow> bool list" where
  "bucket_answers r B k [] x t = []"
| "bucket_answers r B k (Ask q now # es) x t =
     (if q = k
      then (let y = min B (x + (now - t) * r)
            in if 1 \<le> y then True # bucket_answers r B k es (y - 1) now else False # bucket_answers r B k es y now)
      else bucket_answers r B k es x t)"
| "bucket_answers r B k (Give_back q # es) x t = bucket_answers r B k es (if q = k then min B (x + 1) else x) t"
| "bucket_answers r B k (Reorder bs # es) x t = bucket_answers r B k es x t"

text \<open>Whenever a key comes that the table does not have, fewer keys than the table can hold are still refilling.\<close>

definition refilling :: "rat \<Rightarrow> Limiter \<Rightarrow> (string \<times> bucket) list" where
  "refilling now l = filter (\<lambda>(k, b). \<not> refilled l now b \<ge> lm_burst l) (lm_buckets l)"

definition has_room :: "event \<Rightarrow> Limiter \<Rightarrow> bool" where
  "has_room e l =
     (case e of Ask k now \<Rightarrow> map_of (lm_buckets l) k = None \<longrightarrow> length (refilling now l) < lm_maxKeys l | _ \<Rightarrow> True)"

fun uncrowded :: "event list \<Rightarrow> Limiter \<Rightarrow> bool" where
  "uncrowded [] l = True"
| "uncrowded (e # es) l \<longleftrightarrow> has_room e l \<and> uncrowded es (snd (event_step e l))"

subsection \<open>What a key has left\<close>

definition avail :: "Limiter \<Rightarrow> string \<Rightarrow> rat \<Rightarrow> rat" where
  "avail l k t = (case map_of (lm_buckets l) k of None \<Rightarrow> lm_burst l | Some b \<Rightarrow> min (lm_burst l) (refilled l t b))"

definition sane :: "Limiter \<Rightarrow> rat \<Rightarrow> bool" where
  "sane l t \<longleftrightarrow> 0 \<le> lm_rate l \<and> 0 \<le> lm_burst l \<and> distinct (map fst (lm_buckets l)) \<and>
     (\<forall>(k, b) \<in> set (lm_buckets l). 0 \<le> tb_tokens b \<and> tb_last b \<le> t)"

lemma avail_ge_0: "sane l t \<Longrightarrow> 0 \<le> avail l k t"
  by (auto simp: avail_def sane_def refilled_def split: option.split dest!: map_of_SomeD)

lemma avail_later:
  assumes "sane l t" "t \<le> t'"
  shows "avail l k t' \<le> avail l k t + lm_rate l * (t' - t)"
proof -
  have d: "0 \<le> lm_rate l * (t' - t)" using assms by (simp add: sane_def)
  have "refilled l t' b = refilled l t b + lm_rate l * (t' - t)" for b by (simp add: refilled_def algebra_simps)
  then show ?thesis using d by (auto simp: avail_def min_def split: option.split)
qed

lemma sane_later: "sane l t \<Longrightarrow> t \<le> t' \<Longrightarrow> sane l t'"
  unfolding sane_def by fastforce

text \<open>An answer: a token spent when one was there, and nothing changed for any other key the sweep leaves alone.\<close>

lemma map_of_append_single: "map_of (bs @ [(k, b)]) k' = (case map_of bs k' of None \<Rightarrow> (if k' = k then Some b else None) | Some c \<Rightarrow> Some c)"
  by (simp add: map_add_def split: option.split)

lemma Allow_known:
  assumes "map_of (lm_buckets l) k = Some b"
  shows "Allow k now l =
    (if avail l k now < 1
     then ((False, of_int \<lfloor>(1 - avail l k now) / lm_rate l * 10 ^ 9\<rfloor> / 10 ^ 9 + 1),
           l\<lparr>lm_buckets := store_bucket k \<lparr>tb_tokens = avail l k now, tb_last = now\<rparr> (lm_buckets l)\<rparr>)
     else ((True, 0), l\<lparr>lm_buckets := store_bucket k \<lparr>tb_tokens = avail l k now - 1, tb_last = now\<rparr> (lm_buckets l)\<rparr>))"
  using assms by (simp add: Allow_def avail_def Let_def)

text \<open>A request under a new key is a request under a known one, in the swept table with a full bucket added.\<close>

lemma Allow_new:
  assumes "map_of (lm_buckets l) k = None" "map_of (lm_buckets (sweep now l)) k = None" "lm_burst (sweep now l) = lm_burst l"
  shows "Allow k now l =
    Allow k now ((sweep now l)\<lparr>lm_buckets := lm_buckets (sweep now l) @ [(k, \<lparr>tb_tokens = lm_burst l, tb_last = now\<rparr>)]\<rparr>)"
  using assms by (simp add: Allow_def Let_def map_add_def)

lemma store_sane:
  assumes "sane l t" "0 \<le> tb_tokens b" "tb_last b \<le> t"
  shows "sane (l\<lparr>lm_buckets := store_bucket k b (lm_buckets l)\<rparr>) t"
  using assms unfolding sane_def by (auto dest!: set_store)

lemma avail_store:
  assumes "map_of (lm_buckets l) k \<noteq> None"
  shows "avail (l\<lparr>lm_buckets := store_bucket k b (lm_buckets l)\<rparr>) k' t =
    (if k' = k then min (lm_burst l) (refilled l t b) else avail l k' t)"
  using assms by (auto simp: avail_def map_of_store refilled_def split: option.split)

lemma Allow_known_effect:
  assumes s: "sane l now" and b: "map_of (lm_buckets l) k = Some b" and r: "Allow k now l = ((ok, w), l')"
  shows "sane l' now" "ok \<longleftrightarrow> 1 \<le> avail l k now" "avail l' k' now = avail l k' now - (if ok \<and> k' = k then 1 else 0)"
    "lm_rate l' = lm_rate l" "lm_burst l' = lm_burst l" "lm_maxKeys l' = lm_maxKeys l" "map fst (lm_buckets l') = map fst (lm_buckets l)"
proof -
  have B: "avail l k now \<le> lm_burst l" by (simp add: avail_def split: option.split)
  have p: "0 \<le> avail l k now" by (rule avail_ge_0 [OF s])
  have m: "map_of (lm_buckets l) k \<noteq> None" using b by simp
  note e = r [unfolded Allow_known [OF b]]
  show "ok \<longleftrightarrow> 1 \<le> avail l k now" using e by (auto split: if_splits)
  show "sane l' now" using e s p by (auto split: if_splits intro!: store_sane)
  show "avail l' k' now = avail l k' now - (if ok \<and> k' = k then 1 else 0)"
    using e B by (auto simp: avail_store [OF m] refilled_def split: if_splits)
  show "lm_rate l' = lm_rate l" "lm_burst l' = lm_burst l" "lm_maxKeys l' = lm_maxKeys l" "map fst (lm_buckets l') = map fst (lm_buckets l)"
    using e by (auto split: if_splits)
qed

text \<open>With room, the sweep drops full buckets only, which says nothing new to anyone.\<close>

lemma sweep_with_room:
  assumes "length (refilling now l) < lm_maxKeys l"
  shows "sweep now l = l \<or> sweep now l = l\<lparr>lm_buckets := refilling now l\<rparr>"
proof -
  obtain kept ok t where f: "fold (sweep_key l now) (lm_buckets l) ([], [], 0) = (kept, ok, t)" by (metis prod_cases3)
  have "kept = refilling now l" using sweep_fold_kept [of l now "lm_buckets l" "[]" "[]" 0] by (simp add: f refilling_def)
  with assms show ?thesis by (simp add: sweep_def f)
qed

lemma map_of_refilling:
  assumes "distinct (map fst (lm_buckets l))"
  shows "map_of (refilling now l) k =
    (case map_of (lm_buckets l) k of None \<Rightarrow> None | Some b \<Rightarrow> if refilled l now b \<ge> lm_burst l then None else Some b)"
proof -
  have "map_of (filter (\<lambda>(k, b). \<not> refilled l now b \<ge> lm_burst l) bs) k =
      (case map_of bs k of None \<Rightarrow> None | Some b \<Rightarrow> if refilled l now b \<ge> lm_burst l then None else Some b)"
    if "distinct (map fst bs)" for bs
    using that
  proof (induction bs)
    case (Cons x bs)
    then show ?case by (cases x) (auto simp: map_of_eq_None_iff split: option.splits if_splits)
  qed simp
  from this [OF assms] show ?thesis by (simp add: refilling_def)
qed

lemma sweep_sane:
  assumes "sane l now" and "length (refilling now l) < lm_maxKeys l"
  shows "sane (sweep now l) now" and "avail (sweep now l) k now = avail l k now"
    and "map_of (lm_buckets l) q = None \<Longrightarrow> map_of (lm_buckets (sweep now l)) q = None"
proof -
  have d: "distinct (map fst (lm_buckets l))" using assms(1) by (simp add: sane_def)
  have "sane (l\<lparr>lm_buckets := refilling now l\<rparr>) now"
    using assms(1) by (auto simp: sane_def refilling_def distinct_map_filter)
  with sweep_with_room [OF assms(2)] assms(1) show "sane (sweep now l) now" by metis
  have "avail (l\<lparr>lm_buckets := refilling now l\<rparr>) k now = avail l k now"
    using map_of_refilling [OF d, of now k] by (auto simp: avail_def refilled_def split: option.split)
  with sweep_with_room [OF assms(2)] show "avail (sweep now l) k now = avail l k now" by metis
  show "map_of (lm_buckets (sweep now l)) q = None" if "map_of (lm_buckets l) q = None"
    using sweep_with_room [OF assms(2)] map_of_refilling [OF d, of now q] that by auto
qed

lemma add_full_sane:
  assumes "sane l now" "map_of (lm_buckets l) k = None"
  shows "sane (l\<lparr>lm_buckets := lm_buckets l @ [(k, \<lparr>tb_tokens = lm_burst l, tb_last = now\<rparr>)]\<rparr>) now"
  using assms by (auto simp: sane_def map_of_eq_None_iff)

lemma add_full_avail:
  assumes "map_of (lm_buckets l) k = None"
  shows "avail (l\<lparr>lm_buckets := lm_buckets l @ [(k, \<lparr>tb_tokens = lm_burst l, tb_last = now\<rparr>)]\<rparr>) k' now = avail l k' now"
  using assms unfolding avail_def by (cases "k' = k") (auto simp: map_add_def refilled_def split: option.split)

lemma Allow_effect:
  assumes s: "sane l now" and room: "has_room (Ask k now) l" and r: "Allow k now l = ((ok, w), l')"
  shows "sane l' now \<and> avail l' k' now = avail l k' now - (if ok \<and> k' = k then 1 else 0) \<and>
    lm_rate l' = lm_rate l \<and> lm_burst l' = lm_burst l \<and> lm_maxKeys l' = lm_maxKeys l"
proof (cases "map_of (lm_buckets l) k")
  case (Some b)
  from Allow_known_effect [OF s Some r] show ?thesis by metis
next
  case None
  with room have n: "length (refilling now l) < lm_maxKeys l" by (simp add: has_room_def)
  note sw = sweep_sane [OF s n] and N = sweep_sane(3) [OF s n None]
  define m where "m = (sweep now l)\<lparr>lm_buckets := lm_buckets (sweep now l) @ [(k, \<lparr>tb_tokens = lm_burst l, tb_last = now\<rparr>)]\<rparr>"
  have r': "Allow k now m = ((ok, w), l')" using r Allow_new [OF None N] by (simp add: m_def)
  have b: "map_of (lm_buckets m) k = Some \<lparr>tb_tokens = lm_burst l, tb_last = now\<rparr>" using N by (simp add: m_def map_add_def)
  have sm: "sane m now" using add_full_sane [OF sw(1) N] by (simp add: m_def)
  have am: "avail m k' now = avail l k' now" using add_full_avail [OF N, of now k'] sw(2) by (simp add: m_def)
  have "lm_rate m = lm_rate l" "lm_burst m = lm_burst l" "lm_maxKeys m = lm_maxKeys l" by (simp_all add: m_def)
  with Allow_known_effect [OF sm b r'] am show ?thesis by metis
qed

lemma Refund_effect:
  assumes "sane l t"
  shows "sane (Refund k l) t \<and> avail (Refund k l) k' t \<le> avail l k' t + (if k' = k then 1 else 0) \<and>
    lm_rate (Refund k l) = lm_rate l \<and> lm_burst (Refund k l) = lm_burst l \<and> lm_maxKeys (Refund k l) = lm_maxKeys l \<and>
    map fst (lm_buckets (Refund k l)) = map fst (lm_buckets l)"
proof (cases "map_of (lm_buckets l) k")
  case (Some b)
  then have b: "0 \<le> tb_tokens b" "tb_last b \<le> t" "0 \<le> lm_burst l" using assms by (auto simp: sane_def dest: map_of_SomeD)
  let ?b = "b\<lparr>tb_tokens := min (lm_burst l) (tb_tokens b + 1)\<rparr>"
  have e: "Refund k l = l\<lparr>lm_buckets := store_bucket k ?b (lm_buckets l)\<rparr>" using Some by (simp add: Refund_def)
  have "refilled l t ?b \<le> refilled l t b + 1" by (simp add: refilled_def)
  then have "min (lm_burst l) (refilled l t ?b) \<le> min (lm_burst l) (refilled l t b) + 1" by (auto simp: min_def)
  then have "avail (Refund k l) k' t \<le> avail l k' t + (if k' = k then 1 else 0)"
    using Some avail_store [of l k ?b k' t] by (simp add: e avail_def [of l])
  moreover have "sane (Refund k l) t" unfolding e by (rule store_sane [OF assms]) (use b in auto)
  ultimately show ?thesis by (simp add: e)
next
  case None
  then show ?thesis using assms by (simp add: Refund_def)
qed

lemma reorder_effect:
  assumes "sane l t" "mset bs = mset (lm_buckets l)"
  shows "sane (l\<lparr>lm_buckets := bs\<rparr>) t" "avail (l\<lparr>lm_buckets := bs\<rparr>) k t = avail l k t" "fst ` set bs = fst ` set (lm_buckets l)"
proof -
  have d: "distinct (map fst (lm_buckets l))" using assms(1) by (simp add: sane_def)
  have "mset (map fst bs) = mset (map fst (lm_buckets l))" using assms(2) by simp
  then have d': "distinct (map fst bs)" using d mset_eq_imp_distinct_iff by blast
  have st: "set bs = set (lm_buckets l)" using assms(2) by (rule mset_eq_setD)
  have "map_of bs = map_of (lm_buckets l)" using map_of_eqI d d' st by (metis map_of_inject_set)
  then show "avail (l\<lparr>lm_buckets := bs\<rparr>) k t = avail l k t" by (simp add: avail_def refilled_def split: option.split)
  show "sane (l\<lparr>lm_buckets := bs\<rparr>) t" using assms(1) d' st by (simp add: sane_def)
  show "fst ` set bs = fst ` set (lm_buckets l)" by (simp add: st)
qed

subsection \<open>How much a key is granted\<close>

lemma granted_le:
  assumes "sane l t" "in_order t es" "uncrowded es l"
  shows "of_nat (granted k es l) \<le> avail l k t + lm_rate l * (end_time t es - t) + of_nat (refunds k es)"
  using assms
proof (induction es arbitrary: l t)
  case Nil
  then show ?case by (simp add: avail_ge_0)
next
  case (Cons e es)
  show ?case
  proof (cases e)
    case (Ask q now)
    obtain ok w l' where r: "Allow q now l = ((ok, w), l')" by (metis surj_pair)
    have le: "t \<le> now" and es: "in_order now es" "uncrowded es l'" "has_room (Ask q now) l"
      using Cons.prems(2,3) by (simp_all add: Ask r)
    note eff = Allow_effect [OF sane_later [OF Cons.prems(1) le] es(3) r, of k]
    have "of_nat (granted k es l') \<le> avail l' k now + lm_rate l' * (end_time now es - now) + of_nat (refunds k es)"
      using Cons.IH [of l' now] eff es(1,2) by simp
    then show ?thesis using eff avail_later [OF Cons.prems(1) le, of k] by (auto simp: Ask r algebra_simps)
  next
    case (Give_back q)
    note eff = Refund_effect [OF Cons.prems(1), of q k]
    then have "of_nat (granted k es (Refund q l)) \<le> avail (Refund q l) k t + lm_rate l * (end_time t es - t) + of_nat (refunds k es)"
      using Cons.IH [of "Refund q l" t] Cons.prems by (simp add: Give_back)
    then show ?thesis using eff by (auto simp: Give_back split: if_splits)
  next
    case (Reorder bs)
    then show ?thesis using Cons.IH [of l t] Cons.IH [of "l\<lparr>lm_buckets := bs\<rparr>" t] Cons.prems reorder_effect [OF Cons.prems(1), of bs]
      by (auto simp: avail_def)
  qed
qed

lemma after_sane:
  assumes "sane l t" "in_order t es" "uncrowded es l"
  shows "sane (after es l) (end_time t es) \<and> lm_rate (after es l) = lm_rate l \<and> lm_burst (after es l) = lm_burst l"
  using assms
proof (induction es arbitrary: l t)
  case (Cons e es)
  show ?case
  proof (cases e)
    case (Ask q now)
    obtain ok w l' where r: "Allow q now l = ((ok, w), l')" by (metis surj_pair)
    have "t \<le> now" and es: "in_order now es" "uncrowded es l'" "has_room (Ask q now) l"
      using Cons.prems(2,3) by (simp_all add: Ask r)
    from Allow_effect [OF sane_later [OF Cons.prems(1) this(1)] es(3) r] Cons.IH [of l' now] es show ?thesis by (simp add: Ask r)
  next
    case (Give_back q)
    then show ?thesis using Refund_effect [OF Cons.prems(1), of q] Cons.IH [of "Refund q l" t] Cons.prems by simp
  next
    case (Reorder bs)
    then show ?thesis
      using Cons.IH [of l t] Cons.IH [of "l\<lparr>lm_buckets := bs\<rparr>" t] Cons.prems reorder_effect(1) [OF Cons.prems(1), of bs] by auto
  qed
qed simp

lemma run_append:
  "in_order t (es @ fs) \<longleftrightarrow> in_order t es \<and> in_order (end_time t es) fs"
  "uncrowded (es @ fs) l \<longleftrightarrow> uncrowded es l \<and> uncrowded fs (after es l)"
  "end_time t (es @ fs) = end_time (end_time t es) fs"
proof -
  show "in_order t (es @ fs) \<longleftrightarrow> in_order t es \<and> in_order (end_time t es) fs" by (induction t es rule: in_order.induct) auto
  show "uncrowded (es @ fs) l \<longleftrightarrow> uncrowded es l \<and> uncrowded fs (after es l)" by (induction es arbitrary: l) auto
  show "end_time t (es @ fs) = end_time (end_time t es) fs" by (induction t es rule: in_order.induct) auto
qed

subsection \<open>One shared table, one bucket for each key\<close>

text \<open>The key's own bucket and the table's: the same one, or the table has none because it would be full.\<close>

definition own_bucket :: "Limiter \<Rightarrow> string \<Rightarrow> rat \<Rightarrow> rat \<Rightarrow> rat \<Rightarrow> bool" where
  "own_bucket l k x u t \<longleftrightarrow> u \<le> t \<and>
     (case map_of (lm_buckets l) k of
        Some b \<Rightarrow> b = \<lparr>tb_tokens = x, tb_last = u\<rparr>
      | None \<Rightarrow> lm_burst l \<le> x + (t - u) * lm_rate l)"

lemma own_bucket_later:
  assumes "own_bucket l k x u t" "t \<le> t'" "0 \<le> lm_rate l"
  shows "own_bucket l k x u t'"
proof -
  have "(t - u) * lm_rate l \<le> (t' - u) * lm_rate l" using assms(2,3) by (intro mult_right_mono) auto
  with assms(1,2) show ?thesis by (auto simp: own_bucket_def split: option.splits)
qed

lemma own_bucket_sweep:
  assumes "own_bucket l k x u now" "sane l now" "length (refilling now l) < lm_maxKeys l"
  shows "own_bucket (sweep now l) k x u now"
proof -
  have "distinct (map fst (lm_buckets l))" using assms(2) by (simp add: sane_def)
  from map_of_refilling [OF this, of now k] sweep_with_room [OF assms(3)] assms(1) show ?thesis
    by (auto simp: own_bucket_def refilled_def split: option.splits if_splits)
qed

lemma own_bucket_store:
  assumes "own_bucket l k x u t" "q \<noteq> k"
  shows "own_bucket (l\<lparr>lm_buckets := store_bucket q b (lm_buckets l)\<rparr>) k x u t"
  using assms by (auto simp: own_bucket_def map_of_store split: option.splits)

lemma own_bucket_Allow:
  assumes o: "own_bucket l k x u now" and s: "sane l now" and room: "has_room (Ask q now) l"
    and r: "Allow q now l = ((ok, w), l')"
  shows "if q = k then (ok \<longleftrightarrow> 1 \<le> min (lm_burst l) (x + (now - u) * lm_rate l)) \<and>
      own_bucket l' k (min (lm_burst l) (x + (now - u) * lm_rate l) - (if ok then 1 else 0)) now now
    else own_bucket l' k x u now"
proof (cases "map_of (lm_buckets l) q")
  case (Some b)
  then show ?thesis
    using r o own_bucket_store [OF o] unfolding Allow_known [OF Some]
    by (auto simp: own_bucket_def avail_def refilled_def map_of_store split: if_splits option.splits)
next
  case None
  with room have n: "length (refilling now l) < lm_maxKeys l" by (simp add: has_room_def)
  note N = sweep_sane(3) [OF s n None]
  define m where "m = (sweep now l)\<lparr>lm_buckets := lm_buckets (sweep now l) @ [(q, \<lparr>tb_tokens = lm_burst l, tb_last = now\<rparr>)]\<rparr>"
  have r': "Allow q now m = ((ok, w), l')" using r Allow_new [OF None N] by (simp add: m_def)
  have b: "map_of (lm_buckets m) q = Some \<lparr>tb_tokens = lm_burst l, tb_last = now\<rparr>" using N by (simp add: m_def map_add_def)
  have f: "lm_rate m = lm_rate l" "lm_burst m = lm_burst l" by (simp_all add: m_def)
  show ?thesis
  proof (cases "q = k")
    case True
    have "avail m q now = lm_burst l" using b f by (simp add: avail_def refilled_def)
    moreover have "min (lm_burst l) (x + (now - u) * lm_rate l) = lm_burst l" using o None True by (simp add: own_bucket_def)
    ultimately show ?thesis using r' True f b unfolding Allow_known [OF b]
      by (auto simp: own_bucket_def map_of_store split: if_splits)
  next
    case False
    have "own_bucket m k x u now"
      using own_bucket_sweep [OF o s n] False N by (auto simp: m_def own_bucket_def map_add_def split: option.splits)
    from own_bucket_store [OF this False] r' False show ?thesis unfolding Allow_known [OF b] by (auto split: if_splits)
  qed
qed

lemma own_bucket_Refund:
  assumes "own_bucket l k x u t" "0 \<le> lm_rate l"
  shows "own_bucket (Refund q l) k (if q = k then min (lm_burst l) (x + 1) else x) u t"
proof -
  have "0 \<le> (t - u) * lm_rate l" using assms by (simp add: own_bucket_def)
  with assms(1) show ?thesis
    by (auto simp: own_bucket_def Refund_def map_of_store min_def split: option.splits)
qed

lemma answers_own_bucket:
  assumes "sane l t" "in_order t es" "uncrowded es l" "own_bucket l k x u t"
  shows "answers k es l = bucket_answers (lm_rate l) (lm_burst l) k es x u"
  using assms
proof (induction es arbitrary: l t x u)
  case (Cons e es)
  have rate: "0 \<le> lm_rate l" using Cons.prems(1) by (simp add: sane_def)
  show ?case
  proof (cases e)
    case (Ask q now)
    obtain ok w l' where r: "Allow q now l = ((ok, w), l')" by (metis surj_pair)
    have le: "t \<le> now" and es: "in_order now es" "uncrowded es l'" "has_room (Ask q now) l"
      using Cons.prems(2,3) by (simp_all add: Ask r)
    note s = sane_later [OF Cons.prems(1) le] and o = own_bucket_later [OF Cons.prems(4) le rate]
    note eff = Allow_effect [OF s es(3) r] and own = own_bucket_Allow [OF o s es(3) r]
    note IH = Cons.IH [OF _ es(1,2)]
    show ?thesis
    proof (cases "q = k")
      case True
      define y where "y = min (lm_burst l) (x + (now - u) * lm_rate l)"
      have y: "ok \<longleftrightarrow> 1 \<le> y" "own_bucket l' k (y - (if ok then 1 else 0)) now now"
        using own unfolding if_P [OF True] y_def by blast+
      from IH [OF _ y(2)] eff have "answers k es l' = bucket_answers (lm_rate l) (lm_burst l) k es (y - (if ok then 1 else 0)) now"
        by simp
      then show ?thesis using y(1) True by (simp add: Ask r [unfolded True] Let_def y_def [symmetric])
    next
      case False
      from IH [of x u] eff own False show ?thesis by (simp add: Ask r)
    qed
  next
    case (Give_back q)
    from Cons.IH [OF _ _ _ own_bucket_Refund [OF Cons.prems(4) rate]] Cons.prems Refund_effect [OF Cons.prems(1), of q]
    show ?thesis by (simp add: Give_back)
  next
    case (Reorder bs)
    have "own_bucket (l\<lparr>lm_buckets := bs\<rparr>) k x u t" if m: "mset bs = mset (lm_buckets l)"
    proof -
      have "distinct (map fst (lm_buckets l))" using Cons.prems(1) by (simp add: sane_def)
      moreover have "distinct (map fst bs)" using reorder_effect(1) [OF Cons.prems(1) m] by (simp add: sane_def)
      ultimately have "map_of bs = map_of (lm_buckets l)" using mset_eq_setD [OF m] map_of_inject_set by blast
      with Cons.prems(4) show ?thesis by (simp add: own_bucket_def split: option.splits)
    qed
    with Cons.IH [of l t x u] Cons.IH [of "l\<lparr>lm_buckets := bs\<rparr>" t x u] Cons.prems reorder_effect(1) [OF Cons.prems(1), of bs]
    show ?thesis by (auto simp: Reorder)
  qed
qed simp

text \<open>C17. The limiter limits. Let requests and refunds arrive in the order of the clock, from any number of keys, as long
  as no new key comes while ten thousand others are still refilling (then the sweep forgets the one seen least
  recently). Every key is answered exactly as if it had a bucket to itself, which starts full and refills up
  to the burst: no other key, no sweep and no order of the map shows in its answers. And in any stretch of the run,
  however long the key was idle before, it is granted at most its burst, plus its rate times the length of
  the stretch, plus one for every refund in it. Token counts are exact here where the code has floating-point numbers.
\<close>

theorem granted_bounded:
  assumes "0 \<le> per" "0 < period" "0 \<le> burst" "in_order t (es @ fs)" "uncrowded (es @ fs) (New per period burst)"
  shows "answers k (es @ fs) (New per period burst) =
      bucket_answers (of_int per / period) (of_int burst) k (es @ fs) (of_int burst) t \<and>
    of_nat (granted k fs (after es (New per period burst))) \<le>
      of_int burst + of_int per / period * (end_time t (es @ fs) - end_time t es) + of_nat (refunds k fs)"
proof
  let ?l = "New per period burst"
  have s: "sane ?l t" using assms(1-3) by (simp add: New_def sane_def)
  have "own_bucket ?l k (of_int burst) t t" by (simp add: own_bucket_def New_def)
  from answers_own_bucket [OF s assms(4,5) this]
  show "answers k (es @ fs) ?l = bucket_answers (of_int per / period) (of_int burst) k (es @ fs) (of_int burst) t"
    by (simp add: New_def)
  note a = assms(4,5) [unfolded run_append]
  from after_sane [OF s] a have m: "sane (after es ?l) (end_time t es)" "lm_rate (after es ?l) = of_int per / period"
    "lm_burst (after es ?l) = of_int burst" by (simp_all add: New_def)
  have "avail (after es ?l) k (end_time t es) \<le> of_int burst" using m(3) by (auto simp: avail_def split: option.split)
  with granted_le [OF m(1), of fs k] a m(2)
  show "of_nat (granted k fs (after es ?l)) \<le>
      of_int burst + of_int per / period * (end_time t (es @ fs) - end_time t es) + of_nat (refunds k fs)"
    unfolding run_append(3) by auto
qed

text \<open>One request, an hour of silence while another key asks, then four at once: two of them are let in, the burst.\<close>

theorem granted_bounded_witness:
  "in_order 0 ([Ask ''a'' 0, Ask ''b'' 3600] @ [Ask ''a'' 3600, Ask ''a'' 3600, Ask ''a'' 3600, Ask ''a'' 3600]) \<and>
   answers ''a'' ([Ask ''a'' 0, Ask ''b'' 3600] @ [Ask ''a'' 3600, Ask ''a'' 3600, Ask ''a'' 3600, Ask ''a'' 3600]) (New 1 60 2) =
     [True, True, True, False, False] \<and>
   of_nat (granted ''a'' [Ask ''a'' 3600, Ask ''a'' 3600, Ask ''a'' 3600, Ask ''a'' 3600]
     (after [Ask ''a'' 0, Ask ''b'' 3600] (New 1 60 2))) \<le> (2 :: rat)"
proof -
  let ?es = "[Ask ''a'' 0, Ask ''b'' 3600]" and ?fs = "[Ask ''a'' 3600, Ask ''a'' 3600, Ask ''a'' 3600, Ask ''a'' 3600]"
  have o: "in_order 0 (?es @ ?fs)" by simp
  have u: "uncrowded (?es @ ?fs) (New 1 60 2)"
    by (simp add: has_room_def refilling_def Allow_def New_def sweep_def store_bucket_def refilled_def Let_def)
  have pos: "(0::int) \<le> 1" "(0::rat) < 60" "(0::int) \<le> 2" by simp_all
  note G = granted_bounded [OF pos o u, of "''a''"]
  have "answers ''a'' (?es @ ?fs) (New 1 60 2) = [True, True, True, False, False]" using G by (simp add: Let_def)
  moreover have "of_nat (granted ''a'' ?fs (after ?es (New 1 60 2))) \<le>
      (of_int 2 + of_int 1 / 60 * (end_time 0 (?es @ ?fs) - end_time 0 ?es) + of_nat (refunds ''a'' ?fs) :: rat)"
    by (rule conjunct2 [OF G])
  then have "of_nat (granted ''a'' ?fs (after ?es (New 1 60 2))) \<le> (2 :: rat)"
    by (simp only: append.simps end_time.simps refunds.simps event.distinct if_False add_0 of_nat_0 diff_self mult_zero_right
        add_0_right of_int_numeral)
  ultimately show ?thesis using o by blast
qed

text \<open>The refused caller who waits as long as it is told to is let in, unless other keys pushed it out, which lets it in too.\<close>

lemma wait_enough:
  assumes "0 < r"
  shows "(1 - x :: rat) \<le> (of_int \<lfloor>(1 - x) / r * 10 ^ 9\<rfloor> / 10 ^ 9 + 1) * r"
proof -
  have "(1 - x) / r * 10 ^ 9 - 1 \<le> of_int \<lfloor>(1 - x) / r * 10 ^ 9\<rfloor>" by linarith
  then have "(1 - x) / r \<le> of_int \<lfloor>(1 - x) / r * 10 ^ 9\<rfloor> / 10 ^ 9 + 1" by (simp add: field_simps)
  then show ?thesis using assms by (simp add: pos_divide_le_eq)
qed

text \<open>A refusal says truthfully how long to wait: a caller that was refused and comes back after that time is
  let in, for every limiter that refills and has room for one token.
\<close>

lemma retry_after_suffices:
  assumes "0 < lm_rate l" "1 \<le> lm_burst l" "Allow k now l = ((False, w), l')"
  shows "fst (fst (Allow k (now + w) l'))"
proof -
  define p where "p = (case map_of (lm_buckets l) k of Some b \<Rightarrow> (b, l)
     | None \<Rightarrow> (let s = sweep now l; b = \<lparr>tb_tokens = lm_burst l, tb_last = now\<rparr> in (b, s\<lparr>lm_buckets := lm_buckets s @ [(k, b)]\<rparr>)))"
  obtain b l1 where p: "p = (b, l1)" by fastforce
  have f: "lm_rate l1 = lm_rate l" "lm_burst l1 = lm_burst l" using p by (auto simp: p_def Let_def split: option.splits)
  have m: "map_of (lm_buckets l1) k \<noteq> None" using p by (auto simp: p_def Let_def map_add_def split: option.splits)
  define x where "x = min (lm_burst l1) (refilled l1 now b)"
  have "x < 1" "w = of_int \<lfloor>(1 - x) / lm_rate l1 * 10 ^ 9\<rfloor> / 10 ^ 9 + 1"
    "l' = l1\<lparr>lm_buckets := store_bucket k \<lparr>tb_tokens = x, tb_last = now\<rparr> (lm_buckets l1)\<rparr>"
    using assms(3) unfolding Allow_def p_def [symmetric] p by (auto simp: Let_def x_def [symmetric] split: if_splits)
  note r = this
  have "1 - x \<le> w * lm_rate l1" unfolding r(2) using wait_enough [of "lm_rate l1" x] assms(1) f by simp
  then have "1 \<le> avail l' k (now + w)" using assms(2) f unfolding r(3) avail_store [OF m] by (simp add: refilled_def)
  moreover obtain c where "map_of (lm_buckets l') k = Some c" using m by (auto simp: r(3) map_of_store)
  ultimately show ?thesis by (simp add: Allow_known)
qed

lemma retry_after_suffices_example:
  "fst (fst (Allow ''a'' (0 + 31) \<lparr>lm_rate = 1 / 60, lm_burst = 2, lm_maxKeys = 10000, lm_buckets = [(''a'', \<lparr>tb_tokens = 1 / 2, tb_last = 0\<rparr>)]\<rparr>))"
  by (rule retry_after_suffices [of "\<lparr>lm_rate = 1 / 60, lm_burst = 2, lm_maxKeys = 10000, lm_buckets = [(''a'', \<lparr>tb_tokens = 1 / 2, tb_last = 0\<rparr>)]\<rparr>" "''a''" 0 31])
    (simp_all add: Allow_def refilled_def store_bucket_def)

subsection \<open>The size of the table\<close>

text \<open>Without an empty key the table keeps to its bound whatever is asked of it.\<close>

definition bounded :: "Limiter \<Rightarrow> bool" where
  "bounded l \<longleftrightarrow> 0 < lm_maxKeys l \<and> length (lm_buckets l) \<le> lm_maxKeys l \<and> distinct (map fst (lm_buckets l)) \<and> [] \<notin> fst ` set (lm_buckets l)"

lemma bounded_keys: "map fst (lm_buckets l') = map fst (lm_buckets l) \<Longrightarrow> lm_maxKeys l' = lm_maxKeys l \<Longrightarrow> bounded l' = bounded l"
  unfolding bounded_def by (metis length_map list.set_map)

lemma bounded_Allow:
  assumes "bounded l" "k \<noteq> []"
  shows "bounded (snd (Allow k now l))"
proof (cases "map_of (lm_buckets l) k")
  case (Some b)
  then show ?thesis using assms(1) bounded_keys [of "snd (Allow k now l)" l] by (simp add: Allow_known)
next
  case None
  let ?s = "sweep now l"
  let ?m = "?s\<lparr>lm_buckets := lm_buckets ?s @ [(k, \<lparr>tb_tokens = lm_burst l, tb_last = now\<rparr>)]\<rparr>"
  note room = sweep_room [of l now] assms(1) [unfolded bounded_def]
  have n: "map_of (lm_buckets ?s) k = None" using None room by (auto simp: map_of_eq_None_iff)
  have "bounded ?m" using room n assms(2) by (auto simp: bounded_def map_of_eq_None_iff)
  moreover have "map fst (lm_buckets (snd (Allow k now ?m))) = map fst (lm_buckets ?m) \<and> lm_maxKeys (snd (Allow k now ?m)) = lm_maxKeys ?m"
    using n by (simp add: Allow_known [where b = "\<lparr>tb_tokens = lm_burst l, tb_last = now\<rparr>"] map_add_def)
  ultimately show ?thesis using bounded_keys [of "snd (Allow k now ?m)" ?m] Allow_new [OF None n] by simp
qed

lemma table_bounded:
  assumes "[] \<notin> asked es" "bounded l"
  shows "length (lm_buckets (after es l)) \<le> lm_maxKeys (after es l)"
proof -
  have "bounded (after es l)" using assms
  proof (induction es arbitrary: l)
    case (Cons e es)
    have "bounded (snd (event_step e l))"
    proof (cases e)
      case (Ask k now)
      then show ?thesis using bounded_Allow [of l k now] Cons.prems by (auto simp: case_prod_beta)
    next
      case (Give_back k)
      then show ?thesis using Cons.prems(2) bounded_keys [of "Refund k l" l] by (simp add: Refund_def split: option.split)
    next
      case (Reorder bs)
      have "bounded (l\<lparr>lm_buckets := bs\<rparr>)" if "mset bs = mset (lm_buckets l)"
        using Cons.prems(2) that mset_eq_setD [OF that] mset_eq_length [OF that] mset_eq_imp_distinct_iff [of "map fst bs" "map fst (lm_buckets l)"]
        by (simp add: bounded_def)
      then show ?thesis using Cons.prems(2) by (simp add: Reorder)
    qed
    then show ?case using Cons by (cases e) auto
  qed simp
  then show ?thesis by (simp add: bounded_def)
qed

text \<open>
  The empty key, which a login with no user name asks for, is also how the sweep says that it has no candidate
  yet: when the least recently seen key is the empty one and is visited last, nothing is evicted and the table
  grows past its bound.
\<close>

lemma empty_key_never_evicted:
  "let l = \<lparr>lm_rate = 1 / 60, lm_burst = 2, lm_maxKeys = 2, lm_buckets =
            [(''a'', \<lparr>tb_tokens = 1, tb_last = 5\<rparr>), ([], \<lparr>tb_tokens = 1, tb_last = 4\<rparr>)]\<rparr>
   in length (lm_buckets (snd (Allow ''b'' 6 l))) = 3 \<and> lm_maxKeys (snd (Allow ''b'' 6 l)) = 2"
  by (simp add: Allow_def sweep_def sweep_key_def refilled_def store_bucket_def Let_def)

end
