(* ===== verification/Accounts.thy ===== *)
theory Accounts
  imports User_Store Go_Encoding
begin

text \<open>
  Accounts of the panel: \<open>internal/auth\<close> (\<open>session.go\<close>, \<open>invite.go\<close>, \<open>bootstrap.go\<close>, \<open>token.go\<close>, \<open>device.go\<close>) over
  \<open>store/sessions.go\<close>, \<open>store/invites.go\<close> and the password columns of \<open>store/users.go\<close>. The tables extend those of
  \<open>User_Store\<close>; an administrative transaction proved there is lifted to them with the cascades its deletions have.
  Each statement or transaction is one step: a login reads, verifies and inserts in three of them, and
  others may come between. Arguments stand for what is not in the repository or rests on it: SHA-256 (\<open>sha\<close>), argon2id
  (\<open>verify\<close>, \<open>weak\<close>, and the hashes it makes), the random token bytes and the identifiers drawn, and the keyed MAC.
\<close>

subsection \<open>Tables\<close>

record Session =
  se_ID :: string
  se_TokenHash :: string
  se_UserID :: string
  se_CreatedAt :: int
  se_LastSeenAt :: int
  se_IdleExpiresAt :: int
  se_AbsoluteExpiresAt :: int
  se_RevokedAt :: "int option"
  se_IP :: string
  se_UserAgent :: string

record Invite =
  iv_ID :: string
  iv_TokenHash :: string
  iv_CreatedBy :: string
  iv_InstanceID :: "string option"
  iv_GrantRole :: "string option"
  iv_GrantPerms :: "string list"
  iv_ExpiresAt :: int
  iv_CreatedAt :: int
  iv_RedeemedAt :: "int option"
  iv_RedeemedBy :: "string option"
  iv_RevokedAt :: "int option"

record bootstrapState =
  bs_Pending :: bool
  bs_TokenHash :: string
  bs_ExpiresAt :: int

record panel =
  pn_users :: "user list"
  pn_hash :: "string \<Rightarrow> string"
  pn_lastLogin :: "string \<Rightarrow> int option"
  pn_instances :: "string list"
  pn_grants :: "grant_row list"
  pn_sessions :: "Session list"
  pn_invites :: "Invite list"
  pn_audit :: "audit_entry list"
  pn_bootstrap :: "bootstrapState option"

text \<open>The part \<open>User_Store\<close> is about, and writing it back: rows that lost their user go, as the foreign keys say.\<close>

definition core_of :: "panel \<Rightarrow> db" where
  "core_of p = \<lparr>users = pn_users p, instances = pn_instances p, instance_grants = pn_grants p,
     sessions = map (\<lambda>s. (se_ID s, se_UserID s)) (pn_sessions p), audit_log = pn_audit p\<rparr>"

definition keep_invites :: "user list \<Rightarrow> Invite list \<Rightarrow> Invite list" where
  "keep_invites us ivs =
     map (\<lambda>v. case iv_RedeemedBy v of
            None \<Rightarrow> v
          | Some u \<Rightarrow> if u \<in> set (map UserID us) then v else v\<lparr>iv_RedeemedBy := None\<rparr>)
       (filter (\<lambda>v. iv_CreatedBy v \<in> set (map UserID us)) ivs)"

definition with_core :: "db \<Rightarrow> panel \<Rightarrow> panel" where
  "with_core d p = p\<lparr>pn_users := users d, pn_instances := instances d, pn_grants := instance_grants d, pn_audit := audit_log d,
     pn_sessions := filter (\<lambda>s. (se_ID s, se_UserID s) \<in> set (sessions d)) (pn_sessions p),
     pn_invites := keep_invites (users d) (pn_invites p)\<rparr>"

definition on_core :: "(db \<Rightarrow> tx) \<Rightarrow> panel \<Rightarrow> store_error + panel" where
  "on_core f p = rbind (f (core_of p)) (\<lambda>d. Inr (with_core d p))"

definition audited :: "audit_entry \<Rightarrow> panel \<Rightarrow> panel" where
  "audited e p = p\<lparr>pn_audit := pn_audit p @ [e]\<rparr>"

subsection \<open>Users\<close>

definition insert_user :: "string \<Rightarrow> string \<Rightarrow> string \<Rightarrow> role \<Rightarrow> panel \<Rightarrow> store_error + panel" where
  "insert_user uid username passwordHash role p =
     rbind (createUser uid username role (core_of p)) (\<lambda>d.
       Inr (p\<lparr>pn_users := users d, pn_hash := (pn_hash p)(uid := passwordHash)\<rparr>))"

definition UserForLogin :: "string \<Rightarrow> panel \<Rightarrow> (user \<times> string) option" where
  "UserForLogin username p =
     map_option (\<lambda>u. (u, pn_hash p (UserID u))) (find (\<lambda>u. Username u = username) (pn_users p))"

definition UserByID :: "string \<Rightarrow> panel \<Rightarrow> user option" where
  "UserByID uid p = find (\<lambda>u. UserID u = uid) (pn_users p)"

definition UpdateLastLogin :: "string \<Rightarrow> int \<Rightarrow> panel \<Rightarrow> panel" where
  "UpdateLastLogin uid now p =
     (if UserByID uid p = None then p else p\<lparr>pn_lastLogin := (pn_lastLogin p)(uid := Some now)\<rparr>)"

definition setUserPassword :: "string \<Rightarrow> string \<Rightarrow> panel \<Rightarrow> store_error + panel" where
  "setUserPassword uid passwordHash p =
     (if UserByID uid p = None then Inl ErrUserNotFound else Inr (p\<lparr>pn_hash := (pn_hash p)(uid := passwordHash)\<rparr>))"

definition otherSessionIDs :: "string \<Rightarrow> string \<Rightarrow> panel \<Rightarrow> string list" where
  "otherSessionIDs uid keep p = map se_ID (filter (\<lambda>s. se_UserID s = uid \<and> se_ID s \<noteq> keep) (pn_sessions p))"

definition SetUserPasswordKeepingSession ::
  "string \<Rightarrow> string \<Rightarrow> string \<Rightarrow> audit_entry \<Rightarrow> panel \<Rightarrow> store_error + (string list \<times> panel)" where
  "SetUserPasswordKeepingSession uid passwordHash keep audit p =
     (if AuditUserID audit \<noteq> uid \<and> isOwner uid (core_of p) then Inl ErrOwnerProtected
      else rbind (setUserPassword uid passwordHash p) (\<lambda>p1.
        let ids = otherSessionIDs uid keep p1;
            p2 = p1\<lparr>pn_sessions := filter (\<lambda>s. \<not> (se_UserID s = uid \<and> se_ID s \<noteq> keep)) (pn_sessions p1)\<rparr>
        in Inr (ids, audited audit p2)))"

definition SetUserPasswordAudited :: "string \<Rightarrow> string \<Rightarrow> audit_entry \<Rightarrow> panel \<Rightarrow> store_error + panel" where
  "SetUserPasswordAudited uid passwordHash audit p =
     rbind (SetUserPasswordKeepingSession uid passwordHash [] audit p) (\<lambda>(_, p'). Inr p')"

definition SetUserPasswordByUsername :: "string \<Rightarrow> string \<Rightarrow> panel \<Rightarrow> store_error + panel" where
  "SetUserPasswordByUsername username passwordHash p =
     (case UserForLogin username p of
        None \<Rightarrow> Inl ErrUserNotFound
      | Some (u, _) \<Rightarrow> Inr (p\<lparr>pn_hash := (pn_hash p)(UserID u := passwordHash)\<rparr>))"

subsection \<open>Session rows\<close>

definition CreateSession :: "Session \<Rightarrow> panel \<Rightarrow> store_error + panel" where
  "CreateSession s p =
     (if list_ex (\<lambda>r. se_ID r = se_ID s \<or> se_TokenHash r = se_TokenHash s) (pn_sessions p) \<or> UserByID (se_UserID s) p = None
      then Inl ErrConstraint
      else Inr (p\<lparr>pn_sessions := pn_sessions p @ [s]\<rparr>))"

definition SessionAndUser :: "string \<Rightarrow> int \<Rightarrow> panel \<Rightarrow> (Session \<times> user) option" where
  "SessionAndUser tokenHash now p =
     (case find (\<lambda>s. se_TokenHash s = tokenHash \<and> se_RevokedAt s = None \<and> now < se_IdleExpiresAt s \<and> now < se_AbsoluteExpiresAt s \<and>
                     UserByID (se_UserID s) p \<noteq> None) (pn_sessions p) of
        None \<Rightarrow> None
      | Some s \<Rightarrow> map_option (Pair s) (UserByID (se_UserID s) p))"

definition TouchSession :: "string \<Rightarrow> int \<Rightarrow> int \<Rightarrow> int \<Rightarrow> panel \<Rightarrow> panel" where
  "TouchSession sid now idleTTL throttle p =
     p\<lparr>pn_sessions := map (\<lambda>s. if se_ID s = sid \<and> se_LastSeenAt s \<le> now - throttle
          then s\<lparr>se_LastSeenAt := now, se_IdleExpiresAt := now + idleTTL\<rparr> else s) (pn_sessions p)\<rparr>"

definition DeleteSession :: "string \<Rightarrow> panel \<Rightarrow> panel" where
  "DeleteSession sid p = p\<lparr>pn_sessions := filter (\<lambda>s. se_ID s \<noteq> sid) (pn_sessions p)\<rparr>"

definition DeleteSessionsForUser :: "string \<Rightarrow> panel \<Rightarrow> panel" where
  "DeleteSessionsForUser uid p = p\<lparr>pn_sessions := filter (\<lambda>s. se_UserID s \<noteq> uid) (pn_sessions p)\<rparr>"

definition SessionExpiry :: "string \<Rightarrow> panel \<Rightarrow> int option" where
  "SessionExpiry sid p =
     map_option (\<lambda>s. min (se_IdleExpiresAt s) (se_AbsoluteExpiresAt s)) (find (\<lambda>s. se_ID s = sid) (pn_sessions p))"

subsection \<open>Logging in\<close>

datatype auth_error =
    ErrInvalidCredentials | ErrAccountDisabled | ErrProxyAdmin | ErrInviteInvalid | ErrSetupConsumed | ErrSetupTokenInvalid
  | ErrStore store_error

definition wrap :: "store_error + 'a \<Rightarrow> auth_error + 'a" where
  "wrap r = (case r of Inl e \<Rightarrow> Inl (ErrStore e) | Inr x \<Rightarrow> Inr x)"

record Sessions =
  ss_idleTTL :: int
  ss_absTTL :: int
  ss_throttle :: int

definition touchThrottle :: int where
  "touchThrottle = 60 * 10 ^ 9"

definition NewSessions :: "int \<Rightarrow> int \<Rightarrow> Sessions" where
  "NewSessions idleTTL absoluteTTL = \<lparr>ss_idleTTL = idleTTL, ss_absTTL = absoluteTTL, ss_throttle = touchThrottle\<rparr>"

definition NewSessionToken :: "(string \<Rightarrow> string) \<Rightarrow> string \<Rightarrow> string \<times> string" where
  "NewSessionToken sha raw = (RawURL_Encode raw, sha raw)"

definition HashSessionToken :: "(string \<Rightarrow> string) \<Rightarrow> string \<Rightarrow> string option" where
  "HashSessionToken sha cookieValue = map_option sha (RawURL_Decode cookieValue)"

text \<open>What a login decides before it writes anything.\<close>

definition check_password :: "(string \<Rightarrow> string \<Rightarrow> bool) \<Rightarrow> string \<Rightarrow> string \<Rightarrow> panel \<Rightarrow> auth_error + (user \<times> string)" where
  "check_password verify username password p =
     (case UserForLogin username p of
        None \<Rightarrow> Inl ErrInvalidCredentials
      | Some (u, h) \<Rightarrow>
          if \<not> verify password h then Inl ErrInvalidCredentials
          else if Disabled u then Inl ErrAccountDisabled
          else Inr (u, h))"

text \<open>A hash that cannot be made, or a row that is gone by then, is logged and ignored.\<close>

definition rehashIfWeak :: "(string \<Rightarrow> bool) \<Rightarrow> string option \<Rightarrow> user \<times> string \<Rightarrow> panel \<Rightarrow> panel" where
  "rehashIfWeak weak newHash rec p =
     (case rec of (u, h) \<Rightarrow>
        if \<not> weak h then p
        else case newHash of
            None \<Rightarrow> p
          | Some h' \<Rightarrow> (case setUserPassword (UserID u) h' p of Inl _ \<Rightarrow> p | Inr p' \<Rightarrow> p'))"

record LoggedIn =
  li_Cookie :: string
  li_SessionID :: string
  li_User :: user
  li_AbsoluteExpiresAt :: int

definition open_session ::
  "(string \<Rightarrow> string) \<Rightarrow> Sessions \<Rightarrow> string \<Rightarrow> string \<Rightarrow> int \<Rightarrow> user \<Rightarrow> string \<Rightarrow> string \<Rightarrow> panel \<Rightarrow> store_error + (LoggedIn \<times> panel)" where
  "open_session sha cfg sid raw now u ip userAgent p =
     (case NewSessionToken sha raw of (cookieValue, tokenHash) \<Rightarrow>
        let sess = \<lparr>se_ID = sid, se_TokenHash = tokenHash, se_UserID = UserID u, se_CreatedAt = now, se_LastSeenAt = now,
                    se_IdleExpiresAt = now + ss_idleTTL cfg, se_AbsoluteExpiresAt = now + ss_absTTL cfg, se_RevokedAt = None,
                    se_IP = ip, se_UserAgent = userAgent\<rparr>
        in rbind (CreateSession sess p) (\<lambda>p1.
             Inr (\<lparr>li_Cookie = cookieValue, li_SessionID = sid, li_User = u, li_AbsoluteExpiresAt = se_AbsoluteExpiresAt sess\<rparr>,
                  UpdateLastLogin (UserID u) now p1)))"

definition Login ::
  "(string \<Rightarrow> string \<Rightarrow> bool) \<Rightarrow> (string \<Rightarrow> bool) \<Rightarrow> string option \<Rightarrow> (string \<Rightarrow> string) \<Rightarrow> Sessions \<Rightarrow> string \<Rightarrow> string \<Rightarrow> int \<Rightarrow>
   string \<Rightarrow> string \<Rightarrow> string \<Rightarrow> string \<Rightarrow> panel \<Rightarrow> auth_error + (LoggedIn \<times> panel)" where
  "Login verify weak newHash sha cfg sid raw now username password ip userAgent p =
     rbind (check_password verify username password p) (\<lambda>(u, h).
       wrap (open_session sha cfg sid raw now u ip userAgent (rehashIfWeak weak newHash (u, h) p)))"

definition check_trusted :: "string \<Rightarrow> panel \<Rightarrow> auth_error + (user \<times> string)" where
  "check_trusted username p =
     (case UserForLogin username p of
        None \<Rightarrow> Inl ErrInvalidCredentials
      | Some (u, h) \<Rightarrow>
          if Disabled u then Inl ErrAccountDisabled
          else if UserRole u = RoleAdmin then Inl ErrProxyAdmin
          else Inr (u, h))"

definition LoginTrusted ::
  "(string \<Rightarrow> string) \<Rightarrow> Sessions \<Rightarrow> string \<Rightarrow> string \<Rightarrow> int \<Rightarrow> string \<Rightarrow> string \<Rightarrow> string \<Rightarrow> panel \<Rightarrow> auth_error + (LoggedIn \<times> panel)" where
  "LoginTrusted sha cfg sid raw now username ip userAgent p =
     rbind (check_trusted username p) (\<lambda>(u, _). wrap (open_session sha cfg sid raw now u ip userAgent p))"

definition Authenticate :: "(string \<Rightarrow> string) \<Rightarrow> Sessions \<Rightarrow> int \<Rightarrow> int \<Rightarrow> string \<Rightarrow> panel \<Rightarrow> (user \<times> string) option \<times> panel" where
  "Authenticate sha cfg now touched cookieValue p =
     (case HashSessionToken sha cookieValue of
        None \<Rightarrow> (None, p)
      | Some tokenHash \<Rightarrow>
          (case SessionAndUser tokenHash now p of
             None \<Rightarrow> (None, p)
           | Some (s, u) \<Rightarrow>
               if Disabled u then (None, p)
               else (Some (u, se_ID s), TouchSession (se_ID s) touched (ss_idleTTL cfg) (ss_throttle cfg) p)))"

text \<open>The sockets to close are the second result of the next three: of one session, or of all a user has.\<close>

datatype revoked = Revoked_session string | Revoked_user string

definition Logout :: "string \<Rightarrow> panel \<Rightarrow> panel \<times> revoked list" where
  "Logout sid p = (DeleteSession sid p, [Revoked_session sid])"

definition ChangePassword ::
  "(string \<Rightarrow> string \<Rightarrow> bool) \<Rightarrow> string \<Rightarrow> string \<Rightarrow> string \<Rightarrow> string \<Rightarrow> audit_entry \<Rightarrow> panel \<Rightarrow> auth_error + (panel \<times> revoked list)" where
  "ChangePassword verify nextHash username keep current audit p =
     (case UserForLogin username p of
        None \<Rightarrow> Inl ErrInvalidCredentials
      | Some (u, h) \<Rightarrow>
          if \<not> verify current h then Inl ErrInvalidCredentials
          else rbind (wrap (SetUserPasswordKeepingSession (UserID u) nextHash keep audit p)) (\<lambda>(ids, p'). Inr (p', map Revoked_session ids)))"

definition SetPassword :: "string \<Rightarrow> string \<Rightarrow> audit_entry \<Rightarrow> panel \<Rightarrow> auth_error + (panel \<times> revoked list)" where
  "SetPassword newHash uid audit p =
     rbind (wrap (SetUserPasswordAudited uid newHash audit p)) (\<lambda>p'. Inr (p', [Revoked_user uid]))"

text \<open>The reset from the command line (\<open>cmd/valmind\<close>): the password first, then the sessions.\<close>

definition adminReset :: "string \<Rightarrow> string \<Rightarrow> panel \<Rightarrow> store_error + panel" where
  "adminReset newHash username p =
     rbind (SetUserPasswordByUsername username newHash p) (\<lambda>p'.
       Inr (case UserForLogin username p' of None \<Rightarrow> p' | Some (u, _) \<Rightarrow> DeleteSessionsForUser (UserID u) p'))"

subsection \<open>Invites\<close>

definition Live :: "int \<Rightarrow> Invite \<Rightarrow> bool" where
  "Live now v \<longleftrightarrow> iv_RevokedAt v = None \<and> iv_RedeemedAt v = None \<and> now < iv_ExpiresAt v"

text \<open>The constraints on an invite row: its key, its token hash, its references and the CHECK on its role.\<close>

definition createInvite :: "Invite \<Rightarrow> panel \<Rightarrow> store_error + panel" where
  "createInvite v p =
     (if list_ex (\<lambda>w. iv_ID w = iv_ID v \<or> iv_TokenHash w = iv_TokenHash v) (pn_invites p) \<or> UserByID (iv_CreatedBy v) p = None \<or>
         (case iv_InstanceID v of None \<Rightarrow> False | Some i \<Rightarrow> i \<notin> set (pn_instances p)) \<or>
         (case iv_GrantRole v of None \<Rightarrow> False | Some r \<Rightarrow> r \<notin> {''viewer'', ''operator''})
      then Inl ErrConstraint
      else Inr (p\<lparr>pn_invites := pn_invites p @ [v]\<rparr>))"

definition CreateInviteAudited :: "Invite \<Rightarrow> audit_entry \<Rightarrow> panel \<Rightarrow> store_error + panel" where
  "CreateInviteAudited v audit p = rbind (createInvite v p) (\<lambda>p'. Inr (audited audit p'))"

definition LiveInvites :: "int \<Rightarrow> panel \<Rightarrow> Invite list" where
  "LiveInvites now p = filter (Live now) (pn_invites p)"

definition InviteByID :: "string \<Rightarrow> panel \<Rightarrow> Invite option" where
  "InviteByID i p = find (\<lambda>v. iv_ID v = i) (pn_invites p)"

definition update_invite :: "string \<Rightarrow> (Invite \<Rightarrow> bool) \<Rightarrow> (Invite \<Rightarrow> Invite) \<Rightarrow> panel \<Rightarrow> panel" where
  "update_invite i guard f p = p\<lparr>pn_invites := map (\<lambda>v. if iv_ID v = i \<and> guard v then f v else v) (pn_invites p)\<rparr>"

definition applyInviteGrant :: "Invite \<Rightarrow> string \<Rightarrow> int \<Rightarrow> panel \<Rightarrow> auth_error + panel" where
  "applyInviteGrant v uid now p =
     (case iv_InstanceID v of
        None \<Rightarrow> Inr p
      | Some i \<Rightarrow>
          (case iv_GrantRole v of
             None \<Rightarrow> Inl (ErrStore ErrConstraint)
           | Some r \<Rightarrow>
               rbind (wrap (insert_grant_row \<lparr>gr_user_id = uid, gr_instance_id = i, gr_role = r, gr_perms = Some (iv_GrantPerms v),
                   gr_granted_by = Some (iv_CreatedBy v), gr_granted_at = now, gr_expires_at = None\<rparr> (core_of p))) (\<lambda>d.
                 Inr (p\<lparr>pn_grants := instance_grants d\<rparr>))))"

text \<open>The row count of the claiming statement decides: no row that is still live is \<open>ErrInviteNotLive\<close>.\<close>

definition RedeemInviteToUser ::
  "Invite \<Rightarrow> string \<Rightarrow> string \<Rightarrow> string \<Rightarrow> int \<Rightarrow> audit_entry \<Rightarrow> panel \<Rightarrow> auth_error + panel" where
  "RedeemInviteToUser v uid username passwordHash now audit p =
     (if \<not> list_ex (\<lambda>w. iv_ID w = iv_ID v \<and> Live now w) (pn_invites p) then Inl ErrInviteInvalid
      else
        rbind (wrap (insert_user uid username passwordHash RoleMember
                 (update_invite (iv_ID v) (Live now) (\<lambda>w. w\<lparr>iv_RedeemedAt := Some now\<rparr>) p))) (\<lambda>p1.
        rbind (applyInviteGrant v uid now (update_invite (iv_ID v) (\<lambda>_. True) (\<lambda>w. w\<lparr>iv_RedeemedBy := Some uid\<rparr>) p1)) (\<lambda>p2.
          Inr (audited audit p2))))"

definition RevokeInviteAudited :: "string \<Rightarrow> int \<Rightarrow> audit_entry \<Rightarrow> panel \<Rightarrow> panel" where
  "RevokeInviteAudited i now audit p = audited audit (update_invite i (\<lambda>_. True) (\<lambda>w. w\<lparr>iv_RevokedAt := Some now\<rparr>) p)"

definition ListInvites :: "panel \<Rightarrow> Invite list" where
  "ListInvites p = sort_key (\<lambda>v. - iv_CreatedAt v) (pn_invites p)"

record Issued =
  is_Code :: string
  is_ExpiresAt :: int
  is_Invite :: Invite

text \<open>\<open>perms\<close> is what the JSON array decodes to; \<open>code\<close> and its hash are drawn by \<open>NewInviteToken\<close>.\<close>

definition Issue ::
  "int \<Rightarrow> string \<Rightarrow> string \<Rightarrow> string \<Rightarrow> int \<Rightarrow> string \<Rightarrow> string option \<Rightarrow> string option \<Rightarrow> string list option \<Rightarrow> panel \<Rightarrow>
   store_error + (Issued \<times> panel)" where
  "Issue ttl code hash newID now createdBy instanceID role perms p =
     (case perms of
        None \<Rightarrow> Inl ErrDecode
      | Some ps \<Rightarrow>
          let rec = \<lparr>iv_ID = newID, iv_TokenHash = hash, iv_CreatedBy = createdBy, iv_InstanceID = instanceID, iv_GrantRole = role,
                     iv_GrantPerms = ps, iv_ExpiresAt = now + ttl, iv_CreatedAt = now, iv_RedeemedAt = None, iv_RedeemedBy = None,
                     iv_RevokedAt = None\<rparr>
          in rbind (CreateInviteAudited rec \<lparr>AuditUserID = createdBy, AuditAction = ''invites.issue''\<rparr> p) (\<lambda>p'.
               Inr (\<lparr>is_Code = code, is_ExpiresAt = iv_ExpiresAt rec, is_Invite = rec\<rparr>, p')))"

definition match_code :: "(string \<Rightarrow> string \<Rightarrow> bool) \<Rightarrow> int \<Rightarrow> string \<Rightarrow> panel \<Rightarrow> Invite option" where
  "match_code verify now code p = find (\<lambda>v. verify code (iv_TokenHash v)) (LiveInvites now p)"

text \<open>The invites are read at one instant and the claim is made at a later one, in a transaction of its own.\<close>

definition Redeem ::
  "(string \<Rightarrow> string \<Rightarrow> bool) \<Rightarrow> string \<Rightarrow> string \<Rightarrow> int \<Rightarrow> int \<Rightarrow> string \<Rightarrow> string \<Rightarrow> panel \<Rightarrow> auth_error + ((user \<times> Invite) \<times> panel)" where
  "Redeem verify hash newID looked now code username p =
     (case match_code verify looked code p of
        None \<Rightarrow> Inl ErrInviteInvalid
      | Some v \<Rightarrow>
          rbind (RedeemInviteToUser v newID username hash now \<lparr>AuditUserID = newID, AuditAction = ''invites.redeem''\<rparr> p) (\<lambda>p'.
            Inr ((\<lparr>UserID = newID, Username = username, UserRole = RoleMember, Disabled = False, Owner = False\<rparr>, v), p')))"

subsection \<open>The first administrator\<close>

definition setupTokenTTL :: int where
  "setupTokenTTL = 15 * 60 * 10 ^ 9"

definition Pending :: "panel \<Rightarrow> bool" where
  "Pending p \<longleftrightarrow> CountUsers (core_of p) = 0"

definition PrintToken :: "(string \<Rightarrow> string) \<Rightarrow> string \<Rightarrow> int \<Rightarrow> panel \<Rightarrow> string option \<times> panel" where
  "PrintToken sha raw now p =
     (if \<not> Pending p then (None, p)
      else case NewSessionToken sha raw of (token, hash) \<Rightarrow>
        (Some token, p\<lparr>pn_bootstrap := Some \<lparr>bs_Pending = True, bs_TokenHash = hash, bs_ExpiresAt = now + setupTokenTTL\<rparr>\<rparr>))"

definition token_current :: "(string \<Rightarrow> string) \<Rightarrow> int \<Rightarrow> string \<Rightarrow> panel \<Rightarrow> bool" where
  "token_current sha now token p =
     (case (pn_bootstrap p, HashSessionToken sha token) of
        (Some st, Some h) \<Rightarrow> bs_TokenHash st = h \<and> now \<le> bs_ExpiresAt st
      | _ \<Rightarrow> False)"

text \<open>The insert re-checks the count in its own transaction; the row of the token is cleared after it.\<close>

definition Setup :: "(string \<Rightarrow> string) \<Rightarrow> string \<Rightarrow> string \<Rightarrow> int \<Rightarrow> string \<Rightarrow> string \<Rightarrow> panel \<Rightarrow> auth_error + (user \<times> panel)" where
  "Setup sha hash newID now token username p =
     (if \<not> Pending p then Inl ErrSetupConsumed
      else if \<not> token_current sha now token p then Inl ErrSetupTokenInvalid
      else case CreateFirstAdmin newID username (core_of p) of
          Inl e \<Rightarrow> Inl (if e = ErrBootstrapConsumed then ErrSetupConsumed else ErrStore e)
        | Inr d \<Rightarrow>
            Inr (\<lparr>UserID = newID, Username = username, UserRole = RoleAdmin, Disabled = False, Owner = True\<rparr>,
                 p\<lparr>pn_users := users d, pn_hash := (pn_hash p)(newID := hash),
                   pn_bootstrap := Some \<lparr>bs_Pending = False, bs_TokenHash = [], bs_ExpiresAt = 0\<rparr>\<rparr>))"

subsection \<open>Trusted browsers\<close>

definition DeviceTrustAge :: int where
  "DeviceTrustAge = 180 * 24 * 60 * 60"

definition device_message :: "user \<times> string \<Rightarrow> string \<Rightarrow> string" where
  "device_message rec issued =
     ''trusted-device'' @ [CHR 0x00] @ UserID (fst rec) @ [CHR 0x00] @ issued @ [CHR 0x00] @ snd rec"

definition sign :: "(string \<Rightarrow> string) \<Rightarrow> user \<times> string \<Rightarrow> string \<Rightarrow> string" where
  "sign mac rec issued = RawURL_Encode (mac (device_message rec issued))"

definition Token :: "(string \<Rightarrow> string) \<Rightarrow> int \<Rightarrow> string \<Rightarrow> panel \<Rightarrow> string option" where
  "Token mac now username p =
     map_option (\<lambda>rec. UserID (fst rec) @ ''.'' @ Itoa now @ ''.'' @ sign mac rec (Itoa now)) (UserForLogin username p)"

text \<open>Instants are whole seconds here; the clock's fraction only matters in the second the age is exceeded.\<close>

definition Trusted :: "(string \<Rightarrow> string) \<Rightarrow> int \<Rightarrow> string \<Rightarrow> string \<Rightarrow> panel \<Rightarrow> bool" where
  "Trusted mac now username cookieValue p =
     (case split_on (CHR ''.'') cookieValue of
        [uid, issued, signature] \<Rightarrow>
          signature \<noteq> [] \<and>
          (case atoi issued of
             None \<Rightarrow> False
           | Some issuedAt \<Rightarrow>
               0 \<le> now - issuedAt \<and> now - issuedAt \<le> DeviceTrustAge \<and>
               (case UserForLogin username p of
                  None \<Rightarrow> False
                | Some rec \<Rightarrow> UserID (fst rec) = uid \<and> signature = sign mac rec issued))
      | _ \<Rightarrow> False)"

end
