(* ===== verification/Account_Properties.thy ===== *)
theory Account_Properties
  imports Accounts
begin

text \<open>
  What accounts promise over every interleaving of requests: passwords end sessions, sessions end, invites work once,
  the first administrator is created once, and a trusted browser is trusted for the current password only.
\<close>

subsection \<open>Steps\<close>

text \<open>
  Beside the tables, the logins that have been verified and not yet opened a session, and the identifiers drawn for
  invites so far: \<open>NewID\<close> does not draw one twice. A step carries the user a session was opened for, if it opened one.
\<close>

record site =
  st_panel :: panel
  st_verified :: "(user \<times> string) list"
  st_drawn :: "string list"

inductive acct_step ::
  "(string \<Rightarrow> string \<Rightarrow> bool) \<Rightarrow> (string \<Rightarrow> string) \<Rightarrow> Sessions \<Rightarrow> string option \<Rightarrow> site \<Rightarrow> site \<Rightarrow> bool"
  for verify :: "string \<Rightarrow> string \<Rightarrow> bool" and sha :: "string \<Rightarrow> string" and cfg :: Sessions where
  verified: "check_password verify name password (st_panel s) = Inr rec \<Longrightarrow>
    acct_step verify sha cfg None s (s\<lparr>st_verified := rec # st_verified s\<rparr>)"
| trusted: "check_trusted name (st_panel s) = Inr rec \<Longrightarrow>
    acct_step verify sha cfg None s (s\<lparr>st_verified := rec # st_verified s\<rparr>)"
| rehashed: "rec \<in> set (st_verified s) \<Longrightarrow>
    acct_step verify sha cfg None s (s\<lparr>st_panel := rehashIfWeak weak newHash rec (st_panel s)\<rparr>)"
| opened: "rec \<in> set (st_verified s) \<Longrightarrow> open_session sha cfg sid raw now (fst rec) ip agent (st_panel s) = Inr (li, p) \<Longrightarrow>
    acct_step verify sha cfg (Some (UserID (fst rec))) s (s\<lparr>st_panel := p, st_verified := remove1 rec (st_verified s)\<rparr>)"
| given_up: "acct_step verify sha cfg None s (s\<lparr>st_verified := remove1 rec (st_verified s)\<rparr>)"
| authenticated: "Authenticate sha cfg now touched cookie (st_panel s) = (r, p) \<Longrightarrow>
    acct_step verify sha cfg None s (s\<lparr>st_panel := p\<rparr>)"
| logged_out: "acct_step verify sha cfg None s (s\<lparr>st_panel := fst (Logout sid (st_panel s))\<rparr>)"
| changed: "ChangePassword verify hash name keep current audit (st_panel s) = Inr (p, rs) \<Longrightarrow>
    acct_step verify sha cfg None s (s\<lparr>st_panel := p\<rparr>)"
| password_set: "SetPassword hash uid audit (st_panel s) = Inr (p, rs) \<Longrightarrow> acct_step verify sha cfg None s (s\<lparr>st_panel := p\<rparr>)"
| reset: "adminReset hash name (st_panel s) = Inr p \<Longrightarrow> acct_step verify sha cfg None s (s\<lparr>st_panel := p\<rparr>)"
| created: "on_core (CreateUserAudited uid name role audit) (st_panel s) = Inr p \<Longrightarrow>
    acct_step verify sha cfg None s (s\<lparr>st_panel := p\<lparr>pn_hash := (pn_hash p)(uid := hash)\<rparr>\<rparr>)"
| updated: "on_core (UpdateUserAudited uid role disabled revoke audit) (st_panel s) = Inr p \<Longrightarrow>
    acct_step verify sha cfg None s (s\<lparr>st_panel := p\<rparr>)"
| deleted: "on_core (DeleteUserAudited uid audit) (st_panel s) = Inr p \<Longrightarrow> acct_step verify sha cfg None s (s\<lparr>st_panel := p\<rparr>)"
| granted: "on_core (\<lambda>d. rbind (ReplaceGrant revision uid i role ps cond audit now d) (\<lambda>(d', _). Inr d')) (st_panel s) = Inr p \<Longrightarrow>
    acct_step verify sha cfg None s (s\<lparr>st_panel := p\<rparr>)"
| ungranted: "on_core (DeleteGrant revision uid i want audit) (st_panel s) = Inr p \<Longrightarrow> acct_step verify sha cfg None s (s\<lparr>st_panel := p\<rparr>)"
| issued: "newID \<notin> set (st_drawn s) \<Longrightarrow> Issue ttl code hash newID now uid i role perms (st_panel s) = Inr (r, p) \<Longrightarrow>
    acct_step verify sha cfg None s (s\<lparr>st_panel := p, st_drawn := newID # st_drawn s\<rparr>)"
| redeemed: "RedeemInviteToUser v uid name hash now audit (st_panel s) = Inr p \<Longrightarrow> acct_step verify sha cfg None s (s\<lparr>st_panel := p\<rparr>)"
| invite_revoked: "acct_step verify sha cfg None s (s\<lparr>st_panel := RevokeInviteAudited i now audit (st_panel s)\<rparr>)"
| printed: "PrintToken sha raw now (st_panel s) = (t, p) \<Longrightarrow> acct_step verify sha cfg None s (s\<lparr>st_panel := p\<rparr>)"
| set_up: "Setup sha hash newID now token name (st_panel s) = Inr (u, p) \<Longrightarrow> acct_step verify sha cfg None s (s\<lparr>st_panel := p\<rparr>)"

text \<open>A run, with the users sessions were opened for.\<close>

inductive acct_run ::
  "(string \<Rightarrow> string \<Rightarrow> bool) \<Rightarrow> (string \<Rightarrow> string) \<Rightarrow> Sessions \<Rightarrow> string list \<Rightarrow> site \<Rightarrow> site \<Rightarrow> bool"
  for verify :: "string \<Rightarrow> string \<Rightarrow> bool" and sha :: "string \<Rightarrow> string" and cfg :: Sessions where
  none: "acct_run verify sha cfg [] s s"
| some: "acct_run verify sha cfg us s t \<Longrightarrow> acct_step verify sha cfg who t t' \<Longrightarrow> acct_run verify sha cfg (us @ case_option [] (\<lambda>u. [u]) who) s t'"

subsection \<open>How rows change\<close>

text \<open>Rows that stay, each replaced by one it is related to.\<close>

definition reworked :: "('a \<Rightarrow> 'a \<Rightarrow> bool) \<Rightarrow> 'a list \<Rightarrow> 'a list \<Rightarrow> bool" where
  "reworked R xs ys \<longleftrightarrow> (\<exists>f keep. ys = map f (filter keep xs) \<and> (\<forall>x. R x (f x)))"

lemma reworked_refl: "(\<And>x. R x x) \<Longrightarrow> reworked R xs xs"
  unfolding reworked_def by (rule exI [of _ id], rule exI [of _ "\<lambda>_. True"]) simp

lemma reworked_filter: "(\<And>x. R x x) \<Longrightarrow> reworked R xs (filter keep xs)"
  unfolding reworked_def by (rule exI [of _ id], rule exI [of _ keep]) simp

lemma reworked_map: "(\<And>x. R x (f x)) \<Longrightarrow> reworked R xs (map f xs)"
  unfolding reworked_def by (rule exI [of _ f], rule exI [of _ "\<lambda>_. True"]) simp

lemma reworked_map_filter: "(\<And>x. R x (f x)) \<Longrightarrow> reworked R xs (map f (filter keep xs))"
  unfolding reworked_def by blast

lemma filter_map_filter: "filter k (map f (filter l xs)) = map f (filter (\<lambda>x. l x \<and> k (f x)) xs)"
  by (induction xs) auto

lemma reworked_trans:
  assumes t: "\<And>x y z. R x y \<Longrightarrow> R y z \<Longrightarrow> R x z" and a: "reworked R xs ys" and b: "reworked R ys zs"
  shows "reworked R xs zs"
proof -
  obtain f k g l where "ys = map f (filter k xs)" "zs = map g (filter l ys)" "\<forall>x. R x (f x)" "\<forall>x. R x (g x)"
    using a b unfolding reworked_def by blast
  then have "zs = map (g \<circ> f) (filter (\<lambda>x. k x \<and> l (f x)) xs)" "\<forall>x. R x ((g \<circ> f) x)" by (simp_all add: filter_map_filter) (blast intro: t)
  then show ?thesis unfolding reworked_def by blast
qed

lemma reworkedD:
  assumes "reworked R xs ys" "y \<in> set ys"
  shows "\<exists>x \<in> set xs. R x y"
proof -
  obtain f k where f: "ys = map f (filter k xs)" "\<forall>x. R x (f x)" using assms(1) unfolding reworked_def by blast
  with assms(2) obtain x where "x \<in> set xs" "y = f x" by auto
  with f(2) show ?thesis by blast
qed

lemma reworked_keys:
  assumes "\<And>x y. R x y \<Longrightarrow> key y = key x" "reworked R xs ys"
  shows "set (map key ys) \<subseteq> set (map key xs)" "distinct (map key xs) \<Longrightarrow> distinct (map key ys)"
proof -
  obtain f k where "ys = map f (filter k xs)" "\<forall>x. R x (f x)" using assms(2) unfolding reworked_def by blast
  then have "map key ys = map key (filter k xs)" using assms(1) by simp
  then show "set (map key ys) \<subseteq> set (map key xs)" "distinct (map key xs) \<Longrightarrow> distinct (map key ys)"
    by (auto simp: distinct_map_filter)
qed

text \<open>A session keeps what it was opened with; a touch moves its idle expiry with the time it was last seen.\<close>

definition sess_aged :: "Sessions \<Rightarrow> Session \<Rightarrow> Session \<Rightarrow> bool" where
  "sess_aged cfg x y \<longleftrightarrow> se_ID y = se_ID x \<and> se_TokenHash y = se_TokenHash x \<and> se_UserID y = se_UserID x \<and>
     se_CreatedAt y = se_CreatedAt x \<and> se_AbsoluteExpiresAt y = se_AbsoluteExpiresAt x \<and>
     (se_LastSeenAt y = se_LastSeenAt x \<and> se_IdleExpiresAt y = se_IdleExpiresAt x \<or> se_IdleExpiresAt y = se_LastSeenAt y + ss_idleTTL cfg)"

lemma sess_aged_refl [simp]: "sess_aged cfg x x" by (simp add: sess_aged_def)

lemma sess_aged_trans: "sess_aged cfg x y \<Longrightarrow> sess_aged cfg y z \<Longrightarrow> sess_aged cfg x z" by (auto simp: sess_aged_def)

text \<open>An invite keeps what it was issued with, and once redeemed or revoked stays so.\<close>

definition iv_aged :: "Invite \<Rightarrow> Invite \<Rightarrow> bool" where
  "iv_aged x y \<longleftrightarrow> iv_ID y = iv_ID x \<and> iv_TokenHash y = iv_TokenHash x \<and> iv_CreatedBy y = iv_CreatedBy x \<and>
     iv_InstanceID y = iv_InstanceID x \<and> iv_GrantRole y = iv_GrantRole x \<and> iv_GrantPerms y = iv_GrantPerms x \<and>
     iv_ExpiresAt y = iv_ExpiresAt x \<and> (iv_RedeemedAt x \<noteq> None \<longrightarrow> iv_RedeemedAt y \<noteq> None) \<and>
     (iv_RevokedAt x \<noteq> None \<longrightarrow> iv_RevokedAt y \<noteq> None)"

lemma iv_aged_refl [simp]: "iv_aged x x" by (simp add: iv_aged_def)

lemma iv_aged_trans: "iv_aged x y \<Longrightarrow> iv_aged y z \<Longrightarrow> iv_aged x z" by (simp add: iv_aged_def)

lemma keep_invites_reworked: "reworked iv_aged ivs (keep_invites us ivs)"
  unfolding keep_invites_def by (rule reworked_map_filter) (simp add: iv_aged_def split: option.split)

lemma update_invite_reworked:
  assumes "\<And>v. iv_aged v (f v)"
  shows "reworked iv_aged (pn_invites p) (pn_invites (update_invite i guard f p))"
  unfolding update_invite_def using assms by (auto intro!: reworked_map)

lemma update_invite_fields [simp]:
  "pn_users (update_invite i guard f p) = pn_users p" "pn_sessions (update_invite i guard f p) = pn_sessions p"
  "pn_grants (update_invite i guard f p) = pn_grants p" "pn_instances (update_invite i guard f p) = pn_instances p"
  "core_of (update_invite i guard f p) = core_of p" "pn_hash (update_invite i guard f p) = pn_hash p"
  by (simp_all add: update_invite_def core_of_def)

lemma audited_fields [simp]:
  "pn_users (audited e p) = pn_users p" "pn_sessions (audited e p) = pn_sessions p" "pn_invites (audited e p) = pn_invites p"
  "pn_grants (audited e p) = pn_grants p" "pn_hash (audited e p) = pn_hash p" "pn_instances (audited e p) = pn_instances p"
  by (simp_all add: audited_def)

lemma core_users [simp]: "users (core_of p) = pn_users p" by (simp add: core_of_def)

lemma on_core_effect:
  assumes "on_core f p = Inr p'"
  obtains d where "f (core_of p) = Inr d" "pn_users p' = users d" "pn_hash p' = pn_hash p"
    "reworked (sess_aged cfg) (pn_sessions p) (pn_sessions p')" "reworked iv_aged (pn_invites p) (pn_invites p')"
  using assms by (auto simp: on_core_def rbind_eq_Inr with_core_def reworked_filter keep_invites_reworked)

lemma insert_user_effect:
  assumes "insert_user uid name hash role p = Inr p'"
  shows "pn_users p' = pn_users p @ [\<lparr>UserID = uid, Username = name, UserRole = role, Disabled = False, Owner = False\<rparr>]"
    "pn_sessions p' = pn_sessions p" "pn_invites p' = pn_invites p" "pn_grants p' = pn_grants p" "pn_instances p' = pn_instances p"
    "pn_hash p' = (pn_hash p)(uid := hash)" "createUser uid name role (core_of p) = Inr (core_of p')"
  using assms by (auto simp: insert_user_def rbind_eq_Inr createUser_def core_of_def split: if_splits)

lemma password_effect:
  assumes "SetUserPasswordKeepingSession uid hash keep audit p = Inr (ids, p')"
  shows "pn_sessions p' = filter (\<lambda>s. \<not> (se_UserID s = uid \<and> se_ID s \<noteq> keep)) (pn_sessions p)" "pn_users p' = pn_users p"
    "pn_invites p' = pn_invites p" "pn_hash p' = (pn_hash p)(uid := hash)"
    "ids = map se_ID (filter (\<lambda>s. se_UserID s = uid \<and> se_ID s \<noteq> keep) (pn_sessions p))"
  using assms by (auto simp: SetUserPasswordKeepingSession_def setUserPassword_def otherSessionIDs_def rbind_eq_Inr Let_def split: if_splits)

lemma wrap_Inr: "wrap r = Inr x \<longleftrightarrow> r = Inr x"
  by (auto simp: wrap_def split: sum.split)

lemma applyInviteGrant_effect:
  assumes "applyInviteGrant v uid now p = Inr p'"
  shows "pn_users p' = pn_users p" "pn_sessions p' = pn_sessions p" "pn_invites p' = pn_invites p" "pn_hash p' = pn_hash p"
    "pn_grants p' = pn_grants p @ (case iv_InstanceID v of None \<Rightarrow> [] | Some i \<Rightarrow>
       [\<lparr>gr_user_id = uid, gr_instance_id = i, gr_role = the (iv_GrantRole v), gr_perms = Some (iv_GrantPerms v),
         gr_granted_by = Some (iv_CreatedBy v), gr_granted_at = now, gr_expires_at = None\<rparr>])"
  using assms by (auto simp: applyInviteGrant_def rbind_eq_Inr wrap_Inr insert_grant_row_def core_of_def split: option.splits if_splits)

lemma redeem_effect:
  assumes "RedeemInviteToUser v uid name hash now audit p = Inr p'"
  shows "\<exists>w \<in> set (pn_invites p). iv_ID w = iv_ID v \<and> Live now w"
    "pn_users p' = pn_users p @ [\<lparr>UserID = uid, Username = name, UserRole = RoleMember, Disabled = False, Owner = False\<rparr>]"
    "pn_sessions p' = pn_sessions p" "pn_hash p' = (pn_hash p)(uid := hash)"
    "pn_grants p' = pn_grants p @ (case iv_InstanceID v of None \<Rightarrow> [] | Some i \<Rightarrow>
       [\<lparr>gr_user_id = uid, gr_instance_id = i, gr_role = the (iv_GrantRole v), gr_perms = Some (iv_GrantPerms v),
         gr_granted_by = Some (iv_CreatedBy v), gr_granted_at = now, gr_expires_at = None\<rparr>])"
    "pn_invites p' = map (\<lambda>w. if iv_ID w = iv_ID v then w\<lparr>iv_RedeemedAt := (if Live now w then Some now else iv_RedeemedAt w),
                                                        iv_RedeemedBy := Some uid\<rparr> else w) (pn_invites p)"
    "createUser uid name RoleMember (core_of p) = Inr d \<Longrightarrow> users d = pn_users p'"
    "\<exists>d. createUser uid name RoleMember (core_of p) = Inr d"
proof -
  let ?q = "update_invite (iv_ID v) (Live now) (\<lambda>w. w\<lparr>iv_RedeemedAt := Some now\<rparr>) p"
  obtain p1 p2 where l: "\<exists>w \<in> set (pn_invites p). iv_ID w = iv_ID v \<and> Live now w"
    and p1: "insert_user uid name hash RoleMember ?q = Inr p1"
    and p2: "applyInviteGrant v uid now (update_invite (iv_ID v) (\<lambda>_. True) (\<lambda>w. w\<lparr>iv_RedeemedBy := Some uid\<rparr>) p1) = Inr p2"
    and p': "p' = audited audit p2"
    using assms by (auto simp: RedeemInviteToUser_def rbind_eq_Inr wrap_Inr list_ex_iff split: if_splits)
  note e = insert_user_effect [OF p1] applyInviteGrant_effect [OF p2]
  show "\<exists>w \<in> set (pn_invites p). iv_ID w = iv_ID v \<and> Live now w" by (rule l)
  show "pn_users p' = pn_users p @ [\<lparr>UserID = uid, Username = name, UserRole = RoleMember, Disabled = False, Owner = False\<rparr>]"
    "pn_sessions p' = pn_sessions p" "pn_hash p' = (pn_hash p)(uid := hash)" using e by (simp_all add: p')
  show "pn_grants p' = pn_grants p @ (case iv_InstanceID v of None \<Rightarrow> [] | Some i \<Rightarrow>
       [\<lparr>gr_user_id = uid, gr_instance_id = i, gr_role = the (iv_GrantRole v), gr_perms = Some (iv_GrantPerms v),
         gr_granted_by = Some (iv_CreatedBy v), gr_granted_at = now, gr_expires_at = None\<rparr>])" using e by (simp add: p')
  show "pn_invites p' = map (\<lambda>w. if iv_ID w = iv_ID v then w\<lparr>iv_RedeemedAt := (if Live now w then Some now else iv_RedeemedAt w),
                                                        iv_RedeemedBy := Some uid\<rparr> else w) (pn_invites p)"
    using e by (simp add: p' update_invite_def Live_def)
  show "\<exists>d. createUser uid name RoleMember (core_of p) = Inr d" using e(7) by auto
  show "users d = pn_users p'" if "createUser uid name RoleMember (core_of p) = Inr d"
    using that e(1,7,8) by (simp add: p' createUser_def split: if_splits)
qed

subsection \<open>Every step\<close>

lemma TouchSession_reworked: "reworked (sess_aged cfg) (pn_sessions p) (pn_sessions (TouchSession sid now (ss_idleTTL cfg) throttle p))"
  unfolding TouchSession_def by (auto intro!: reworked_map simp: sess_aged_def)

lemma Authenticate_effect:
  assumes "Authenticate sha cfg now touched cookie p = (r, p')"
  shows "reworked (sess_aged cfg) (pn_sessions p) (pn_sessions p')" "pn_invites p' = pn_invites p" "pn_users p' = pn_users p"
proof -
  have "p' = p \<or> (\<exists>sid. p' = TouchSession sid touched (ss_idleTTL cfg) (ss_throttle cfg) p)"
    using assms by (auto simp: Authenticate_def split: option.splits if_splits)
  then show "reworked (sess_aged cfg) (pn_sessions p) (pn_sessions p')" "pn_invites p' = pn_invites p" "pn_users p' = pn_users p"
    by (auto simp: TouchSession_reworked reworked_refl) (simp_all add: TouchSession_def)
qed

lemma rehash_fields [simp]:
  "pn_users (rehashIfWeak weak newHash rec p) = pn_users p" "pn_sessions (rehashIfWeak weak newHash rec p) = pn_sessions p"
  "pn_invites (rehashIfWeak weak newHash rec p) = pn_invites p"
  by (simp_all add: rehashIfWeak_def setUserPassword_def split: prod.split option.split)

lemma reset_effect:
  assumes "adminReset hash name p = Inr p'"
  shows "reworked (sess_aged cfg) (pn_sessions p) (pn_sessions p')" "pn_invites p' = pn_invites p" "pn_users p' = pn_users p"
  using assms by (auto simp: adminReset_def rbind_eq_Inr SetUserPasswordByUsername_def DeleteSessionsForUser_def reworked_filter reworked_refl
      split: option.splits)

lemma change_effect:
  assumes "ChangePassword verify hash name keep current audit p = Inr (p', rs)"
  obtains uid ids where "SetUserPasswordKeepingSession uid hash keep audit p = Inr (ids, p')"
  using assms by (auto simp: ChangePassword_def rbind_eq_Inr wrap_Inr split: option.splits if_splits)

lemma set_effect:
  assumes "SetPassword hash uid audit p = Inr (p', rs)"
  obtains ids where "SetUserPasswordKeepingSession uid hash [] audit p = Inr (ids, p')"
  using assms by (auto simp: SetPassword_def SetUserPasswordAudited_def rbind_eq_Inr wrap_Inr)

lemma open_effect:
  assumes "open_session sha cfg sid raw now u ip agent p = Inr (li, p')"
  shows "pn_sessions p' = pn_sessions p @ [\<lparr>se_ID = sid, se_TokenHash = sha raw, se_UserID = UserID u, se_CreatedAt = now, se_LastSeenAt = now,
      se_IdleExpiresAt = now + ss_idleTTL cfg, se_AbsoluteExpiresAt = now + ss_absTTL cfg, se_RevokedAt = None, se_IP = ip, se_UserAgent = agent\<rparr>]"
    "pn_invites p' = pn_invites p" "pn_users p' = pn_users p" "li_Cookie li = RawURL_Encode raw" "li_SessionID li = sid" "li_User li = u"
    "UserByID (UserID u) p \<noteq> None" "sid \<notin> set (map se_ID (pn_sessions p))" "sha raw \<notin> set (map se_TokenHash (pn_sessions p))"
  using assms by (auto simp: open_session_def NewSessionToken_def CreateSession_def UpdateLastLogin_def rbind_eq_Inr Let_def list_ex_iff split: if_splits)

lemma Issue_effect:
  assumes "Issue ttl code hash newID now uid i role perms p = Inr (r, p')"
  shows "\<exists>v. pn_invites p' = pn_invites p @ [v] \<and> iv_ID v = newID" "pn_sessions p' = pn_sessions p" "pn_users p' = pn_users p"
  using assms by (auto simp: Issue_def CreateInviteAudited_def createInvite_def rbind_eq_Inr Let_def split: option.splits if_splits)

lemma print_fields: "PrintToken sha raw now p = (t, p') \<Longrightarrow> pn_sessions p' = pn_sessions p \<and> pn_invites p' = pn_invites p \<and> pn_users p' = pn_users p"
  by (auto simp: PrintToken_def split: if_splits prod.splits)

lemma setup_fields:
  "Setup sha hash newID now token name p = Inr (u, p') \<Longrightarrow> pn_sessions p' = pn_sessions p \<and> pn_invites p' = pn_invites p \<and> pn_users p = [] \<and>
     pn_users p' = [\<lparr>UserID = newID, Username = name, UserRole = RoleAdmin, Disabled = False, Owner = True\<rparr>] \<and> u = hd (pn_users p')"
  by (auto simp: Setup_def CreateFirstAdmin_def Pending_def CountUsers_def split: if_splits sum.splits)

lemma revoke_fields [simp]:
  "pn_sessions (RevokeInviteAudited i now audit p) = pn_sessions p" "pn_users (RevokeInviteAudited i now audit p) = pn_users p"
  by (simp_all add: RevokeInviteAudited_def)

text \<open>Sessions: only opening one adds a row.\<close>

lemma step_sessions:
  assumes "acct_step verify sha cfg who s t"
  shows "(who = None \<longrightarrow> reworked (sess_aged cfg) (pn_sessions (st_panel s)) (pn_sessions (st_panel t))) \<and>
    (\<forall>u. who = Some u \<longrightarrow> (\<exists>r. pn_sessions (st_panel t) = pn_sessions (st_panel s) @ [r] \<and> se_UserID r = u \<and>
       se_LastSeenAt r = se_CreatedAt r \<and> se_IdleExpiresAt r = se_CreatedAt r + ss_idleTTL cfg \<and> se_AbsoluteExpiresAt r = se_CreatedAt r + ss_absTTL cfg))"
  using assms
proof (cases rule: acct_step.cases)
  case (opened rec sid raw now ip agent li p)
  then show ?thesis using open_effect(1) [OF opened(4)] by auto
next
  case (authenticated now touched cookie r p)
  then show ?thesis using Authenticate_effect(1) by simp
next
  case (changed hash name keep current audit p rs)
  then obtain uid ids where "SetUserPasswordKeepingSession uid hash keep audit (st_panel s) = Inr (ids, p)" by (auto elim: change_effect)
  then show ?thesis using changed by (simp add: password_effect(1) reworked_filter)
next
  case (password_set hash uid audit p rs)
  then obtain ids where "SetUserPasswordKeepingSession uid hash [] audit (st_panel s) = Inr (ids, p)" by (auto elim: set_effect)
  then show ?thesis using password_set by (simp add: password_effect(1) reworked_filter)
next
  case (reset hash name p)
  then show ?thesis using reset_effect(1) by simp
next
  case (logged_out sid)
  then show ?thesis by (simp add: Logout_def DeleteSession_def reworked_filter)
next
  case (created uid name role audit p hash)
  then show ?thesis using on_core_effect by (metis option.distinct(1) panel.select_convs(6) panel.surjective panel.update_convs(2) site.select_convs(1) site.surjective site.update_convs(1))
next
  case (issued newID ttl code hash now uid i role perms r p)
  then show ?thesis using Issue_effect(2) by (simp add: reworked_refl)
next
  case (redeemed v uid name hash now audit p)
  then show ?thesis using redeem_effect(3) by (simp add: reworked_refl)
next
  case (printed raw now t p)
  then show ?thesis using print_fields by (simp add: reworked_refl)
next
  case (set_up hash newID now token name u p)
  then show ?thesis using setup_fields by (simp add: reworked_refl)
qed (auto simp: reworked_refl elim: on_core_effect)

text \<open>Invites: only issuing one adds a row, under an identifier that was not drawn before.\<close>

lemma redeem_reworked:
  assumes "RedeemInviteToUser v uid name hash now audit p = Inr p'"
  shows "reworked iv_aged (pn_invites p) (pn_invites p')"
  unfolding redeem_effect(6) [OF assms] by (rule reworked_map) (auto simp: iv_aged_def Live_def)

lemma revoke_reworked: "reworked iv_aged (pn_invites p) (pn_invites (RevokeInviteAudited i now audit p))"
  unfolding RevokeInviteAudited_def audited_fields by (rule update_invite_reworked) (simp add: iv_aged_def)

lemma step_invites:
  assumes "acct_step verify sha cfg who s t"
  shows "reworked iv_aged (pn_invites (st_panel s)) (pn_invites (st_panel t)) \<and> st_drawn t = st_drawn s \<or>
    (\<exists>v. pn_invites (st_panel t) = pn_invites (st_panel s) @ [v] \<and> iv_ID v \<notin> set (st_drawn s) \<and> st_drawn t = iv_ID v # st_drawn s)"
  using assms
proof (cases rule: acct_step.cases)
  case (opened rec sid raw now ip agent li p)
  then show ?thesis using open_effect(2) [OF opened(4)] by (simp add: reworked_refl)
next
  case (authenticated now touched cookie r p)
  then show ?thesis using Authenticate_effect(2) by (simp add: reworked_refl)
next
  case (changed hash name keep current audit p rs)
  then obtain uid ids where "SetUserPasswordKeepingSession uid hash keep audit (st_panel s) = Inr (ids, p)" by (auto elim: change_effect)
  then show ?thesis using changed by (simp add: password_effect(3) reworked_refl)
next
  case (password_set hash uid audit p rs)
  then obtain ids where "SetUserPasswordKeepingSession uid hash [] audit (st_panel s) = Inr (ids, p)" by (auto elim: set_effect)
  then show ?thesis using password_set by (simp add: password_effect(3) reworked_refl)
next
  case (reset hash name p)
  then show ?thesis using reset_effect(2) by (simp add: reworked_refl)
next
  case (logged_out sid)
  then show ?thesis by (simp add: Logout_def DeleteSession_def reworked_refl)
next
  case (issued newID ttl code hash now uid i role perms r p)
  then show ?thesis using Issue_effect(1) [OF issued(4)] by auto
next
  case (redeemed v uid name hash now audit p)
  then show ?thesis using redeem_reworked by simp
next
  case (invite_revoked i now audit)
  then show ?thesis using revoke_reworked by simp
next
  case (printed raw now t p)
  then show ?thesis using print_fields by (simp add: reworked_refl)
next
  case (set_up hash newID now token name u p)
  then show ?thesis using setup_fields by (simp add: reworked_refl)
qed (auto simp: reworked_refl elim: on_core_effect)

text \<open>Users: the owner stays, as \<open>User_Store\<close> shows of every administrative transaction.\<close>

lemma owner_on_core:
  assumes "owner_ok uid (core_of p)" "on_core f p = Inr p'" "\<And>d. f (core_of p) = Inr d \<Longrightarrow> admin_step (core_of p) d"
  shows "owner_ok uid (core_of p')"
proof -
  obtain d where d: "f (core_of p) = Inr d" "pn_users p' = users d" using assms(2) by (rule on_core_effect)
  from owner_ok_step [OF assms(3) [OF d(1)] assms(1)] show ?thesis by (rule owner_ok_users) (simp add: d(2))
qed

lemma step_owner:
  assumes "acct_step verify sha cfg who s t" "owner_ok uid (core_of (st_panel s))"
  shows "owner_ok uid (core_of (st_panel t))"
  using assms
proof (cases rule: acct_step.cases)
  case (opened rec sid raw now ip agent li p)
  then show ?thesis using open_effect(3) [OF opened(4)] owner_ok_users [OF assms(2)] by simp
next
  case (authenticated now touched cookie r p)
  then show ?thesis using Authenticate_effect(3) owner_ok_users [OF assms(2)] by simp
next
  case (changed hash name keep current audit p rs)
  then obtain u ids where "SetUserPasswordKeepingSession u hash keep audit (st_panel s) = Inr (ids, p)" by (auto elim: change_effect)
  then show ?thesis using changed owner_ok_users [OF assms(2)] by (simp add: password_effect(2))
next
  case (password_set hash u audit p rs)
  then obtain ids where "SetUserPasswordKeepingSession u hash [] audit (st_panel s) = Inr (ids, p)" by (auto elim: set_effect)
  then show ?thesis using password_set owner_ok_users [OF assms(2)] by (simp add: password_effect(2))
next
  case (reset hash name p)
  then show ?thesis using reset_effect(3) owner_ok_users [OF assms(2)] by simp
next
  case (logged_out sid)
  then show ?thesis using owner_ok_users [OF assms(2)] by (simp add: Logout_def DeleteSession_def)
next
  case (created u name role audit p hash)
  then have "owner_ok uid (core_of p)" using owner_on_core [OF assms(2)] admin_step.intros(1) by blast
  then show ?thesis using created by (auto intro: owner_ok_users)
next
  case (updated u role disabled revoke audit p)
  then show ?thesis using owner_on_core [OF assms(2)] admin_step.intros(3) by (metis site.select_convs(1) site.surjective site.update_convs(1))
next
  case (deleted u audit p)
  then show ?thesis using owner_on_core [OF assms(2)] admin_step.intros(4) by (metis site.select_convs(1) site.surjective site.update_convs(1))
next
  case (granted revision u i role ps cond audit now p)
  have "owner_ok uid (core_of p)"
    by (rule owner_on_core [OF assms(2) granted(3)]) (auto simp: rbind_eq_Inr intro: admin_step.intros(6))
  then show ?thesis using granted by simp
next
  case (ungranted revision u i want audit p)
  then show ?thesis using owner_on_core [OF assms(2)] admin_step.intros(7) by (metis site.select_convs(1) site.surjective site.update_convs(1))
next
  case (issued newID ttl code hash now u i role perms r p)
  then show ?thesis using Issue_effect(3) owner_ok_users [OF assms(2)] by simp
next
  case (redeemed v u name hash now audit p)
  obtain d where d: "createUser u name RoleMember (core_of (st_panel s)) = Inr d" using redeem_effect(8) [OF redeemed(3)] by blast
  have "users d = pn_users p" by (rule redeem_effect(7) [OF redeemed(3) d])
  with owner_ok_create [OF assms(2) d] show ?thesis using redeemed by (auto intro: owner_ok_users)
next
  case (printed raw now t p)
  then show ?thesis using print_fields owner_ok_users [OF assms(2)] by simp
next
  case (set_up hash newID now token name u p)
  then show ?thesis using setup_fields [of sha hash newID now token name "st_panel s" u p] assms(2) by (simp add: owner_ok_def)
qed (use assms(2) in \<open>auto intro: owner_ok_users\<close>)

subsection \<open>Properties\<close>

lemma run_sessions_of:
  assumes "acct_run verify sha cfg us s t" "uid \<notin> set us" "r \<in> set (pn_sessions (st_panel t))" "se_UserID r = uid"
  shows "\<exists>q \<in> set (pn_sessions (st_panel s)). se_ID q = se_ID r \<and> se_UserID q = uid"
  using assms
proof (induction arbitrary: r rule: acct_run.induct)
  case (some us s t who t')
  have "\<exists>q \<in> set (pn_sessions (st_panel t)). se_ID q = se_ID r \<and> se_UserID q = uid"
  proof (cases who)
    case None
    then have "reworked (sess_aged cfg) (pn_sessions (st_panel t)) (pn_sessions (st_panel t'))" using step_sessions [OF some.hyps(2)] by simp
    from reworkedD [OF this some.prems(2)] show ?thesis using some.prems(3) by (auto simp: sess_aged_def)
  next
    case (Some u)
    then obtain q where "pn_sessions (st_panel t') = pn_sessions (st_panel t) @ [q]" "se_UserID q = u" using step_sessions [OF some.hyps(2)] by auto
    then show ?thesis using some.prems Some by auto
  qed
  then obtain q where q: "q \<in> set (pn_sessions (st_panel t))" "se_ID q = se_ID r" "se_UserID q = uid" by blast
  have "uid \<notin> set us" using some.prems(1) by simp
  from some.IH [OF this q(1,3)] q(2) show ?case by simp
qed auto

lemma Authenticate_session:
  assumes "fst (Authenticate sha cfg now touched cookie p) = Some (u, sid)"
  obtains raw r where "RawURL_Decode cookie = Some raw" "r \<in> set (pn_sessions p)" "se_ID r = sid" "se_TokenHash r = sha raw" "se_UserID r = UserID u"
    "u \<in> set (pn_users p)" "\<not> Disabled u" "now < se_IdleExpiresAt r" "now < se_AbsoluteExpiresAt r"
proof -
  obtain raw r where r: "RawURL_Decode cookie = Some raw" "SessionAndUser (sha raw) now p = Some (r, u)" "\<not> Disabled u" "sid = se_ID r"
    using assms by (auto simp: Authenticate_def HashSessionToken_def split: option.splits if_splits)
  then have f: "r \<in> set (pn_sessions p)" "se_TokenHash r = sha raw" "now < se_IdleExpiresAt r" "now < se_AbsoluteExpiresAt r" "UserByID (se_UserID r) p = Some u"
    by (auto simp: SessionAndUser_def find_Some_iff split: option.splits)
  then have "u \<in> set (pn_users p)" "UserID u = se_UserID r" by (auto simp: UserByID_def find_Some_iff)
  with that [of raw r] r f show thesis by simp
qed

text \<open>C11. A password change ends the sessions. After a change that keeps at most one session, whatever else happens -- short of a
  session being opened for that account -- no cookie authenticates as it except through the kept session, and every
  session that was removed is among those reported for closing their connections.\<close>

theorem password_change_ends_sessions:
  assumes "SetUserPasswordKeepingSession uid hash keep audit (st_panel s) = Inr (ids, p)"
    and "acct_run verify sha cfg us (s\<lparr>st_panel := p\<rparr>) t" and "uid \<notin> set us"
    and "fst (Authenticate sha cfg now touched cookie (st_panel t)) = Some (u, sid)" and "UserID u = uid"
  shows "sid = keep \<and> sid \<notin> set ids \<and> se_ID ` (set (pn_sessions (st_panel s)) - set (pn_sessions p)) \<subseteq> set ids \<and> pn_hash p uid = hash"
proof -
  obtain raw r where r: "r \<in> set (pn_sessions (st_panel t))" "se_ID r = sid" "se_UserID r = uid"
    using assms(4,5) by (auto elim: Authenticate_session)
  from run_sessions_of [OF assms(2,3) r(1,3)] have "sid = keep" using r(2) by (auto simp: password_effect [OF assms(1)])
  then show ?thesis by (auto simp: password_effect [OF assms(1)])
qed

text \<open>What a session promises of its times, in every run.\<close>

definition timed :: "Sessions \<Rightarrow> Session \<Rightarrow> bool" where
  "timed cfg r \<longleftrightarrow> se_IdleExpiresAt r = se_LastSeenAt r + ss_idleTTL cfg \<and> se_AbsoluteExpiresAt r = se_CreatedAt r + ss_absTTL cfg"

lemma run_timed:
  assumes "acct_run verify sha cfg us s t" "\<And>r. r \<in> set (pn_sessions (st_panel s)) \<Longrightarrow> timed cfg r" "r \<in> set (pn_sessions (st_panel t))"
  shows "timed cfg r"
  using assms
proof (induction arbitrary: r rule: acct_run.induct)
  case (some us s t who t')
  note IH = some.IH [OF some.prems(1)]
  show ?case
  proof (cases who)
    case None
    then have "reworked (sess_aged cfg) (pn_sessions (st_panel t)) (pn_sessions (st_panel t'))" using step_sessions [OF some.hyps(2)] by simp
    from reworkedD [OF this some.prems(2)] obtain q where "q \<in> set (pn_sessions (st_panel t))" "sess_aged cfg q r" by blast
    then show ?thesis using IH [of q] by (auto simp: timed_def sess_aged_def)
  next
    case (Some u)
    then obtain q where "pn_sessions (st_panel t') = pn_sessions (st_panel t) @ [q]" "timed cfg q" using step_sessions [OF some.hyps(2)] by (auto simp: timed_def)
    then show ?thesis using some.prems(2) IH by auto
  qed
qed auto

text \<open>C33. A session ends. In every run from a panel without sessions, a cookie authenticates only as an enabled account of the
  panel, through a row that holds the hash of exactly that cookie's bytes, before the absolute lifetime since the login
  has passed, and before the idle lifetime since the session was last recorded as seen has passed.\<close>

theorem session_lifetime:
  assumes "acct_run verify sha cfg us s t" and "pn_sessions (st_panel s) = []"
    and "fst (Authenticate sha cfg now touched cookie (st_panel t)) = Some (u, sid)"
  shows "\<exists>raw r. RawURL_Decode cookie = Some raw \<and> r \<in> set (pn_sessions (st_panel t)) \<and> se_ID r = sid \<and> se_TokenHash r = sha raw \<and>
    se_UserID r = UserID u \<and> u \<in> set (pn_users (st_panel t)) \<and> \<not> Disabled u \<and>
    now < se_CreatedAt r + ss_absTTL cfg \<and> now < se_LastSeenAt r + ss_idleTTL cfg"
proof -
  obtain raw r where r: "RawURL_Decode cookie = Some raw" "r \<in> set (pn_sessions (st_panel t))" "se_ID r = sid" "se_TokenHash r = sha raw"
    "se_UserID r = UserID u" "u \<in> set (pn_users (st_panel t))" "\<not> Disabled u" "now < se_IdleExpiresAt r" "now < se_AbsoluteExpiresAt r"
    by (rule Authenticate_session [OF assms(3)])
  have "timed cfg r" by (rule run_timed [OF assms(1) _ r(2)]) (simp add: assms(2))
  then show ?thesis using r unfolding timed_def by auto
qed

text \<open>Conversely the cookie of a login works: the row just written is the one it finds.\<close>

lemma opened_session_authenticates:
  assumes "open_session sha cfg sid raw now u ip agent p = Inr (li, p')" and "UserByID (UserID u) p = Some u" "\<not> Disabled u"
    and "later < now + ss_idleTTL cfg" "later < now + ss_absTTL cfg"
  shows "fst (Authenticate sha cfg later touched (li_Cookie li) p') = Some (u, sid)"
proof -
  note e = open_effect [OF assms(1)]
  have u: "UserByID (UserID u) p' = Some u" using assms(2) e(3) by (simp add: UserByID_def)
  let ?P = "\<lambda>s. se_TokenHash s = sha raw \<and> se_RevokedAt s = None \<and> later < se_IdleExpiresAt s \<and> later < se_AbsoluteExpiresAt s \<and> UserByID (se_UserID s) p' \<noteq> None"
  have n: "find ?P (pn_sessions p) = None" using e(9) by (auto simp: find_None_iff image_iff)
  have "find ?P (pn_sessions p @ [r]) = (if ?P r then Some r else None)" for r
    using n by (simp add: find_snoc)
  then show ?thesis using u assms(3-5)
    by (simp add: Authenticate_def HashSessionToken_def e(1,4) RawURL_roundtrip SessionAndUser_def)
qed

subsection \<open>Invites\<close>

definition drawn_ok :: "site \<Rightarrow> bool" where
  "drawn_ok s \<longleftrightarrow> distinct (map iv_ID (pn_invites (st_panel s))) \<and> set (map iv_ID (pn_invites (st_panel s))) \<subseteq> set (st_drawn s)"

lemma iv_aged_ID: "iv_aged x y \<Longrightarrow> iv_ID y = iv_ID x" by (simp add: iv_aged_def)

lemma drawn_ok_step:
  assumes "acct_step verify sha cfg who s t" "drawn_ok s"
  shows "drawn_ok t" "set (st_drawn s) \<subseteq> set (st_drawn t)"
    "w \<in> set (pn_invites (st_panel t)) \<Longrightarrow> iv_ID w \<in> set (st_drawn s) \<Longrightarrow> \<exists>v \<in> set (pn_invites (st_panel s)). iv_aged v w"
proof -
  consider (old) "reworked iv_aged (pn_invites (st_panel s)) (pn_invites (st_panel t))" "st_drawn t = st_drawn s"
    | (new) v where "pn_invites (st_panel t) = pn_invites (st_panel s) @ [v]" "iv_ID v \<notin> set (st_drawn s)" "st_drawn t = iv_ID v # st_drawn s"
    using step_invites [OF assms(1)] by blast
  then have "drawn_ok t \<and> set (st_drawn s) \<subseteq> set (st_drawn t) \<and>
    (w \<in> set (pn_invites (st_panel t)) \<longrightarrow> iv_ID w \<in> set (st_drawn s) \<longrightarrow> (\<exists>v \<in> set (pn_invites (st_panel s)). iv_aged v w))"
  proof cases
    case old
    note k = reworked_keys [of iv_aged iv_ID, OF iv_aged_ID old(1)]
    have "drawn_ok t" using assms(2) k unfolding drawn_ok_def old(2) by blast
    then show ?thesis using old(2) reworkedD [OF old(1)] by auto
  next
    case new
    then show ?thesis using assms(2) by (auto simp: drawn_ok_def intro: bexI [of _ w])
  qed
  then show "drawn_ok t" "set (st_drawn s) \<subseteq> set (st_drawn t)"
    "w \<in> set (pn_invites (st_panel t)) \<Longrightarrow> iv_ID w \<in> set (st_drawn s) \<Longrightarrow> \<exists>v \<in> set (pn_invites (st_panel s)). iv_aged v w" by blast+
qed

lemma drawn_ok_run:
  assumes "acct_run verify sha cfg us s t" "drawn_ok s"
  shows "drawn_ok t \<and> set (st_drawn s) \<subseteq> set (st_drawn t) \<and>
    (\<forall>w \<in> set (pn_invites (st_panel t)). iv_ID w \<in> set (st_drawn s) \<longrightarrow> (\<exists>v \<in> set (pn_invites (st_panel s)). iv_aged v w))"
  using assms
proof (induction rule: acct_run.induct)
  case (none s)
  then show ?case by (auto intro: bexI iv_aged_refl)
next
  case (some us s t who t')
  then have t: "drawn_ok t" "set (st_drawn s) \<subseteq> set (st_drawn t)"
    "\<forall>w \<in> set (pn_invites (st_panel t)). iv_ID w \<in> set (st_drawn s) \<longrightarrow> (\<exists>v \<in> set (pn_invites (st_panel s)). iv_aged v w)" by simp_all
  note st = drawn_ok_step [OF some.hyps(2) t(1)]
  have "\<exists>v \<in> set (pn_invites (st_panel s)). iv_aged v w" if w: "w \<in> set (pn_invites (st_panel t'))" "iv_ID w \<in> set (st_drawn s)" for w
  proof -
    obtain x where x: "x \<in> set (pn_invites (st_panel t))" "iv_aged x w" using st(3) [OF w(1)] w(2) t(2) by blast
    then obtain v where "v \<in> set (pn_invites (st_panel s))" "iv_aged v x" using t(3) w(2) iv_aged_ID by metis
    then show ?thesis using iv_aged_trans [OF _ x(2)] by blast
  qed
  then show ?case using st(1,2) t(2) by blast
qed

text \<open>C12. An invite works once. From any panel whose invites carry identifiers that were drawn once: if a code matched an invite,
  and after whatever else happened that invite is redeemed, then the invite had neither expired nor been redeemed or
  revoked by then, exactly one enabled member is added, with exactly the access the invite was issued with and no
  other, and from then on, whatever happens, no redemption of the same invite succeeds.\<close>

theorem invite_single_use:
  assumes "drawn_ok s" and "match_code verify looked code (st_panel s) = Some v" and "acct_run verify sha cfg us s t"
    and "RedeemInviteToUser v uid name hash now audit (st_panel t) = Inr p" and "acct_run verify sha cfg us' (t\<lparr>st_panel := p\<rparr>) t'"
  shows "verify code (iv_TokenHash v) \<and> now < iv_ExpiresAt v \<and> (\<exists>w \<in> set (pn_invites (st_panel t)). iv_aged v w \<and> Live now w) \<and>
    pn_users p = pn_users (st_panel t) @ [\<lparr>UserID = uid, Username = name, UserRole = RoleMember, Disabled = False, Owner = False\<rparr>] \<and>
    pn_grants p = pn_grants (st_panel t) @ (case iv_InstanceID v of None \<Rightarrow> [] | Some i \<Rightarrow>
       [\<lparr>gr_user_id = uid, gr_instance_id = i, gr_role = the (iv_GrantRole v), gr_perms = Some (iv_GrantPerms v),
         gr_granted_by = Some (iv_CreatedBy v), gr_granted_at = now, gr_expires_at = None\<rparr>]) \<and>
    RedeemInviteToUser v uid' name' hash' now' audit' (st_panel t') = Inl ErrInviteInvalid"
proof -
  note e = redeem_effect [OF assms(4)]
  have v: "v \<in> set (pn_invites (st_panel s))" "verify code (iv_TokenHash v)"
    using assms(2) by (auto simp: match_code_def LiveInvites_def find_Some_iff dest!: nth_mem)
  have r: "drawn_ok t" "set (st_drawn s) \<subseteq> set (st_drawn t)"
    "\<And>w. w \<in> set (pn_invites (st_panel t)) \<Longrightarrow> iv_ID w \<in> set (st_drawn s) \<Longrightarrow> \<exists>v \<in> set (pn_invites (st_panel s)). iv_aged v w"
    using drawn_ok_run [OF assms(3,1)] by auto
  have d: "iv_ID v \<in> set (st_drawn s)" using v(1) assms(1) by (auto simp: drawn_ok_def)
  obtain w where w: "w \<in> set (pn_invites (st_panel t))" "iv_ID w = iv_ID v" "Live now w" using e(1) by blast
  then obtain x where x: "x \<in> set (pn_invites (st_panel s))" "iv_aged x w" using r(3) [OF w(1)] d by auto
  then have "x = v" using iv_aged_ID w(2) v(1) assms(1) unfolding drawn_ok_def by (metis distinct_map inj_on_def)
  then have aged: "iv_aged v w" using x(2) by simp
  have once: "iv_RedeemedAt y \<noteq> None" if y: "y \<in> set (pn_invites p)" "iv_ID y = iv_ID v" for y
  proof -
    obtain z where z: "z \<in> set (pn_invites (st_panel t))" "iv_ID z = iv_ID v"
      "y = z\<lparr>iv_RedeemedAt := (if Live now z then Some now else iv_RedeemedAt z), iv_RedeemedBy := Some uid\<rparr>"
      using y unfolding e(6) by (auto split: if_splits)
    then have "z = w" using w r(1) unfolding drawn_ok_def by (metis distinct_map inj_on_def)
    then show ?thesis using z(3) w(3) by simp
  qed
  have "map iv_ID (pn_invites p) = map iv_ID (pn_invites (st_panel t))" unfolding e(6) by simp
  then have ok: "drawn_ok (t\<lparr>st_panel := p\<rparr>)" using r(1) by (simp add: drawn_ok_def)
  have "\<not> Live now' y" if y: "y \<in> set (pn_invites (st_panel t'))" "iv_ID y = iv_ID v" for y
  proof -
    have "iv_ID y \<in> set (st_drawn t)" using y(2) d r(2) by auto
    then obtain z where "z \<in> set (pn_invites p)" "iv_aged z y" using drawn_ok_run [OF assms(5) ok] y(1) by auto
    then show ?thesis using once [of z] y(2) by (auto simp: iv_aged_def Live_def)
  qed
  then have "RedeemInviteToUser v uid' name' hash' now' audit' (st_panel t') = Inl ErrInviteInvalid"
    by (auto simp: RedeemInviteToUser_def list_ex_iff)
  moreover have "now < iv_ExpiresAt v" using aged w(3) by (simp add: iv_aged_def Live_def)
  ultimately show ?thesis using v(2) w aged e(2,5) by blast
qed

subsection \<open>The first administrator\<close>

text \<open>C34. The panel is set up once: after the first administrator was created with the token of the last start, within its time,
  no later setup succeeds, whatever administrators and users do in between.\<close>

theorem setup_once:
  assumes "Setup sha hash newID now token name (st_panel s) = Inr (u, p)" and "acct_run verify sha cfg us (s\<lparr>st_panel := p\<rparr>) t"
  shows "pn_users (st_panel s) = [] \<and> token_current sha now token (st_panel s) \<and>
    Setup sha hash' newID' now' token' name' (st_panel t) = Inl ErrSetupConsumed"
proof -
  have e: "pn_users (st_panel s) = []" "pn_users p = [\<lparr>UserID = newID, Username = name, UserRole = RoleAdmin, Disabled = False, Owner = True\<rparr>]"
    using setup_fields [OF assms(1)] by simp_all
  then have "owner_ok newID (core_of p)" by (simp add: owner_ok_def)
  with assms(2) have "owner_ok newID (core_of (st_panel t))"
  proof (induction "s\<lparr>st_panel := p\<rparr>" t rule: acct_run.induct)
    case (some us t who t')
    then show ?case using step_owner by blast
  qed simp
  then have "pn_users (st_panel t) \<noteq> []" by (auto simp: owner_ok_def)
  moreover have "token_current sha now token (st_panel s)" using assms(1) by (auto simp: Setup_def split: if_splits)
  ultimately show ?thesis using e(1) by (simp add: Setup_def Pending_def CountUsers_def)
qed

subsection \<open>Trusted browsers\<close>

lemma RawURL_no_dot: "CHR ''.'' \<notin> set (RawURL_Encode s)"
proof -
  have "b64_char n \<noteq> CHR ''.''" if "n < 64" for n
    using that by (auto simp: b64_char_def dest: arg_cong [where f = "of_char :: char \<Rightarrow> nat"])
  then show ?thesis using sextets_bound [OF bytes_bound] by (auto simp: RawURL_Encode_def) metis
qed

lemma token_parts:
  assumes "CHR ''.'' \<notin> set uid"
  shows "split_on (CHR ''.'') (uid @ ''.'' @ Itoa now @ ''.'' @ RawURL_Encode m) = [uid, Itoa now, RawURL_Encode m]"
proof -
  have "CHR ''.'' \<notin> set (decimal n)" for n using decimal_digits(1) [of n] by (auto simp: list_all_iff is_digit_def)
  then have i: "CHR ''.'' \<notin> set (Itoa now)" by (auto simp: Itoa_def)
  have "split_on (CHR ''.'') (join_with (CHR ''.'') [uid, Itoa now, RawURL_Encode m]) = [uid, Itoa now, RawURL_Encode m]"
    by (rule split_join) (use assms i RawURL_no_dot [of m] in auto)
  then show ?thesis by simp
qed

lemma RawURL_inj: "RawURL_Encode a = RawURL_Encode b \<longleftrightarrow> a = b"
  using RawURL_roundtrip by (metis option.inject)

text \<open>C35. A browser's trust is for one account, one password and one period: a token issued to an account is accepted later exactly
  when the name given belongs to that same account, its stored password hash has not changed, and the token is
  neither from the future nor older than 180 days -- provided the MAC of the signed message has no collision.\<close>

theorem device_trust_exact:
  assumes "Token mac issued name p = Some cookie" and "UserForLogin name p = Some (u, h)" and "CHR ''.'' \<notin> set (UserID u)" and "in_int64 issued"
    and "mac (device_message (u, h) (Itoa issued)) \<noteq> []"
    and "\<And>m. mac m = mac (device_message (u, h) (Itoa issued)) \<Longrightarrow> m = device_message (u, h) (Itoa issued)"
  shows "Trusted mac now name' cookie p' = (issued \<le> now \<and> now \<le> issued + DeviceTrustAge \<and>
    map_option (\<lambda>rec. (UserID (fst rec), snd rec)) (UserForLogin name' p') = Some (UserID u, h))"
proof -
  have c: "cookie = UserID u @ ''.'' @ Itoa issued @ ''.'' @ RawURL_Encode (mac (device_message (u, h) (Itoa issued)))"
    using assms(1,2) by (simp add: Token_def sign_def)
  have s: "split_on (CHR ''.'') cookie = [UserID u, Itoa issued, RawURL_Encode (mac (device_message (u, h) (Itoa issued)))]"
    unfolding c by (rule token_parts [OF assms(3)])
  have n: "RawURL_Encode (mac (device_message (u, h) (Itoa issued))) \<noteq> []"
    using assms(5) RawURL_roundtrip by (metis RawURL_Decode_def RawURL_Encode_def RawURL_inj list.simps(8) map_is_Nil_conv sextets.simps(1))
  have g: "RawURL_Encode (mac (device_message (u, h) (Itoa issued))) = sign mac rec (Itoa issued) \<longleftrightarrow> snd rec = h" if "UserID (fst rec) = UserID u" for rec
  proof
    assume "RawURL_Encode (mac (device_message (u, h) (Itoa issued))) = sign mac rec (Itoa issued)"
    then have "device_message rec (Itoa issued) = device_message (u, h) (Itoa issued)" using assms(6) by (simp add: sign_def RawURL_inj)
    then show "snd rec = h" using that by (simp add: device_message_def)
  next
    assume "snd rec = h"
    then show "RawURL_Encode (mac (device_message (u, h) (Itoa issued))) = sign mac rec (Itoa issued)" using that by (simp add: sign_def device_message_def)
  qed
  show ?thesis
  proof (cases "UserForLogin name' p'")
    case None
    then show ?thesis by (simp add: Trusted_def s split: option.split)
  next
    case (Some rec)
    show ?thesis using g [of rec] n assms(4) by (auto simp: Trusted_def s atoi_Itoa Some)
  qed
qed

subsection \<open>Logins that race a change of password\<close>

text \<open>
  A login verifies the password before it opens its session, and nothing looks at the password again. One verified just before a
  reset opens its session just after it, and that session works, although the reset had ended every session.
\<close>

lemma login_outlives_reset:
  assumes "check_password verify name old p = Inr (u, h)" "SetPassword newHash (UserID u) audit p = Inr (p1, rs)"
    and "open_session sha cfg sid raw now u ip agent p1 = Inr (li, p2)" "UserByID (UserID u) p = Some u" "\<not> verify old newHash"
    and "0 < ss_idleTTL cfg" "0 < ss_absTTL cfg"
  shows "\<not> verify old (pn_hash p2 (UserID u)) \<and> fst (Authenticate sha cfg now touched (li_Cookie li) p2) = Some (u, sid)"
proof -
  obtain ids where s: "SetUserPasswordKeepingSession (UserID u) newHash [] audit p = Inr (ids, p1)" using assms(2) by (rule set_effect)
  have "\<not> Disabled u" using assms(1) by (auto simp: check_password_def split: option.splits if_splits)
  moreover have "UserByID (UserID u) p1 = Some u" using assms(4) password_effect(2) [OF s] by (simp add: UserByID_def)
  moreover have "pn_hash p2 = pn_hash p1" using assms(3)
    by (auto simp: open_session_def NewSessionToken_def CreateSession_def UpdateLastLogin_def rbind_eq_Inr Let_def split: if_splits)
  ultimately show ?thesis using opened_session_authenticates [OF assms(3)] assms(5-7) password_effect(4) [OF s] by simp
qed

text \<open>
  Worse, when the old hash was weak, such a login writes a fresh hash of the old password without looking whether the row still has
  the hash it verified: the new password is gone and the old one works again.
\<close>

lemma rehash_undoes_reset:
  assumes "check_password verify name old p = Inr (u, h)" "SetPassword newHash (UserID u) audit p = Inr (p1, rs)" "weak h"
    and "verify old oldHash" "UserByID (UserID u) p = Some u"
  shows "verify old (pn_hash (rehashIfWeak weak (Some oldHash) (u, h) p1) (UserID u))"
proof -
  obtain ids where s: "SetUserPasswordKeepingSession (UserID u) newHash [] audit p = Inr (ids, p1)" using assms(2) by (rule set_effect)
  have "UserByID (UserID u) p1 = Some u" using assms(5) password_effect(2) [OF s] by (simp add: UserByID_def)
  then show ?thesis using assms(3,4) by (simp add: rehashIfWeak_def setUserPassword_def)
qed

subsection \<open>Examples\<close>

definition ex_user :: user where
  "ex_user = \<lparr>UserID = ''u1'', Username = ''bob'', UserRole = RoleAdmin, Disabled = False, Owner = True\<rparr>"

definition ex_invite :: Invite where
  "ex_invite = \<lparr>iv_ID = ''v1'', iv_TokenHash = ''code'', iv_CreatedBy = ''u1'', iv_InstanceID = Some ''i1'', iv_GrantRole = Some ''viewer'',
     iv_GrantPerms = [], iv_ExpiresAt = 100, iv_CreatedAt = 0, iv_RedeemedAt = None, iv_RedeemedBy = None, iv_RevokedAt = None\<rparr>"

definition ex_session :: "string \<Rightarrow> Session" where
  "ex_session x = \<lparr>se_ID = x, se_TokenHash = x, se_UserID = ''u1'', se_CreatedAt = 0, se_LastSeenAt = 0, se_IdleExpiresAt = 50,
     se_AbsoluteExpiresAt = 100, se_RevokedAt = None, se_IP = [], se_UserAgent = []\<rparr>"

definition ex_site :: "Session list \<Rightarrow> Invite list \<Rightarrow> site" where
  "ex_site ss ivs = \<lparr>st_panel = \<lparr>pn_users = [ex_user], pn_hash = (\<lambda>_. ''pw''), pn_lastLogin = (\<lambda>_. None), pn_instances = [''i1''], pn_grants = [],
      pn_sessions = ss, pn_invites = ivs, pn_audit = [], pn_bootstrap = None\<rparr>, st_verified = [(ex_user, ''pw'')], st_drawn = [''v1'']\<rparr>"

definition ex_cfg :: Sessions where
  "ex_cfg = \<lparr>ss_idleTTL = 50, ss_absTTL = 100, ss_throttle = 10\<rparr>"

definition ex_audit :: audit_entry where
  "ex_audit = \<lparr>AuditUserID = ''u1'', AuditAction = []\<rparr>"

lemmas ex_defs = ex_user_def ex_invite_def ex_session_def ex_site_def ex_cfg_def ex_audit_def

lemma ex_authenticates:
  "fst (Authenticate id ex_cfg 10 10 (RawURL_Encode ''a'') (st_panel (ex_site [ex_session ''a''] ivs))) = Some (ex_user, ''a'')"
  by (simp add: Authenticate_def HashSessionToken_def RawURL_roundtrip SessionAndUser_def UserByID_def ex_defs)

theorem password_change_ends_sessions_witness:
  "\<exists>p. SetUserPasswordKeepingSession ''u1'' ''new'' ''a'' ex_audit (st_panel (ex_site [ex_session ''a'', ex_session ''b''] [])) = Inr ([''b''], p) \<and>
     ''a'' \<notin> set [''b''] \<and> pn_hash p ''u1'' = ''new''"
proof -
  let ?s = "ex_site [ex_session ''a'', ex_session ''b''] []"
  obtain p where p: "SetUserPasswordKeepingSession ''u1'' ''new'' ''a'' ex_audit (st_panel ?s) = Inr ([''b''], p)"
    and a: "fst (Authenticate id ex_cfg 10 10 (RawURL_Encode ''a'') p) = Some (ex_user, ''a'')"
    by (simp add: SetUserPasswordKeepingSession_def setUserPassword_def otherSessionIDs_def UserByID_def audited_def Authenticate_def
        HashSessionToken_def RawURL_roundtrip SessionAndUser_def ex_defs)
  have "acct_run (\<lambda>_ _. True) id ex_cfg [] (?s\<lparr>st_panel := p\<rparr>) (?s\<lparr>st_panel := p\<rparr>)" by (rule acct_run.none)
  from password_change_ends_sessions [OF p this, of 10 10 "RawURL_Encode ''a''" ex_user "''a''"] a p show ?thesis by (auto simp: ex_user_def)
qed

theorem session_lifetime_witness:
  "\<exists>cookie t r. acct_run (\<lambda>_ _. True) id ex_cfg [''u1''] (ex_site [] []) t \<and>
     fst (Authenticate id ex_cfg 10 10 cookie (st_panel t)) = Some (ex_user, ''s'') \<and>
     r \<in> set (pn_sessions (st_panel t)) \<and> se_ID r = ''s'' \<and>
     10 < se_CreatedAt r + ss_absTTL ex_cfg \<and> 10 < se_LastSeenAt r + ss_idleTTL ex_cfg"
proof -
  let ?s = "ex_site [] []"
  obtain li p where o: "open_session id ex_cfg ''s'' ''a'' 0 (fst (ex_user, ''pw'')) [] [] (st_panel ?s) = Inr (li, p)"
    by (simp add: open_session_def NewSessionToken_def CreateSession_def UserByID_def ex_defs)
  let ?t = "?s\<lparr>st_panel := p, st_verified := remove1 (ex_user, ''pw'') (st_verified ?s)\<rparr>"
  have "acct_run (\<lambda>_ _. True) id ex_cfg ([] @ case_option [] (\<lambda>u. [u]) (Some (UserID (fst (ex_user, ''pw''))))) ?s ?t"
    by (rule acct_run.some [OF acct_run.none acct_step.opened [OF _ o]]) (simp add: ex_site_def)
  then have run: "acct_run (\<lambda>_ _. True) id ex_cfg [''u1''] ?s ?t" by (simp add: ex_user_def)
  have "fst (Authenticate id ex_cfg 10 10 (li_Cookie li) p) = Some (ex_user, ''s'')"
    by (rule opened_session_authenticates [OF o [unfolded fst_conv]]) (simp_all add: UserByID_def ex_defs)
  then have a: "fst (Authenticate id ex_cfg 10 10 (li_Cookie li) (st_panel ?t)) = Some (ex_user, ''s'')" by simp
  have "pn_sessions (st_panel ?s) = []" by (simp add: ex_site_def)
  from session_lifetime [OF run this a] obtain r where "r \<in> set (pn_sessions (st_panel ?t))" "se_ID r = ''s''"
    "10 < se_CreatedAt r + ss_absTTL ex_cfg" "10 < se_LastSeenAt r + ss_idleTTL ex_cfg" by blast
  with run a show ?thesis by blast
qed

theorem invite_single_use_witness:
  "\<exists>p. RedeemInviteToUser ex_invite ''u2'' ''eve'' ''h'' 10 ex_audit (st_panel (ex_site [] [ex_invite])) = Inr p \<and>
     length (pn_users p) = 2 \<and> RedeemInviteToUser ex_invite ''u3'' ''dan'' ''h'' 11 ex_audit p = Inl ErrInviteInvalid"
proof -
  let ?s = "ex_site [] [ex_invite]" and ?v = "\<lambda>c h. h = c"
  obtain p where p: "RedeemInviteToUser ex_invite ''u2'' ''eve'' ''h'' 10 ex_audit (st_panel ?s) = Inr p"
    by (simp add: RedeemInviteToUser_def update_invite_def insert_user_def createUser_def core_of_def applyInviteGrant_def insert_grant_row_def
        user_exists_def wrap_def Live_def audited_def ex_defs)
  have "drawn_ok ?s" by (simp add: drawn_ok_def ex_defs)
  moreover have "match_code ?v 5 ''code'' (st_panel ?s) = Some ex_invite" by (simp add: match_code_def LiveInvites_def Live_def ex_defs)
  ultimately have "length (pn_users p) = 2" "RedeemInviteToUser ex_invite ''u3'' ''dan'' ''h'' 11 ex_audit p = Inl ErrInviteInvalid"
    using invite_single_use [of ?s ?v 5 "''code''" ex_invite id ex_cfg "[]" ?s, OF _ _ acct_run.none p acct_run.none] by (auto simp: ex_site_def)
  with p show ?thesis by blast
qed

definition ex_new_site :: site where
  "ex_new_site = \<lparr>st_panel = \<lparr>pn_users = [], pn_hash = (\<lambda>_. []), pn_lastLogin = (\<lambda>_. None), pn_instances = [], pn_grants = [],
      pn_sessions = [], pn_invites = [], pn_audit = [], pn_bootstrap = Some \<lparr>bs_Pending = True, bs_TokenHash = ''t'', bs_ExpiresAt = 10\<rparr>\<rparr>,
      st_verified = [], st_drawn = []\<rparr>"

theorem setup_once_witness:
  "\<exists>u p. Setup id ''h'' ''u1'' 5 (RawURL_Encode ''t'') ''bob'' (st_panel ex_new_site) = Inr (u, p) \<and>
     Setup id ''h'' ''u2'' 6 (RawURL_Encode ''t'') ''eve'' p = Inl ErrSetupConsumed"
proof -
  obtain u p where p: "Setup id ''h'' ''u1'' 5 (RawURL_Encode ''t'') ''bob'' (st_panel ex_new_site) = Inr (u, p)"
    by (simp add: Setup_def Pending_def CountUsers_def core_of_def token_current_def HashSessionToken_def RawURL_roundtrip CreateFirstAdmin_def ex_new_site_def)
  have "acct_run (\<lambda>_ _. True) id ex_cfg [] (ex_new_site\<lparr>st_panel := p\<rparr>) (ex_new_site\<lparr>st_panel := p\<rparr>)" by (rule acct_run.none)
  from setup_once [OF p this] p show ?thesis by auto
qed

theorem device_trust_exact_witness:
  "\<exists>cookie. Token (\<lambda>m. CHR ''m'' # m) 100 ''bob'' (st_panel (ex_site [] [])) = Some cookie \<and>
     Trusted (\<lambda>m. CHR ''m'' # m) 200 ''bob'' cookie (st_panel (ex_site [] [])) \<and>
     \<not> Trusted (\<lambda>m. CHR ''m'' # m) 200 ''bob'' cookie ((st_panel (ex_site [] []))\<lparr>pn_hash := (\<lambda>_. ''new'')\<rparr>)"
proof -
  let ?p = "st_panel (ex_site [] [])" and ?mac = "\<lambda>m. CHR ''m'' # m"
  have u: "UserForLogin ''bob'' ?p = Some (ex_user, ''pw'')" "UserForLogin ''bob'' (?p\<lparr>pn_hash := (\<lambda>_. ''new'')\<rparr>) = Some (ex_user, ''new'')"
    by (simp_all add: UserForLogin_def ex_defs)
  then obtain c where c: "Token ?mac 100 ''bob'' ?p = Some c" by (simp add: Token_def)
  have h: "CHR ''.'' \<notin> set (UserID ex_user)" "in_int64 100" by (simp_all add: ex_user_def in_int64_def int64_min_def int64_max_def)
  from device_trust_exact [OF c u(1) h, of 200 "''bob''"] c u show ?thesis by (simp add: DeviceTrustAge_def)
qed

end
