(* ===== verification/Planned_Shutdown.thy ===== *)
theory Planned_Shutdown
  imports Instance_Ports
begin

text \<open>
  Planned power cuts: the clock of \<open>internal/scheduler/shutdown.go\<close> over \<open>store/shutdowns.go\<close>, and the submitter of
  \<open>internal/scheduler/submit.go\<close>. Instants and durations are nanoseconds. The clock's state is what its struct keeps in
  memory, its two rows of the key-value table, the warnings under way and finished, and a record of the
  calls it made. Warnings run off the tick: one ends between two ticks, delivered or not.
\<close>

subsection \<open>The table\<close>

record PlannedShutdown =
  sd_ID :: string
  sd_PowerOffAt :: int
  sd_CreatedBy :: "string option"
  sd_CreatedByName :: string
  sd_CreatedAt :: int

text \<open>Both write the plan and its audit entry, if they are given one, in one transaction.\<close>

definition CreatePlannedShutdown ::
  "int \<Rightarrow> PlannedShutdown \<Rightarrow> AuditEntry option \<Rightarrow> PlannedShutdown list \<times> AuditEntry list \<Rightarrow> (PlannedShutdown list \<times> AuditEntry list) option" where
  "CreatePlannedShutdown now s audit db =
     (case db of (rows, entries) \<Rightarrow>
        let kept = filter (\<lambda>r. now < sd_PowerOffAt r) rows
        in if list_ex (\<lambda>r. sd_ID r = sd_ID s) kept then None
           else Some (kept @ [s\<lparr>sd_CreatedAt := now\<rparr>], case audit of None \<Rightarrow> entries | Some e \<Rightarrow> entries @ [e]))"

definition DeletePlannedShutdown ::
  "string \<Rightarrow> AuditEntry option \<Rightarrow> PlannedShutdown list \<times> AuditEntry list \<Rightarrow> bool \<times> PlannedShutdown list \<times> AuditEntry list" where
  "DeletePlannedShutdown i audit db =
     (case db of (rows, entries) \<Rightarrow>
        if \<not> list_ex (\<lambda>r. sd_ID r = i) rows then (False, rows, entries)
        else (True, filter (\<lambda>r. sd_ID r \<noteq> i) rows, case audit of None \<Rightarrow> entries | Some e \<Rightarrow> entries @ [e]))"

definition PowerCutWithin :: "int \<Rightarrow> int \<Rightarrow> PlannedShutdown list \<Rightarrow> bool" where
  "PowerCutWithin now window rows \<longleftrightarrow> list_ex (\<lambda>r. now < sd_PowerOffAt r \<and> sd_PowerOffAt r \<le> now + window) rows"

definition UpcomingShutdowns :: "int \<Rightarrow> PlannedShutdown list \<Rightarrow> PlannedShutdown list" where
  "UpcomingShutdowns now rows = sort_key sd_PowerOffAt (sort_key sd_ID (filter (\<lambda>r. now < sd_PowerOffAt r) rows))"

subsection \<open>Lead times\<close>

definition Second :: int where "Second = 10 ^ 9"

definition Minute :: int where "Minute = 60 * Second"

definition ShutdownStopLead :: int where "ShutdownStopLead = 2 * Minute"

definition ShutdownWarnSpan :: int where "ShutdownWarnSpan = 5 * Minute"

definition ShutdownQuietLead :: int where "ShutdownQuietLead = 15 * Minute"

definition shutdownStopMargin :: int where "shutdownStopMargin = 30 * Second"

text \<open>\<open>Duration.Truncate\<close>, towards zero.\<close>

definition Truncate :: "int \<Rightarrow> int \<Rightarrow> int" where
  "Truncate d m = (if m \<le> 0 then d else if 0 \<le> d then d - d mod m else d + (- d) mod m)"

record Shutdowns =
  pc_Interval :: int
  pc_StopTimeout :: int
  pc_Warn :: bool
  pc_Announce :: bool
  pc_announced :: string
  pc_warnedFor :: string
  pc_warned :: "string set"
  pc_running :: "string set"
  pc_done :: "string \<rightharpoonup> string \<times> bool"
  kv_announced :: "string option"
  kv_warned :: "(string \<times> string set) option"
  log_announced :: "(string \<times> int \<times> string list) list"
  log_warned :: "(string \<times> string) list"
  log_stopped :: "(string \<times> string) list"

definition StopLead :: "Shutdowns \<Rightarrow> int" where
  "StopLead s =
     (let need = pc_StopTimeout s + pc_Interval s + shutdownStopMargin
      in max ShutdownStopLead (Truncate (need + Minute - 1) Minute))"

definition WarnLead :: "Shutdowns \<Rightarrow> int" where
  "WarnLead s = StopLead s + ShutdownWarnSpan"

subsection \<open>The clock\<close>

definition announce :: "PlannedShutdown \<Rightarrow> int \<Rightarrow> instance_row list \<Rightarrow> Shutdowns \<Rightarrow> Shutdowns" where
  "announce p stopAt servers s =
     (if \<not> pc_Announce s then s
      else
        let s1 = (if pc_announced s = [] then s\<lparr>pc_announced := (case kv_announced s of None \<Rightarrow> [] | Some i \<Rightarrow> i)\<rparr> else s) in
        if pc_announced s1 = sd_ID p then s1
        else
          let running = map in_Name (filter (\<lambda>r. in_State r = StateRunning) servers) in
          if running = [] then s1
          else s1\<lparr>log_announced := log_announced s1 @ [(sd_ID p, stopAt, running)], pc_announced := sd_ID p, kv_announced := Some (sd_ID p)\<rparr>)"

definition loadWarned :: "string \<Rightarrow> Shutdowns \<Rightarrow> Shutdowns" where
  "loadWarned shutdownID s =
     s\<lparr>pc_warnedFor := shutdownID,
       pc_warned := (case kv_warned s of None \<Rightarrow> {} | Some (i, servers) \<Rightarrow> if i = shutdownID then servers else {})\<rparr>"

definition saveWarned :: "Shutdowns \<Rightarrow> Shutdowns" where
  "saveWarned s = s\<lparr>kv_warned := Some (pc_warnedFor s, pc_warned s)\<rparr>"

definition send_start :: "string \<Rightarrow> string \<Rightarrow> Shutdowns \<Rightarrow> Shutdowns" where
  "send_start key tag s =
     (if key \<in> pc_running s then s
      else s\<lparr>pc_running := insert key (pc_running s), log_warned := log_warned s @ [(tag, key)]\<rparr>)"

definition send_finished :: "string \<Rightarrow> string \<Rightarrow> bool \<Rightarrow> Shutdowns \<Rightarrow> Shutdowns" where
  "send_finished key tag delivered s =
     s\<lparr>pc_running := pc_running s - {key}, pc_done := (pc_done s)(key \<mapsto> (tag, delivered))\<rparr>"

definition warn :: "string \<Rightarrow> instance_row \<Rightarrow> Shutdowns \<Rightarrow> Shutdowns" where
  "warn shutdownID inst s =
     (if \<not> pc_Warn s then s
      else
        let s1 = (if pc_warnedFor s \<noteq> shutdownID then loadWarned shutdownID s else s);
            r = pc_done s1 (in_ID inst);
            s2 = s1\<lparr>pc_done := (pc_done s1)(in_ID inst := None)\<rparr>;
            s3 = (if r = Some (shutdownID, True) then saveWarned (s2\<lparr>pc_warned := insert (in_ID inst) (pc_warned s2)\<rparr>) else s2)
        in if in_ID inst \<in> pc_warned s3 then s3 else send_start (in_ID inst) shutdownID s3)"

text \<open>Whatever a stop answers, the next tick asks again while the server runs.\<close>

definition stop :: "PlannedShutdown \<Rightarrow> instance_row \<Rightarrow> Shutdowns \<Rightarrow> Shutdowns" where
  "stop p inst s = s\<lparr>log_stopped := log_stopped s @ [(sd_ID p, in_ID inst)]\<rparr>"

definition up :: "instance_row \<Rightarrow> bool" where
  "up inst \<longleftrightarrow> in_State inst = StateRunning \<and> in_ContainerID inst \<noteq> None"

definition tick_one :: "PlannedShutdown \<Rightarrow> int \<Rightarrow> int \<Rightarrow> instance_row \<Rightarrow> Shutdowns \<Rightarrow> Shutdowns" where
  "tick_one p stopAt now inst s =
     (if \<not> up inst then s else if now < stopAt then warn (sd_ID p) inst s else stop p inst s)"

definition Tick :: "int \<Rightarrow> PlannedShutdown list \<Rightarrow> inst_db \<Rightarrow> Shutdowns \<Rightarrow> Shutdowns" where
  "Tick now rows d s =
     (case UpcomingShutdowns now rows of
        [] \<Rightarrow> s
      | p # _ \<Rightarrow>
          if now < sd_PowerOffAt p - WarnLead s then s
          else
            let servers = ListInstances None d; stopAt = sd_PowerOffAt p - StopLead s
            in fold (tick_one p stopAt now) servers (announce p stopAt servers s))"

text \<open>A restart keeps the key-value rows and the record of what was done.\<close>

definition restart :: "Shutdowns \<Rightarrow> Shutdowns" where
  "restart s = s\<lparr>pc_announced := [], pc_warnedFor := [], pc_warned := {}, pc_running := {}, pc_done := Map.empty\<rparr>"

subsection \<open>Submitting scheduled runs\<close>

datatype submit_error = Conflict string string | Other

record skipped_run =
  sk_Kind :: string
  sk_Instance :: "string option"
  sk_LockKey :: string
  sk_InProgress :: bool

datatype enqueued = Submitted | Skipped skipped_run | Gone

definition recordSkip :: "kind \<Rightarrow> instance_row option \<Rightarrow> submit_error \<Rightarrow> enqueued" where
  "recordSkip kind inst cause =
     Skipped \<lparr>sk_Kind = kind_name kind, sk_Instance = map_option in_ID inst,
       sk_LockKey = (case inst of None \<Rightarrow> GlobalLockKey kind | Some r \<Rightarrow> InstanceLockKey (in_ID r)),
       sk_InProgress = (case cause of Conflict _ _ \<Rightarrow> True | Other \<Rightarrow> False)\<rparr>"

definition claimableFrom :: "kind \<Rightarrow> state \<Rightarrow> bool" where
  "claimableFrom kind st \<longleftrightarrow> list_ex (\<lambda>allowed. st = allowed) (AllowedFrom kind)"

text \<open>\<open>submitGlobal\<close> and \<open>submitInstance\<close> are the two submissions the submitter is built with.\<close>

definition Enqueue ::
  "submit_error option \<Rightarrow> (instance_row \<Rightarrow> submit_error option) \<Rightarrow> int \<Rightarrow> PlannedShutdown list \<Rightarrow> inst_db \<Rightarrow> string option \<Rightarrow> kind \<Rightarrow> bool \<Rightarrow>
   submit_error + enqueued" where
  "Enqueue submitGlobal submitInstance now rows d instanceID kind global =
     (if global then
        (case submitGlobal of None \<Rightarrow> Inr Submitted | Some e \<Rightarrow> Inr (recordSkip kind None e))
      else case instanceID of
          None \<Rightarrow> Inl Other
        | Some i \<Rightarrow>
            (case InstanceByID i d of
               None \<Rightarrow> Inr Gone
             | Some inst \<Rightarrow>
                 if PowerCutWithin now ShutdownQuietLead rows then Inr (recordSkip kind (Some inst) Other)
                 else if \<not> claimableFrom kind (in_State inst) then Inr (recordSkip kind (Some inst) Other)
                 else case submitInstance inst of
                     None \<Rightarrow> Inr Submitted
                   | Some e \<Rightarrow> Inr (recordSkip kind (Some inst) e)))"

subsection \<open>Stopping\<close>

lemma StopLead_covers:
  assumes "0 \<le> pc_StopTimeout s" "0 \<le> pc_Interval s"
  shows "pc_StopTimeout s + pc_Interval s + shutdownStopMargin \<le> StopLead s" "StopLead s mod Minute = 0" "0 < StopLead s"
proof -
  define need where "need = pc_StopTimeout s + pc_Interval s + shutdownStopMargin"
  have m: "0 < Minute" "0 < Second" by (simp_all add: Minute_def Second_def)
  have n: "0 \<le> need" using assms m by (simp add: need_def shutdownStopMargin_def)
  let ?x = "need + Minute - 1"
  have t: "Truncate ?x Minute = ?x - ?x mod Minute" using m n by (simp add: Truncate_def)
  have "?x mod Minute < Minute" using m by simp
  then have "need \<le> Truncate ?x Minute" using t by linarith
  moreover have "Truncate ?x Minute mod Minute = 0" unfolding t by (simp only: minus_mod_eq_mult_div mod_mult_self1_is_0)
  moreover have "ShutdownStopLead mod Minute = 0" "0 < ShutdownStopLead" using m by (simp_all add: ShutdownStopLead_def)
  moreover have "StopLead s = max ShutdownStopLead (Truncate ?x Minute)" by (simp only: StopLead_def Let_def need_def)
  ultimately show "pc_StopTimeout s + pc_Interval s + shutdownStopMargin \<le> StopLead s" "StopLead s mod Minute = 0" "0 < StopLead s"
    unfolding need_def [symmetric] max_def by (auto split: if_splits)
qed

lemma announce_fields [simp]:
  "log_stopped (announce p stopAt servers s) = log_stopped s" "pc_StopTimeout (announce p stopAt servers s) = pc_StopTimeout s"
  by (simp_all add: announce_def Let_def)

lemma warn_fields [simp]:
  "log_stopped (warn i inst s) = log_stopped s" "log_announced (warn i inst s) = log_announced s" "pc_announced (warn i inst s) = pc_announced s"
  "kv_announced (warn i inst s) = kv_announced s"
  by (simp_all add: warn_def Let_def loadWarned_def saveWarned_def send_start_def)

lemma stop_fields [simp]:
  "log_announced (stop p inst s) = log_announced s" "pc_announced (stop p inst s) = pc_announced s" "kv_announced (stop p inst s) = kv_announced s"
  by (simp_all add: stop_def)

lemma fold_tick_fields [simp]:
  "log_announced (fold (tick_one p stopAt now) xs s) = log_announced s" "pc_announced (fold (tick_one p stopAt now) xs s) = pc_announced s"
  "kv_announced (fold (tick_one p stopAt now) xs s) = kv_announced s"
  by (induction xs arbitrary: s) (simp_all add: tick_one_def)

lemma fold_tick_stopped:
  "log_stopped (fold (tick_one p stopAt now) xs s) =
     log_stopped s @ (if now < stopAt then [] else map (\<lambda>r. (sd_ID p, in_ID r)) (filter up xs))"
  by (induction xs arbitrary: s) (auto simp: tick_one_def stop_def)

lemma set_Upcoming: "set (UpcomingShutdowns now rows) = {c \<in> set rows. now < sd_PowerOffAt c}"
  by (simp add: UpcomingShutdowns_def)

lemma Upcoming_soonest:
  assumes "UpcomingShutdowns now rows = p # ps" "c \<in> set rows" "now < sd_PowerOffAt c"
  shows "sd_PowerOffAt p \<le> sd_PowerOffAt c"
proof -
  have "sorted (map sd_PowerOffAt (UpcomingShutdowns now rows))" by (simp add: UpcomingShutdowns_def)
  moreover have "c \<in> set (p # ps)" using set_Upcoming [of now rows] assms by auto
  ultimately show ?thesis using assms(1) by auto
qed

text \<open>C18. Before a power cut the running servers are stopped, and only then. A tick asks for a stop of exactly every running
  server when its instant lies in the stop window of some planned power cut, however many are planned, and of none
  otherwise; and the window opens early enough, on a whole minute before the cut, that a stop asked for up to one tick
  late and using its whole timeout ends half a minute before the power goes.\<close>

theorem power_cut_stops_servers:
  assumes "0 \<le> pc_StopTimeout s" and "0 \<le> pc_Interval s"
  shows "map snd (drop (length (log_stopped s)) (log_stopped (Tick now rows d s))) =
      (if \<exists>c \<in> set rows. sd_PowerOffAt c - StopLead s \<le> now \<and> now < sd_PowerOffAt c then map in_ID (filter up (ListInstances None d)) else []) \<and>
    pc_StopTimeout s + pc_Interval s + 30 * Second \<le> StopLead s \<and> StopLead s mod Minute = 0"
proof -
  have "map snd (drop (length (log_stopped s)) (log_stopped (Tick now rows d s))) =
      (if \<exists>c \<in> set rows. sd_PowerOffAt c - StopLead s \<le> now \<and> now < sd_PowerOffAt c then map in_ID (filter up (ListInstances None d)) else [])"
  proof (cases "UpcomingShutdowns now rows")
    case Nil
    then have "\<not> (\<exists>c \<in> set rows. now < sd_PowerOffAt c)" using set_Upcoming [of now rows] by auto
    then show ?thesis by (auto simp: Tick_def Nil)
  next
    case (Cons p ps)
    have p: "p \<in> set rows" "now < sd_PowerOffAt p" using set_Upcoming [of now rows] Cons by auto
    have w: "(\<exists>c \<in> set rows. sd_PowerOffAt c - StopLead s \<le> now \<and> now < sd_PowerOffAt c) \<longleftrightarrow> \<not> now < sd_PowerOffAt p - StopLead s"
    proof
      assume "\<exists>c \<in> set rows. sd_PowerOffAt c - StopLead s \<le> now \<and> now < sd_PowerOffAt c"
      then obtain c where c: "c \<in> set rows" "sd_PowerOffAt c - StopLead s \<le> now" "now < sd_PowerOffAt c" by blast
      from Upcoming_soonest [OF Cons c(1,3)] c(2) show "\<not> now < sd_PowerOffAt p - StopLead s" by linarith
    next
      assume "\<not> now < sd_PowerOffAt p - StopLead s"
      then show "\<exists>c \<in> set rows. sd_PowerOffAt c - StopLead s \<le> now \<and> now < sd_PowerOffAt c" using p by (intro bexI [of _ p]) auto
    qed
    have "StopLead s < WarnLead s" by (simp add: WarnLead_def ShutdownWarnSpan_def Minute_def Second_def)
    then show ?thesis unfolding w by (auto simp: Tick_def Cons Let_def fold_tick_stopped comp_def)
  qed
  then show ?thesis using StopLead_covers [OF assms] by (simp add: shutdownStopMargin_def)
qed

definition ex_clock :: Shutdowns where
  "ex_clock = \<lparr>pc_Interval = 30 * Second, pc_StopTimeout = 120 * Second, pc_Warn = True, pc_Announce = True, pc_announced = [], pc_warnedFor = [],
     pc_warned = {}, pc_running = {}, pc_done = Map.empty, kv_announced = None, kv_warned = None, log_announced = [], log_warned = [], log_stopped = []\<rparr>"

definition ex_cut :: "string \<Rightarrow> int \<Rightarrow> PlannedShutdown" where
  "ex_cut i off = \<lparr>sd_ID = i, sd_PowerOffAt = off, sd_CreatedBy = None, sd_CreatedByName = [], sd_CreatedAt = 0\<rparr>"

definition ex_server :: instance_row where
  "ex_server = (new_row (ex_new ''a''))\<lparr>in_State := StateRunning, in_ContainerID := Some ''c''\<rparr>"

definition ex_servers :: inst_db where
  "ex_servers = empty_insts\<lparr>insts := [ex_server]\<rparr>"

theorem power_cut_stops_servers_witness:
  "pc_StopTimeout ex_clock + pc_Interval ex_clock + 30 * Second \<le> StopLead ex_clock \<and> StopLead ex_clock = 3 * Minute"
  using power_cut_stops_servers [of ex_clock 0 "[]" undefined]
  by (simp add: ex_clock_def Second_def StopLead_def Truncate_def Minute_def ShutdownStopLead_def shutdownStopMargin_def Let_def)

subsection \<open>Announcing\<close>

text \<open>Ticks in the order of the clock over the same plans, whatever the servers do, with warnings ending and the daemon restarting.\<close>

inductive power_step :: "PlannedShutdown list \<Rightarrow> int \<times> Shutdowns \<Rightarrow> int \<times> Shutdowns \<Rightarrow> bool" for rows :: "PlannedShutdown list" where
  tick: "t \<le> now \<Longrightarrow> power_step rows (t, s) (now, Tick now rows d s)"
| finished: "power_step rows (t, s) (t, send_finished key tag delivered s)"
| restarted: "power_step rows (t, s) (t, restart s)"

lemma Upcoming_later: "t \<le> t' \<Longrightarrow> UpcomingShutdowns t' rows = filter (\<lambda>r. t' < sd_PowerOffAt r) (UpcomingShutdowns t rows)"
  unfolding UpcomingShutdowns_def filter_sort by (auto simp: filter_filter intro!: arg_cong [where f = "sort_key _"] filter_cong)

lemma soonest_stays:
  assumes "UpcomingShutdowns t rows = c # cs" "t \<le> t'" "t' < sd_PowerOffAt c"
  shows "\<exists>ds. UpcomingShutdowns t' rows = c # ds"
  using assms Upcoming_later [OF assms(2), of rows] by simp

definition settled :: "PlannedShutdown list \<Rightarrow> int \<Rightarrow> string \<Rightarrow> bool" where
  "settled rows t i \<longleftrightarrow> (\<exists>c \<in> set rows. sd_ID c = i \<and> sd_PowerOffAt c \<le> t)"

definition current :: "PlannedShutdown list \<Rightarrow> int \<Rightarrow> string \<Rightarrow> bool" where
  "current rows t i \<longleftrightarrow> (\<exists>c \<in> set rows. sd_ID c = i \<and> (sd_PowerOffAt c \<le> t \<or> (\<exists>cs. UpcomingShutdowns t rows = c # cs)))"

lemma settled_later: "settled rows t i \<Longrightarrow> t \<le> t' \<Longrightarrow> settled rows t' i"
  unfolding settled_def by (meson order_trans)

lemma current_later:
  assumes "current rows t i" "t \<le> t'"
  shows "current rows t' i"
proof -
  obtain c where c: "c \<in> set rows" "sd_ID c = i" "sd_PowerOffAt c \<le> t \<or> (\<exists>cs. UpcomingShutdowns t rows = c # cs)"
    using assms(1) unfolding current_def by blast
  then have "sd_PowerOffAt c \<le> t' \<or> (\<exists>cs. UpcomingShutdowns t' rows = c # cs)"
    using soonest_stays [OF _ assms(2), of rows c] assms(2) by (cases "t' < sd_PowerOffAt c") auto
  then show ?thesis using c(1,2) unfolding current_def by blast
qed

text \<open>What was announced: of the last one the key-value row tells, and every one before it lies in the past.\<close>

definition announced_ok :: "PlannedShutdown list \<Rightarrow> int \<times> Shutdowns \<Rightarrow> bool" where
  "announced_ok rows ts =
     (case ts of (t, s) \<Rightarrow>
        distinct (map fst (log_announced s)) \<and>
        (if log_announced s = [] then kv_announced s = None \<and> pc_announced s = []
         else (let i = fst (last (log_announced s)) in
                 kv_announced s = Some i \<and> pc_announced s \<in> {[], i} \<and>
                 current rows t i)) \<and>
        (\<forall>e \<in> set (butlast (log_announced s)). settled rows t (fst e)))"

lemma announce_eq:
  "announce p stopAt servers s =
     (let cur = (if pc_announced s = [] then case_option [] (\<lambda>i. i) (kv_announced s) else pc_announced s);
          running = map in_Name (filter (\<lambda>r. in_State r = StateRunning) servers)
      in if \<not> pc_Announce s then s
         else if cur = sd_ID p \<or> running = [] then s\<lparr>pc_announced := cur\<rparr>
         else s\<lparr>pc_announced := sd_ID p, kv_announced := Some (sd_ID p), log_announced := log_announced s @ [(sd_ID p, stopAt, running)]\<rparr>)"
  by (simp add: announce_def Let_def)

lemma announce_cases:
  obtains (quiet) "log_announced (announce p stopAt servers s) = log_announced s" "kv_announced (announce p stopAt servers s) = kv_announced s"
      "pc_announced (announce p stopAt servers s) \<in> {pc_announced s, case_option [] (\<lambda>i. i) (kv_announced s)}"
  | (spoken) e where "fst e = sd_ID p" "log_announced (announce p stopAt servers s) = log_announced s @ [e]" "kv_announced (announce p stopAt servers s) = Some (sd_ID p)"
      "pc_announced (announce p stopAt servers s) = sd_ID p" "sd_ID p \<noteq> (if pc_announced s = [] then case_option [] (\<lambda>i. i) (kv_announced s) else pc_announced s)"
proof -
  define cur where "cur = (if pc_announced s = [] then case_option [] (\<lambda>i. i) (kv_announced s) else pc_announced s)"
  define running where "running = map in_Name (filter (\<lambda>r. in_State r = StateRunning) servers)"
  note eq = announce_eq [of p stopAt servers s, unfolded Let_def, folded cur_def running_def]
  have c: "cur \<in> {pc_announced s, case_option [] (\<lambda>i. i) (kv_announced s)}" by (simp add: cur_def)
  show thesis
  proof (cases "\<not> pc_Announce s \<or> cur = sd_ID p \<or> running = []")
    case True
    show thesis by (rule quiet) (use True c in \<open>auto simp: eq\<close>)
  next
    case False
    show thesis by (rule spoken [of "(sd_ID p, stopAt, running)"]) (use False in \<open>auto simp: eq cur_def [symmetric]\<close>)
  qed
qed

lemma announced_ok_later:
  assumes "announced_ok rows (t, s)" "t \<le> t'"
  shows "announced_ok rows (t', s)"
  using assms unfolding announced_ok_def Let_def prod.case by (auto intro: settled_later current_later split: if_splits)

lemma announced_ok_same:
  assumes "announced_ok rows (t, s)" "log_announced s' = log_announced s" "kv_announced s' = kv_announced s"
    "pc_announced s' \<in> {[], pc_announced s, case_option [] (\<lambda>i. i) (kv_announced s)}"
  shows "announced_ok rows (t, s')"
  using assms unfolding announced_ok_def Let_def by (auto split: if_splits)

lemma announced_ok_speak:
  assumes ok: "announced_ok rows (t, s)" and u: "UpcomingShutdowns t rows = p # ps" and d: "distinct (map sd_ID rows)" "[] \<notin> set (map sd_ID rows)"
    and e: "fst e = sd_ID p" "sd_ID p \<noteq> (if pc_announced s = [] then case_option [] (\<lambda>i. i) (kv_announced s) else pc_announced s)"
    and s': "log_announced s' = log_announced s @ [e]" "kv_announced s' = Some (sd_ID p)" "pc_announced s' = sd_ID p"
  shows "announced_ok rows (t, s')"
proof -
  have p: "p \<in> set rows" "t < sd_PowerOffAt p" using set_Upcoming [of t rows] u by auto
  have same: "c = p" if "c \<in> set rows" "sd_ID c = sd_ID p" for c using that p(1) d(1) by (metis distinct_map inj_on_def)
  have past: "settled rows t (fst x)" if x: "x \<in> set (log_announced s)" for x
  proof (cases "x \<in> set (butlast (log_announced s))")
    case True
    then show ?thesis using ok by (auto simp: announced_ok_def)
  next
    case False
    obtain ys y where ys: "log_announced s = ys @ [y]" using x by (cases "log_announced s" rule: rev_cases) auto
    then have ne: "log_announced s \<noteq> []" and l: "x = last (log_announced s)" using x False by auto
    then obtain c where c: "c \<in> set rows" "sd_ID c = fst x" "sd_PowerOffAt c \<le> t \<or> (\<exists>cs. UpcomingShutdowns t rows = c # cs)"
      and k: "kv_announced s = Some (fst x)" "pc_announced s \<in> {[], fst x}" using ok by (auto simp: announced_ok_def Let_def current_def)
    have "c \<noteq> p" using e(2) k c(2) by (auto split: if_splits)
    then show ?thesis using c u by (auto simp: settled_def)
  qed
  then have "sd_ID p \<notin> set (map fst (log_announced s))" using same p(2) unfolding settled_def by fastforce
  moreover have "current rows t (sd_ID p)" using p(1) u unfolding current_def by blast
  ultimately show ?thesis using ok past e(1) s' by (simp add: announced_ok_def Let_def)
qed

lemma announced_ok_step:
  assumes "power_step rows ts ts'" "announced_ok rows ts" "distinct (map sd_ID rows)" "[] \<notin> set (map sd_ID rows)"
  shows "announced_ok rows ts'"
  using assms(1,2)
proof (induction rule: power_step.induct)
  case (tick t now s d)
  have ok: "announced_ok rows (now, s)" by (rule announced_ok_later [OF tick.prems tick.hyps])
  show ?case
  proof (cases "UpcomingShutdowns now rows")
    case (Cons p ps)
    let ?a = "announce p (sd_PowerOffAt p - StopLead s) (ListInstances None d) s"
    have "announced_ok rows (now, ?a)"
    proof (cases rule: announce_cases [of p "sd_PowerOffAt p - StopLead s" "ListInstances None d" s])
      case quiet
      then show ?thesis by (intro announced_ok_same [OF ok]) auto
    next
      case (spoken e)
      then show ?thesis by (intro announced_ok_speak [OF ok Cons assms(3,4), of e]) auto
    qed
    then have "announced_ok rows (now, fold (tick_one p (sd_PowerOffAt p - StopLead s) now) (ListInstances None d) ?a)"
      by (rule announced_ok_same) simp_all
    then show ?thesis using ok by (simp add: Tick_def Cons Let_def)
  qed (use ok in \<open>simp add: Tick_def\<close>)
next
  case (finished t s key tag delivered)
  then show ?case by (rule announced_ok_same) (simp_all add: send_finished_def)
next
  case (restarted t s)
  then show ?case by (rule announced_ok_same) (simp_all add: restart_def)
qed

text \<open>A power cut is announced at most once: while the plans stay as they are, over any ticks in the order of the clock, whatever
  servers run, and with the daemon restarting at any point, no planned power cut is announced twice.\<close>

lemma power_cut_announced_once:
  assumes "(power_step rows)\<^sup>*\<^sup>* (t, s) (t', s')" and "distinct (map sd_ID rows)" and "[] \<notin> set (map sd_ID rows)"
    and "log_announced s = []" and "kv_announced s = None" and "pc_announced s = []"
  shows "distinct (map fst (log_announced s'))"
proof -
  have "announced_ok rows (t, s)" using assms(4-6) by (simp add: announced_ok_def)
  with assms(1) have "announced_ok rows (t', s')"
    by (induction rule: rtranclp_induct) (use announced_ok_step [OF _ _ assms(2,3)] in blast)+
  then show ?thesis by (simp add: announced_ok_def)
qed

lemma power_cut_announced_once_example:
  "distinct (map fst (log_announced (Tick 0 [ex_cut ''c'' Minute] ex_servers ex_clock))) \<and>
   length (log_announced (Tick 0 [ex_cut ''c'' Minute] ex_servers ex_clock)) = 1"
proof
  have "(power_step [ex_cut ''c'' Minute])\<^sup>*\<^sup>* (0, ex_clock) (0, Tick 0 [ex_cut ''c'' Minute] ex_servers ex_clock)"
    by (rule r_into_rtranclp) (rule power_step.tick, simp)
  then show "distinct (map fst (log_announced (Tick 0 [ex_cut ''c'' Minute] ex_servers ex_clock)))"
    by (rule power_cut_announced_once) (simp_all add: ex_cut_def ex_clock_def)
  have "\<not> 0 < sd_PowerOffAt (ex_cut ''c'' Minute) - WarnLead ex_clock"
    by (simp add: ex_cut_def WarnLead_def ShutdownWarnSpan_def StopLead_def ShutdownStopLead_def Let_def Minute_def Second_def)
  moreover have "UpcomingShutdowns 0 [ex_cut ''c'' Minute] = [ex_cut ''c'' Minute]" by (simp add: UpcomingShutdowns_def ex_cut_def Minute_def Second_def)
  ultimately show "length (log_announced (Tick 0 [ex_cut ''c'' Minute] ex_servers ex_clock)) = 1"
    by (simp add: Tick_def Let_def announce_eq ex_servers_def ListInstances_def ex_server_def ex_clock_def ex_cut_def tick_one_def)
qed

subsection \<open>What the plans changing does\<close>

text \<open>
  The clock remembers one announced power cut, in memory and in the table. When a sooner one is planned, announced and then called off,
  the one announced before it is announced again.
\<close>

lemma announced_again:
  assumes "pc_Announce s" "pc_announced s = []" "kv_announced s = None" "a \<noteq> []" "b \<noteq> []" "a \<noteq> b" "filter (\<lambda>r. in_State r = StateRunning) servers \<noteq> []"
  shows "map fst (log_announced (announce (ex_cut a 2) at1 servers (announce (ex_cut b 1) at2 servers (announce (ex_cut a 2) at1 servers s))))
    = map fst (log_announced s) @ [a, b, a]"
  using assms by (simp add: announce_eq Let_def ex_cut_def)

text \<open>
  The quiet time is fixed and the stop window is not: with a stop timeout of twenty minutes the window opens twenty-one minutes before the
  cut, and in its first minutes a scheduled run is still submitted for a server that the clock stops at every tick.
\<close>

lemma quiet_time_inside_stop_window:
  assumes "InstanceByID i d = Some r" "claimableFrom k (in_State r)"
  shows "StopLead (ex_clock\<lparr>pc_StopTimeout := 20 * Minute\<rparr>) = 21 * Minute"
    "Enqueue None (\<lambda>_. None) 0 [ex_cut ''c'' (16 * Minute)] d (Some i) k False = Inr Submitted"
  using assms by (simp_all add: StopLead_def Truncate_def ex_clock_def Let_def shutdownStopMargin_def ShutdownStopLead_def Minute_def Second_def
      Enqueue_def PowerCutWithin_def ex_cut_def ShutdownQuietLead_def)

text \<open>From the quiet time on, no scheduled run of a server is submitted.\<close>

lemma quiet_before_power_cut:
  assumes "PowerCutWithin now ShutdownQuietLead rows"
  shows "Enqueue g f now rows d i kind False \<noteq> Inr Submitted"
  using assms by (simp add: Enqueue_def recordSkip_def split: option.split)

end
