(* ===== verification/Ws_Connection.thy ===== *)
theory Ws_Connection
  imports Authz "HOL-Library.Word"
begin

text \<open>
  \<open>internal/ws\<close>: topics and their wire form (\<open>topic.go\<close>), and one browser connection (\<open>conn.go\<close>): its two bounded
  queues, the sources that push into them and the writer that empties them. A connection is a record and every
  action of one of its goroutines is a function on it, cut where the code can be interrupted: a push onto a full
  lossy queue is three actions (found full, oldest dropped, tried again), the writer's two \<open>select\<close> statements
  are two. An interleaving is a list of actions, run by \<open>conn_run\<close>. Sequence numbers are 64-bit words.

  Payloads are opaque, as they are to the code. The frames that went out and the frames offered to the lossless
  queue are kept as history.
\<close>

subsection \<open>Topics\<close>

datatype topic_kind = KindZero | KindConsole | KindStats | KindState | KindJob

datatype topic_class = Lossy | Lossless

record Topic =
  t_kind :: topic_kind
  t_id :: string

definition zero_Topic :: Topic where
  "zero_Topic = \<lparr>t_kind = KindZero, t_id = []\<rparr>"

definition topic_String :: "Topic \<Rightarrow> string" where
  "topic_String t =
     (case t_kind t of
        KindConsole \<Rightarrow> ''instance.'' @ t_id t @ ''.console''
      | KindStats \<Rightarrow> ''instance.'' @ t_id t @ ''.stats''
      | KindState \<Rightarrow> ''instance.'' @ t_id t @ ''.state''
      | KindJob \<Rightarrow> ''job.'' @ t_id t
      | KindZero \<Rightarrow> [])"

definition topic_Class :: "Topic \<Rightarrow> topic_class" where
  "topic_Class t = (case t_kind t of KindState \<Rightarrow> Lossless | KindJob \<Rightarrow> Lossless | _ \<Rightarrow> Lossy)"

text \<open>The zero action is \<^const>\<open>None\<close>.\<close>

definition topic_Action :: "Topic \<Rightarrow> action option" where
  "topic_Action t =
     (case t_kind t of
        KindConsole \<Rightarrow> Some ConsoleRead
      | KindStats \<Rightarrow> Some StatsRead
      | KindState \<Rightarrow> Some InstanceView
      | KindJob \<Rightarrow> Some InstanceView
      | KindZero \<Rightarrow> None)"

text \<open>The code ranges over runes; a rune outside ASCII is refused as each of its bytes is here.\<close>

definition id_char :: "char \<Rightarrow> bool" where
  "id_char c \<longleftrightarrow>
     (of_char c \<ge> (48 :: nat) \<and> of_char c \<le> (57 :: nat)) \<or>
     (of_char c \<ge> (97 :: nat) \<and> of_char c \<le> (122 :: nat)) \<or>
     (of_char c \<ge> (65 :: nat) \<and> of_char c \<le> (90 :: nat)) \<or> c = CHR ''-'' \<or> c = CHR ''_''"

definition validID :: "string \<Rightarrow> bool" where
  "validID s \<longleftrightarrow> s \<noteq> [] \<and> length s \<le> 64 \<and> list_all id_char s"

definition instance_kind :: "string \<Rightarrow> topic_kind option" where
  "instance_kind s =
     (if s = ''console'' then Some KindConsole
      else if s = ''stats'' then Some KindStats
      else if s = ''state'' then Some KindState
      else None)"

definition topic_Parse :: "string \<Rightarrow> Topic option" where
  "topic_Parse s =
     (case split_on (CHR ''.'') s of
        [a, b] \<Rightarrow> if a = ''job'' \<and> validID b then Some \<lparr>t_kind = KindJob, t_id = b\<rparr> else None
      | [a, b, k] \<Rightarrow>
          if a = ''instance'' \<and> validID b
          then map_option (\<lambda>kind. \<lparr>t_kind = kind, t_id = b\<rparr>) (instance_kind k) else None
      | _ \<Rightarrow> None)"

subsection \<open>Frames and connections\<close>

datatype ws_code = InvalidParameter | RateLimited | NotFound | Forbidden | Unsupported | MalformedJSON

datatype 'p ws_frame =
    Src 'p
  | SubscribedMsg string "64 word"
  | GapMsg string int "64 word"
  | ErrorMsg string ws_code
  | PongMsg

record 'p Message =
  m_Seq :: "64 word"
  m_Payload :: 'p

datatype 'p body = Single "'p ws_frame" | Replay "'p Message list"

record 'p outbound =
  ob_topic :: Topic
  ob_seq :: "64 word"
  ob_body :: "'p body"

text \<open>\<open>sub_opened\<close> says that \<open>subscribe\<close> has opened the source. A subscription with \<open>dropped\<close> set is out of the map.\<close>

record subscription =
  sub_instanceID :: string
  sub_replayed :: "64 word"
  sub_nextSeq :: "64 word"
  sub_opened :: bool

text \<open>Where a push of one topic stands, the subscription's lock held: found the queue full, or dropped the oldest.\<close>

datatype 'p pushing = Ready | Blocked "'p outbound" | Vacated "'p outbound"

datatype writer = Polling | Waiting | Stopped

text \<open>\<open>c_closed\<close> is \<open>closedWith\<close>, and \<open>done\<close> is closed once it is set. \<open>c_last\<close> is the map the writer keeps.
  \<open>c_wire\<close> lists what the writer took off which queue with the frames it wrote for it, \<open>c_offered\<close> what was
  handed to the lossless queue: both are history.\<close>

record 'p conn =
  c_lossy :: "'p outbound list"
  c_lossless :: "'p outbound list"
  c_closed :: "int option"
  c_subs :: "Topic \<rightharpoonup> subscription"
  c_grantGen :: nat
  c_stuckSince :: "int option"
  c_pushing :: "Topic \<Rightarrow> 'p pushing"
  c_writer :: writer
  c_last :: "Topic \<rightharpoonup> 64 word"
  c_wire :: "(topic_class \<times> 'p outbound \<times> 'p ws_frame list) list"
  c_offered :: "'p outbound list"

definition queueDepth :: nat where "queueDepth = 256"

definition stuckTimeout :: int where "stuckTimeout = 30 * 1000000000"

definition newConn :: "'p conn" where
  "newConn = \<lparr>c_lossy = [], c_lossless = [], c_closed = None, c_subs = Map.empty, c_grantGen = 0, c_stuckSince = None,
     c_pushing = (\<lambda>_. Ready), c_writer = Polling, c_last = Map.empty, c_wire = [], c_offered = []\<rparr>"

definition close :: "int \<Rightarrow> 'p conn \<Rightarrow> 'p conn" where
  "close code c = (if c_closed c = None then c\<lparr>c_closed := Some code\<rparr> else c)"

definition StatusInternalError :: int where "StatusInternalError = 1011"

subsection \<open>Pushing\<close>

text \<open>In each \<open>select\<close> with both a free slot and \<open>done\<close> closed, \<open>pick\<close> says that \<open>done\<close> was chosen.\<close>

definition enqueued :: "'p outbound list \<Rightarrow> bool \<Rightarrow> 'p conn \<Rightarrow> bool" where
  "enqueued q pick c \<longleftrightarrow> length q < queueDepth \<and> \<not> (c_closed c \<noteq> None \<and> pick)"

definition pushLossless :: "'p outbound \<Rightarrow> bool \<Rightarrow> 'p conn \<Rightarrow> bool \<times> 'p conn" where
  "pushLossless ob pick c =
     (let c = c\<lparr>c_offered := c_offered c @ [ob]\<rparr>
      in if enqueued (c_lossless c) pick c then (True, c\<lparr>c_lossless := c_lossless c @ [ob]\<rparr>)
         else if c_closed c \<noteq> None then (False, c)
         else (False, close StatusInternalError c))"

definition stuckTooLong :: "int \<Rightarrow> 'p conn \<Rightarrow> bool \<times> 'p conn" where
  "stuckTooLong now c =
     (case c_stuckSince c of
        None \<Rightarrow> (False, c\<lparr>c_stuckSince := Some now\<rparr>)
      | Some since \<Rightarrow> (now - since > stuckTimeout, c))"

definition push :: "Topic \<Rightarrow> 64 word \<Rightarrow> 'p \<Rightarrow> bool \<Rightarrow> int \<Rightarrow> 'p conn \<Rightarrow> 'p conn" where
  "push t sq payload pick now c =
     (let ob = \<lparr>ob_topic = t, ob_seq = sq, ob_body = Single (Src payload)\<rparr>
      in if topic_Class t = Lossless then snd (pushLossless ob pick c)
         else if enqueued (c_lossy c) pick c then c\<lparr>c_lossy := c_lossy c @ [ob], c_stuckSince := None\<rparr>
         else if c_closed c \<noteq> None then c
         else case stuckTooLong now c of
             (True, c) \<Rightarrow> close StatusInternalError c
           | (False, c) \<Rightarrow> c\<lparr>c_pushing := (c_pushing c)(t := Blocked ob)\<rparr>)"

definition push_drop_oldest :: "Topic \<Rightarrow> 'p conn \<Rightarrow> 'p conn" where
  "push_drop_oldest t c =
     (case c_pushing c t of
        Blocked ob \<Rightarrow> c\<lparr>c_lossy := tl (c_lossy c), c_pushing := (c_pushing c)(t := Vacated ob)\<rparr>
      | _ \<Rightarrow> c)"

definition push_again :: "Topic \<Rightarrow> 'p conn \<Rightarrow> 'p conn" where
  "push_again t c =
     (case c_pushing c t of
        Vacated ob \<Rightarrow>
          let c = c\<lparr>c_pushing := (c_pushing c)(t := Ready)\<rparr>
          in if length (c_lossy c) < queueDepth then c\<lparr>c_lossy := c_lossy c @ [ob]\<rparr> else c
      | _ \<Rightarrow> c)"

text \<open>\<open>deliverRaw\<close> waits for a slot: while there is none and the connection is open, the action changes nothing.\<close>

definition deliverRaw :: "'p ws_frame \<Rightarrow> bool \<Rightarrow> 'p conn \<Rightarrow> 'p conn" where
  "deliverRaw fr pick c =
     (let ob = \<lparr>ob_topic = zero_Topic, ob_seq = 0, ob_body = Single fr\<rparr>
      in if enqueued (c_lossless c) pick c
         then c\<lparr>c_lossless := c_lossless c @ [ob], c_offered := c_offered c @ [ob]\<rparr> else c)"

text \<open>What the hub publishes goes to the state topic of an instance.\<close>

definition StateTopic :: "string \<Rightarrow> Topic" where
  "StateTopic instanceID = \<lparr>t_kind = KindState, t_id = instanceID\<rparr>"

definition deliver :: "Topic \<Rightarrow> 'p Message \<Rightarrow> bool \<Rightarrow> int \<Rightarrow> 'p conn \<Rightarrow> 'p conn" where
  "deliver t m pick now c =
     (if c_subs c t = None then c else push t (m_Seq m) (m_Payload m) pick now c)"

text \<open>A message of a subscription whose lock another push holds waits, and a source that is not open sends
  none: the action changes nothing.\<close>

definition sendLive :: "Topic \<Rightarrow> 'p Message \<Rightarrow> bool \<Rightarrow> int \<Rightarrow> 'p conn \<Rightarrow> 'p conn" where
  "sendLive t m pick now c =
     (case c_subs c t of
        None \<Rightarrow> c
      | Some sub \<Rightarrow>
          if \<not> sub_opened sub \<or> c_pushing c t \<noteq> Ready then c
          else if m_Seq m \<noteq> 0 \<and> m_Seq m \<le> sub_replayed sub then c
          else if m_Seq m = 0 \<and> topic_Class t = Lossy then
            (let sub = sub\<lparr>sub_nextSeq := sub_nextSeq sub + 1\<rparr>
             in push t (sub_nextSeq sub) (m_Payload m) pick now (c\<lparr>c_subs := (c_subs c)(t \<mapsto> sub)\<rparr>))
          else push t (m_Seq m) (m_Payload m) pick now c)"

subsection \<open>Opening and ending a subscription\<close>

definition register :: "Topic \<Rightarrow> string \<Rightarrow> 'p conn \<Rightarrow> 'p conn" where
  "register t instanceID c =
     c\<lparr>c_subs := (c_subs c)(t \<mapsto> \<lparr>sub_instanceID = instanceID, sub_replayed = 0, sub_nextSeq = 0, sub_opened = False\<rparr>)\<rparr>"

definition last_seq :: "'p Message list \<Rightarrow> 64 word" where
  "last_seq replay = (if replay = [] then 0 else m_Seq (last replay))"

text \<open>The end of \<open>subscribe\<close>: the source is opened, and the acknowledgement and the whole replay are queued. The
  state topics have no source, hence no replay. A subscription dropped meanwhile queues nothing.\<close>

definition open_source :: "Topic \<Rightarrow> 'p Message list \<Rightarrow> bool \<Rightarrow> 'p conn \<Rightarrow> 'p conn" where
  "open_source t backlog pick c =
     (case c_subs c t of
        None \<Rightarrow> c
      | Some sub \<Rightarrow>
          if sub_opened sub then c
          else
          let replay = (if t_kind t = KindState then [] else backlog);
              sub = sub\<lparr>sub_replayed := last_seq replay, sub_opened := True\<rparr>;
              c = c\<lparr>c_subs := (c_subs c)(t \<mapsto> sub)\<rparr>
          in case pushLossless \<lparr>ob_topic = t, ob_seq = 0, ob_body = Single (SubscribedMsg (topic_String t) (sub_replayed sub))\<rparr> pick c of
              (False, c) \<Rightarrow> c
            | (True, c) \<Rightarrow>
                if replay = [] then c
                else snd (pushLossless \<lparr>ob_topic = t, ob_seq = 0, ob_body = Replay replay\<rparr> pick c))"

definition drop_sub :: "Topic \<Rightarrow> 'p conn \<Rightarrow> 'p conn" where
  "drop_sub t c = c\<lparr>c_subs := (c_subs c)(t := None)\<rparr>"

subsection \<open>Writing\<close>

definition MaxInt32 :: "64 word" where "MaxInt32 = 2147483647"

definition gapBefore :: "(Topic \<rightharpoonup> 64 word) \<Rightarrow> 'p outbound \<Rightarrow> (Topic \<rightharpoonup> 64 word) \<times> 'p ws_frame list" where
  "gapBefore lst ob =
     (if ob_seq ob = 0 then (lst, [])
      else let lst' = lst(ob_topic ob \<mapsto> ob_seq ob)
        in case lst (ob_topic ob) of
             None \<Rightarrow> (lst', [])
           | Some seen \<Rightarrow>
               if ob_seq ob \<le> seen + 1 then (lst', [])
               else let dropped = ob_seq ob - seen - 1;
                        dropped = (if dropped > MaxInt32 then MaxInt32 else dropped)
                 in (lst', [GapMsg (topic_String (ob_topic ob)) (sint dropped) (seen + 1)]))"

definition replay_last :: "Topic \<Rightarrow> 'p Message list \<Rightarrow> (Topic \<rightharpoonup> 64 word) \<Rightarrow> (Topic \<rightharpoonup> 64 word)" where
  "replay_last t ms lst = fold (\<lambda>m l. if m_Seq m \<noteq> 0 then l(t \<mapsto> m_Seq m) else l) ms lst"

text \<open>The frames one queued item becomes, and the writer's map after it.\<close>

definition writeFrame :: "'p conn \<Rightarrow> 'p outbound \<Rightarrow> (Topic \<rightharpoonup> 64 word) \<times> 'p ws_frame list" where
  "writeFrame c ob =
     (if topic_Class (ob_topic ob) = Lossy \<and> ob_topic ob \<noteq> zero_Topic \<and> c_subs c (ob_topic ob) = None
      then (c_last c, [])
      else case ob_body ob of
          Replay ms \<Rightarrow> (replay_last (ob_topic ob) ms (c_last c), map (Src \<circ> m_Payload) ms)
        | Single fr \<Rightarrow> (case gapBefore (c_last c) ob of (lst, g) \<Rightarrow> (lst, g @ [fr])))"

text \<open>The socket accepts \<open>ok\<close> of the frames; on the first it refuses the connection closes and the writer returns.\<close>

definition write_item :: "topic_class \<Rightarrow> 'p outbound \<Rightarrow> nat \<Rightarrow> 'p conn \<Rightarrow> 'p conn" where
  "write_item q ob ok c =
     (case writeFrame c ob of (lst, frames) \<Rightarrow>
        let c = c\<lparr>c_last := lst, c_wire := c_wire c @ [(q, ob, take ok frames)]\<rparr>
        in if length frames \<le> ok then c\<lparr>c_writer := Polling\<rparr>
           else (close StatusInternalError c)\<lparr>c_writer := Stopped\<rparr>)"

definition take_lossless :: "nat \<Rightarrow> 'p conn \<Rightarrow> 'p conn" where
  "take_lossless ok c =
     (case c_lossless c of [] \<Rightarrow> c | ob # q \<Rightarrow> write_item Lossless ob ok (c\<lparr>c_lossless := q\<rparr>))"

definition take_lossy :: "nat \<Rightarrow> 'p conn \<Rightarrow> 'p conn" where
  "take_lossy ok c =
     (case c_lossy c of [] \<Rightarrow> c | ob # q \<Rightarrow> write_item Lossy ob ok (c\<lparr>c_lossy := q\<rparr>))"

text \<open>The first \<open>select\<close> of \<open>writeLoop\<close> looks at the lossless queue only.\<close>

definition writer_poll :: "nat \<Rightarrow> 'p conn \<Rightarrow> 'p conn" where
  "writer_poll ok c =
     (if c_writer c \<noteq> Polling then c
      else if c_lossless c = [] then c\<lparr>c_writer := Waiting\<rparr>
      else take_lossless ok c)"

text \<open>The second waits on both queues and on \<open>done\<close>, and takes any that is ready.\<close>

datatype ready = FromLossless | FromLossy | FromDone

definition writer_wait :: "ready \<Rightarrow> nat \<Rightarrow> 'p conn \<Rightarrow> 'p conn" where
  "writer_wait r ok c =
     (if c_writer c \<noteq> Waiting then c
      else case r of
          FromLossless \<Rightarrow> take_lossless ok c
        | FromLossy \<Rightarrow> take_lossy ok c
        | FromDone \<Rightarrow> if c_closed c \<noteq> None then c\<lparr>c_writer := Stopped\<rparr> else c)"

subsection \<open>Interleavings\<close>

datatype 'p conn_action =
    Live Topic "'p Message" bool int
  | DropOldest Topic
  | PushAgain Topic
  | PublishState string "'p Message" bool int
  | Raw "'p ws_frame" bool
  | Register Topic string
  | OpenSource Topic "'p Message list" bool
  | Unsubscribe Topic
  | WriterPoll nat
  | WriterWait ready nat
  | CloseWith int

fun conn_step :: "'p conn_action \<Rightarrow> 'p conn \<Rightarrow> 'p conn" where
  "conn_step (Live t m pick now) c = sendLive t m pick now c"
| "conn_step (DropOldest t) c = push_drop_oldest t c"
| "conn_step (PushAgain t) c = push_again t c"
| "conn_step (PublishState i m pick now) c = deliver (StateTopic i) m pick now c"
| "conn_step (Raw fr pick) c = deliverRaw fr pick c"
| "conn_step (Register t i) c = (if c_subs c t = None then register t i c else c)"
| "conn_step (OpenSource t backlog pick) c = open_source t backlog pick c"
| "conn_step (Unsubscribe t) c = drop_sub t c"
| "conn_step (WriterPoll ok) c = writer_poll ok c"
| "conn_step (WriterWait r ok) c = writer_wait r ok c"
| "conn_step (CloseWith code) c = close code c"

definition conn_run :: "'p conn_action list \<Rightarrow> 'p conn" where
  "conn_run acts = fold conn_step acts newConn"

end
