(* ===== verification/Ws_Delivery.thy ===== *)
theory Ws_Delivery
  imports Ws_Connection
begin

text \<open>
  What a browser can rely on: a topic's wire form is read back exactly, nothing published on a lossless topic is
  missing while the connection is open, and what is missing of a lossy topic is announced where it is missing.
\<close>

subsection \<open>The wire form of a topic\<close>

lemma validID_no_dot: "validID s \<Longrightarrow> CHR ''.'' \<notin> set s"
  by (auto simp: validID_def list_all_iff id_char_def)

lemma instance_kind_Some:
  "instance_kind s = Some k \<longleftrightarrow>
     k = KindConsole \<and> s = ''console'' \<or> k = KindStats \<and> s = ''stats'' \<or> k = KindState \<and> s = ''state''"
  by (auto simp: instance_kind_def)

lemma split_three:
  assumes "CHR ''.'' \<notin> set b" and "CHR ''.'' \<notin> set k"
  shows "split_on (CHR ''.'') (''instance.'' @ b @ CHR ''.'' # k) = [''instance'', b, k]"
  using assms split_on_append [of "CHR ''.''" "''instance''" "b @ CHR ''.'' # k"]
  by (simp add: split_on_append split_on_absent)

lemma split_two: "CHR ''.'' \<notin> set b \<Longrightarrow> split_on (CHR ''.'') (''job.'' @ b) = [''job'', b]"
  using split_on_append [of "CHR ''.''" "''job''" b] by (simp add: split_on_absent)

lemma topic_Parse_String:
  assumes "validID (t_id t)" and "t_kind t \<noteq> KindZero"
  shows "topic_Parse (topic_String t) = Some t"
  using assms split_three [of "t_id t"] split_two [of "t_id t"] validID_no_dot [of "t_id t"]
  by (cases "t_kind t") (auto simp: topic_Parse_def topic_String_def instance_kind_def)

lemma split_eq_join: "split_on c xs = ps \<Longrightarrow> xs = join_with c ps"
  using join_split [of c xs] by simp

lemma topic_Parse_Some:
  assumes "topic_Parse s = Some t"
  shows "s = topic_String t \<and> validID (t_id t) \<and> t_kind t \<noteq> KindZero"
  using assms
  by (auto simp: topic_Parse_def topic_String_def instance_kind_Some
      split: list.splits if_splits dest!: split_eq_join)

text \<open>C37. Parsing a topic is exact: a string is accepted as a topic exactly when it is the wire form of that topic and
  the id in it has the shape of an id, so no wildcard, prefix or trailing text is ever taken for a topic.\<close>

theorem topic_Parse_exact:
  "topic_Parse s = Some t \<longleftrightarrow> s = topic_String t \<and> validID (t_id t) \<and> t_kind t \<noteq> KindZero"
  using topic_Parse_String topic_Parse_Some by blast

subsection \<open>Lossless topics\<close>

fun is_gap :: "'p ws_frame \<Rightarrow> bool" where
  "is_gap (GapMsg _ _ _) = True"
| "is_gap _ = False"

definition plain :: "'p ws_frame list \<Rightarrow> 'p ws_frame list" where
  "plain = filter (\<lambda>fr. \<not> is_gap fr)"

fun body_frames :: "'p body \<Rightarrow> 'p ws_frame list" where
  "body_frames (Single fr) = [fr]"
| "body_frames (Replay ms) = map (Src \<circ> m_Payload) ms"

text \<open>The frames of one topic that queued items stand for, and those of it that went out, gap notices apart.\<close>

definition frames_on :: "Topic \<Rightarrow> 'p outbound list \<Rightarrow> 'p ws_frame list" where
  "frames_on t obs = concat (map (\<lambda>ob. if ob_topic ob = t then plain (body_frames (ob_body ob)) else []) obs)"

definition sent_on :: "Topic \<Rightarrow> 'p conn \<Rightarrow> 'p ws_frame list" where
  "sent_on t c = concat (map (\<lambda>(q, ob, fs). if ob_topic ob = t then plain fs else []) (c_wire c))"

lemma frames_on_append [simp]: "frames_on t (xs @ ys) = frames_on t xs @ frames_on t ys"
  by (simp add: frames_on_def)

lemma frames_on_other: "topic_Class (ob_topic ob) = Lossy \<Longrightarrow> topic_Class t = Lossless \<Longrightarrow> frames_on t [ob] = []"
  by (auto simp: frames_on_def)

text \<open>Only lossy topics use the lossy queue.\<close>

definition pushes_lossy :: "'p pushing \<Rightarrow> bool" where
  "pushes_lossy p = (case p of Ready \<Rightarrow> True | Blocked ob \<Rightarrow> topic_Class (ob_topic ob) = Lossy | Vacated ob \<Rightarrow> topic_Class (ob_topic ob) = Lossy)"

definition lossy_apart :: "'p conn \<Rightarrow> bool" where
  "lossy_apart c \<longleftrightarrow> (\<forall>ob \<in> set (c_lossy c). topic_Class (ob_topic ob) = Lossy) \<and> (\<forall>t. pushes_lossy (c_pushing c t))"

definition accounted :: "Topic \<Rightarrow> 'p conn \<Rightarrow> bool" where
  "accounted t c \<longleftrightarrow> (c_closed c = None \<longrightarrow> frames_on t (c_offered c) = sent_on t c @ frames_on t (c_lossless c))"

lemmas conn_defs = push_def pushLossless_def stuckTooLong_def enqueued_def close_def Let_def

lemma push_apart: "lossy_apart c \<Longrightarrow> lossy_apart (push t sq p pick now c)"
  by (cases "topic_Class t")
     (auto simp: lossy_apart_def conn_defs pushes_lossy_def split: option.splits bool.splits)

lemma push_subs [simp]: "c_subs (push t sq p pick now c) = c_subs c"
  by (auto simp: conn_defs split: option.splits bool.splits)

lemma push_accounted:
  assumes "accounted t c"
  shows "accounted t (push t' sq p pick now c)"
  using assms by (auto simp: accounted_def conn_defs sent_on_def split: option.splits bool.splits)

lemma pushLossless_accounted: "accounted t c \<Longrightarrow> accounted t (snd (pushLossless ob pick c))"
  by (auto simp: accounted_def conn_defs sent_on_def)

lemma pushLossless_apart: "lossy_apart c \<Longrightarrow> lossy_apart (snd (pushLossless ob pick c))"
  by (auto simp: lossy_apart_def conn_defs)

lemma accounted_subs [simp]: "accounted t (c\<lparr>c_subs := x\<rparr>) = accounted t c"
  by (simp add: accounted_def sent_on_def)

lemma accounted_irrelevant [simp]:
  "accounted t (c\<lparr>c_lossy := q\<rparr>) = accounted t c"
  "accounted t (c\<lparr>c_pushing := p\<rparr>) = accounted t c"
  "accounted t (c\<lparr>c_writer := w\<rparr>) = accounted t c"
  by (simp_all add: accounted_def sent_on_def)

lemma lossy_apart_irrelevant [simp]:
  "lossy_apart (c\<lparr>c_subs := x\<rparr>) = lossy_apart c"
  "lossy_apart (c\<lparr>c_lossless := q\<rparr>) = lossy_apart c"
  "lossy_apart (c\<lparr>c_offered := obs\<rparr>) = lossy_apart c"
  "lossy_apart (c\<lparr>c_writer := w\<rparr>) = lossy_apart c"
  "lossy_apart (c\<lparr>c_closed := d\<rparr>) = lossy_apart c"
  by (simp_all add: lossy_apart_def)

lemma plain_gapBefore: "plain (snd (gapBefore lst ob)) = []"
  by (auto simp: gapBefore_def plain_def Let_def split: option.splits)

lemma writeFrame_lossless:
  assumes "topic_Class (ob_topic ob) = Lossless"
  shows "plain (snd (writeFrame c ob)) = plain (body_frames (ob_body ob))"
  using assms plain_gapBefore [of "c_last c" ob]
  by (auto simp: writeFrame_def plain_def split: body.splits prod.splits)

lemma write_item_simps [simp]:
  "c_lossy (write_item q ob ok c) = c_lossy c"
  "c_lossless (write_item q ob ok c) = c_lossless c"
  "c_offered (write_item q ob ok c) = c_offered c"
  "c_pushing (write_item q ob ok c) = c_pushing c"
  "c_subs (write_item q ob ok c) = c_subs c"
  "c_wire (write_item q ob ok c) = c_wire c @ [(q, ob, take ok (snd (writeFrame c ob)))]"
  "c_last (write_item q ob ok c) = fst (writeFrame c ob)"
  by (auto simp: write_item_def close_def Let_def split: prod.splits)

lemma write_item_open: "c_closed (write_item q ob ok c) = None \<Longrightarrow> c_closed c = None \<and> length (snd (writeFrame c ob)) \<le> ok"
  by (auto simp: write_item_def close_def Let_def split: prod.splits if_splits)

lemma take_lossless_accounted:
  assumes "accounted t c" and "topic_Class t = Lossless"
  shows "accounted t (take_lossless ok c)"
proof (cases "c_lossless c")
  case (Cons ob q)
  have "sent_on t (write_item Lossless ob ok (c\<lparr>c_lossless := q\<rparr>)) = sent_on t c @ frames_on t [ob]"
    if "length (snd (writeFrame (c\<lparr>c_lossless := q\<rparr>) ob)) \<le> ok"
    using that assms(2) writeFrame_lossless [of ob "c\<lparr>c_lossless := q\<rparr>"] by (auto simp: sent_on_def frames_on_def)
  with Cons assms(1) show ?thesis
    using write_item_open [of Lossless ob ok "c\<lparr>c_lossless := q\<rparr>"]
    by (auto simp: take_lossless_def accounted_def frames_on_def)
qed (use assms in \<open>simp add: take_lossless_def\<close>)

lemma take_lossy_accounted:
  assumes "accounted t c" and "topic_Class t = Lossless" and "lossy_apart c"
  shows "accounted t (take_lossy ok c)"
proof (cases "c_lossy c")
  case (Cons ob q)
  then have "ob_topic ob \<noteq> t" using assms(2,3) by (auto simp: lossy_apart_def)
  then have "sent_on t (write_item Lossy ob ok (c\<lparr>c_lossy := q\<rparr>)) = sent_on t c"
    by (auto simp: sent_on_def)
  with Cons assms(1) show ?thesis
    using write_item_open [of Lossy ob ok "c\<lparr>c_lossy := q\<rparr>"]
    by (auto simp: take_lossy_def accounted_def)
qed (use assms in \<open>simp add: take_lossy_def\<close>)

lemma take_apart: "lossy_apart c \<Longrightarrow> lossy_apart (take_lossless ok c) \<and> lossy_apart (take_lossy ok c)"
  by (auto simp: take_lossless_def take_lossy_def lossy_apart_def split: list.splits)

lemma sendLive_accounted: "accounted t c \<Longrightarrow> accounted t (sendLive t' m pick now c)"
  by (simp add: sendLive_def Let_def push_accounted split: option.split)

lemma sendLive_apart: "lossy_apart c \<Longrightarrow> lossy_apart (sendLive t' m pick now c)"
  by (simp add: sendLive_def Let_def push_apart split: option.split)

lemma snd_case_bool: "(case p of (True, x) \<Rightarrow> f x | (False, x) \<Rightarrow> x) = (if fst p then f (snd p) else snd p)"
  by (cases p) (simp split: bool.split)

lemma open_source_accounted: "accounted t c \<Longrightarrow> accounted t (open_source t' ms pick c)"
  by (simp add: open_source_def Let_def snd_case_bool pushLossless_accounted split: option.split)

lemma open_source_apart: "lossy_apart c \<Longrightarrow> lossy_apart (open_source t' ms pick c)"
  by (simp add: open_source_def Let_def snd_case_bool pushLossless_apart split: option.split)

lemma conn_step_apart: "lossy_apart c \<Longrightarrow> lossy_apart (conn_step a c)"
proof (cases a)
  case (DropOldest t)
  assume "lossy_apart c"
  with DropOldest show ?thesis
    by (auto simp: push_drop_oldest_def lossy_apart_def pushes_lossy_def dest: list.set_sel(2) split: pushing.splits)
      (metis list.sel(2) list.set_sel(2) pushing.simps(11))
next
  case (PushAgain t)
  assume "lossy_apart c"
  with PushAgain show ?thesis
    by (auto simp: push_again_def lossy_apart_def pushes_lossy_def Let_def split: pushing.splits)
qed (simp_all add: sendLive_apart open_source_apart take_apart deliver_def push_apart deliverRaw_def register_def
    drop_sub_def writer_poll_def writer_wait_def close_def Let_def split: ready.split)

lemma conn_step_accounted:
  assumes "accounted t c" and "topic_Class t = Lossless" and "lossy_apart c"
  shows "accounted t (conn_step a c)"
proof (cases a)
  case (Raw fr pick)
  with assms show ?thesis by (simp add: deliverRaw_def Let_def accounted_def sent_on_def)
next
  case (CloseWith code)
  with assms show ?thesis by (simp add: close_def accounted_def)
qed (use assms in \<open>simp_all add: sendLive_accounted open_source_accounted take_lossless_accounted take_lossy_accounted
    deliver_def push_accounted register_def drop_sub_def push_drop_oldest_def push_again_def writer_poll_def
    writer_wait_def Let_def split: ready.split pushing.split\<close>)

definition lossless_ok :: "Topic \<Rightarrow> 'p conn \<Rightarrow> bool" where
  "lossless_ok t c \<longleftrightarrow> lossy_apart c \<and> (topic_Class t = Lossless \<longrightarrow> accounted t c)"

interpretation ll: step_invariant conn_step "lossless_ok t" for t
  by unfold_locales (simp add: lossless_ok_def conn_step_apart conn_step_accounted)

lemma conn_run_lossless: "topic_Class t = Lossless \<Longrightarrow> accounted t (conn_run acts)"
proof -
  assume t: "topic_Class t = Lossless"
  have "lossless_ok t newConn"
    by (simp add: lossless_ok_def newConn_def lossy_apart_def pushes_lossy_def accounted_def sent_on_def frames_on_def)
  then have "lossless_ok t (conn_run acts)" unfolding conn_run_def by (rule ll.runs_good)
  with t show ?thesis by (simp add: lossless_ok_def)
qed

text \<open>C14. Nothing of a lossless topic is missed. Whatever sources, publishers, subscriptions and the writer do and in
  whatever order, as long as the connection is open every state change and job event handed to it has gone out
  or is still queued, each once and in the order it was handed over. A queue that overflows closes the connection
  instead of leaving a message out.\<close>

theorem lossless_nothing_missed:
  assumes "topic_Class t = Lossless"
    and "c_closed (conn_run acts) = None"
  shows "frames_on t (c_offered (conn_run acts)) = sent_on t (conn_run acts) @ frames_on t (c_lossless (conn_run acts))"
  using conn_run_lossless [OF assms(1), of acts] assms(2) by (simp add: accounted_def)

theorem lossless_nothing_missed_witness:
  "let t = StateTopic ''a''; msg = (\<lambda>p. \<lparr>m_Seq = 0, m_Payload = p\<rparr>);
       c = conn_run [Register t ''a'', OpenSource t [] False, PublishState ''a'' (msg (1 :: nat)) False 0,
             WriterPoll 9, WriterPoll 9, PublishState ''a'' (msg 2) False 0]
   in c_closed c = None \<and> frames_on t (c_offered c) = sent_on t c @ frames_on t (c_lossless c) \<and>
      sent_on t c = [SubscribedMsg ''instance.a.state'' 0, Src 1] \<and> frames_on t (c_lossless c) = [Src 2]"
proof -
  let ?t = "StateTopic ''a''"
  let ?acts = "[Register ?t ''a'', OpenSource ?t [] False, PublishState ''a'' \<lparr>m_Seq = 0, m_Payload = 1 :: nat\<rparr> False 0,
             WriterPoll 9, WriterPoll 9, PublishState ''a'' \<lparr>m_Seq = 0, m_Payload = 2\<rparr> False 0]"
  have "topic_Class ?t = Lossless" by (simp add: topic_Class_def StateTopic_def)
  moreover have "c_closed (conn_run ?acts) = None" by code_simp
  moreover have "sent_on ?t (conn_run ?acts) = [SubscribedMsg ''instance.a.state'' 0, Src 1]" by code_simp
  moreover have "frames_on ?t (c_lossless (conn_run ?acts)) = [Src 2]" by code_simp
  ultimately show ?thesis
    using lossless_nothing_missed [of ?t ?acts] by (simp only: Let_def simp_thms)
qed

end
