(* ===== verification/Ws_Gaps.thy ===== *)
theory Ws_Gaps
  imports Ws_Delivery "HOL-Library.Sublist"
begin

text \<open>
  The lossy topics of a connection (\<open>push\<close>, \<open>sendLive\<close>, \<open>gapBefore\<close> and \<open>writeFrame\<close> of \<open>internal/ws/conn.go\<close>): the
  sequence numbers a browser sees or is told are missing form one unbroken run, however the queue overflows.
\<close>

subsection \<open>What the browser can account for\<close>

text \<open>The sequence numbers a frame stands for: its own, or those a gap notice says were dropped. A replay counts with the
  number it ends at: its own numbers may jump.\<close>

definition frame_seqs :: "'p outbound \<Rightarrow> 'p ws_frame \<Rightarrow> nat list" where
  "frame_seqs ob fr =
     (case fr of
        GapMsg _ n from \<Rightarrow> [unat from ..< unat from + nat n]
      | _ \<Rightarrow> if ob_seq ob = 0 then [] else [unat (ob_seq ob)])"

definition entry_seqs :: "Topic \<Rightarrow> topic_class \<times> 'p outbound \<times> 'p ws_frame list \<Rightarrow> nat list" where
  "entry_seqs t e =
     (case e of (q, ob, fs) \<Rightarrow>
        case ob_body ob of
          Single _ \<Rightarrow> if ob_topic ob = t then concat (map (frame_seqs ob) fs) else []
        | Replay ms \<Rightarrow> if ob_topic ob = t \<and> fs \<noteq> [] \<and> length fs = length ms then [unat (last_seq ms)] else [])"

definition ledger :: "Topic \<Rightarrow> 'p conn \<Rightarrow> nat list" where
  "ledger t c = concat (map (entry_seqs t) (c_wire c))"

subsection \<open>Numbers on their way to the browser\<close>

definition replays :: "Topic \<Rightarrow> 'p outbound list \<Rightarrow> 64 word list" where
  "replays t obs =
     concat (map (\<lambda>ob. case ob_body ob of Replay ms \<Rightarrow> if ob_topic ob = t then [last_seq ms] else [] | _ \<Rightarrow> []) obs)"

definition queued :: "Topic \<Rightarrow> 'p outbound list \<Rightarrow> 64 word list" where
  "queued t obs = map ob_seq (filter (\<lambda>ob. ob_topic ob = t) obs)"

fun in_hand :: "'p pushing \<Rightarrow> 'p outbound list" where
  "in_hand Ready = []"
| "in_hand (Blocked ob) = [ob]"
| "in_hand (Vacated ob) = [ob]"

definition on_the_way :: "Topic \<Rightarrow> 'p conn \<Rightarrow> 64 word list" where
  "on_the_way t c =
     (case c_last c t of None \<Rightarrow> [] | Some w \<Rightarrow> [w]) @ replays t (c_lossless c) @ queued t (c_lossy c) @
     queued t (in_hand (c_pushing c t))"

subsection \<open>How sources number their messages\<close>

text \<open>A source numbers all its messages, each above the one before, or it numbers none and replays none.\<close>

definition act_ok :: "bool \<Rightarrow> Topic \<Rightarrow> 64 word \<Rightarrow> 'p conn_action \<Rightarrow> bool" where
  "act_ok own t h a =
     (case a of
        Live t' m _ _ \<Rightarrow> t' = t \<longrightarrow> (if own then h < m_Seq m \<and> m_Seq m \<le> MaxInt32 else m_Seq m = 0)
      | OpenSource t' ms _ \<Rightarrow>
          t' = t \<longrightarrow> (if own then list_all (\<lambda>m. 0 < m_Seq m \<and> m_Seq m \<le> MaxInt32) ms else ms = [])
      | _ \<Rightarrow> True)"

definition next_h :: "bool \<Rightarrow> Topic \<Rightarrow> 64 word \<Rightarrow> 'p conn_action \<Rightarrow> 64 word" where
  "next_h own t h a = (case a of Live t' m _ _ \<Rightarrow> if t' = t \<and> own then m_Seq m else h | _ \<Rightarrow> h)"

fun numbered :: "bool \<Rightarrow> Topic \<Rightarrow> 64 word \<Rightarrow> 'p conn_action list \<Rightarrow> bool" where
  "numbered own t h [] = True"
| "numbered own t h (a # acts) \<longleftrightarrow> act_ok own t h a \<and> numbered own t (next_h own t h a) acts"

definition registers :: "Topic \<Rightarrow> 'p conn_action \<Rightarrow> bool" where
  "registers t a = (case a of Register t' _ \<Rightarrow> t' = t | _ \<Rightarrow> False)"

text \<open>The writer does not take from the lossy queue while a replay of the topic waits in the other one.\<close>

definition overtakes :: "Topic \<Rightarrow> 'p conn_action \<Rightarrow> 'p conn \<Rightarrow> bool" where
  "overtakes t a c = (case a of WriterWait FromLossy _ \<Rightarrow> replays t (c_lossless c) \<noteq> [] | _ \<Rightarrow> False)"

fun never_overtakes :: "Topic \<Rightarrow> 'p conn_action list \<Rightarrow> 'p conn \<Rightarrow> bool" where
  "never_overtakes t [] c = True"
| "never_overtakes t (a # acts) c \<longleftrightarrow> \<not> overtakes t a c \<and> never_overtakes t acts (conn_step a c)"

subsection \<open>The invariant\<close>

definition increasing :: "Topic \<Rightarrow> 'p conn \<Rightarrow> bool" where
  "increasing t c \<longleftrightarrow> sorted_wrt (<) (on_the_way t c) \<and> (\<forall>x \<in> set (on_the_way t c). 0 < x \<and> x \<le> MaxInt32)"

definition untouched :: "Topic \<Rightarrow> 'p conn \<Rightarrow> bool" where
  "untouched t c \<longleftrightarrow> on_the_way t c = [] \<and> ledger t c = []"

definition one_replay :: "Topic \<Rightarrow> 'p conn \<Rightarrow> bool" where
  "one_replay t c \<longleftrightarrow> (replays t (c_lossless c) \<noteq> [] \<longrightarrow> ledger t c = []) \<and> length (replays t (c_lossless c)) \<le> 1"

definition settled :: "bool \<Rightarrow> Topic \<Rightarrow> 'p conn \<Rightarrow> bool" where
  "settled fresh t c \<longleftrightarrow>
     (fresh \<longrightarrow> c_subs c t = None \<and> untouched t c) \<and>
     (\<forall>sub. c_subs c t = Some sub \<longrightarrow> \<not> sub_opened sub \<longrightarrow> untouched t c) \<and>
     one_replay t c"

definition upper :: "bool \<Rightarrow> 64 word \<Rightarrow> subscription \<Rightarrow> 64 word" where
  "upper own h sub = (if own then max h (sub_replayed sub) else sub_nextSeq sub)"

definition topped :: "bool \<Rightarrow> 64 word \<Rightarrow> nat \<Rightarrow> Topic \<Rightarrow> 'p conn \<Rightarrow> bool" where
  "topped own h n t c \<longleftrightarrow>
     (\<forall>sub. c_subs c t = Some sub \<longrightarrow>
        (\<forall>x \<in> set (on_the_way t c). x \<le> upper own h sub) \<and> (\<not> own \<longrightarrow> unat (sub_nextSeq sub) \<le> n))"

definition linked :: "Topic \<Rightarrow> 'p conn \<Rightarrow> bool" where
  "linked t c \<longleftrightarrow>
     ledger t c = [] \<or>
     (\<exists>a b. ledger t c = [a ..< b] \<and> a < b \<and>
        (c_writer c = Stopped \<or> (\<exists>w. c_last c t = Some w \<and> b = Suc (unat w))))"

definition well_formed_ob :: "'p outbound \<Rightarrow> bool" where
  "well_formed_ob ob =
     (case ob_body ob of
        Single fr \<Rightarrow> ob_seq ob = 0 \<and> \<not> is_gap fr
      | Replay ms \<Rightarrow> ms \<noteq> [] \<and> list_all (\<lambda>m. m_Seq m \<noteq> 0) ms)"

definition live_ob :: "'p outbound \<Rightarrow> bool" where
  "live_ob ob = (case ob_body ob of Single (Src _) \<Rightarrow> True | _ \<Rightarrow> False)"

definition formed :: "Topic \<Rightarrow> 'p conn \<Rightarrow> bool" where
  "formed t c \<longleftrightarrow>
     (\<forall>ob \<in> set (c_lossless c). ob_topic ob = t \<longrightarrow> well_formed_ob ob) \<and>
     (\<forall>ob \<in> set (c_lossy c). live_ob ob) \<and>
     (\<forall>t'. \<forall>ob \<in> set (in_hand (c_pushing c t')). live_ob ob \<and> ob_topic ob = t')"

definition lossy_inv :: "bool \<Rightarrow> 64 word \<Rightarrow> bool \<Rightarrow> nat \<Rightarrow> Topic \<Rightarrow> 'p conn \<Rightarrow> bool" where
  "lossy_inv own h fresh n t c \<longleftrightarrow>
     increasing t c \<and> settled fresh t c \<and> topped own h n t c \<and> linked t c \<and> formed t c"

subsection \<open>Actions that only lose numbers of the topic\<close>

definition shrinks :: "Topic \<Rightarrow> 'p conn \<Rightarrow> 'p conn \<Rightarrow> bool" where
  "shrinks t c c' \<longleftrightarrow>
     subseq (on_the_way t c') (on_the_way t c) \<and> ledger t c' = ledger t c \<and> c_last c' t = c_last c t \<and>
     (c_writer c = Stopped \<longrightarrow> c_writer c' = Stopped) \<and>
     length (replays t (c_lossless c')) \<le> length (replays t (c_lossless c)) \<and>
     (c_subs c' t = c_subs c t \<or> c_subs c' t = None)"

lemma shrinks_refl: "shrinks t c c"
  by (simp add: shrinks_def)

lemma shrinks_trans: "shrinks t a b \<Longrightarrow> shrinks t b c \<Longrightarrow> shrinks t a c"
  unfolding shrinks_def by (elim conjE, intro conjI) (auto intro: subseq_order.trans)

lemma subseq_set: "subseq xs ys \<Longrightarrow> x \<in> set xs \<Longrightarrow> x \<in> set ys"
  by (metis notin_set_nthsI subseq_conv_nths)

lemma sorted_subseq: "subseq xs ys \<Longrightarrow> sorted_wrt P ys \<Longrightarrow> sorted_wrt P xs"
  by (induction rule: list_emb.induct) (auto dest: subseq_set)

lemma upper_mono: "h \<le> h' \<Longrightarrow> upper own h sub \<le> upper own h' sub"
  by (auto simp: upper_def max_def)

lemma shrinks_settled:
  assumes s: "shrinks t c c'" and set: "settled fresh t c" and f: "fresh' \<longrightarrow> fresh"
  shows "settled fresh' t c'"
proof -
  have u: "untouched t c'" if "untouched t c"
    using s that by (auto simp: shrinks_def untouched_def)
  have subs: "c_subs c' t = c_subs c t \<or> c_subs c' t = None" using s by (simp add: shrinks_def)
  have "c_subs c' t = None \<and> untouched t c'" if fresh'
    using that f set subs u by (auto simp: settled_def)
  moreover have "untouched t c'" if "c_subs c' t = Some sub" "\<not> sub_opened sub" for sub
    using that set subs u [unfolded atomize_imp] unfolding settled_def by (metis option.distinct(1))
  moreover have "one_replay t c'"
    using s set by (auto simp: shrinks_def settled_def one_replay_def)
  ultimately show ?thesis by (simp add: settled_def)
qed

lemma shrinks_inv:
  assumes "shrinks t c c'" and "lossy_inv own h fresh n t c" and "formed t c'" and "h \<le> h'" and "n \<le> n'"
    and "fresh' \<longrightarrow> fresh"
  shows "lossy_inv own h' fresh' n' t c'"
proof -
  have sub: "subseq (on_the_way t c') (on_the_way t c)" and led: "ledger t c' = ledger t c"
    and subs: "c_subs c' t = c_subs c t \<or> c_subs c' t = None"
    using assms(1) by (simp_all add: shrinks_def)
  have "increasing t c'"
    using assms(2) sorted_subseq [OF sub] subseq_set [OF sub] unfolding lossy_inv_def increasing_def by blast
  moreover have "settled fresh' t c'"
    using shrinks_settled [OF assms(1) _ assms(6)] assms(2) by (simp add: lossy_inv_def)
  moreover have "topped own h' n' t c'"
    using assms(2) subs subseq_set [OF sub] upper_mono [OF assms(4)] assms(5)
    unfolding lossy_inv_def topped_def by (metis option.distinct(1) order.trans)
  moreover have "linked t c'"
    using assms(1,2) unfolding lossy_inv_def linked_def shrinks_def by metis
  ultimately show ?thesis using assms(3) by (simp add: lossy_inv_def)
qed

subsection \<open>The numbers of one topic after each operation\<close>

lemma queued_simps [simp]:
  "queued t [] = []"
  "queued t (ob # obs) = (if ob_topic ob = t then ob_seq ob # queued t obs else queued t obs)"
  "queued t (xs @ ys) = queued t xs @ queued t ys"
  by (simp_all add: queued_def)

lemma replays_simps [simp]:
  "replays t [] = []"
  "replays t (xs @ ys) = replays t xs @ replays t ys"
  "ob_topic ob \<noteq> t \<Longrightarrow> replays t (ob # obs) = replays t obs"
  "ob_body ob = Single fr \<Longrightarrow> replays t (ob # obs) = replays t obs"
  "ob_body ob = Replay ms \<Longrightarrow> ob_topic ob = t \<Longrightarrow> replays t (ob # obs) = last_seq ms # replays t obs"
  by (auto simp: replays_def split: body.split)

lemma ledger_wire [simp]:
  "ledger t (c\<lparr>c_lossy := q\<rparr>) = ledger t c"
  "ledger t (c\<lparr>c_lossless := q\<rparr>) = ledger t c"
  "ledger t (c\<lparr>c_closed := d\<rparr>) = ledger t c"
  "ledger t (c\<lparr>c_subs := x\<rparr>) = ledger t c"
  "ledger t (c\<lparr>c_stuckSince := since\<rparr>) = ledger t c"
  "ledger t (c\<lparr>c_pushing := p\<rparr>) = ledger t c"
  "ledger t (c\<lparr>c_writer := w\<rparr>) = ledger t c"
  "ledger t (c\<lparr>c_offered := obs\<rparr>) = ledger t c"
  by (simp_all add: ledger_def)

lemma pushLossless_shrinks:
  assumes "ob_topic ob = t \<longrightarrow> (\<exists>fr. ob_body ob = Single fr)"
  shows "shrinks t c (snd (pushLossless ob pick c))"
  using assms by (cases "ob_topic ob = t") (auto simp: shrinks_def on_the_way_def conn_defs)

lemma pushLossless_formed:
  assumes "ob_topic ob = t \<longrightarrow> well_formed_ob ob" and "formed t c"
  shows "formed t (snd (pushLossless ob pick c))"
  using assms by (auto simp: formed_def conn_defs)

lemma push_other:
  assumes "t' \<noteq> t"
  shows "shrinks t c (push t' sq p pick now c)"
  using assms by (auto simp: shrinks_def on_the_way_def conn_defs split: option.split bool.split)

lemma push_formed:
  assumes "formed t c" and "topic_Class t' = Lossless \<longrightarrow> t' \<noteq> t"
  shows "formed t (push t' sq p pick now c)"
  using assms by (auto simp: formed_def conn_defs live_ob_def split: option.split bool.split)

lemma subseq_tl: "subseq (tl xs) xs"
  by (cases xs) auto

lemma queued_tl: "subseq (queued t (tl q)) (queued t q)"
  by (cases q) auto

lemma push_drop_oldest_shrinks: "shrinks t c (push_drop_oldest t' c)"
  using queued_tl [of t "c_lossy c"]
  by (auto simp: shrinks_def on_the_way_def push_drop_oldest_def list_emb_append_mono subseq_order.order_refl
      split: pushing.split intro!: list_emb_append_mono)

lemma push_again_shrinks:
  assumes "formed t c"
  shows "shrinks t c (push_again t' c)"
proof (cases "c_pushing c t'")
  case (Vacated ob)
  then have "ob_topic ob = t'" using assms by (auto simp: formed_def dest: spec [of _ t'])
  with Vacated show ?thesis
    by (auto simp: shrinks_def on_the_way_def push_again_def Let_def intro!: list_emb_append_mono)
qed (simp_all add: push_again_def shrinks_refl)

lemma in_hand_formed: "formed t c \<Longrightarrow> ob \<in> set (in_hand (c_pushing c t')) \<Longrightarrow> live_ob ob \<and> ob_topic ob = t'"
  unfolding formed_def by blast

lemma push_drop_oldest_formed:
  assumes "formed t c"
  shows "formed t (push_drop_oldest t' c)"
proof (cases "c_pushing c t'")
  case (Blocked ob)
  with in_hand_formed [OF assms, of ob t'] have ob: "live_ob ob \<and> ob_topic ob = t'" by simp
  have "x \<in> set (c_lossy c)" if "x \<in> set (tl (c_lossy c))" for x
    using that by (cases "c_lossy c") simp_all
  with ob Blocked assms show ?thesis by (simp add: formed_def push_drop_oldest_def)
qed (use assms in \<open>simp_all add: push_drop_oldest_def\<close>)

lemma push_again_formed:
  assumes "formed t c"
  shows "formed t (push_again t' c)"
proof (cases "c_pushing c t'")
  case (Vacated ob)
  with in_hand_formed [OF assms, of ob t'] have "live_ob ob" by simp
  with Vacated assms show ?thesis by (auto simp: formed_def push_again_def Let_def)
qed (use assms in \<open>simp_all add: push_again_def\<close>)

subsection \<open>Gap notices\<close>

lemma small_unat: "x \<le> MaxInt32 \<longleftrightarrow> unat x \<le> 2147483647"
  by (simp add: MaxInt32_def word_le_nat_alt)

lemma small_Suc: "w \<le> MaxInt32 \<Longrightarrow> unat (w + 1) = Suc (unat w)"
  by (simp add: small_unat unat_word_ariths)

lemma small_sint:
  assumes "x \<le> MaxInt32"
  shows "nat (sint x) = unat x"
proof -
  have u: "uint x \<le> 2147483647" using assms by (simp add: MaxInt32_def word_le_def)
  have lo: "- (2 ^ 63) \<le> uint x" by (rule order_trans [of _ 0]) simp_all
  have hi: "uint x < 2 ^ 63" by (rule order.strict_trans1 [OF u]) simp
  have "signed_take_bit 63 (uint x) = uint x" by (rule signed_take_bit_int_eq_self [OF lo hi])
  then have "sint x = uint x" unfolding sint_uint by simp
  then show ?thesis by (simp only: unat_eq_nat_uint)
qed

lemma gap_unat:
  assumes "w < s" and "s \<le> MaxInt32"
  shows "unat (s - w - 1) = unat s - Suc (unat w)" and "s - w - 1 \<le> MaxInt32"
    and "s \<le> w + 1 \<longleftrightarrow> unat s = Suc (unat w)"
proof -
  have "unat w < unat s" using assms(1) by (simp add: word_less_nat_alt)
  have 1: "unat (s - w) = unat s - unat w" using assms(1) by (simp add: unat_sub)
  have "1 \<le> s - w" using assms(1) 1 \<open>unat w < unat s\<close> by (simp add: word_le_nat_alt)
  then have "unat (s - w - 1) = unat (s - w) - unat (1 :: 64 word)" by (rule unat_sub)
  with 1 show 2: "unat (s - w - 1) = unat s - Suc (unat w)" by simp
  then show "s - w - 1 \<le> MaxInt32" using assms(2) unfolding small_unat by linarith
  have "unat (w + 1) = Suc (unat w)" using assms by (intro small_Suc) simp
  with \<open>unat w < unat s\<close> show "s \<le> w + 1 \<longleftrightarrow> unat s = Suc (unat w)" unfolding word_le_nat_alt by linarith
qed

lemma gapBefore_Some:
  assumes "lst (ob_topic ob) = Some w" and "w < ob_seq ob" and "ob_seq ob \<le> MaxInt32"
  shows "concat (map (frame_seqs ob) (snd (gapBefore lst ob))) = [Suc (unat w) ..< unat (ob_seq ob)]"
proof -
  have "ob_seq ob \<noteq> 0" using assms(2) by (metis word_not_simps(1))
  moreover have "unat w < unat (ob_seq ob)" using assms(2) by (simp add: word_less_nat_alt)
  moreover have "unat (w + 1) = Suc (unat w)" using assms(2,3) by (intro small_Suc) simp
  ultimately show ?thesis
    using assms gap_unat [OF assms(2,3)] small_sint [of "ob_seq ob - w - 1"]
    by (auto simp: gapBefore_def Let_def frame_seqs_def simp del: upt_Suc)
qed

definition run_start :: "64 word option \<Rightarrow> 64 word \<Rightarrow> nat" where
  "run_start lst s = (case lst of None \<Rightarrow> unat s | Some w \<Rightarrow> Suc (unat w))"

text \<open>The numbers of a live message and of the gap before it, as far as the socket took them.\<close>

lemma written_seqs:
  assumes "live_ob ob" and "ob_seq ob \<noteq> 0" and "ob_seq ob \<le> MaxInt32"
    and "\<And>w. c_last c (ob_topic ob) = Some w \<Longrightarrow> w < ob_seq ob" and "c_subs c (ob_topic ob) \<noteq> None"
  obtains b where "concat (map (frame_seqs ob) (take ok (snd (writeFrame c ob)))) =
      [run_start (c_last c (ob_topic ob)) (ob_seq ob) ..< b]"
    and "run_start (c_last c (ob_topic ob)) (ob_seq ob) \<le> b"
    and "length (snd (writeFrame c ob)) \<le> ok \<Longrightarrow> b = Suc (unat (ob_seq ob))"
proof -
  obtain p where body: "ob_body ob = Single (Src p)"
    using assms(1) by (auto simp: live_ob_def split: body.splits ws_frame.splits)
  let ?g = "snd (gapBefore (c_last c) ob)" and ?a = "run_start (c_last c (ob_topic ob)) (ob_seq ob)"
  have frames: "snd (writeFrame c ob) = ?g @ [Src p]"
    using body assms(5) by (auto simp: writeFrame_def split: prod.split)
  have le: "?a \<le> unat (ob_seq ob)"
    using assms(4) by (auto simp: run_start_def word_less_nat_alt split: option.split)
  have g: "concat (map (frame_seqs ob) ?g) = [?a ..< unat (ob_seq ob)]" and one: "length ?g \<le> 1"
    using assms(2-4) gapBefore_Some [of "c_last c" ob]
    by (auto simp: run_start_def gapBefore_def Let_def split: option.split)
  have p: "frame_seqs ob (Src p) = [unat (ob_seq ob)]"
    using assms(2) by (simp add: frame_seqs_def)
  consider "length (?g @ [Src p]) \<le> ok" | "take ok (?g @ [Src p]) = ?g" "ok = length ?g" | "take ok (?g @ [Src p]) = []" "ok = 0"
    using one by (cases "ok = 0"; cases "ok = length ?g") auto
  then show thesis
  proof cases
    case 1
    with g p le show thesis
      by (intro that [of "Suc (unat (ob_seq ob))"]) (simp_all add: frames)
  next
    case 2
    with g le show thesis by (intro that [of "unat (ob_seq ob)"]) (simp_all add: frames)
  next
    case 3
    then show thesis by (intro that [of ?a]) (simp_all add: frames)
  qed
qed

subsection \<open>The writer\<close>

lemma writeFrame_last_other: "ob_topic ob \<noteq> t \<Longrightarrow> fst (writeFrame c ob) t = c_last c t"
proof -
  assume "ob_topic ob \<noteq> t"
  then have "replay_last (ob_topic ob) ms lst t = lst t" for ms :: "'a Message list" and lst
    unfolding replay_last_def by (induction ms arbitrary: lst) auto
  with \<open>ob_topic ob \<noteq> t\<close> show ?thesis
    by (auto simp: writeFrame_def gapBefore_def Let_def split: body.split prod.split option.split)
qed

lemma replay_last_end:
  "ms \<noteq> [] \<Longrightarrow> list_all (\<lambda>m. m_Seq m \<noteq> 0) ms \<Longrightarrow> replay_last t ms lst t = Some (last_seq ms)"
  by (induction ms rule: rev_induct) (auto simp: replay_last_def last_seq_def)

lemma writeFrame_dropped:
  "topic_Class (ob_topic ob) = Lossy \<Longrightarrow> ob_topic ob \<noteq> zero_Topic \<Longrightarrow> c_subs c (ob_topic ob) = None \<Longrightarrow>
     writeFrame c ob = (c_last c, [])"
  by (simp add: writeFrame_def)

lemma ledger_write_item:
  "ledger t (write_item q ob ok c) = ledger t c @ entry_seqs t (q, ob, take ok (snd (writeFrame c ob)))"
  by (simp add: ledger_def)

lemma write_item_writer:
  "c_writer (write_item q ob ok c) = (if length (snd (writeFrame c ob)) \<le> ok then Polling else Stopped)"
  by (auto simp: write_item_def Let_def split: prod.split)

lemma formed_take:
  "formed t c \<Longrightarrow> c_lossy c = ob # q \<Longrightarrow> formed t (write_item x ob' ok (c\<lparr>c_lossy := q\<rparr>))"
  "formed t c \<Longrightarrow> c_lossless c = ob # q \<Longrightarrow> formed t (write_item x ob' ok (c\<lparr>c_lossless := q\<rparr>))"
  by (simp_all add: formed_def)

lemma linked_extend:
  assumes led: "ledger t c' = ledger t c @ [a ..< b]" and "a \<le> b"
    and c: "ledger t c = [] \<or> (\<exists>a0. ledger t c = [a0 ..< a] \<and> a0 < a)"
    and end': "c_writer c' = Stopped \<or> (\<exists>w. c_last c' t = Some w \<and> b = Suc (unat w))"
  shows "linked t c'"
proof -
  have "ledger t c' = [] \<or> (\<exists>a0. ledger t c' = [a0 ..< b] \<and> a0 < b)"
  proof (cases "ledger t c = []")
    case True
    then show ?thesis using led \<open>a \<le> b\<close> by (cases "a = b") auto
  next
    case False
    then obtain a0 where "ledger t c = [a0 ..< a]" "a0 < a" using c by blast
    moreover have "[a0 ..< a] @ [a ..< b] = [a0 ..< b]"
      using \<open>a0 < a\<close> \<open>a \<le> b\<close> upt_add_eq_append [of a0 a "b - a"] by simp
    ultimately show ?thesis using led \<open>a \<le> b\<close> by (intro disjI2 exI [of _ a0]) simp
  qed
  with end' show ?thesis unfolding linked_def by blast
qed

lemma write_live_linked:
  assumes inv: "lossy_inv own h fresh n t c" and "c_writer c \<noteq> Stopped"
    and q: "c_lossy c = ob # q" "replays t (c_lossless c) = []" and ob: "ob_topic ob = t" "c_subs c t \<noteq> None"
  shows "linked t (write_item Lossy ob ok (c\<lparr>c_lossy := q\<rparr>))"
    and "c_last (write_item Lossy ob ok (c\<lparr>c_lossy := q\<rparr>)) t = Some (ob_seq ob)"
proof -
  let ?c = "c\<lparr>c_lossy := q\<rparr>" and ?s = "ob_seq ob"
  let ?a = "run_start (c_last c t) ?s"
  have live: "live_ob ob" using inv q by (simp add: lossy_inv_def formed_def)
  have way: "on_the_way t c = (case c_last c t of None \<Rightarrow> [] | Some w \<Rightarrow> [w]) @ ?s # queued t q @ queued t (in_hand (c_pushing c t))"
    using q ob by (simp add: on_the_way_def)
  then have s: "?s \<noteq> 0" "?s \<le> MaxInt32" using inv by (auto simp: lossy_inv_def increasing_def)
  have lt: "w < ?s" if "c_last c t = Some w" for w
    using inv way that by (simp add: lossy_inv_def increasing_def)
  show l: "c_last (write_item Lossy ob ok ?c) t = Some ?s"
    using ob live s by (auto simp: writeFrame_def gapBefore_def Let_def live_ob_def split: body.splits option.split ws_frame.splits)
  obtain b where b: "concat (map (frame_seqs ob) (take ok (snd (writeFrame ?c ob)))) = [?a ..< b]"
    "?a \<le> b" "length (snd (writeFrame ?c ob)) \<le> ok \<Longrightarrow> b = Suc (unat ?s)"
    using written_seqs [OF live s, of ?c ok] ob lt by auto
  have "ledger t (write_item Lossy ob ok ?c) = ledger t c @ [?a ..< b]"
    using ob live b(1) by (auto simp: ledger_write_item entry_seqs_def live_ob_def split: body.split)
  moreover have "ledger t c = [] \<or> (\<exists>a0. ledger t c = [a0 ..< ?a] \<and> a0 < ?a)"
    using inv assms(2) by (auto simp: lossy_inv_def linked_def run_start_def simp del: upt_Suc)
  moreover have "c_writer (write_item Lossy ob ok ?c) = Stopped \<or>
      (\<exists>w. c_last (write_item Lossy ob ok ?c) t = Some w \<and> b = Suc (unat w))"
    using b(3) l by (auto simp: write_item_writer)
  ultimately show "linked t (write_item Lossy ob ok ?c)" using b(2) linked_extend by blast
qed

lemma take_lossy_inv:
  assumes inv: "lossy_inv own h fresh n t c" and "c_writer c \<noteq> Stopped" and r: "replays t (c_lossless c) = []"
    and t: "topic_Class t = Lossy" "t \<noteq> zero_Topic"
  shows "lossy_inv own h fresh n t (take_lossy ok c)"
proof (cases "c_lossy c")
  case Nil
  then show ?thesis using inv by (simp add: take_lossy_def)
next
  case (Cons ob q)
  let ?c = "c\<lparr>c_lossy := q\<rparr>"
  let ?c' = "write_item Lossy ob ok ?c"
  have eq: "take_lossy ok c = ?c'" using Cons by (simp add: take_lossy_def)
  have form: "formed t ?c'" using inv Cons formed_take(1) unfolding lossy_inv_def by blast
  show ?thesis
  proof (cases "ob_topic ob = t \<and> c_subs c t \<noteq> None")
    case False
    have "c_last ?c' t = c_last c t"
      using False writeFrame_last_other [of ob t ?c] writeFrame_dropped [of ob ?c] t by (cases "ob_topic ob = t") auto
    moreover have "entry_seqs t (Lossy, ob, take ok (snd (writeFrame ?c ob))) = []"
      using False writeFrame_dropped [of ob ?c] t by (cases "ob_topic ob = t") (auto simp: entry_seqs_def split: body.split)
    ultimately have "shrinks t c ?c'"
      using Cons assms(2) by (auto simp: shrinks_def on_the_way_def ledger_write_item intro!: list_emb_append_mono)
    then show ?thesis unfolding eq using inv form by (rule shrinks_inv) simp_all
  next
    case True
    then have ob: "ob_topic ob = t" "c_subs c t \<noteq> None" by simp_all
    note written = write_live_linked [OF inv assms(2) Cons r ob, of ok]
    have "subseq (on_the_way t ?c') (on_the_way t c)"
      using written(2) Cons ob r by (simp add: on_the_way_def list_emb_append2)
    note sub = this and subset = subseq_set [OF this]
    have "settled fresh t ?c'"
      using inv Cons ob r by (auto simp: lossy_inv_def settled_def untouched_def on_the_way_def one_replay_def)
    moreover have "increasing t ?c'"
      using inv sorted_subseq [OF sub] subset unfolding lossy_inv_def increasing_def by blast
    moreover have "topped own h n t ?c'"
      using inv subset unfolding lossy_inv_def topped_def by simp
    ultimately show ?thesis unfolding eq using form written(1) by (simp add: lossy_inv_def)
  qed
qed

lemma replay_linked:
  assumes inv: "lossy_inv own h fresh n t c" and q: "c_lossless c = ob # q"
    and ob: "ob_body ob = Replay ms" "ob_topic ob = t" "c_subs c t \<noteq> None" and wf: "well_formed_ob ob"
  shows "linked t (write_item Lossless ob ok (c\<lparr>c_lossless := q\<rparr>))"
proof -
  let ?c' = "write_item Lossless ob ok (c\<lparr>c_lossless := q\<rparr>)"
  have ms: "ms \<noteq> []" and frames: "snd (writeFrame (c\<lparr>c_lossless := q\<rparr>) ob) = map (Src \<circ> m_Payload) ms"
    and l: "c_last ?c' t = Some (last_seq ms)"
    using ob wf by (auto simp: writeFrame_def well_formed_ob_def replay_last_end)
  have led: "ledger t ?c' = (if length ms \<le> ok then [unat (last_seq ms)] else [])"
    using inv q ob ms by (auto simp: lossy_inv_def settled_def one_replay_def ledger_write_item entry_seqs_def frames)
  show ?thesis
  proof (cases "length ms \<le> ok")
    case True
    then have "ledger t ?c' = [unat (last_seq ms) ..< Suc (unat (last_seq ms))]" using led by simp
    then show ?thesis using l unfolding linked_def by blast
  qed (use led in \<open>simp add: linked_def\<close>)
qed

lemma take_lossless_inv:
  assumes inv: "lossy_inv own h fresh n t c" and w: "c_writer c \<noteq> Stopped"
    and t: "topic_Class t = Lossy" "t \<noteq> zero_Topic"
  shows "lossy_inv own h fresh n t (take_lossless ok c)"
proof (cases "c_lossless c")
  case Nil
  then show ?thesis using inv by (simp add: take_lossless_def)
next
  case (Cons ob q)
  let ?c = "c\<lparr>c_lossless := q\<rparr>"
  let ?c' = "write_item Lossless ob ok ?c"
  have eq: "take_lossless ok c = ?c'" using Cons by (simp add: take_lossless_def)
  have form: "formed t ?c'" using inv Cons formed_take(2) unfolding lossy_inv_def by blast
  have wf: "well_formed_ob ob" if "ob_topic ob = t" using inv Cons that by (simp add: lossy_inv_def formed_def)
  show ?thesis
  proof (cases "\<exists>ms. ob_body ob = Replay ms \<and> ob_topic ob = t \<and> c_subs c t \<noteq> None")
    case False
    have "c_last ?c' t = c_last c t"
      using False writeFrame_last_other [of ob t ?c] writeFrame_dropped [of ob ?c] t wf
      by (cases "ob_topic ob = t")
        (auto simp: writeFrame_def gapBefore_def well_formed_ob_def split: body.splits)
    moreover have "entry_seqs t (Lossless, ob, take ok (snd (writeFrame ?c ob))) = []"
      using False wf t by (auto simp: entry_seqs_def writeFrame_def gapBefore_def well_formed_ob_def frame_seqs_def
          take_Cons split: body.split ws_frame.split nat.split)
    moreover have "subseq (replays t q) (replays t (ob # q))"
      by (cases "ob_body ob"; cases "ob_topic ob = t") auto
    ultimately have "shrinks t c ?c'"
      using Cons w list_emb_length [of "(=)" "replays t q" "replays t (ob # q)"]
      by (auto simp: shrinks_def on_the_way_def ledger_write_item intro!: list_emb_append_mono)
    then show ?thesis unfolding eq using inv form by (rule shrinks_inv) simp_all
  next
    case True
    then obtain ms where ob: "ob_body ob = Replay ms" "ob_topic ob = t" "c_subs c t \<noteq> None" by blast
    then have l: "c_last ?c' t = Some (last_seq ms)"
      using wf by (auto simp: writeFrame_def well_formed_ob_def replay_last_end)
    have "subseq (on_the_way t ?c') (on_the_way t c)"
      using l Cons ob by (simp add: on_the_way_def list_emb_append2)
    note sub = this and subset = subseq_set [OF this]
    have q: "replays t q = []" using inv Cons ob by (simp add: lossy_inv_def settled_def one_replay_def)
    have "settled fresh t ?c'"
      using inv Cons ob q by (auto simp: lossy_inv_def settled_def untouched_def on_the_way_def one_replay_def)
    moreover have "linked t ?c'"
      using replay_linked [OF inv Cons ob wf [OF ob(2)]] .
    moreover have "increasing t ?c'"
      using inv sorted_subseq [OF sub] subset unfolding lossy_inv_def increasing_def by blast
    moreover have "topped own h n t ?c'"
      using inv subset unfolding lossy_inv_def topped_def by simp
    ultimately show ?thesis unfolding eq using form by (simp add: lossy_inv_def)
  qed
qed

subsection \<open>Sources and subscriptions\<close>

lemma push_own:
  assumes "topic_Class t = Lossy" and "c_pushing c t = Ready"
  shows "on_the_way t (push t s p pick now c) \<in> {on_the_way t c, on_the_way t c @ [s]}"
    and "ledger t (push t s p pick now c) = ledger t c" and "c_last (push t s p pick now c) = c_last c"
    and "c_writer (push t s p pick now c) = c_writer c" and "c_lossless (push t s p pick now c) = c_lossless c"
  using assms by (auto simp: on_the_way_def conn_defs split: option.split bool.split)

lemma push_inv:
  assumes inv: "increasing t c" "linked t c" "formed t c" "one_replay t c"
    and t: "topic_Class t = Lossy" "c_pushing c t = Ready"
    and sub: "c_subs c t = Some sub" "sub_opened sub"
    and s: "0 < s" "s \<le> MaxInt32" "\<forall>x \<in> set (on_the_way t c). x < s" "s \<le> upper own h sub"
    and n: "\<not> own \<longrightarrow> unat (sub_nextSeq sub) \<le> n"
  shows "lossy_inv own h False n t (push t s p pick now c)"
proof -
  let ?c = "push t s p pick now c"
  note push = push_own [OF t, of s p pick now]
  have "increasing t ?c"
    using push(1) inv(1) s by (auto simp: increasing_def sorted_wrt_append)
  moreover have "settled False t ?c"
    using inv(4) sub push by (simp add: settled_def one_replay_def)
  moreover have "x \<le> upper own h sub" if "x \<in> set (on_the_way t ?c)" for x
  proof -
    have "x < s \<or> x = s" using that push(1) s(3) by auto
    then show ?thesis using s(4) by auto
  qed
  then have "topped own h n t ?c" using sub n by (simp add: topped_def)
  moreover have "linked t ?c" using inv(2) push by (simp add: linked_def)
  moreover have "formed t ?c" using inv(3) t by (intro push_formed) simp_all
  ultimately show ?thesis by (simp add: lossy_inv_def)
qed

lemma inv_not_fresh: "lossy_inv own h fresh n t c \<Longrightarrow> c_subs c t = Some sub \<Longrightarrow> \<not> fresh"
  by (auto simp: lossy_inv_def settled_def)

lemma inv_mono: "lossy_inv own h fresh n t c \<Longrightarrow> h \<le> h' \<Longrightarrow> n \<le> n' \<Longrightarrow> lossy_inv own h' fresh n' t c"
  using shrinks_inv [OF shrinks_refl] by (metis lossy_inv_def)

text \<open>A message that is neither held up nor part of the replay.\<close>

definition accepts :: "Topic \<Rightarrow> 'p Message \<Rightarrow> 'p conn \<Rightarrow> subscription \<Rightarrow> bool" where
  "accepts t m c sub \<longleftrightarrow>
     c_subs c t = Some sub \<and> sub_opened sub \<and> c_pushing c t = Ready \<and> \<not> (m_Seq m \<noteq> 0 \<and> m_Seq m \<le> sub_replayed sub)"

lemma accepts_inv:
  assumes "lossy_inv own h fresh n t c" and "accepts t m c sub"
  shows "\<not> fresh" and "c_subs c t = Some sub" and "sub_opened sub" and "c_pushing c t = Ready"
    and "increasing t c" and "linked t c" and "formed t c"
    and "one_replay t c"
    and "\<forall>x \<in> set (on_the_way t c). x \<le> upper own h sub" and "\<not> own \<longrightarrow> unat (sub_nextSeq sub) \<le> n"
  using assms by (auto simp: accepts_def lossy_inv_def settled_def topped_def)

lemma sendLive_numbered_inv:
  assumes inv: "lossy_inv True h fresh n t c" and t: "topic_Class t = Lossy" and a: "accepts t m c sub"
    and m: "h < m_Seq m" "m_Seq m \<le> MaxInt32"
  shows "lossy_inv True (m_Seq m) fresh (Suc n) t (sendLive t m pick now c)"
proof -
  note p = accepts_inv [OF inv a]
  have s: "0 < m_Seq m" using m(1) by (rule le_less_trans [rotated]) simp
  then have eq: "sendLive t m pick now c = push t (m_Seq m) (m_Payload m) pick now c"
    using a by (auto simp: sendLive_def accepts_def)
  have "upper True h sub < m_Seq m" using a m(1) s by (auto simp: upper_def accepts_def)
  then have "\<forall>x \<in> set (on_the_way t c). x < m_Seq m" using p(9) by auto
  moreover have "m_Seq m \<le> upper True (m_Seq m) sub" by (simp add: upper_def)
  ultimately show ?thesis
    unfolding eq using push_inv [OF p(5-8) t p(4,2,3) s m(2)] p(1) by simp
qed

lemma sendLive_unnumbered_inv:
  assumes inv: "lossy_inv False h fresh n t c" and t: "topic_Class t = Lossy" and a: "accepts t m c sub"
    and m: "m_Seq m = 0" and n: "n < 2147483647"
  shows "lossy_inv False h fresh (Suc n) t (sendLive t m pick now c)"
proof -
  note p = accepts_inv [OF inv a]
  let ?sub = "sub\<lparr>sub_nextSeq := sub_nextSeq sub + 1\<rparr>"
  let ?c = "c\<lparr>c_subs := (c_subs c)(t \<mapsto> ?sub)\<rparr>" and ?s = "sub_nextSeq sub + 1"
  have eq: "sendLive t m pick now c = push t ?s (m_Payload m) pick now ?c"
    using m a t by (simp add: sendLive_def Let_def accepts_def)
  have small: "unat (sub_nextSeq sub) < 2147483647" using p(10) n by simp
  then have u: "unat ?s = Suc (unat (sub_nextSeq sub))" by (intro small_Suc) (simp add: small_unat)
  then have s: "0 < ?s" "?s \<le> MaxInt32" "sub_nextSeq sub < ?s"
    using small by (auto simp: small_unat word_less_nat_alt)
  have c: "increasing t ?c" "linked t ?c" "formed t ?c" "one_replay t ?c"
    and way: "on_the_way t ?c = on_the_way t c"
    using p(5-8) by (simp_all add: increasing_def on_the_way_def linked_def formed_def one_replay_def)
  have "\<forall>x \<in> set (on_the_way t ?c). x < ?s"
    unfolding way using p(9) s(3) by (auto simp: upper_def intro: le_less_trans)
  moreover have "?s \<le> upper False h ?sub" by (simp add: upper_def)
  moreover have "\<not> False \<longrightarrow> unat (sub_nextSeq ?sub) \<le> Suc n" using u p(10) by simp
  ultimately show ?thesis
    unfolding eq using push_inv [OF c t _ _ _ s(1,2), of ?sub False h "Suc n"] p(1-4) by simp
qed

lemma sendLive_inv:
  assumes inv: "lossy_inv own h fresh n t c" and t: "topic_Class t = Lossy"
    and m: "if own then h < m_Seq m \<and> m_Seq m \<le> MaxInt32 else m_Seq m = 0" and n: "n < 2147483647"
  shows "lossy_inv own (if own then m_Seq m else h) fresh (Suc n) t (sendLive t m pick now c)"
proof (cases "\<exists>sub. accepts t m c sub")
  case False
  then have "sendLive t m pick now c = c" by (auto simp: sendLive_def accepts_def split: option.split)
  moreover have "h \<le> (if own then m_Seq m else h)" using m by (auto split: if_splits)
  ultimately show ?thesis using inv_mono [OF inv, of "if own then m_Seq m else h" "Suc n"] by simp
next
  case True
  then show ?thesis
    using sendLive_numbered_inv [of h fresh n t c m _ pick now] sendLive_unnumbered_inv [of h fresh n t c m _ pick now] inv t m n
    by (cases own) auto
qed

lemma last_seq_small:
  "list_all (\<lambda>m. 0 < m_Seq m \<and> m_Seq m \<le> MaxInt32) ms \<Longrightarrow> ms \<noteq> [] \<Longrightarrow> 0 < last_seq ms \<and> last_seq ms \<le> MaxInt32"
  by (auto simp: last_seq_def list_all_iff)

text \<open>Opening the source queues the acknowledgement and then, if both fit, the replay.\<close>

lemma pushLossless_fields [simp]:
  "c_subs (snd (pushLossless ob pick c)) = c_subs c"
  "c_last (snd (pushLossless ob pick c)) = c_last c"
  "c_writer (snd (pushLossless ob pick c)) = c_writer c"
  "c_lossy (snd (pushLossless ob pick c)) = c_lossy c"
  "c_pushing (snd (pushLossless ob pick c)) = c_pushing c"
  "ledger t (snd (pushLossless ob pick c)) = ledger t c"
  by (simp_all add: conn_defs)

lemma pushLossless_queue:
  "c_lossless (snd (pushLossless ob pick c)) \<in> {c_lossless c, c_lossless c @ [ob]}"
  by (simp add: conn_defs)

lemma untouched_inv:
  assumes "untouched t c" and "formed t c" and sub: "c_subs c t = Some sub" "\<not> own \<longrightarrow> unat (sub_nextSeq sub) \<le> n"
  shows "lossy_inv own h False n t c"
  using assms
  by (simp add: lossy_inv_def untouched_def increasing_def settled_def one_replay_def on_the_way_def topped_def linked_def)

lemma replay_queued_inv:
  assumes u: "untouched t c" and f: "formed t c" and sub: "c_subs c t = Some sub" "sub_opened sub" "sub_replayed sub = last_seq ms"
    and ms: "ms \<noteq> []" "list_all (\<lambda>m. 0 < m_Seq m \<and> m_Seq m \<le> MaxInt32) ms"
  shows "lossy_inv True h False n t (snd (pushLossless \<lparr>ob_topic = t, ob_seq = 0, ob_body = Replay ms\<rparr> pick c))"
    (is "lossy_inv _ _ _ _ _ ?c")
proof -
  have "0 < last_seq ms" "last_seq ms \<le> MaxInt32" using last_seq_small ms by auto
  moreover have way: "on_the_way t ?c \<in> {[], [last_seq ms]}"
    using u pushLossless_queue [of "\<lparr>ob_topic = t, ob_seq = 0, ob_body = Replay ms\<rparr>" pick c]
    by (auto simp: untouched_def on_the_way_def split: option.splits)
  ultimately have "increasing t ?c" by (auto simp: increasing_def)
  moreover have "topped True h n t ?c" using way sub by (auto simp: topped_def upper_def)
  moreover have "one_replay t ?c"
    using u pushLossless_queue [of "\<lparr>ob_topic = t, ob_seq = 0, ob_body = Replay ms\<rparr>" pick c]
    by (auto simp: one_replay_def untouched_def on_the_way_def)
  then have "settled False t ?c" using sub by (simp add: settled_def)
  moreover have "linked t ?c" using u by (simp add: linked_def untouched_def)
  moreover have "formed t ?c"
    using f ms by (intro pushLossless_formed) (auto simp: well_formed_ob_def list_all_iff)
  ultimately show ?thesis by (simp add: lossy_inv_def)
qed

lemma pushLossless_untouched:
  assumes "untouched t c" and "ob_topic ob = t \<longrightarrow> (\<exists>fr. ob_body ob = Single fr)"
  shows "untouched t (snd (pushLossless ob pick c))"
  using assms pushLossless_shrinks [OF assms(2), of c pick] by (auto simp: untouched_def shrinks_def)

lemma open_source_inv:
  assumes inv: "lossy_inv own h fresh n t c" and t: "topic_Class t = Lossy"
    and ms: "if own then list_all (\<lambda>m. 0 < m_Seq m \<and> m_Seq m \<le> MaxInt32) ms else ms = []"
  shows "lossy_inv own h fresh n t (open_source t ms pick c)"
proof (cases "\<exists>sub. c_subs c t = Some sub \<and> \<not> sub_opened sub")
  case False
  then have "open_source t ms pick c = c" by (auto simp: open_source_def split: option.split)
  then show ?thesis using inv by simp
next
  case True
  then obtain sub where sub: "c_subs c t = Some sub" "\<not> sub_opened sub" by blast
  let ?sub = "sub\<lparr>sub_replayed := last_seq ms, sub_opened := True\<rparr>"
  let ?ack = "\<lparr>ob_topic = t, ob_seq = 0, ob_body = Single (SubscribedMsg (topic_String t) (last_seq ms))\<rparr>"
  let ?c = "snd (pushLossless ?ack pick (c\<lparr>c_subs := (c_subs c)(t \<mapsto> ?sub)\<rparr>))"
  have "t_kind t \<noteq> KindState" using t by (auto simp: topic_Class_def)
  then have eq: "open_source t ms pick c \<in> {?c, snd (pushLossless \<lparr>ob_topic = t, ob_seq = 0, ob_body = Replay ms\<rparr> pick ?c)}"
    and eq': "ms = [] \<Longrightarrow> open_source t ms pick c = ?c"
    using sub by (simp_all add: open_source_def Let_def snd_case_bool)
  have u: "untouched t c" and f: "formed t c" and fresh: "\<not> fresh" and n: "\<not> own \<longrightarrow> unat (sub_nextSeq ?sub) \<le> n"
    using inv sub inv_not_fresh [OF inv sub(1)] by (auto simp: lossy_inv_def settled_def topped_def)
  have "untouched t (c\<lparr>c_subs := x\<rparr>)" "formed t (c\<lparr>c_subs := x\<rparr>)" for x
    using u f by (simp_all add: untouched_def on_the_way_def formed_def)
  then have u': "untouched t ?c" and f': "formed t ?c"
    by (auto intro!: pushLossless_untouched pushLossless_formed simp: well_formed_ob_def)
  have sub': "c_subs ?c t = Some ?sub" by simp
  show ?thesis
  proof (cases "ms = []")
    case True
    then show ?thesis using untouched_inv [OF u' f' sub' n] eq' fresh by simp
  next
    case False
    then have own "list_all (\<lambda>m. 0 < m_Seq m \<and> m_Seq m \<le> MaxInt32) ms" using ms by (auto split: if_splits)
    then show ?thesis
      using eq fresh False untouched_inv [OF u' f' sub' n] replay_queued_inv [OF u' f' sub', of ms h n pick] by auto
  qed
qed

subsection \<open>Every action keeps the invariant\<close>

lemma shrinks_subs_other: "t' \<noteq> t \<Longrightarrow> shrinks t c (c\<lparr>c_subs := (c_subs c)(t' := x)\<rparr>)"
  by (simp add: shrinks_def on_the_way_def)

lemma formed_subs [simp]: "formed t (c\<lparr>c_subs := x\<rparr>) = formed t c"
  by (simp add: formed_def)

lemma sendLive_other:
  assumes "t' \<noteq> t"
  shows "shrinks t c (sendLive t' m pick now c)" and "formed t c \<Longrightarrow> formed t (sendLive t' m pick now c)"
  using assms push_other shrinks_refl shrinks_trans [OF shrinks_subs_other push_other]
  by (auto simp: sendLive_def Let_def split: option.split intro!: push_formed)

lemma pushLossless_other: "shrinks t c0 c \<Longrightarrow> ob_topic ob \<noteq> t \<Longrightarrow> shrinks t c0 (snd (pushLossless ob pick c))"
  using shrinks_trans [OF _ pushLossless_shrinks] by blast

lemma open_source_other:
  assumes "t' \<noteq> t"
  shows "shrinks t c (open_source t' ms pick c)" and "formed t c \<Longrightarrow> formed t (open_source t' ms pick c)"
  using assms
  by (auto simp: open_source_def Let_def snd_case_bool shrinks_refl split: option.split
      intro!: pushLossless_formed pushLossless_other shrinks_subs_other)

lemma drop_sub_shrinks: "shrinks t c (drop_sub t' c)"
  and drop_sub_formed: "formed t (drop_sub t' c) = formed t c"
  by (simp_all add: shrinks_def on_the_way_def drop_sub_def)

lemma register_inv:
  assumes "lossy_inv own h True n t c"
  shows "lossy_inv own h False n t (register t i c)"
proof -
  have "untouched t (register t i c)" "formed t (register t i c)"
    using assms by (simp_all add: lossy_inv_def settled_def register_def untouched_def on_the_way_def)
  moreover have "c_subs (register t i c) t = Some \<lparr>sub_instanceID = i, sub_replayed = 0, sub_nextSeq = 0, sub_opened = False\<rparr>"
    by (simp add: register_def)
  ultimately show ?thesis by (rule untouched_inv) simp
qed

lemma deliver_state:
  assumes "topic_Class t = Lossy"
  shows "shrinks t c (deliver (StateTopic i) m pick now c)" and "formed t c \<Longrightarrow> formed t (deliver (StateTopic i) m pick now c)"
proof -
  have "StateTopic i \<noteq> t" using assms by (auto simp: StateTopic_def topic_Class_def)
  then show "shrinks t c (deliver (StateTopic i) m pick now c)" "formed t c \<Longrightarrow> formed t (deliver (StateTopic i) m pick now c)"
    using push_other shrinks_refl by (auto simp: deliver_def intro!: push_formed)
qed

lemma deliverRaw_other:
  assumes "t \<noteq> zero_Topic"
  shows "shrinks t c (deliverRaw fr pick c)" and "formed t c \<Longrightarrow> formed t (deliverRaw fr pick c)"
  using assms by (auto simp: deliverRaw_def Let_def shrinks_def on_the_way_def formed_def)

lemma close_shrinks: "shrinks t c (close code c)" and close_formed: "formed t c \<Longrightarrow> formed t (close code c)"
  by (auto simp: close_def shrinks_def on_the_way_def formed_def)

lemma writer_state_shrinks: "c_writer c \<noteq> Stopped \<Longrightarrow> shrinks t c (c\<lparr>c_writer := w\<rparr>)"
  and writer_state_formed: "formed t (c\<lparr>c_writer := w\<rparr>) = formed t c"
  by (auto simp: shrinks_def on_the_way_def formed_def)

lemma writer_inv:
  assumes inv: "lossy_inv own h fresh n t c" and t: "topic_Class t = Lossy" "t \<noteq> zero_Topic"
  shows "lossy_inv own h fresh n t (writer_poll ok c)"
    and "r = FromLossy \<longrightarrow> replays t (c_lossless c) = [] \<Longrightarrow> lossy_inv own h fresh n t (writer_wait r ok c)"
proof -
  have go: "lossy_inv own h fresh n t (c\<lparr>c_writer := w\<rparr>)" if "c_writer c \<noteq> Stopped" for w
    using shrinks_inv [OF writer_state_shrinks [OF that] inv, where h' = h and n' = n and fresh' = fresh] inv
    by (simp add: writer_state_formed lossy_inv_def)
  show "lossy_inv own h fresh n t (writer_poll ok c)"
    using inv go take_lossless_inv [OF inv _ t] by (auto simp: writer_poll_def)
  show "lossy_inv own h fresh n t (writer_wait r ok c)" if "r = FromLossy \<longrightarrow> replays t (c_lossless c) = []"
    using that inv go take_lossless_inv [OF inv _ t] take_lossy_inv [OF inv _ _ t]
    by (auto simp: writer_wait_def split: ready.split)
qed

lemma conn_step_inv:
  assumes inv: "lossy_inv own h fresh n t c" and a: "act_ok own t h a" "\<not> overtakes t a c" "registers t a \<longrightarrow> fresh"
    and t: "topic_Class t = Lossy" "t \<noteq> zero_Topic" and n: "n < 2147483647"
  shows "lossy_inv own (next_h own t h a) (fresh \<and> \<not> registers t a) (Suc n) t (conn_step a c)"
proof -
  have form: "formed t c" using inv by (simp add: lossy_inv_def)
  have shr: "lossy_inv own h fresh (Suc n) t c'" if "shrinks t c c'" "formed t c'" for c'
    using shrinks_inv [OF that(1) inv that(2), of h "Suc n" fresh] by simp
  have Suc: "lossy_inv own h f (Suc n) t c'" if "lossy_inv own h f n t c'" for f c'
    using inv_mono [OF that, of h "Suc n"] by simp
  show ?thesis
  proof (cases a)
    case (Live t' m pick now)
    then show ?thesis
      using a(1) sendLive_inv [OF inv t(1) _ n, of m pick now] shr [OF sendLive_other [OF _]] form
      by (cases "t' = t") (auto simp: act_ok_def next_h_def registers_def)
  next
    case (Register t' i)
    have "shrinks t c (register t' i c)" if "t' \<noteq> t" using that by (simp add: register_def shrinks_subs_other)
    moreover have "formed t (register t' i c)" using form by (simp add: register_def)
    moreover have "c_subs c t = None" if fresh using that inv by (simp add: lossy_inv_def settled_def)
    ultimately show ?thesis
      using Register a(3) inv Suc [OF register_inv, of c i] shr [OF shrinks_refl form] shr [of "register t' i c"]
      by (cases "t' = t") (auto simp: next_h_def registers_def)
  next
    case (OpenSource t' ms pick)
    then show ?thesis
      using a(1) Suc [OF open_source_inv [OF inv t(1), of ms pick]] shr [OF open_source_other [OF _]] form
      by (cases "t' = t") (auto simp: act_ok_def next_h_def registers_def)
  next
    case (WriterWait r ok)
    then show ?thesis
      using a(2) Suc [OF writer_inv(2) [OF inv t, of r ok]] by (auto simp: overtakes_def next_h_def registers_def split: ready.splits)
  qed (use shr Suc [OF writer_inv(1) [OF inv t]] form t in
      \<open>simp_all add: next_h_def registers_def push_drop_oldest_shrinks push_drop_oldest_formed push_again_shrinks push_again_formed
        deliver_state deliverRaw_other drop_sub_shrinks drop_sub_formed close_shrinks close_formed\<close>)
qed

lemma conn_run_linked:
  assumes "lossy_inv own h fresh n t c" and "numbered own t h acts" and "never_overtakes t acts c"
    and "length (filter (registers t) acts) \<le> (if fresh then 1 else 0)"
    and "topic_Class t = Lossy" "t \<noteq> zero_Topic" and "n + length acts \<le> 2147483647"
  shows "linked t (fold conn_step acts c)"
  using assms
proof (induction acts arbitrary: h fresh n c)
  case (Cons a acts)
  have "lossy_inv own (next_h own t h a) (fresh \<and> \<not> registers t a) (Suc n) t (conn_step a c)"
    using Cons.prems by (intro conn_step_inv) (auto split: if_splits)
  from Cons.IH [OF this] Cons.prems show ?case by (auto split: if_splits)
qed (simp add: lossy_inv_def)

lemma newConn_inv: "lossy_inv own 0 True 0 t newConn"
  by (simp add: lossy_inv_def newConn_def increasing_def on_the_way_def settled_def untouched_def one_replay_def
      topped_def linked_def ledger_def formed_def)

lemma linked_run: "linked t c \<Longrightarrow> \<exists>a. ledger t c = [a ..< a + length (ledger t c)]"
  unfolding linked_def by (elim disjE exE conjE) (simp, (metis le_add_diff_inverse length_upt less_imp_le)+)

text \<open>A source that numbers nothing replays nothing, so there is no replay to pass.\<close>

lemma no_replay_kept:
  assumes "replays t (c_lossless c) = []" and "act_ok False t h a"
  shows "replays t (c_lossless (conn_step a c)) = []"
proof -
  have push: "replays t (c_lossless (snd (pushLossless ob pick c'))) = []"
    if "replays t (c_lossless c') = []" "ob_topic ob = t \<longrightarrow> (\<exists>fr. ob_body ob = Single fr)"
    for ob pick and c' :: "'a conn"
    using that by (cases "ob_topic ob = t") (auto simp: pushLossless_def Let_def close_def)
  have live: "replays t (c_lossless (push t' sq p pick now c')) = []" if "replays t (c_lossless c') = []"
    for t' sq p pick now and c' :: "'a conn"
    using that push [OF that] by (auto simp: push_def Let_def close_def stuckTooLong_def split: option.split bool.split)
  have drop: "replays t q = []" if "replays t (ob # q) = []" for ob and q :: "'a outbound list"
    using that by (simp add: replays_def)
  have item: "c_lossless (write_item q ob ok c') = c_lossless c'" for q ob ok and c' :: "'a conn"
    by (simp add: write_item_def Let_def close_def split: prod.split)
  have lossless: "replays t (c_lossless (take_lossless ok c)) = []" for ok
  proof (cases "c_lossless c")
    case (Cons ob q)
    with assms(1) have "replays t q = []" using drop [of ob q] by simp
    with Cons show ?thesis by (simp add: take_lossless_def item)
  qed (simp add: take_lossless_def)
  have lossy: "c_lossless (take_lossy ok c) = c_lossless c" for ok
    by (simp add: take_lossy_def item split: list.split)
  show ?thesis
  proof (cases a)
    case (OpenSource t' ms pick)
    have "t' = t \<longrightarrow> ms = []" using assms(2) by (simp add: OpenSource act_ok_def)
    with assms(1) show ?thesis
      by (auto simp: OpenSource open_source_def Let_def snd_case_bool split: option.split intro!: push)
  qed (use assms(1) live lossless lossy in \<open>auto simp: sendLive_def deliver_def deliverRaw_def register_def drop_sub_def
      push_drop_oldest_def push_again_def Let_def close_def writer_poll_def writer_wait_def
      split: option.split pushing.split ready.split\<close>)
qed

lemma unnumbered_never_overtakes:
  "numbered False t h acts \<Longrightarrow> replays t (c_lossless c) = [] \<Longrightarrow> never_overtakes t acts c"
proof (induction acts arbitrary: h c)
  case (Cons a acts)
  then show ?case using no_replay_kept [of t c h a] by (auto simp: overtakes_def split: conn_action.split ready.split)
qed simp

text \<open>C15. What a lossy topic lost is marked where it was lost. Take a stats or console topic that a connection subscribes
  to once, within \<open>2^31 - 1\<close> actions. Either its source leaves the numbering to the connection and replays nothing, as
  stats does: then nothing else is assumed. Or the source numbers every message, above the one before, as a
  console does as long as it sends no reset notice, and the writer does not take a live line while the topic's replay
  still waits in the other queue; without the one or the other the code announces gaps that are none
  (\<open>reset_tears_the_console\<close>, \<open>live_line_overtakes_replay\<close>). Then, however many messages overflow the queue, and
  whichever of them are dropped, the numbers the browser received together with those its gap notices name are
  one unbroken run in order, beginning with the end of the replay if there was one: no line is missing without
  a notice in its place, and no notice names a line that was delivered.\<close>

theorem lossy_holes_are_marked:
  assumes "t_kind t = KindConsole \<or> t_kind t = KindStats"
    and "numbered own t 0 acts" and "own \<longrightarrow> never_overtakes t acts newConn"
    and "length (filter (registers t) acts) \<le> 1" and "length acts \<le> 2147483647"
  shows "\<exists>a. ledger t (conn_run acts) = [a ..< a + length (ledger t (conn_run acts))]"
proof -
  have "topic_Class t = Lossy" "t \<noteq> zero_Topic" using assms(1) by (auto simp: topic_Class_def zero_Topic_def)
  moreover have "never_overtakes t acts newConn"
    using assms(2,3) unnumbered_never_overtakes [of t 0 acts newConn] by (cases own) (simp_all add: newConn_def)
  ultimately have "linked t (fold conn_step acts newConn)"
    using assms(2,4,5) by (intro conn_run_linked [OF newConn_inv]) simp_all
  then show ?thesis unfolding conn_run_def by (rule linked_run)
qed

theorem lossy_holes_are_marked_witness:
  "let t = \<lparr>t_kind = KindConsole, t_id = ''a''\<rparr>;
       line = (\<lambda>n. \<lparr>m_Seq = n, m_Payload = unat n\<rparr>);
       acts = [Register t ''a'', OpenSource t [line 7, line 40] False, Live t (line 40) False 0, Live t (line 41) False 0,
               Live t (line 45) False 0, WriterPoll 9, WriterPoll 9, WriterPoll 9, WriterWait FromLossy 9, WriterPoll 9,
               WriterWait FromLossy 9]
   in numbered True t 0 acts \<and> never_overtakes t acts newConn \<and>
      (\<exists>a. ledger t (conn_run acts) = [a ..< a + length (ledger t (conn_run acts))]) \<and>
      ledger t (conn_run acts) = [40, 41, 42, 43, 44, 45] \<and>
      map (\<lambda>(q, ob, fs). fs) (c_wire (conn_run acts)) =
        [[SubscribedMsg ''instance.a.console'' 40], [Src 7, Src 40], [Src 41], [GapMsg ''instance.a.console'' 3 42, Src 45]]"
proof -
  let ?t = "\<lparr>t_kind = KindConsole, t_id = ''a''\<rparr>" and ?line = "\<lambda>n :: 64 word. \<lparr>m_Seq = n, m_Payload = unat n\<rparr>"
  let ?acts = "[Register ?t ''a'', OpenSource ?t [?line 7, ?line 40] False, Live ?t (?line 40) False 0, Live ?t (?line 41) False 0,
               Live ?t (?line 45) False 0, WriterPoll 9, WriterPoll 9, WriterPoll 9, WriterWait FromLossy 9, WriterPoll 9,
               WriterWait FromLossy 9]"
  have n: "numbered True ?t 0 ?acts" by code_simp
  have o: "never_overtakes ?t ?acts newConn" by code_simp
  have r: "length (filter (registers ?t) ?acts) \<le> 1" by code_simp
  have l: "ledger ?t (conn_run ?acts) = [40, 41, 42, 43, 44, 45]" by code_simp
  have w: "map (\<lambda>(q, ob, fs). fs) (c_wire (conn_run ?acts)) =
      [[SubscribedMsg ''instance.a.console'' 40], [Src 7, Src 40], [Src 41], [GapMsg ''instance.a.console'' 3 42, Src 45]]"
    by code_simp
  have len: "length ?acts \<le> 2147483647" and k: "t_kind ?t = KindConsole \<or> t_kind ?t = KindStats" by simp_all
  have "\<exists>a. ledger ?t (conn_run ?acts) = [a ..< a + length (ledger ?t (conn_run ?acts))]"
    by (rule lossy_holes_are_marked [OF k n _ r len]) (rule impI, rule o)
  with n o l w show ?thesis unfolding Let_def by (intro conjI)
qed

subsection \<open>Numbers from two counters\<close>

text \<open>A console source numbers its lines and sends its reset notice without a number, so the connection numbers the notice
  from a counter of its own. The notice moves the writer's place back to 1, and the next line is announced as
  following a gap of everything before it, although nothing was dropped.\<close>

lemma reset_tears_the_console:
  "let t = \<lparr>t_kind = KindConsole, t_id = ''a''\<rparr>; line = (\<lambda>n. \<lparr>m_Seq = n, m_Payload = n\<rparr>);
       write_one = [WriterPoll 9, WriterWait FromLossy 9];
       acts = [Register t ''a'', OpenSource t [line 500] False, WriterPoll 9, WriterPoll 9] @
              [Live t (line 501) False 0] @ write_one @ [Live t (line 0) False 0] @ write_one @
              [Live t (line 502) False 0] @ write_one
   in map (\<lambda>(q, ob, fs). fs) (c_wire (conn_run acts)) =
        [[SubscribedMsg ''instance.a.console'' 500], [Src 500], [Src 501], [Src 0],
         [GapMsg ''instance.a.console'' 500 2, Src 502]]"
  by code_simp

text \<open>The acknowledgement and the replay are queued ahead of the live lines, on the other queue. A writer that found the
  lossless queue empty just before then waits on both, and may take the first live line ahead of them. The
  replay then moves its place back, and the next line is announced as following a gap that was delivered.\<close>

lemma live_line_overtakes_replay:
  "let t = \<lparr>t_kind = KindConsole, t_id = ''a''\<rparr>; line = (\<lambda>n. \<lparr>m_Seq = n, m_Payload = n\<rparr>);
       acts = [Register t ''a'', WriterPoll 9, OpenSource t [line 500] False, Live t (line 501) False 0,
               WriterWait FromLossy 9, WriterPoll 9, WriterPoll 9, Live t (line 502) False 0, WriterPoll 9, WriterWait FromLossy 9]
   in map (\<lambda>(q, ob, fs). fs) (c_wire (conn_run acts)) =
        [[Src 501], [SubscribedMsg ''instance.a.console'' 500], [Src 500], [GapMsg ''instance.a.console'' 1 501, Src 502]]"
  by code_simp

end
