(* ===== verification/Ws_Subscriptions.thy ===== *)
theory Ws_Subscriptions
  imports Ws_Gaps Rate_Limit
begin

text \<open>
  \<open>internal/ws/subscribe.go\<close> and the registry of \<open>internal/ws/hub.go\<close>: how a connection comes to hold a topic, and how it
  loses it when a grant changes or an instance is deleted. A session is one connection with the part of the
  database its decisions read. The reader handles one request at a time and is interrupted between the places
  where the code takes \<open>c.mu\<close> or asks the database; grant changes and their rechecks run beside it, any number
  at once. \<open>Can\<close> is the one of \<open>Authz\<close>.
\<close>

subsection \<open>Sessions\<close>

text \<open>Where the reader stands inside \<open>subscribe\<close>.\<close>

datatype phase =
    Idle
  | Accepted Topic
  | Started Topic nat
  | Resolved Topic nat string
  | Authorized Topic nat string
  | Missed Topic
  | Opening Topic

text \<open>\<open>ss_held\<close> is the domain of \<open>c_subs\<close> in the order the code happens to range over it. \<open>ss_errors\<close> are error frames whose
  senders wait for the queue. \<open>ss_rechecks\<close> and \<open>ss_drops\<close> are the loops of \<open>recheck\<close> and \<open>dropInstance\<close> under way,
  with what is left of them. \<open>ss_owed\<close> holds the instances whose grant changed and whose recheck has not begun,
  \<open>ss_deleted\<close> those whose row is gone.\<close>

record 'p session =
  ss_conn :: "'p conn"
  ss_held :: "Topic list"
  ss_phase :: phase
  ss_errors :: "(string \<times> ws_code) list"
  ss_rechecks :: "(string \<times> Topic list) list"
  ss_drops :: "Topic list list"
  ss_grants :: "string \<Rightarrow> unit + grant option"
  ss_instances :: "string set"
  ss_jobs :: "string \<rightharpoonup> string"
  ss_owed :: "string set"
  ss_deleted :: "string set"

definition maxTopics :: nat where "maxTopics = 64"

definition new_session :: "(string \<Rightarrow> unit + grant option) \<Rightarrow> string set \<Rightarrow> (string \<rightharpoonup> string) \<Rightarrow> 'p session" where
  "new_session grants instances job_instances =
     \<lparr>ss_conn = newConn, ss_held = [], ss_phase = Idle, ss_errors = [], ss_rechecks = [], ss_drops = [], ss_grants = grants,
      ss_instances = instances, ss_jobs = job_instances, ss_owed = {}, ss_deleted = {}\<rparr>"

definition sendError :: "string \<Rightarrow> ws_code \<Rightarrow> 'p session \<Rightarrow> 'p session" where
  "sendError topic code s = s\<lparr>ss_errors := ss_errors s @ [(topic, code)]\<rparr>"

definition may :: "user \<Rightarrow> 'p session \<Rightarrow> action \<Rightarrow> string \<Rightarrow> bool" where
  "may u s act instanceID = Can (\<lambda>_ i. ss_grants s i) (Some u) act instanceID"

definition allowed :: "user \<Rightarrow> 'p session \<Rightarrow> Topic \<Rightarrow> string \<Rightarrow> bool" where
  "allowed u s t instanceID = (case topic_Action t of None \<Rightarrow> False | Some act \<Rightarrow> may u s act instanceID)"

text \<open>The instance a topic hangs on: \<open>InstanceExists\<close> for the topics of an instance, \<open>JobInstance\<close> for a job.\<close>

definition resolve :: "'p session \<Rightarrow> Topic \<Rightarrow> string option" where
  "resolve s t =
     (if t_kind t = KindJob then ss_jobs s (t_id t)
      else if t_id t \<in> ss_instances s then Some (t_id t) else None)"

definition authorize :: "user \<Rightarrow> bool \<Rightarrow> 'p session \<Rightarrow> Topic \<Rightarrow> string option" where
  "authorize u failed s t =
     (if failed then None
      else case resolve s t of None \<Rightarrow> None | Some i \<Rightarrow> if allowed u s t i then Some i else None)"

subsection \<open>Subscribing\<close>

definition set_phase :: "phase \<Rightarrow> 'p session \<Rightarrow> 'p session" where
  "set_phase p s = s\<lparr>ss_phase := p\<rparr>"

definition drop_topic :: "Topic \<Rightarrow> 'p session \<Rightarrow> 'p session" where
  "drop_topic t s = s\<lparr>ss_conn := drop_sub t (ss_conn s), ss_held := filter (\<lambda>x. x \<noteq> t) (ss_held s)\<rparr>"

definition drop_with :: "ws_code \<Rightarrow> Topic \<Rightarrow> 'p session \<Rightarrow> 'p session" where
  "drop_with code t s =
     (if c_subs (ss_conn s) t = None then s else sendError (topic_String t) code (drop_topic t s))"

definition subscribe :: "string \<Rightarrow> 'p session \<Rightarrow> 'p session" where
  "subscribe raw s =
     (case topic_Parse raw of
        None \<Rightarrow> sendError raw InvalidParameter s
      | Some t \<Rightarrow>
          if c_subs (ss_conn s) t \<noteq> None then s
          else if length (ss_held s) \<ge> maxTopics then sendError raw RateLimited s
          else set_phase (Accepted t) s)"

definition unsubscribe :: "string \<Rightarrow> 'p session \<Rightarrow> 'p session" where
  "unsubscribe raw s =
     (case topic_Parse raw of None \<Rightarrow> sendError raw InvalidParameter s | Some t \<Rightarrow> drop_topic t s)"

text \<open>One step of the reader: \<open>failed\<close> says that the database could not be asked, and \<open>backlog\<close> is what the source
  replays.\<close>

definition reader_step :: "user \<Rightarrow> bool \<Rightarrow> 'p Message list \<Rightarrow> bool \<Rightarrow> 'p session \<Rightarrow> 'p session" where
  "reader_step u failed backlog pick s =
     (case ss_phase s of
        Idle \<Rightarrow> s
      | Accepted t \<Rightarrow> set_phase (Started t (c_grantGen (ss_conn s))) s
      | Started t g \<Rightarrow>
          (case resolve s t of
             Some i \<Rightarrow> if failed then set_phase Idle (sendError (topic_String t) NotFound s) else set_phase (Resolved t g i) s
           | None \<Rightarrow> set_phase Idle (sendError (topic_String t) NotFound s))
      | Resolved t g i \<Rightarrow>
          if allowed u s t i then set_phase (Authorized t g i) s
          else set_phase Idle (sendError (topic_String t) NotFound s)
      | Authorized t g i \<Rightarrow>
          if c_subs (ss_conn s) t \<noteq> None then set_phase Idle s
          else set_phase (if c_grantGen (ss_conn s) \<noteq> g then Missed t else Opening t)
                 (s\<lparr>ss_conn := register t i (ss_conn s), ss_held := ss_held s @ [t]\<rparr>)
      | Missed t \<Rightarrow>
          (case authorize u failed s t of
             Some _ \<Rightarrow> set_phase (Opening t) s
           | None \<Rightarrow> set_phase Idle (drop_with NotFound t s))
      | Opening t \<Rightarrow> set_phase Idle (s\<lparr>ss_conn := open_source t backlog pick (ss_conn s)\<rparr>))"

subsection \<open>Grant changes and deletions\<close>

definition hangs_on :: "string \<Rightarrow> 'p session \<Rightarrow> Topic \<Rightarrow> bool" where
  "hangs_on instanceID s t = (case c_subs (ss_conn s) t of None \<Rightarrow> False | Some sub \<Rightarrow> sub_instanceID sub = instanceID)"

definition recheck :: "string \<Rightarrow> 'p session \<Rightarrow> 'p session" where
  "recheck instanceID s =
     s\<lparr>ss_conn := (ss_conn s)\<lparr>c_grantGen := c_grantGen (ss_conn s) + 1\<rparr>,
       ss_rechecks := ss_rechecks s @ [(instanceID, filter (hangs_on instanceID s) (ss_held s))],
       ss_owed := ss_owed s - {instanceID}\<rparr>"

text \<open>The next topic of the \<open>k\<close>-th recheck under way. A topic that no longer passes is dropped with \<open>forbidden\<close>.\<close>

definition recheck_next :: "user \<Rightarrow> nat \<Rightarrow> 'p session \<Rightarrow> 'p session" where
  "recheck_next u k s =
     (if k < length (ss_rechecks s) then
        case ss_rechecks s ! k of
          (i, []) \<Rightarrow> s\<lparr>ss_rechecks := take k (ss_rechecks s) @ List.drop (Suc k) (ss_rechecks s)\<rparr>
        | (i, t # ts) \<Rightarrow>
            let s' = s\<lparr>ss_rechecks := (ss_rechecks s)[k := (i, ts)]\<rparr>
            in if allowed u s t i then s' else drop_with Forbidden t s'
      else s)"

definition dropInstance :: "string \<Rightarrow> 'p session \<Rightarrow> 'p session" where
  "dropInstance instanceID s = s\<lparr>ss_drops := ss_drops s @ [filter (hangs_on instanceID s) (ss_held s)]\<rparr>"

definition drop_next :: "nat \<Rightarrow> 'p session \<Rightarrow> 'p session" where
  "drop_next k s =
     (if k < length (ss_drops s) then
        case ss_drops s ! k of
          [] \<Rightarrow> s\<lparr>ss_drops := take k (ss_drops s) @ List.drop (Suc k) (ss_drops s)\<rparr>
        | t # ts \<Rightarrow> drop_with NotFound t (s\<lparr>ss_drops := (ss_drops s)[k := ts]\<rparr>)
      else s)"

text \<open>What the rest of the daemon does to the rows: a grant is written or deleted, an instance or a job is added, an
  instance is deleted and its jobs are left without one. Ids are not used twice.\<close>

definition commit_grant :: "string \<Rightarrow> unit + grant option \<Rightarrow> 'p session \<Rightarrow> 'p session" where
  "commit_grant i g s = s\<lparr>ss_grants := (ss_grants s)(i := g), ss_owed := insert i (ss_owed s)\<rparr>"

definition add_instance :: "string \<Rightarrow> 'p session \<Rightarrow> 'p session" where
  "add_instance i s =
     (if i = [] \<or> i \<in> ss_deleted s then s else s\<lparr>ss_instances := insert i (ss_instances s)\<rparr>)"

definition add_job :: "string \<Rightarrow> string \<Rightarrow> 'p session \<Rightarrow> 'p session" where
  "add_job j i s =
     (if ss_jobs s j \<noteq> None \<or> \<not> (i = [] \<or> i \<in> ss_instances s) then s else s\<lparr>ss_jobs := (ss_jobs s)(j \<mapsto> i)\<rparr>)"

definition delete_instance :: "string \<Rightarrow> 'p session \<Rightarrow> 'p session" where
  "delete_instance i s =
     (if i \<notin> ss_instances s then s
      else s\<lparr>ss_instances := ss_instances s - {i}, ss_deleted := insert i (ss_deleted s),
             ss_jobs := (\<lambda>j. map_option (\<lambda>x. if x = i then [] else x) (ss_jobs s j))\<rparr>)"

subsection \<open>Interleavings\<close>

text \<open>The actions of sources, publishers and the writer, which leave the set of topics alone.\<close>

definition traffic :: "'p conn_action \<Rightarrow> bool" where
  "traffic a =
     (case a of
        Live _ _ _ _ \<Rightarrow> True | DropOldest _ \<Rightarrow> True | PushAgain _ \<Rightarrow> True | PublishState _ _ _ _ \<Rightarrow> True
      | WriterPoll _ \<Rightarrow> True | WriterWait _ _ \<Rightarrow> True | CloseWith _ \<Rightarrow> True | _ \<Rightarrow> False)"

definition flush_error :: "bool \<Rightarrow> 'p session \<Rightarrow> 'p session" where
  "flush_error pick s =
     (case ss_errors s of
        [] \<Rightarrow> s
      | (topic, code) # es \<Rightarrow>
          if enqueued (c_lossless (ss_conn s)) pick (ss_conn s) \<or> c_closed (ss_conn s) \<noteq> None
          then s\<lparr>ss_conn := deliverRaw (ErrorMsg topic code) pick (ss_conn s), ss_errors := es\<rparr> else s)"

datatype 'p session_action =
    Subscribe string
  | UnsubscribeTopic string
  | ReaderStep bool "'p Message list" bool
  | CommitGrant string "unit + grant option"
  | GrantChanged string
  | RecheckNext nat
  | AddInstance string
  | AddJob string string
  | DeleteInstance string
  | InstanceDeleted string
  | DropNext nat
  | FlushError bool
  | Traffic "'p conn_action"

fun session_step :: "user \<Rightarrow> 'p session_action \<Rightarrow> 'p session \<Rightarrow> 'p session" where
  "session_step u (Subscribe raw) s = (if ss_phase s = Idle then subscribe raw s else s)"
| "session_step u (UnsubscribeTopic raw) s = (if ss_phase s = Idle then unsubscribe raw s else s)"
| "session_step u (ReaderStep failed backlog pick) s = reader_step u failed backlog pick s"
| "session_step u (CommitGrant i g) s = commit_grant i g s"
| "session_step u (GrantChanged i) s = recheck i s"
| "session_step u (RecheckNext k) s = recheck_next u k s"
| "session_step u (AddInstance i) s = add_instance i s"
| "session_step u (AddJob j i) s = add_job j i s"
| "session_step u (DeleteInstance i) s = delete_instance i s"
| "session_step u (InstanceDeleted i) s = dropInstance i s"
| "session_step u (DropNext k) s = drop_next k s"
| "session_step u (FlushError pick) s = flush_error pick s"
| "session_step u (Traffic a) s = (if traffic a then s\<lparr>ss_conn := conn_step a (ss_conn s)\<rparr> else s)"

definition session_run :: "user \<Rightarrow> 'p session \<Rightarrow> 'p session_action list \<Rightarrow> 'p session" where
  "session_run u s acts = fold (session_step u) acts s"

subsection \<open>What the connection's traffic leaves alone\<close>

definition on :: "'p conn \<Rightarrow> Topic \<Rightarrow> string option" where
  "on c = (\<lambda>t. map_option sub_instanceID (c_subs c t))"

lemma on_None: "on c t = None \<longleftrightarrow> c_subs c t = None"
  by (simp add: on_def)

lemma on_SomeE:
  assumes "on c t = Some i"
  obtains sub where "c_subs c t = Some sub" and "i = sub_instanceID sub"
  using assms by (auto simp: on_def)

lemma on_simps [simp]:
  "on (register t i c) = (on c)(t \<mapsto> i)"
  "on (drop_sub t c) = (on c)(t := None)"
  "on (c\<lparr>c_grantGen := g\<rparr>) = on c"
  by (auto simp: on_def register_def drop_sub_def)

lemma gen_simps [simp]:
  "c_grantGen (register t i c) = c_grantGen c"
  "c_grantGen (drop_sub t c) = c_grantGen c"
  "c_grantGen (snd (pushLossless ob pick c)) = c_grantGen c"
  "c_grantGen (push t sq p pick now c) = c_grantGen c"
  "c_grantGen (write_item q ob ok c) = c_grantGen c"
  "c_grantGen (deliverRaw fr pick c) = c_grantGen c"
  by (auto simp: register_def drop_sub_def conn_defs deliverRaw_def write_item_def split: option.split bool.split prod.split)

lemma open_source_on [simp]: "on (open_source t ms pick c) = on c" "c_grantGen (open_source t ms pick c) = c_grantGen c"
  by (auto simp: open_source_def Let_def snd_case_bool on_def split: option.split)

lemma deliverRaw_on [simp]: "on (deliverRaw fr pick c) = on c"
  by (auto simp: deliverRaw_def Let_def on_def)

lemma sendLive_on: "on (sendLive t m pick now c) = on c \<and> c_grantGen (sendLive t m pick now c) = c_grantGen c"
  by (auto simp: sendLive_def Let_def on_def split: option.split)

lemma take_on:
  "on (take_lossless ok c) = on c \<and> c_grantGen (take_lossless ok c) = c_grantGen c"
  "on (take_lossy ok c) = on c \<and> c_grantGen (take_lossy ok c) = c_grantGen c"
  by (auto simp: take_lossless_def take_lossy_def on_def split: list.split)

lemma traffic_on:
  assumes "traffic a"
  shows "on (conn_step a c) = on c \<and> c_grantGen (conn_step a c) = c_grantGen c"
  using assms
  by (cases a)
     (simp_all add: traffic_def sendLive_on [unfolded on_def] take_on [unfolded on_def] deliver_def push_drop_oldest_def push_again_def writer_poll_def writer_wait_def
       close_def on_def Let_def split: pushing.split ready.split)

subsection \<open>The invariant\<close>

definition held_ok :: "'p session \<Rightarrow> bool" where
  "held_ok s \<longleftrightarrow>
     set (ss_held s) = dom (on (ss_conn s)) \<and> distinct (ss_held s) \<and> length (ss_held s) \<le> maxTopics \<and>
     (case ss_phase s of
        Accepted _ \<Rightarrow> length (ss_held s) < maxTopics
      | Started _ _ \<Rightarrow> length (ss_held s) < maxTopics
      | Resolved _ _ _ \<Rightarrow> length (ss_held s) < maxTopics
      | Authorized _ _ _ \<Rightarrow> length (ss_held s) < maxTopics
      | _ \<Rightarrow> True)"

definition target_ok :: "'p session \<Rightarrow> Topic \<Rightarrow> string \<Rightarrow> bool" where
  "target_ok s t i \<longleftrightarrow> i \<in> ss_deleted s \<or> resolve s t = Some i"

definition targets_ok :: "'p session \<Rightarrow> bool" where
  "targets_ok s \<longleftrightarrow>
     [] \<notin> ss_instances s \<and> [] \<notin> ss_deleted s \<and>
     (\<forall>t i. on (ss_conn s) t = Some i \<longrightarrow> target_ok s t i) \<and>
     (case ss_phase s of Resolved t _ i \<Rightarrow> target_ok s t i | Authorized t _ i \<Rightarrow> target_ok s t i | _ \<Rightarrow> True)"

text \<open>A grant read for a topic is still good, or the change that made it bad will be noticed.\<close>

definition fine :: "user \<Rightarrow> 'p session \<Rightarrow> Topic \<Rightarrow> string \<Rightarrow> bool" where
  "fine u s t i \<longleftrightarrow> allowed u s t i \<or> i \<in> ss_deleted s \<or> i \<in> ss_owed s"

definition covered :: "user \<Rightarrow> 'p session \<Rightarrow> Topic \<Rightarrow> string \<Rightarrow> bool" where
  "covered u s t i \<longleftrightarrow>
     fine u s t i \<or> (\<exists>ts. (i, ts) \<in> set (ss_rechecks s) \<and> t \<in> set ts) \<or> ss_phase s = Missed t"

definition subs_covered :: "user \<Rightarrow> 'p session \<Rightarrow> bool" where
  "subs_covered u s \<longleftrightarrow> (\<forall>t i. on (ss_conn s) t = Some i \<longrightarrow> covered u s t i)"

definition phase_ok :: "user \<Rightarrow> 'p session \<Rightarrow> bool" where
  "phase_ok u s \<longleftrightarrow>
     (case ss_phase s of
        Started t g \<Rightarrow> g \<le> c_grantGen (ss_conn s)
      | Resolved t g i \<Rightarrow> g \<le> c_grantGen (ss_conn s)
      | Authorized t g i \<Rightarrow> g \<le> c_grantGen (ss_conn s) \<and> (fine u s t i \<or> g < c_grantGen (ss_conn s))
      | _ \<Rightarrow> True)"

definition session_inv :: "user \<Rightarrow> 'p session \<Rightarrow> bool" where
  "session_inv u s \<longleftrightarrow> held_ok s \<and> targets_ok s \<and> subs_covered u s \<and> phase_ok u s"

lemma allowed_cong: "ss_grants s' i = ss_grants s i \<Longrightarrow> allowed u s' t i = allowed u s t i"
  by (auto simp: allowed_def may_def Can_def decide_def split: option.split)

text \<open>Steps that change nothing these read keep the invariant.\<close>

definition same_view :: "'p session \<Rightarrow> 'p session \<Rightarrow> bool" where
  "same_view s s' \<longleftrightarrow>
     on (ss_conn s') = on (ss_conn s) \<and> c_grantGen (ss_conn s') = c_grantGen (ss_conn s) \<and> ss_held s' = ss_held s \<and>
     ss_phase s' = ss_phase s \<and> ss_rechecks s' = ss_rechecks s \<and> ss_grants s' = ss_grants s \<and>
     ss_instances s' = ss_instances s \<and> ss_jobs s' = ss_jobs s \<and> ss_owed s' = ss_owed s \<and> ss_deleted s' = ss_deleted s"

lemma same_view_inv:
  assumes v: "same_view s s'" and inv: "session_inv u s"
  shows "session_inv u s'"
proof -
  have "allowed u s' t i = allowed u s t i" for t i
    using v by (intro allowed_cong) (simp add: same_view_def)
  moreover have "resolve s' t = resolve s t" for t
    using v by (simp add: same_view_def resolve_def)
  ultimately show ?thesis
    using v inv
    by (simp add: session_inv_def held_ok_def targets_ok_def target_ok_def subs_covered_def covered_def fine_def phase_ok_def
        same_view_def cong: phase.case_cong)
qed

lemma allowed_update [simp]:
  "allowed u (s\<lparr>ss_conn := c\<rparr>) t i = allowed u s t i"
  "allowed u (s\<lparr>ss_held := h\<rparr>) t i = allowed u s t i"
  "allowed u (s\<lparr>ss_phase := p\<rparr>) t i = allowed u s t i"
  "allowed u (s\<lparr>ss_errors := e\<rparr>) t i = allowed u s t i"
  "allowed u (s\<lparr>ss_rechecks := r\<rparr>) t i = allowed u s t i"
  "allowed u (s\<lparr>ss_owed := ow\<rparr>) t i = allowed u s t i"
  "allowed u (s\<lparr>ss_instances := is'\<rparr>) t i = allowed u s t i"
  "allowed u (s\<lparr>ss_jobs := js\<rparr>) t i = allowed u s t i"
  "allowed u (s\<lparr>ss_deleted := d\<rparr>) t i = allowed u s t i"
  by (rule allowed_cong, simp)+

lemma resolve_update [simp]:
  "resolve (s\<lparr>ss_conn := c\<rparr>) t = resolve s t"
  "resolve (s\<lparr>ss_held := h\<rparr>) t = resolve s t"
  "resolve (s\<lparr>ss_phase := p\<rparr>) t = resolve s t"
  "resolve (s\<lparr>ss_errors := e\<rparr>) t = resolve s t"
  "resolve (s\<lparr>ss_rechecks := r\<rparr>) t = resolve s t"
  "resolve (s\<lparr>ss_grants := g\<rparr>) t = resolve s t"
  "resolve (s\<lparr>ss_owed := ow\<rparr>) t = resolve s t"
  "resolve (s\<lparr>ss_deleted := d\<rparr>) t = resolve s t"
  by (simp_all add: resolve_def)

lemmas inv_defs = session_inv_def held_ok_def targets_ok_def target_ok_def subs_covered_def covered_def fine_def phase_ok_def

lemma sendError_inv [simp]: "session_inv u (sendError topic code s) = session_inv u s"
  using same_view_inv [of s "sendError topic code s" u] same_view_inv [of "sendError topic code s" s u]
  by (auto simp: same_view_def sendError_def)

lemma set_phase_Idle_inv:
  assumes "session_inv u s" and "\<And>t. ss_phase s \<noteq> Missed t"
  shows "session_inv u (set_phase Idle s)"
  using assms by (simp add: inv_defs set_phase_def)

lemma drop_topic_inv:
  assumes "session_inv u s"
  shows "session_inv u (drop_topic t s)"
proof -
  note le = length_filter_le [of "\<lambda>x. x \<noteq> t" "ss_held s"]
  have "held_ok (drop_topic t s)"
    using assms order.trans [OF le] order.strict_trans1 [OF le] by (auto simp: session_inv_def held_ok_def drop_topic_def split: phase.splits)
  moreover have "targets_ok (drop_topic t s)"
    using assms by (simp add: session_inv_def targets_ok_def target_ok_def drop_topic_def cong: phase.case_cong)
  moreover have "subs_covered u (drop_topic t s)"
    using assms by (simp add: session_inv_def subs_covered_def covered_def fine_def drop_topic_def)
  moreover have "phase_ok u (drop_topic t s)"
    using assms by (simp add: session_inv_def phase_ok_def fine_def drop_topic_def cong: phase.case_cong)
  ultimately show ?thesis by (simp add: session_inv_def)
qed

lemma drop_with_inv: "session_inv u s \<Longrightarrow> session_inv u (drop_with code t s)"
  by (simp add: drop_with_def drop_topic_inv)

lemma set_phase_inv:
  assumes "session_inv u s" and "\<forall>t. ss_phase s \<noteq> Missed t"
    and "held_ok (set_phase p s)" and "targets_ok (set_phase p s)" and "phase_ok u (set_phase p s)"
  shows "session_inv u (set_phase p s)"
proof -
  have "covered u (set_phase p s) t i" if "covered u s t i" for t i
    using that assms(2) by (auto simp: covered_def fine_def set_phase_def)
  moreover have "on (ss_conn (set_phase p s)) = on (ss_conn s)" by (simp add: set_phase_def)
  ultimately have "subs_covered u (set_phase p s)"
    using assms(1) by (simp add: session_inv_def subs_covered_def)
  then show ?thesis using assms(3-5) by (simp add: session_inv_def)
qed

lemma subscribe_inv:
  assumes inv: "session_inv u s" and "ss_phase s = Idle"
  shows "session_inv u (subscribe raw s)"
proof -
  have "session_inv u (set_phase (Accepted t) s)" if "length (ss_held s) < maxTopics" for t
    using assms that by (intro set_phase_inv) (simp_all add: set_phase_def session_inv_def held_ok_def targets_ok_def target_ok_def phase_ok_def)
  then show ?thesis using inv by (simp add: subscribe_def split: option.split)
qed

lemma unsubscribe_inv: "session_inv u s \<Longrightarrow> session_inv u (unsubscribe raw s)"
  by (simp add: unsubscribe_def drop_topic_inv split: option.split)

text \<open>The reader.\<close>

lemma reader_started_inv:
  assumes inv: "session_inv u s"
  shows "ss_phase s = Accepted t \<Longrightarrow> session_inv u (set_phase (Started t (c_grantGen (ss_conn s))) s)"
    and "ss_phase s = Started t g \<Longrightarrow> resolve s t = Some i \<Longrightarrow> session_inv u (set_phase (Resolved t g i) s)"
    and "ss_phase s = Resolved t g i \<Longrightarrow> allowed u s t i \<Longrightarrow> session_inv u (set_phase (Authorized t g i) s)"
  using inv
  by (auto intro!: set_phase_inv)
     (auto simp: set_phase_def session_inv_def held_ok_def targets_ok_def target_ok_def phase_ok_def fine_def)

lemma reader_enter_inv:
  assumes inv: "session_inv u s" and p: "ss_phase s = Authorized t g i" and new: "c_subs (ss_conn s) t = None"
  shows "session_inv u (set_phase (if c_grantGen (ss_conn s) \<noteq> g then Missed t else Opening t)
           (s\<lparr>ss_conn := register t i (ss_conn s), ss_held := ss_held s @ [t]\<rparr>))" (is "session_inv u ?s")
proof -
  have "t \<notin> set (ss_held s)" using inv new by (auto simp: session_inv_def held_ok_def on_def)
  then have "held_ok ?s"
    using inv p by (auto simp: session_inv_def held_ok_def set_phase_def)
  moreover have "targets_ok ?s"
    using inv p by (auto simp: session_inv_def targets_ok_def target_ok_def set_phase_def)
  moreover have "covered u ?s t i"
    using inv p by (auto simp: session_inv_def phase_ok_def covered_def fine_def set_phase_def)
  then have "subs_covered u ?s"
    using inv p by (auto simp: session_inv_def subs_covered_def covered_def fine_def set_phase_def split: if_splits)
  moreover have "phase_ok u ?s" by (simp add: phase_ok_def set_phase_def)
  ultimately show ?thesis by (simp add: session_inv_def)
qed

lemma on_target:
  assumes "session_inv u s" and "on (ss_conn s) t = Some i" and "resolve s t = Some j"
  shows "i \<in> ss_deleted s \<or> i = j"
  using assms unfolding session_inv_def targets_ok_def target_ok_def by (metis option.inject)

lemma reader_missed_inv:
  assumes inv: "session_inv u s" and p: "ss_phase s = Missed t"
  shows "authorize u failed s t = Some i \<Longrightarrow> session_inv u (set_phase (Opening t) s)"
    and "session_inv u (set_phase Idle (drop_with code t s))"
proof -
  have rest: "held_ok (set_phase q s)" "targets_ok (set_phase q s)" "phase_ok u (set_phase q s)" if "q = Idle \<or> q = Opening t" for q
    using that inv p by (auto simp: session_inv_def held_ok_def targets_ok_def target_ok_def phase_ok_def set_phase_def)
  show "session_inv u (set_phase (Opening t) s)" if a: "authorize u failed s t = Some i"
  proof -
    have "resolve s t = Some i" "allowed u s t i"
      using a by (auto simp: authorize_def split: if_splits option.splits)
    then have "fine u s t j" if "on (ss_conn s) t = Some j" for j
      using on_target [OF inv that] by (auto simp: fine_def)
    then have "subs_covered u (set_phase (Opening t) s)"
      using inv p by (auto simp: session_inv_def subs_covered_def covered_def fine_def set_phase_def)
    then show ?thesis using rest by (simp add: session_inv_def)
  qed
  let ?s = "drop_with code t s"
  have inv': "session_inv u ?s" by (rule drop_with_inv [OF inv])
  have m: "ss_phase ?s = Missed t" and gone: "on (ss_conn ?s) t = None"
    using p by (auto simp: drop_with_def sendError_def drop_topic_def on_None drop_sub_def)
  have "covered u (set_phase Idle ?s) t' i" if o: "on (ss_conn ?s) t' = Some i" for t' i
  proof -
    have "t' \<noteq> t" using o gone by auto
    moreover have "covered u ?s t' i" using inv' o by (simp add: session_inv_def subs_covered_def)
    ultimately show ?thesis using m by (simp add: covered_def fine_def set_phase_def)
  qed
  then have "subs_covered u (set_phase Idle ?s)" by (simp add: subs_covered_def set_phase_def)
  then show "session_inv u (set_phase Idle ?s)"
    using inv' by (simp add: session_inv_def held_ok_def targets_ok_def target_ok_def phase_ok_def set_phase_def)
qed

lemma same_conn_inv:
  assumes "session_inv u s" and "on c = on (ss_conn s)" and "c_grantGen c = c_grantGen (ss_conn s)"
  shows "session_inv u (s\<lparr>ss_conn := c\<rparr>)"
  using assms by (intro same_view_inv [OF _ assms(1)]) (simp add: same_view_def)

lemma reader_step_inv:
  assumes inv: "session_inv u s"
  shows "session_inv u (reader_step u failed backlog pick s)"
proof (cases "ss_phase s")
  case (Opening t)
  then have "session_inv u (s\<lparr>ss_conn := open_source t backlog pick (ss_conn s)\<rparr>)"
    using inv by (intro same_conn_inv) simp_all
  then show ?thesis using Opening by (simp add: reader_step_def set_phase_Idle_inv)
next
  case (Missed t)
  then show ?thesis
    using reader_missed_inv [OF inv Missed] by (auto simp: reader_step_def split: option.split)
next
  case (Authorized t g i)
  then show ?thesis
    using reader_enter_inv [OF inv Authorized] inv by (simp add: reader_step_def set_phase_Idle_inv)
qed (use inv in \<open>auto simp: reader_step_def set_phase_Idle_inv reader_started_inv sendError_def [symmetric]
      split: option.split intro!: set_phase_Idle_inv, simp_all add: sendError_def\<close>)

text \<open>Rechecks, deletions and the rows.\<close>

lemma recheck_inv:
  assumes inv: "session_inv u s"
  shows "session_inv u (recheck i s)"
proof -
  have "held_ok (recheck i s)" "targets_ok (recheck i s)"
    using inv by (simp_all add: session_inv_def held_ok_def targets_ok_def target_ok_def recheck_def cong: phase.case_cong)
  moreover have "phase_ok u (recheck i s)"
    using inv by (auto simp: session_inv_def phase_ok_def fine_def recheck_def split: phase.splits)
  moreover have "covered u (recheck i s) t j" if o: "on (ss_conn s) t = Some j" for t j
  proof (cases "j = i")
    case True
    then have "t \<in> set (filter (hangs_on i s) (ss_held s))"
      using inv o by (auto simp: session_inv_def held_ok_def hangs_on_def on_def)
    with True show ?thesis by (auto simp: covered_def recheck_def)
  next
    case False
    have "covered u s t j" using inv o by (simp add: session_inv_def subs_covered_def)
    with False show ?thesis by (auto simp: covered_def fine_def recheck_def)
  qed
  then have "subs_covered u (recheck i s)" by (simp add: subs_covered_def recheck_def)
  ultimately show ?thesis by (simp add: session_inv_def)
qed

text \<open>A recheck may forget a topic that passes now, or that is no longer held.\<close>

lemma forget_recheck_inv:
  assumes inv: "session_inv u s"
    and r: "\<And>t j ts. (j, ts) \<in> set (ss_rechecks s) \<Longrightarrow> t \<in> set ts \<Longrightarrow> on (ss_conn s) t = Some j \<Longrightarrow>
      allowed u s t j \<or> (\<exists>ts. (j, ts) \<in> set rs \<and> t \<in> set ts)"
  shows "session_inv u (s\<lparr>ss_rechecks := rs\<rparr>)"
proof -
  have "covered u (s\<lparr>ss_rechecks := rs\<rparr>) t j" if o: "on (ss_conn s) t = Some j" for t j
  proof -
    have "covered u s t j" using inv o by (simp add: session_inv_def subs_covered_def)
    then show ?thesis using r [of j _ t, OF _ _ o] by (auto simp: covered_def fine_def)
  qed
  then show ?thesis
    using inv by (simp add: session_inv_def held_ok_def targets_ok_def target_ok_def phase_ok_def fine_def subs_covered_def
        cong: phase.case_cong)
qed

lemma remove_nth_mem: "k < length xs \<Longrightarrow> x \<in> set xs \<Longrightarrow> x \<noteq> xs ! k \<Longrightarrow> x \<in> set (take k xs @ List.drop (Suc k) xs)"
  using id_take_nth_drop [of k xs] by (metis Un_iff set_ConsD set_append)

lemma update_nth_mem: "k < length xs \<Longrightarrow> x \<in> set xs \<Longrightarrow> x \<noteq> xs ! k \<Longrightarrow> x \<in> set (xs[k := y])"
  by (metis in_set_conv_nth length_list_update nth_list_update_neq)

lemma forget_topic_inv:
  assumes inv: "session_inv u s" and k: "k < length (ss_rechecks s)" "ss_rechecks s ! k = (i, t # ts)"
    and ok: "on (ss_conn s) t = Some i \<longrightarrow> allowed u s t i"
  shows "session_inv u (s\<lparr>ss_rechecks := (ss_rechecks s)[k := (i, ts)]\<rparr>)"
proof (rule forget_recheck_inv [OF inv])
  fix t' j ts'
  assume m: "(j, ts') \<in> set (ss_rechecks s)" "t' \<in> set ts'" "on (ss_conn s) t' = Some j"
  show "allowed u s t' j \<or> (\<exists>ts''. (j, ts'') \<in> set ((ss_rechecks s)[k := (i, ts)]) \<and> t' \<in> set ts'')"
  proof (cases "(j, ts') = ss_rechecks s ! k")
    case True
    then have "(j, ts) \<in> set ((ss_rechecks s)[k := (i, ts)])" using k by (simp add: set_update_memI)
    with True m k(2) ok show ?thesis by auto
  next
    case False
    then show ?thesis using update_nth_mem [OF k(1) m(1) False] m(2) by blast
  qed
qed

lemma drop_with_fields [simp]:
  "ss_rechecks (drop_with code t s) = ss_rechecks s"
  "on (ss_conn (drop_with code t s)) t = None"
  "drop_with code t (s\<lparr>ss_rechecks := rs\<rparr>) = (drop_with code t s)\<lparr>ss_rechecks := rs\<rparr>"
  by (auto simp: drop_with_def sendError_def drop_topic_def on_None drop_sub_def)

lemma recheck_next_inv:
  assumes inv: "session_inv u s"
  shows "session_inv u (recheck_next u k s)"
proof (cases "k < length (ss_rechecks s)")
  case k: True
  let ?rs = "ss_rechecks s"
  obtain i ts where i: "?rs ! k = (i, ts)" by fastforce
  show ?thesis
  proof (cases ts)
    case Nil
    have "session_inv u (s\<lparr>ss_rechecks := take k ?rs @ List.drop (Suc k) ?rs\<rparr>)"
    proof (rule forget_recheck_inv [OF inv])
      fix t' j ts'
      assume m: "(j, ts') \<in> set ?rs" "t' \<in> set ts'"
      then have "(j, ts') \<noteq> ?rs ! k" using i Nil by auto
      then show "allowed u s t' j \<or> (\<exists>ts''. (j, ts'') \<in> set (take k ?rs @ List.drop (Suc k) ?rs) \<and> t' \<in> set ts'')"
        using remove_nth_mem [OF k m(1)] m(2) by blast
    qed
    then show ?thesis using Nil i k by (simp add: recheck_next_def)
  next
    case (Cons t ts')
    then have i': "?rs ! k = (i, t # ts')" using i by simp
    then show ?thesis
      using k forget_topic_inv [OF inv k i'] forget_topic_inv [OF drop_with_inv [OF inv, of Forbidden t], of k i t ts']
      by (simp add: recheck_next_def Let_def)
  qed
qed (use inv in \<open>simp add: recheck_next_def\<close>)

lemma drops_inv [simp]: "session_inv u (s\<lparr>ss_drops := d\<rparr>) = session_inv u s"
  using same_view_inv [of s "s\<lparr>ss_drops := d\<rparr>" u] same_view_inv [of "s\<lparr>ss_drops := d\<rparr>" s u] by (auto simp: same_view_def)

lemma drop_next_inv: "session_inv u s \<Longrightarrow> session_inv u (drop_next k s)"
  by (simp add: drop_next_def drop_with_inv split: list.split)

lemma commit_grant_inv:
  assumes inv: "session_inv u s"
  shows "session_inv u (commit_grant i g s)"
proof -
  have f: "fine u (commit_grant i g s) t j" if "fine u s t j" for t j
    using that allowed_cong [of "commit_grant i g s" j s u t] by (cases "j = i") (auto simp: fine_def commit_grant_def)
  then have "covered u (commit_grant i g s) t j" if "covered u s t j" for t j
    using that by (auto simp: covered_def commit_grant_def)
  then have "subs_covered u (commit_grant i g s)"
    using inv by (simp add: session_inv_def subs_covered_def commit_grant_def)
  moreover have "phase_ok u (commit_grant i g s)"
    using inv f by (auto simp: session_inv_def phase_ok_def commit_grant_def split: phase.splits)
  moreover have "held_ok (commit_grant i g s)" "targets_ok (commit_grant i g s)"
    using inv by (simp_all add: session_inv_def held_ok_def targets_ok_def target_ok_def commit_grant_def cong: phase.case_cong)
  ultimately show ?thesis by (simp add: session_inv_def)
qed

lemma rows_inv:
  assumes inv: "session_inv u s" and d: "ss_deleted s \<subseteq> ds" and ne: "[] \<notin> is'" "[] \<notin> ds"
    and t: "\<And>t i. target_ok s t i \<Longrightarrow> target_ok (s\<lparr>ss_instances := is', ss_jobs := js, ss_deleted := ds\<rparr>) t i"
  shows "session_inv u (s\<lparr>ss_instances := is', ss_jobs := js, ss_deleted := ds\<rparr>)" (is "session_inv u ?s")
proof -
  have f: "fine u ?s t i" if "fine u s t i" for t i using that d by (auto simp: fine_def)
  have "covered u ?s t i" if "covered u s t i" for t i using that f [of t i] by (auto simp: covered_def)
  then have "subs_covered u ?s" using inv by (simp add: session_inv_def subs_covered_def)
  moreover have "phase_ok u ?s" using inv f by (auto simp: session_inv_def phase_ok_def split: phase.splits)
  moreover have "held_ok ?s" using inv by (simp add: session_inv_def held_ok_def cong: phase.case_cong)
  moreover have "targets_ok ?s" using inv t ne by (auto simp: session_inv_def targets_ok_def split: phase.splits)
  ultimately show ?thesis by (simp add: session_inv_def)
qed

lemma row_ids: "session_inv u s \<Longrightarrow> [] \<notin> ss_instances s \<and> [] \<notin> ss_deleted s"
  by (simp add: session_inv_def targets_ok_def)

lemma row_updates:
  "s\<lparr>ss_instances := is', ss_jobs := ss_jobs s, ss_deleted := ss_deleted s\<rparr> = s\<lparr>ss_instances := is'\<rparr>"
  "s\<lparr>ss_instances := ss_instances s, ss_jobs := js, ss_deleted := ss_deleted s\<rparr> = s\<lparr>ss_jobs := js\<rparr>"
  "s\<lparr>ss_instances := is', ss_jobs := js, ss_deleted := ds\<rparr> = s\<lparr>ss_instances := is', ss_deleted := ds, ss_jobs := js\<rparr>"
  by simp_all

lemma add_instance_inv:
  assumes inv: "session_inv u s"
  shows "session_inv u (add_instance i s)"
proof (cases "i = [] \<or> i \<in> ss_deleted s")
  case False
  then have "session_inv u (s\<lparr>ss_instances := insert i (ss_instances s), ss_jobs := ss_jobs s, ss_deleted := ss_deleted s\<rparr>)"
    using row_ids [OF inv] by (intro rows_inv [OF inv]) (auto simp: target_ok_def resolve_def split: if_splits)
  then show ?thesis using False unfolding row_updates by (simp add: add_instance_def)
qed (use inv in \<open>simp add: add_instance_def\<close>)

lemma add_job_inv:
  assumes inv: "session_inv u s"
  shows "session_inv u (add_job j i s)"
proof (cases "ss_jobs s j \<noteq> None \<or> \<not> (i = [] \<or> i \<in> ss_instances s)")
  case False
  then have "session_inv u (s\<lparr>ss_instances := ss_instances s, ss_jobs := (ss_jobs s)(j \<mapsto> i), ss_deleted := ss_deleted s\<rparr>)"
    using row_ids [OF inv] by (intro rows_inv [OF inv]) (auto simp: target_ok_def resolve_def split: if_splits)
  then show ?thesis using False unfolding row_updates by (auto simp: add_job_def)
qed (use inv in \<open>simp add: add_job_def\<close>)

lemma delete_instance_inv:
  assumes inv: "session_inv u s"
  shows "session_inv u (delete_instance i s)"
proof (cases "i \<in> ss_instances s")
  case True
  then have "i \<noteq> []" using row_ids [OF inv] by auto
  then have "session_inv u (s\<lparr>ss_instances := ss_instances s - {i},
      ss_jobs := (\<lambda>j. map_option (\<lambda>x. if x = i then [] else x) (ss_jobs s j)), ss_deleted := insert i (ss_deleted s)\<rparr>)"
    using row_ids [OF inv] by (intro rows_inv [OF inv]) (auto simp: target_ok_def resolve_def split: if_splits)
  then show ?thesis using True unfolding row_updates(3) by (simp add: delete_instance_def)
qed (use inv in \<open>simp add: delete_instance_def\<close>)

lemma session_step_inv:
  assumes inv: "session_inv u s"
  shows "session_inv u (session_step u a s)"
proof (cases a)
  case (FlushError pick)
  then show ?thesis
    using inv by (auto simp: flush_error_def same_view_def split: list.split intro!: same_view_inv [OF _ inv])
next
  case (Traffic a)
  then show ?thesis using inv traffic_on by (auto intro!: same_conn_inv)
qed (use inv in \<open>simp_all add: subscribe_inv unsubscribe_inv reader_step_inv commit_grant_inv recheck_inv recheck_next_inv
    add_instance_inv add_job_inv delete_instance_inv dropInstance_def drop_next_inv\<close>)

interpretation se: step_invariant "session_step u" "session_inv u" for u
  by unfold_locales (rule session_step_inv)

lemma session_run_inv: "session_inv u s \<Longrightarrow> session_inv u (session_run u s acts)"
  unfolding session_run_def by (rule se.runs_good)

lemma new_session_inv: "[] \<notin> instances \<Longrightarrow> session_inv u (new_session grants instances job_instances)"
  by (simp add: new_session_def inv_defs newConn_def on_def)

subsection \<open>What it means\<close>

text \<open>C10. A subscription never outlives its authorization unnoticed. Whatever a reader, the sources, any number of grant
  changes and their rechecks do and in whatever order, a connection holds a topic only while \<open>Can\<close> allows it,
  except between a change of that instance's grant and the end of its recheck, while the reader repeats a check
  that a recheck passed by, or when the instance is gone.\<close>

theorem subscriptions_stay_authorized:
  assumes "[] \<notin> instances"
    and "s = session_run u (new_session grants instances job_instances) acts"
    and "c_subs (ss_conn s) t = Some sub" and "i = sub_instanceID sub"
    and "i \<notin> ss_deleted s" and "i \<notin> ss_owed s" and "i \<notin> fst ` set (ss_rechecks s)" and "ss_phase s \<noteq> Missed t"
  shows "\<exists>act. topic_Action t = Some act \<and> Can (\<lambda>_. ss_grants s) (Some u) act i"
proof -
  have "session_inv u s" using session_run_inv [OF new_session_inv [OF assms(1)]] assms(2) by simp
  moreover have "on (ss_conn s) t = Some i" using assms(3,4) by (simp add: on_def)
  ultimately have "covered u s t i" by (simp add: session_inv_def subs_covered_def)
  then have "allowed u s t i" using assms(5-8) by (force simp: covered_def fine_def)
  then show ?thesis by (auto simp: allowed_def may_def split: option.splits)
qed

text \<open>A connection never holds more than its limit of topics.\<close>

lemma topics_bounded:
  assumes "[] \<notin> instances" and "s = session_run u (new_session grants instances job_instances) acts"
  shows "finite (dom (c_subs (ss_conn s))) \<and> card (dom (c_subs (ss_conn s))) \<le> 64"
proof -
  have "session_inv u s" using session_run_inv [OF new_session_inv [OF assms(1)]] assms(2) by simp
  then have "held_ok s" by (simp add: session_inv_def)
  moreover have "dom (on (ss_conn s)) = dom (c_subs (ss_conn s))" by (auto simp: on_def)
  ultimately have "set (ss_held s) = dom (c_subs (ss_conn s))" "length (ss_held s) \<le> 64"
    by (simp_all add: held_ok_def maxTopics_def)
  then show ?thesis by (metis List.finite_set card_length order.trans)
qed

definition example_user :: user where
  "example_user = \<lparr>UserID = ''u'', Username = ''u'', UserRole = RoleMember, Disabled = False, Owner = False\<rparr>"

definition example_grants :: "string \<Rightarrow> unit + grant option" where
  "example_grants = (\<lambda>_. Inr (Some \<lparr>GrantRole = ''viewer'', Perms = []\<rparr>))"

definition example_race :: "nat session_action list" where
  "example_race =
     [Subscribe ''instance.a.console'', ReaderStep False [] False, ReaderStep False [] False, ReaderStep False [] False,
      CommitGrant ''a'' (Inr (Some \<lparr>GrantRole = ''operator'', Perms = []\<rparr>)), GrantChanged ''a'', RecheckNext 0,
      ReaderStep False [] False, ReaderStep False [] False, ReaderStep False [] False]"

theorem subscriptions_stay_authorized_witness:
  "let s = session_run example_user (new_session example_grants {''a''} Map.empty) example_race;
       t = \<lparr>t_kind = KindConsole, t_id = ''a''\<rparr>
   in on (ss_conn s) t = Some ''a'' \<and> c_grantGen (ss_conn s) = 1 \<and>
      (\<exists>act. topic_Action t = Some act \<and> Can (\<lambda>_. ss_grants s) (Some example_user) act ''a'')"
proof -
  let ?s = "session_run example_user (new_session example_grants {''a''} Map.empty) example_race"
  let ?t = "\<lparr>t_kind = KindConsole, t_id = ''a''\<rparr>"
  have on: "on (ss_conn ?s) ?t = Some ''a''" by code_simp
  then obtain sub where sub: "c_subs (ss_conn ?s) ?t = Some sub" "''a'' = sub_instanceID sub"
    by (rule on_SomeE)
  have "''a'' \<notin> ss_deleted ?s" by code_simp
  moreover have "''a'' \<notin> ss_owed ?s" by code_simp
  moreover have "''a'' \<notin> fst ` set (ss_rechecks ?s)" by code_simp
  moreover have "ss_phase ?s \<noteq> Missed ?t" by code_simp
  moreover have "[] \<notin> {''a''}" by simp
  ultimately have "\<exists>act. topic_Action ?t = Some act \<and> Can (\<lambda>_. ss_grants ?s) (Some example_user) act ''a''"
    using subscriptions_stay_authorized [OF _ HOL.refl sub] by blast
  moreover have "c_grantGen (ss_conn ?s) = 1" by code_simp
  ultimately show ?thesis unfolding Let_def using on by blast
qed

text \<open>Deleting an instance does not count as a recheck: a subscription authorized before the deletion and entered after its
  topics were dropped stays. Here a member keeps following a job of an instance that is gone, which the same
  member could not subscribe to any more.\<close>

lemma subscription_survives_deletion:
  "let s = session_run example_user (new_session example_grants {''a''} [''j'' \<mapsto> ''a''])
        [Subscribe ''job.j'', ReaderStep False [] False, ReaderStep False [] False, ReaderStep False [] False,
         DeleteInstance ''a'', InstanceDeleted ''a'', DropNext 0,
         ReaderStep False [] False, ReaderStep False [] False :: nat session_action];
       t = \<lparr>t_kind = KindJob, t_id = ''j''\<rparr>
   in ss_phase s = Idle \<and> ss_drops s = [] \<and> on (ss_conn s) t = Some ''a'' \<and> authorize example_user False s t = None"
  by code_simp

subsection \<open>The registry of connections\<close>

record hub_conn =
  hc_id :: nat
  hc_user :: string
  hc_session :: string
  hc_at :: int
  hc_closed :: "int option"

definition hc_close :: "int \<Rightarrow> hub_conn \<Rightarrow> hub_conn" where
  "hc_close code c = (if hc_closed c = None then c\<lparr>hc_closed := Some code\<rparr> else c)"

text \<open>\<open>tally\<close> keeps the first of the oldest connections it is shown, in the order the map is ranged over.\<close>

fun tally_oldest :: "hub_conn \<Rightarrow> hub_conn list \<Rightarrow> hub_conn" where
  "tally_oldest old [] = old"
| "tally_oldest old (c # cs) = tally_oldest (if hc_at c < hc_at old then c else old) cs"

definition oldest :: "hub_conn list \<Rightarrow> hub_conn option" where
  "oldest cs = (case cs of [] \<Rightarrow> None | c # cs \<Rightarrow> Some (tally_oldest c cs))"

definition close_oldest :: "hub_conn list \<Rightarrow> hub_conn list \<Rightarrow> hub_conn list" where
  "close_oldest cs conns =
     (case oldest cs of
        None \<Rightarrow> conns
      | Some old \<Rightarrow> map (\<lambda>c. if hc_id c = hc_id old then hc_close 1008 c else c) conns)"

definition of_user :: "hub_conn \<Rightarrow> hub_conn list \<Rightarrow> hub_conn list" where
  "of_user c conns = filter (\<lambda>x. hc_user x = hc_user c) conns"

definition of_session :: "hub_conn \<Rightarrow> hub_conn list \<Rightarrow> hub_conn list" where
  "of_session c conns = filter (\<lambda>x. hc_session x = hc_session c) (of_user c conns)"

text \<open>The second result is the connection itself when a closed hub refuses it.\<close>

definition hub_add :: "bool \<Rightarrow> hub_conn \<Rightarrow> hub_conn list \<Rightarrow> hub_conn list \<times> hub_conn option" where
  "hub_add shut c conns =
     (if shut then (conns, Some (hc_close 1001 c))
      else let conns = conns @ [c]
        in (if length (of_session c conns) > 8 then close_oldest (of_session c conns) conns
            else if length (of_user c conns) > 32 then close_oldest (of_user c conns) conns
            else conns, None))"

definition hub_remove :: "nat \<Rightarrow> hub_conn list \<Rightarrow> hub_conn list" where
  "hub_remove cid conns = filter (\<lambda>c. hc_id c \<noteq> cid) conns"

definition SessionRevoked :: "string \<Rightarrow> hub_conn list \<Rightarrow> hub_conn list" where
  "SessionRevoked sessionID conns = map (\<lambda>c. if hc_session c = sessionID then hc_close 4401 c else c) conns"

definition UserRevoked :: "string \<Rightarrow> hub_conn list \<Rightarrow> hub_conn list" where
  "UserRevoked userID conns = map (\<lambda>c. if hc_user c = userID then hc_close 4401 c else c) conns"

definition hub_Close :: "hub_conn list \<Rightarrow> hub_conn list" where
  "hub_Close conns = map (hc_close 1001) conns"

definition open_conns :: "hub_conn list \<Rightarrow> hub_conn list" where
  "open_conns conns = filter (\<lambda>c. hc_closed c = None) conns"

lemma SessionRevoked_closes: "c \<in> set (open_conns (SessionRevoked x conns)) \<Longrightarrow> hc_session c \<noteq> x"
  by (induction conns) (auto simp: open_conns_def SessionRevoked_def hc_close_def split: if_split_asm)

lemma UserRevoked_closes: "c \<in> set (open_conns (UserRevoked x conns)) \<Longrightarrow> hc_user c \<noteq> x"
  by (induction conns) (auto simp: open_conns_def UserRevoked_def hc_close_def split: if_split_asm)

lemma hub_Close_closes: "open_conns (hub_Close conns) = []"
  by (induction conns) (simp_all add: open_conns_def hub_Close_def hc_close_def)

lemma tally_oldest_mem: "tally_oldest old cs \<in> insert old (set cs)"
  by (induction cs arbitrary: old) auto

lemma oldest_mem: "oldest cs = Some old \<Longrightarrow> old \<in> set cs"
  using tally_oldest_mem by (auto simp: oldest_def split: list.splits)

lemma open_close_oldest:
  "oldest cs = Some old \<Longrightarrow> open_conns (close_oldest cs conns) = filter (\<lambda>c. hc_id c \<noteq> hc_id old) (open_conns conns)"
  by (induction conns) (auto simp: open_conns_def close_oldest_def hc_close_def)

text \<open>When every closed connection has left the registry, the session keeps to its cap.\<close>

lemma hub_add_keeps_session_cap:
  assumes "\<forall>x \<in> set conns. hc_closed x = None" and "hc_closed c = None" and "length (of_session c conns) \<le> 8"
  shows "length (of_session c (open_conns (fst (hub_add False c conns)))) \<le> 8"
proof -
  let ?conns = "conns @ [c]"
  have all: "open_conns ?conns = ?conns" using assms(1,2) by (simp add: open_conns_def filter_id_conv)
  have nine: "length (of_session c ?conns) = Suc (length (of_session c conns))"
    by (simp add: of_session_def of_user_def)
  have le: "length (of_session c (filter P xs)) \<le> length (of_session c xs)" for P xs
    by (induction xs) (simp_all add: of_session_def of_user_def)
  show ?thesis
  proof (cases "length (of_session c ?conns) > 8")
    case True
    then have "of_session c ?conns \<noteq> []" by auto
    then obtain old where old: "oldest (of_session c ?conns) = Some old" by (cases "of_session c ?conns") (simp_all add: oldest_def)
    have "of_session c (filter P xs) = filter P (of_session c xs)" for P xs
      by (simp add: of_session_def of_user_def conj_commute conj_left_commute)
    then have "of_session c (open_conns (fst (hub_add False c conns))) = filter (\<lambda>x. hc_id x \<noteq> hc_id old) (of_session c ?conns)"
      using True by (simp add: hub_add_def Let_def open_close_oldest [OF old] all del: filter_append)
    moreover have "length (filter (\<lambda>x. hc_id x \<noteq> hc_id old) (of_session c ?conns)) < length (of_session c ?conns)"
      using oldest_mem [OF old] by (intro length_filter_less) auto
    ultimately show ?thesis using nine assms(3) by simp
  next
    case False
    have X: "fst (hub_add False c conns) = (if length (of_user c ?conns) > 32 then close_oldest (of_user c ?conns) ?conns else ?conns)"
      using False by (simp add: hub_add_def Let_def)
    show ?thesis
    proof (cases "length (of_user c ?conns) > 32")
      case True
      then obtain old where old: "oldest (of_user c ?conns) = Some old" by (cases "of_user c ?conns") (simp_all add: oldest_def)
      show ?thesis
        using False True le [of "\<lambda>x. hc_id x \<noteq> hc_id old" ?conns]
        by (simp add: X open_close_oldest [OF old] all del: filter_append)
    next
      case f: False
      show ?thesis using False by (simp only: X f if_False all)
    qed
  qed
qed

definition example_conn :: "int \<Rightarrow> hub_conn" where
  "example_conn n = \<lparr>hc_id = nat n, hc_user = ''u'', hc_session = ''s'', hc_at = n, hc_closed = None\<rparr>"

definition example_registry :: "int list \<Rightarrow> hub_conn list" where
  "example_registry ns = fold (\<lambda>n conns. fst (hub_add False (example_conn n) conns)) ns []"

text \<open>A connection closed for being one too many stays in the registry until its handler returns. Until then it is still
  the oldest, so every further connection of the session closes it once more and none of the others: here a
  tenth and an eleventh are let in beside eight open ones.\<close>

lemma cap_not_kept_while_closing:
  "length (open_conns (example_registry [1, 2, 3, 4, 5, 6, 7, 8, 9, 10, 11])) = 10"
  by code_simp

subsection \<open>The upgrade and the reader\<close>

datatype upgrade_error = Unauthenticated | OriginRejected | CSRFFailed

text \<open>\<open>ServeHTTP\<close> up to the upgrade; the result says whether the token came with it. \<open>csrfOK\<close> is the configured check.\<close>

definition ServeHTTP ::
  "(string \<Rightarrow> string \<Rightarrow> bool) \<Rightarrow> string \<Rightarrow> user option \<Rightarrow> string \<Rightarrow> string \<Rightarrow> string \<Rightarrow> upgrade_error + bool" where
  "ServeHTTP csrfOK cfgOrigin u sessionID origin token =
     (if u = None \<or> sessionID = [] then Inl Unauthenticated
      else if origin \<noteq> cfgOrigin then Inl OriginRejected
      else if token \<noteq> [] \<and> \<not> csrfOK sessionID token then Inl CSRFFailed
      else Inr (token \<noteq> []))"

record clientMsg =
  cm_type :: string
  cm_topics :: "string list"
  cm_instance :: string
  cm_csrf :: string

datatype incoming = NotText | BadJSON | Parsed clientMsg

text \<open>What the reader does with each message: hand it to \<open>dispatch\<close>, answer an error, ignore it, or close.\<close>

datatype reading = Dispatched clientMsg | Answered ws_code | Ignored | Refused

fun readLoop :: "(string \<Rightarrow> bool) \<Rightarrow> bool \<Rightarrow> incoming list \<Rightarrow> reading list" where
  "readLoop csrfOK csrfDone [] = []"
| "readLoop csrfOK csrfDone (NotText # ms) = Ignored # readLoop csrfOK csrfDone ms"
| "readLoop csrfOK csrfDone (BadJSON # ms) = Answered MalformedJSON # readLoop csrfOK csrfDone ms"
| "readLoop csrfOK csrfDone (Parsed m # ms) =
     (if \<not> csrfDone \<and> \<not> csrfOK (cm_csrf m) then [Refused]
      else Dispatched m # readLoop csrfOK True ms)"

text \<open>The requests one message makes. Each topic is charged to the session's budget at the time it is reached, which
  \<open>clock\<close> tells by position, and the first one over budget ends the message.\<close>

datatype request = ToSubscribe string | ToUnsubscribe string | ToPong | ToCommand string | ToError string ws_code

fun churn :: "(string \<Rightarrow> request) \<Rightarrow> string \<Rightarrow> (string \<times> rat) list \<Rightarrow> Limiter \<Rightarrow> request list \<times> Limiter" where
  "churn f sessionID [] l = ([], l)"
| "churn f sessionID ((raw, now) # rest) l =
     (case Allow sessionID now l of
        ((True, _), l) \<Rightarrow> (case churn f sessionID rest l of (rs, l) \<Rightarrow> (f raw # rs, l))
      | ((False, _), l) \<Rightarrow> ([ToError raw RateLimited], l))"

definition timed :: "(nat \<Rightarrow> rat) \<Rightarrow> string list \<Rightarrow> (string \<times> rat) list" where
  "timed clock topics = zip topics (map clock [0 ..< length topics])"

definition dispatch :: "string \<Rightarrow> (nat \<Rightarrow> rat) \<Rightarrow> clientMsg \<Rightarrow> Limiter \<Rightarrow> request list \<times> Limiter" where
  "dispatch sessionID clock m l =
     (if cm_type m = ''subscribe'' then churn ToSubscribe sessionID (timed clock (cm_topics m)) l
      else if cm_type m = ''unsubscribe'' then churn ToUnsubscribe sessionID (timed clock (cm_topics m)) l
      else if cm_type m = ''ping'' then ([ToPong], l)
      else if cm_type m = ''console.command'' then ([ToCommand (cm_instance m)], l)
      else ([ToError [] InvalidParameter], l))"

definition command :: "user \<Rightarrow> string \<Rightarrow> 'p session \<Rightarrow> 'p session" where
  "command u instanceID s =
     (if instanceID = [] \<or> \<not> may u s CommandsSend instanceID then sendError [] NotFound s
      else sendError [] Unsupported s)"

definition unsubscribeAll :: "'p session \<Rightarrow> 'p session" where
  "unsubscribeAll s = fold drop_topic (ss_held s) s"

text \<open>One look of \<open>watchExpiry\<close> at the session: an unreadable, missing or expired one closes the connection, any other
  arms the timer again for when it would expire.\<close>

definition expiry_check :: "unit + int option \<Rightarrow> int \<Rightarrow> 'p conn \<Rightarrow> 'p conn \<times> int option" where
  "expiry_check expiry now c =
     (case expiry of
        Inl _ \<Rightarrow> (close 4401 c, None)
      | Inr None \<Rightarrow> (close 4401 c, None)
      | Inr (Some until) \<Rightarrow> if until \<le> now then (close 4401 c, None) else (c, Some until))"

lemma expiry_check_exact:
  "c_closed c = None \<Longrightarrow>
     (case expiry_check expiry now c of (c', timer) \<Rightarrow>
        (c_closed c' = None \<longleftrightarrow> (\<exists>until. expiry = Inr (Some until) \<and> now < until \<and> timer = Some until)) \<and>
        (c_closed c' = Some 4401 \<longleftrightarrow> timer = None))"
  by (auto simp: expiry_check_def close_def split: sum.split option.split)

lemma drop_all:
  "c_subs (ss_conn (fold drop_topic ts s)) = (\<lambda>t. if t \<in> set ts then None else c_subs (ss_conn s) t)"
  by (induction ts arbitrary: s) (auto simp: drop_topic_def drop_sub_def fun_eq_iff)

text \<open>A connection that ends leaves no source open.\<close>

lemma unsubscribeAll_clears:
  assumes "session_inv u s"
  shows "c_subs (ss_conn (unsubscribeAll s)) = Map.empty"
proof -
  have "set (ss_held s) = dom (on (ss_conn s))" using assms by (simp add: session_inv_def held_ok_def)
  then show ?thesis by (auto simp: unsubscribeAll_def drop_all on_def fun_eq_iff)
qed

text \<open>Nothing is dispatched for a page that did not show the token: it came with the upgrade or with the first message
  that could be read.\<close>

fun first_csrf :: "incoming list \<Rightarrow> string option" where
  "first_csrf [] = None"
| "first_csrf (Parsed m # ms) = Some (cm_csrf m)"
| "first_csrf (_ # ms) = first_csrf ms"

lemma dispatch_needs_token:
  assumes "ServeHTTP csrfOK cfgOrigin u sessionID origin token = Inr csrfDone"
    and "Dispatched m \<in> set (readLoop (csrfOK sessionID) csrfDone ms)"
  shows "origin = cfgOrigin \<and> (csrfOK sessionID token \<or> (\<exists>first. first_csrf ms = Some first \<and> csrfOK sessionID first))"
proof -
  have "csrfDone \<or> (\<exists>first. first_csrf ms = Some first \<and> csrfOK sessionID first)"
    using assms(2) by (induction ms rule: first_csrf.induct) (auto split: if_splits)
  then show ?thesis using assms(1) by (auto simp: ServeHTTP_def split: if_splits)
qed

end
