(* ===== verification/Spec2Isabelle.thy ===== *)
theory Spec2Isabelle
  imports Resolver_Properties Resolver_Errors User_Store Observer Job_Engine Mod_Plan_Properties Mod_Decisions
    Uninstall_Job Retention World_Swap Scheduler Config_Properties Alert_Properties
    Instance_Ports Share_Code Rate_Limit Account_Properties Planned_Shutdown
    Ws_Subscriptions
begin

text \<open>
  Verification of \<open>valmind\<close>, the daemon of the valmin game-server panel (Go, under \<^verbatim>\<open>src/internal\<close>).

  \<^bold>\<open>The program.\<close> One process supervises game servers that run in containers. Everything it knows is in one
  SQLite database and in the directories of its instances. Requests from the HTTP interface are
  authorized (\<open>authz\<close> over the grants in \<open>store/users.go\<close>) and become jobs (\<open>jobs\<close> over \<open>store/jobs.go\<close>). A job
  takes its lock keys in one transaction, runs, and releases them as it finishes. Jobs install, toggle and
  remove mods (\<open>mods/resolver\<close>, \<open>mods/manager\<close>, \<open>mods/installer\<close>), write and prune archives and publish
  restored worlds (\<open>backup\<close>), and move an instance along its lifecycle (\<open>instance/state.go\<close>). Beside the jobs
  run the observer (\<open>instance/observe.go\<close>, \<open>instance/control/supervisor.go\<close>), which repairs what the database
  and the containers disagree on for instances no job has locked, and the clock (\<open>scheduler\<close>), which submits
  the jobs that are due. The process may die at any instruction; a sweep at the next start closes the dead
  jobs and undoes what they left on disk.

  \<^bold>\<open>The theories\<close>, in the order they build on each other, and the sources they model:

  \<^item> \<open>Go_Prelude\<close>: what the components use of Go (\<open>strconv.Atoi\<close> on 64 bits, \<open>strings\<close>, zero values of missing
    map keys), results as a sum type with \<open>rbind\<close>, tables as lists of rows, the shared lemma collections.
  \<^item> \<open>Version_Order\<close>, \<open>Semver\<close>: \<open>mods/semver\<close>. \<open>Parse\<close>, \<open>Compare\<close>, pre-release order; which order laws hold.
  \<^item> \<open>Resolver\<close>, \<open>Resolver_Closure\<close>, \<open>Resolver_Properties\<close>, \<open>Resolver_Errors\<close>: \<open>mods/resolver/resolver.go\<close>. The
    walk, its invariant, and what a returned closure or a returned error means.
  \<^item> \<open>Authz\<close>, \<open>User_Store\<close>: \<open>authz\<close> and the users and grants of \<open>store/users.go\<close>. The decision on every branch, the
    list and visibility forms of it, protection of the owner under every administration step.
  \<^item> \<open>Job_Kind\<close>, \<open>Job_Store\<close>, \<open>Job_Log\<close>, \<open>Job_Engine\<close>: \<open>jobs\<close> and \<open>store/jobs.go\<close>, \<open>store/lease.go\<close>. The job and lock
    tables with each transaction as one step of \<open>job_step\<close>, the capped log, progress, submission,
    cancellation, the daemon lease, and the boot-time sweep of \<open>instance/control/supervisor.go\<close> with the update checks
    it submits again.
  \<^item> \<open>Instance_State\<close>, \<open>Observer\<close>: the transition table with its compare-and-swap writes, the recovery matrix, the
    crash-loop guard, and the reconciliation pass.
  \<^item> \<open>Mod_Store\<close>, \<open>Mod_Index\<close>, \<open>Mod_Plan\<close>, \<open>Mod_Plan_Properties\<close>, \<open>Mod_Decisions\<close>: the catalogue and
    installed-package tables (\<open>store/mods.go\<close>, \<open>store/instance_mods.go\<close>), and the planner of \<open>mods/manager\<close> --
    the index the resolver reads, install and update plans, modpack members, conflicts, uninstall sets,
    toggles, update selection.
  \<^item> \<open>Installer\<close>, \<open>Install_Job\<close>, \<open>Parking\<close>, \<open>Uninstall_Job\<close>: the file side of the same jobs (\<open>mods/installer\<close>, and
    \<open>resolve.go\<close>, \<open>commit.go\<close>, \<open>rollback.go\<close>, \<open>recovery.go\<close>, \<open>toggle.go\<close>, \<open>uninstall.go\<close> of \<open>mods/manager\<close>). A
    directory tree is a map from relative paths to bytes.
  \<^item> \<open>Retention\<close>: \<open>backup/prune.go\<close> and \<open>backup/remotecopy/retention.go\<close>. \<open>World_Swap\<close>: the staged swap and its
    recovery in \<open>backup/restore.go\<close>. \<open>Scheduler\<close>: \<open>scheduler/scheduler.go\<close> over \<open>store/schedules.go\<close>.
    \<open>Planned_Shutdown\<close>: the power-cut clock \<open>scheduler/shutdown.go\<close> over \<open>store/shutdowns.go\<close>, and \<open>scheduler/submit.go\<close>.
  \<^item> \<open>Go_Text\<close>, \<open>Config_Document\<close>, \<open>Config_Merge\<close>, \<open>Config_Properties\<close>: lines and white space of Go strings, and the
    configuration editor \<open>mods/config\<close> (\<open>document.go\<close>, \<open>tweaks.go\<close>, \<open>diff.go\<close>, \<open>pending.go\<close>). A file is its
    bytes; a document is its lines with the settings found in them.
  \<^item> \<open>Alerts\<close>, \<open>Alert_Store\<close>, \<open>Alert_Properties\<close>: \<open>alerts\<close>, the tables of \<open>store/alerts.go\<close>, and the dispatch in
    \<open>notify/delivery/alerts.go\<close>.
  \<^item> \<open>Instance_Store\<close>, \<open>Instance_Ports\<close>: the instance table of \<open>store/instances.go\<close> with all its columns and statements, and
    the port allocation of \<open>instance/ports.go\<close>.
  \<^item> \<open>Go_Encoding\<close>, \<open>Share_Code\<close>: decimal, URL-query and base64 encodings of Go's library, and \<open>sharecode\<close>.
    \<open>Rate_Limit\<close>: \<open>ratelimit/limiter.go\<close>.
  \<^item> \<open>Accounts\<close>, \<open>Account_Properties\<close>: logins, sessions, passwords, invites, the first administrator and trusted browsers
    (\<open>auth\<close>, \<open>store/sessions.go\<close>, \<open>store/invites.go\<close>), over the tables of \<open>User_Store\<close>.
  \<^item> \<open>Ws_Connection\<close>, \<open>Ws_Delivery\<close>, \<open>Ws_Gaps\<close>, \<open>Ws_Subscriptions\<close>: the WebSocket hub \<open>ws\<close>. Topics, the two queues of a
    connection and its writer (\<open>topic.go\<close>, \<open>conn.go\<close>); subscribing against grant changes and deletions, the
    registry of connections, the upgrade checks and the reader (\<open>subscribe.go\<close>, \<open>hub.go\<close>), over \<open>Authz\<close> and
    \<open>Rate_Limit\<close>.
  \<^item> This theory: the observer against the job tables.

  \<^bold>\<open>Correspondence.\<close> Definitions keep the Go names; a Go struct is a record with the fields the modelled code
  reads, a named string type with constants is a datatype, a table is a list of rows or a map by key, a
  transaction is a function from the tables to an error or new tables, and an error return is a value of a
  sum type whose constructors are the source's error sites. Log lines, error texts and metrics are left out.
  Code outside the repository appears as an argument: the hash (\<open>sha\<close>), the cron and time-zone libraries
  (record \<open>clock\<close>), what the supervisor asks of Docker and the logs (record \<open>world\<close>), the occupancy question
  of the clock (record \<open>hooks\<close>), the content hash of a grant, Unicode lower case (\<open>lower\<close>), fresh identifiers
  (\<open>fresh\<close>), the wall clock of a zone (\<open>local_minutes\<close>), which destinations a message renders for (\<open>prepare\<close>), compression and number formatting of share codes (\<open>deflate\<close>,
  \<open>inflate\<close>, \<open>formatFloat\<close>, \<open>parseFloat\<close>), what the engine publishes and the host can bind (\<open>engine\<close>, \<open>listen\<close>), argon2id (\<open>verify\<close>, \<open>weak\<close>) and the keyed MAC (\<open>mac\<close>).
  Token counts and instants of the rate limiter are exact rationals where the code has floating-point numbers.

  \<^bold>\<open>Loops and bounds.\<close> Loops over lists are structural recursion or folds. The two graph walks of the
  resolver recurse on data and take fuel; out of fuel is \<^term>\<open>None\<close>. One unit more than the number of
  packages the index knows always suffices and more changes nothing; over the database that bound is the
  number of catalogued versions plus one (\<open>Resolve_terminates_on_catalogue\<close>). Everything else is total.

  \<^bold>\<open>Concurrency and crashes.\<close> Concurrent transactions are sequences of steps (\<open>job_step\<close>, \<open>admin_step\<close>,
  \<open>mod_write\<close>, \<open>alert_step\<close>, \<open>inst_step\<close>, \<open>event_step\<close>,
  \<open>acct_step\<close>, \<open>power_step\<close>, \<open>conn_step\<close>, \<open>session_step\<close>) and the invariants hold after any number of them;
  \<open>inst_run\<close> and \<open>alert_run\<close> keep the history a property speaks of. A process that dies in the middle of
  a pass is a relation that holds of every state the pass can leave behind: \<open>stopped_at\<close> for the placing
  pass of an install, \<open>toggle_stopped\<close> for a toggle, any partial removal for an uninstall, and \<open>settling\<close>,
  \<open>swap_stopped\<close> and \<open>recover_stopped\<close> for a world swap and for a recovery that is itself killed. The theorems
  quantify over all of them.

  \<^bold>\<open>Interfaces.\<close> Each locale is a contract between two components, with the client's consequences proved in it:
  \<open>version_order\<close> (semver for the resolver), \<open>finite_index\<close> (the database index for the resolver's termination),
  \<open>grants_provider\<close> (the store for \<open>authz\<close>), \<open>lock_service\<close> (the job tables for whatever must not overlap),
  \<open>state_writer\<close> (the two guarded state writes, in and outside a transaction), and \<open>retention\<close> (the keep rule
  both the host walk and the remote walk follow). Each is interpreted on the model: \<open>vo\<close>, \<open>mi\<close>, \<open>gs\<close>, \<open>ls\<close>,
  \<open>ws\<close> and \<open>tw\<close>, \<open>lp\<close> and \<open>rm\<close>. \<open>step_invariant\<close> in the prelude carries an invariant of single actions to every
  interleaving of them (\<open>ll\<close> for the traffic of a connection, \<open>se\<close> for its subscriptions).

  \<^bold>\<open>What is shown.\<close> Resolver: completeness, minimality, exactness on requests and holds, genuine errors,
  termination. Planning: an accepted plan breaks no dependency, never touches a locked package, removes
  only members nothing needs. Files: an install, toggle, uninstall or swap that stops anywhere is undone or
  completed, exactly. Rows: a rollback restores them, the tables stay well-formed. Jobs: at most one runs per
  lock, claims are all or nothing, finishing releases, the sweep recovers, one daemon per database. Observer:
  legal single moves on unlocked instances only, owed stops are kept. Access: the decision, its derived forms,
  the owner. Retention: exactly what the rule dooms. Clock: a held run goes ahead at its deadline, once;
  before a power cut every running server is stopped in time, and the cut is announced once.
  Configuration files: an edit is in place, the operator's changes carry over to a new file, pending edits
  win. Alerts: a scan leaves exactly the observed conditions open, the messages about an edge are queued once for
  each rule, and a dispatch leaves nothing owed. Instances: no two share an identity or, off-grid adoptions apart, a
  port; an edit changes exactly what it names. Share codes are read back. The rate limiter serves every key as
  if it had a bucket of its own, grants no more than it should and tells a refused caller truthfully when to
  return. Accounts: a password change ends the sessions, sessions end, an invite works once and gives what it was issued with, the panel is set up once. Sockets: a topic is held only
  while it is allowed, nothing of a lossless topic is missed, what a lossy one lost is marked in its place as long as its
  numbers come from one counter and no live line passes the replay.
  Lemmas that name an unexpected behaviour of the code are \<open>Compare_not_antisymmetric\<close>, \<open>Parse_accepts_plus\<close>,
  \<open>ParseDependency_greedy\<close>, \<open>pattern_version_unreadable\<close>, \<open>crash_loop_missed\<close>, \<open>sweep_deletes_unsaved\<close>,
  \<open>unrecovered_import_loses_world\<close>, \<open>bracket_key_lost\<close>, \<open>reserved_port_given_away\<close>, \<open>unnamed_modifier_unreadable\<close>,
  \<open>empty_key_never_evicted\<close>, \<open>login_outlives_reset\<close>, \<open>rehash_undoes_reset\<close>, \<open>announced_again\<close>,
  \<open>quiet_time_inside_stop_window\<close>, \<open>reset_tears_the_console\<close>, \<open>live_line_overtakes_replay\<close>,
  \<open>subscription_survives_deletion\<close> and \<open>cap_not_kept_while_closing\<close>.

  \<^bold>\<open>Not modelled\<close>: HTTP handlers, the socket under a connection, cryptography, the Docker and Discord clients, archive
  encoding, downloads and uploads, directory modes and links, goroutine scheduling inside one handler, and
  failures of the database or the operating system other than the process dying. Planned next: memory
  assignment of instances, and request validation.
\<close>

section \<open>Facts that span components\<close>

text \<open>What the lock table gives the observer: in every table the job transactions reach, an instance whose job
  runs when a pass reads the held locks is left out of that pass. A job that takes the lock after that read is
  kept from the observer's write by the compare-and-swap of \<open>Reconcile_pass_safe\<close>.\<close>

lemma observer_skips_a_running_job:
  assumes "job_step\<^sup>*\<^sup>* (empty_jobs x) d" and "job_active d jid (InstanceLockKey i)"
  shows "state_of (rows (Reconcile_pass w now (HeldLockKeys d) containers all s)) i = state_of (rows s) i"
proof -
  have "HeldLockKeys d (InstanceLockKey i)"
    using ls.active_holds [OF ls.keeps_all [OF assms(1) empty_jobs_ok] assms(2)] by (simp add: HeldLockKeys_def)
  then show ?thesis
  proof (induction all arbitrary: s)
    case (Cons p all)
    obtain iid inst where p: "p = (iid, inst)" by fastforce
    show ?case
    proof (cases "HeldLockKeys d (InstanceLockKey iid)")
      case True
      with Cons p show ?thesis by simp
    next
      case False
      with Cons.prems have "iid \<noteq> i" by auto
      with reconcileOne_rows [of w now iid inst "containers iid" s i]
      have "state_of (rows (reconcileOne w now iid inst (containers iid) s)) i = state_of (rows s) i" by blast
      with Cons False p show ?thesis by simp
    qed
  qed simp
qed

lemma observer_skips_a_running_job_example:
  "\<exists>d :: unit jobs_db. job_active d ''j1'' ''instance:i'' \<and>
     state_of (rows (Reconcile_pass demo_world 0 (HeldLockKeys d) Map.empty [(''i'', demo_row StateRunning)] (demo_sup StateRunning))) ''i''
       = Some StateRunning"
proof -
  obtain d where d: "job_step (empty_jobs ()) d" "job_active d ''j1'' ''instance:i''"
    using job_step.claim [OF demo_claim] by (force simp: job_active_def demo_job_def claimed_row_def)
  then have "job_step\<^sup>*\<^sup>* (empty_jobs ()) d" by blast
  moreover from d(2) have "job_active d ''j1'' (InstanceLockKey ''i'')" by (simp add: InstanceLockKey_def)
  ultimately have "state_of (rows (Reconcile_pass demo_world 0 (HeldLockKeys d) Map.empty [(''i'', demo_row StateRunning)]
      (demo_sup StateRunning))) ''i'' = state_of (rows (demo_sup StateRunning)) ''i''"
    by (rule observer_skips_a_running_job)
  then have "state_of (rows (Reconcile_pass demo_world 0 (HeldLockKeys d) Map.empty [(''i'', demo_row StateRunning)]
      (demo_sup StateRunning))) ''i'' = Some StateRunning" unfolding demo_before .
  with d(2) show ?thesis by blast
qed

end
